(* ===== verification/JS_Prelude.thy ===== *)
theory JS_Prelude
  imports
    Complex_Main
    "HOL-Library.AList"
    "HOL-Library.Multiset"
    "HOL-Library.Word"
    "HOL-Library.List_Lexorder"
    "HOL-Library.Char_ord"
begin

text \<open>
  Prelude: the parts of the JavaScript language and standard library that the modelled
  sources use, and the generic lemmas the component theories share.

  \<^item> A \<^verbatim>\<open>Map\<close> is an association list in insertion order (\<open>('k, 'v) jmap\<close>): \<open>jset\<close>
    overwrites an existing key in place and appends a new one, as \<^verbatim>\<open>Map.prototype.set\<close>
    does; \<open>jget\<close>, \<open>jhas\<close>, \<open>jdelete\<close>, \<open>jkeys\<close>, \<open>jvalues\<close> are the other methods.
  \<^item> A \<^verbatim>\<open>Set\<close> is a duplicate-free list in insertion order (\<open>'a jset\<close>): \<open>sadd\<close>, \<open>sdel\<close>.
  \<^item> A number is a \<open>js_number\<close>: a finite value (a rational), an infinity or \<open>NaN\<close>.
    Finite arithmetic is exact, which is what double arithmetic is on safe integers.
  \<^item> The bitwise \<^verbatim>\<open>&\<close> converts both operands to 32-bit signed integers (\<open>js_and\<close>).
  \<^item> Strings are compared by code unit (\<open>List_Lexorder\<close> over \<open>Char_ord\<close>), as \<^verbatim>\<open><\<close>,
    \<^verbatim>\<open>>\<close> and the default \<^verbatim>\<open>Array.prototype.sort\<close> compare them.
\<close>

unbundle bit_operations_syntax

named_theorems js_defs "definitions of the JavaScript library operations"
named_theorems jmap_simps "lookup and key facts of the Map model"

section \<open>Maps\<close>

type_synonym ('k, 'v) jmap = "('k \<times> 'v) list"

definition jget :: "('k, 'v) jmap \<Rightarrow> 'k \<Rightarrow> 'v option" where
  "jget m k = map_of m k"

definition jhas :: "('k, 'v) jmap \<Rightarrow> 'k \<Rightarrow> bool" where
  "jhas m k = (map_of m k \<noteq> None)"

definition jset :: "('k, 'v) jmap \<Rightarrow> 'k \<Rightarrow> 'v \<Rightarrow> ('k, 'v) jmap" where
  "jset m k v = AList.update k v m"

definition jdelete :: "('k, 'v) jmap \<Rightarrow> 'k \<Rightarrow> ('k, 'v) jmap" where
  "jdelete m k = AList.delete k m"

definition jkeys :: "('k, 'v) jmap \<Rightarrow> 'k list" where
  "jkeys m = map fst m"

definition jvalues :: "('k, 'v) jmap \<Rightarrow> 'v list" where
  "jvalues m = map snd m"

definition jwf :: "('k, 'v) jmap \<Rightarrow> bool" where
  "jwf m = distinct (map fst m)"

lemmas jmap_defs [js_defs] = jget_def jhas_def jset_def jdelete_def jkeys_def jvalues_def

lemma jget_map_of: "jget m = map_of m"
  by (rule ext) (simp add: jget_def)

lemma jwf_Nil [simp, intro]: "jwf []"
  by (simp add: jwf_def)

lemma jwf_jset [simp, intro]: "jwf m \<Longrightarrow> jwf (jset m k v)"
  by (simp add: jwf_def jset_def distinct_update)

lemma jwf_jdelete [simp, intro]: "jwf m \<Longrightarrow> jwf (jdelete m k)"
  by (simp add: jwf_def jdelete_def distinct_delete)

lemma jget_Nil [simp, jmap_simps]: "jget [] k = None"
  by (simp add: jget_def)

lemma jget_jset [simp, jmap_simps]: "jget (jset m k v) = (jget m)(k \<mapsto> v)"
  by (rule ext) (simp add: jget_def jset_def update_conv)

lemma jget_jdelete [simp, jmap_simps]: "jget (jdelete m k) = (jget m)(k := None)"
  by (rule ext) (simp add: jget_def jdelete_def delete_conv')

lemma jhas_iff [jmap_simps]: "jhas m k \<longleftrightarrow> jget m k \<noteq> None"
  by (simp add: jhas_def jget_def)

lemma jkeys_set [jmap_simps]: "set (jkeys m) = dom (jget m)"
  by (simp add: jkeys_def jget_map_of dom_map_of_conv_image_fst)

lemma jget_Some_in: "jget m k = Some v \<Longrightarrow> (k, v) \<in> set m"
  by (simp add: jget_def map_of_SomeD)

lemma jget_in_eq: "jwf m \<Longrightarrow> (k, v) \<in> set m \<longleftrightarrow> jget m k = Some v"
  by (simp add: jget_def jwf_def)

lemma jget_None_notin: "jget m k = None \<longleftrightarrow> k \<notin> fst ` set m"
  by (simp add: jget_def map_of_eq_None_iff)

lemma finite_dom_jget [simp]: "finite (dom (jget m))"
  by (simp add: jget_map_of finite_dom_map_of)

lemma jsize_card: "jwf m \<Longrightarrow> length m = card (dom (jget m))"
  by (metis distinct_card jkeys_def jkeys_set jwf_def length_map)

lemma jset_new: "jget m k = None \<Longrightarrow> jset m k v = m @ [(k, v)]"
  by (simp add: jset_def jget_def update_nonempty) (induction m; auto)

text \<open>Two maps with the same lookups hold the same entries, whatever their insertion order.\<close>

lemma jget_ext_mset:
  assumes "jwf m" "jwf n" "jget m = jget n"
  shows "mset m = mset n"
proof -
  have "set m = set n"
    using assms jget_in_eq by (metis pred_equals_eq2 subrelI subset_antisym)
  moreover have "distinct m" "distinct n"
    using assms by (simp_all add: jwf_def distinct_map)
  ultimately show ?thesis
    by (simp add: set_eq_iff_mset_eq_distinct)
qed

lemma jget_set_cong: "jwf m \<Longrightarrow> jwf n \<Longrightarrow> set m = set n \<Longrightarrow> jget m = jget n"
proof (rule ext)
  fix k
  assume wf: "jwf m" "jwf n" and eq: "set m = set n"
  then have iff: "jget m k = Some v \<longleftrightarrow> jget n k = Some v" for v
    using jget_in_eq [of m k v] jget_in_eq [of n k v] by simp
  show "jget m k = jget n k"
  proof (cases "jget m k")
    case None
    with iff [of "the (jget n k)"] show ?thesis by (cases "jget n k") simp_all
  next
    case (Some v)
    with iff [of v] show ?thesis by simp
  qed
qed

lemma jwf_mset: "mset m = mset n \<Longrightarrow> jwf m \<longleftrightarrow> jwf n"
  unfolding jwf_def by (metis mset_map mset_eq_imp_distinct_iff)

section \<open>Sets\<close>

type_synonym 'a jset = "'a list"

definition sadd :: "'a jset \<Rightarrow> 'a \<Rightarrow> 'a jset" where
  "sadd s x = (if x \<in> set s then s else s @ [x])"

definition sdel :: "'a jset \<Rightarrow> 'a \<Rightarrow> 'a jset" where
  "sdel s x = filter (\<lambda>y. y \<noteq> x) s"

definition sadd_all :: "'a jset \<Rightarrow> 'a list \<Rightarrow> 'a jset" where
  "sadd_all s xs = foldl sadd s xs"

definition sof :: "'a list \<Rightarrow> 'a jset" where
  "sof xs = sadd_all [] xs"

lemmas jset_defs [js_defs] = sadd_def sdel_def sadd_all_def sof_def

lemma set_sadd [simp]: "set (sadd s x) = insert x (set s)"
  by (auto simp: sadd_def)

lemma distinct_sadd [simp, intro]: "distinct s \<Longrightarrow> distinct (sadd s x)"
  by (simp add: sadd_def)

lemma set_sdel [simp]: "set (sdel s x) = set s - {x}"
  by (auto simp: sdel_def)

lemma distinct_sdel [simp, intro]: "distinct s \<Longrightarrow> distinct (sdel s x)"
  by (simp add: sdel_def)

lemma sadd_all_Nil [simp]: "sadd_all s [] = s"
  by (simp add: sadd_all_def)

lemma sadd_all_Cons [simp]: "sadd_all s (x # xs) = sadd_all (sadd s x) xs"
  by (simp add: sadd_all_def)

lemma set_sadd_all [simp]: "set (sadd_all s xs) = set s \<union> set xs"
  by (induction xs arbitrary: s) auto

lemma distinct_sadd_all [simp, intro]: "distinct s \<Longrightarrow> distinct (sadd_all s xs)"
  by (induction xs arbitrary: s) auto

lemma set_sof [simp]: "set (sof xs) = set xs"
  by (simp add: sof_def)

lemma distinct_sof [simp, intro]: "distinct (sof xs)"
  by (simp add: sof_def)

lemma sadd_all_fresh: "distinct xs \<Longrightarrow> set s \<inter> set xs = {} \<Longrightarrow> sadd_all s xs = s @ xs"
  by (induction xs arbitrary: s) (auto simp: sadd_def)

lemma sof_distinct [simp]: "distinct xs \<Longrightarrow> sof xs = xs"
  by (simp add: sof_def sadd_all_fresh)

section \<open>Numbers\<close>

datatype js_number = Fin rat | PosInf | NegInf | NaN

definition js_isFinite :: "js_number \<Rightarrow> bool" where
  "js_isFinite x = (case x of Fin _ \<Rightarrow> True | _ \<Rightarrow> False)"

fun js_less :: "js_number \<Rightarrow> js_number \<Rightarrow> bool" where
  "js_less NaN _ = False"
| "js_less _ NaN = False"
| "js_less (Fin a) (Fin b) = (a < b)"
| "js_less NegInf NegInf = False"
| "js_less NegInf _ = True"
| "js_less _ NegInf = False"
| "js_less PosInf _ = False"
| "js_less _ PosInf = True"

fun js_eq :: "js_number \<Rightarrow> js_number \<Rightarrow> bool" where
  "js_eq NaN _ = False"
| "js_eq _ NaN = False"
| "js_eq x y = (x = y)"

definition MAX_SAFE_INTEGER :: rat where
  "MAX_SAFE_INTEGER = 9007199254740991"

definition js_isSafeInteger :: "js_number \<Rightarrow> bool" where
  "js_isSafeInteger x = (case x of
     Fin q \<Rightarrow> of_int \<lfloor>q\<rfloor> = q \<and> - MAX_SAFE_INTEGER \<le> q \<and> q \<le> MAX_SAFE_INTEGER
   | _ \<Rightarrow> False)"

lemma js_less_irrefl [simp]: "\<not> js_less x x"
  by (cases x) auto

lemma js_less_trans: "js_less x y \<Longrightarrow> js_less y z \<Longrightarrow> js_less x z"
  by (cases x; cases y; cases z) auto

lemma js_less_asym: "js_less x y \<Longrightarrow> \<not> js_less y x"
  by (cases x; cases y) auto

lemma js_less_linear: "x \<noteq> NaN \<Longrightarrow> y \<noteq> NaN \<Longrightarrow> js_less x y \<or> x = y \<or> js_less y x"
  by (cases x; cases y) auto

lemma js_eq_iff: "x \<noteq> NaN \<Longrightarrow> js_eq x y \<longleftrightarrow> x = y"
  by (cases x; cases y) auto

text \<open>The library's sorting works on a linear order; NaN, which \<^verbatim>\<open><\<close> leaves unordered, is put last.\<close>

instantiation js_number :: linorder
begin

definition less_js_number :: "js_number \<Rightarrow> js_number \<Rightarrow> bool" where
  "less_js_number x y \<longleftrightarrow> js_less x y \<or> (x \<noteq> NaN \<and> y = NaN)"

definition less_eq_js_number :: "js_number \<Rightarrow> js_number \<Rightarrow> bool" where
  "less_eq_js_number x y \<longleftrightarrow> js_less x y \<or> (x \<noteq> NaN \<and> y = NaN) \<or> x = y"

instance
proof
  fix x y z :: js_number
  show "(x < y) = (x \<le> y \<and> \<not> y \<le> x)"
    unfolding less_js_number_def less_eq_js_number_def by (cases x; cases y) auto
  show "x \<le> x" unfolding less_eq_js_number_def by simp
  show "x \<le> y \<Longrightarrow> y \<le> z \<Longrightarrow> x \<le> z"
    unfolding less_eq_js_number_def by (cases x; cases y; cases z) auto
  show "x \<le> y \<Longrightarrow> y \<le> x \<Longrightarrow> x = y"
    unfolding less_eq_js_number_def by (cases x; cases y) auto
  show "x \<le> y \<or> y \<le> x"
    unfolding less_eq_js_number_def by (cases x; cases y) auto
qed

end

lemma js_less_iff: "y \<noteq> NaN \<Longrightarrow> js_less x y \<longleftrightarrow> x < y"
  by (cases x; cases y) (auto simp: less_js_number_def)

section \<open>32-bit operations\<close>

definition js_and :: "int \<Rightarrow> int \<Rightarrow> int" where
  "js_and a b = sint ((word_of_int a :: 32 word) AND word_of_int b)"

text \<open>Masking with \<open>2 ^ k - 1\<close> is the remainder modulo \<open>2 ^ k\<close>, for negative operands too,
  as long as the mask fits a non-negative 32-bit signed integer.\<close>

lemma js_and_mask:
  assumes "k \<le> 31"
  shows "js_and i (2 ^ k - 1) = i mod 2 ^ k"
proof -
  have m: "word_of_int (2 ^ k - 1) = (mask k :: 32 word)"
    by (simp add: mask_eq_exp_minus_1)
  have "(word_of_int i AND word_of_int (2 ^ k - 1) :: 32 word) = word_of_int (i mod 2 ^ k)"
    unfolding m by (simp add: and_mask_wi take_bit_eq_mod)
  moreover have "0 \<le> i mod 2 ^ k" "i mod 2 ^ k < 2 ^ 31"
  proof -
    show "0 \<le> i mod 2 ^ k" by simp
    have "i mod 2 ^ k < 2 ^ k" by simp
    also have "(2::int) ^ k \<le> 2 ^ 31" using assms by (rule power_increasing) simp
    finally show "i mod 2 ^ k < 2 ^ 31" .
  qed
  ultimately show ?thesis
    by (simp add: js_and_def int_word_sint)
qed

section \<open>Arrays\<close>

definition js_at :: "'a option list \<Rightarrow> int \<Rightarrow> 'a option" where
  "js_at xs i = (if 0 \<le> i \<and> i < int (length xs) then xs ! nat i else None)"

definition js_put :: "'a option list \<Rightarrow> int \<Rightarrow> 'a option \<Rightarrow> 'a option list" where
  "js_put xs i v =
     (if i < 0 then xs
      else if i < int (length xs) then xs[nat i := v]
      else xs @ replicate (nat i - length xs) None @ [v])"

lemma length_js_put [simp]: "i < int (length xs) \<Longrightarrow> length (js_put xs i v) = length xs"
  by (simp add: js_put_def)

lemma js_at_js_put:
  "0 \<le> i \<Longrightarrow> i < int (length xs) \<Longrightarrow> js_at (js_put xs i v) j = (if j = i then v else js_at xs j)"
  by (auto simp: js_at_def js_put_def)

section \<open>Generic list facts\<close>

lemma filter_mset_length: "mset xs = mset ys \<Longrightarrow> length (filter P xs) = length (filter P ys)"
  by (metis mset_filter size_mset)

lemma length_filter_mono: "(\<And>x. x \<in> set xs \<Longrightarrow> P x \<Longrightarrow> Q x) \<Longrightarrow> length (filter P xs) \<le> length (filter Q xs)"
  by (induction xs) (auto simp: le_Suc_eq)

lemma mset_step:
  fixes a n q e :: "'a multiset"
  shows "a + n = q + e \<Longrightarrow> q' + n' = a + k \<Longrightarrow> q' + (n + n') = q + (e + k)"
  by (metis add.assoc add.commute)

lemma mset_chain:
  fixes a b c d e f g h i j k :: "'a multiset"
  assumes "a + b + c + d = e + f" and "g + h + i + j = a + k"
  shows "b + g + (d + h) + i + (c + j) = e + (f + k)"
proof (rule multiset_eqI)
  fix x
  show "count (b + g + (d + h) + i + (c + j)) x = count (e + (f + k)) x"
    using arg_cong [OF assms(1), of "\<lambda>m. count m x"] arg_cong [OF assms(2), of "\<lambda>m. count m x"] by simp
qed

lemma map_upt_int_cong:
  "(\<And>i. 0 \<le> i \<Longrightarrow> i < c \<Longrightarrow> f i = g i) \<Longrightarrow>
   map (\<lambda>i. f (int i)) [0..<nat c] = map (\<lambda>i. g (int i)) [0..<nat c]"
  by auto

lemma foldl_sum_list: "foldl (+) (a :: 'a :: comm_monoid_add) xs = a + sum_list xs"
  by (induction xs arbitrary: a) (auto simp: add.assoc)

end
