(* ===== verification/Ring_Buffer.thy ===== *)
theory Ring_Buffer
  imports JS_Prelude
begin

text \<open>
  The circular buffer of \<^verbatim>\<open>src/src/util/RingBuffer.ts\<close> that backs every mailbox queue.

  The record \<open>ring\<close> has the four fields of the class; every index is computed with the
  32-bit \<^verbatim>\<open>&\<close> against \<open>mask\<close>, as in the source, including the negative intermediate
  value of \<open>unshiftAll\<close>. A vacated slot holds \<open>None\<close> (\<^verbatim>\<open>undefined\<close>). A backing array may
  hold at most \<open>2 ^ 32 - 1\<close> slots, so the largest power of two is \<open>2 ^ 31\<close>: the refinement
  facts ask that the queue stays within it.

  The locale \<open>fifo_queue\<close> is what the mailboxes rely on: a queue whose operations are the
  list operations on its contents. It is interpreted by the ring.
\<close>

section \<open>The interface: a double-ended message queue\<close>

locale fifo_queue =
  fixes invar :: "'q \<Rightarrow> bool"
    and contents :: "'q \<Rightarrow> 'a list"
    and empty_q :: 'q
    and len :: "'q \<Rightarrow> int"
    and push :: "'q \<Rightarrow> 'a \<Rightarrow> 'q"
    and shift :: "'q \<Rightarrow> 'a option \<times> 'q"
    and pop :: "'q \<Rightarrow> 'a option \<times> 'q"
    and unshift_all :: "'q \<Rightarrow> 'a list \<Rightarrow> 'q"
    and limit :: nat
  assumes empty_invar: "invar empty_q"
    and empty_contents: "contents empty_q = []"
    and len_contents: "invar q \<Longrightarrow> len q = int (length (contents q))"
    and push_invar: "invar q \<Longrightarrow> length (contents q) < limit \<Longrightarrow> invar (push q x)"
    and push_contents:
      "invar q \<Longrightarrow> length (contents q) < limit \<Longrightarrow> contents (push q x) = contents q @ [x]"
    and shift_invar: "invar q \<Longrightarrow> invar (snd (shift q))"
    and shift_result:
      "invar q \<Longrightarrow> fst (shift q) = (case contents q of [] \<Rightarrow> None | x # _ \<Rightarrow> Some x)"
    and shift_contents: "invar q \<Longrightarrow> contents (snd (shift q)) = tl (contents q)"
    and pop_invar: "invar q \<Longrightarrow> invar (snd (pop q))"
    and pop_result:
      "invar q \<Longrightarrow> fst (pop q) = (if contents q = [] then None else Some (last (contents q)))"
    and pop_contents: "invar q \<Longrightarrow> contents (snd (pop q)) = butlast (contents q)"
    and unshift_invar:
      "invar q \<Longrightarrow> length xs + length (contents q) \<le> limit \<Longrightarrow> invar (unshift_all q xs)"
    and unshift_contents:
      "invar q \<Longrightarrow> length xs + length (contents q) \<le> limit \<Longrightarrow>
       contents (unshift_all q xs) = xs @ contents q"
begin

lemmas queue_laws =
  empty_invar empty_contents len_contents push_invar push_contents shift_invar shift_result
  shift_contents pop_invar pop_result pop_contents unshift_invar unshift_contents

text \<open>Elements leave in the order they were pushed.\<close>

fun push_list :: "'q \<Rightarrow> 'a list \<Rightarrow> 'q" where
  "push_list q [] = q"
| "push_list q (x # xs) = push_list (push q x) xs"

fun shift_n :: "nat \<Rightarrow> 'q \<Rightarrow> 'a option list" where
  "shift_n 0 q = []"
| "shift_n (Suc n) q = fst (shift q) # shift_n n (snd (shift q))"

lemma push_list_contents:
  "invar q \<Longrightarrow> length (contents q) + length xs \<le> limit \<Longrightarrow>
   invar (push_list q xs) \<and> contents (push_list q xs) = contents q @ xs"
  by (induction xs arbitrary: q) (auto simp: push_invar push_contents)

lemma shift_n_contents:
  "invar q \<Longrightarrow> length (contents q) = n \<Longrightarrow> shift_n n q = map Some (contents q)"
proof (induction n arbitrary: q)
  case (Suc n)
  then obtain x xs where q: "contents q = x # xs" by (cases "contents q") auto
  have "shift_n n (snd (shift q)) = map Some (contents (snd (shift q)))"
    using Suc.prems q by (intro Suc.IH) (simp_all add: shift_invar shift_contents)
  with Suc.prems q show ?case
    by (simp add: shift_result shift_contents)
qed simp

lemma fifo: "length xs \<le> limit \<Longrightarrow> shift_n (length xs) (push_list empty_q xs) = map Some xs"
  using push_list_contents [of empty_q xs] shift_n_contents [of "push_list empty_q xs"]
  by (simp add: empty_invar empty_contents)

end

section \<open>The ring\<close>

definition INITIAL_RING_CAPACITY :: int where
  "INITIAL_RING_CAPACITY = 8"

record 'a ring =
  ring_slots :: "'a option list"
  ring_head :: int
  ring_count :: int
  ring_mask :: int

definition ring_empty :: "'a ring" where
  "ring_empty = \<lparr>ring_slots = [], ring_head = 0, ring_count = 0, ring_mask = -1\<rparr>"

definition ring_length :: "'a ring \<Rightarrow> int" where
  "ring_length r = ring_count r"

function grow_capacity :: "int \<Rightarrow> int \<Rightarrow> int" where
  "grow_capacity capacity minimum =
     (if 0 < capacity \<and> capacity < minimum then grow_capacity (capacity * 2) minimum else capacity)"
  by pat_completeness auto
termination
  by (relation "measure (\<lambda>(c, m). nat (m - c))") auto

declare grow_capacity.simps [simp del]

definition ring_index :: "'a ring \<Rightarrow> int \<Rightarrow> int" where
  "ring_index r i = js_and (ring_head r + i) (ring_mask r)"

definition ring_grow :: "'a ring \<Rightarrow> int \<Rightarrow> 'a ring" where
  "ring_grow r minimumCapacity =
     (let start = (if length (ring_slots r) = 0 then INITIAL_RING_CAPACITY else int (length (ring_slots r)) * 2);
          capacity = grow_capacity start minimumCapacity;
          grown = map (\<lambda>i. if int i < ring_count r then js_at (ring_slots r) (ring_index r (int i)) else None)
                    [0..<nat capacity]
      in r\<lparr>ring_slots := grown, ring_head := 0, ring_mask := capacity - 1\<rparr>)"

definition ring_push :: "'a ring \<Rightarrow> 'a \<Rightarrow> 'a ring" where
  "ring_push r item =
     (let r = (if ring_count r = int (length (ring_slots r)) then ring_grow r (ring_count r + 1) else r)
      in r\<lparr>ring_slots := js_put (ring_slots r) (ring_index r (ring_count r)) (Some item), ring_count := ring_count r + 1\<rparr>)"

definition ring_shift :: "'a ring \<Rightarrow> 'a option \<times> 'a ring" where
  "ring_shift r =
     (if ring_count r = 0 then (None, r)
      else (js_at (ring_slots r) (ring_head r),
            r\<lparr>ring_slots := js_put (ring_slots r) (ring_head r) None, ring_head := ring_index r 1, ring_count := ring_count r - 1\<rparr>))"

definition ring_pop :: "'a ring \<Rightarrow> 'a option \<times> 'a ring" where
  "ring_pop r =
     (if ring_count r = 0 then (None, r)
      else let index = ring_index r (ring_count r - 1)
           in (js_at (ring_slots r) index,
               r\<lparr>ring_slots := js_put (ring_slots r) index None, ring_count := ring_count r - 1\<rparr>))"

fun ring_write :: "'a ring \<Rightarrow> int \<Rightarrow> 'a list \<Rightarrow> 'a option list" where
  "ring_write r i [] = ring_slots r"
| "ring_write r i (x # xs) =
     ring_write (r\<lparr>ring_slots := js_put (ring_slots r) (ring_index r i) (Some x)\<rparr>) (i + 1) xs"

definition ring_unshiftAll :: "'a ring \<Rightarrow> 'a list \<Rightarrow> 'a ring" where
  "ring_unshiftAll r items =
     (if items = [] then r
      else let n = int (length items);
               r = (if ring_count r + n > int (length (ring_slots r)) then ring_grow r (ring_count r + n) else r);
               r = r\<lparr>ring_head := ring_index r (- n)\<rparr>
           in r\<lparr>ring_slots := ring_write r 0 items, ring_count := ring_count r + n\<rparr>)"

definition ring_drain :: "'a ring \<Rightarrow> 'a option list \<times> 'a ring" where
  "ring_drain r =
     (map (\<lambda>i. js_at (ring_slots r) (ring_index r (int i))) [0..<nat (ring_count r)], ring_empty)"

section \<open>Invariant and contents\<close>

text \<open>The capacity is a power of two no larger than \<open>2 ^ 31\<close> (or nothing is allocated yet),
  exactly the \<open>ring_count\<close> slots from \<open>ring_head\<close> are occupied, and the rest are cleared.\<close>

definition ring_cell :: "'a ring \<Rightarrow> nat \<Rightarrow> int \<Rightarrow> 'a option" where
  "ring_cell r k i = js_at (ring_slots r) ((ring_head r + i) mod 2 ^ k)"

definition ring_ok :: "nat \<Rightarrow> 'a ring \<Rightarrow> bool" where
  "ring_ok k r \<longleftrightarrow> k \<le> 31 \<and> length (ring_slots r) = 2 ^ k \<and> ring_mask r = 2 ^ k - 1 \<and>
     0 \<le> ring_head r \<and> ring_head r < 2 ^ k \<and> 0 \<le> ring_count r \<and> ring_count r \<le> 2 ^ k \<and>
     (\<forall>i. 0 \<le> i \<and> i < 2 ^ k \<longrightarrow> (ring_cell r k i \<noteq> None \<longleftrightarrow> i < ring_count r))"

definition ring_invar :: "'a ring \<Rightarrow> bool" where
  "ring_invar r \<longleftrightarrow> r = ring_empty \<or> (\<exists>k. ring_ok k r)"

definition ring_contents :: "'a ring \<Rightarrow> 'a list" where
  "ring_contents r =
     map (\<lambda>i. the (js_at (ring_slots r) (ring_index r (int i)))) [0..<nat (ring_count r)]"

lemma ring_okD:
  assumes "ring_ok k r"
  shows "k \<le> 31" "length (ring_slots r) = 2 ^ k" "0 \<le> ring_head r" "ring_head r < 2 ^ k"
    "0 \<le> ring_count r" "ring_count r \<le> 2 ^ k"
  using assms by (simp_all add: ring_ok_def)

lemma ring_ok_occupied:
  "ring_ok k r \<Longrightarrow> 0 \<le> i \<Longrightarrow> i < 2 ^ k \<Longrightarrow> ring_cell r k i \<noteq> None \<longleftrightarrow> i < ring_count r"
  by (simp add: ring_ok_def)

section \<open>Index arithmetic\<close>

lemma add_mod_inj:
  fixes h i j m :: int
  assumes "0 \<le> i" "i < m" "0 \<le> j" "j < m"
  shows "(h + i) mod m = (h + j) mod m \<longleftrightarrow> i = j"
proof
  assume "(h + i) mod m = (h + j) mod m"
  then have "(i - j) mod m = 0"
    by (metis add_diff_cancel_left mod_eq_dvd_iff dvd_eq_mod_eq_0)
  then have "m dvd \<bar>i - j\<bar>"
    by (simp flip: dvd_eq_mod_eq_0)
  moreover have "\<bar>i - j\<bar> < m"
    using assms by auto
  ultimately show "i = j"
    using zdvd_not_zless [of "\<bar>i - j\<bar>" m] by auto
qed simp

lemma ring_index_ok: "ring_ok k r \<Longrightarrow> ring_index r i = (ring_head r + i) mod 2 ^ k"
  by (simp add: ring_index_def ring_ok_def js_and_mask)

lemma ring_contents_ok:
  "ring_ok k r \<Longrightarrow> ring_contents r = map (\<lambda>i. the (ring_cell r k (int i))) [0..<nat (ring_count r)]"
  by (simp add: ring_contents_def ring_index_ok ring_cell_def)

lemma ring_contents_empty [simp]: "ring_contents ring_empty = []"
  by (simp add: ring_contents_def ring_empty_def)

lemma length_ring_contents: "ring_invar r \<Longrightarrow> int (length (ring_contents r)) = ring_count r"
  by (auto simp: ring_invar_def ring_contents_def ring_ok_def ring_empty_def)

lemma grow_capacity_power:
  assumes "m \<le> 2 ^ 31" "j \<le> 31"
  shows "\<exists>k. j \<le> k \<and> k \<le> 31 \<and> grow_capacity (2 ^ j) m = 2 ^ k \<and> m \<le> 2 ^ k"
  using assms(2)
proof (induction "31 - j" arbitrary: j)
  case 0
  with assms(1) show ?case
    by (intro exI [of _ j]) (simp add: grow_capacity.simps [of 2147483648 m])
next
  case (Suc n)
  show ?case
  proof (cases "2 ^ j < m")
    case True
    obtain k where "Suc j \<le> k" "k \<le> 31" "grow_capacity (2 ^ Suc j) m = 2 ^ k" "m \<le> 2 ^ k"
      using Suc.hyps(1) [of "Suc j"] Suc.hyps(2) by force
    with True show ?thesis
      by (intro exI [of _ k]) (simp add: grow_capacity.simps [of "2 ^ j" m] mult.commute)
  next
    case False
    with Suc.prems show ?thesis
      by (intro exI [of _ j]) (simp add: grow_capacity.simps [of "2 ^ j" m])
  qed
qed

section \<open>The operations on an allocated ring\<close>

lemma ring_grow_ok:
  assumes "ring_invar r" "least \<le> 2 ^ 31" "int (length (ring_slots r)) < least" "ring_count r \<le> least"
  shows "\<exists>k. ring_ok k (ring_grow r least) \<and> least \<le> 2 ^ k"
    and "ring_contents (ring_grow r least) = ring_contents r"
    and "ring_count (ring_grow r least) = ring_count r"
proof -
  define start where
    "start = (if length (ring_slots r) = 0 then INITIAL_RING_CAPACITY else int (length (ring_slots r)) * 2)"
  have "\<exists>j \<le> 31. start = 2 ^ j"
  proof (cases "r = ring_empty")
    case True
    then show ?thesis
      by (intro exI [of _ 3]) (simp add: start_def ring_empty_def INITIAL_RING_CAPACITY_def)
  next
    case False
    with assms(1) obtain k where k: "ring_ok k r"
      by (auto simp: ring_invar_def)
    then have "(2::int) ^ k < 2 ^ 31"
      using assms(2,3) by (simp add: ring_ok_def)
    then have "k < 31"
      using power_less_imp_less_exp [of "2::int" k 31] by simp
    with k show ?thesis
      by (intro exI [of _ "Suc k"]) (simp add: start_def ring_ok_def)
  qed
  then obtain k where k: "k \<le> 31" "grow_capacity start least = 2 ^ k" "least \<le> 2 ^ k"
    using grow_capacity_power [OF assms(2)] by metis
  have g: "ring_grow r least = r\<lparr>ring_slots := map (\<lambda>i. if int i < ring_count r
             then js_at (ring_slots r) (ring_index r (int i)) else None) [0..<2 ^ k],
             ring_head := 0, ring_mask := 2 ^ k - 1\<rparr>"
    unfolding ring_grow_def start_def [symmetric] Let_def k(2) by (simp add: nat_power_eq)
  have occ: "js_at (ring_slots r) (ring_index r (int i)) \<noteq> None" if "int i < ring_count r" for i
  proof -
    from that assms(1) obtain k where k: "ring_ok k r"
      by (auto simp: ring_invar_def ring_empty_def)
    moreover from that k have "int i < 2 ^ k"
      unfolding ring_ok_def by linarith
    ultimately show ?thesis
      using that ring_ok_occupied [OF k, of "int i"] by (simp add: ring_index_ok [OF k] ring_cell_def)
  qed
  have c: "0 \<le> ring_count r"
    using length_ring_contents [OF assms(1)] by simp
  have cell: "ring_cell (ring_grow r least) k i =
      (if i < ring_count r then js_at (ring_slots r) (ring_index r i) else None)"
    if "0 \<le> i" "i < 2 ^ k" for i
    using that by (simp add: g ring_cell_def js_at_def nat_less_iff)
  have ok: "ring_ok k (ring_grow r least)"
    unfolding ring_ok_def
  proof (intro conjI allI impI)
    fix i :: int
    assume i: "0 \<le> i \<and> i < 2 ^ k"
    show "(ring_cell (ring_grow r least) k i \<noteq> None) = (i < ring_count (ring_grow r least))"
      using i occ [of "nat i"] cell [of i] by (auto simp: g)
  qed (use k c assms(4) in \<open>simp_all add: g\<close>)
  with k(3) show "\<exists>k. ring_ok k (ring_grow r least) \<and> least \<le> 2 ^ k" by blast
  show "ring_count (ring_grow r least) = ring_count r" by (simp add: g)
  have "ring_count r \<le> 2 ^ k" using assms(4) k(3) by simp
  then have "map (\<lambda>i. the (ring_cell (ring_grow r least) k (int i))) [0..<nat (ring_count r)] =
      map (\<lambda>i. the (js_at (ring_slots r) (ring_index r (int i)))) [0..<nat (ring_count r)]"
    by (intro map_upt_int_cong) (simp add: cell)
  with \<open>ring_count (ring_grow r least) = ring_count r\<close>
  show "ring_contents (ring_grow r least) = ring_contents r"
    unfolding ring_contents_ok [OF ok] by (simp add: ring_contents_def)
qed

text \<open>An operation that leaves the capacity alone: its new slots, head and count, cell by cell.\<close>

lemma ring_update:
  assumes "ring_ok k r" "length s = 2 ^ k" "0 \<le> h" "h < 2 ^ k" "0 \<le> c" "c \<le> 2 ^ k"
    and "\<And>i. 0 \<le> i \<Longrightarrow> i < 2 ^ k \<Longrightarrow> js_at s ((h + i) mod 2 ^ k) \<noteq> None \<longleftrightarrow> i < c"
  shows "ring_ok k (r\<lparr>ring_slots := s, ring_head := h, ring_count := c\<rparr>)"
    and "ring_contents (r\<lparr>ring_slots := s, ring_head := h, ring_count := c\<rparr>) =
         map (\<lambda>i. the (js_at s ((h + int i) mod 2 ^ k))) [0..<nat c]"
proof -
  show ok: "ring_ok k (r\<lparr>ring_slots := s, ring_head := h, ring_count := c\<rparr>)"
    using assms by (simp add: ring_ok_def ring_cell_def)
  show "ring_contents (r\<lparr>ring_slots := s, ring_head := h, ring_count := c\<rparr>) =
      map (\<lambda>i. the (js_at s ((h + int i) mod 2 ^ k))) [0..<nat c]"
    unfolding ring_contents_ok [OF ok] by (simp add: ring_cell_def)
qed

lemma ring_cell_put:
  assumes "ring_ok k r" "0 \<le> i" "i < 2 ^ k" "0 \<le> j" "j < 2 ^ k"
  shows "js_at (js_put (ring_slots r) (ring_index r j) v) ((ring_head r + i) mod 2 ^ k) =
         (if i = j then v else ring_cell r k i)"
  using assms add_mod_inj [of i "2 ^ k" j "ring_head r"]
  by (simp add: ring_cell_def ring_index_ok [OF assms(1)] js_at_js_put ring_okD [OF assms(1)])

lemma length_ring_put:
  "ring_ok k r \<Longrightarrow> length (js_put (ring_slots r) (ring_index r j) v) = 2 ^ k"
  by (subst length_js_put) (simp_all add: ring_index_ok ring_okD)

lemma ring_push_room:
  assumes ok: "ring_ok k r" and room: "ring_count r < 2 ^ k"
  shows "ring_ok k (r\<lparr>ring_slots := js_put (ring_slots r) (ring_index r (ring_count r)) (Some x),
           ring_count := ring_count r + 1\<rparr>) \<and>
         ring_contents (r\<lparr>ring_slots := js_put (ring_slots r) (ring_index r (ring_count r)) (Some x),
           ring_count := ring_count r + 1\<rparr>) = ring_contents r @ [x]"
    (is "ring_ok k ?r \<and> _")
proof
  let ?s = "js_put (ring_slots r) (ring_index r (ring_count r)) (Some x)"
  have b: "0 \<le> ring_head r" "ring_head r < 2 ^ k" "0 \<le> ring_count r" "ring_count r + 1 \<le> 2 ^ k"
    using ok room by (simp_all add: ring_ok_def)
  have occ: "js_at ?s ((ring_head r + i) mod 2 ^ k) \<noteq> None \<longleftrightarrow> i < ring_count r + 1"
    if "0 \<le> i" "i < 2 ^ k" for i
    using that room ring_ok_occupied [OF ok, of i] ring_okD [OF ok] by (auto simp: ring_cell_put [OF ok])
  have eq: "?r = r\<lparr>ring_slots := ?s, ring_head := ring_head r, ring_count := ring_count r + 1\<rparr>"
    by simp
  note u = ring_update [OF ok length_ring_put [OF ok] b(1,2) _ b(4) occ, folded eq]
  show "ring_ok k ?r" using b(3) by (intro u(1)) auto
  have "ring_contents ?r =
      map (\<lambda>i. the (js_at ?s ((ring_head r + int i) mod 2 ^ k))) [0..<nat (ring_count r + 1)]"
    using b(3) by (intro u(2)) auto
  also have "nat (ring_count r + 1) = Suc (nat (ring_count r))"
    using b(3) by simp
  also have "map (\<lambda>i. the (js_at ?s ((ring_head r + int i) mod 2 ^ k))) [0..<Suc (nat (ring_count r))] =
      map (\<lambda>i. the (js_at ?s ((ring_head r + int i) mod 2 ^ k))) [0..<nat (ring_count r)] @ [x]"
    using b by (simp add: ring_cell_put [OF ok])
  also have "map (\<lambda>i. the (js_at ?s ((ring_head r + int i) mod 2 ^ k))) [0..<nat (ring_count r)] =
      map (\<lambda>i. the (ring_cell r k (int i))) [0..<nat (ring_count r)]"
    using b by (intro map_upt_int_cong) (simp add: ring_cell_put [OF ok])
  also have "\<dots> = ring_contents r"
    by (simp add: ring_contents_ok [OF ok])
  finally show "ring_contents ?r = ring_contents r @ [x]" .
qed

lemma ring_shift_ok:
  assumes ok: "ring_ok k r" and ne: "ring_count r \<noteq> 0"
  shows "ring_ok k (snd (ring_shift r)) \<and> ring_contents (snd (ring_shift r)) = tl (ring_contents r) \<and>
         fst (ring_shift r) = Some (hd (ring_contents r))"
proof -
  let ?s = "js_put (ring_slots r) (ring_head r) None"
  let ?h = "(ring_head r + 1) mod 2 ^ k"
  note b = ring_okD [OF ok]
  have c: "0 < ring_count r" using b(5) ne by simp
  have i0: "ring_index r 0 = ring_head r"
    using b by (simp add: ring_index_ok [OF ok])
  have sh: "(?h + i) mod 2 ^ k = (ring_head r + (i + 1)) mod 2 ^ k" for i
    by (simp add: mod_simps ac_simps)
  have put: "js_at ?s ((ring_head r + i) mod 2 ^ k) = (if i = 0 then None else ring_cell r k i)"
    if "0 \<le> i" "i < 2 ^ k" for i
    using ring_cell_put [OF ok that, of 0 None] by (simp add: i0)
  have cell: "js_at ?s ((?h + i) mod 2 ^ k) = (if i + 1 < 2 ^ k then ring_cell r k (i + 1) else None)"
    if "0 \<le> i" "i < 2 ^ k" for i
  proof (cases "i + 1 < 2 ^ k")
    case False
    then have "i + 1 = 2 ^ k" using that by simp
    then have "(?h + i) mod 2 ^ k = (ring_head r + 0) mod 2 ^ k"
      unfolding sh by simp
    with put [of 0] False show ?thesis by simp
  qed (use that put [of "i + 1"] in \<open>simp add: sh\<close>)
  have occ: "js_at ?s ((?h + i) mod 2 ^ k) \<noteq> None \<longleftrightarrow> i < ring_count r - 1" if "0 \<le> i" "i < 2 ^ k" for i
    using that b(6) ring_ok_occupied [OF ok, of "i + 1"] by (auto simp: cell)
  have len: "length ?s = 2 ^ k"
    using length_ring_put [OF ok, of 0] by (simp add: i0)
  have "snd (ring_shift r) = r\<lparr>ring_slots := ?s, ring_head := ?h, ring_count := ring_count r - 1\<rparr>"
    using ne by (simp add: ring_shift_def ring_index_ok [OF ok])
  moreover note u = ring_update [OF ok len _ _ _ _ occ]
  ultimately have "ring_ok k (snd (ring_shift r))"
    and ct: "ring_contents (snd (ring_shift r)) =
      map (\<lambda>i. the (js_at ?s ((?h + int i) mod 2 ^ k))) [0..<nat (ring_count r - 1)]"
    using b(6) c by auto
  moreover have "map (\<lambda>i. the (js_at ?s ((?h + int i) mod 2 ^ k))) [0..<nat (ring_count r - 1)] =
      map (\<lambda>i. the (ring_cell r k (int i + 1))) [0..<nat (ring_count r - 1)]"
    using b(6) by (intro map_upt_int_cong) (simp add: cell)
  moreover have "ring_contents r = the (ring_cell r k 0) #
      map (\<lambda>i. the (ring_cell r k (int i + 1))) [0..<nat (ring_count r - 1)]"
  proof -
    have "nat (ring_count r) = Suc (nat (ring_count r - 1))" using c by simp
    then show ?thesis
      by (simp only: ring_contents_ok [OF ok] upt_conv_Cons zero_less_Suc map_Suc_upt [symmetric])
        (simp add: comp_def add.commute)
  qed
  moreover have "js_at (ring_slots r) (ring_head r) = Some (the (ring_cell r k 0))"
    using ring_ok_occupied [OF ok, of 0] c b by (auto simp: ring_cell_def)
  ultimately show ?thesis
    using ne by (simp add: ring_shift_def)
qed

lemma ring_pop_ok:
  assumes ok: "ring_ok k r" and ne: "ring_count r \<noteq> 0"
  shows "ring_ok k (snd (ring_pop r)) \<and> ring_contents (snd (ring_pop r)) = butlast (ring_contents r) \<and>
         fst (ring_pop r) = Some (last (ring_contents r))"
proof -
  let ?i = "ring_count r - 1"
  let ?s = "js_put (ring_slots r) (ring_index r ?i) None"
  note b = ring_okD [OF ok]
  have c: "0 \<le> ?i" "?i < 2 ^ k" using b(5,6) ne by auto
  have cell: "js_at ?s ((ring_head r + i) mod 2 ^ k) = (if i = ?i then None else ring_cell r k i)"
    if "0 \<le> i" "i < 2 ^ k" for i
    using ring_cell_put [OF ok that c] by simp
  have occ: "js_at ?s ((ring_head r + i) mod 2 ^ k) \<noteq> None \<longleftrightarrow> i < ?i" if "0 \<le> i" "i < 2 ^ k" for i
    using that ring_ok_occupied [OF ok, of i] by (auto simp: cell)
  have "snd (ring_pop r) = r\<lparr>ring_slots := ?s, ring_head := ring_head r, ring_count := ?i\<rparr>"
    using ne by (simp add: ring_pop_def Let_def)
  moreover note u = ring_update [OF ok length_ring_put [OF ok] b(3,4) _ _ occ]
  ultimately have "ring_ok k (snd (ring_pop r))"
    and ct: "ring_contents (snd (ring_pop r)) =
      map (\<lambda>i. the (js_at ?s ((ring_head r + int i) mod 2 ^ k))) [0..<nat ?i]"
    using c by auto
  moreover have "map (\<lambda>i. the (js_at ?s ((ring_head r + int i) mod 2 ^ k))) [0..<nat ?i] =
      map (\<lambda>i. the (ring_cell r k (int i))) [0..<nat ?i]"
    using c by (intro map_upt_int_cong) (simp add: cell)
  moreover have "ring_contents r = map (\<lambda>i. the (ring_cell r k (int i))) [0..<nat ?i] @ [the (ring_cell r k ?i)]"
  proof -
    have "nat (ring_count r) = Suc (nat ?i)" using c by simp
    then show ?thesis using c by (simp add: ring_contents_ok [OF ok])
  qed
  moreover have "js_at (ring_slots r) (ring_index r ?i) = Some (the (ring_cell r k ?i))"
    using ring_ok_occupied [OF ok c] by (auto simp: ring_cell_def ring_index_ok [OF ok])
  ultimately show ?thesis
    using ne by (simp add: ring_pop_def Let_def)
qed

lemma ring_index_mod:
  "k \<le> 31 \<Longrightarrow> ring_mask r = 2 ^ k - 1 \<Longrightarrow> ring_index r j = (ring_head r + j) mod 2 ^ k"
  by (simp add: ring_index_def js_and_mask)

lemma ring_write_cell:
  assumes "k \<le> 31" "ring_mask r = 2 ^ k - 1" "length (ring_slots r) = 2 ^ k"
    and "0 \<le> j" "j + int (length xs) \<le> 2 ^ k"
  shows "length (ring_write r j xs) = 2 ^ k \<and>
    (\<forall>i. 0 \<le> i \<and> i < 2 ^ k \<longrightarrow> js_at (ring_write r j xs) ((ring_head r + i) mod 2 ^ k) =
      (if j \<le> i \<and> i < j + int (length xs) then Some (xs ! nat (i - j)) else ring_cell r k i))"
  using assms
proof (induction xs arbitrary: r j)
  case Nil
  then show ?case by (auto simp: ring_cell_def)
next
  case (Cons x xs)
  let ?r = "r\<lparr>ring_slots := js_put (ring_slots r) (ring_index r j) (Some x)\<rparr>"
  have idx: "ring_index r j = (ring_head r + j) mod 2 ^ k"
    using Cons.prems by (simp add: ring_index_mod)
  have IH: "length (ring_write ?r (j + 1) xs) = 2 ^ k \<and>
    (\<forall>i. 0 \<le> i \<and> i < 2 ^ k \<longrightarrow> js_at (ring_write ?r (j + 1) xs) ((ring_head ?r + i) mod 2 ^ k) =
      (if j + 1 \<le> i \<and> i < j + 1 + int (length xs) then Some (xs ! nat (i - (j + 1)))
       else ring_cell ?r k i))"
    using Cons.prems by (intro Cons.IH) (simp_all add: idx)
  have "ring_cell ?r k i = (if i = j then Some x else ring_cell r k i)" if "0 \<le> i" "i < 2 ^ k" for i
    using that Cons.prems add_mod_inj [of i "2 ^ k" j "ring_head r"]
    by (simp add: ring_cell_def idx js_at_js_put)
  moreover have "nat (i - j) = Suc (nat (i - (j + 1)))" if "j + 1 \<le> i" for i
    using that by simp
  ultimately show ?case
    using IH by (auto simp: nth_Cons')
qed

lemma ring_unshift_room:
  assumes ok: "ring_ok k r" and room: "ring_count r + int (length xs) \<le> 2 ^ k"
  defines "h \<equiv> (ring_head r - int (length xs)) mod 2 ^ k"
  defines "r' \<equiv> r\<lparr>ring_slots := ring_write (r\<lparr>ring_head := h\<rparr>) 0 xs, ring_head := h,
                 ring_count := ring_count r + int (length xs)\<rparr>"
  shows "ring_ok k r'" and "ring_contents r' = xs @ ring_contents r"
proof -
  let ?n = "int (length xs)"
  let ?s = "ring_write (r\<lparr>ring_head := h\<rparr>) 0 xs"
  note b = ring_okD [OF ok]
  have h: "0 \<le> h" "h < 2 ^ k" by (simp_all add: h_def)
  have pre: "k \<le> 31" "ring_mask (r\<lparr>ring_head := h\<rparr>) = 2 ^ k - 1"
    "length (ring_slots (r\<lparr>ring_head := h\<rparr>)) = 2 ^ k" "0 \<le> (0::int)" "0 + ?n \<le> 2 ^ k"
    using ok room b(5) unfolding ring_ok_def by (simp, simp, simp, simp, linarith)
  note w = ring_write_cell [OF pre, THEN conjunct1]
  have old: "ring_cell (r\<lparr>ring_head := h\<rparr>) k i = ring_cell r k (i - ?n)" for i
    by (simp add: ring_cell_def h_def mod_simps algebra_simps)
  have cell: "js_at ?s ((h + i) mod 2 ^ k) = (if i < ?n then Some (xs ! nat i) else ring_cell r k (i - ?n))"
    if "0 \<le> i" "i < 2 ^ k" for i
    using ring_write_cell [OF pre] that by (simp add: old)
  have occ: "js_at ?s ((h + i) mod 2 ^ k) \<noteq> None \<longleftrightarrow> i < ring_count r + ?n" if "0 \<le> i" "i < 2 ^ k" for i
    using that b(5) ring_ok_occupied [OF ok, of "i - ?n"] by (auto simp: cell)
  show "ring_ok k r'"
    unfolding r'_def using b(5) room by (intro ring_update(1) [OF ok w h _ _ occ]) auto
  have "ring_contents r' = map (\<lambda>i. the (js_at ?s ((h + int i) mod 2 ^ k))) [0..<nat (ring_count r + ?n)]"
    unfolding r'_def using b(5) room by (intro ring_update(2) [OF ok w h _ _ occ]) auto
  also have "\<dots> = map (\<lambda>i. if int i < ?n then xs ! i else the (ring_cell r k (int i - ?n)))
      [0..<nat (ring_count r + ?n)]"
  proof (rule map_cong [OF refl])
    fix i
    assume "i \<in> set [0..<nat (ring_count r + ?n)]"
    then have "int i < ring_count r + ?n" by auto
    then have "int i < 2 ^ k" using room by linarith
    then show "the (js_at ?s ((h + int i) mod 2 ^ k)) =
        (if int i < ?n then xs ! i else the (ring_cell r k (int i - ?n)))"
      by (subst cell) simp_all
  qed
  also have "nat (ring_count r + ?n) = length xs + nat (ring_count r)"
    using b(5) by (simp add: nat_add_distrib)
  also have "map (\<lambda>i. if int i < ?n then xs ! i else the (ring_cell r k (int i - ?n)))
      [0..<length xs + nat (ring_count r)] = xs @ ring_contents r"
    by (rule nth_equalityI) (auto simp: ring_contents_ok [OF ok] nth_append)
  finally show "ring_contents r' = xs @ ring_contents r" .
qed

section \<open>The ring implements the queue\<close>

lemma ring_push_spec:
  assumes "ring_invar r" "length (ring_contents r) < 2 ^ 31"
  shows "ring_invar (ring_push r x) \<and> ring_contents (ring_push r x) = ring_contents r @ [x]"
proof -
  have c: "ring_count r < 2 ^ 31"
    using assms length_ring_contents [OF assms(1)] by simp
  define r' where "r' = (if ring_count r = int (length (ring_slots r)) then ring_grow r (ring_count r + 1) else r)"
  have "\<exists>k. ring_ok k r' \<and> ring_count r' < 2 ^ k \<and> ring_contents r' = ring_contents r"
  proof (cases "ring_count r = int (length (ring_slots r))")
    case True
    then have "ring_count r + 1 \<le> 2 ^ 31" "int (length (ring_slots r)) < ring_count r + 1"
      using c by simp_all
    note g = ring_grow_ok [OF assms(1) this]
    from g(1) obtain k where "ring_ok k r'" "ring_count r + 1 \<le> 2 ^ k"
      using True by (auto simp: r'_def)
    moreover have "ring_count r' = ring_count r" "ring_contents r' = ring_contents r"
      using g(2,3) True by (simp_all add: r'_def)
    ultimately show ?thesis by (intro exI [of _ k]) linarith
  next
    case False
    then show ?thesis
      using assms(1) by (auto simp: r'_def ring_invar_def ring_empty_def ring_ok_def)
  qed
  then show ?thesis
    using ring_push_room [of _ r' x] by (auto simp: ring_push_def r'_def [symmetric] ring_invar_def Let_def)
qed

lemma ring_unshift_spec:
  assumes "ring_invar r" "length xs + length (ring_contents r) \<le> 2 ^ 31"
  shows "ring_invar (ring_unshiftAll r xs) \<and> ring_contents (ring_unshiftAll r xs) = xs @ ring_contents r"
proof (cases "xs = []")
  case False
  let ?n = "int (length xs)"
  have c: "ring_count r + ?n \<le> 2 ^ 31" "0 \<le> ring_count r"
    using assms length_ring_contents [OF assms(1)] by simp_all
  define r' where "r' = (if ring_count r + ?n > int (length (ring_slots r)) then ring_grow r (ring_count r + ?n) else r)"
  have "\<exists>k. ring_ok k r' \<and> ring_count r' + ?n \<le> 2 ^ k \<and> ring_contents r' = ring_contents r"
  proof (cases "ring_count r + ?n > int (length (ring_slots r))")
    case True
    note g = ring_grow_ok [OF assms(1) c(1)]
    from g(1) obtain k where "ring_ok k r'" "ring_count r + ?n \<le> 2 ^ k"
      using True by (auto simp: r'_def)
    moreover have "ring_count r' = ring_count r" "ring_contents r' = ring_contents r"
      using g(2,3) True by (simp_all add: r'_def)
    ultimately show ?thesis by (intro exI [of _ k]) simp
  next
    case small: False
    then have "r \<noteq> ring_empty" using False by (auto simp: ring_empty_def)
    with assms(1) obtain k where "ring_ok k r" by (auto simp: ring_invar_def)
    with small show ?thesis by (intro exI [of _ k]) (simp add: r'_def ring_okD)
  qed
  then obtain k where k: "ring_ok k r'" "ring_count r' + ?n \<le> 2 ^ k" "ring_contents r' = ring_contents r"
    by blast
  have "ring_unshiftAll r xs = r'\<lparr>ring_slots := ring_write (r'\<lparr>ring_head := (ring_head r' - ?n) mod 2 ^ k\<rparr>) 0 xs,
      ring_head := (ring_head r' - ?n) mod 2 ^ k, ring_count := ring_count r' + ?n\<rparr>"
    using False by (simp add: ring_unshiftAll_def Let_def r'_def [symmetric] ring_index_ok [OF k(1)])
  with ring_unshift_room [OF k(1,2)] k(3) show ?thesis
    by (auto simp: ring_invar_def)
qed (use assms in \<open>simp add: ring_unshiftAll_def\<close>)

lemma ring_shift_spec:
  assumes "ring_invar r"
  shows "ring_invar (snd (ring_shift r)) \<and> ring_contents (snd (ring_shift r)) = tl (ring_contents r) \<and>
         fst (ring_shift r) = (case ring_contents r of [] \<Rightarrow> None | x # _ \<Rightarrow> Some x)"
proof (cases "ring_count r = 0")
  case True
  with assms show ?thesis
    using length_ring_contents [OF assms] by (simp add: ring_shift_def)
next
  case False
  with assms obtain k where "ring_ok k r"
    by (auto simp: ring_invar_def ring_empty_def)
  with False have "ring_ok k (snd (ring_shift r)) \<and> ring_contents (snd (ring_shift r)) = tl (ring_contents r) \<and>
         fst (ring_shift r) = Some (hd (ring_contents r))"
    by (rule ring_shift_ok [rotated])
  moreover have "ring_contents r \<noteq> []"
    using False length_ring_contents [OF assms] by auto
  ultimately show ?thesis
    by (auto simp: ring_invar_def split: list.splits)
qed

lemma ring_pop_spec:
  assumes "ring_invar r"
  shows "ring_invar (snd (ring_pop r)) \<and> ring_contents (snd (ring_pop r)) = butlast (ring_contents r) \<and>
         fst (ring_pop r) = (if ring_contents r = [] then None else Some (last (ring_contents r)))"
proof (cases "ring_count r = 0")
  case True
  with assms show ?thesis
    using length_ring_contents [OF assms] by (simp add: ring_pop_def)
next
  case False
  with assms obtain k where "ring_ok k r"
    by (auto simp: ring_invar_def ring_empty_def)
  with False have "ring_ok k (snd (ring_pop r)) \<and> ring_contents (snd (ring_pop r)) = butlast (ring_contents r) \<and>
         fst (ring_pop r) = Some (last (ring_contents r))"
    by (rule ring_pop_ok [rotated])
  moreover have "ring_contents r \<noteq> []"
    using False length_ring_contents [OF assms] by auto
  ultimately show ?thesis
    by (auto simp: ring_invar_def)
qed

lemma ring_drain_spec:
  assumes "ring_invar r"
  shows "fst (ring_drain r) = map Some (ring_contents r)" and "snd (ring_drain r) = ring_empty"
proof -
  have "js_at (ring_slots r) (ring_index r (int i)) \<noteq> None" if "i < nat (ring_count r)" for i
  proof -
    from that assms obtain k where k: "ring_ok k r"
      by (auto simp: ring_invar_def ring_empty_def)
    then have "int i < 2 ^ k" using that ring_okD(6) [OF k] by linarith
    with that show ?thesis
      using ring_ok_occupied [OF k, of "int i"] by (simp add: ring_index_ok [OF k] ring_cell_def)
  qed
  then show "fst (ring_drain r) = map Some (ring_contents r)"
    by (auto simp: ring_drain_def ring_contents_def)
qed (simp add: ring_drain_def)

interpretation rb: fifo_queue ring_invar ring_contents ring_empty ring_length ring_push ring_shift
  ring_pop ring_unshiftAll "2 ^ 31"
  by unfold_locales
    (auto simp: ring_invar_def [of ring_empty] ring_length_def length_ring_contents
      ring_push_spec ring_shift_spec ring_pop_spec ring_unshift_spec)

section \<open>Whole histories\<close>

text \<open>A client's view: a sequence of calls and what each returns. The list machine is the
  specification; the capacity premise bounds the elements the history ever inserts.\<close>

datatype 'a ring_op = Push 'a | Shift | Pop | UnshiftAll "'a list" | Drain | Length

datatype 'a ring_out = Unit | Item "'a option" | Items "'a list" | Size int

fun ring_step :: "'a ring_op \<Rightarrow> 'a ring \<Rightarrow> 'a option ring_out \<times> 'a ring" where
  "ring_step (Push x) r = (Unit, ring_push r x)"
| "ring_step Shift r = (let (v, r') = ring_shift r in (Item (map_option Some v), r'))"
| "ring_step Pop r = (let (v, r') = ring_pop r in (Item (map_option Some v), r'))"
| "ring_step (UnshiftAll xs) r = (Unit, ring_unshiftAll r xs)"
| "ring_step Drain r = (let (vs, r') = ring_drain r in (Items vs, r'))"
| "ring_step Length r = (Size (ring_length r), r)"

fun list_step :: "'a ring_op \<Rightarrow> 'a list \<Rightarrow> 'a option ring_out \<times> 'a list" where
  "list_step (Push x) q = (Unit, q @ [x])"
| "list_step Shift q = (Item (case q of [] \<Rightarrow> None | x # _ \<Rightarrow> Some (Some x)), tl q)"
| "list_step Pop q = (Item (if q = [] then None else Some (Some (last q))), butlast q)"
| "list_step (UnshiftAll xs) q = (Unit, xs @ q)"
| "list_step Drain q = (Items (map Some q), [])"
| "list_step Length q = (Size (int (length q)), q)"

fun ring_run :: "'a ring_op list \<Rightarrow> 'a ring \<Rightarrow> 'a option ring_out list" where
  "ring_run [] r = []"
| "ring_run (c # cs) r = fst (ring_step c r) # ring_run cs (snd (ring_step c r))"

fun list_run :: "'a ring_op list \<Rightarrow> 'a list \<Rightarrow> 'a option ring_out list" where
  "list_run [] q = []"
| "list_run (c # cs) q = fst (list_step c q) # list_run cs (snd (list_step c q))"

fun op_weight :: "'a ring_op \<Rightarrow> nat" where
  "op_weight (Push _) = 1"
| "op_weight (UnshiftAll xs) = length xs"
| "op_weight _ = 0"

lemma length_list_step: "length (snd (list_step c q)) \<le> length q + op_weight c"
  by (cases c) auto

lemma ring_step_refines:
  assumes "ring_invar r" "length (ring_contents r) + op_weight c \<le> 2 ^ 31"
  shows "ring_invar (snd (ring_step c r))"
    and "ring_contents (snd (ring_step c r)) = snd (list_step c (ring_contents r))"
    and "fst (ring_step c r) = fst (list_step c (ring_contents r))"
  using assms ring_shift_spec [OF assms(1)] ring_pop_spec [OF assms(1)] ring_drain_spec [OF assms(1)]
  by (cases c; auto simp: rb.queue_laws case_prod_unfold split: list.splits)+

lemma ring_run_refines:
  assumes "ring_invar r" "length (ring_contents r) + sum_list (map op_weight cs) \<le> 2 ^ 31"
  shows "ring_run cs r = list_run cs (ring_contents r)"
  using assms
proof (induction cs arbitrary: r)
  case (Cons c cs)
  then have s: "length (ring_contents r) + op_weight c \<le> 2 ^ 31" by simp
  note st = ring_step_refines [OF Cons.prems(1) s]
  have "ring_run cs (snd (ring_step c r)) = list_run cs (ring_contents (snd (ring_step c r)))"
    using Cons.prems(2) length_list_step [of c "ring_contents r"]
    by (intro Cons.IH st(1)) (simp add: st(2))
  then show ?case by (simp add: st(2,3))
qed simp

text \<open>C1: any history of calls on a fresh ring buffer (push, shift, pop, unshiftAll, drain,
  length, in any order, across growth and wrap-around) returns exactly what the same calls
  return on a plain list, as long as it inserts no more than \<open>2 ^ 31\<close> elements.\<close>

theorem ring_history_is_list_history:
  assumes "sum_list (map op_weight cs) \<le> 2 ^ 31"
  shows "ring_run cs ring_empty = list_run cs []"
  using ring_run_refines [of ring_empty cs] assms by (simp add: rb.empty_invar)

theorem ring_history_is_list_history_witness:
  "ring_run [Push (1::nat), Push 2, Shift, UnshiftAll [7, 8, 9], Pop, Drain, Length] ring_empty =
     [Unit, Unit, Item (Some (Some 1)), Unit, Item (Some (Some 2)),
      Items [Some 7, Some 8, Some 9], Size 0]"
  using ring_history_is_list_history
    [of "[Push (1::nat), Push 2, Shift, UnshiftAll [7, 8, 9], Pop, Drain, Length]"]
  by simp

end
