(* ===== verification/Mailbox.thy ===== *)
theory Mailbox
  imports Ring_Buffer "HOL-Library.Sublist"
begin

text \<open>
  The base mailbox of \<^verbatim>\<open>src/src/internal/Mailbox.ts\<close>, the drop accounting of
  \<^verbatim>\<open>src/src/mailbox/DroppingMailbox.ts\<close>, and the stash of
  \<^verbatim>\<open>src/src/internal/ActorCell.ts\<close> that replays into a mailbox.

  The two queues of a mailbox are \<open>RingBuffer\<close>s; by the refinement of theory \<open>Ring_Buffer\<close>
  a ring behaves as the list of its contents, and that list is the field here. The class
  hierarchy is record extension: operations of the base are polymorphic in the extension, so a
  subclass's \<^verbatim>\<open>super\<close> call is the base function. A method that may throw returns the thrown
  error (if any) together with the state it leaves behind, because a JavaScript throw does
  not undo what was mutated before it.

  An envelope's \<open>env_ref\<close> stands for the object the source compares with \<^verbatim>\<open>===\<close>. The context,
  trace and time-stamp fields of an envelope are carried and never read by a mailbox, so they
  are left out. \<open>drop_log\<close> records the arguments of every \<^verbatim>\<open>reportDrop\<close> call.

  The locales \<open>shedding_mailbox\<close> and \<open>atomic_mailbox\<close> are the contract the actor cell relies
  on; the three bounded mailboxes interpret them in their own theories.
\<close>

section \<open>Envelopes and the base mailbox\<close>

record 'm envelope =
  env_ref :: nat
  message :: 'm
  undroppable :: bool
  replayed :: bool

datatype drop_reason = Drop_Head | Drop_New

datatype mailbox_error = MailboxFullError nat

record ('m, 's) mailbox =
  userQueue :: "'m envelope list"
  systemQueue :: "'s envelope list"
  suspended_flag :: bool

definition mb_enqueue :: "('m, 's, 'z) mailbox_scheme \<Rightarrow> 'm envelope \<Rightarrow> ('m, 's, 'z) mailbox_scheme" where
  "mb_enqueue mb env = mb\<lparr>userQueue := userQueue mb @ [env]\<rparr>"

definition mb_enqueueSignal :: "('m, 's, 'z) mailbox_scheme \<Rightarrow> 'm envelope \<Rightarrow> ('m, 's, 'z) mailbox_scheme" where
  "mb_enqueueSignal mb env = mb_enqueue mb env"

definition mb_prependUser :: "('m, 's, 'z) mailbox_scheme \<Rightarrow> 'm envelope list \<Rightarrow> ('m, 's, 'z) mailbox_scheme" where
  "mb_prependUser mb envs = mb\<lparr>userQueue := envs @ userQueue mb\<rparr>"

definition mb_enqueueSystem :: "('m, 's, 'z) mailbox_scheme \<Rightarrow> 's envelope \<Rightarrow> ('m, 's, 'z) mailbox_scheme" where
  "mb_enqueueSystem mb env = mb\<lparr>systemQueue := systemQueue mb @ [env]\<rparr>"

definition mb_dequeueUser :: "('m, 's, 'z) mailbox_scheme \<Rightarrow> 'm envelope option \<times> ('m, 's, 'z) mailbox_scheme" where
  "mb_dequeueUser mb =
     (if suspended_flag mb then (None, mb)
      else case userQueue mb of
        [] \<Rightarrow> (None, mb)
      | env # rest \<Rightarrow> (Some env, mb\<lparr>userQueue := rest\<rparr>))"

definition mb_dequeueSystem :: "('m, 's, 'z) mailbox_scheme \<Rightarrow> 's envelope option \<times> ('m, 's, 'z) mailbox_scheme" where
  "mb_dequeueSystem mb =
     (case systemQueue mb of
        [] \<Rightarrow> (None, mb)
      | env # rest \<Rightarrow> (Some env, mb\<lparr>systemQueue := rest\<rparr>))"

fun removeOldest_loop :: "'m envelope list \<Rightarrow> 'm envelope list \<Rightarrow> 'm envelope option \<times> 'm envelope list" where
  "removeOldest_loop held [] = (None, held)"
| "removeOldest_loop held (candidate # q) =
     (if \<not> undroppable candidate then (Some candidate, held @ q)
      else removeOldest_loop (held @ [candidate]) q)"

definition mb_removeOldest :: "('m, 's, 'z) mailbox_scheme \<Rightarrow> 'm envelope option \<times> ('m, 's, 'z) mailbox_scheme" where
  "mb_removeOldest mb =
     (let (removed, q) = removeOldest_loop [] (userQueue mb) in (removed, mb\<lparr>userQueue := q\<rparr>))"

function removeNewest_loop :: "'m envelope list \<Rightarrow> 'm envelope list \<Rightarrow> 'm envelope option \<times> 'm envelope list" where
  "removeNewest_loop held q =
     (if q = [] then (None, rev held)
      else if \<not> undroppable (last q) then (Some (last q), butlast q @ rev held)
      else removeNewest_loop (held @ [last q]) (butlast q))"
  by pat_completeness auto
termination
  by (relation "measure (\<lambda>(held, q). length q)") auto

declare removeNewest_loop.simps [simp del]

definition mb_removeNewest :: "('m, 's, 'z) mailbox_scheme \<Rightarrow> 'm envelope option \<times> ('m, 's, 'z) mailbox_scheme" where
  "mb_removeNewest mb =
     (let (removed, q) = removeNewest_loop [] (userQueue mb) in (removed, mb\<lparr>userQueue := q\<rparr>))"

definition mb_hasMessages :: "('m, 's, 'z) mailbox_scheme \<Rightarrow> bool" where
  "mb_hasMessages mb = (systemQueue mb \<noteq> [] \<or> (\<not> suspended_flag mb \<and> userQueue mb \<noteq> []))"

definition mb_hasUserMessages :: "('m, 's, 'z) mailbox_scheme \<Rightarrow> bool" where
  "mb_hasUserMessages mb = (userQueue mb \<noteq> [])"

definition mb_hasSystemMessages :: "('m, 's, 'z) mailbox_scheme \<Rightarrow> bool" where
  "mb_hasSystemMessages mb = (systemQueue mb \<noteq> [])"

definition mb_size :: "('m, 's, 'z) mailbox_scheme \<Rightarrow> nat" where
  "mb_size mb = length (userQueue mb)"

definition mb_suspend :: "('m, 's, 'z) mailbox_scheme \<Rightarrow> ('m, 's, 'z) mailbox_scheme" where
  "mb_suspend mb = mb\<lparr>suspended_flag := True\<rparr>"

definition mb_resume :: "('m, 's, 'z) mailbox_scheme \<Rightarrow> ('m, 's, 'z) mailbox_scheme" where
  "mb_resume mb = mb\<lparr>suspended_flag := False\<rparr>"

definition mb_drainUser :: "('m, 's, 'z) mailbox_scheme \<Rightarrow> 'm envelope list \<times> ('m, 's, 'z) mailbox_scheme" where
  "mb_drainUser mb = (userQueue mb, mb\<lparr>userQueue := []\<rparr>)"

definition mb_drainSystem :: "('m, 's, 'z) mailbox_scheme \<Rightarrow> 's envelope list \<times> ('m, 's, 'z) mailbox_scheme" where
  "mb_drainSystem mb = (systemQueue mb, mb\<lparr>systemQueue := []\<rparr>)"

section \<open>Drop accounting\<close>

record ('m, 's) dropping_mailbox = "('m, 's) mailbox" +
  dropObservers :: "nat list"
  droppedCount :: nat
  observer_calls :: "(nat \<times> drop_reason \<times> 'm envelope) list"
  drop_log :: "(drop_reason \<times> 'm envelope) list"

definition observeDrops :: "('m, 's, 'z) dropping_mailbox_scheme \<Rightarrow> nat \<Rightarrow> ('m, 's, 'z) dropping_mailbox_scheme" where
  "observeDrops mb observer = mb\<lparr>dropObservers := dropObservers mb @ [observer]\<rparr>"

definition reportDrop ::
  "('m, 's, 'z) dropping_mailbox_scheme \<Rightarrow> drop_reason \<Rightarrow> 'm envelope \<Rightarrow> ('m, 's, 'z) dropping_mailbox_scheme" where
  "reportDrop mb reason env =
     mb\<lparr>droppedCount := droppedCount mb + 1,
        observer_calls := observer_calls mb @ map (\<lambda>observer. (observer, reason, env)) (dropObservers mb),
        drop_log := drop_log mb @ [(reason, env)]\<rparr>"

lemmas mb_defs =
  mb_enqueue_def mb_enqueueSignal_def mb_prependUser_def mb_size_def mb_suspend_def mb_resume_def
  mb_drainUser_def mb_hasMessages_def mb_hasUserMessages_def mb_hasSystemMessages_def

section \<open>Eviction\<close>

abbreviation droppable :: "'m envelope \<Rightarrow> bool" where
  "droppable env \<equiv> \<not> undroppable env"

abbreviation droppables :: "'m envelope list \<Rightarrow> nat" where
  "droppables q \<equiv> length (filter droppable q)"

lemma removeOldest_loop_none:
  "\<forall>env \<in> set q. undroppable env \<Longrightarrow> removeOldest_loop held q = (None, held @ q)"
  by (induction q arbitrary: held) auto

lemma removeOldest_loop_some:
  "\<forall>env \<in> set us. undroppable env \<Longrightarrow> droppable c \<Longrightarrow>
   removeOldest_loop held (us @ c # q) = (Some c, held @ us @ q)"
  by (induction us arbitrary: held) auto

lemma removeNewest_loop_none:
  "\<forall>env \<in> set q. undroppable env \<Longrightarrow> removeNewest_loop held q = (None, q @ rev held)"
proof (induction q arbitrary: held rule: rev_induct)
  case Nil
  then show ?case by (simp add: removeNewest_loop.simps)
next
  case (snoc x q)
  then show ?case by (subst removeNewest_loop.simps) simp
qed

lemma removeNewest_loop_some:
  "\<forall>env \<in> set us. undroppable env \<Longrightarrow> droppable c \<Longrightarrow>
   removeNewest_loop held (q @ c # us) = (Some c, q @ us @ rev held)"
proof (induction us arbitrary: held rule: rev_induct)
  case Nil
  then show ?case by (subst removeNewest_loop.simps) simp
next
  case (snoc x us)
  then show ?case
    using snoc.IH [of "held @ [x]"] by (subst removeNewest_loop.simps) (simp add: butlast_append)
qed

lemma split_first_droppable:
  obtains (none) "\<forall>env \<in> set q. undroppable env"
  | (some) us c rest where "q = us @ c # rest" "\<forall>env \<in> set us. undroppable env" "droppable c"
  using split_list_first_prop [of q droppable] by blast

lemma split_last_droppable:
  obtains (none) "\<forall>env \<in> set q. undroppable env"
  | (some) us c rest where "q = rest @ c # us" "\<forall>env \<in> set us. undroppable env" "droppable c"
  using split_list_last_prop [of q droppable] by blast

text \<open>What an eviction does to the queue, from either end: nothing if no queued message may be
  dropped, otherwise exactly one droppable message goes and the others keep their order.\<close>

lemma mb_removeOldest_cases:
  obtains (none) "mb_removeOldest mb = (None, mb)" "\<forall>env \<in> set (userQueue mb). undroppable env"
  | (some) us c rest where "userQueue mb = us @ c # rest" "\<forall>env \<in> set us. undroppable env"
      "droppable c" "mb_removeOldest mb = (Some c, mb\<lparr>userQueue := us @ rest\<rparr>)"
  by (rule split_first_droppable [of "userQueue mb"])
    (auto simp: mb_removeOldest_def removeOldest_loop_none removeOldest_loop_some)

lemma mb_removeNewest_cases:
  obtains (none) "mb_removeNewest mb = (None, mb)" "\<forall>env \<in> set (userQueue mb). undroppable env"
  | (some) us c rest where "userQueue mb = rest @ c # us" "\<forall>env \<in> set us. undroppable env"
      "droppable c" "mb_removeNewest mb = (Some c, mb\<lparr>userQueue := rest @ us\<rparr>)"
  by (rule split_last_droppable [of "userQueue mb"])
    (auto simp: mb_removeNewest_def removeNewest_loop_none removeNewest_loop_some)

section \<open>The contract of a mailbox that sheds load\<close>

datatype 'm mb_op =
  Enqueue "'m envelope" | EnqueueSignal "'m envelope" | PrependUser "'m envelope list"
| DequeueUser | Suspend | Resume | DrainUser

type_synonym ('m, 'mb) mb_outcome = "mailbox_error option \<times> 'm envelope list \<times> 'mb"

fun arrivals :: "'m mb_op \<Rightarrow> 'm envelope list" where
  "arrivals (Enqueue env) = [env]"
| "arrivals (EnqueueSignal env) = [env]"
| "arrivals (PrependUser envs) = envs"
| "arrivals _ = []"

text \<open>The cell sends an undroppable envelope through the signal door and an ordinary one
  through \<open>enqueue\<close> (\<^verbatim>\<open>ActorCell.postSignalEnvelope\<close> is the only place that sets the marker).\<close>

fun lawful :: "'m mb_op \<Rightarrow> bool" where
  "lawful (Enqueue env) = droppable env"
| "lawful (EnqueueSignal env) = undroppable env"
| "lawful _ = True"

fun mb_run ::
  "('mb \<Rightarrow> 'm mb_op \<Rightarrow> ('m, 'mb) mb_outcome) \<Rightarrow> 'mb \<Rightarrow> 'm mb_op list \<Rightarrow>
   'm envelope list \<times> 'm envelope list \<times> 'mb" where
  "mb_run exec mb [] = ([], [], mb)"
| "mb_run exec mb (c # cs) =
     (let (err, out, mb1) = exec mb c; (delivered, refused, mb2) = mb_run exec mb1 cs
      in (out @ delivered, (if err = None then [] else arrivals c) @ refused, mb2))"

locale shedding_mailbox =
  fixes exec :: "'mb \<Rightarrow> 'm mb_op \<Rightarrow> ('m, 'mb) mb_outcome"
    and inv :: "'mb \<Rightarrow> bool"
    and queued :: "'mb \<Rightarrow> 'm envelope list"
    and log :: "'mb \<Rightarrow> (drop_reason \<times> 'm envelope) list"
  assumes exec_inv: "inv mb \<Longrightarrow> exec mb c = (err, out, mb') \<Longrightarrow> inv mb'"
    and exec_account: "inv mb \<Longrightarrow> exec mb c = (err, out, mb') \<Longrightarrow>
      \<exists>new refused. log mb' = log mb @ new \<and> suffix refused (arrivals c) \<and>
        (err = None \<longrightarrow> refused = []) \<and>
        mset (queued mb') + mset out + mset (map snd new) + mset refused =
          mset (queued mb) + mset (arrivals c)"
    and exec_undroppable: "inv mb \<Longrightarrow> exec mb c = (err, out, mb') \<Longrightarrow> lawful c \<Longrightarrow>
      log mb' = log mb @ new \<Longrightarrow> (reason, env) \<in> set new \<Longrightarrow> droppable env"
begin

text \<open>No history of lawful calls ever drops an undroppable envelope.\<close>

lemma run_undroppable:
  "inv mb \<Longrightarrow> \<forall>c \<in> set cs. lawful c \<Longrightarrow> mb_run exec mb cs = (delivered, refused, mb') \<Longrightarrow>
   inv mb' \<and> (\<exists>new. log mb' = log mb @ new \<and> (\<forall>(reason, env) \<in> set new. droppable env))"
proof (induction cs arbitrary: mb delivered refused)
  case (Cons c cs)
  obtain err out mb1 where e: "exec mb c = (err, out, mb1)" by (cases "exec mb c") auto
  obtain d r where r: "mb_run exec mb1 cs = (d, r, mb')"
    using Cons.prems(3) e by (auto split: prod.splits)
  obtain new where new: "log mb1 = log mb @ new"
    using exec_account [OF Cons.prems(1) e] by blast
  have "\<forall>(reason, env) \<in> set new. droppable env"
    using exec_undroppable [OF Cons.prems(1) e _ new] Cons.prems(2) by auto
  with new show ?case
    using Cons.IH [OF exec_inv [OF Cons.prems(1) e] _ r] Cons.prems(2) by fastforce
qed simp

end

locale atomic_mailbox = shedding_mailbox +
  assumes exec_atomic: "inv mb \<Longrightarrow> exec mb c = (Some e, out, mb') \<Longrightarrow>
    queued mb' = queued mb \<and> log mb' = log mb \<and> out = []"
begin

lemma atomic_account:
  assumes "inv mb" "exec mb c = (err, out, mb')"
  shows "\<exists>new. log mb' = log mb @ new \<and>
    mset (queued mb') + mset out + mset (map snd new) + mset (if err = None then [] else arrivals c) =
      mset (queued mb) + mset (arrivals c)"
proof (cases err)
  case None
  with exec_account [OF assms] show ?thesis by auto
next
  case (Some e)
  with exec_atomic assms show ?thesis by force
qed

text \<open>Every arrival of a history is delivered, refused to its sender, still queued, or in the
  drop log, exactly once.\<close>

lemma run_account:
  "inv mb \<Longrightarrow> mb_run exec mb cs = (delivered, refused, mb') \<Longrightarrow>
   \<exists>new. log mb' = log mb @ new \<and>
     mset delivered + mset refused + mset (queued mb') + mset (map snd new) =
       mset (queued mb) + mset (concat (map arrivals cs))"
proof (induction cs arbitrary: mb delivered refused)
  case (Cons c cs)
  obtain err out mb1 where e: "exec mb c = (err, out, mb1)" by (cases "exec mb c") auto
  obtain d r where r: "mb_run exec mb1 cs = (d, r, mb')"
    and dr: "delivered = out @ d" "refused = (if err = None then [] else arrivals c) @ r"
    using Cons.prems(2) e by (auto split: prod.splits)
  obtain new1 where n1: "log mb1 = log mb @ new1"
    "mset (queued mb1) + mset out + mset (map snd new1) + mset (if err = None then [] else arrivals c) =
      mset (queued mb) + mset (arrivals c)"
    using atomic_account [OF Cons.prems(1) e] by blast
  obtain new2 where n2: "log mb' = log mb1 @ new2"
    "mset d + mset r + mset (queued mb') + mset (map snd new2) =
      mset (queued mb1) + mset (concat (map arrivals cs))"
    using Cons.IH [OF exec_inv [OF Cons.prems(1) e] r] by blast
  have "mset delivered + mset refused + mset (queued mb') + mset (map snd (new1 @ new2)) =
      mset (queued mb) + mset (concat (map arrivals (c # cs)))"
    using mset_chain [OF n1(2) n2(2)] by (simp add: dr)
  with n1(1) n2(1) show ?case by (intro exI [of _ "new1 @ new2"]) simp
qed simp

end

section \<open>The stash of an actor cell\<close>

record ('m, 'mb) cell_stash =
  mailbox_of :: 'mb
  stashBuffer :: "'m envelope list"
  stashCapacity :: nat
  currentEnvelope :: "'m envelope option"

datatype stash_error = StashOutsideHandlerError | StashOverflowError nat | Stash_MailboxError mailbox_error

definition cell_stash :: "('m, 'mb, 'z) cell_stash_scheme \<Rightarrow> stash_error option \<times> ('m, 'mb, 'z) cell_stash_scheme" where
  "cell_stash cell =
     (case currentEnvelope cell of
        None \<Rightarrow> (Some StashOutsideHandlerError, cell)
      | Some env \<Rightarrow>
          if length (stashBuffer cell) \<ge> stashCapacity cell
          then (Some (StashOverflowError (stashCapacity cell)), cell)
          else (None, cell\<lparr>stashBuffer := stashBuffer cell @ [env], currentEnvelope := None\<rparr>))"

definition cell_unstashAll ::
  "('mb \<Rightarrow> 'm mb_op \<Rightarrow> ('m, 'mb) mb_outcome) \<Rightarrow> ('m, 'mb, 'z) cell_stash_scheme \<Rightarrow>
   stash_error option \<times> ('m, 'mb, 'z) cell_stash_scheme" where
  "cell_unstashAll exec cell =
     (if stashBuffer cell = [] then (None, cell)
      else let drained = stashBuffer cell;
               (err, _, mb) = exec (mailbox_of cell) (PrependUser (map (replayed_update (\<lambda>_. True)) drained))
           in case err of
                None \<Rightarrow> (None, cell\<lparr>mailbox_of := mb, stashBuffer := []\<rparr>)
              | Some e \<Rightarrow> (Some (Stash_MailboxError e), cell\<lparr>mailbox_of := mb, stashBuffer := drained\<rparr>))"

lemma map_env_ref_replayed [simp]: "map env_ref (map (replayed_update (\<lambda>_. True)) envs) = map env_ref envs"
  by simp

context atomic_mailbox
begin

text \<open>Replaying a stash into an atomic mailbox neither loses nor duplicates a message: each
  stashed or queued envelope is afterwards queued, still stashed, or reported as dropped.\<close>

lemma unstash_account:
  assumes "inv (mailbox_of cell)" "cell_unstashAll exec cell = (err, cell')"
    and prepend_silent: "\<And>mb envs e out mb'. exec mb (PrependUser envs) = (e, out, mb') \<Longrightarrow> out = []"
  shows "\<exists>new. log (mailbox_of cell') = log (mailbox_of cell) @ new \<and>
    mset (map env_ref (queued (mailbox_of cell'))) + mset (map env_ref (stashBuffer cell')) +
      mset (map (env_ref \<circ> snd) new) =
    mset (map env_ref (queued (mailbox_of cell))) + mset (map env_ref (stashBuffer cell))"
proof (cases "stashBuffer cell = []")
  case False
  let ?envs = "map (replayed_update (\<lambda>_. True)) (stashBuffer cell)"
  obtain e out mb where x: "exec (mailbox_of cell) (PrependUser ?envs) = (e, out, mb)"
    by (cases "exec (mailbox_of cell) (PrependUser ?envs)") auto
  have out: "out = []" by (rule prepend_silent [OF x])
  obtain new where n: "log mb = log (mailbox_of cell) @ new"
    "mset (queued mb) + mset (map snd new) + mset (if e = None then [] else ?envs) =
      mset (queued (mailbox_of cell)) + mset ?envs"
    using atomic_account [OF assms(1) x] out by (force split: if_splits)
  from arg_cong [OF n(2), of "image_mset env_ref"]
  have "mset (map env_ref (queued mb)) + mset (map (env_ref \<circ> snd) new) +
      mset (if e = None then [] else map env_ref (stashBuffer cell)) =
      mset (map env_ref (queued (mailbox_of cell))) + mset (map env_ref (stashBuffer cell))"
    by (cases e) (simp_all add: multiset.map_comp comp_def flip: mset_map)
  with n(1) assms(2) False x show ?thesis
    by (auto simp: cell_unstashAll_def Let_def ac_simps split: option.splits)
qed (use assms in \<open>simp add: cell_unstashAll_def\<close>)

end

end
