(* ===== verification/Bounded_Mailbox.thy ===== *)
theory Bounded_Mailbox
  imports Mailbox
begin

text \<open>
  \<^verbatim>\<open>src/src/mailbox/BoundedMailbox.ts\<close>: a mailbox with a fixed capacity and one of three
  overflow policies. An arrival at the tail makes room at the head; a replay at the head makes
  room at the tail; an undroppable envelope is admitted past the bound at every door.
\<close>

section \<open>Model\<close>

datatype overflow = Reject | Overflow_Drop_Head | Overflow_Drop_New

record ('m, 's) bounded_mailbox = "('m, 's) dropping_mailbox" +
  capacity :: nat
  overflow_policy :: overflow

definition bounded_new :: "int \<Rightarrow> overflow option \<Rightarrow> nat option \<Rightarrow> ('m, 's) bounded_mailbox option" where
  "bounded_new cap policy onDrop =
     (if cap \<le> 0 then None
      else let mb = \<lparr>userQueue = [], systemQueue = [], suspended_flag = False, dropObservers = [],
                     droppedCount = 0, observer_calls = [], drop_log = [], capacity = nat cap,
                     overflow_policy = (case policy of None \<Rightarrow> Reject | Some p \<Rightarrow> p)\<rparr>
           in Some (case onDrop of None \<Rightarrow> mb | Some observer \<Rightarrow> observeDrops mb observer))"

definition bounded_enqueue ::
  "('m, 's, 'z) bounded_mailbox_scheme \<Rightarrow> 'm envelope \<Rightarrow>
   mailbox_error option \<times> ('m, 's, 'z) bounded_mailbox_scheme" where
  "bounded_enqueue mb env =
     (if mb_size mb \<ge> capacity mb then
        (case overflow_policy mb of
           Overflow_Drop_Head \<Rightarrow>
             (let (dropped, mb1) = mb_removeOldest mb;
                  mb2 = (case dropped of None \<Rightarrow> mb1 | Some d \<Rightarrow> reportDrop mb1 Drop_Head d)
              in (None, mb_enqueue mb2 env))
         | Overflow_Drop_New \<Rightarrow> (None, reportDrop mb Drop_New env)
         | Reject \<Rightarrow> (Some (MailboxFullError (capacity mb)), mb))
      else (None, mb_enqueue mb env))"

definition bounded_enqueueSignal ::
  "('m, 's, 'z) bounded_mailbox_scheme \<Rightarrow> 'm envelope \<Rightarrow> ('m, 's, 'z) bounded_mailbox_scheme" where
  "bounded_enqueueSignal mb env = mb_enqueue mb env"

text \<open>The admission loop of a replay under one of the two dropping policies
  (\<open>drop_head\<close> tells which).\<close>

fun replay_loop ::
  "nat \<Rightarrow> bool \<Rightarrow> ('m, 's, 'z) dropping_mailbox_scheme \<Rightarrow> 'm envelope list \<Rightarrow> 'm envelope list \<Rightarrow>
   ('m, 's, 'z) dropping_mailbox_scheme \<times> 'm envelope list" where
  "replay_loop cap drop_head mb admitted [] = (mb, admitted)"
| "replay_loop cap drop_head mb admitted (env # envs) =
     (if undroppable env \<or> mb_size mb + length admitted < cap
      then replay_loop cap drop_head mb (admitted @ [env]) envs
      else if drop_head then
        (case mb_removeNewest mb of
           (None, mb1) \<Rightarrow> replay_loop cap drop_head (reportDrop mb1 Drop_New env) admitted envs
         | (Some evicted, mb1) \<Rightarrow>
             replay_loop cap drop_head (reportDrop mb1 Drop_Head evicted) (admitted @ [env]) envs)
      else replay_loop cap drop_head (reportDrop mb Drop_New env) admitted envs)"

definition bounded_prependUser ::
  "('m, 's, 'z) bounded_mailbox_scheme \<Rightarrow> 'm envelope list \<Rightarrow>
   mailbox_error option \<times> ('m, 's, 'z) bounded_mailbox_scheme" where
  "bounded_prependUser mb envelopes =
     (if envelopes = [] then (None, mb)
      else if overflow_policy mb = Reject then
        (if int (droppables envelopes) > max 0 (int (capacity mb) - int (mb_size mb))
         then (Some (MailboxFullError (capacity mb)), mb)
         else (None, mb_prependUser mb envelopes))
      else let (mb1, admitted) =
             replay_loop (capacity mb) (overflow_policy mb = Overflow_Drop_Head) mb [] envelopes
           in (None, mb_prependUser mb1 admitted))"

fun bounded_exec ::
  "('m, 's, 'z) bounded_mailbox_scheme \<Rightarrow> 'm mb_op \<Rightarrow> ('m, ('m, 's, 'z) bounded_mailbox_scheme) mb_outcome" where
  "bounded_exec mb (Enqueue env) = (let (err, mb') = bounded_enqueue mb env in (err, [], mb'))"
| "bounded_exec mb (EnqueueSignal env) = (None, [], bounded_enqueueSignal mb env)"
| "bounded_exec mb (PrependUser envs) = (let (err, mb') = bounded_prependUser mb envs in (err, [], mb'))"
| "bounded_exec mb DequeueUser =
     (let (env, mb') = mb_dequeueUser mb in (None, case env of None \<Rightarrow> [] | Some e \<Rightarrow> [e], mb'))"
| "bounded_exec mb Suspend = (None, [], mb_suspend mb)"
| "bounded_exec mb Resume = (None, [], mb_resume mb)"
| "bounded_exec mb DrainUser = (let (envs, mb') = mb_drainUser mb in (None, envs, mb'))"

section \<open>The admission loop\<close>

lemma reportDrop_simps [simp]:
  "userQueue (reportDrop mb r e) = userQueue mb"
  "drop_log (reportDrop mb r e) = drop_log mb @ [(r, e)]"
  "mb_size (reportDrop mb r e) = mb_size mb"
  by (simp_all add: reportDrop_def mb_size_def)

lemma reportDrop_bounded [simp]:
  "capacity (reportDrop mb r e) = capacity mb"
  "overflow_policy (reportDrop mb r e) = overflow_policy mb"
  by (simp_all add: reportDrop_def)

lemma replay_loop_account:
  "replay_loop cap dh mb admitted envs = (mb', admitted') \<Longrightarrow>
   \<exists>new. drop_log mb' = drop_log mb @ new \<and> (\<forall>(r, e) \<in> set new. droppable e) \<and>
     mset admitted' + mset (userQueue mb') + mset (map snd new) =
       mset admitted + mset (userQueue mb) + mset envs"
proof (induction cap dh mb admitted envs rule: replay_loop.induct)
  case (1 cap dh mb admitted)
  then show ?case by simp
next
  case (2 cap dh mb admitted env envs)
  show ?case
  proof (cases "undroppable env \<or> mb_size mb + length admitted < cap")
    case True
    with "2.prems" "2.IH"(1) show ?thesis by fastforce
  next
    case over: False
    show ?thesis
    proof (cases dh)
      case False
      have run: "replay_loop cap dh (reportDrop mb Drop_New env) admitted envs = (mb', admitted')"
        using over False "2.prems" by simp
      from "2.IH"(4) [OF over False run] obtain new where
        "drop_log mb' = drop_log (reportDrop mb Drop_New env) @ new" "\<forall>(r, e) \<in> set new. droppable e"
        "mset admitted' + mset (userQueue mb') + mset (map snd new) =
           mset admitted + mset (userQueue (reportDrop mb Drop_New env)) + mset envs"
        by blast
      with over show ?thesis by (intro exI [of _ "(Drop_New, env) # new"]) simp
    next
      case True
      show ?thesis
      proof (cases rule: mb_removeNewest_cases [of mb])
        case none
        have run: "replay_loop cap dh (reportDrop mb Drop_New env) admitted envs = (mb', admitted')"
          using over True none(1) "2.prems" by simp
        from "2.IH"(2) [OF over True none(1) [symmetric] refl run] obtain new where
          "drop_log mb' = drop_log (reportDrop mb Drop_New env) @ new" "\<forall>(r, e) \<in> set new. droppable e"
          "mset admitted' + mset (userQueue mb') + mset (map snd new) =
             mset admitted + mset (userQueue (reportDrop mb Drop_New env)) + mset envs"
          by blast
        with over show ?thesis by (intro exI [of _ "(Drop_New, env) # new"]) simp
      next
        case (some us c rest)
        let ?mb = "reportDrop (mb\<lparr>userQueue := rest @ us\<rparr>) Drop_Head c"
        have run: "replay_loop cap dh ?mb (admitted @ [env]) envs = (mb', admitted')"
          using over True some(4) "2.prems" by simp
        from "2.IH"(3) [OF over True some(4) [symmetric] refl run] obtain new where
          "drop_log mb' = drop_log ?mb @ new" "\<forall>(r, e) \<in> set new. droppable e"
          "mset admitted' + mset (userQueue mb') + mset (map snd new) =
             mset (admitted @ [env]) + mset (userQueue ?mb) + mset envs"
          by blast
        with some show ?thesis by (intro exI [of _ "(Drop_Head, c) # new"]) simp
      qed
    qed
  qed
qed

lemma replay_loop_bound:
  "replay_loop cap dh mb admitted envs = (mb', admitted') \<Longrightarrow>
   droppables admitted + droppables (userQueue mb) \<le> cap \<Longrightarrow>
   droppables admitted' + droppables (userQueue mb') \<le> cap"
proof (induction cap dh mb admitted envs rule: replay_loop.induct)
  case (2 cap dh mb admitted env envs)
  have le: "droppables admitted \<le> length admitted" "droppables (userQueue mb) \<le> mb_size mb"
    by (simp_all add: mb_size_def)
  show ?case
  proof (cases "undroppable env \<or> mb_size mb + length admitted < cap")
    case True
    have "droppables admitted + droppables (userQueue mb) < cap" if "mb_size mb + length admitted < cap"
      using that le by linarith
    with True "2.prems"(2) have "droppables (admitted @ [env]) + droppables (userQueue mb) \<le> cap"
      by auto
    moreover note True
    ultimately show ?thesis using "2.prems"(1) "2.IH"(1) by simp
  next
    case over: False
    show ?thesis
    proof (cases dh)
      case False
      then show ?thesis using over "2.prems" "2.IH"(4) by simp
    next
      case True
      show ?thesis
      proof (cases rule: mb_removeNewest_cases [of mb])
        case none
        then show ?thesis using over True "2.prems" "2.IH"(2) [OF over True none(1) [symmetric] refl] by simp
      next
        case (some us c rest)
        then show ?thesis using over True "2.prems" "2.IH"(3) [OF over True some(4) [symmetric] refl] by simp
      qed
    qed
  qed
qed simp

lemma replay_loop_capacity [simp]:
  fixes mb :: "('m, 's, 'z) bounded_mailbox_scheme"
  shows "capacity (fst (replay_loop cap dh mb admitted envs)) = capacity mb"
    and "overflow_policy (fst (replay_loop cap dh mb admitted envs)) = overflow_policy mb"
  by (induction cap dh mb admitted envs rule: replay_loop.induct;
      simp split: prod.splits option.splits add: mb_removeNewest_def)+

section \<open>Each operation accounts for every envelope\<close>

lemma mb_removeOldest_report:
  obtains (none) "mb_removeOldest mb = (None, mb)" "\<forall>env \<in> set (userQueue mb). undroppable env"
  | (some) c mb' where "mb_removeOldest mb = (Some c, mb')" "droppable c"
      "mset (userQueue mb) = add_mset c (mset (userQueue mb'))"
      "subseq (userQueue mb') (userQueue mb)" "\<exists>q. mb' = mb\<lparr>userQueue := q\<rparr>"
proof (cases rule: mb_removeOldest_cases [of mb])
  case (some us c rest)
  have "subseq (us @ rest) (us @ c # rest)" by (intro list_emb_append_mono) auto
  with some show thesis by (intro that(2) [of c "mb\<lparr>userQueue := us @ rest\<rparr>"]) auto
qed (use that(1) in blast)

lemma bounded_enqueue_account:
  assumes "bounded_enqueue mb env = (err, mb')"
  shows "(err \<noteq> None \<longrightarrow> mb' = mb) \<and>
    (err = None \<longrightarrow> (\<exists>new. drop_log mb' = drop_log mb @ new \<and>
       mset (userQueue mb') + mset (map snd new) = mset (userQueue mb) + {#env#} \<and>
       subseq (userQueue mb') (userQueue mb @ [env]) \<and>
       (\<forall>(r, e) \<in> set new. droppable e \<or> e = env)))"
proof (cases "mb_size mb \<ge> capacity mb \<and> overflow_policy mb = Overflow_Drop_Head")
  case True
  show ?thesis
  proof (cases rule: mb_removeOldest_report [of mb])
    case none
    with True assms show ?thesis by (auto simp: bounded_enqueue_def mb_enqueue_def)
  next
    case (some c mb1)
    with True assms have "err = None" "mb' = mb_enqueue (reportDrop mb1 Drop_Head c) env"
      by (auto simp: bounded_enqueue_def)
    moreover from some(5) have "drop_log mb1 = drop_log mb" by auto
    moreover from some(4) have "subseq (userQueue mb1 @ [env]) (userQueue mb @ [env])"
      by (rule list_emb_append_mono) simp
    ultimately show ?thesis
      using some by (auto simp: mb_enqueue_def intro!: exI [of _ "[(Drop_Head, c)]"])
  qed
next
  case False
  with assms show ?thesis
    by (cases "mb_size mb \<ge> capacity mb"; cases "overflow_policy mb")
      (auto simp: bounded_enqueue_def mb_enqueue_def)
qed

lemma bounded_prepend_account:
  assumes "bounded_prependUser mb envs = (err, mb')"
  shows "(err \<noteq> None \<longrightarrow> mb' = mb) \<and>
    (err = None \<longrightarrow> (\<exists>new. drop_log mb' = drop_log mb @ new \<and>
       mset (userQueue mb') + mset (map snd new) = mset (userQueue mb) + mset envs \<and>
       (\<forall>(r, e) \<in> set new. droppable e)))"
proof (cases "envs = [] \<or> overflow_policy mb = Reject")
  case True
  with assms show ?thesis
    by (auto simp: bounded_prependUser_def mb_prependUser_def split: if_splits)
next
  case False
  obtain mb1 admitted where r:
    "replay_loop (capacity mb) (overflow_policy mb = Overflow_Drop_Head) mb [] envs = (mb1, admitted)"
    by force
  with False assms have "err = None" "mb' = mb_prependUser mb1 admitted"
    by (auto simp: bounded_prependUser_def)
  with replay_loop_account [OF r] show ?thesis
    by (auto simp: mb_prependUser_def)
qed

lemma mb_dequeueUser_account:
  "mb_dequeueUser mb = (env, mb') \<Longrightarrow>
   mset (userQueue mb') + mset (case env of None \<Rightarrow> [] | Some e \<Rightarrow> [e]) = mset (userQueue mb)"
  by (auto simp: mb_dequeueUser_def split: if_splits list.splits)

lemma mb_dequeueUser_frame:
  fixes mb :: "('m, 's, 'z) bounded_mailbox_scheme"
  assumes "mb_dequeueUser mb = (env, mb')"
  shows "drop_log mb' = drop_log mb" "capacity mb' = capacity mb"
  using assms by (auto simp: mb_dequeueUser_def split: if_splits list.splits)

interpretation bmb: atomic_mailbox bounded_exec "\<lambda>_. True" userQueue drop_log
proof unfold_locales
  fix mb :: "('m, 's, 'z) bounded_mailbox_scheme" and c err out mb'
  assume x: "bounded_exec mb c = (err, out, mb')"
  show "\<exists>new refused. drop_log mb' = drop_log mb @ new \<and> suffix refused (arrivals c) \<and>
      (err = None \<longrightarrow> refused = []) \<and>
      mset (userQueue mb') + mset out + mset (map snd new) + mset refused =
        mset (userQueue mb) + mset (arrivals c)"
  proof (cases c)
    case (Enqueue env)
    with x bounded_enqueue_account [of mb env err mb'] show ?thesis
      by (cases err) (fastforce split: prod.splits)+
  next
    case (PrependUser envs)
    with x bounded_prepend_account [of mb envs err mb'] show ?thesis
      by (cases err) (fastforce split: prod.splits)+
  next
    case DequeueUser
    with x mb_dequeueUser_account [of mb] mb_dequeueUser_frame [of mb] show ?thesis
      by (fastforce split: prod.splits)
  qed (use x in \<open>auto simp: bounded_enqueueSignal_def mb_defs\<close>)
  show "droppable env" if "lawful c" "drop_log mb' = drop_log mb @ new" "(reason, env) \<in> set new"
    for new reason env
  proof (cases c)
    case (Enqueue e)
    with x that bounded_enqueue_account [of mb e err mb'] show ?thesis
      by (cases err) (auto split: prod.splits)
  next
    case (PrependUser envs)
    with x that bounded_prepend_account [of mb envs err mb'] show ?thesis
      by (cases err) (auto split: prod.splits)
  next
    case DequeueUser
    with x that mb_dequeueUser_frame [of mb] show ?thesis
      by (auto split: prod.splits)
  qed (use x that in \<open>auto simp: bounded_enqueueSignal_def mb_defs\<close>)
next
  fix mb :: "('m, 's, 'z) bounded_mailbox_scheme" and c e out mb'
  assume "bounded_exec mb c = (Some e, out, mb')"
  then show "userQueue mb' = userQueue mb \<and> drop_log mb' = drop_log mb \<and> out = []"
    using bounded_enqueue_account [of mb _ "Some e"] bounded_prepend_account [of mb _ "Some e"]
    by (cases c) (auto split: prod.splits)
qed

section \<open>The bound\<close>

definition within_bound :: "('m, 's, 'z) bounded_mailbox_scheme \<Rightarrow> bool" where
  "within_bound mb \<longleftrightarrow> 0 < capacity mb \<and> droppables (userQueue mb) \<le> capacity mb \<and>
     droppedCount mb = length (drop_log mb)"

lemma reportDrop_counted:
  "droppedCount mb = length (drop_log mb) \<Longrightarrow>
   droppedCount (reportDrop mb r e) = length (drop_log (reportDrop mb r e))"
  by (simp add: reportDrop_def)

lemma replay_loop_counted:
  "droppedCount mb = length (drop_log mb) \<Longrightarrow>
   droppedCount (fst (replay_loop cap dh mb admitted envs)) =
     length (drop_log (fst (replay_loop cap dh mb admitted envs)))"
proof (induction cap dh mb admitted envs rule: replay_loop.induct)
  case (2 cap dh mb admitted env envs)
  then show ?case
    by (cases rule: mb_removeNewest_cases [of mb]) (simp_all add: reportDrop_def)
qed simp

lemma bounded_enqueue_bound:
  assumes "within_bound mb" "bounded_enqueue mb env = (err, mb')"
  shows "within_bound mb' \<and> capacity mb' = capacity mb"
proof (cases "mb_size mb \<ge> capacity mb \<and> overflow_policy mb = Overflow_Drop_Head")
  case True
  show ?thesis
  proof (cases rule: mb_removeOldest_report [of mb])
    case none
    with True assms show ?thesis
      by (auto simp: bounded_enqueue_def mb_enqueue_def within_bound_def)
  next
    case (some c mb1)
    have "droppables (userQueue mb) = Suc (droppables (userQueue mb1))"
      using filter_mset_length [of "userQueue mb" "c # userQueue mb1" droppable] some(2,3) by simp
    with True assms some show ?thesis
      by (auto simp: bounded_enqueue_def mb_enqueue_def within_bound_def reportDrop_def)
  qed
next
  case False
  have "droppables (userQueue mb) \<le> mb_size mb" by (simp add: mb_size_def)
  with False assms show ?thesis
    by (cases "mb_size mb \<ge> capacity mb"; cases "overflow_policy mb")
      (auto simp: bounded_enqueue_def mb_enqueue_def within_bound_def reportDrop_def)
qed

lemma bounded_prepend_bound:
  assumes "within_bound mb" "bounded_prependUser mb envs = (err, mb')"
  shows "within_bound mb' \<and> capacity mb' = capacity mb"
proof (cases "envs = [] \<or> overflow_policy mb = Reject")
  case True
  have "droppables (userQueue mb) \<le> mb_size mb" by (simp add: mb_size_def)
  with True assms show ?thesis
    by (auto simp: bounded_prependUser_def mb_prependUser_def within_bound_def split: if_splits)
next
  case False
  obtain mb1 admitted where r:
    "replay_loop (capacity mb) (overflow_policy mb = Overflow_Drop_Head) mb [] envs = (mb1, admitted)"
    by force
  with False assms(2) have "mb' = mb_prependUser mb1 admitted"
    by (auto simp: bounded_prependUser_def)
  moreover have "droppables admitted + droppables (userQueue mb1) \<le> capacity mb"
    using replay_loop_bound [OF r] assms(1) by (simp add: within_bound_def)
  moreover have "capacity mb1 = capacity mb"
    using replay_loop_capacity(1) [of "capacity mb" "overflow_policy mb = Overflow_Drop_Head" mb "[]" envs]
    by (simp add: r)
  moreover have "droppedCount mb1 = length (drop_log mb1)"
    using replay_loop_counted [of mb "capacity mb" "overflow_policy mb = Overflow_Drop_Head" "[]" envs] assms(1)
    by (simp add: r within_bound_def)
  ultimately show ?thesis
    using assms(1) by (simp add: within_bound_def mb_prependUser_def)
qed

lemma bounded_exec_bound:
  assumes "within_bound mb" "lawful c" "bounded_exec mb c = (err, out, mb')"
  shows "within_bound mb' \<and> capacity mb' = capacity mb"
proof (cases c)
  case (Enqueue env)
  with assms bounded_enqueue_bound [of mb env] show ?thesis by (auto split: prod.splits)
next
  case (PrependUser envs)
  with assms bounded_prepend_bound [of mb envs] show ?thesis by (auto split: prod.splits)
qed (use assms in \<open>auto simp: within_bound_def bounded_enqueueSignal_def mb_defs mb_dequeueUser_def
      split: if_splits list.splits\<close>)

lemma bounded_run_bound:
  "within_bound mb \<Longrightarrow> \<forall>c \<in> set cs. lawful c \<Longrightarrow> mb_run bounded_exec mb cs = (delivered, refused, mb') \<Longrightarrow>
   within_bound mb' \<and> capacity mb' = capacity mb"
proof (induction cs arbitrary: mb delivered refused)
  case (Cons c cs)
  obtain err out mb1 where e: "bounded_exec mb c = (err, out, mb1)" by (cases "bounded_exec mb c") auto
  moreover obtain d r where "mb_run bounded_exec mb1 cs = (d, r, mb')"
    using Cons.prems(3) e by (auto split: prod.splits)
  moreover have "within_bound mb1 \<and> capacity mb1 = capacity mb"
    using bounded_exec_bound [OF Cons.prems(1) _ e] Cons.prems(2) by simp
  ultimately show ?case using Cons.IH [of mb1 d r] Cons.prems(2) by simp
qed simp

lemma bounded_new_fresh:
  "bounded_new cap policy onDrop = Some mb \<Longrightarrow>
   within_bound mb \<and> userQueue mb = [] \<and> drop_log mb = [] \<and> int (capacity mb) = cap"
  by (auto simp: bounded_new_def within_bound_def observeDrops_def Let_def split: if_splits option.splits)

section \<open>Properties\<close>

text \<open>Whatever the overflow policy, a bounded mailbox never queues more droppable
  messages than its capacity, across any history of enqueues, lifecycle signals, stash replays,
  dequeues, suspensions and drains; only undroppable notifications can take it above, and the
  drop counter always equals the number of drops reported.\<close>

theorem bounded_mailbox_respects_capacity:
  assumes "bounded_new cap policy onDrop = Some mb" and "\<forall>c \<in> set cs. lawful c"
    and "mb_run bounded_exec mb cs = (delivered, refused, mb')"
  shows "int (length (filter (\<lambda>env. \<not> undroppable env) (userQueue mb'))) \<le> cap \<and>
         droppedCount mb' = length (drop_log mb')"
  using bounded_run_bound [OF _ assms(2,3)] bounded_new_fresh [OF assms(1)]
  by (simp add: within_bound_def)

text \<open>Every message sent to a bounded mailbox is accounted for exactly once: delivered,
  refused to its sender, still queued, or reported as dropped; and no undroppable notification
  is ever among the dropped ones.\<close>

theorem bounded_mailbox_accounts_for_every_message:
  assumes "bounded_new cap policy onDrop = Some mb" and "\<forall>c \<in> set cs. lawful c"
    and "mb_run bounded_exec mb cs = (delivered, refused, mb')"
  shows "mset delivered + mset refused + mset (userQueue mb') + mset (map snd (drop_log mb')) =
           mset (concat (map arrivals cs)) \<and>
         (\<forall>(reason, env) \<in> set (drop_log mb'). \<not> undroppable env)"
proof -
  have fresh: "userQueue mb = []" "drop_log mb = []"
    using bounded_new_fresh [OF assms(1)] by simp_all
  with bmb.run_account [OF TrueI assms(3)] bmb.run_undroppable [OF TrueI assms(2,3)]
  show ?thesis by auto
qed

text \<open>C8: whatever the overflow policy, and across any history of enqueues, lifecycle signals, stash replays,
  dequeues, suspensions and drains, a bounded mailbox never queues more droppable messages than its capacity, its drop
  counter equals the number of drops reported, every message is accounted for exactly once (delivered, refused to its
  sender, still queued, or reported as dropped), and no undroppable notification is ever dropped.\<close>

theorem bounded_mailbox_bounded_and_accounted:
  assumes "bounded_new cap policy onDrop = Some mb" and "\<forall>c \<in> set cs. lawful c"
    and "mb_run bounded_exec mb cs = (delivered, refused, mb')"
  shows "int (length (filter (\<lambda>env. \<not> undroppable env) (userQueue mb'))) \<le> cap \<and>
    droppedCount mb' = length (drop_log mb') \<and>
    mset delivered + mset refused + mset (userQueue mb') + mset (map snd (drop_log mb')) = mset (concat (map arrivals cs)) \<and>
    (\<forall>(reason, env) \<in> set (drop_log mb'). \<not> undroppable env)"
  using bounded_mailbox_respects_capacity [OF assms] bounded_mailbox_accounts_for_every_message [OF assms] by blast

text \<open>Replaying a stash into a bounded mailbox neither loses nor duplicates a message, even
  when the mailbox refuses the batch: each message is afterwards queued, still stashed, or
  reported as dropped, exactly once.\<close>

theorem bounded_unstash_keeps_every_message_once:
  fixes cell :: "('m, ('m, 's) bounded_mailbox) cell_stash"
  assumes "cell_unstashAll bounded_exec cell = (err, cell')"
  shows "\<exists>new. drop_log (mailbox_of cell') = drop_log (mailbox_of cell) @ new \<and>
    mset (map env_ref (userQueue (mailbox_of cell'))) + mset (map env_ref (stashBuffer cell')) +
      mset (map (env_ref \<circ> snd) new) =
    mset (map env_ref (userQueue (mailbox_of cell))) + mset (map env_ref (stashBuffer cell))"
  by (rule bmb.unstash_account [OF TrueI assms]) (auto split: prod.splits)

definition demo_env :: "nat \<Rightarrow> bool \<Rightarrow> nat envelope" where
  "demo_env n u = \<lparr>env_ref = n, message = n, undroppable = u, replayed = False\<rparr>"

definition demo_history :: "nat mb_op list" where
  "demo_history =
     [Enqueue (demo_env 1 False), EnqueueSignal (demo_env 2 True), Enqueue (demo_env 3 False),
      DequeueUser, PrependUser [demo_env 4 False]]"

definition demo_bounded :: "(nat, nat) bounded_mailbox" where
  "demo_bounded = the (bounded_new 2 (Some Overflow_Drop_Head) (Some 0))"

lemmas demo_eval = Let_def demo_bounded_def demo_history_def demo_env_def bounded_new_def observeDrops_def
  bounded_enqueue_def bounded_enqueueSignal_def bounded_prependUser_def mb_defs mb_dequeueUser_def
  mb_removeOldest_def mb_removeNewest_def removeNewest_loop.simps reportDrop_def

theorem bounded_mailbox_bounded_and_accounted_witness:
  "\<exists>delivered refused mb'. mb_run bounded_exec demo_bounded demo_history = (delivered, refused, mb') \<and>
     int (length (filter (\<lambda>env. \<not> undroppable env) (userQueue mb'))) \<le> 2 \<and>
     mset delivered + mset refused + mset (userQueue mb') + mset (map snd (drop_log mb')) = mset (concat (map arrivals demo_history)) \<and>
     map (env_ref \<circ> snd) (drop_log mb') = [1]"
proof -
  have new: "bounded_new 2 (Some Overflow_Drop_Head) (Some 0) = Some demo_bounded"
    by (simp add: demo_bounded_def bounded_new_def)
  have lawful: "\<forall>c \<in> set demo_history. lawful c"
    by (simp add: demo_history_def demo_env_def)
  obtain d r mb' where run: "mb_run bounded_exec demo_bounded demo_history = (d, r, mb')"
    by (cases "mb_run bounded_exec demo_bounded demo_history") auto
  moreover from run have "map (env_ref \<circ> snd) (drop_log mb') = [1]"
    by (auto simp: demo_eval)
  ultimately show ?thesis
    using bounded_mailbox_bounded_and_accounted [OF new lawful run] by (intro exI [of _ d] exI [of _ r] exI [of _ mb']) simp
qed

definition demo_cell :: "(nat, (nat, nat) bounded_mailbox) cell_stash" where
  "demo_cell = \<lparr>mailbox_of = the (bounded_new 1 None None), stashBuffer = [demo_env 1 False, demo_env 2 False],
     stashCapacity = 10, currentEnvelope = None\<rparr>"

theorem bounded_unstash_keeps_every_message_once_witness:
  "\<exists>cell'. cell_unstashAll bounded_exec demo_cell =
       (Some (Stash_MailboxError (MailboxFullError 1)), cell') \<and>
     mset (map env_ref (userQueue (mailbox_of cell'))) + mset (map env_ref (stashBuffer cell')) = {#1, 2#}"
proof -
  obtain err cell' where run: "cell_unstashAll bounded_exec demo_cell = (err, cell')" by force
  have "err = Some (Stash_MailboxError (MailboxFullError 1))" "drop_log (mailbox_of cell') = []"
    using run by (auto simp: cell_unstashAll_def demo_cell_def demo_eval)
  with bounded_unstash_keeps_every_message_once [OF run] run show ?thesis
    by (auto simp: demo_cell_def demo_eval)
qed

end
