(* ===== verification/Control_Mailbox.thy ===== *)
theory Control_Mailbox
  imports Bounded_Mailbox
begin

text \<open>
  \<^verbatim>\<open>src/src/mailbox/ControlAwareMailbox.ts\<close>: control messages live in a second queue that is
  served first and never bounded; ordinary ones keep the base queue, with the overflow policies of
  the bounded mailbox when a capacity is set.

  The caller's predicate is the field \<open>isControl\<close>; it answers \<open>None\<close> where the predicate throws,
  and each such call leaves one entry in \<open>controlErrors\<close>, the arguments the
  \<^verbatim>\<open>onControlError\<close> hook receives (the default hook logs the first of them).
\<close>

section \<open>Model\<close>

record ('m, 's) control_mailbox = "('m, 's) dropping_mailbox" +
  isControl :: "'m \<Rightarrow> bool option"
  ca_capacity :: "nat option"
  ca_overflow :: overflow
  controlQueue :: "'m envelope list"
  controlErrors :: "'m list"

text \<open>The constructor, with the option checks: a capacity is a positive integer, and an overflow
  policy without a capacity is refused.\<close>

definition control_new ::
  "('m \<Rightarrow> bool option) \<Rightarrow> int option \<Rightarrow> overflow option \<Rightarrow> nat option \<Rightarrow> ('m, 's) control_mailbox option" where
  "control_new predicate cap policy onDrop =
     (if (case cap of None \<Rightarrow> False | Some c \<Rightarrow> c \<le> 0) \<or> (policy \<noteq> None \<and> cap = None) then None
      else let mb = \<lparr>userQueue = [], systemQueue = [], suspended_flag = False, dropObservers = [],
                     droppedCount = 0, observer_calls = [], drop_log = [], isControl = predicate,
                     ca_capacity = map_option nat cap,
                     ca_overflow = (case policy of None \<Rightarrow> Reject | Some p \<Rightarrow> p),
                     controlQueue = [], controlErrors = []\<rparr>
           in Some (case onDrop of None \<Rightarrow> mb | Some observer \<Rightarrow> observeDrops mb observer))"

definition classesAsControl ::
  "('m, 's, 'z) control_mailbox_scheme \<Rightarrow> 'm \<Rightarrow> bool \<times> ('m, 's, 'z) control_mailbox_scheme" where
  "classesAsControl mb msg =
     (case isControl mb msg of
        Some b \<Rightarrow> (b, mb)
      | None \<Rightarrow> (False, mb\<lparr>controlErrors := controlErrors mb @ [msg]\<rparr>))"

definition control_enqueue ::
  "('m, 's, 'z) control_mailbox_scheme \<Rightarrow> 'm envelope \<Rightarrow>
   mailbox_error option \<times> ('m, 's, 'z) control_mailbox_scheme" where
  "control_enqueue mb0 env =
     (let (control, mb) = classesAsControl mb0 (message env) in
      if control then (None, mb\<lparr>controlQueue := controlQueue mb @ [env]\<rparr>)
      else case ca_capacity mb of
        None \<Rightarrow> (None, mb_enqueue mb env)
      | Some cap \<Rightarrow>
          if mb_size mb \<ge> cap then
            (case ca_overflow mb of
               Overflow_Drop_Head \<Rightarrow>
                 (let (dropped, mb1) = mb_removeOldest mb;
                      mb2 = (case dropped of None \<Rightarrow> mb1 | Some d \<Rightarrow> reportDrop mb1 Drop_Head d)
                  in (None, mb_enqueue mb2 env))
             | Overflow_Drop_New \<Rightarrow> (None, reportDrop mb Drop_New env)
             | Reject \<Rightarrow> (Some (MailboxFullError cap), mb))
          else (None, mb_enqueue mb env))"

definition control_enqueueSignal ::
  "('m, 's, 'z) control_mailbox_scheme \<Rightarrow> 'm envelope \<Rightarrow> ('m, 's, 'z) control_mailbox_scheme" where
  "control_enqueueSignal mb0 env =
     (let (control, mb) = classesAsControl mb0 (message env) in
      if control then mb\<lparr>controlQueue := controlQueue mb @ [env]\<rparr> else mb_enqueue mb env)"

fun control_split ::
  "('m, 's, 'z) control_mailbox_scheme \<Rightarrow> 'm envelope list \<Rightarrow>
   'm envelope list \<times> 'm envelope list \<times> ('m, 's, 'z) control_mailbox_scheme" where
  "control_split mb [] = ([], [], mb)"
| "control_split mb (env # envs) =
     (let (control, mb1) = classesAsControl mb (message env);
          (cs, os, mb2) = control_split mb1 envs
      in if control then (env # cs, os, mb2) else (cs, env # os, mb2))"

definition admitOrdinaryReplay ::
  "('m, 's, 'z) control_mailbox_scheme \<Rightarrow> 'm envelope list \<Rightarrow>
   mailbox_error option \<times> 'm envelope list \<times> ('m, 's, 'z) control_mailbox_scheme" where
  "admitOrdinaryReplay mb envelopes =
     (case ca_capacity mb of
        None \<Rightarrow> (None, envelopes, mb)
      | Some cap \<Rightarrow>
          if envelopes = [] then (None, envelopes, mb)
          else if ca_overflow mb = Reject then
            (if int (droppables envelopes) > max 0 (int cap - int (mb_size mb))
             then (Some (MailboxFullError cap), [], mb) else (None, envelopes, mb))
          else let (mb1, admitted) = replay_loop cap (ca_overflow mb = Overflow_Drop_Head) mb [] envelopes
               in (None, admitted, mb1))"

definition control_prependUser ::
  "('m, 's, 'z) control_mailbox_scheme \<Rightarrow> 'm envelope list \<Rightarrow>
   mailbox_error option \<times> ('m, 's, 'z) control_mailbox_scheme" where
  "control_prependUser mb0 envelopes =
     (if envelopes = [] then (None, mb0)
      else let (control, ordinary, mb) = control_split mb0 envelopes;
               (err, admitted, mb1) = admitOrdinaryReplay mb ordinary
           in case err of
                Some e \<Rightarrow> (Some e, mb1)
              | None \<Rightarrow> (None, mb_prependUser (mb1\<lparr>controlQueue := control @ controlQueue mb1\<rparr>) admitted))"

definition control_dequeueUser ::
  "('m, 's, 'z) control_mailbox_scheme \<Rightarrow> 'm envelope option \<times> ('m, 's, 'z) control_mailbox_scheme" where
  "control_dequeueUser mb =
     (if suspended_flag mb then (None, mb)
      else case controlQueue mb of
        env # rest \<Rightarrow> (Some env, mb\<lparr>controlQueue := rest\<rparr>)
      | [] \<Rightarrow> mb_dequeueUser mb)"

definition control_size :: "('m, 's, 'z) control_mailbox_scheme \<Rightarrow> nat" where
  "control_size mb = length (controlQueue mb) + mb_size mb"

definition control_hasUserMessages :: "('m, 's, 'z) control_mailbox_scheme \<Rightarrow> bool" where
  "control_hasUserMessages mb = (controlQueue mb \<noteq> [] \<or> mb_hasUserMessages mb)"

definition control_hasMessages :: "('m, 's, 'z) control_mailbox_scheme \<Rightarrow> bool" where
  "control_hasMessages mb = (mb_hasMessages mb \<or> (\<not> suspended_flag mb \<and> controlQueue mb \<noteq> []))"

definition control_drainUser ::
  "('m, 's, 'z) control_mailbox_scheme \<Rightarrow> 'm envelope list \<times> ('m, 's, 'z) control_mailbox_scheme" where
  "control_drainUser mb =
     (let (ordinary, mb1) = mb_drainUser (mb\<lparr>controlQueue := []\<rparr>)
      in (controlQueue mb @ ordinary, mb1))"

fun control_exec ::
  "('m, 's, 'z) control_mailbox_scheme \<Rightarrow> 'm mb_op \<Rightarrow> ('m, ('m, 's, 'z) control_mailbox_scheme) mb_outcome" where
  "control_exec mb (Enqueue env) = (let (err, mb') = control_enqueue mb env in (err, [], mb'))"
| "control_exec mb (EnqueueSignal env) = (None, [], control_enqueueSignal mb env)"
| "control_exec mb (PrependUser envs) = (let (err, mb') = control_prependUser mb envs in (err, [], mb'))"
| "control_exec mb DequeueUser =
     (let (env, mb') = control_dequeueUser mb in (None, case env of None \<Rightarrow> [] | Some e \<Rightarrow> [e], mb'))"
| "control_exec mb Suspend = (None, [], mb_suspend mb)"
| "control_exec mb Resume = (None, [], mb_resume mb)"
| "control_exec mb DrainUser = (let (envs, mb') = control_drainUser mb in (None, envs, mb'))"

section \<open>Classification\<close>

abbreviation is_control :: "('m, 's, 'z) control_mailbox_scheme \<Rightarrow> 'm envelope \<Rightarrow> bool" where
  "is_control mb env \<equiv> isControl mb (message env) = Some True"

abbreviation control_queued :: "('m, 's, 'z) control_mailbox_scheme \<Rightarrow> 'm envelope list" where
  "control_queued mb \<equiv> controlQueue mb @ userQueue mb"

lemma classesAsControl_cases:
  obtains errs where "classesAsControl mb msg = (isControl mb msg = Some True, mb\<lparr>controlErrors := errs\<rparr>)"
  by (cases "isControl mb msg") (auto simp: classesAsControl_def intro: that [of "controlErrors mb"] that)

lemma control_split_cases:
  obtains errs where "control_split mb envs =
    (filter (is_control mb) envs, filter (\<lambda>env. \<not> is_control mb env) envs, mb\<lparr>controlErrors := errs\<rparr>)"
proof -
  have "\<exists>errs. control_split mb envs =
    (filter (is_control mb) envs, filter (\<lambda>env. \<not> is_control mb env) envs, mb\<lparr>controlErrors := errs\<rparr>)"
  proof (induction envs arbitrary: mb)
    case Nil
    show ?case by (auto intro!: exI [of _ "controlErrors mb"])
  next
    case (Cons env envs)
    obtain errs where c: "classesAsControl mb (message env) =
        (is_control mb env, mb\<lparr>controlErrors := errs\<rparr>)"
      by (rule classesAsControl_cases)
    from Cons.IH [of "mb\<lparr>controlErrors := errs\<rparr>"] show ?case by (auto simp: c)
  qed
  then show thesis using that by blast
qed

text \<open>Every queued envelope is in the queue of its class, and no control envelope was dropped.\<close>

definition control_classed :: "('m, 's, 'z) control_mailbox_scheme \<Rightarrow> bool" where
  "control_classed mb \<longleftrightarrow> (\<forall>env \<in> set (controlQueue mb). is_control mb env) \<and>
     (\<forall>env \<in> set (userQueue mb). \<not> is_control mb env) \<and>
     (\<forall>r env. (r, env) \<in> set (drop_log mb) \<longrightarrow> \<not> is_control mb env)"

text \<open>The common shape of the two admission paths for ordinary envelopes: \<open>envs\<close> arrive, some
  droppable envelopes go to the log, the rest stay or wait in \<open>admitted\<close>.\<close>

definition ordinary_step ::
  "('m, 's, 'z) control_mailbox_scheme \<Rightarrow> 'm envelope list \<Rightarrow> 'm envelope list \<Rightarrow>
   ('m, 's, 'z) control_mailbox_scheme \<Rightarrow> (drop_reason \<times> 'm envelope) list \<Rightarrow> bool" where
  "ordinary_step mb envs admitted mb' new \<longleftrightarrow>
     controlQueue mb' = controlQueue mb \<and> isControl mb' = isControl mb \<and>
     ca_capacity mb' = ca_capacity mb \<and> drop_log mb' = drop_log mb @ new \<and>
     mset (userQueue mb') + mset admitted + mset (map snd new) = mset (userQueue mb) + mset envs"

lemma ordinary_step_sets:
  assumes "ordinary_step mb envs admitted mb' new"
  shows "set (userQueue mb') \<union> set admitted \<union> snd ` set new = set (userQueue mb) \<union> set envs"
proof -
  have "set_mset (mset (userQueue mb') + mset admitted + mset (map snd new)) =
      set_mset (mset (userQueue mb) + mset envs)"
    using assms by (simp add: ordinary_step_def)
  then show ?thesis by simp
qed

lemma ordinary_step_classed:
  assumes "ordinary_step mb envs admitted mb' new" "control_classed mb" "\<forall>env \<in> set envs. \<not> is_control mb env"
  shows "control_classed mb' \<and> (\<forall>env \<in> set admitted. \<not> is_control mb env)"
proof -
  have "\<not> is_control mb env" if "env \<in> set (userQueue mb') \<union> set admitted \<union> snd ` set new" for env
    using that assms(2,3) unfolding ordinary_step_sets [OF assms(1)] control_classed_def by blast
  moreover have "env \<in> snd ` set new" if "(r, env) \<in> set new" for r env
    using that by force
  ultimately show ?thesis
    using assms(1,2) unfolding control_classed_def ordinary_step_def by auto
qed

lemma reportDrop_control [simp]:
  "controlQueue (reportDrop mb r e) = controlQueue mb"
  "isControl (reportDrop mb r e) = isControl mb"
  "ca_capacity (reportDrop mb r e) = ca_capacity mb"
  by (simp_all add: reportDrop_def)

lemma replay_loop_frame:
  fixes mb :: "('m, 's, 'z) control_mailbox_scheme"
  shows "controlQueue (fst (replay_loop cap dh mb admitted envs)) = controlQueue mb"
    and "isControl (fst (replay_loop cap dh mb admitted envs)) = isControl mb"
    and "ca_capacity (fst (replay_loop cap dh mb admitted envs)) = ca_capacity mb"
  by (induction cap dh mb admitted envs rule: replay_loop.induct;
      simp split: prod.splits option.splits add: mb_removeNewest_def)+

lemma admitOrdinaryReplay_step:
  assumes "admitOrdinaryReplay mb envs = (err, admitted, mb')"
  shows "(err \<noteq> None \<longrightarrow> mb' = mb \<and> envs \<noteq> []) \<and>
    (err = None \<longrightarrow> (\<exists>new. ordinary_step mb envs admitted mb' new \<and> (\<forall>(r, e) \<in> set new. droppable e)))"
proof (cases "ca_capacity mb")
  case (Some cap)
  show ?thesis
  proof (cases "envs = [] \<or> ca_overflow mb = Reject")
    case True
    with assms Some show ?thesis
      by (auto simp: admitOrdinaryReplay_def ordinary_step_def split: if_splits)
  next
    case False
    with assms Some have r: "replay_loop cap (ca_overflow mb = Overflow_Drop_Head) mb [] envs = (mb', admitted)"
      and e: "err = None"
      by (auto simp: admitOrdinaryReplay_def split: prod.splits)
    from replay_loop_account [OF r] obtain new where
      "drop_log mb' = drop_log mb @ new" "\<forall>(r, e) \<in> set new. droppable e"
      "mset admitted + mset (userQueue mb') + mset (map snd new) = mset (userQueue mb) + mset envs"
      by auto
    moreover have "controlQueue mb' = controlQueue mb" "isControl mb' = isControl mb"
      "ca_capacity mb' = ca_capacity mb"
      using replay_loop_frame [of cap "ca_overflow mb = Overflow_Drop_Head" mb "[]" envs] r by simp_all
    ultimately show ?thesis
      by (auto simp: e ordinary_step_def ac_simps intro!: exI [of _ new])
  qed
qed (use assms in \<open>auto simp: admitOrdinaryReplay_def ordinary_step_def\<close>)

lemma control_enqueue_ordinary:
  assumes "control_enqueue mb env = (err, mb')" "\<not> is_control mb env"
  shows "(err \<noteq> None \<longrightarrow> (\<exists>errs. mb' = mb\<lparr>controlErrors := errs\<rparr>)) \<and>
    (err = None \<longrightarrow> (\<exists>new. ordinary_step mb [env] [] mb' new \<and>
       (\<forall>(r, e) \<in> set new. droppable e \<or> e = env) \<and> subseq (userQueue mb') (userQueue mb @ [env])))"
proof -
  obtain errs where c: "classesAsControl mb (message env) = (False, mb\<lparr>controlErrors := errs\<rparr>)"
    using classesAsControl_cases [of mb "message env"] assms(2) by metis
  let ?mb = "mb\<lparr>controlErrors := errs\<rparr>"
  consider (room) "err = None" "mb' = mb_enqueue ?mb env"
    | (new) "err = None" "mb' = reportDrop ?mb Drop_New env"
    | (reject) "err \<noteq> None" "mb' = ?mb"
    | (head) d mb1 where "err = None" "mb_removeOldest ?mb = (d, mb1)"
      "mb' = mb_enqueue (case d of None \<Rightarrow> mb1 | Some d \<Rightarrow> reportDrop mb1 Drop_Head d) env"
    using assms(1) c
    by (auto simp: control_enqueue_def split: option.splits if_splits overflow.splits prod.splits)
  then show ?thesis
  proof cases
    case room
    then show ?thesis by (auto simp: ordinary_step_def mb_enqueue_def)
  next
    case new
    then show ?thesis by (auto simp: ordinary_step_def reportDrop_def)
  next
    case reject
    then show ?thesis by auto
  next
    case head
    show ?thesis
    proof (cases rule: mb_removeOldest_report [of ?mb])
      case none
      with head show ?thesis by (auto simp: ordinary_step_def mb_enqueue_def)
    next
      case (some c mb2)
      from some(4) have "subseq (userQueue mb2 @ [env]) (userQueue mb @ [env])"
        by (intro list_emb_append_mono) simp_all
      with some head show ?thesis
        by (auto simp: ordinary_step_def mb_enqueue_def reportDrop_def intro!: exI [of _ "[(Drop_Head, c)]"])
    qed
  qed
qed

lemma control_enqueue_control:
  "is_control mb env \<Longrightarrow> control_enqueue mb env = (None, mb\<lparr>controlQueue := controlQueue mb @ [env]\<rparr>)"
  by (simp add: control_enqueue_def classesAsControl_def)

lemma control_enqueueSignal_cases:
  obtains (control) "is_control mb env"
      "control_enqueueSignal mb env = mb\<lparr>controlQueue := controlQueue mb @ [env]\<rparr>"
  | (ordinary) errs where "\<not> is_control mb env"
      "control_enqueueSignal mb env = mb_enqueue (mb\<lparr>controlErrors := errs\<rparr>) env"
  by (rule classesAsControl_cases [of mb "message env"], cases "is_control mb env")
    (auto simp: control_enqueueSignal_def classesAsControl_def)

lemma control_prependUser_step:
  assumes "control_prependUser mb envs = (err, mb')"
  shows "(err \<noteq> None \<longrightarrow> (\<exists>errs. mb' = mb\<lparr>controlErrors := errs\<rparr>)) \<and>
    (err = None \<longrightarrow> (\<exists>new mb1 admitted.
       ordinary_step mb (filter (\<lambda>env. \<not> is_control mb env) envs) admitted mb1 new \<and>
       (\<forall>(r, e) \<in> set new. droppable e) \<and>
       mb' = mb1\<lparr>controlQueue := filter (is_control mb) envs @ controlQueue mb, userQueue := admitted @ userQueue mb1\<rparr>))"
proof (cases "envs = []")
  case True
  with assms show ?thesis by (auto simp: control_prependUser_def ordinary_step_def intro!: exI [of _ "[]"] exI [of _ mb])
next
  case False
  let ?os = "filter (\<lambda>env. \<not> is_control mb env) envs"
  obtain errs where s: "control_split mb envs = (filter (is_control mb) envs, ?os, mb\<lparr>controlErrors := errs\<rparr>)"
    by (rule control_split_cases)
  obtain e admitted mb1 where a: "admitOrdinaryReplay (mb\<lparr>controlErrors := errs\<rparr>) ?os = (e, admitted, mb1)"
    by (cases "admitOrdinaryReplay (mb\<lparr>controlErrors := errs\<rparr>) ?os") auto
  have step: "(e \<noteq> None \<longrightarrow> mb1 = mb\<lparr>controlErrors := errs\<rparr>) \<and>
    (e = None \<longrightarrow> (\<exists>new. ordinary_step mb ?os admitted mb1 new \<and> (\<forall>(r, e) \<in> set new. droppable e)))"
    using admitOrdinaryReplay_step [OF a] by (auto simp: ordinary_step_def)
  show ?thesis
  proof (cases e)
    case None
    with step obtain new where n: "ordinary_step mb ?os admitted mb1 new" "\<forall>(r, e) \<in> set new. droppable e"
      by blast
    moreover have "controlQueue mb1 = controlQueue mb" using n(1) by (simp add: ordinary_step_def)
    ultimately show ?thesis
      using assms False s a None by (auto simp: control_prependUser_def mb_prependUser_def)
  next
    case (Some x)
    then show ?thesis using assms False s a step by (auto simp: control_prependUser_def)
  qed
qed

section \<open>The contract\<close>

lemma control_dequeueUser_cases:
  obtains (idle) "control_dequeueUser mb = (None, mb)" "suspended_flag mb \<or> control_queued mb = []"
  | (control) env rest where "controlQueue mb = env # rest" "\<not> suspended_flag mb"
      "control_dequeueUser mb = (Some env, mb\<lparr>controlQueue := rest\<rparr>)"
  | (ordinary) env rest where "controlQueue mb = []" "userQueue mb = env # rest" "\<not> suspended_flag mb"
      "control_dequeueUser mb = (Some env, mb\<lparr>userQueue := rest\<rparr>)"
proof (cases "suspended_flag mb \<or> control_queued mb = []")
  case True
  then show thesis by (intro that(1)) (auto simp: control_dequeueUser_def mb_dequeueUser_def)
next
  case False
  show thesis
  proof (cases "controlQueue mb")
    case Nil
    with False show thesis
      by (cases "userQueue mb") (auto simp: control_dequeueUser_def mb_dequeueUser_def intro: that(3))
  next
    case (Cons env rest)
    with False show thesis by (intro that(2) [of env rest]) (simp_all add: control_dequeueUser_def)
  qed
qed

lemma control_exec_account:
  assumes "control_exec mb c = (err, out, mb')"
  shows "\<exists>new refused. drop_log mb' = drop_log mb @ new \<and> suffix refused (arrivals c) \<and>
      (err = None \<longrightarrow> refused = []) \<and>
      (lawful c \<longrightarrow> (\<forall>(r, e) \<in> set new. droppable e)) \<and>
      mset (control_queued mb') + mset out + mset (map snd new) + mset refused =
        mset (control_queued mb) + mset (arrivals c)"
proof (cases c)
  case (Enqueue env)
  obtain mb1 where x: "control_enqueue mb env = (err, mb1)" "out = []" "mb' = mb1"
    using assms Enqueue by (auto split: prod.splits)
  show ?thesis
  proof (cases "is_control mb env")
    case True
    with x show ?thesis by (auto simp: control_enqueue_control Enqueue)
  next
    case False
    note step = control_enqueue_ordinary [OF x(1) False]
    show ?thesis
    proof (cases err)
      case None
      with step obtain new where "ordinary_step mb [env] [] mb1 new" "\<forall>(r, e) \<in> set new. droppable e \<or> e = env"
        by blast
      with x None show ?thesis
        by (intro exI [of _ new] exI [of _ "[]"]) (auto simp: Enqueue ordinary_step_def ac_simps)
    next
      case (Some e)
      with step x show ?thesis by (auto simp: Enqueue)
    qed
  qed
next
  case (EnqueueSignal env)
  with assms have x: "mb' = control_enqueueSignal mb env" "out = []" "err = None" by simp_all
  show ?thesis
  proof (cases rule: control_enqueueSignal_cases [of mb env])
    case control
    show ?thesis by (simp add: x control(2) EnqueueSignal)
  next
    case (ordinary errs)
    show ?thesis by (simp add: x ordinary(2) EnqueueSignal mb_enqueue_def)
  qed
next
  case (PrependUser envs)
  obtain mb1 where x: "control_prependUser mb envs = (err, mb1)" "out = []" "mb' = mb1"
    using assms PrependUser by (auto split: prod.splits)
  note step = control_prependUser_step [OF x(1)]
  show ?thesis
  proof (cases err)
    case None
    with step obtain new mb2 admitted where n:
      "ordinary_step mb (filter (\<lambda>env. \<not> is_control mb env) envs) admitted mb2 new"
      "\<forall>(r, e) \<in> set new. droppable e"
      "mb1 = mb2\<lparr>controlQueue := filter (is_control mb) envs @ controlQueue mb, userQueue := admitted @ userQueue mb2\<rparr>"
      by blast
    have envs: "mset envs = mset (filter (is_control mb) envs) + mset (filter (\<lambda>env. \<not> is_control mb env) envs)"
      by (induction envs) auto
    have log: "drop_log mb' = drop_log mb @ new"
      using n x by (simp add: ordinary_step_def)
    have "mset (control_queued mb') + mset (map snd new) =
        mset (filter (is_control mb) envs) + mset (controlQueue mb) +
        (mset (userQueue mb2) + mset admitted + mset (map snd new))"
      using n(3) x by simp
    also have "\<dots> = mset (control_queued mb) + mset envs"
      using n(1) unfolding ordinary_step_def by (subst envs) simp
    finally show ?thesis
      using log n(2) x None by (intro exI [of _ new] exI [of _ "[]"]) (simp add: PrependUser)
  next
    case (Some e)
    with step x show ?thesis by (auto simp: PrependUser)
  qed
next
  case DequeueUser
  with assms show ?thesis by (cases rule: control_dequeueUser_cases [of mb]) auto
qed (use assms in \<open>auto simp: mb_defs control_drainUser_def\<close>)

lemma control_exec_atomic:
  assumes "control_exec mb c = (Some e, out, mb')"
  shows "(\<exists>errs. mb' = mb\<lparr>controlErrors := errs\<rparr>) \<and> out = []"
proof (cases c)
  case (Enqueue env)
  obtain mb1 where "control_enqueue mb env = (Some e, mb1)" "out = []" "mb' = mb1"
    using assms Enqueue by (auto split: prod.splits)
  then show ?thesis
    using control_enqueue_ordinary [of mb env "Some e" mb1] control_enqueue_control [of mb env]
    by (cases "is_control mb env") auto
next
  case (PrependUser envs)
  with assms control_prependUser_step [of mb envs "Some e"] show ?thesis
    by (auto split: prod.splits)
qed (use assms in \<open>auto split: prod.splits\<close>)

interpretation cmb: atomic_mailbox control_exec "\<lambda>_. True" control_queued drop_log
proof unfold_locales
  fix mb :: "('m, 's, 'z) control_mailbox_scheme" and c err out mb'
  assume x: "control_exec mb c = (err, out, mb')"
  from control_exec_account [OF x]
  show "\<exists>new refused. drop_log mb' = drop_log mb @ new \<and> suffix refused (arrivals c) \<and>
      (err = None \<longrightarrow> refused = []) \<and>
      mset (control_queued mb') + mset out + mset (map snd new) + mset refused =
        mset (control_queued mb) + mset (arrivals c)"
    by blast
  show "droppable env" if "lawful c" "drop_log mb' = drop_log mb @ new" "(reason, env) \<in> set new"
    for new reason env
    using control_exec_account [OF x] that by auto
next
  fix mb :: "('m, 's, 'z) control_mailbox_scheme" and c e out mb'
  assume "control_exec mb c = (Some e, out, mb')"
  from control_exec_atomic [OF this]
  show "control_queued mb' = control_queued mb \<and> drop_log mb' = drop_log mb \<and> out = []" by auto
qed

section \<open>Order\<close>

fun is_replay :: "'m mb_op \<Rightarrow> bool" where
  "is_replay (PrependUser envs) = True"
| "is_replay _ = False"

text \<open>One step keeps the classification, and, replays apart, keeps the arrival order within each
  class: all of the control class, and what is not dropped of the ordinary one.\<close>

definition class_order ::
  "('m \<Rightarrow> bool option) \<Rightarrow> 'm envelope list \<Rightarrow> 'm envelope list \<Rightarrow> bool" where
  "class_order p out arrived \<longleftrightarrow>
     filter (\<lambda>env. p (message env) = Some True) out = filter (\<lambda>env. p (message env) = Some True) arrived \<and>
     subseq (filter (\<lambda>env. p (message env) \<noteq> Some True) out) (filter (\<lambda>env. p (message env) \<noteq> Some True) arrived)"

lemma class_order_refl [simp]: "class_order p xs xs"
  by (simp add: class_order_def)

lemma class_order_trans: "class_order p xs ys \<Longrightarrow> class_order p ys zs \<Longrightarrow> class_order p xs zs"
  by (auto simp: class_order_def)

lemma class_order_append: "class_order p xs xs' \<Longrightarrow> class_order p ys ys' \<Longrightarrow> class_order p (xs @ ys) (xs' @ ys')"
  by (auto simp: class_order_def intro: list_emb_append_mono)

lemma control_classed_filters:
  assumes "control_classed mb"
  shows "filter (is_control mb) (controlQueue mb) = controlQueue mb" "filter (is_control mb) (userQueue mb) = []"
    "filter (\<lambda>env. \<not> is_control mb env) (controlQueue mb) = []"
    "filter (\<lambda>env. \<not> is_control mb env) (userQueue mb) = userQueue mb"
  using assms by (auto simp: control_classed_def filter_empty_conv intro!: filter_True)

lemma control_exec_order:
  assumes "control_exec mb c = (err, out, mb')" "control_classed mb"
  shows "control_classed mb' \<and> isControl mb' = isControl mb \<and>
    (\<not> is_replay c \<longrightarrow> class_order (isControl mb) (out @ control_queued mb') (control_queued mb @ arrivals c))"
proof (cases c)
  case (Enqueue env)
  obtain mb1 where x: "control_enqueue mb env = (err, mb1)" "out = []" "mb' = mb1"
    using assms Enqueue by (auto split: prod.splits)
  show ?thesis
  proof (cases "is_control mb env")
    case True
    with x have mb': "mb' = mb\<lparr>controlQueue := controlQueue mb @ [env]\<rparr>"
      by (simp add: control_enqueue_control)
    have "control_classed mb'"
      using True assms(2) by (simp add: mb' control_classed_def)
    with True x(2) show ?thesis
      using control_classed_filters [OF assms(2)] by (simp add: mb' Enqueue class_order_def)
  next
    case False
    note step = control_enqueue_ordinary [OF x(1) False]
    show ?thesis
    proof (cases err)
      case None
      with step obtain new where n: "ordinary_step mb [env] [] mb1 new" "subseq (userQueue mb1) (userQueue mb @ [env])"
        by blast
      from ordinary_step_classed [OF n(1) assms(2)] False have classed: "control_classed mb1"
        by simp
      with n assms(2) False x show ?thesis
        using control_classed_filters [OF classed] control_classed_filters [OF assms(2)]
        by (auto simp: Enqueue ordinary_step_def class_order_def)
    next
      case (Some e)
      with step x assms(2) False show ?thesis
        by (force simp: Enqueue class_order_def control_classed_def)
    qed
  qed
next
  case (EnqueueSignal env)
  with assms have x: "mb' = control_enqueueSignal mb env" "out = []" by simp_all
  show ?thesis
  proof (cases rule: control_enqueueSignal_cases [of mb env])
    case control
    with assms(2) show ?thesis
      by (simp add: x control(2) EnqueueSignal class_order_def control_classed_def filter_empty_conv)
  next
    case (ordinary errs)
    with assms(2) show ?thesis
      by (auto simp add: x ordinary(2) EnqueueSignal class_order_def control_classed_def mb_enqueue_def)
  qed
next
  case (PrependUser envs)
  obtain mb1 where x: "control_prependUser mb envs = (err, mb1)" "out = []" "mb' = mb1"
    using assms PrependUser by (auto split: prod.splits)
  show ?thesis
  proof (cases err)
    case None
    with control_prependUser_step [OF x(1)] obtain new mb2 admitted where n:
      "ordinary_step mb (filter (\<lambda>env. \<not> is_control mb env) envs) admitted mb2 new"
      "mb1 = mb2\<lparr>controlQueue := filter (is_control mb) envs @ controlQueue mb, userQueue := admitted @ userQueue mb2\<rparr>"
      by blast
    have "control_classed mb2 \<and> (\<forall>env \<in> set admitted. \<not> is_control mb env)"
      by (rule ordinary_step_classed [OF n(1) assms(2)]) simp
    with n assms(2) x show ?thesis
      unfolding PrependUser control_classed_def ordinary_step_def by auto
  next
    case (Some e)
    with control_prependUser_step [OF x(1)] x assms(2) show ?thesis
      by (force simp: PrependUser control_classed_def)
  qed
next
  case DequeueUser
  with assms show ?thesis
    by (cases rule: control_dequeueUser_cases [of mb]) (auto simp: control_classed_def)
qed (use assms in \<open>auto simp: mb_defs control_drainUser_def control_classed_def\<close>)

lemma control_run_order:
  "control_classed mb \<Longrightarrow> mb_run control_exec mb cs = (delivered, refused, mb') \<Longrightarrow>
   control_classed mb' \<and> isControl mb' = isControl mb \<and>
   ((\<forall>c \<in> set cs. \<not> is_replay c) \<longrightarrow>
     class_order (isControl mb) (delivered @ control_queued mb') (control_queued mb @ concat (map arrivals cs)))"
proof (induction cs arbitrary: mb delivered refused)
  case (Cons c cs)
  obtain err out mb1 where e: "control_exec mb c = (err, out, mb1)" by (cases "control_exec mb c") auto
  obtain d r where r: "mb_run control_exec mb1 cs = (d, r, mb')" and d: "delivered = out @ d"
    using Cons.prems(2) e by (auto split: prod.splits)
  note step = control_exec_order [OF e Cons.prems(1)]
  note rest = Cons.IH [OF _ r]
  have "class_order (isControl mb) (delivered @ control_queued mb') (control_queued mb @ concat (map arrivals (c # cs)))"
    if "\<forall>c \<in> set (c # cs). \<not> is_replay c"
  proof -
    have "class_order (isControl mb) (out @ d @ control_queued mb') (out @ control_queued mb1 @ concat (map arrivals cs))"
      using rest step that by (intro class_order_append [OF class_order_refl]) auto
    moreover have "class_order (isControl mb) ((out @ control_queued mb1) @ concat (map arrivals cs))
        ((control_queued mb @ arrivals c) @ concat (map arrivals cs))"
      using step that by (intro class_order_append [OF _ class_order_refl]) auto
    ultimately show ?thesis using class_order_trans d by fastforce
  qed
  with step rest show ?case by simp
qed simp

lemma control_new_fresh:
  "control_new p cap policy onDrop = Some mb \<Longrightarrow>
   control_classed mb \<and> control_queued mb = [] \<and> drop_log mb = [] \<and> isControl mb = p"
  by (auto simp: control_new_def observeDrops_def control_classed_def Let_def split: if_splits option.splits)

section \<open>Properties\<close>

text \<open>C9: a control message is delivered or still queued, never refused by an \<open>enqueue\<close> or
  dropped: without stash replays, the control messages delivered so far followed by the queued ones
  are exactly the control messages sent, in the order they were sent; ordinary messages keep their
  order too; and whenever an ordinary message is handed over, no control message is waiting.\<close>

theorem control_messages_fifo_and_first:
  assumes "control_new p cap policy onDrop = Some mb" and "\<forall>c \<in> set cs. \<not> is_replay c"
    and "mb_run control_exec mb cs = (delivered, refused, mb')"
  shows "class_order p (delivered @ controlQueue mb' @ userQueue mb') (concat (map arrivals cs)) \<and>
    (\<forall>env mb''. control_dequeueUser mb' = (Some env, mb'') \<and> p (message env) \<noteq> Some True \<longrightarrow>
      (\<forall>e \<in> set (controlQueue mb' @ userQueue mb'). p (message e) \<noteq> Some True))"
proof -
  note fresh = control_new_fresh [OF assms(1)]
  then have run: "control_classed mb'" "isControl mb' = p"
    "class_order p (delivered @ control_queued mb') (concat (map arrivals cs))"
    using control_run_order [OF _ assms(3)] assms(2) by auto
  have "\<forall>e \<in> set (control_queued mb'). p (message e) \<noteq> Some True"
    if "control_dequeueUser mb' = (Some env, mb'')" "p (message env) \<noteq> Some True" for env mb''
    using that run(1,2)
    by (cases rule: control_dequeueUser_cases [of mb']) (auto simp: control_classed_def)
  with run(3) show ?thesis by blast
qed

text \<open>Every message sent to a control-aware mailbox, replays included, is accounted for
  exactly once: delivered, refused, queued or dropped; and what is dropped is neither a control
  message nor an undroppable notification.\<close>

theorem control_mailbox_accounts_for_every_message:
  assumes "control_new p cap policy onDrop = Some mb" and "\<forall>c \<in> set cs. lawful c"
    and "mb_run control_exec mb cs = (delivered, refused, mb')"
  shows "mset delivered + mset refused + mset (controlQueue mb' @ userQueue mb') +
           mset (map snd (drop_log mb')) = mset (concat (map arrivals cs)) \<and>
         (\<forall>(reason, env) \<in> set (drop_log mb'). \<not> undroppable env \<and> p (message env) \<noteq> Some True)"
proof -
  note fresh = control_new_fresh [OF assms(1)]
  then have "control_classed mb'" "isControl mb' = p"
    using control_run_order [OF _ assms(3)] by auto
  then show ?thesis
    using fresh cmb.run_account [OF TrueI assms(3)] cmb.run_undroppable [OF TrueI assms(2,3)]
    by (auto simp: control_classed_def)
qed

definition demo_is_control :: "nat \<Rightarrow> bool option" where
  "demo_is_control n = (if n = 0 then None else Some (n > 10))"

definition demo_control :: "(nat, nat) control_mailbox" where
  "demo_control = the (control_new demo_is_control (Some 1) (Some Overflow_Drop_New) None)"

definition demo_control_history :: "nat mb_op list" where
  "demo_control_history =
     [Enqueue (demo_env 1 False), Enqueue (demo_env 11 False), Enqueue (demo_env 2 False),
      Enqueue (demo_env 0 False), DequeueUser]"

lemmas demo_control_eval = Let_def demo_control_def demo_control_history_def demo_env_def demo_is_control_def
  control_new_def control_enqueue_def classesAsControl_def control_dequeueUser_def mb_defs reportDrop_def

theorem control_messages_fifo_and_first_witness:
  "\<exists>delivered refused mb' mb''. mb_run control_exec demo_control demo_control_history = (delivered, refused, mb') \<and>
     class_order demo_is_control (delivered @ controlQueue mb' @ userQueue mb')
       (concat (map arrivals demo_control_history)) \<and>
     map env_ref delivered = [11] \<and> control_dequeueUser mb' = (Some (demo_env 1 False), mb'') \<and>
     (\<forall>e \<in> set (controlQueue mb' @ userQueue mb'). demo_is_control (message e) \<noteq> Some True)"
proof -
  have new: "control_new demo_is_control (Some 1) (Some Overflow_Drop_New) None = Some demo_control"
    by (simp add: demo_control_def control_new_def)
  have plain: "\<forall>c \<in> set demo_control_history. \<not> is_replay c"
    by (simp add: demo_control_history_def)
  obtain d r mb' where run: "mb_run control_exec demo_control demo_control_history = (d, r, mb')"
    by (cases "mb_run control_exec demo_control demo_control_history") auto
  then have d: "map env_ref d = [11]"
    and dq: "fst (control_dequeueUser mb') = Some (demo_env 1 False)"
    by (auto simp: demo_control_eval mb_dequeueUser_def)
  obtain mb'' where dq': "control_dequeueUser mb' = (Some (demo_env 1 False), mb'')"
    using dq by (cases "control_dequeueUser mb'") auto
  have "demo_is_control (message (demo_env 1 False)) \<noteq> Some True"
    by (simp add: demo_is_control_def demo_env_def)
  with control_messages_fifo_and_first [OF new plain run] dq'
  have "class_order demo_is_control (d @ control_queued mb') (concat (map arrivals demo_control_history))"
    "\<forall>e \<in> set (control_queued mb'). demo_is_control (message e) \<noteq> Some True"
    by blast+
  with run d dq' show ?thesis by (intro exI conjI)
qed

theorem control_mailbox_accounts_for_every_message_witness:
  "\<exists>delivered refused mb'. mb_run control_exec demo_control demo_control_history = (delivered, refused, mb') \<and>
     mset delivered + mset refused + mset (controlQueue mb' @ userQueue mb') + mset (map snd (drop_log mb')) =
       mset (concat (map arrivals demo_control_history)) \<and>
     map (env_ref \<circ> snd) (drop_log mb') = [2, 0]"
proof -
  have new: "control_new demo_is_control (Some 1) (Some Overflow_Drop_New) None = Some demo_control"
    by (simp add: demo_control_def control_new_def)
  have lawful: "\<forall>c \<in> set demo_control_history. lawful c"
    by (simp add: demo_control_history_def demo_env_def)
  obtain d r mb' where run: "mb_run control_exec demo_control demo_control_history = (d, r, mb')"
    by (cases "mb_run control_exec demo_control demo_control_history") auto
  moreover from run have "map (env_ref \<circ> snd) (drop_log mb') = [2, 0]"
    by (auto simp: demo_control_eval)
  ultimately show ?thesis
    using conjunct1 [OF control_mailbox_accounts_for_every_message [OF new lawful run]]
    by (intro exI conjI)
qed

end
