(* ===== verification/Priority_Mailbox.thy ===== *)
theory Priority_Mailbox
  imports Bounded_Mailbox
begin

text \<open>
  \<^verbatim>\<open>src/src/mailbox/PriorityMailbox.ts\<close>: user messages ordered by priority, then arrival, in an
  array kept sorted by a binary search.

  The caller's \<^verbatim>\<open>priorityFor\<close> is a field; it throws, answers something that is no number, or
  answers a number (NaN included). Array lengths stay below 2^31 (larger arrays do not exist in
  practice and stay below 2^32 in the language), so the midpoint \<^verbatim>\<open>(low + high) >>> 1\<close> is \<open>div 2\<close>.
\<close>

section \<open>Model\<close>

datatype priority_answer = Threw | NotANumber | Ranked js_number

datatype priority_overflow = Priority_Reject | Drop_Lowest_Priority | Priority_Drop_New

record 'm priority_entry =
  pe_envelope :: "'m envelope"
  pe_priority :: js_number
  pe_sequence :: nat

record ('m, 's) priority_mailbox = "('m, 's) dropping_mailbox" +
  priorityFor :: "'m \<Rightarrow> priority_answer"
  pm_capacity :: "nat option"
  pm_overflow :: priority_overflow
  has_onPriorityError :: bool
  sequence :: nat
  ordered :: "'m priority_entry list"
  priorityErrors :: "'m list"

definition UNRANKABLE_PRIORITY :: js_number where
  "UNRANKABLE_PRIORITY = Fin MAX_SAFE_INTEGER"

definition priority_new ::
  "('m \<Rightarrow> priority_answer) \<Rightarrow> int option \<Rightarrow> priority_overflow option \<Rightarrow> nat option \<Rightarrow> bool \<Rightarrow>
   ('m, 's) priority_mailbox option" where
  "priority_new priorityFun cap policy onDrop hook =
     (if (case cap of None \<Rightarrow> False | Some c \<Rightarrow> c \<le> 0) \<or> (policy \<noteq> None \<and> cap = None) then None
      else let mb = \<lparr>userQueue = [], systemQueue = [], suspended_flag = False, dropObservers = [],
                     droppedCount = 0, observer_calls = [], drop_log = [], priorityFor = priorityFun,
                     pm_capacity = map_option nat cap,
                     pm_overflow = (case policy of None \<Rightarrow> Priority_Reject | Some p \<Rightarrow> p),
                     has_onPriorityError = hook, sequence = 0, ordered = [], priorityErrors = []\<rparr>
           in Some (case onDrop of None \<Rightarrow> mb | Some observer \<Rightarrow> observeDrops mb observer))"

definition priorityOf ::
  "('m, 's, 'z) priority_mailbox_scheme \<Rightarrow> 'm \<Rightarrow> js_number \<times> ('m, 's, 'z) priority_mailbox_scheme" where
  "priorityOf mb msg =
     (let failed = (UNRANKABLE_PRIORITY,
            if has_onPriorityError mb then mb\<lparr>priorityErrors := priorityErrors mb @ [msg]\<rparr> else mb)
      in case priorityFor mb msg of
           Threw \<Rightarrow> failed
         | NotANumber \<Rightarrow> failed
         | Ranked raw \<Rightarrow> if raw \<noteq> NaN then (raw, mb) else failed)"

function insert_search :: "'m priority_entry list \<Rightarrow> js_number \<Rightarrow> nat \<Rightarrow> nat \<Rightarrow> nat \<Rightarrow> nat" where
  "insert_search entries priority seq low high =
     (if low < high then
        let middle = (low + high) div 2; item = entries ! middle in
        if js_less (pe_priority item) priority \<or> (js_eq (pe_priority item) priority \<and> pe_sequence item < seq)
        then insert_search entries priority seq (middle + 1) high
        else insert_search entries priority seq low middle
      else low)"
  by pat_completeness auto
termination
  by (relation "measure (\<lambda>(entries, priority, seq, low, high). high - low)") auto

declare insert_search.simps [simp del]

definition priority_insert ::
  "('m, 's, 'z) priority_mailbox_scheme \<Rightarrow> 'm envelope \<Rightarrow> ('m, 's, 'z) priority_mailbox_scheme" where
  "priority_insert mb0 env =
     (let (priority, mb) = priorityOf mb0 (message env);
          entry = \<lparr>pe_envelope = env, pe_priority = priority, pe_sequence = sequence mb\<rparr>;
          low = insert_search (ordered mb) priority (sequence mb) 0 (length (ordered mb))
      in mb\<lparr>sequence := sequence mb + 1, ordered := take low (ordered mb) @ entry # drop low (ordered mb)\<rparr>)"

fun shed_loop :: "'m priority_entry list \<Rightarrow> nat \<Rightarrow> 'm envelope option \<times> 'm priority_entry list" where
  "shed_loop entries 0 = (None, entries)"
| "shed_loop entries (Suc index) =
     (if \<not> undroppable (pe_envelope (entries ! index))
      then (Some (pe_envelope (entries ! index)), take index entries @ drop (Suc index) entries)
      else shed_loop entries index)"

definition priority_removeOldest ::
  "('m, 's, 'z) priority_mailbox_scheme \<Rightarrow> 'm envelope option \<times> ('m, 's, 'z) priority_mailbox_scheme" where
  "priority_removeOldest mb =
     (let (shed, entries) = shed_loop (ordered mb) (length (ordered mb)) in (shed, mb\<lparr>ordered := entries\<rparr>))"

definition priority_removeNewest ::
  "('m, 's, 'z) priority_mailbox_scheme \<Rightarrow> 'm envelope option \<times> ('m, 's, 'z) priority_mailbox_scheme" where
  "priority_removeNewest mb = priority_removeOldest mb"

definition shedLeastImportant ::
  "('m, 's, 'z) priority_mailbox_scheme \<Rightarrow> 'm envelope \<Rightarrow> ('m, 's, 'z) priority_mailbox_scheme" where
  "shedLeastImportant mb env =
     (let (shed, mb1) = priority_removeOldest (priority_insert mb env)
      in case shed of
           None \<Rightarrow> mb1
         | Some s \<Rightarrow> reportDrop mb1 (if env_ref s = env_ref env then Drop_New else Drop_Head) s)"

definition priority_enqueue ::
  "('m, 's, 'z) priority_mailbox_scheme \<Rightarrow> 'm envelope \<Rightarrow>
   mailbox_error option \<times> ('m, 's, 'z) priority_mailbox_scheme" where
  "priority_enqueue mb env =
     (case pm_capacity mb of
        None \<Rightarrow> (None, priority_insert mb env)
      | Some cap \<Rightarrow>
          if length (ordered mb) \<ge> cap then
            (case pm_overflow mb of
               Drop_Lowest_Priority \<Rightarrow> (None, shedLeastImportant mb env)
             | Priority_Drop_New \<Rightarrow> (None, reportDrop mb Drop_New env)
             | Priority_Reject \<Rightarrow> (Some (MailboxFullError cap), mb))
          else (None, priority_insert mb env))"

definition priority_enqueueSignal ::
  "('m, 's, 'z) priority_mailbox_scheme \<Rightarrow> 'm envelope \<Rightarrow> ('m, 's, 'z) priority_mailbox_scheme" where
  "priority_enqueueSignal mb env = priority_insert mb env"

fun priority_prependUser ::
  "('m, 's, 'z) priority_mailbox_scheme \<Rightarrow> 'm envelope list \<Rightarrow>
   mailbox_error option \<times> ('m, 's, 'z) priority_mailbox_scheme" where
  "priority_prependUser mb [] = (None, mb)"
| "priority_prependUser mb (env # envs) =
     (if undroppable env then priority_prependUser (priority_enqueueSignal mb env) envs
      else case priority_enqueue mb env of
             (Some e, mb1) \<Rightarrow> (Some e, mb1)
           | (None, mb1) \<Rightarrow> priority_prependUser mb1 envs)"

definition priority_dequeueUser ::
  "('m, 's, 'z) priority_mailbox_scheme \<Rightarrow> 'm envelope option \<times> ('m, 's, 'z) priority_mailbox_scheme" where
  "priority_dequeueUser mb =
     (if suspended_flag mb then (None, mb)
      else case ordered mb of
        [] \<Rightarrow> (None, mb)
      | entry # rest \<Rightarrow> (Some (pe_envelope entry), mb\<lparr>ordered := rest\<rparr>))"

definition priority_size :: "('m, 's, 'z) priority_mailbox_scheme \<Rightarrow> nat" where
  "priority_size mb = length (ordered mb)"

definition priority_hasUserMessages :: "('m, 's, 'z) priority_mailbox_scheme \<Rightarrow> bool" where
  "priority_hasUserMessages mb = (ordered mb \<noteq> [])"

definition priority_hasMessages :: "('m, 's, 'z) priority_mailbox_scheme \<Rightarrow> bool" where
  "priority_hasMessages mb = (mb_hasSystemMessages mb \<or> (\<not> suspended_flag mb \<and> ordered mb \<noteq> []))"

definition priority_drainUser ::
  "('m, 's, 'z) priority_mailbox_scheme \<Rightarrow> 'm envelope list \<times> ('m, 's, 'z) priority_mailbox_scheme" where
  "priority_drainUser mb = (map pe_envelope (ordered mb), mb\<lparr>ordered := []\<rparr>)"

fun priority_exec ::
  "('m, 's, 'z) priority_mailbox_scheme \<Rightarrow> 'm mb_op \<Rightarrow> ('m, ('m, 's, 'z) priority_mailbox_scheme) mb_outcome" where
  "priority_exec mb (Enqueue env) = (let (err, mb') = priority_enqueue mb env in (err, [], mb'))"
| "priority_exec mb (EnqueueSignal env) = (None, [], priority_enqueueSignal mb env)"
| "priority_exec mb (PrependUser envs) = (let (err, mb') = priority_prependUser mb envs in (err, [], mb'))"
| "priority_exec mb DequeueUser =
     (let (env, mb') = priority_dequeueUser mb in (None, case env of None \<Rightarrow> [] | Some e \<Rightarrow> [e], mb'))"
| "priority_exec mb Suspend = (None, [], mb_suspend mb)"
| "priority_exec mb Resume = (None, [], mb_resume mb)"
| "priority_exec mb DrainUser = (let (envs, mb') = priority_drainUser mb in (None, envs, mb'))"

section \<open>The binary search\<close>

lemma insert_search_stop: "\<not> low < high \<Longrightarrow> insert_search es priority seq low high = low"
  by (subst insert_search.simps) simp

lemma insert_search_step: "low < high \<Longrightarrow> insert_search es priority seq low high =
    (let middle = (low + high) div 2; item = es ! middle in
     if js_less (pe_priority item) priority \<or> (js_eq (pe_priority item) priority \<and> pe_sequence item < seq)
     then insert_search es priority seq (middle + 1) high else insert_search es priority seq low middle)"
  by (subst insert_search.simps) (simp only: if_True)

definition priority_rank :: "('m \<Rightarrow> priority_answer) \<Rightarrow> 'm envelope \<Rightarrow> js_number" where
  "priority_rank p env = (case p (message env) of
     Ranked raw \<Rightarrow> if raw \<noteq> NaN then raw else UNRANKABLE_PRIORITY | _ \<Rightarrow> UNRANKABLE_PRIORITY)"

abbreviation queue_of :: "('m, 's, 'z) priority_mailbox_scheme \<Rightarrow> 'm envelope list" where
  "queue_of mb \<equiv> map pe_envelope (ordered mb)"

lemma priority_rank_number [simp]: "priority_rank p env \<noteq> NaN"
  by (auto simp: priority_rank_def UNRANKABLE_PRIORITY_def split: priority_answer.splits)

lemma priorityOf_cases:
  obtains errs where "priorityOf mb (message env) = (priority_rank (priorityFor mb) env, mb\<lparr>priorityErrors := errs\<rparr>)"
proof -
  let ?p = "priorityOf mb (message env)"
  have "fst ?p = priority_rank (priorityFor mb) env"
    by (auto simp: priorityOf_def priority_rank_def Let_def split: priority_answer.splits)
  moreover have "snd ?p = mb\<lparr>priorityErrors := priorityErrors (snd ?p)\<rparr>"
    by (auto simp: priorityOf_def Let_def split: priority_answer.splits)
  ultimately show thesis by (intro that) (rule prod_eqI, simp_all)
qed

lemma insert_search_correct:
  assumes "sorted (map pe_priority es)" "\<forall>e \<in> set es. pe_priority e \<noteq> NaN \<and> pe_sequence e < seq"
    and "priority \<noteq> NaN" "low \<le> high" "high \<le> length es"
    and "\<forall>j < low. pe_priority (es ! j) \<le> priority"
    and "\<forall>j < length es. high \<le> j \<longrightarrow> priority < pe_priority (es ! j)"
  shows "insert_search es priority seq low high \<le> length es \<and>
    (\<forall>j < insert_search es priority seq low high. pe_priority (es ! j) \<le> priority) \<and>
    (\<forall>j < length es. insert_search es priority seq low high \<le> j \<longrightarrow> priority < pe_priority (es ! j))"
  using assms
proof (induction es priority seq low high rule: insert_search.induct)
  case (1 es priority seq low high)
  show ?case
  proof (cases "low < high")
    case True
    let ?m = "(low + high) div 2"
    let ?right = "js_less (pe_priority (es ! ?m)) priority \<or>
        (js_eq (pe_priority (es ! ?m)) priority \<and> pe_sequence (es ! ?m) < seq)"
    have m: "low \<le> ?m" "?m < high" "?m < length es" using True "1.prems"(5) by auto
    have sorted: "pe_priority (es ! i) \<le> pe_priority (es ! j)" if "i \<le> j" "j < length es" for i j
      using sorted_nth_mono [OF "1.prems"(1), of i j] that by simp
    have item: "pe_priority (es ! ?m) \<noteq> NaN" "pe_sequence (es ! ?m) < seq"
      using "1.prems"(2) m(3) by simp_all
    then have right: "?right \<longleftrightarrow> pe_priority (es ! ?m) \<le> priority"
      using "1.prems"(3) by (auto simp: js_less_iff js_eq_iff)
    show ?thesis
    proof (cases ?right)
      case r: True
      then have unfold: "insert_search es priority seq low high = insert_search es priority seq (?m + 1) high"
        by (subst insert_search.simps) (use True r in \<open>simp only: Let_def if_True\<close>)
      have "pe_priority (es ! j) \<le> priority" if "j < ?m + 1" for j
        using order_trans [OF sorted [of j ?m]] that m(3) iffD1 [OF right r] by simp
      then show ?thesis unfolding unfold
        by (intro "1.IH"(1) [OF True refl refl r "1.prems"(1,2,3) _ "1.prems"(5) _ "1.prems"(7)])
          (use m in auto)
    next
      case l: False
      then have unfold: "insert_search es priority seq low high = insert_search es priority seq low ?m"
        by (subst insert_search.simps) (use True l in \<open>simp only: Let_def if_True if_False\<close>)
      have "priority < pe_priority (es ! ?m)" using l right by auto
      then have after: "\<forall>j < length es. ?m \<le> j \<longrightarrow> priority < pe_priority (es ! j)"
        using sorted less_le_trans by blast
      show ?thesis unfolding unfold
        by (rule "1.IH"(2) [OF True refl refl l "1.prems"(1,2,3) m(1) _ "1.prems"(6) after]) (use m in simp)
    qed
  next
    case False
    then show ?thesis using "1.prems" by (subst (1 2 3) insert_search.simps) auto
  qed
qed

section \<open>The invariant\<close>

definition priority_ok :: "('m, 's, 'z) priority_mailbox_scheme \<Rightarrow> bool" where
  "priority_ok mb \<longleftrightarrow> sorted (map pe_priority (ordered mb)) \<and>
     (\<forall>e \<in> set (ordered mb). pe_priority e = priority_rank (priorityFor mb) (pe_envelope e) \<and>
        pe_sequence e < sequence mb)"

text \<open>An insertion puts the message behind every message of its rank and before the first of a
  greater one, and changes nothing else that a message's life depends on.\<close>

lemma priority_insert_position:
  assumes "priority_ok mb"
  obtains errs n es xs ys where "priority_insert mb env = mb\<lparr>priorityErrors := errs, sequence := n, ordered := es\<rparr>"
    "priority_ok (priority_insert mb env)" "queue_of mb = xs @ ys" "map pe_envelope es = xs @ env # ys"
    "\<forall>x \<in> set xs. priority_rank (priorityFor mb) x \<le> priority_rank (priorityFor mb) env"
    "\<forall>y \<in> set ys. priority_rank (priorityFor mb) env < priority_rank (priorityFor mb) y"
proof -
  let ?p = "priority_rank (priorityFor mb) env"
  let ?es = "ordered mb"
  obtain errs where p: "priorityOf mb (message env) = (?p, mb\<lparr>priorityErrors := errs\<rparr>)"
    by (rule priorityOf_cases)
  define low where "low = insert_search ?es ?p (sequence mb) 0 (length ?es)"
  define entry where "entry = \<lparr>pe_envelope = env, pe_priority = ?p, pe_sequence = sequence mb\<rparr>"
  let ?new = "take low ?es @ entry # drop low ?es"
  have ok: "sorted (map pe_priority ?es)"
    "\<forall>e \<in> set ?es. pe_priority e = priority_rank (priorityFor mb) (pe_envelope e) \<and> pe_sequence e < sequence mb"
    using assms by (auto simp: priority_ok_def)
  have "\<forall>e \<in> set ?es. pe_priority e \<noteq> NaN \<and> pe_sequence e < sequence mb"
    using ok(2) by simp
  from insert_search_correct [OF ok(1) this, of ?p 0 "length ?es"]
  have pos: "low \<le> length ?es" "\<forall>j < low. pe_priority (?es ! j) \<le> ?p"
    "\<forall>j < length ?es. low \<le> j \<longrightarrow> ?p < pe_priority (?es ! j)"
    unfolding low_def by simp_all
  have before: "\<forall>x \<in> set (take low ?es). pe_priority x \<le> ?p"
    using pos(1,2) by (auto simp: in_set_conv_nth)
  have after: "\<forall>y \<in> set (drop low ?es). ?p < pe_priority y"
    using pos(1,3) by (auto simp: in_set_conv_nth)
  have ins: "priority_insert mb env = mb\<lparr>priorityErrors := errs, sequence := Suc (sequence mb), ordered := ?new\<rparr>"
    by (simp add: priority_insert_def p low_def entry_def Let_def)
  have "sorted (map pe_priority ?new)"
    using before after sorted_wrt_take [OF ok(1), of low] sorted_wrt_drop [OF ok(1), of low]
    by (auto simp: sorted_append take_map drop_map entry_def) (meson order_trans less_imp_le)+
  moreover have "\<forall>e \<in> set ?new. pe_priority e = priority_rank (priorityFor mb) (pe_envelope e) \<and>
      pe_sequence e < Suc (sequence mb)"
    using ok(2) by (auto simp: entry_def dest!: in_set_takeD in_set_dropD)
  ultimately have "priority_ok (priority_insert mb env)"
    by (simp add: ins priority_ok_def)
  moreover have "\<forall>x \<in> set (map pe_envelope (take low ?es)). priority_rank (priorityFor mb) x \<le> ?p"
    using before ok(2) set_take_subset [of low ?es] by (simp add: subset_iff)
  moreover have "\<forall>y \<in> set (map pe_envelope (drop low ?es)). ?p < priority_rank (priorityFor mb) y"
    using after ok(2) set_drop_subset [of low ?es] by (simp add: subset_iff)
  moreover have "queue_of mb = map pe_envelope (take low ?es) @ map pe_envelope (drop low ?es)"
    by (simp flip: map_append)
  ultimately show thesis
    by (intro that [OF ins, of "map pe_envelope (take low ?es)" "map pe_envelope (drop low ?es)"])
      (simp_all add: entry_def)
qed

text \<open>Shedding takes the last droppable message.\<close>

lemma shed_loop_cases:
  assumes "n \<le> length es"
  obtains (none) "shed_loop es n = (None, es)" "\<forall>e \<in> set (take n es). undroppable (pe_envelope e)"
  | (some) xs e ys where "es = xs @ e # ys" "shed_loop es n = (Some (pe_envelope e), xs @ ys)"
      "droppable (pe_envelope e)" "\<forall>y \<in> set (take (n - Suc (length xs)) ys). undroppable (pe_envelope y)"
      "length xs < n"
  using assms
proof (induction n arbitrary: thesis)
  case 0
  then show ?case by simp
next
  case (Suc n)
  let ?e = "es ! n"
  have n: "n < length es" using Suc.prems(3) by simp
  show ?case
  proof (cases "undroppable (pe_envelope ?e)")
    case True
    have step: "shed_loop es (Suc n) = shed_loop es n" using True by simp
    show ?thesis
    proof (rule Suc.IH)
      assume "shed_loop es n = (None, es)" "\<forall>e \<in> set (take n es). undroppable (pe_envelope e)"
      then show thesis using True n step Suc.prems(1) by (simp add: take_Suc_conv_app_nth)
    next
      fix xs e ys
      assume s: "es = xs @ e # ys" "shed_loop es n = (Some (pe_envelope e), xs @ ys)" "droppable (pe_envelope e)"
        "\<forall>y \<in> set (take (n - Suc (length xs)) ys). undroppable (pe_envelope y)" "length xs < n"
      have k: "Suc n - Suc (length xs) = Suc (n - Suc (length xs))" "n - Suc (length xs) < length ys"
        using s(1,5) n by auto
      have "ys ! (n - Suc (length xs)) = ?e" using s(1,5) by (simp add: nth_append)
      with k True s(4) have "\<forall>y \<in> set (take (Suc n - Suc (length xs)) ys). undroppable (pe_envelope y)"
        by (simp only: k take_Suc_conv_app_nth [OF k(2)]) auto
      with s step show thesis by (intro Suc.prems(2) [of xs e ys]) simp_all
    qed (use n in simp)
  next
    case False
    then show ?thesis using n
      by (intro Suc.prems(2) [of "take n es" ?e "drop (Suc n) es"]) (simp_all add: id_take_nth_drop)
  qed
qed

lemma priority_removeOldest_cases:
  obtains (none) "priority_removeOldest mb = (None, mb)" "\<forall>env \<in> set (queue_of mb). undroppable env"
  | (some) xs e ys where "ordered mb = xs @ e # ys" "droppable (pe_envelope e)"
      "\<forall>y \<in> set ys. undroppable (pe_envelope y)"
      "priority_removeOldest mb = (Some (pe_envelope e), mb\<lparr>ordered := xs @ ys\<rparr>)"
proof (rule shed_loop_cases [of "length (ordered mb)" "ordered mb"])
  assume "shed_loop (ordered mb) (length (ordered mb)) = (None, ordered mb)"
    "\<forall>e \<in> set (take (length (ordered mb)) (ordered mb)). undroppable (pe_envelope e)"
  then show thesis by (intro that(1)) (simp_all add: priority_removeOldest_def)
next
  fix xs e ys
  assume "ordered mb = xs @ e # ys" "droppable (pe_envelope e)"
    "shed_loop (ordered mb) (length (ordered mb)) = (Some (pe_envelope e), xs @ ys)"
    "\<forall>y \<in> set (take (length (ordered mb) - Suc (length xs)) ys). undroppable (pe_envelope y)"
  then show thesis by (intro that(2) [of xs e ys]) (simp_all add: priority_removeOldest_def)
qed simp

section \<open>Refinement of a stable priority queue\<close>

text \<open>The specification keeps the waiting messages in arrival order and always hands out the first
  of the stably sorted list.\<close>

fun pq_step :: "('m envelope \<Rightarrow> js_number) \<Rightarrow> bool \<times> 'm envelope list \<Rightarrow> 'm mb_op \<Rightarrow>
    'm envelope list \<times> bool \<times> 'm envelope list" where
  "pq_step f (susp, q) (Enqueue env) = ([], susp, q @ [env])"
| "pq_step f (susp, q) (EnqueueSignal env) = ([], susp, q @ [env])"
| "pq_step f (susp, q) (PrependUser envs) = ([], susp, q @ envs)"
| "pq_step f (susp, q) DequeueUser =
     (if susp then ([], susp, q)
      else case sort_key f q of [] \<Rightarrow> ([], susp, q) | env # _ \<Rightarrow> ([env], susp, remove1 env q))"
| "pq_step f (susp, q) Suspend = ([], True, q)"
| "pq_step f (susp, q) Resume = ([], False, q)"
| "pq_step f (susp, q) DrainUser = (sort_key f q, susp, [])"

fun pq_run :: "('m envelope \<Rightarrow> js_number) \<Rightarrow> bool \<times> 'm envelope list \<Rightarrow> 'm mb_op list \<Rightarrow>
    'm envelope list \<times> bool \<times> 'm envelope list" where
  "pq_run f st [] = ([], st)"
| "pq_run f st (c # cs) = (let (out, st1) = pq_step f st c; (outs, st2) = pq_run f st1 cs in (out @ outs, st2))"

lemma sort_key_snoc:
  assumes "sort_key f q = xs @ ys" "\<forall>x \<in> set xs. f x \<le> f env" "\<forall>y \<in> set ys. f env < f y"
  shows "sort_key f (q @ [env]) = xs @ env # ys"
proof (rule properties_for_sort_key)
  have stable: "filter (\<lambda>x. f k = f x) (xs @ ys) = filter (\<lambda>x. f k = f x) q" for k
    using sort_key_stable [of f "f k" q] by (simp add: assms(1) [symmetric] eq_commute)
  have "mset (xs @ ys) = mset q" by (metis assms(1) mset_sort)
  then show "mset (xs @ env # ys) = mset (q @ [env])" by simp
  show "filter (\<lambda>x. f k = f x) (xs @ env # ys) = filter (\<lambda>x. f k = f x) (q @ [env])" for k
  proof -
    have "filter (\<lambda>x. f k = f x) ys = []" if "f k = f env"
      using assms(3) that by (auto simp: filter_empty_conv)
    then show ?thesis using stable [of k, symmetric] by auto
  qed
  have "sorted (map f (xs @ ys))" by (metis assms(1) sorted_sort_key)
  then show "sorted (map f (xs @ env # ys))"
    using assms(2,3) by (auto simp: sorted_append)
qed

lemma sort_key_remove_first:
  assumes "sort_key f q = h # t"
  shows "sort_key f (remove1 h q) = t"
proof (rule properties_for_sort_key)
  have "mset (h # t) = mset q" by (metis assms mset_sort)
  then show "mset t = mset (remove1 h q)"
    by (metis add_mset_remove_trivial mset.simps(2) mset_remove1)
  show "filter (\<lambda>x. f k = f x) t = filter (\<lambda>x. f k = f x) (remove1 h q)" for k
  proof -
    have "filter (\<lambda>x. f k = f x) q = filter (\<lambda>x. f k = f x) (h # t)"
      using sort_key_stable [of f "f k" q] by (simp add: assms eq_commute)
    then show ?thesis by (simp add: filter_remove1 remove1_idem split: if_splits)
  qed
  show "sorted (map f t)" using sorted_sort_key [of f q] by (simp add: assms)
qed

abbreviation mb_rank :: "('m, 's, 'z) priority_mailbox_scheme \<Rightarrow> 'm envelope \<Rightarrow> js_number" where
  "mb_rank mb \<equiv> priority_rank (priorityFor mb)"

definition pq_rel :: "('m, 's, 'z) priority_mailbox_scheme \<Rightarrow> bool \<times> 'm envelope list \<Rightarrow> bool" where
  "pq_rel mb st \<longleftrightarrow> priority_ok mb \<and> pm_capacity mb = None \<and> suspended_flag mb = fst st \<and>
     queue_of mb = sort_key (mb_rank mb) (snd st)"

lemma pq_rel_insert:
  assumes "pq_rel mb (susp, q)"
  shows "pq_rel (priority_insert mb env) (susp, q @ [env]) \<and> priorityFor (priority_insert mb env) = priorityFor mb"
proof -
  from assms have ok: "priority_ok mb" by (simp add: pq_rel_def)
  obtain errs n es xs ys where i: "priority_insert mb env = mb\<lparr>priorityErrors := errs, sequence := n, ordered := es\<rparr>"
    "priority_ok (priority_insert mb env)" "queue_of mb = xs @ ys" "map pe_envelope es = xs @ env # ys"
    "\<forall>x \<in> set xs. mb_rank mb x \<le> mb_rank mb env" "\<forall>y \<in> set ys. mb_rank mb env < mb_rank mb y"
    by (rule priority_insert_position [OF ok])
  have "sort_key (mb_rank mb) (q @ [env]) = xs @ env # ys"
    using i(3,5,6) assms by (intro sort_key_snoc) (simp_all add: pq_rel_def)
  with i assms show ?thesis by (simp add: pq_rel_def)
qed

lemma pq_rel_enqueue:
  assumes "pq_rel mb st"
  shows "priority_enqueue mb env = (None, priority_insert mb env)"
  using assms by (simp add: priority_enqueue_def pq_rel_def)

lemma pq_rel_prepend:
  "pq_rel mb (susp, q) \<Longrightarrow> \<exists>mb'. priority_prependUser mb envs = (None, mb') \<and> pq_rel mb' (susp, q @ envs) \<and>
     priorityFor mb' = priorityFor mb"
proof (induction envs arbitrary: mb q)
  case (Cons env envs)
  note ins = pq_rel_insert [OF Cons.prems, of env]
  have "priority_prependUser mb (env # envs) = priority_prependUser (priority_insert mb env) envs"
    using pq_rel_enqueue [OF Cons.prems] by (simp add: priority_enqueueSignal_def)
  with Cons.IH [of "priority_insert mb env" "q @ [env]"] ins show ?case by simp
qed simp

lemma pq_rel_step:
  assumes "pq_rel mb st" "priority_exec mb c = (err, out, mb')"
  shows "err = None \<and> (\<exists>st'. pq_step (mb_rank mb) st c = (out, st') \<and> pq_rel mb' st' \<and> priorityFor mb' = priorityFor mb)"
proof -
  obtain susp q where st: "st = (susp, q)" by force
  show ?thesis
  proof (cases c)
    case (Enqueue env)
    with assms pq_rel_insert [of mb susp q env] pq_rel_enqueue [OF assms(1)] show ?thesis by (simp add: st)
  next
    case (EnqueueSignal env)
    with assms pq_rel_insert [of mb susp q env] show ?thesis by (auto simp: st priority_enqueueSignal_def)
  next
    case (PrependUser envs)
    with assms pq_rel_prepend [of mb susp q envs] show ?thesis by (auto simp: st)
  next
    case DequeueUser
    show ?thesis
    proof (cases "susp \<or> ordered mb = []")
      case True
      with assms DequeueUser show ?thesis
        by (auto simp: st pq_rel_def priority_dequeueUser_def split: list.splits)
    next
      case False
      then obtain e es where e: "ordered mb = e # es" by (cases "ordered mb") auto
      have key: "sort_key (mb_rank mb) q = pe_envelope e # map pe_envelope es"
        using assms(1) e by (simp add: st pq_rel_def)
      have "priority_ok (mb\<lparr>ordered := es\<rparr>)"
        using assms(1) e by (simp add: pq_rel_def priority_ok_def)
      moreover have "out = [pe_envelope e]" "mb' = mb\<lparr>ordered := es\<rparr>" "err = None"
        using assms False e by (simp_all add: DequeueUser st pq_rel_def priority_dequeueUser_def)
      ultimately show ?thesis
        using assms(1) False sort_key_remove_first [OF key] by (simp add: DequeueUser st key pq_rel_def)
    qed
  qed (use assms in \<open>auto simp: st pq_rel_def mb_defs priority_ok_def priority_drainUser_def\<close>)
qed

lemma pq_rel_run:
  "pq_rel mb st \<Longrightarrow> mb_run priority_exec mb cs = (delivered, refused, mb') \<Longrightarrow>
   refused = [] \<and> (\<exists>st'. pq_run (mb_rank mb) st cs = (delivered, st') \<and> pq_rel mb' st' \<and> priorityFor mb' = priorityFor mb)"
proof (induction cs arbitrary: mb st delivered refused)
  case (Cons c cs)
  obtain err out mb1 where e: "priority_exec mb c = (err, out, mb1)" by (cases "priority_exec mb c") auto
  obtain d r where r: "mb_run priority_exec mb1 cs = (d, r, mb')"
    and dr: "delivered = out @ d" "refused = (if err = None then [] else arrivals c) @ r"
    using Cons.prems(2) e by (auto split: prod.splits)
  obtain st1 where st1: "err = None" "pq_step (mb_rank mb) st c = (out, st1)" "pq_rel mb1 st1"
    "priorityFor mb1 = priorityFor mb"
    using pq_rel_step [OF Cons.prems(1) e] by blast
  from Cons.IH [OF st1(3) r] st1 dr show ?case by auto
qed simp

section \<open>Accounting and the bound\<close>

lemma priority_insert_account:
  assumes "priority_ok mb"
  shows "priority_ok (priority_insert mb env) \<and> mset (queue_of (priority_insert mb env)) = add_mset env (mset (queue_of mb)) \<and>
    drop_log (priority_insert mb env) = drop_log mb \<and> priorityFor (priority_insert mb env) = priorityFor mb \<and>
    pm_capacity (priority_insert mb env) = pm_capacity mb \<and> pm_overflow (priority_insert mb env) = pm_overflow mb"
proof -
  obtain errs n es xs ys where i: "priority_insert mb env = mb\<lparr>priorityErrors := errs, sequence := n, ordered := es\<rparr>"
    "priority_ok (priority_insert mb env)" "queue_of mb = xs @ ys" "map pe_envelope es = xs @ env # ys"
    by (rule priority_insert_position [OF assms])
  have "mset (queue_of (priority_insert mb env)) = mset (xs @ env # ys)" by (simp add: i(1) i(4) del: mset_map)
  then have "mset (queue_of (priority_insert mb env)) = add_mset env (mset (queue_of mb))" unfolding i(3) by simp
  with i show ?thesis by simp
qed

text \<open>What shedding does: one droppable message goes, and it is at least as unimportant as every
  droppable message that stays.\<close>

definition sheds ::
  "('m, 's, 'z) priority_mailbox_scheme \<Rightarrow> 'm envelope \<Rightarrow> ('m, 's, 'z) priority_mailbox_scheme \<Rightarrow> 'm envelope \<Rightarrow> bool" where
  "sheds mb env mb' d \<longleftrightarrow> priority_ok mb' \<and> droppable d \<and>
     mset (queue_of mb') + {#d#} = add_mset env (mset (queue_of mb)) \<and>
     (\<forall>e \<in> set (queue_of mb'). droppable e \<longrightarrow> mb_rank mb e \<le> mb_rank mb d) \<and>
     drop_log mb' = drop_log mb @ [(if env_ref d = env_ref env then Drop_New else Drop_Head, d)] \<and>
     priorityFor mb' = priorityFor mb \<and> pm_capacity mb' = pm_capacity mb \<and> pm_overflow mb' = pm_overflow mb"

lemma reportDrop_priority [simp]:
  "ordered (reportDrop mb r e) = ordered mb" "priorityFor (reportDrop mb r e) = priorityFor mb"
  "pm_capacity (reportDrop mb r e) = pm_capacity mb" "pm_overflow (reportDrop mb r e) = pm_overflow mb" "sequence (reportDrop mb r e) = sequence mb"
  by (simp_all add: reportDrop_def)

lemma shedLeastImportant_sheds:
  assumes "priority_ok mb"
  shows "(\<exists>d. sheds mb env (shedLeastImportant mb env) d) \<or>
    (undroppable env \<and> shedLeastImportant mb env = priority_insert mb env)"
proof -
  let ?mb = "priority_insert mb env"
  note ins = priority_insert_account [OF assms, of env]
  show ?thesis
  proof (cases rule: priority_removeOldest_cases [of ?mb])
    case none
    have "set_mset (mset (queue_of ?mb)) = insert env (set (queue_of mb))" using ins by simp
    then have "env \<in> set (queue_of ?mb)" by simp
    with none show ?thesis by (auto simp: shedLeastImportant_def)
  next
    case (some xs e ys)
    let ?mb' = "?mb\<lparr>ordered := xs @ ys\<rparr>"
    have sorted: "sorted (map pe_priority (xs @ e # ys))"
      and rank: "\<forall>x \<in> set (xs @ e # ys). pe_priority x = mb_rank mb (pe_envelope x)"
      using ins some(1) by (auto simp: priority_ok_def)
    have "priority_ok ?mb'"
      using ins some(1) by (auto simp: priority_ok_def sorted_append)
    moreover have "\<forall>x \<in> set (queue_of ?mb'). droppable x \<longrightarrow> mb_rank mb x \<le> mb_rank mb (pe_envelope e)"
      using sorted rank some(3) by (auto simp: sorted_append)
    moreover have "mset (queue_of ?mb') + {#pe_envelope e#} = add_mset env (mset (queue_of mb))"
      using ins some(1) by simp
    moreover have "shedLeastImportant mb env =
        reportDrop ?mb' (if env_ref (pe_envelope e) = env_ref env then Drop_New else Drop_Head) (pe_envelope e)"
      using some(4) by (simp add: shedLeastImportant_def)
    moreover have "priority_ok (reportDrop ?mb' r x) = priority_ok ?mb'" for r x
      by (simp add: priority_ok_def)
    ultimately have "sheds mb env (shedLeastImportant mb env) (pe_envelope e)"
      using ins some(2) by (simp add: sheds_def)
    then show ?thesis by blast
  qed
qed

definition priority_step ::
  "('m, 's, 'z) priority_mailbox_scheme \<Rightarrow> 'm envelope list \<Rightarrow> ('m, 's, 'z) priority_mailbox_scheme \<Rightarrow>
   (drop_reason \<times> 'm envelope) list \<Rightarrow> bool" where
  "priority_step mb envs mb' new \<longleftrightarrow> priority_ok mb' \<and> drop_log mb' = drop_log mb @ new \<and>
     mset (queue_of mb') + mset (map snd new) = mset (queue_of mb) + mset envs \<and>
     pm_capacity mb' = pm_capacity mb \<and> pm_overflow mb' = pm_overflow mb \<and> priorityFor mb' = priorityFor mb \<and>
     (\<forall>(r, e) \<in> set new. droppable e \<or> e \<in> set envs) \<and>
     (\<forall>cap. pm_capacity mb = Some cap \<longrightarrow> droppables (queue_of mb) \<le> cap \<longrightarrow>
        droppables (queue_of mb') \<le> cap)"

lemma priority_enqueue_step:
  assumes "priority_ok mb" "priority_enqueue mb env = (err, mb')"
  shows "(err \<noteq> None \<longrightarrow> mb' = mb) \<and> (err = None \<longrightarrow> (\<exists>new. priority_step mb [env] mb' new))"
proof -
  note ins = priority_insert_account [OF assms(1), of env]
  have le: "droppables (queue_of mb) \<le> length (ordered mb)"
    by (metis length_filter_le length_map)
  have insert_drops: "droppables (queue_of (priority_insert mb env)) =
      (if undroppable env then 0 else 1) + droppables (queue_of mb)"
    using filter_mset_length [of "queue_of (priority_insert mb env)" "env # queue_of mb" droppable] ins by auto
  have insert_step: "priority_step mb [env] (priority_insert mb env) []"
    if "undroppable env \<or> (\<forall>cap. pm_capacity mb = Some cap \<longrightarrow> length (ordered mb) < cap)"
  proof -
    have "droppables (queue_of (priority_insert mb env)) \<le> cap"
      if "pm_capacity mb = Some cap" "droppables (queue_of mb) \<le> cap" for cap
    proof (cases "undroppable env")
      case False
      with that(1) \<open>_ \<or> _\<close> have "length (ordered mb) < cap" by simp
      moreover have "droppables (queue_of (priority_insert mb env)) = 1 + droppables (queue_of mb)"
        using insert_drops False by (simp only: if_False)
      ultimately show ?thesis using le by linarith
    qed (use that insert_drops in simp)
    with ins show ?thesis unfolding priority_step_def by auto
  qed
  consider (insert) "err = None" "mb' = priority_insert mb env"
      "\<forall>cap. pm_capacity mb = Some cap \<longrightarrow> length (ordered mb) < cap"
    | (shed) "err = None" "mb' = shedLeastImportant mb env"
    | (new) "err = None" "mb' = reportDrop mb Drop_New env"
    | (reject) "err \<noteq> None" "mb' = mb"
    using assms(2) by (auto simp: priority_enqueue_def split: option.splits if_splits priority_overflow.splits)
  then show ?thesis
  proof cases
    case insert
    then show ?thesis using insert_step by auto
  next
    case shed
    from shedLeastImportant_sheds [OF assms(1), of env] show ?thesis
    proof (elim disjE exE conjE)
      fix d assume d: "sheds mb env (shedLeastImportant mb env) d"
      then have eq: "mset (d # queue_of mb') = mset (env # queue_of mb)" and drop: "droppable d"
        by (auto simp: sheds_def shed(2))
      have "droppables (queue_of mb') \<le> droppables (queue_of mb)"
        using filter_mset_length [OF eq, of droppable] drop by (auto split: if_splits)
      then have "priority_step mb [env] mb' [(if env_ref d = env_ref env then Drop_New else Drop_Head, d)]"
        using d eq by (auto simp: sheds_def shed(2) priority_step_def)
      with shed show ?thesis by blast
    next
      assume "undroppable env" "shedLeastImportant mb env = priority_insert mb env"
      with shed insert_step show ?thesis by auto
    qed
  next
    case new
    then have "priority_step mb [env] mb' [(Drop_New, env)]"
      using assms(1) by (simp add: priority_step_def priority_ok_def)
    with new show ?thesis by blast
  next
    case reject
    then show ?thesis by auto
  qed
qed

lemma priority_prepend_step:
  assumes "priority_ok mb" "priority_prependUser mb envs = (err, mb')"
  shows "\<exists>new admitted refused. envs = admitted @ refused \<and> (err = None \<longrightarrow> refused = []) \<and>
    priority_step mb admitted mb' new \<and> (\<forall>(r, e) \<in> set new. droppable e)"
  using assms
proof (induction mb envs rule: priority_prependUser.induct)
  case (1 mb)
  then show ?case by (auto simp: priority_step_def)
next
  case (2 mb env envs)
  have compose: ?case if s1: "priority_step mb [env] mb1 new1" "\<forall>(r, e) \<in> set new1. droppable e"
    and ih: "\<exists>new admitted refused. envs = admitted @ refused \<and> (err = None \<longrightarrow> refused = []) \<and>
      priority_step mb1 admitted mb' new \<and> (\<forall>(r, e) \<in> set new. droppable e)" for mb1 new1
  proof -
    from ih obtain new admitted refused where s2: "envs = admitted @ refused" "err = None \<longrightarrow> refused = []"
      "priority_step mb1 admitted mb' new" "\<forall>(r, e) \<in> set new. droppable e" by blast
    have "mset (queue_of mb') + mset (map snd (new1 @ new)) = mset (queue_of mb) + mset (env # admitted)"
      using s1(1) s2(3) mset_step [of "mset (queue_of mb1)" _ "mset (queue_of mb)"]
      unfolding priority_step_def by auto
    with s1 s2 have "priority_step mb (env # admitted) mb' (new1 @ new)"
      by (auto simp: priority_step_def)
    with s1(2) s2 show ?thesis
      by (intro exI [of _ "new1 @ new"] exI [of _ "env # admitted"] exI [of _ refused]) auto
  qed
  show ?case
  proof (cases "undroppable env")
    case True
    have "priority_step mb [env] (priority_insert mb env) []"
      using priority_insert_account [OF "2.prems"(1), of env] True
        filter_mset_length [of "queue_of (priority_insert mb env)" "env # queue_of mb" droppable]
      by (auto simp: priority_step_def)
    moreover have "priority_ok (priority_insert mb env)"
      using priority_insert_account [OF "2.prems"(1)] by blast
    ultimately show ?thesis
      using compose "2.IH"(1) [OF True] "2.prems"(2) True by (simp add: priority_enqueueSignal_def)
  next
    case False
    obtain e1 mb1 where x: "priority_enqueue mb env = (e1, mb1)" by force
    note step = priority_enqueue_step [OF "2.prems"(1) x]
    show ?thesis
    proof (cases e1)
      case None
      with step obtain new1 where s: "priority_step mb [env] mb1 new1" by blast
      then have "\<forall>(r, e) \<in> set new1. droppable e" "priority_ok mb1"
        using False by (auto simp: priority_step_def)
      moreover have "priority_prependUser mb1 envs = (err, mb')"
        using "2.prems"(2) False x None by simp
      ultimately show ?thesis
        using compose [OF s] "2.IH"(2) [OF False x [symmetric]] None by blast
    next
      case (Some e)
      with step "2.prems" False x have "mb' = mb" "err = Some e" by auto
      with "2.prems"(1) show ?thesis
        by (intro exI [of _ "[]"] exI [of _ "env # envs"]) (simp add: priority_step_def)
    qed
  qed
qed

lemma priority_dequeueUser_cases:
  obtains (idle) "priority_dequeueUser mb = (None, mb)"
  | (deliver) e rest where "ordered mb = e # rest"
      "priority_dequeueUser mb = (Some (pe_envelope e), mb\<lparr>ordered := rest\<rparr>)"
proof (cases "suspended_flag mb \<or> ordered mb = []")
  case True
  then show thesis by (intro that(1)) (auto simp: priority_dequeueUser_def)
next
  case False
  then show thesis by (cases "ordered mb") (auto simp: priority_dequeueUser_def intro: that(2))
qed

lemma priority_exec_step:
  assumes "priority_ok mb" "priority_exec mb c = (err, out, mb')"
  shows "priority_ok mb' \<and> priorityFor mb' = priorityFor mb \<and> pm_capacity mb' = pm_capacity mb \<and> pm_overflow mb' = pm_overflow mb \<and>
    (\<exists>new refused. drop_log mb' = drop_log mb @ new \<and> suffix refused (arrivals c) \<and> (err = None \<longrightarrow> refused = []) \<and>
      (lawful c \<longrightarrow> (\<forall>(r, e) \<in> set new. droppable e)) \<and>
      mset (queue_of mb') + mset out + mset (map snd new) + mset refused = mset (queue_of mb) + mset (arrivals c)) \<and>
    (lawful c \<longrightarrow> (\<forall>cap. pm_capacity mb = Some cap \<longrightarrow> droppables (queue_of mb) \<le> cap \<longrightarrow> droppables (queue_of mb') \<le> cap))"
proof (cases c)
  case (Enqueue env)
  obtain x: "priority_enqueue mb env = (err, mb')" "out = []"
    using assms(2) Enqueue by (auto split: prod.splits)
  show ?thesis
  proof (cases err)
    case None
    with priority_enqueue_step [OF assms(1) x(1)] obtain new where "priority_step mb [env] mb' new" by blast
    then show ?thesis
      unfolding priority_step_def using x(2) by (auto simp: Enqueue)
  next
    case (Some e)
    with priority_enqueue_step [OF assms(1) x(1)] x(2) assms(1) show ?thesis by (auto simp: Enqueue)
  qed
next
  case (EnqueueSignal env)
  with assms have x: "mb' = priority_insert mb env" "out = []" "err = None"
    by (simp_all add: priority_enqueueSignal_def)
  show ?thesis
    using priority_insert_account [OF assms(1), of env] x(2,3)
      filter_mset_length [of "queue_of (priority_insert mb env)" "env # queue_of mb" droppable]
    by (auto simp: x(1) EnqueueSignal)
next
  case (PrependUser envs)
  obtain x: "priority_prependUser mb envs = (err, mb')" "out = []"
    using assms(2) PrependUser by (auto split: prod.splits)
  from priority_prepend_step [OF assms(1) x(1)] obtain new admitted refused where
    "envs = admitted @ refused" "err = None \<longrightarrow> refused = []" "priority_step mb admitted mb' new"
    "\<forall>(r, e) \<in> set new. droppable e" by blast
  then show ?thesis
    unfolding priority_step_def using x(2) by (auto simp: PrependUser suffix_def)
next
  case DequeueUser
  show ?thesis
  proof (cases rule: priority_dequeueUser_cases [of mb])
    case idle
    with assms show ?thesis by (simp add: DequeueUser)
  next
    case (deliver e rest)
    with assms show ?thesis by (auto simp: DequeueUser priority_ok_def)
  qed
qed (use assms in \<open>auto simp: mb_defs priority_ok_def priority_drainUser_def\<close>)

interpretation pmb: shedding_mailbox priority_exec priority_ok queue_of drop_log
proof unfold_locales
  fix mb :: "('m, 's, 'z) priority_mailbox_scheme" and c err out mb'
  assume ok: "priority_ok mb" and x: "priority_exec mb c = (err, out, mb')"
  note step = priority_exec_step [OF ok x]
  from step show "priority_ok mb'" by blast
  from step show "\<exists>new refused. drop_log mb' = drop_log mb @ new \<and> suffix refused (arrivals c) \<and>
      (err = None \<longrightarrow> refused = []) \<and>
      mset (queue_of mb') + mset out + mset (map snd new) + mset refused =
        mset (queue_of mb) + mset (arrivals c)"
    by blast
  show "droppable env" if "lawful c" "drop_log mb' = drop_log mb @ new" "(reason, env) \<in> set new"
    for new reason env
    using step that by auto
qed

lemma priority_run_ok:
  "priority_ok mb \<Longrightarrow> \<forall>c \<in> set cs. lawful c \<Longrightarrow> mb_run priority_exec mb cs = (delivered, refused, mb') \<Longrightarrow>
   priority_ok mb' \<and> priorityFor mb' = priorityFor mb \<and> pm_capacity mb' = pm_capacity mb \<and> pm_overflow mb' = pm_overflow mb \<and>
   (\<forall>cap. pm_capacity mb = Some cap \<longrightarrow> droppables (queue_of mb) \<le> cap \<longrightarrow> droppables (queue_of mb') \<le> cap)"
proof (induction cs arbitrary: mb delivered refused)
  case (Cons c cs)
  obtain err out mb1 where e: "priority_exec mb c = (err, out, mb1)" by (cases "priority_exec mb c") auto
  obtain d r where r: "mb_run priority_exec mb1 cs = (d, r, mb')"
    using Cons.prems(3) e by (auto split: prod.splits)
  have step: "priority_ok mb1 \<and> priorityFor mb1 = priorityFor mb \<and> pm_capacity mb1 = pm_capacity mb \<and> pm_overflow mb1 = pm_overflow mb"
    "\<forall>cap. pm_capacity mb = Some cap \<longrightarrow> droppables (queue_of mb) \<le> cap \<longrightarrow> droppables (queue_of mb1) \<le> cap"
    using priority_exec_step [OF Cons.prems(1) e] Cons.prems(2) by auto
  have "priority_ok mb' \<and> priorityFor mb' = priorityFor mb1 \<and> pm_capacity mb' = pm_capacity mb1 \<and> pm_overflow mb' = pm_overflow mb1 \<and>
    (\<forall>cap. pm_capacity mb1 = Some cap \<longrightarrow> droppables (queue_of mb1) \<le> cap \<longrightarrow> droppables (queue_of mb') \<le> cap)"
    using Cons.IH [OF _ _ r] step(1) Cons.prems(2) by simp
  with step show ?case by metis
qed simp

lemma priority_new_fresh:
  "priority_new p cap policy onDrop hook = Some mb \<Longrightarrow>
   priority_ok mb \<and> ordered mb = [] \<and> drop_log mb = [] \<and> priorityFor mb = p \<and> pm_capacity mb = map_option nat cap \<and>
   \<not> suspended_flag mb \<and> (\<forall>c. cap = Some c \<longrightarrow> 0 < c) \<and>
   pm_overflow mb = (case policy of None \<Rightarrow> Priority_Reject | Some p \<Rightarrow> p)"
  by (auto simp: priority_new_def observeDrops_def priority_ok_def Let_def split: if_splits option.splits)

section \<open>Properties\<close>

text \<open>C10: an unbounded priority mailbox refines a stable priority queue: for every history it
  delivers exactly what the specification delivers that keeps messages in arrival order and hands
  out the first of the stably sorted list (lowest priority number first, FIFO among equals,
  messages that cannot be ranked at the sentinel), it never refuses a message, and its array is
  that sorted list.\<close>

theorem priority_mailbox_refines_stable_queue:
  assumes "priority_new p None policy onDrop hook = Some mb"
    and "mb_run priority_exec mb cs = (delivered, refused, mb')"
  shows "refused = [] \<and> (\<exists>susp q. pq_run (priority_rank p) (False, []) cs = (delivered, susp, q) \<and>
    map pe_envelope (ordered mb') = sort_key (priority_rank p) q)"
proof -
  note fresh = priority_new_fresh [OF assms(1)]
  then have "pq_rel mb (False, [])" by (simp add: pq_rel_def)
  from pq_rel_run [OF this assms(2)] fresh show ?thesis by (auto simp: pq_rel_def)
qed

text \<open>C11: a full priority mailbox under \<open>drop-lowest-priority\<close> sheds the least important droppable
  message, which may be the arriving one: in every reachable full state an ordinary arrival makes
  exactly one message go, that message is droppable and no droppable message left ranks behind it,
  and the drop is reported once, with the reason telling whether the arrival itself was shed. The
  droppable messages never exceed the capacity.\<close>

theorem priority_mailbox_sheds_least_important:
  assumes "priority_new p (Some cap) (Some Drop_Lowest_Priority) onDrop hook = Some mb0"
    and "\<forall>c \<in> set cs. lawful c" and "mb_run priority_exec mb0 cs = (delivered, refused, mb)"
    and "cap \<le> int (length (ordered mb))" and "\<not> undroppable env"
    and "priority_enqueue mb env = (err, mb')"
  shows "err = None \<and> int (length (filter (\<lambda>e. \<not> undroppable e) (map pe_envelope (ordered mb)))) \<le> cap \<and>
    (\<exists>d. \<not> undroppable d \<and>
       mset (map pe_envelope (ordered mb')) + {#d#} = mset (map pe_envelope (ordered mb)) + {#env#} \<and>
       (\<forall>e \<in> set (map pe_envelope (ordered mb')). \<not> undroppable e \<longrightarrow> priority_rank p e \<le> priority_rank p d) \<and>
       drop_log mb' = drop_log mb @ [(if env_ref d = env_ref env then Drop_New else Drop_Head, d)])"
proof -
  note fresh = priority_new_fresh [OF assms(1)]
  then have cap: "0 < cap" "pm_capacity mb0 = Some (nat cap)" by auto
  have run: "priority_ok mb" "priorityFor mb = p" "pm_capacity mb = Some (nat cap)"
    "pm_overflow mb = Drop_Lowest_Priority" "droppables (queue_of mb) \<le> nat cap"
    using priority_run_ok [OF _ assms(2,3)] fresh cap by auto
  have enq: "err = None" "mb' = shedLeastImportant mb env"
    using assms(6) run(3,4) nat_le_iff [of cap "length (ordered mb)"] assms(4)
    by (simp_all add: priority_enqueue_def)
  obtain d where "sheds mb env mb' d"
    using shedLeastImportant_sheds [OF run(1), of env] assms(5) enq(2) by blast
  then have "\<exists>d. droppable d \<and> mset (queue_of mb') + {#d#} = mset (queue_of mb) + {#env#} \<and>
       (\<forall>e \<in> set (queue_of mb'). droppable e \<longrightarrow> priority_rank p e \<le> priority_rank p d) \<and>
       drop_log mb' = drop_log mb @ [(if env_ref d = env_ref env then Drop_New else Drop_Head, d)]"
    unfolding sheds_def by (intro exI [of _ d]) (simp add: run(2))
  moreover have "int (droppables (queue_of mb)) \<le> cap" using run(5) cap by linarith
  ultimately show ?thesis using enq(1) by blast
qed

definition demo_priority :: "nat \<Rightarrow> priority_answer" where
  "demo_priority n = (if n = 0 then Threw else Ranked (Fin (of_nat n)))"

definition demo_priority_history :: "nat mb_op list" where
  "demo_priority_history =
     [Enqueue (demo_env 5 False), Enqueue (demo_env 0 False), Enqueue (demo_env 3 False), DequeueUser]"

definition demo_priority_mb :: "(nat, nat) priority_mailbox" where
  "demo_priority_mb = the (priority_new demo_priority None None None False)"

definition demo_priority_full :: "(nat, nat) priority_mailbox" where
  "demo_priority_full = the (priority_new demo_priority (Some 2) (Some Drop_Lowest_Priority) None False)"

lemmas demo_priority_eval = Let_def demo_priority_def demo_priority_history_def demo_priority_mb_def
  demo_priority_full_def demo_env_def priority_new_def priority_enqueue_def priority_insert_def priorityOf_def
  insert_search_stop insert_search_step UNRANKABLE_PRIORITY_def MAX_SAFE_INTEGER_def priority_dequeueUser_def
  shedLeastImportant_def priority_removeOldest_def reportDrop_def

theorem priority_mailbox_refines_stable_queue_witness:
  "\<exists>delivered mb' susp q. mb_run priority_exec demo_priority_mb demo_priority_history = (delivered, [], mb') \<and>
     pq_run (priority_rank demo_priority) (False, []) demo_priority_history = (delivered, susp, q) \<and>
     map env_ref delivered = [3] \<and> map (env_ref \<circ> pe_envelope) (ordered mb') = [5, 0]"
proof -
  have new: "priority_new demo_priority None None None False = Some demo_priority_mb"
    by (simp add: demo_priority_mb_def priority_new_def)
  obtain d r mb' where run: "mb_run priority_exec demo_priority_mb demo_priority_history = (d, r, mb')"
    by (cases "mb_run priority_exec demo_priority_mb demo_priority_history") auto
  then have out: "map env_ref d = [3]" "map (env_ref \<circ> pe_envelope) (ordered mb') = [5, 0]"
    by (auto simp: demo_priority_eval)
  from priority_mailbox_refines_stable_queue [OF new run] obtain susp q where
    "pq_run (priority_rank demo_priority) (False, []) demo_priority_history = (d, susp, q)" "r = []"
    by blast
  with run out show ?thesis by (intro exI conjI) simp_all
qed

theorem priority_mailbox_sheds_least_important_witness:
  "\<exists>delivered refused mb mb' d.
     mb_run priority_exec demo_priority_full [Enqueue (demo_env 5 False), Enqueue (demo_env 0 False)] =
       (delivered, refused, mb) \<and>
     priority_enqueue mb (demo_env 3 False) = (None, mb') \<and>
     mset (map pe_envelope (ordered mb')) + {#d#} = mset (map pe_envelope (ordered mb)) + {#demo_env 3 False#} \<and>
     drop_log mb' = [(Drop_Head, d)] \<and> env_ref d = 0"
proof -
  let ?cs = "[Enqueue (demo_env 5 False), Enqueue (demo_env 0 False)]"
  have new: "priority_new demo_priority (Some 2) (Some Drop_Lowest_Priority) None False = Some demo_priority_full"
    by (simp add: demo_priority_full_def priority_new_def)
  have lawful: "\<forall>c \<in> set ?cs. lawful c" by (simp add: demo_env_def)
  obtain d r mb where run: "mb_run priority_exec demo_priority_full ?cs = (d, r, mb)"
    by (cases "mb_run priority_exec demo_priority_full ?cs") auto
  have full: "2 \<le> int (length (ordered mb))" and log: "drop_log mb = []"
    using run by (auto simp: demo_priority_eval)
  obtain err mb' where enq: "priority_enqueue mb (demo_env 3 False) = (err, mb')" by force
  have log': "map (env_ref \<circ> snd) (drop_log mb') = [0]"
    using run enq by (auto simp: demo_priority_eval)
  have "droppable (demo_env 3 False)" by (simp add: demo_env_def)
  from priority_mailbox_sheds_least_important [OF new lawful run full this enq] log log' run enq
  show ?thesis by (auto simp: demo_env_def)
qed

text \<open>Replaying a stash into a priority mailbox whose policy is \<open>reject\<close> can duplicate a message:
  the mailbox admits the batch message by message and throws at the first that does not fit, while
  the cell then restores the whole batch to its stash. For every such mailbox with room for some but
  not all of a stash of ordinary messages, the first stashed message is afterwards both queued and
  stashed.\<close>

theorem priority_unstash_duplicates_on_reject:
  fixes cell :: "('m, ('m, 's) priority_mailbox) cell_stash"
  assumes "priority_ok (mailbox_of cell)" "pm_capacity (mailbox_of cell) = Some cap"
    and "pm_overflow (mailbox_of cell) = Priority_Reject" "length (ordered (mailbox_of cell)) + 1 = cap"
    and "stashBuffer cell = first # second # rest" "\<not> undroppable first" "\<not> undroppable second"
  shows "\<exists>cell'. cell_unstashAll priority_exec cell = (Some (Stash_MailboxError (MailboxFullError cap)), cell') \<and>
    env_ref first \<in> env_ref ` set (map pe_envelope (ordered (mailbox_of cell'))) \<and> first \<in> set (stashBuffer cell')"
proof -
  let ?mb = "mailbox_of cell"
  let ?first = "first\<lparr>replayed := True\<rparr>" and ?second = "second\<lparr>replayed := True\<rparr>"
  let ?mb1 = "priority_insert ?mb ?first"
  note ins = priority_insert_account [OF assms(1), of ?first]
  have len: "length (ordered ?mb1) = cap"
    using arg_cong [OF conjunct1 [OF conjunct2 [OF ins]], of size] assms(4) by simp
  have "priority_enqueue ?mb ?first = (None, ?mb1)"
    using assms(2,4) by (auto simp: priority_enqueue_def)
  moreover have "priority_enqueue ?mb1 ?second = (Some (MailboxFullError cap), ?mb1)"
    using ins assms(2,3) len by (simp add: priority_enqueue_def)
  ultimately have "cell_unstashAll priority_exec cell =
      (Some (Stash_MailboxError (MailboxFullError cap)), cell\<lparr>mailbox_of := ?mb1\<rparr>)"
    using assms(5-7) by (simp add: cell_unstashAll_def)
  moreover have "set_mset (mset (queue_of ?mb1)) = insert ?first (set (queue_of ?mb))"
    using ins by simp
  then have "?first \<in> set (queue_of ?mb1)" by simp
  then have "env_ref ?first \<in> env_ref ` set (queue_of ?mb1)" by (rule imageI)
  ultimately show ?thesis using assms(5) by auto
qed

definition demo_priority_cell :: "(nat, (nat, nat) priority_mailbox) cell_stash" where
  "demo_priority_cell = \<lparr>mailbox_of = the (priority_new demo_priority (Some 1) None None False),
     stashBuffer = [demo_env 1 False, demo_env 2 False], stashCapacity = 10, currentEnvelope = None\<rparr>"

theorem priority_unstash_duplicates_on_reject_witness:
  "\<exists>cell'. cell_unstashAll priority_exec demo_priority_cell =
       (Some (Stash_MailboxError (MailboxFullError 1)), cell') \<and>
     1 \<in> env_ref ` set (map pe_envelope (ordered (mailbox_of cell'))) \<and>
     demo_env 1 False \<in> set (stashBuffer cell')"
  using priority_unstash_duplicates_on_reject
    [of demo_priority_cell 1 "demo_env 1 False" "demo_env 2 False" "[]"]
  by (simp add: demo_priority_cell_def priority_new_def priority_ok_def demo_env_def)

end
