(* ===== verification/Crdt_Spec.thy ===== *)
theory Crdt_Spec
  imports JS_Prelude
begin

text \<open>
  The contract of a state-based CRDT (the interface of \<^verbatim>\<open>src/src/crdt/Crdt.ts\<close>): a merge that
  refines an associative, commutative and idempotent join of an abstract state. The locale fixes
  the merge, the states it is used on, the abstraction and the join; its lemmas say that replicas
  that have merged the same states, in any order, grouping and multiplicity, agree, and that a
  merge never loses what either side knew. Each data type interprets it in its own theory.
\<close>

text \<open>A merge history: the states that entered and the order in which they were merged.\<close>

datatype 's merge_tree = Source 's | Merged "'s merge_tree" "'s merge_tree"

fun sources :: "'s merge_tree \<Rightarrow> 's set" where
  "sources (Source s) = {s}"
| "sources (Merged l r) = sources l \<union> sources r"

fun eval_merge :: "('s \<Rightarrow> 's \<Rightarrow> 's) \<Rightarrow> 's merge_tree \<Rightarrow> 's" where
  "eval_merge merge (Source s) = s"
| "eval_merge merge (Merged l r) = merge (eval_merge merge l) (eval_merge merge r)"

lemma sources_finite [simp]: "finite (sources t)"
  by (induction t) auto

lemma sources_nonempty [simp]: "sources t \<noteq> {}"
  by (induction t) auto

locale crdt =
  fixes merge :: "'s \<Rightarrow> 's \<Rightarrow> 's"
    and inv :: "'s \<Rightarrow> bool"
    and abs :: "'s \<Rightarrow> 'a"
    and join :: "'a \<Rightarrow> 'a \<Rightarrow> 'a"
  assumes merge_inv: "inv x \<Longrightarrow> inv y \<Longrightarrow> inv (merge x y)"
    and merge_abs: "inv x \<Longrightarrow> inv y \<Longrightarrow> abs (merge x y) = join (abs x) (abs y)"
    and join_idem: "inv x \<Longrightarrow> join (abs x) (abs x) = abs x"
    and join_comm: "inv x \<Longrightarrow> inv y \<Longrightarrow> join (abs x) (abs y) = join (abs y) (abs x)"
    and join_assoc: "inv x \<Longrightarrow> inv y \<Longrightarrow> inv z \<Longrightarrow>
      join (join (abs x) (abs y)) (abs z) = join (abs x) (join (abs y) (abs z))"
begin

definition knows :: "'s \<Rightarrow> 's \<Rightarrow> bool" where
  "knows y x \<longleftrightarrow> join (abs x) (abs y) = abs y"

lemma knows_refl: "inv x \<Longrightarrow> knows x x"
  by (simp add: knows_def join_idem)

lemma knows_antisym: "inv x \<Longrightarrow> inv y \<Longrightarrow> knows x y \<Longrightarrow> knows y x \<Longrightarrow> abs x = abs y"
  by (metis knows_def join_comm)

lemma knows_trans: "inv x \<Longrightarrow> inv y \<Longrightarrow> inv z \<Longrightarrow> knows y x \<Longrightarrow> knows z y \<Longrightarrow> knows z x"
  by (metis knows_def join_assoc)

text \<open>The merge is the least state that knows what both sides know.\<close>

lemma merge_knows_left: "inv x \<Longrightarrow> inv y \<Longrightarrow> knows (merge x y) x"
  by (simp add: knows_def merge_abs join_idem flip: join_assoc)

lemma merge_knows_right: "inv x \<Longrightarrow> inv y \<Longrightarrow> knows (merge x y) y"
  using merge_knows_left [of y x] by (simp add: knows_def merge_abs join_comm [of x y])

lemma merge_least:
  "inv x \<Longrightarrow> inv y \<Longrightarrow> inv z \<Longrightarrow> knows z x \<Longrightarrow> knows z y \<Longrightarrow> knows z (merge x y)"
  by (metis knows_def merge_abs join_assoc)

lemma eval_inv: "\<forall>s \<in> sources t. inv s \<Longrightarrow> inv (eval_merge merge t)"
  by (induction t) (auto intro: merge_inv)

lemma eval_knows: "\<forall>s \<in> sources t. inv s \<Longrightarrow> s \<in> sources t \<Longrightarrow> knows (eval_merge merge t) s"
proof (induction t)
  case (Source x)
  then show ?case by (simp add: knows_refl)
next
  case (Merged l r)
  then have inv: "inv (eval_merge merge l)" "inv (eval_merge merge r)" "inv s"
    by (auto intro: eval_inv)
  with Merged show ?case
    by (auto intro: knows_trans [OF inv(3)] merge_knows_left merge_knows_right merge_inv)
qed

lemma eval_least:
  "\<forall>s \<in> sources t. inv s \<and> knows z s \<Longrightarrow> inv z \<Longrightarrow> knows z (eval_merge merge t)"
  by (induction t) (auto intro!: merge_least eval_inv)

text \<open>Convergence: two merge histories with the same sources end in the same abstract state.\<close>

lemma convergence:
  assumes "\<forall>s \<in> sources t. inv s" "sources t = sources u"
  shows "abs (eval_merge merge t) = abs (eval_merge merge u)"
proof (rule knows_antisym)
  show "knows (eval_merge merge t) (eval_merge merge u)"
    by (rule eval_least) (use assms in \<open>auto intro: eval_knows eval_inv\<close>)
  show "knows (eval_merge merge u) (eval_merge merge t)"
    by (rule eval_least) (use assms in \<open>auto intro: eval_knows eval_inv\<close>)
qed (use assms in \<open>auto intro: eval_inv\<close>)

end

section \<open>Pointwise joins\<close>

text \<open>Every map-like type joins its entries key by key; a key known to one side only is kept.\<close>

fun opt_join :: "('v \<Rightarrow> 'v \<Rightarrow> 'v) \<Rightarrow> 'v option \<Rightarrow> 'v option \<Rightarrow> 'v option" where
  "opt_join f None y = y"
| "opt_join f x None = x"
| "opt_join f (Some x) (Some y) = Some (f x y)"

definition map_join :: "('v \<Rightarrow> 'v \<Rightarrow> 'v) \<Rightarrow> ('k \<rightharpoonup> 'v) \<Rightarrow> ('k \<rightharpoonup> 'v) \<Rightarrow> ('k \<rightharpoonup> 'v)" where
  "map_join f m n = (\<lambda>k. opt_join f (m k) (n k))"

lemma opt_join_None [simp]: "opt_join f x None = x"
  by (cases x) auto

lemma map_join_idem: "(\<And>k v. m k = Some v \<Longrightarrow> f v v = v) \<Longrightarrow> map_join f m m = m"
  unfolding map_join_def
proof (rule ext)
  fix k assume "\<And>k v. m k = Some v \<Longrightarrow> f v v = v"
  then show "opt_join f (m k) (m k) = m k" by (cases "m k") auto
qed

lemma map_join_comm:
  "(\<And>k v w. m k = Some v \<Longrightarrow> n k = Some w \<Longrightarrow> f v w = f w v) \<Longrightarrow> map_join f m n = map_join f n m"
  unfolding map_join_def
proof (rule ext)
  fix k assume "\<And>k v w. m k = Some v \<Longrightarrow> n k = Some w \<Longrightarrow> f v w = f w v"
  then show "opt_join f (m k) (n k) = opt_join f (n k) (m k)"
    by (cases "m k"; cases "n k") auto
qed

lemma map_join_assoc:
  "(\<And>k u v w. l k = Some u \<Longrightarrow> m k = Some v \<Longrightarrow> n k = Some w \<Longrightarrow> f (f u v) w = f u (f v w)) \<Longrightarrow>
   map_join f (map_join f l m) n = map_join f l (map_join f m n)"
  unfolding map_join_def
proof (rule ext)
  fix k assume "\<And>k u v w. l k = Some u \<Longrightarrow> m k = Some v \<Longrightarrow> n k = Some w \<Longrightarrow> f (f u v) w = f u (f v w)"
  then show "opt_join f (opt_join f (l k) (m k)) (n k) = opt_join f (l k) (opt_join f (m k) (n k))"
    by (cases "l k"; cases "m k"; cases "n k") auto
qed

end
