(* ===== verification/Crdt_Wire.thy ===== *)
theory Crdt_Wire
  imports JS_Prelude
begin

text \<open>
  JSON values, property access, and the decode guards of
  \<^verbatim>\<open>src/src/crdt/CrdtWireValidation.ts\<close> with the limits of \<^verbatim>\<open>src/src/crdt/Constants.ts\<close>.

  An object is the list of its own enumerable properties in the order \<^verbatim>\<open>Object.entries\<close> yields
  them: array-index keys first, in ascending numeric order, then the others in insertion order
  (\<open>own_order\<close>). Reading a property of \<^verbatim>\<open>null\<close> or \<^verbatim>\<open>undefined\<close> throws. The names read by the
  decoders are not names any prototype supplies. Error messages are not modelled, the error classes are.
\<close>

section \<open>JSON values\<close>

datatype json =
  JUndef | JNull | JBool bool | JNum js_number | JStr string | JArr "json list" | JObj "(string \<times> json) list"

datatype decode_error = TypeError | SyntaxError | UnexpectedKind | CrdtDecodeError

type_synonym 'a decoded = "decode_error + 'a"

definition ebind :: "'e + 'a \<Rightarrow> ('a \<Rightarrow> 'e + 'b) \<Rightarrow> 'e + 'b" where
  "ebind x f = (case x of Inl e \<Rightarrow> Inl e | Inr a \<Rightarrow> f a)"

definition ensure :: "bool \<Rightarrow> 'e \<Rightarrow> 'e + unit" where
  "ensure b e = (if b then Inr () else Inl e)"

fun efold :: "('s \<Rightarrow> 'x \<Rightarrow> 'e + 's) \<Rightarrow> 's \<Rightarrow> 'x list \<Rightarrow> 'e + 's" where
  "efold f s [] = Inr s"
| "efold f s (x # xs) = ebind (f s x) (\<lambda>s'. efold f s' xs)"

lemma ebind_simps [simp]: "ebind (Inl e) f = Inl e" "ebind (Inr a) f = f a"
  by (simp_all add: ebind_def)

lemma ensure_simps [simp]: "ensure True e = Inr ()" "ensure False e = Inl e"
  by (simp_all add: ensure_def)

lemma ebind_Inr_iff: "ebind x f = Inr b \<longleftrightarrow> (\<exists>a. x = Inr a \<and> f a = Inr b)"
  by (cases x) auto

lemma ensure_Inr_iff: "ensure b e = Inr u \<longleftrightarrow> b"
  by (simp add: ensure_def)

definition digit_value :: "char \<Rightarrow> nat" where
  "digit_value c = of_char c - of_char (CHR ''0'')"

definition is_digit :: "char \<Rightarrow> bool" where
  "is_digit c = (CHR ''0'' \<le> c \<and> c \<le> CHR ''9'')"

definition numeral_value :: "string \<Rightarrow> nat" where
  "numeral_value s = foldl (\<lambda>n c. 10 * n + digit_value c) 0 s"

definition is_array_index :: "string \<Rightarrow> bool" where
  "is_array_index s = (s \<noteq> [] \<and> list_all is_digit s \<and> (hd s = CHR ''0'' \<longrightarrow> length s = 1) \<and>
     numeral_value s < 2 ^ 32 - 1)"

definition own_order :: "(string \<times> 'a) list \<Rightarrow> (string \<times> 'a) list" where
  "own_order m = sort_key (\<lambda>(k, v). numeral_value k) (filter (\<lambda>(k, v). is_array_index k) m) @
     filter (\<lambda>(k, v). \<not> is_array_index k) m"

definition js_fromEntries :: "(string \<times> json) list \<Rightarrow> json" where
  "js_fromEntries es = JObj (own_order (foldl (\<lambda>m (k, v). jset m k v) [] es))"

definition js_prop :: "json \<Rightarrow> string \<Rightarrow> json decoded" where
  "js_prop v name = (case v of
     JUndef \<Rightarrow> Inl TypeError
   | JNull \<Rightarrow> Inl TypeError
   | JObj es \<Rightarrow> Inr (case jget es name of None \<Rightarrow> JUndef | Some x \<Rightarrow> x)
   | _ \<Rightarrow> Inr JUndef)"

section \<open>Limits and guards\<close>

definition MAX_CRDT_ENTRIES :: nat where
  "MAX_CRDT_ENTRIES = 4096"

definition MAX_COUNTER_SLOT :: rat where
  "MAX_COUNTER_SLOT = of_int \<lfloor>MAX_SAFE_INTEGER / of_nat MAX_CRDT_ENTRIES\<rfloor>"

definition MAX_MV_REGISTER_ENTRIES :: nat where
  "MAX_MV_REGISTER_ENTRIES = 256"

definition MAX_TIMESTAMP_SKEW_MS :: rat where
  "MAX_TIMESTAMP_SKEW_MS = 5 * 60000"

definition assertPlainObject :: "json \<Rightarrow> (string \<times> json) list decoded" where
  "assertPlainObject v = (case v of JObj es \<Rightarrow> Inr es | _ \<Rightarrow> Inl CrdtDecodeError)"

definition safeEntries :: "(string \<times> json) list \<Rightarrow> (string \<times> json) list decoded" where
  "safeEntries es =
     (if length es > MAX_CRDT_ENTRIES then Inl CrdtDecodeError
      else if list_ex (\<lambda>(k, v). k = ''__proto__'') es then Inl CrdtDecodeError
      else Inr es)"

definition assertFiniteNumber :: "json \<Rightarrow> rat decoded" where
  "assertFiniteNumber v = (case v of JNum (Fin q) \<Rightarrow> Inr q | _ \<Rightarrow> Inl CrdtDecodeError)"

definition assertCounterValue :: "json \<Rightarrow> rat decoded" where
  "assertCounterValue v = ebind (assertFiniteNumber v) (\<lambda>q.
     if \<not> js_isSafeInteger (Fin q) \<or> q < 0 then Inl CrdtDecodeError
     else if q > MAX_COUNTER_SLOT then Inl CrdtDecodeError
     else Inr q)"

definition assertString :: "json \<Rightarrow> string decoded" where
  "assertString v = (case v of JStr s \<Rightarrow> Inr s | _ \<Rightarrow> Inl CrdtDecodeError)"

definition assertStringArray :: "json \<Rightarrow> string list decoded" where
  "assertStringArray v = (case v of
     JArr xs \<Rightarrow>
       if length xs > MAX_CRDT_ENTRIES then Inl CrdtDecodeError
       else if list_ex (\<lambda>x. case x of JStr s \<Rightarrow> False | _ \<Rightarrow> True) xs then Inl CrdtDecodeError
       else Inr (map (\<lambda>x. case x of JStr s \<Rightarrow> s | _ \<Rightarrow> []) xs)
   | _ \<Rightarrow> Inl CrdtDecodeError)"

definition assertBoundedArray :: "json \<Rightarrow> nat \<Rightarrow> json list decoded" where
  "assertBoundedArray v limit = (case v of
     JArr xs \<Rightarrow> if length xs > limit then Inl CrdtDecodeError else Inr xs
   | _ \<Rightarrow> Inl CrdtDecodeError)"

definition assertPlausibleTimestamp :: "json \<Rightarrow> rat \<Rightarrow> rat decoded" where
  "assertPlausibleTimestamp v now = ebind (assertFiniteNumber v) (\<lambda>q.
     if q < 0 then Inl CrdtDecodeError
     else if q > now + MAX_TIMESTAMP_SKEW_MS then Inl CrdtDecodeError
     else Inr q)"

section \<open>Facts\<close>

lemma own_order_mset: "mset (own_order m) = mset m"
proof -
  have "mset (own_order m) = filter_mset (\<lambda>(k, v). is_array_index k) (mset m) +
      filter_mset (\<lambda>(k, v). \<not> is_array_index k) (mset m)"
    by (simp add: own_order_def)
  also have "\<dots> = mset m"
    using multiset_partition [of "mset m" "\<lambda>(k, v). is_array_index k"] by (simp add: case_prod_unfold)
  finally show ?thesis .
qed

lemma set_own_order [simp]: "set (own_order m) = set m"
  by (metis own_order_mset set_mset_mset)

lemma length_own_order [simp]: "length (own_order m) = length m"
  by (metis own_order_mset size_mset)

lemma jwf_own_order [simp]: "jwf (own_order m) = jwf m"
  unfolding jwf_def by (metis mset_map own_order_mset mset_eq_imp_distinct_iff)

lemma jget_own_order [simp]: "jwf m \<Longrightarrow> jget (own_order m) = jget m"
proof (rule ext)
  fix k
  assume "jwf m"
  then have "jget (own_order m) k = Some v \<longleftrightarrow> jget m k = Some v" for v
    using jget_in_eq [of m k v] jget_in_eq [of "own_order m" k v] by simp
  then show "jget (own_order m) k = jget m k" by (cases "jget m k") auto
qed

lemma sort_key_map_comp: "sort_key f (map g xs) = map g (sort_key (f \<circ> g) xs)"
proof (induction xs)
  case (Cons x xs)
  have "insort_key f (g x) (map g ys) = map g (insort_key (f \<circ> g) x ys)" for ys
    by (induction ys) auto
  with Cons show ?case by (simp add: comp_def)
qed simp

lemma own_order_map:
  "own_order (map (\<lambda>(k, v). (k, h v)) m) = map (\<lambda>(k, v). (k, h v)) (own_order m)"
  by (simp add: own_order_def filter_map sort_key_map_comp comp_def case_prod_unfold)

lemma foldl_jset_fresh:
  "jwf (m @ es) \<Longrightarrow> foldl (\<lambda>m (k, v). jset m k v) m es = m @ es"
proof (induction es arbitrary: m)
  case (Cons e es)
  obtain k v where e: "e = (k, v)" by force
  have "jget m k = None" using Cons.prems by (auto simp: e jwf_def jget_None_notin)
  then show ?case using Cons by (simp add: e jset_new)
qed simp

lemma js_fromEntries_wf: "jwf es \<Longrightarrow> js_fromEntries es = JObj (own_order es)"
  by (simp add: js_fromEntries_def foldl_jset_fresh [of "[]", simplified])

lemma js_prop_JObj: "js_prop (JObj es) name = Inr (case jget es name of None \<Rightarrow> JUndef | Some x \<Rightarrow> x)"
  by (simp add: js_prop_def)

lemma MAX_COUNTER_SLOT_value: "MAX_COUNTER_SLOT = 2199023255551"
  by (simp add: MAX_COUNTER_SLOT_def MAX_SAFE_INTEGER_def MAX_CRDT_ENTRIES_def floor_eq_iff)

definition slot_ok :: "rat \<Rightarrow> bool" where
  "slot_ok q \<longleftrightarrow> js_isSafeInteger (Fin q) \<and> 0 \<le> q \<and> q \<le> MAX_COUNTER_SLOT"

lemma assertCounterValue_iff: "assertCounterValue v = Inr q \<longleftrightarrow> v = JNum (Fin q) \<and> slot_ok q"
  by (cases v)
    (auto simp: assertCounterValue_def assertFiniteNumber_def slot_ok_def not_less split: js_number.splits if_splits)

end
