(* ===== verification/Crdt_Counters.thy ===== *)
theory Crdt_Counters
  imports Crdt_Spec Crdt_Wire
begin

text \<open>
  \<^verbatim>\<open>src/src/crdt/GCounter.ts\<close> and \<^verbatim>\<open>src/src/crdt/PNCounter.ts\<close>.

  Slots are exact rationals. That is what the source computes as long as slots are integers at
  most \<^verbatim>\<open>MAX_COUNTER_SLOT\<close>, and \<open>gcounter_value_exact\<close> shows that then the sum too is a safe
  integer, so no step rounds.
\<close>

section \<open>GCounter\<close>

type_synonym gcounter = "(string, rat) jmap"

datatype counter_error = NegativeDelta | NonFiniteDelta | SlotOverflow

definition gcounter_empty :: gcounter where
  "gcounter_empty = []"

definition gcounter_increment :: "gcounter \<Rightarrow> string \<Rightarrow> js_number \<Rightarrow> counter_error + gcounter" where
  "gcounter_increment c replica delta =
     (if js_less delta (Fin 0) then Inl NegativeDelta
      else case delta of
        Fin d \<Rightarrow>
          (let cnt = (case jget c replica of None \<Rightarrow> 0 | Some v \<Rightarrow> v) + d
           in if cnt > MAX_COUNTER_SLOT then Inl SlotOverflow else Inr (jset c replica cnt))
      | _ \<Rightarrow> Inl NonFiniteDelta)"

definition gcounter_value :: "gcounter \<Rightarrow> rat" where
  "gcounter_value c = foldl (+) 0 (jvalues c)"

fun gcounter_merge_loop :: "gcounter \<Rightarrow> string list \<Rightarrow> gcounter \<Rightarrow> gcounter \<times> string list" where
  "gcounter_merge_loop nxt newcomers [] = (nxt, newcomers)"
| "gcounter_merge_loop nxt newcomers ((replica, cnt) # other) =
     (if \<not> jhas nxt replica then gcounter_merge_loop nxt (newcomers @ [replica]) other
      else let ours = (case jget nxt replica of None \<Rightarrow> 0 | Some v \<Rightarrow> v)
           in gcounter_merge_loop (if cnt > ours then jset nxt replica cnt else nxt) newcomers other)"

fun gcounter_admit :: "gcounter \<Rightarrow> gcounter \<Rightarrow> string list \<Rightarrow> gcounter" where
  "gcounter_admit nxt other [] = nxt"
| "gcounter_admit nxt other (replica # newcomers) =
     (if length nxt \<ge> MAX_CRDT_ENTRIES then nxt
      else gcounter_admit (jset nxt replica (the (jget other replica))) other newcomers)"

definition gcounter_merge :: "gcounter \<Rightarrow> gcounter \<Rightarrow> gcounter" where
  "gcounter_merge c other =
     (let (nxt, newcomers) = gcounter_merge_loop c [] other in gcounter_admit nxt other (sort newcomers))"

definition gcounter_toJSON :: "gcounter \<Rightarrow> json" where
  "gcounter_toJSON c = JObj [(''kind'', JStr ''GCounter''),
     (''state'', js_fromEntries (map (\<lambda>(r, v). (r, JNum (Fin v))) c))]"

definition gcounter_fromJSON :: "json \<Rightarrow> gcounter decoded" where
  "gcounter_fromJSON j =
     ebind (js_prop j ''kind'') (\<lambda>kind.
     ebind (ensure (kind = JStr ''GCounter'') UnexpectedKind) (\<lambda>_.
     ebind (js_prop j ''state'') (\<lambda>st.
     ebind (assertPlainObject st) (\<lambda>es.
     ebind (safeEntries es) (\<lambda>entries.
       efold (\<lambda>state (replicaId, cnt).
         ebind (assertCounterValue cnt) (\<lambda>v. Inr (jset state replicaId v))) [] entries)))))"

definition gcounter_equals :: "gcounter \<Rightarrow> gcounter \<Rightarrow> bool" where
  "gcounter_equals c other = (length c = length other \<and> list_all (\<lambda>(r, v). jget other r = Some v) c)"

section \<open>PNCounter\<close>

record pncounter =
  pos :: gcounter
  neg :: gcounter

definition pncounter_empty :: pncounter where
  "pncounter_empty = \<lparr>pos = gcounter_empty, neg = gcounter_empty\<rparr>"

definition pncounter_increment :: "pncounter \<Rightarrow> string \<Rightarrow> js_number \<Rightarrow> counter_error + pncounter" where
  "pncounter_increment c replica delta =
     (if js_less delta (Fin 0) then Inl NegativeDelta
      else ebind (gcounter_increment (pos c) replica delta) (\<lambda>p. Inr \<lparr>pos = p, neg = neg c\<rparr>))"

definition pncounter_decrement :: "pncounter \<Rightarrow> string \<Rightarrow> js_number \<Rightarrow> counter_error + pncounter" where
  "pncounter_decrement c replica delta =
     (if js_less delta (Fin 0) then Inl NegativeDelta
      else ebind (gcounter_increment (neg c) replica delta) (\<lambda>n. Inr \<lparr>pos = pos c, neg = n\<rparr>))"

definition pncounter_value :: "pncounter \<Rightarrow> rat" where
  "pncounter_value c = gcounter_value (pos c) - gcounter_value (neg c)"

definition pncounter_merge :: "pncounter \<Rightarrow> pncounter \<Rightarrow> pncounter" where
  "pncounter_merge c other = \<lparr>pos = gcounter_merge (pos c) (pos other), neg = gcounter_merge (neg c) (neg other)\<rparr>"

definition pncounter_toJSON :: "pncounter \<Rightarrow> json" where
  "pncounter_toJSON c = JObj [(''kind'', JStr ''PNCounter''),
     (''p'', gcounter_toJSON (pos c)), (''n'', gcounter_toJSON (neg c))]"

definition pncounter_fromJSON :: "json \<Rightarrow> pncounter decoded" where
  "pncounter_fromJSON j =
     ebind (js_prop j ''kind'') (\<lambda>kind.
     ebind (ensure (kind = JStr ''PNCounter'') UnexpectedKind) (\<lambda>_.
     ebind (js_prop j ''p'') (\<lambda>pj. ebind (gcounter_fromJSON pj) (\<lambda>p.
     ebind (js_prop j ''n'') (\<lambda>nj. ebind (gcounter_fromJSON nj) (\<lambda>n.
       Inr \<lparr>pos = p, neg = n\<rparr>))))))"

definition pncounter_equals :: "pncounter \<Rightarrow> pncounter \<Rightarrow> bool" where
  "pncounter_equals c other = (gcounter_equals (pos c) (pos other) \<and> gcounter_equals (neg c) (neg other))"

section \<open>The merge\<close>

lemma gcounter_merge_loop_newcomers:
  "snd (gcounter_merge_loop nxt newcomers other) =
     newcomers @ filter (\<lambda>r. jget nxt r = None) (map fst other)"
proof (induction nxt newcomers other rule: gcounter_merge_loop.induct)
  case (2 nxt newcomers replica cnt other)
  show ?case
  proof (cases "jget nxt replica")
    case None
    then show ?thesis using 2 by (simp add: jhas_iff)
  next
    case (Some v)
    have eq: "(\<lambda>r. jget (jset nxt replica cnt) r = None) = (\<lambda>r. jget nxt r = None)"
      by (rule ext) (simp add: Some)
    show ?thesis using 2 Some by (simp add: jhas_iff eq del: jget_jset)
  qed
qed simp

lemma gcounter_merge_loop_jget:
  "jwf other \<Longrightarrow> jget (fst (gcounter_merge_loop nxt newcomers other)) k =
     (case jget nxt k of None \<Rightarrow> None | Some v \<Rightarrow> opt_join max (Some v) (jget other k))"
proof (induction nxt newcomers other rule: gcounter_merge_loop.induct)
  case (1 nxt newcomers)
  show ?case by (cases "jget nxt k") auto
next
  case (2 nxt newcomers replica cnt other)
  have fresh: "jget other replica = None" and wf: "jwf other"
    using "2.prems" by (auto simp: jwf_def jget_None_notin)
  have get: "jget ((replica, cnt) # other) k = (if k = replica then Some cnt else jget other k)"
    by (simp add: jget_def)
  show ?case
  proof (cases "jget nxt replica")
    case None
    then show ?thesis using 2 wf by (auto simp: jhas_iff get split: option.splits)
  next
    case (Some v)
    let ?nxt = "if cnt > v then jset nxt replica cnt else nxt"
    have step: "gcounter_merge_loop nxt newcomers ((replica, cnt) # other) = gcounter_merge_loop ?nxt newcomers other"
      by (simp add: jhas_iff Some)
    have IH: "jget (fst (gcounter_merge_loop ?nxt newcomers other)) k =
        (case jget ?nxt k of None \<Rightarrow> None | Some v \<Rightarrow> opt_join max (Some v) (jget other k))"
      using "2.IH"(2) [OF _ refl wf] Some by (simp add: jhas_iff)
    show ?thesis
    proof (cases "k = replica")
      case True
      have "jget ?nxt k = Some (max v cnt)" by (simp add: True Some max_def)
      then show ?thesis unfolding step IH get by (simp add: True fresh Some)
    next
      case False
      then have "jget ?nxt k = jget nxt k" by simp
      with False show ?thesis unfolding step IH get by simp
    qed
  qed
qed

lemma gcounter_merge_loop_wf: "jwf nxt \<Longrightarrow> jwf (fst (gcounter_merge_loop nxt newcomers other))"
  by (induction nxt newcomers other rule: gcounter_merge_loop.induct) (simp_all add: Let_def)

lemma gcounter_admit_wf: "jwf nxt \<Longrightarrow> jwf (gcounter_admit nxt other rs)"
  by (induction nxt other rs rule: gcounter_admit.induct) simp_all

text \<open>Below the entry limit no newcomer is turned away.\<close>

lemma gcounter_admit_jget:
  "jwf nxt \<Longrightarrow> card (dom (jget nxt) \<union> set rs) \<le> MAX_CRDT_ENTRIES \<Longrightarrow> distinct rs \<Longrightarrow>
   set rs \<inter> dom (jget nxt) = {} \<Longrightarrow> set rs \<subseteq> dom (jget other) \<Longrightarrow>
   jget (gcounter_admit nxt other rs) k = (if k \<in> set rs then jget other k else jget nxt k)"
proof (induction nxt other rs rule: gcounter_admit.induct)
  case (2 nxt other r rs)
  have "card (dom (jget nxt)) < card (dom (jget nxt) \<union> set (r # rs))"
    using "2.prems"(4) by (intro psubset_card_mono) auto
  then have room: "\<not> length nxt \<ge> MAX_CRDT_ENTRIES"
    using "2.prems"(1,2) by (simp add: jsize_card)
  obtain v where v: "jget other r = Some v" using "2.prems"(5) by auto
  have dom: "dom (jget (jset nxt r (the (jget other r)))) = insert r (dom (jget nxt))"
    unfolding jget_jset by simp
  have "jget (gcounter_admit (jset nxt r (the (jget other r))) other rs) k =
      (if k \<in> set rs then jget other k else jget (jset nxt r (the (jget other r))) k)"
    by (rule "2.IH" [OF room]) (use "2.prems" in \<open>auto simp only: dom\<close>, use "2.prems" in auto)
  with room v "2.prems"(3) show ?case by auto
qed simp

definition gcounter_ok :: "string set \<Rightarrow> gcounter \<Rightarrow> bool" where
  "gcounter_ok U c \<longleftrightarrow> jwf c \<and> dom (jget c) \<subseteq> U \<and> finite U \<and> card U \<le> MAX_CRDT_ENTRIES"

lemma gcounter_merge_wf: "jwf c \<Longrightarrow> jwf (gcounter_merge c d)"
  by (simp add: gcounter_merge_def case_prod_unfold Let_def gcounter_admit_wf gcounter_merge_loop_wf)

lemma gcounter_merge_jget:
  assumes "gcounter_ok U c" "gcounter_ok U d"
  shows "jget (gcounter_merge c d) = map_join max (jget c) (jget d)"
proof (rule ext)
  fix k
  have ok: "jwf c" "jwf d" "dom (jget c) \<subseteq> U" "dom (jget d) \<subseteq> U" "finite U" "card U \<le> MAX_CRDT_ENTRIES"
    using assms by (auto simp: gcounter_ok_def)
  let ?nxt = "fst (gcounter_merge_loop c [] d)"
  let ?new = "sort (snd (gcounter_merge_loop c [] d))"
  have nxt: "jget ?nxt k = (case jget c k of None \<Rightarrow> None | Some v \<Rightarrow> opt_join max (Some v) (jget d k))" for k
    by (rule gcounter_merge_loop_jget [OF ok(2)])
  have "jget ?nxt k = None \<longleftrightarrow> jget c k = None" for k
    by (cases "jget c k"; cases "jget d k") (simp_all add: nxt)
  then have dom: "dom (jget ?nxt) = dom (jget c)" by (auto simp: dom_def)
  have "set (map fst d) = dom (jget d)" using jkeys_set [of d] by (simp add: jkeys_def)
  then have new: "set ?new = dom (jget d) - dom (jget c)" "distinct ?new"
    using ok(2) by (auto simp: gcounter_merge_loop_newcomers jwf_def)
  have "card (dom (jget c) \<union> set ?new) \<le> MAX_CRDT_ENTRIES"
    using ok(3-6) new(1) card_mono [of U "dom (jget c) \<union> set ?new"] by auto
  then have "jget (gcounter_admit ?nxt d ?new) k = (if k \<in> set ?new then jget d k else jget ?nxt k)"
    using new ok(1) by (intro gcounter_admit_jget) (auto simp: dom gcounter_merge_loop_wf)
  moreover have "k \<in> set ?new \<longleftrightarrow> jget c k = None \<and> jget d k \<noteq> None" using new(1) by auto
  ultimately show "jget (gcounter_merge c d) k = map_join max (jget c) (jget d) k"
    by (cases "jget c k"; cases "jget d k") (simp_all add: gcounter_merge_def case_prod_unfold Let_def map_join_def nxt)
qed

lemma dom_map_join: "dom (map_join f m n) = dom m \<union> dom n"
proof -
  have "map_join f m n k = None \<longleftrightarrow> m k = None \<and> n k = None" for k
    by (cases "m k"; cases "n k") (simp_all add: map_join_def)
  then show ?thesis by (auto simp: dom_def)
qed

interpretation gc: crdt gcounter_merge "gcounter_ok U" jget "map_join max" for U
proof unfold_locales
  fix x y z :: gcounter
  show "gcounter_ok U (gcounter_merge x y)" if "gcounter_ok U x" "gcounter_ok U y"
    using that gcounter_merge_jget [OF that] by (auto simp: gcounter_ok_def dom_map_join gcounter_merge_wf)
  show "jget (gcounter_merge x y) = map_join max (jget x) (jget y)" if "gcounter_ok U x" "gcounter_ok U y"
    using that by (rule gcounter_merge_jget)
  show "map_join max (jget x) (jget x) = jget x" by (rule map_join_idem) simp
  show "map_join max (jget x) (jget y) = map_join max (jget y) (jget x)"
    by (rule map_join_comm) (simp add: max.commute)
  show "map_join max (map_join max (jget x) (jget y)) (jget z) =
      map_join max (jget x) (map_join max (jget y) (jget z))"
    by (rule map_join_assoc) (simp add: max.assoc)
qed

lemma gcounter_equals_iff:
  "jwf c \<Longrightarrow> jwf d \<Longrightarrow> gcounter_equals c d \<longleftrightarrow> jget c = jget d"
proof
  assume wf: "jwf c" "jwf d"
  assume "gcounter_equals c d"
  then have len: "length c = length d" and sub: "\<forall>(r, v) \<in> set c. jget d r = Some v"
    by (auto simp: gcounter_equals_def list_all_iff)
  then have le: "jget c k = Some v \<Longrightarrow> jget d k = Some v" for k v
    using wf by (auto dest!: jget_Some_in)
  then have "dom (jget c) \<subseteq> dom (jget d)" by auto
  then have "dom (jget c) = dom (jget d)"
    using len wf by (intro card_subset_eq) (simp_all add: jsize_card)
  then show "jget c = jget d"
    using le by (intro ext) (metis domIff option.exhaust)
next
  assume wf: "jwf c" "jwf d" and eq: "jget c = jget d"
  then show "gcounter_equals c d"
    by (auto simp: gcounter_equals_def list_all_iff jsize_card jget_in_eq simp flip: eq)
qed

lemma gcounter_value_sum: "jwf c \<Longrightarrow> gcounter_value c = (\<Sum>k \<in> dom (jget c). the (jget c k))"
proof -
  assume wf: "jwf c"
  have "gcounter_value c = sum_list (map (\<lambda>k. the (jget c k)) (map fst c))"
    unfolding gcounter_value_def jvalues_def foldl_sum_list map_map
    using wf by (auto simp: jget_in_eq intro!: arg_cong [of _ _ sum_list])
  also have "\<dots> = (\<Sum>k \<in> set (map fst c). the (jget c k))"
    using wf by (simp only: jwf_def sum_list_distinct_conv_sum_set)
  also have "set (map fst c) = dom (jget c)"
    using jkeys_set [of c] by (simp add: jkeys_def)
  finally show ?thesis .
qed

lemma gcounter_value_cong: "jwf c \<Longrightarrow> jwf d \<Longrightarrow> jget c = jget d \<Longrightarrow> gcounter_value c = gcounter_value d"
  by (simp add: gcounter_value_sum)

section \<open>No increment is lost\<close>

definition slot :: "gcounter \<Rightarrow> string \<Rightarrow> rat" where
  "slot c k = (case jget c k of None \<Rightarrow> 0 | Some v \<Rightarrow> v)"

definition nonneg :: "gcounter \<Rightarrow> bool" where
  "nonneg c \<longleftrightarrow> (\<forall>v \<in> ran (jget c). 0 \<le> v)"

lemma slot_nonneg: "nonneg c \<Longrightarrow> 0 \<le> slot c k"
  by (auto simp: nonneg_def slot_def ran_def split: option.splits)

lemma slot_merge:
  assumes "gcounter_ok U c" "gcounter_ok U d" "nonneg c" "nonneg d"
  shows "slot (gcounter_merge c d) k = max (slot c k) (slot d k)" "nonneg (gcounter_merge c d)"
proof -
  note get = gcounter_merge_jget [OF assms(1,2)]
  show "slot (gcounter_merge c d) k = max (slot c k) (slot d k)"
    using assms(3,4)
    by (cases "jget c k"; cases "jget d k") (auto simp: slot_def get map_join_def nonneg_def ran_def)
  show "nonneg (gcounter_merge c d)"
    unfolding nonneg_def
  proof
    fix v assume "v \<in> ran (jget (gcounter_merge c d))"
    then obtain k where "map_join max (jget c) (jget d) k = Some v" by (auto simp: get ran_def)
    then show "0 \<le> v"
      using assms(3,4)
      by (cases "jget c k"; cases "jget d k") (auto simp: map_join_def nonneg_def ran_def)
  qed
qed

lemma gcounter_value_slots:
  assumes "gcounter_ok U c"
  shows "gcounter_value c = (\<Sum>k \<in> U. slot c k)"
proof -
  have "(\<Sum>k \<in> U. slot c k) = (\<Sum>k \<in> dom (jget c). slot c k)"
    using assms by (intro sum.mono_neutral_right) (auto simp: gcounter_ok_def slot_def split: option.splits)
  also have "\<dots> = (\<Sum>k \<in> dom (jget c). the (jget c k))"
    by (rule sum.cong) (auto simp: slot_def)
  finally show ?thesis using assms by (simp add: gcounter_value_sum gcounter_ok_def)
qed

text \<open>A cluster of replicas \<open>U\<close>: each increments its own slot, sends snapshots of its counter, and
  merges any snapshot that was ever sent, so messages may be lost, repeated, delayed and reordered.
  \<open>added\<close> records what each replica has added.\<close>

record counter_cluster =
  replica_state :: "string \<Rightarrow> gcounter"
  network :: "gcounter set"
  added :: "string \<Rightarrow> rat"

inductive cluster_reach :: "string set \<Rightarrow> counter_cluster \<Rightarrow> bool" for U where
  start: "cluster_reach U \<lparr>replica_state = \<lambda>_. gcounter_empty, network = {}, added = \<lambda>_. 0\<rparr>"
| local_increment: "cluster_reach U w \<Longrightarrow> r \<in> U \<Longrightarrow>
    gcounter_increment (replica_state w r) r (Fin d) = Inr c \<Longrightarrow>
    cluster_reach U (w\<lparr>replica_state := (replica_state w)(r := c), added := (added w)(r := added w r + d)\<rparr>)"
| gossip_send: "cluster_reach U w \<Longrightarrow> r \<in> U \<Longrightarrow>
    cluster_reach U (w\<lparr>network := insert (replica_state w r) (network w)\<rparr>)"
| gossip_receive: "cluster_reach U w \<Longrightarrow> r \<in> U \<Longrightarrow> c \<in> network w \<Longrightarrow>
    cluster_reach U (w\<lparr>replica_state := (replica_state w)(r := gcounter_merge (replica_state w r) c)\<rparr>)"

definition counter_known :: "string set \<Rightarrow> (string \<Rightarrow> rat) \<Rightarrow> gcounter \<Rightarrow> bool" where
  "counter_known U tot c \<longleftrightarrow> gcounter_ok U c \<and> nonneg c \<and> (\<forall>k. slot c k \<le> tot k)"

definition cluster_inv :: "string set \<Rightarrow> counter_cluster \<Rightarrow> bool" where
  "cluster_inv U w \<longleftrightarrow> (\<forall>r. counter_known U (added w) (replica_state w r)) \<and>
     (\<forall>c \<in> network w. counter_known U (added w) c) \<and>
     (\<forall>r. slot (replica_state w r) r = added w r)"

lemma counter_known_mono:
  "counter_known U tot c \<Longrightarrow> (\<And>k. tot k \<le> tot' k) \<Longrightarrow> counter_known U tot' c"
  unfolding counter_known_def by (meson order_trans)

lemma counter_known_merge:
  assumes "counter_known U tot c" "counter_known U tot d"
  shows "counter_known U tot (gcounter_merge c d)"
proof -
  have ok: "gcounter_ok U c" "gcounter_ok U d" "nonneg c" "nonneg d" "\<forall>k. slot c k \<le> tot k" "\<forall>k. slot d k \<le> tot k"
    using assms by (auto simp: counter_known_def)
  show ?thesis
    using slot_merge [OF ok(1-4)] ok(5,6) gc.merge_inv [OF ok(1,2)] by (simp add: counter_known_def)
qed

lemma gcounter_increment_result:
  assumes "gcounter_increment c r (Fin d) = Inr c'"
  shows "0 \<le> d" "c' = jset c r (slot c r + d)"
  using assms by (auto simp: gcounter_increment_def slot_def Let_def split: if_splits)

lemma cluster_reach_inv:
  assumes "finite U" "card U \<le> MAX_CRDT_ENTRIES" "cluster_reach U w"
  shows "cluster_inv U w"
  using assms(3)
proof (induction rule: cluster_reach.induct)
  case start
  show ?case
    using assms(1,2)
    by (simp add: cluster_inv_def counter_known_def gcounter_ok_def nonneg_def slot_def gcounter_empty_def ran_def dom_def)
next
  case (local_increment w r d c)
  note inc = gcounter_increment_result [OF local_increment.hyps(3)]
  let ?tot = "(added w)(r := added w r + d)"
  have le: "added w k \<le> ?tot k" for k using inc(1) by simp
  have own: "slot (replica_state w r) r = added w r" and
    known: "counter_known U (added w) (replica_state w q)" for q
    using local_increment.IH by (auto simp: cluster_inv_def)
  have slots: "slot c k = (if k = r then added w r + d else slot (replica_state w r) k)" for k
    by (simp add: inc(2) slot_def own [symmetric])
  have "0 \<le> slot (replica_state w r) r"
    using known [of r] by (simp add: counter_known_def slot_nonneg)
  then have "nonneg c"
    using known [of r] inc by (auto simp: counter_known_def nonneg_def ran_def)
  moreover have "gcounter_ok U c"
    using known [of r] local_increment.hyps(2) by (auto simp: counter_known_def gcounter_ok_def inc(2))
  moreover have "slot c k \<le> ?tot k" for k
    using known [of r] by (simp add: slots counter_known_def)
  ultimately have "counter_known U ?tot c" by (simp add: counter_known_def)
  moreover have "counter_known U ?tot c'" if "counter_known U (added w) c'" for c'
    using that le by (rule counter_known_mono)
  moreover have "slot c r = added w r + d" by (simp add: slots)
  ultimately show ?case
    using local_increment.IH by (simp add: cluster_inv_def)
next
  case (gossip_send w r)
  then show ?case by (simp add: cluster_inv_def)
next
  case (gossip_receive w r c)
  have known: "counter_known U (added w) (replica_state w r)" "counter_known U (added w) c"
    and own: "slot (replica_state w r) r = added w r"
    using gossip_receive by (auto simp: cluster_inv_def)
  have "slot (gcounter_merge (replica_state w r) c) r = added w r"
    using slot_merge(1) [of U "replica_state w r" c r] known own
    by (simp add: counter_known_def max.absorb1)
  with counter_known_merge [OF known] gossip_receive.IH show ?case by (simp add: cluster_inv_def)
qed

section \<open>The wire\<close>

definition gcounter_wire_ok :: "gcounter \<Rightarrow> bool" where
  "gcounter_wire_ok c \<longleftrightarrow> jwf c \<and> length c \<le> MAX_CRDT_ENTRIES \<and> jget c ''__proto__'' = None \<and>
     (\<forall>v \<in> ran (jget c). slot_ok v)"

lemma efold_jset:
  "jwf (m @ es) \<Longrightarrow> \<forall>(k, j) \<in> set es. f j = Inr (g j) \<Longrightarrow>
   efold (\<lambda>state (k, j). ebind (f j) (\<lambda>v. Inr (jset state k v))) m' es =
     Inr (foldl (\<lambda>m (k, v). jset m k v) m' (map (\<lambda>(k, j). (k, g j)) es))"
  by (induction es arbitrary: m m') (auto simp: jwf_def)

text \<open>The decoder builds a map only from entries that passed every guard.\<close>

lemma efold_counter_inv:
  assumes "efold (\<lambda>state (k, j). ebind (assertCounterValue j) (\<lambda>v. Inr (jset state k v))) m es = Inr c"
    and "jwf m" "\<forall>v \<in> ran (jget m). slot_ok v"
  shows "jwf c \<and> (\<forall>v \<in> ran (jget c). slot_ok v) \<and> dom (jget c) \<subseteq> dom (jget m) \<union> set (map fst es) \<and>
    length c \<le> length m + length es"
  using assms
proof (induction es arbitrary: m)
  case (Cons e es)
  obtain k j where e: "e = (k, j)" by force
  from Cons.prems(1) obtain v where v: "assertCounterValue j = Inr v"
    "efold (\<lambda>state (k, j). ebind (assertCounterValue j) (\<lambda>v. Inr (jset state k v))) (jset m k v) es = Inr c"
    by (auto simp: e ebind_Inr_iff)
  have ok: "\<forall>v \<in> ran (jget (jset m k v)). slot_ok v"
    using Cons.prems(3) v(1) by (auto simp: assertCounterValue_iff ran_def)
  have "length (jset m k v) \<le> Suc (length m)"
    using Cons.prems(2) by (simp add: jsize_card card_insert_if)
  with Cons.IH [OF v(2) jwf_jset [OF Cons.prems(2)] ok] show ?case by (auto simp: e)
qed auto

lemma safeEntries_iff:
  "safeEntries es = Inr xs \<longleftrightarrow> xs = es \<and> length es \<le> MAX_CRDT_ENTRIES \<and> ''__proto__'' \<notin> set (map fst es)"
  by (force simp: safeEntries_def list_ex_iff split: if_splits)

lemma gcounter_fromJSON_wire_ok:
  assumes "gcounter_fromJSON j = Inr c"
  shows "gcounter_wire_ok c"
proof -
  from assms obtain es where s: "safeEntries es = Inr es"
    "efold (\<lambda>state (k, j). ebind (assertCounterValue j) (\<lambda>v. Inr (jset state k v))) [] es = Inr c"
    by (auto simp: gcounter_fromJSON_def ebind_Inr_iff safeEntries_iff)
  from efold_counter_inv [OF s(2)] s(1) show ?thesis
    by (auto simp: gcounter_wire_ok_def safeEntries_iff ran_def)
qed

lemma gcounter_wire_roundtrip:
  assumes "gcounter_wire_ok c"
  shows "gcounter_fromJSON (gcounter_toJSON c) = Inr (own_order c)"
proof -
  have ok: "jwf c" "length c \<le> MAX_CRDT_ENTRIES" "jget c ''__proto__'' = None"
    using assms by (auto simp: gcounter_wire_ok_def)
  have slots: "slot_ok v" if "(r, v) \<in> set c" for r v
    using that assms ranI [of "jget c" r v] by (auto simp: gcounter_wire_ok_def jget_in_eq)
  let ?wire = "map (\<lambda>(r, v). (r, JNum (Fin v))) c"
  let ?un = "\<lambda>j. case j of JNum (Fin v) \<Rightarrow> v | _ \<Rightarrow> 0"
  have fsts: "map fst ?wire = map fst c" by (simp add: case_prod_unfold comp_def)
  have wire: "jwf ?wire" using ok(1) unfolding jwf_def fsts .
  have own: "own_order ?wire = map (\<lambda>(r, v). (r, JNum (Fin v))) (own_order c)"
    by (rule own_order_map)
  have guards: "\<forall>(k, j) \<in> set (own_order ?wire). assertCounterValue j = Inr (?un j)"
    using slots by (auto simp: assertCounterValue_iff)
  have "''__proto__'' \<notin> set (map fst (own_order ?wire))"
    using ok(3) by (auto simp: jget_None_notin image_iff)
  then have "safeEntries (own_order ?wire) = Inr (own_order ?wire)"
    using ok(2) by (simp add: safeEntries_iff)
  moreover have "efold (\<lambda>state (k, j). ebind (assertCounterValue j) (\<lambda>v. Inr (jset state k v))) [] (own_order ?wire) =
      Inr (foldl (\<lambda>m (k, v). jset m k v) [] (map (\<lambda>(k, j). (k, ?un j)) (own_order ?wire)))"
    using wire guards by (intro efold_jset [of "[]"]) auto
  moreover have "map (\<lambda>(k, j). (k, ?un j)) (own_order ?wire) = own_order c"
    unfolding own by (simp add: comp_def case_prod_unfold)
  moreover have "foldl (\<lambda>m (k, v). jset m k v) [] (own_order c) = own_order c"
    using foldl_jset_fresh [of "[]" "own_order c"] ok(1) by simp
  ultimately show ?thesis
    by (simp add: gcounter_fromJSON_def gcounter_toJSON_def js_prop_JObj jget_def js_fromEntries_wf [OF wire]
        assertPlainObject_def)
qed

lemma slot_ok_int: "slot_ok q \<Longrightarrow> \<exists>n. q = of_int n"
  by (auto simp: slot_ok_def js_isSafeInteger_def intro: exI [of _ "\<lfloor>q\<rfloor>"])

lemma gcounter_value_exact:
  assumes "gcounter_wire_ok c"
  shows "js_isSafeInteger (Fin (gcounter_value c)) \<and> 0 \<le> gcounter_value c"
proof -
  have ok: "jwf c" "length c \<le> MAX_CRDT_ENTRIES" "\<And>k. k \<in> dom (jget c) \<Longrightarrow> slot_ok (the (jget c k))"
    using assms by (auto simp: gcounter_wire_ok_def ran_def)
  let ?D = "dom (jget c)"
  have "\<forall>k \<in> ?D. \<exists>n. the (jget c k) = of_int n" using ok(3) slot_ok_int by blast
  then obtain n where n: "\<forall>k \<in> ?D. the (jget c k) = of_int (n k)" by metis
  then have "gcounter_value c = of_int (\<Sum>k \<in> ?D. n k)"
    by (simp add: gcounter_value_sum [OF ok(1)])
  then obtain N where sum: "gcounter_value c = of_int N" by blast
  have "gcounter_value c \<le> of_nat (card ?D) * MAX_COUNTER_SLOT"
    unfolding gcounter_value_sum [OF ok(1)] using ok(3) by (intro sum_bounded_above) (simp add: slot_ok_def)
  also have "\<dots> \<le> of_nat MAX_CRDT_ENTRIES * MAX_COUNTER_SLOT"
    using ok(1,2) by (intro mult_right_mono) (simp_all add: jsize_card MAX_COUNTER_SLOT_value)
  finally have le: "gcounter_value c \<le> MAX_SAFE_INTEGER"
    by (simp add: MAX_CRDT_ENTRIES_def MAX_COUNTER_SLOT_value MAX_SAFE_INTEGER_def)
  have "0 \<le> gcounter_value c"
    unfolding gcounter_value_sum [OF ok(1)] using ok(3) by (intro sum_nonneg) (simp add: slot_ok_def)
  with le sum show ?thesis by (simp add: js_isSafeInteger_def MAX_SAFE_INTEGER_def)
qed

section \<open>Properties\<close>

text \<open>A grow-only counter converges: two replicas that have merged the same set of counters,
  in whatever order, grouping and multiplicity, are \<open>equals\<close> and report the same value, as long as at
  most 4096 replica ids exist.\<close>

theorem gcounter_converges:
  assumes "finite U" "card U \<le> MAX_CRDT_ENTRIES" "\<forall>c \<in> sources t. jwf c \<and> dom (jget c) \<subseteq> U"
    and "sources t = sources u"
  shows "gcounter_equals (eval_merge gcounter_merge t) (eval_merge gcounter_merge u) \<and>
    gcounter_value (eval_merge gcounter_merge t) = gcounter_value (eval_merge gcounter_merge u)"
proof -
  have ok: "\<forall>c \<in> sources t. gcounter_ok U c" using assms by (simp add: gcounter_ok_def)
  then have "gcounter_ok U (eval_merge gcounter_merge t)" "gcounter_ok U (eval_merge gcounter_merge u)"
    using gc.eval_inv assms(4) by blast+
  then have "jwf (eval_merge gcounter_merge t)" "jwf (eval_merge gcounter_merge u)"
    by (simp_all add: gcounter_ok_def)
  with gc.convergence [OF ok assms(4)] show ?thesis
    using gcounter_equals_iff gcounter_value_cong by blast
qed


text \<open>C14: decoding is safe and encoding is faithful: whatever JSON a peer sends, a counter that
  decodes has a value that is a safe, non-negative integer, so its sum is exact; and encoding that
  counter again decodes to an equal one.\<close>

theorem gcounter_decode_exact_and_roundtrip:
  assumes "gcounter_fromJSON j = Inr c"
  shows "js_isSafeInteger (Fin (gcounter_value c)) \<and> 0 \<le> gcounter_value c \<and>
    (\<exists>c'. gcounter_fromJSON (gcounter_toJSON c) = Inr c' \<and> gcounter_equals c c')"
proof -
  note ok = gcounter_fromJSON_wire_ok [OF assms]
  then have "jwf c" by (simp add: gcounter_wire_ok_def)
  with ok show ?thesis
    by (simp add: gcounter_value_exact gcounter_wire_roundtrip gcounter_equals_iff)
qed

text \<open>The local increment accepts what no decoder accepts: after adding a fraction to an empty
  counter, a legal operation, the encoded counter is rejected by every peer.\<close>

theorem gcounter_fractional_increment_undecodable:
  assumes "0 < d" "d < 1" "replica \<noteq> ''__proto__''"
  shows "\<exists>c. gcounter_increment gcounter_empty replica (Fin d) = Inr c \<and>
    gcounter_fromJSON (gcounter_toJSON c) = Inl CrdtDecodeError"
proof -
  have inc: "gcounter_increment gcounter_empty replica (Fin d) = Inr [(replica, d)]"
    using assms by (simp add: gcounter_increment_def gcounter_empty_def MAX_COUNTER_SLOT_value jset_def)
  have "of_int \<lfloor>d\<rfloor> \<noteq> d" using assms by (metis floor_less_one le_floor_iff of_int_0 of_int_0_le_iff of_int_less_1_iff
      order_less_irrefl order_less_le_trans zero_le_floor zless_add1_eq add_0 le_less)
  then have "assertCounterValue (JNum (Fin d)) = Inl CrdtDecodeError"
    unfolding assertCounterValue_def assertFiniteNumber_def js_isSafeInteger_def by simp
  moreover have "js_fromEntries [(replica, JNum (Fin d))] = JObj [(replica, JNum (Fin d))]"
    by (simp add: js_fromEntries_def jset_def own_order_def)
  moreover have "safeEntries [(replica, JNum (Fin d))] = Inr [(replica, JNum (Fin d))]"
    using assms by (simp add: safeEntries_iff MAX_CRDT_ENTRIES_def)
  ultimately show ?thesis
    unfolding inc
    by (simp add: gcounter_fromJSON_def gcounter_toJSON_def js_prop_JObj jget_def assertPlainObject_def)
qed

text \<open>The two counters of a \<open>PNCounter\<close> join side by side.\<close>

definition pncounter_ok :: "string set \<Rightarrow> pncounter \<Rightarrow> bool" where
  "pncounter_ok U c \<longleftrightarrow> gcounter_ok U (pos c) \<and> gcounter_ok U (neg c)"

interpretation pn: crdt pncounter_merge "pncounter_ok U" "\<lambda>c. (jget (pos c), jget (neg c))"
  "\<lambda>(p, n) (p', n'). (map_join max p p', map_join max n n')" for U
  by unfold_locales
    (auto simp: pncounter_ok_def pncounter_merge_def
      intro: gc.merge_inv gc.merge_abs gc.join_idem gc.join_comm gc.join_assoc)

text \<open>A counter that also goes down converges the same way: replicas that merged the same
  states agree on both halves and on the value, the increments minus the decrements.\<close>

theorem pncounter_converges:
  assumes "finite U" "card U \<le> MAX_CRDT_ENTRIES" "sources t = sources u"
    and "\<forall>c \<in> sources t. jwf (pos c) \<and> jwf (neg c) \<and> dom (jget (pos c)) \<subseteq> U \<and> dom (jget (neg c)) \<subseteq> U"
  shows "pncounter_equals (eval_merge pncounter_merge t) (eval_merge pncounter_merge u) \<and>
    pncounter_value (eval_merge pncounter_merge t) = pncounter_value (eval_merge pncounter_merge u)"
proof -
  let ?t = "eval_merge pncounter_merge t" and ?u = "eval_merge pncounter_merge u"
  have ok: "\<forall>c \<in> sources t. pncounter_ok U c" using assms by (simp add: gcounter_ok_def pncounter_ok_def)
  then have "pncounter_ok U ?t" "pncounter_ok U ?u" using pn.eval_inv assms(3) by blast+
  then have wf: "jwf (pos ?t)" "jwf (neg ?t)" "jwf (pos ?u)" "jwf (neg ?u)"
    by (simp_all add: pncounter_ok_def gcounter_ok_def)
  have eq: "jget (pos ?t) = jget (pos ?u)" "jget (neg ?t) = jget (neg ?u)"
    using pn.convergence [OF ok assms(3)] by auto
  have "gcounter_value (pos ?t) = gcounter_value (pos ?u)" "gcounter_value (neg ?t) = gcounter_value (neg ?u)"
    using wf eq gcounter_value_cong by blast+
  with wf eq show ?thesis by (simp add: pncounter_equals_def pncounter_value_def gcounter_equals_iff)
qed

section \<open>Witnesses\<close>

definition demo_a :: gcounter where "demo_a = [(''a'', 3)]"

definition demo_b :: gcounter where "demo_b = [(''b'', 5)]"

definition demo_t :: "gcounter merge_tree" where
  "demo_t = Merged (Source demo_a) (Source demo_b)"

definition demo_u :: "gcounter merge_tree" where
  "demo_u = Merged (Merged (Source demo_b) (Source demo_b)) (Source demo_a)"

lemmas counter_eval = demo_a_def demo_b_def demo_t_def demo_u_def gcounter_merge_def jget_def jhas_def jset_def
  MAX_CRDT_ENTRIES_def gcounter_value_def jvalues_def


theorem gcounter_decode_exact_and_roundtrip_witness:
  "gcounter_fromJSON (gcounter_toJSON demo_a) = Inr demo_a \<and> js_isSafeInteger (Fin (gcounter_value demo_a)) \<and>
   (\<exists>c'. gcounter_fromJSON (gcounter_toJSON demo_a) = Inr c' \<and> gcounter_equals demo_a c')"
proof -
  have "gcounter_wire_ok demo_a"
    by (simp add: gcounter_wire_ok_def demo_a_def jwf_def jget_map_of MAX_CRDT_ENTRIES_def slot_ok_def ran_def
        js_isSafeInteger_def MAX_SAFE_INTEGER_def MAX_COUNTER_SLOT_value)
  then have d: "gcounter_fromJSON (gcounter_toJSON demo_a) = Inr demo_a"
    by (simp add: gcounter_wire_roundtrip) (simp add: demo_a_def own_order_def)
  from gcounter_decode_exact_and_roundtrip [OF d] d show ?thesis by blast
qed

theorem gcounter_fractional_increment_undecodable_witness:
  "\<exists>c. gcounter_increment gcounter_empty ''a'' (Fin (1 / 2)) = Inr c \<and>
     gcounter_fromJSON (gcounter_toJSON c) = Inl CrdtDecodeError"
  using gcounter_fractional_increment_undecodable [of "1 / 2" "''a''"] by simp



end
