(* ===== verification/Crdt_Sets.thy ===== *)
theory Crdt_Sets
  imports Crdt_Spec
begin

text \<open>
  \<^verbatim>\<open>src/src/crdt/GSet.ts\<close>, \<^verbatim>\<open>src/src/crdt/ORSet.ts\<close> and the tag draw of
  \<^verbatim>\<open>src/src/util/RandomString.ts\<close>.

  The element identity is a field, as in the classes. The entropy behind a tag is a parameter: the
  sequence of candidates the generator would produce; the loop that discards taken candidates is
  modelled. Elements are never null or undefined (the merge picks the local element with
  \<^verbatim>\<open>??\<close>, which would pass over one). The JSON forms of the two sets serialise elements of an arbitrary type and are not
  modelled here.
\<close>

section \<open>GSet\<close>

record 'e gset =
  gs_elements :: "(string, 'e) jmap"
  gs_identity :: "'e \<Rightarrow> string"

definition gset_empty :: "('e \<Rightarrow> string) \<Rightarrow> 'e gset" where
  "gset_empty identity = \<lparr>gs_elements = [], gs_identity = identity\<rparr>"

definition gset_add :: "'e gset \<Rightarrow> 'e \<Rightarrow> 'e gset" where
  "gset_add s e =
     (let key = gs_identity s e in
      if jhas (gs_elements s) key then s else s\<lparr>gs_elements := jset (gs_elements s) key e\<rparr>)"

definition gset_has :: "'e gset \<Rightarrow> 'e \<Rightarrow> bool" where
  "gset_has s e = jhas (gs_elements s) (gs_identity s e)"

definition gset_value :: "'e gset \<Rightarrow> 'e list" where
  "gset_value s = jvalues (gs_elements s)"

definition gset_size :: "'e gset \<Rightarrow> nat" where
  "gset_size s = length (gs_elements s)"

definition gset_merge :: "'e gset \<Rightarrow> 'e gset \<Rightarrow> 'e gset" where
  "gset_merge s other =
     (if gs_elements other = [] then s
      else if gs_elements s = [] then other
      else s\<lparr>gs_elements := foldl (\<lambda>m (key, e). if jhas m key then m else jset m key e)
                              (gs_elements s) (gs_elements other)\<rparr>)"

definition gset_equals :: "'e gset \<Rightarrow> 'e gset \<Rightarrow> bool" where
  "gset_equals s other =
     (length (gs_elements s) = length (gs_elements other) \<and>
      list_all (\<lambda>key. jhas (gs_elements other) key) (jkeys (gs_elements s)))"

section \<open>ORSet\<close>

record 'e element_entry =
  entry_element :: 'e
  entry_tags :: "string jset"

record 'e orset =
  or_elements :: "(string, 'e element_entry) jmap"
  or_tombstones :: "(string, string jset) jmap"
  or_identity :: "'e \<Rightarrow> string"

definition orset_empty :: "('e \<Rightarrow> string) \<Rightarrow> 'e orset" where
  "orset_empty identity = \<lparr>or_elements = [], or_tombstones = [], or_identity = identity\<rparr>"

definition MAXIMUM_DRAW_ATTEMPTS :: nat where
  "MAXIMUM_DRAW_ATTEMPTS = 1000"

fun drawUntilFree :: "nat \<Rightarrow> (nat \<Rightarrow> string) \<Rightarrow> (string \<Rightarrow> bool) \<Rightarrow> nat \<Rightarrow> string option" where
  "drawUntilFree 0 draws taken attempt = None"
| "drawUntilFree (Suc left) draws taken attempt =
     (if \<not> taken (draws attempt) then Some (draws attempt) else drawUntilFree left draws taken (Suc attempt))"

definition orset_tag :: "'e orset \<Rightarrow> string \<Rightarrow> 'e \<Rightarrow> (nat \<Rightarrow> string) \<Rightarrow> string option" where
  "orset_tag s replica e draws =
     (let key = or_identity s e; tagPrefix = replica @ ''#'';
          taken = (\<lambda>suffix.
            (case jget (or_elements s) key of None \<Rightarrow> False | Some entry \<Rightarrow> tagPrefix @ suffix \<in> set (entry_tags entry)) \<or>
            (case jget (or_tombstones s) key of None \<Rightarrow> False | Some tags \<Rightarrow> tagPrefix @ suffix \<in> set tags))
      in map_option (\<lambda>suffix. tagPrefix @ suffix) (drawUntilFree MAXIMUM_DRAW_ATTEMPTS draws taken 0))"

definition orset_add :: "'e orset \<Rightarrow> string \<Rightarrow> 'e \<Rightarrow> (nat \<Rightarrow> string) \<Rightarrow> 'e orset option" where
  "orset_add s replica e draws =
     (case orset_tag s replica e draws of
        None \<Rightarrow> None
      | Some tag \<Rightarrow>
          let key = or_identity s e;
              tags = sof (case jget (or_elements s) key of None \<Rightarrow> [] | Some entry \<Rightarrow> entry_tags entry)
          in Some (s\<lparr>or_elements := jset (or_elements s) key \<lparr>entry_element = e, entry_tags = sadd tags tag\<rparr>\<rparr>))"

definition orset_remove :: "'e orset \<Rightarrow> 'e \<Rightarrow> 'e orset" where
  "orset_remove s e =
     (let key = or_identity s e in
      case jget (or_elements s) key of
        None \<Rightarrow> s
      | Some entry \<Rightarrow>
          if entry_tags entry = [] then s
          else let tombstoneTags = sadd_all (sof (case jget (or_tombstones s) key of None \<Rightarrow> [] | Some ts \<Rightarrow> ts))
                     (entry_tags entry)
               in s\<lparr>or_elements := jdelete (or_elements s) key,
                    or_tombstones := jset (or_tombstones s) key tombstoneTags\<rparr>)"

definition orset_has :: "'e orset \<Rightarrow> 'e \<Rightarrow> bool" where
  "orset_has s e = (case jget (or_elements s) (or_identity s e) of None \<Rightarrow> False | Some entry \<Rightarrow> entry_tags entry \<noteq> [])"

definition orset_value :: "'e orset \<Rightarrow> 'e list" where
  "orset_value s = map entry_element (filter (\<lambda>entry. entry_tags entry \<noteq> []) (jvalues (or_elements s)))"

definition orset_size :: "'e orset \<Rightarrow> nat" where
  "orset_size s = length (filter (\<lambda>entry. entry_tags entry \<noteq> []) (jvalues (or_elements s)))"

definition flattenMapOfSets :: "(string, string jset) jmap \<Rightarrow> string jset" where
  "flattenMapOfSets m = foldl sadd_all [] (jvalues m)"

definition unionMapOfSets :: "(string, string jset) jmap \<Rightarrow> (string, string jset) jmap \<Rightarrow> (string, string jset) jmap" where
  "unionMapOfSets ours theirs =
     foldl (\<lambda>out key.
         let merged = sadd_all (sof (case jget ours key of None \<Rightarrow> [] | Some ts \<Rightarrow> ts))
                        (case jget theirs key of None \<Rightarrow> [] | Some ts \<Rightarrow> ts)
         in if merged \<noteq> [] then jset out key merged else out)
       [] (sof (jkeys ours @ jkeys theirs))"

definition orset_merge :: "'e orset \<Rightarrow> 'e orset \<Rightarrow> 'e orset" where
  "orset_merge s other =
     (let mergedTombstones = unionMapOfSets (or_tombstones s) (or_tombstones other);
          vetoedTags = flattenMapOfSets mergedTombstones;
          allKeys = sof (jkeys (or_elements s) @ jkeys (or_elements other));
          mergedElements = foldl (\<lambda>out key.
            let ours = jget (or_elements s) key;
                theirs = jget (or_elements other) key;
                unvetoed = (\<lambda>entry. case entry of None \<Rightarrow> []
                              | Some en \<Rightarrow> filter (\<lambda>tag. tag \<notin> set vetoedTags) (entry_tags en));
                merged = sadd_all (sof (unvetoed ours)) (unvetoed theirs)
            in if merged \<noteq> []
               then jset out key \<lparr>entry_element = (case ours of Some en \<Rightarrow> entry_element en
                                     | None \<Rightarrow> entry_element (the theirs)), entry_tags = merged\<rparr>
               else out) [] allKeys
      in s\<lparr>or_elements := mergedElements, or_tombstones := mergedTombstones\<rparr>)"

definition mapOfSetsEqual :: "(string, string jset) jmap \<Rightarrow> (string, string jset) jmap \<Rightarrow> bool" where
  "mapOfSetsEqual ours theirs =
     (length ours = length theirs \<and>
      list_all (\<lambda>(key, va). case jget theirs key of None \<Rightarrow> False
        | Some vb \<Rightarrow> length va = length vb \<and> list_all (\<lambda>tag. tag \<in> set vb) va) ours)"

definition orset_equals :: "'e orset \<Rightarrow> 'e orset \<Rightarrow> bool" where
  "orset_equals s other =
     (length (or_elements s) = length (or_elements other) \<and>
      list_all (\<lambda>(key, entry). case jget (or_elements other) key of None \<Rightarrow> False
        | Some otherEntry \<Rightarrow> length (entry_tags entry) = length (entry_tags otherEntry) \<and>
            list_all (\<lambda>tag. tag \<in> set (entry_tags otherEntry)) (entry_tags entry)) (or_elements s) \<and>
      mapOfSetsEqual (or_tombstones s) (or_tombstones other))"

section \<open>GSet: the laws\<close>

definition gset_ok :: "'e gset \<Rightarrow> bool" where
  "gset_ok s \<longleftrightarrow> jwf (gs_elements s)"

abbreviation gset_keys :: "'e gset \<Rightarrow> string set" where
  "gset_keys s \<equiv> dom (jget (gs_elements s))"

lemma foldl_add_missing:
  fixes es :: "(string \<times> 'e) list"
  shows "jwf m \<Longrightarrow> jwf (foldl (\<lambda>m (key, e). if jhas m key then m else jset m key e) m es) \<and>
    dom (jget (foldl (\<lambda>m (key, e). if jhas m key then m else jset m key e) m es)) =
      dom (jget m) \<union> set (map fst es)"
proof (induction es arbitrary: m)
  case (Cons x es)
  obtain key e where x: "x = (key, e)" by force
  show ?case
  proof (cases "jhas m key")
    case True
    then have "key \<in> dom (jget m)" by (auto simp: jhas_iff)
    with Cons True show ?thesis by (auto simp: x)
  next
    case False
    with Cons.IH [of "jset m key e"] Cons.prems show ?thesis by (auto simp: x)
  qed
qed simp

lemma gset_merge_laws:
  assumes "gset_ok s" "gset_ok t"
  shows "gset_ok (gset_merge s t)" "gset_keys (gset_merge s t) = gset_keys s \<union> gset_keys t"
proof -
  have keys: "set (map fst (gs_elements t)) = gset_keys t"
    using jkeys_set [of "gs_elements t"] by (simp add: jkeys_def)
  have "gset_ok (gset_merge s t) \<and> gset_keys (gset_merge s t) = gset_keys s \<union> gset_keys t"
    using assms foldl_add_missing [of "gs_elements s" "gs_elements t"] keys
    by (auto simp: gset_merge_def gset_ok_def jget_map_of)
  then show "gset_ok (gset_merge s t)" "gset_keys (gset_merge s t) = gset_keys s \<union> gset_keys t" by auto
qed

interpretation gs: crdt gset_merge gset_ok gset_keys "(\<union>)"
  by unfold_locales (auto simp: gset_merge_laws)

lemma gset_equals_iff: "gset_ok s \<Longrightarrow> gset_ok t \<Longrightarrow> gset_equals s t \<longleftrightarrow> gset_keys s = gset_keys t"
proof
  assume ok: "gset_ok s" "gset_ok t"
  assume "gset_equals s t"
  then have "card (gset_keys s) = card (gset_keys t)" "gset_keys s \<subseteq> gset_keys t"
    using ok by (auto simp: gset_equals_def gset_ok_def list_all_iff jkeys_set jhas_iff jsize_card)
  then show "gset_keys s = gset_keys t" by (intro card_subset_eq) auto
next
  assume ok: "gset_ok s" "gset_ok t" and eq: "gset_keys s = gset_keys t"
  have "jhas (gs_elements t) key" if "key \<in> gset_keys s" for key
    using that eq by (auto simp: jhas_iff)
  with ok eq show "gset_equals s t"
    by (simp add: gset_equals_def gset_ok_def list_all_iff jkeys_set jsize_card)
qed

section \<open>ORSet: the laws\<close>

definition tags_at :: "(string, string jset) jmap \<Rightarrow> string \<Rightarrow> string set" where
  "tags_at m k = (case jget m k of None \<Rightarrow> {} | Some ts \<Rightarrow> set ts)"

definition live_at :: "'e orset \<Rightarrow> string \<Rightarrow> string set" where
  "live_at s k = (case jget (or_elements s) k of None \<Rightarrow> {} | Some en \<Rightarrow> set (entry_tags en))"

abbreviation dead_at :: "'e orset \<Rightarrow> string \<Rightarrow> string set" where
  "dead_at s k \<equiv> tags_at (or_tombstones s) k"

definition dead_tags :: "(string \<Rightarrow> string set) \<Rightarrow> string set" where
  "dead_tags d = (\<Union>k. d k)"

definition sets_ok :: "(string, string jset) jmap \<Rightarrow> bool" where
  "sets_ok m \<longleftrightarrow> jwf m \<and> (\<forall>ts \<in> ran (jget m). ts \<noteq> [] \<and> distinct ts)"

definition orset_ok :: "'e orset \<Rightarrow> bool" where
  "orset_ok s \<longleftrightarrow> jwf (or_elements s) \<and>
     (\<forall>en \<in> ran (jget (or_elements s)). entry_tags en \<noteq> [] \<and> distinct (entry_tags en)) \<and>
     sets_ok (or_tombstones s) \<and> (\<forall>k. live_at s k \<inter> dead_tags (dead_at s) = {})"

text \<open>The abstract state: the live tags and the tombstoned tags of each key.\<close>

type_synonym orset_abs = "(string \<Rightarrow> string set) \<times> (string \<Rightarrow> string set)"

definition orset_abs :: "'e orset \<Rightarrow> orset_abs" where
  "orset_abs s = (live_at s, dead_at s)"

definition orset_join :: "orset_abs \<Rightarrow> orset_abs \<Rightarrow> orset_abs" where
  "orset_join a b =
     (let dead = (\<lambda>k. snd a k \<union> snd b k) in (\<lambda>k. (fst a k \<union> fst b k) - dead_tags dead, dead))"

lemma foldl_build:
  assumes "\<And>out key. F out key = (if P key then jset out key (g key) else out)"
  shows "jget (foldl F m ks) k = (if k \<in> set ks \<and> P k then Some (g k) else jget m k)"
    and "jwf m \<Longrightarrow> jwf (foldl F m ks)"
  by (induction ks arbitrary: m) (auto simp: assms)

lemma sadd_all_empty_iff [simp]: "sadd_all s xs = [] \<longleftrightarrow> s = [] \<and> xs = []"
  by (metis Un_empty set_empty set_sadd_all)

lemma sof_empty_iff [simp]: "sof xs = [] \<longleftrightarrow> xs = []"
  by (metis set_empty set_sof)

lemma in_tags_at: "x \<in> tags_at m k \<longleftrightarrow> (\<exists>ts. jget m k = Some ts \<and> x \<in> set ts)"
  by (simp add: tags_at_def split: option.splits)

lemma jget_case_set: "set (case jget m k of None \<Rightarrow> [] | Some ts \<Rightarrow> ts) = tags_at m k"
  by (simp add: tags_at_def split: option.splits)

lemma unionMapOfSets_jget:
  assumes "sets_ok m" "sets_ok n"
  shows "sets_ok (unionMapOfSets m n)" "tags_at (unionMapOfSets m n) k = tags_at m k \<union> tags_at n k"
proof -
  let ?g = "\<lambda>key. sadd_all (sof (case jget m key of None \<Rightarrow> [] | Some ts \<Rightarrow> ts)) (case jget n key of None \<Rightarrow> [] | Some ts \<Rightarrow> ts)"
  let ?F = "\<lambda>out key. let merged = ?g key in if merged \<noteq> [] then jset out key merged else out"
  have F: "?F out key = (if ?g key \<noteq> [] then jset out key (?g key) else out)" for out key
    by (simp add: Let_def)
  have get: "jget (unionMapOfSets m n) k = (if k \<in> dom (jget m) \<union> dom (jget n) \<and> ?g k \<noteq> [] then Some (?g k) else None)" for k
    unfolding unionMapOfSets_def foldl_build(1) [where F = ?F and P = "\<lambda>key. ?g key \<noteq> []" and g = ?g, OF F]
    by (simp add: jkeys_set)
  have wf: "jwf (unionMapOfSets m n)"
    unfolding unionMapOfSets_def by (rule foldl_build(2) [where F = ?F and P = "\<lambda>key. ?g key \<noteq> []" and g = ?g, OF F]) simp
  have "distinct (?g k)" for k by simp
  then show "sets_ok (unionMapOfSets m n)"
    unfolding sets_ok_def using wf by (auto simp: ran_def get split: if_splits)
  have set_g: "set (?g k) = tags_at m k \<union> tags_at n k" by (simp add: jget_case_set)
  have "tags_at m k \<union> tags_at n k = {}" if "k \<notin> dom (jget m) \<union> dom (jget n)"
    using that by (auto simp: tags_at_def)
  moreover have "tags_at (unionMapOfSets m n) k = (if k \<in> dom (jget m) \<union> dom (jget n) \<and> ?g k \<noteq> [] then set (?g k) else {})"
    by (simp add: tags_at_def get)
  ultimately show "tags_at (unionMapOfSets m n) k = tags_at m k \<union> tags_at n k"
    unfolding set_g [symmetric] by (cases "?g k = []") (simp_all del: set_sadd_all set_sof)
qed

lemma flattenMapOfSets_set:
  assumes "sets_ok m"
  shows "set (flattenMapOfSets m) = dead_tags (tags_at m)"
proof -
  have "set (foldl sadd_all a xs) = set a \<union> (\<Union>x \<in> set xs. set x)" for a :: "string list" and xs
    by (induction xs arbitrary: a) auto
  then have "set (flattenMapOfSets m) = (\<Union>(k, ts) \<in> set m. set ts)"
    by (auto simp: flattenMapOfSets_def jvalues_def)
  also have "\<dots> = {x. \<exists>k ts. jget m k = Some ts \<and> x \<in> set ts}"
  proof -
    have "jwf m" using assms by (simp add: sets_ok_def)
    then show ?thesis by (fastforce simp flip: jget_in_eq)
  qed
  also have "\<dots> = dead_tags (tags_at m)"
    by (simp add: dead_tags_def in_tags_at set_eq_iff)
  finally show ?thesis .
qed

definition merged_tags :: "'e orset \<Rightarrow> 'e orset \<Rightarrow> string \<Rightarrow> string list" where
  "merged_tags s t key =
     (let vetoed = flattenMapOfSets (unionMapOfSets (or_tombstones s) (or_tombstones t));
          unvetoed = (\<lambda>entry. case entry of None \<Rightarrow> []
                        | Some en \<Rightarrow> filter (\<lambda>tag. tag \<notin> set vetoed) (entry_tags en))
      in sadd_all (sof (unvetoed (jget (or_elements s) key))) (unvetoed (jget (or_elements t) key)))"

lemma orset_merge_elements:
  "jget (or_elements (orset_merge s t)) k =
     (if merged_tags s t k \<noteq> []
      then Some \<lparr>entry_element = (case jget (or_elements s) k of Some en \<Rightarrow> entry_element en
                   | None \<Rightarrow> entry_element (the (jget (or_elements t) k))), entry_tags = merged_tags s t k\<rparr>
      else None)"
  "jwf (or_elements (orset_merge s t))"
  "or_tombstones (orset_merge s t) = unionMapOfSets (or_tombstones s) (or_tombstones t)"
  "or_identity (orset_merge s t) = or_identity s"
proof -
  let ?g = "\<lambda>key. \<lparr>entry_element = (case jget (or_elements s) key of Some en \<Rightarrow> entry_element en
      | None \<Rightarrow> entry_element (the (jget (or_elements t) key))), entry_tags = merged_tags s t key\<rparr>"
  let ?F = "\<lambda>out key. if merged_tags s t key \<noteq> [] then jset out key (?g key) else out"
  let ?ks = "sof (jkeys (or_elements s) @ jkeys (or_elements t))"
  have els: "or_elements (orset_merge s t) = foldl ?F [] ?ks"
    unfolding orset_merge_def merged_tags_def Let_def by simp
  have absent: "merged_tags s t k = []" if "k \<notin> set ?ks" for k
    using that by (auto simp: merged_tags_def jkeys_set Let_def split: option.splits)
  show "jget (or_elements (orset_merge s t)) k = (if merged_tags s t k \<noteq> [] then Some (?g k) else None)"
    unfolding els foldl_build(1) [where F = ?F and P = "\<lambda>key. merged_tags s t key \<noteq> []" and g = ?g, OF refl]
    using absent by auto
  show "jwf (or_elements (orset_merge s t))"
    unfolding els by (rule foldl_build(2) [where F = ?F and P = "\<lambda>key. merged_tags s t key \<noteq> []" and g = ?g, OF refl]) simp
qed (simp_all add: orset_merge_def Let_def)

lemma merged_tags_set:
  assumes "orset_ok s" "orset_ok t"
  shows "set (merged_tags s t k) = (live_at s k \<union> live_at t k) - dead_tags (\<lambda>k. dead_at s k \<union> dead_at t k)"
    "distinct (merged_tags s t k)"
proof -
  have ok: "sets_ok (or_tombstones s)" "sets_ok (or_tombstones t)" using assms by (auto simp: orset_ok_def)
  have "set (flattenMapOfSets (unionMapOfSets (or_tombstones s) (or_tombstones t))) =
      dead_tags (\<lambda>k. dead_at s k \<union> dead_at t k)"
    using flattenMapOfSets_set [OF unionMapOfSets_jget(1) [OF ok]] unionMapOfSets_jget(2) [OF ok]
    by (simp add: dead_tags_def)
  then show "set (merged_tags s t k) = (live_at s k \<union> live_at t k) - dead_tags (\<lambda>k. dead_at s k \<union> dead_at t k)"
    by (auto simp: merged_tags_def live_at_def Let_def split: option.splits)
  show "distinct (merged_tags s t k)" by (simp add: merged_tags_def Let_def)
qed

lemma orset_merge_live:
  assumes "orset_ok s" "orset_ok t"
  shows "live_at (orset_merge s t) k = (live_at s k \<union> live_at t k) - dead_tags (\<lambda>k. dead_at s k \<union> dead_at t k)"
    "dead_at (orset_merge s t) k = dead_at s k \<union> dead_at t k"
proof -
  have "live_at (orset_merge s t) k = set (merged_tags s t k)"
    by (simp add: live_at_def orset_merge_elements(1))
  then show "live_at (orset_merge s t) k = (live_at s k \<union> live_at t k) - dead_tags (\<lambda>k. dead_at s k \<union> dead_at t k)"
    by (simp add: merged_tags_set [OF assms])
  show "dead_at (orset_merge s t) k = dead_at s k \<union> dead_at t k"
    using assms unionMapOfSets_jget(2) by (simp add: orset_merge_elements(3) orset_ok_def)
qed

lemma orset_merge_abs:
  "orset_ok s \<Longrightarrow> orset_ok t \<Longrightarrow> orset_abs (orset_merge s t) = orset_join (orset_abs s) (orset_abs t)"
  by (simp add: orset_abs_def orset_join_def orset_merge_live Let_def fun_eq_iff)

lemma orset_merge_ok:
  assumes "orset_ok s" "orset_ok t"
  shows "orset_ok (orset_merge s t)"
proof -
  have "entry_tags en \<noteq> [] \<and> distinct (entry_tags en)" if "en \<in> ran (jget (or_elements (orset_merge s t)))" for en
    using that merged_tags_set(2) [OF assms] by (auto simp: ran_def orset_merge_elements(1) split: if_splits)
  moreover have "sets_ok (or_tombstones (orset_merge s t))"
    using assms unionMapOfSets_jget(1) by (simp add: orset_merge_elements(3) orset_ok_def)
  ultimately show ?thesis
    using orset_merge_elements(2) [of s t] orset_merge_live [OF assms] by (auto simp: orset_ok_def)
qed

interpretation ors: crdt orset_merge orset_ok orset_abs orset_join
proof unfold_locales
  fix x y z :: "'e orset"
  show "orset_join (orset_abs x) (orset_abs x) = orset_abs x" if "orset_ok x"
    using that by (auto simp: orset_join_def orset_abs_def orset_ok_def Let_def fun_eq_iff)
  show "orset_join (orset_abs x) (orset_abs y) = orset_join (orset_abs y) (orset_abs x)"
    by (simp add: orset_join_def Let_def Un_commute)
  show "orset_join (orset_join (orset_abs x) (orset_abs y)) (orset_abs z) =
      orset_join (orset_abs x) (orset_join (orset_abs y) (orset_abs z))"
    by (auto simp: orset_join_def orset_abs_def dead_tags_def Let_def fun_eq_iff)
qed (simp_all add: orset_merge_abs orset_merge_ok)

text \<open>Two maps of non-empty distinct lists are equal as sets of sets exactly when they have the same
  tags at every key.\<close>

lemma maps_of_sets_equal_iff:
  fixes m n :: "(string, 'v) jmap"
  assumes "jwf m" "jwf n" "\<forall>v \<in> ran (jget m). f v \<noteq> [] \<and> distinct (f v)" "\<forall>v \<in> ran (jget n). f v \<noteq> [] \<and> distinct (f v)"
    and tg: "\<And>m k. tg m k = (case jget m k of None \<Rightarrow> {} | Some v \<Rightarrow> set (f v))"
  shows "length m = length n \<and> list_all (\<lambda>(k, v). case jget n k of None \<Rightarrow> False
        | Some w \<Rightarrow> length (f v) = length (f w) \<and> list_all (\<lambda>x. x \<in> set (f w)) (f v)) m
      \<longleftrightarrow> (\<forall>k. tg m k = tg n k)" (is "?len \<and> ?sub \<longleftrightarrow> ?eq")
proof
  have at_empty: "tg m k = {} \<longleftrightarrow> jget m k = None" "tg n k = {} \<longleftrightarrow> jget n k = None" for k
    using assms(3,4) ranI [of "jget m" k] ranI [of "jget n" k] by (auto simp: tg split: option.splits)
  have same: "length (f v) = length (f w) \<and> list_all (\<lambda>x. x \<in> set (f w)) (f v) \<longleftrightarrow> set (f v) = set (f w)"
    if "v \<in> ran (jget m)" "w \<in> ran (jget n)" for v w
  proof
    assume "length (f v) = length (f w) \<and> list_all (\<lambda>x. x \<in> set (f w)) (f v)"
    then have "set (f v) \<subseteq> set (f w)" "card (set (f v)) = card (set (f w))"
      using that assms(3,4) by (auto simp: list_all_iff distinct_card)
    then show "set (f v) = set (f w)" by (intro card_subset_eq) auto
  next
    assume eq: "set (f v) = set (f w)"
    with that assms(3,4) have "length (f v) = length (f w)" by (metis distinct_card)
    with eq show "length (f v) = length (f w) \<and> list_all (\<lambda>x. x \<in> set (f w)) (f v)"
      by (simp add: list_all_iff)
  qed
  show ?eq if "?len \<and> ?sub"
  proof
    fix k
    have sub: "\<exists>w. jget n k = Some w \<and> set (f v) = set (f w)" if "jget m k = Some v" for k v
    proof -
      have "(k, v) \<in> set m" using that by (rule jget_Some_in)
      with \<open>?len \<and> ?sub\<close> obtain w where w: "jget n k = Some w"
        "length (f v) = length (f w) \<and> list_all (\<lambda>x. x \<in> set (f w)) (f v)"
        by (fastforce simp: list_all_iff split: option.splits)
      with same [OF ranI [of "jget m" k v] ranI [of "jget n" k w]] that show ?thesis by blast
    qed
    then have "dom (jget m) \<subseteq> dom (jget n)" by blast
    then have "dom (jget m) = dom (jget n)"
      using \<open>?len \<and> ?sub\<close> assms(1,2) by (intro card_subset_eq) (simp_all add: jsize_card)
    then have "jget m k = None \<longleftrightarrow> jget n k = None" by (metis domIff)
    then show "tg m k = tg n k"
    proof (cases "jget m k")
      case None
      with \<open>jget m k = None \<longleftrightarrow> jget n k = None\<close> show ?thesis by (simp add: tg)
    next
      case (Some v)
      from sub [OF Some] obtain w where "jget n k = Some w" "set (f v) = set (f w)" by blast
      with Some show ?thesis by (simp add: tg)
    qed
  qed
  show "?len \<and> ?sub" if ?eq
  proof -
    have dom: "dom (jget m) = dom (jget n)" using that at_empty by (metis domIff subsetI subset_antisym)
    have "case jget n k of None \<Rightarrow> False
        | Some w \<Rightarrow> length (f v) = length (f w) \<and> list_all (\<lambda>x. x \<in> set (f w)) (f v)" if kv: "(k, v) \<in> set m" for k v
    proof -
      have v: "jget m k = Some v" using kv assms(1) by (simp add: jget_in_eq)
      then obtain w where w: "jget n k = Some w" using dom by blast
      have "set (f v) = set (f w)" using \<open>?eq\<close> v w by (metis tg option.simps(5))
      with same [OF ranI [of "jget m", OF v] ranI [of "jget n", OF w]] w show ?thesis by simp
    qed
    then show ?thesis using dom assms(1,2) by (auto simp: list_all_iff jsize_card)
  qed
qed

lemma orset_equals_iff:
  assumes "orset_ok s" "orset_ok t"
  shows "orset_equals s t \<longleftrightarrow> orset_abs s = orset_abs t"
proof -
  have "length (or_elements s) = length (or_elements t) \<and>
      list_all (\<lambda>(k, v). case jget (or_elements t) k of None \<Rightarrow> False
        | Some w \<Rightarrow> length (entry_tags v) = length (entry_tags w) \<and>
            list_all (\<lambda>x. x \<in> set (entry_tags w)) (entry_tags v)) (or_elements s)
      \<longleftrightarrow> (\<forall>k. live_at s k = live_at t k)"
    unfolding live_at_def using assms
    by (intro maps_of_sets_equal_iff [where tg = "\<lambda>m k. case jget m k of None \<Rightarrow> {} | Some v \<Rightarrow> set (entry_tags v)"])
      (auto simp: orset_ok_def)
  moreover have "mapOfSetsEqual (or_tombstones s) (or_tombstones t) \<longleftrightarrow> (\<forall>k. dead_at s k = dead_at t k)"
    unfolding mapOfSetsEqual_def
    by (rule maps_of_sets_equal_iff [where f = "\<lambda>ts. ts" and tg = tags_at])
      (use assms in \<open>auto simp: orset_ok_def sets_ok_def tags_at_def\<close>)
  ultimately show ?thesis by (auto simp: orset_equals_def orset_abs_def)
qed

section \<open>Adding and removing\<close>

text \<open>A tag is minted once, for one key: \<open>owner\<close> is that key.\<close>

definition orset_coherent :: "(string \<Rightarrow> string) \<Rightarrow> 'e orset \<Rightarrow> bool" where
  "orset_coherent owner s \<longleftrightarrow> (\<forall>k. live_at s k \<union> dead_at s k \<subseteq> {tag. owner tag = k})"

lemma orset_add_laws:
  assumes "orset_ok s" "orset_add s r e draws = Some s'" "orset_tag s r e draws = Some tag"
    and "tag \<notin> dead_tags (dead_at s)"
  shows "orset_ok s'" "live_at s' k = (if k = or_identity s e then insert tag (live_at s k) else live_at s k)"
    "or_tombstones s' = or_tombstones s" "or_identity s' = or_identity s"
proof -
  let ?key = "or_identity s e"
  let ?tags = "sadd (sof (case jget (or_elements s) ?key of None \<Rightarrow> [] | Some entry \<Rightarrow> entry_tags entry)) tag"
  have s': "s' = s\<lparr>or_elements := jset (or_elements s) ?key \<lparr>entry_element = e, entry_tags = ?tags\<rparr>\<rparr>"
    using assms(2,3) by (simp add: orset_add_def Let_def)
  show "or_tombstones s' = or_tombstones s" "or_identity s' = or_identity s" by (simp_all add: s')
  show live: "live_at s' k = (if k = ?key then insert tag (live_at s k) else live_at s k)" for k
    by (auto simp: s' live_at_def split: option.splits)
  have "?tags \<noteq> []" by (metis insert_not_empty set_empty set_sadd)
  moreover have "distinct ?tags" by simp
  ultimately have "\<forall>en \<in> ran (jget (or_elements s')). entry_tags en \<noteq> [] \<and> distinct (entry_tags en)"
    using assms(1) by (auto simp: s' orset_ok_def ran_def)
  then show "orset_ok s'"
    using assms(1,4) live by (auto simp: s' orset_ok_def)
qed

lemma orset_remove_laws:
  assumes "orset_ok s" "orset_coherent owner s"
  shows "orset_ok (orset_remove s e)"
    "live_at (orset_remove s e) k = (if k = or_identity s e then {} else live_at s k)"
    "dead_at (orset_remove s e) k = dead_at s k \<union> (if k = or_identity s e then live_at s k else {})"
    "or_identity (orset_remove s e) = or_identity s"
proof -
  let ?key = "or_identity s e"
  let ?s = "orset_remove s e"
  have "live_at ?s k = (if k = ?key then {} else live_at s k) \<and>
      dead_at ?s k = dead_at s k \<union> (if k = ?key then live_at s k else {})" for k
    by (cases "jget (or_elements s) ?key")
      (auto simp: orset_remove_def live_at_def tags_at_def Let_def split: option.splits)
  then show live: "live_at ?s k = (if k = ?key then {} else live_at s k)"
    and dead: "dead_at ?s k = dead_at s k \<union> (if k = ?key then live_at s k else {})" for k by auto
  show "or_identity ?s = or_identity s"
    by (simp add: orset_remove_def Let_def split: option.splits)
  have "jwf (or_elements ?s)" "\<forall>en \<in> ran (jget (or_elements ?s)). entry_tags en \<noteq> [] \<and> distinct (entry_tags en)"
    using assms(1) by (auto simp: orset_remove_def orset_ok_def Let_def ran_def split: option.splits if_splits)
  moreover have "sets_ok (or_tombstones ?s)"
    using assms(1)
    by (auto simp: orset_remove_def orset_ok_def sets_ok_def Let_def ran_def split: option.splits if_splits)
  moreover have "live_at ?s k \<inter> dead_tags (dead_at ?s) = {}" for k
  proof -
    have "tag \<notin> live_at s ?key" if "tag \<in> live_at s k" "k \<noteq> ?key" for tag
      using assms(2) that unfolding orset_coherent_def by blast
    moreover have "tag \<notin> dead_at s q" if "tag \<in> live_at s k" for tag q
      using assms(1) that unfolding orset_ok_def dead_tags_def by blast
    ultimately show ?thesis by (auto simp: live dead dead_tags_def split: if_splits)
  qed
  ultimately show "orset_ok ?s" by (simp add: orset_ok_def)
qed

lemma orset_has_live: "orset_has s e \<longleftrightarrow> live_at s (or_identity s e) \<noteq> {}"
  by (auto simp: orset_has_def live_at_def split: option.splits)

section \<open>Properties\<close>

text \<open>An observed-remove set converges: replicas that merged the same states, in any order,
  grouping and multiplicity, are \<open>equals\<close> and contain the same elements.\<close>

theorem orset_converges:
  assumes "\<forall>s \<in> sources t. orset_ok s \<and> or_identity s = ident" "sources t = sources u"
  shows "orset_equals (eval_merge orset_merge t) (eval_merge orset_merge u) \<and>
    (\<forall>e. orset_has (eval_merge orset_merge t) e = orset_has (eval_merge orset_merge u) e)"
proof -
  let ?t = "eval_merge orset_merge t" and ?u = "eval_merge orset_merge u"
  have ok: "\<forall>s \<in> sources t. orset_ok s" using assms by simp
  have oks: "orset_ok ?t" "orset_ok ?u" using ok ors.eval_inv assms(2) by blast+
  have eq: "orset_abs ?t = orset_abs ?u" by (rule ors.convergence [OF ok assms(2)])
  have ident: "or_identity (eval_merge orset_merge x) = ident" if "\<forall>s \<in> sources x. or_identity s = ident" for x
    using that by (induction x) (auto simp: orset_merge_elements(4))
  from ident [of t] ident [of u] assms have "or_identity ?t = ident" "or_identity ?u = ident" by auto
  with eq oks show ?thesis by (auto simp: orset_equals_iff orset_has_live orset_abs_def)
qed

text \<open>C16: adds win over concurrent removes and lose to removes that observed them: an element
  removed at one replica while another adds it under a fresh tag is in the merge of both, whichever
  side merges; and merging back the very state the removal was made on does not bring it back.\<close>

theorem orset_add_wins_observed_remove:
  assumes "orset_ok a" "orset_ok b" "orset_coherent owner a" "or_identity a = or_identity b"
    and "orset_add b r e draws = Some b'" "orset_tag b r e draws = Some tag"
    and "\<forall>k. tag \<notin> live_at a k \<and> tag \<notin> dead_at a k \<and> tag \<notin> dead_at b k"
  shows "orset_has (orset_merge (orset_remove a e) b') e \<and> orset_has (orset_merge b' (orset_remove a e)) e \<and>
    \<not> orset_has (orset_merge (orset_remove a e) a) e \<and> \<not> orset_has (orset_merge a (orset_remove a e)) e"
proof -
  let ?r = "orset_remove a e" and ?key = "or_identity a e"
  note rem = orset_remove_laws [OF assms(1,3), of e]
  have fresh: "tag \<notin> dead_tags (dead_at b)" using assms(7) by (auto simp: dead_tags_def)
  note add = orset_add_laws [OF assms(2,5,6) fresh]
  have ids: "or_identity b' = or_identity a" "or_identity ?r = or_identity a"
    using add(4) rem(4) assms(4) by auto
  have "tag \<in> live_at b' ?key" using assms(4) by (simp add: add(2))
  moreover have "tag \<notin> dead_tags (\<lambda>k. dead_at ?r k \<union> dead_at b' k)"
    "tag \<notin> dead_tags (\<lambda>k. dead_at b' k \<union> dead_at ?r k)"
    using assms(7) by (auto simp: dead_tags_def rem(3) add(3))
  ultimately have "tag \<in> live_at (orset_merge ?r b') ?key" "tag \<in> live_at (orset_merge b' ?r) ?key"
    by (simp_all add: orset_merge_live [OF rem(1) add(1)] orset_merge_live [OF add(1) rem(1)])
  moreover have "live_at a ?key \<subseteq> dead_tags (\<lambda>k. dead_at ?r k \<union> dead_at a k)"
    "live_at a ?key \<subseteq> dead_tags (\<lambda>k. dead_at a k \<union> dead_at ?r k)"
    by (auto simp: dead_tags_def rem(3))
  then have "live_at (orset_merge ?r a) ?key = {}" "live_at (orset_merge a ?r) ?key = {}"
    using rem(2) by (auto simp: orset_merge_live [OF rem(1) assms(1)] orset_merge_live [OF assms(1) rem(1)])
  ultimately show ?thesis
    by (auto simp: orset_has_live orset_merge_elements(4) ids)
qed

section \<open>Witnesses\<close>

lemma drawUntilFree_first: "0 < n \<Longrightarrow> \<not> taken (draws a) \<Longrightarrow> drawUntilFree n draws taken a = Some (draws a)"
  by (cases n) auto

definition demo_or :: "string orset" where
  "demo_or = \<lparr>or_elements = [(''apple'', \<lparr>entry_element = ''apple'', entry_tags = [''A#1'']\<rparr>)],
     or_tombstones = [], or_identity = \<lambda>e. e\<rparr>"

definition demo_or2 :: "string orset" where
  "demo_or2 = \<lparr>or_elements = [(''apple'', \<lparr>entry_element = ''apple'', entry_tags = [''A#1'', ''B#2'']\<rparr>)],
     or_tombstones = [], or_identity = \<lambda>e. e\<rparr>"

lemma demo_or_facts:
  "orset_ok demo_or" "orset_ok demo_or2" "orset_coherent (\<lambda>_. ''apple'') demo_or" "or_identity demo_or = or_identity demo_or2"
  "orset_tag demo_or ''B'' ''apple'' (\<lambda>_. ''2'') = Some ''B#2''"
  "orset_add demo_or ''B'' ''apple'' (\<lambda>_. ''2'') = Some demo_or2"
  by (auto simp: demo_or_def demo_or2_def orset_ok_def orset_coherent_def live_at_def tags_at_def sets_ok_def jwf_def
      jget_map_of dead_tags_def orset_add_def orset_tag_def drawUntilFree_first MAXIMUM_DRAW_ATTEMPTS_def jset_def
      sof_def sadd_def Let_def)

theorem orset_add_wins_observed_remove_witness:
  "orset_has (orset_merge (orset_remove demo_or ''apple'') demo_or2) ''apple'' \<and>
   \<not> orset_has (orset_merge (orset_remove demo_or ''apple'') demo_or) ''apple''"
  using orset_add_wins_observed_remove
    [OF demo_or_facts(1) demo_or_facts(1) demo_or_facts(3) refl demo_or_facts(6) demo_or_facts(5)]
  by (simp add: live_at_def tags_at_def jget_map_of demo_or_def)

end
