(* ===== verification/Crdt_Maps.thy ===== *)
theory Crdt_Maps
  imports Crdt_Counters Crdt_Sets
begin

text \<open>
  \<^verbatim>\<open>src/src/crdt/GCounterMap.ts\<close> and \<^verbatim>\<open>src/src/crdt/ORMap.ts\<close>: maps whose values are CRDTs.

  An \<^verbatim>\<open>ORMap\<close> is generic in its value type; the value's \<^verbatim>\<open>merge\<close> is an argument of the operations
  that call it, and the locale \<open>crdt_values\<close> is what the map relies on: that the values are a CRDT.
  From it the locale derives that the map is one. The keyset's identity (\<^verbatim>\<open>JSON.stringify\<close> on the id
  strings) is the argument \<open>stringify\<close> of \<open>ormap_empty\<close>. The JSON forms are not modelled.
\<close>

section \<open>GCounterMap\<close>

record ('k, 'v) kv_entry =
  kv_key :: 'k
  kv_value :: 'v

record 'k gcounter_map =
  gm_entries :: "(string, ('k, gcounter) kv_entry) jmap"
  gm_identity :: "'k \<Rightarrow> string"

definition gcountermap_empty :: "('k \<Rightarrow> string) \<Rightarrow> 'k gcounter_map" where
  "gcountermap_empty identity = \<lparr>gm_entries = [], gm_identity = identity\<rparr>"

definition gcountermap_increment ::
  "'k gcounter_map \<Rightarrow> string \<Rightarrow> 'k \<Rightarrow> js_number \<Rightarrow> counter_error + 'k gcounter_map" where
  "gcountermap_increment m replica key delta =
     (if js_less delta (Fin 0) then Inl NegativeDelta
      else if \<not> js_isFinite delta then Inl NonFiniteDelta
      else let ident = gm_identity m key; existing = jget (gm_entries m) ident in
        ebind (gcounter_increment (case existing of None \<Rightarrow> gcounter_empty | Some en \<Rightarrow> kv_value en) replica delta)
          (\<lambda>counter. Inr (m\<lparr>gm_entries := jset (gm_entries m) ident
              \<lparr>kv_key = (case existing of None \<Rightarrow> key | Some en \<Rightarrow> kv_key en), kv_value = counter\<rparr>\<rparr>)))"

definition gcountermap_value :: "'k gcounter_map \<Rightarrow> 'k \<Rightarrow> rat" where
  "gcountermap_value m key = (case jget (gm_entries m) (gm_identity m key) of
     None \<Rightarrow> 0 | Some en \<Rightarrow> gcounter_value (kv_value en))"

definition gcountermap_total :: "'k gcounter_map \<Rightarrow> rat" where
  "gcountermap_total m = foldl (\<lambda>tot en. tot + gcounter_value (kv_value en)) 0 (jvalues (gm_entries m))"

definition gcountermap_keys :: "'k gcounter_map \<Rightarrow> 'k list" where
  "gcountermap_keys m = map kv_key (jvalues (gm_entries m))"

definition gcountermap_has :: "'k gcounter_map \<Rightarrow> 'k \<Rightarrow> bool" where
  "gcountermap_has m key = jhas (gm_entries m) (gm_identity m key)"

text \<open>The loop both maps use to fold the other side's entries into a copy of their own.\<close>

definition kv_merge_step ::
  "('v \<Rightarrow> 'v \<Rightarrow> 'v) \<Rightarrow> (string, ('k, 'v) kv_entry) jmap \<Rightarrow> string \<times> ('k, 'v) kv_entry \<Rightarrow> (string, ('k, 'v) kv_entry) jmap" where
  "kv_merge_step merge nxt = (\<lambda>(ident, entry).
     case jget nxt ident of
       None \<Rightarrow> jset nxt ident entry
     | Some ours \<Rightarrow> jset nxt ident \<lparr>kv_key = kv_key ours, kv_value = merge (kv_value ours) (kv_value entry)\<rparr>)"

definition gcountermap_merge :: "'k gcounter_map \<Rightarrow> 'k gcounter_map \<Rightarrow> 'k gcounter_map" where
  "gcountermap_merge m other =
     m\<lparr>gm_entries := foldl (kv_merge_step gcounter_merge) (gm_entries m) (gm_entries other)\<rparr>"

definition gcountermap_equals :: "'k gcounter_map \<Rightarrow> 'k gcounter_map \<Rightarrow> bool" where
  "gcountermap_equals m other =
     (length (gm_entries m) = length (gm_entries other) \<and>
      list_all (\<lambda>(ident, entry). case jget (gm_entries other) ident of None \<Rightarrow> False
        | Some otherEntry \<Rightarrow> gcounter_equals (kv_value entry) (kv_value otherEntry)) (gm_entries m))"

section \<open>ORMap\<close>

record ('k, 'v) ormap =
  om_keyset :: "string orset"
  om_entries :: "(string, ('k, 'v) kv_entry) jmap"
  om_identity :: "'k \<Rightarrow> string"

definition ormap_empty :: "(string \<Rightarrow> string) \<Rightarrow> ('k \<Rightarrow> string) \<Rightarrow> ('k, 'v) ormap" where
  "ormap_empty stringify identity = \<lparr>om_keyset = orset_empty stringify, om_entries = [], om_identity = identity\<rparr>"

definition ormap_put :: "('k, 'v) ormap \<Rightarrow> string \<Rightarrow> 'k \<Rightarrow> 'v \<Rightarrow> (nat \<Rightarrow> string) \<Rightarrow> ('k, 'v) ormap option" where
  "ormap_put m replica key v draws =
     (let ident = om_identity m key in
      map_option (\<lambda>keyset. m\<lparr>om_keyset := keyset,
          om_entries := jset (om_entries m) ident \<lparr>kv_key = key, kv_value = v\<rparr>\<rparr>)
        (orset_add (om_keyset m) replica ident draws))"

definition ormap_get :: "('k, 'v) ormap \<Rightarrow> 'k \<Rightarrow> 'v option" where
  "ormap_get m key =
     (let ident = om_identity m key in
      if \<not> orset_has (om_keyset m) ident then None else map_option kv_value (jget (om_entries m) ident))"

definition ormap_update ::
  "('k, 'v) ormap \<Rightarrow> string \<Rightarrow> 'k \<Rightarrow> 'v \<Rightarrow> ('v \<Rightarrow> 'v) \<Rightarrow> (nat \<Rightarrow> string) \<Rightarrow> ('k, 'v) ormap option" where
  "ormap_update m replica key initial mutator draws =
     (let current = (case ormap_get m key of None \<Rightarrow> initial | Some v \<Rightarrow> v)
      in ormap_put m replica key (mutator current) draws)"

definition ormap_remove :: "('k, 'v) ormap \<Rightarrow> 'k \<Rightarrow> ('k, 'v) ormap" where
  "ormap_remove m key = m\<lparr>om_keyset := orset_remove (om_keyset m) (om_identity m key)\<rparr>"

definition ormap_has :: "('k, 'v) ormap \<Rightarrow> 'k \<Rightarrow> bool" where
  "ormap_has m key = orset_has (om_keyset m) (om_identity m key)"

definition ormap_keys :: "('k, 'v) ormap \<Rightarrow> 'k list" where
  "ormap_keys m = map (kv_key \<circ> snd) (filter (\<lambda>(ident, en). orset_has (om_keyset m) ident) (om_entries m))"

definition ormap_entriesArray :: "('k, 'v) ormap \<Rightarrow> ('k \<times> 'v) list" where
  "ormap_entriesArray m = map (\<lambda>(ident, en). (kv_key en, kv_value en))
     (filter (\<lambda>(ident, en). orset_has (om_keyset m) ident) (om_entries m))"

definition ormap_size :: "('k, 'v) ormap \<Rightarrow> nat" where
  "ormap_size m = length (filter (\<lambda>ident. orset_has (om_keyset m) ident) (jkeys (om_entries m)))"

definition ormap_merge :: "('v \<Rightarrow> 'v \<Rightarrow> 'v) \<Rightarrow> ('k, 'v) ormap \<Rightarrow> ('k, 'v) ormap \<Rightarrow> ('k, 'v) ormap" where
  "ormap_merge merge m other =
     (let allIds = sof (jkeys (om_entries m) @ jkeys (om_entries other));
          mergedEntries = foldl (\<lambda>out ident.
            case (jget (om_entries m) ident, jget (om_entries other) ident) of
              (Some ours, Some theirs) \<Rightarrow>
                jset out ident \<lparr>kv_key = kv_key ours, kv_value = merge (kv_value ours) (kv_value theirs)\<rparr>
            | (Some ours, None) \<Rightarrow> jset out ident ours
            | (None, Some theirs) \<Rightarrow> jset out ident theirs
            | (None, None) \<Rightarrow> out) [] allIds
      in m\<lparr>om_keyset := orset_merge (om_keyset m) (om_keyset other), om_entries := mergedEntries\<rparr>)"

section \<open>Maps of CRDTs are CRDTs\<close>

abbreviation kv_values :: "(string, ('k, 'v) kv_entry) jmap \<Rightarrow> string \<rightharpoonup> 'v" where
  "kv_values es \<equiv> (\<lambda>ident. map_option kv_value (jget es ident))"

lemma kv_merge_fold:
  "jwf es \<Longrightarrow> jwf m \<Longrightarrow>
   jwf (foldl (kv_merge_step f) m es) \<and>
   map_option kv_value (jget (foldl (kv_merge_step f) m es) q) =
     opt_join f (map_option kv_value (jget m q)) (map_option kv_value (jget es q))"
proof (induction es arbitrary: m)
  case (Cons e es)
  obtain k en where e: "e = (k, en)" by force
  have wf: "jwf es" and fresh: "jget es k = None"
    using Cons.prems(1) by (auto simp: e jwf_def jget_None_notin)
  have get: "jget (e # es) q = (if q = k then Some en else jget es q)" for q by (simp add: e jget_def)
  have step: "jwf (kv_merge_step f m e)"
    "map_option kv_value (jget (kv_merge_step f m e) q) =
      (if q = k then opt_join f (map_option kv_value (jget m q)) (Some (kv_value en))
       else map_option kv_value (jget m q))"
    using Cons.prems(2) by (auto simp: kv_merge_step_def e split: option.splits)
  show ?case
    using Cons.IH [OF wf step(1)] step(2) fresh by (cases "q = k") (auto simp: get)
qed simp

lemma ormap_merge_laws:
  assumes "jwf (om_entries m)" "jwf (om_entries n)"
  shows "jwf (om_entries (ormap_merge f m n))"
    "kv_values (om_entries (ormap_merge f m n)) = map_join f (kv_values (om_entries m)) (kv_values (om_entries n))"
    "om_keyset (ormap_merge f m n) = orset_merge (om_keyset m) (om_keyset n)"
    "om_identity (ormap_merge f m n) = om_identity m"
proof -
  let ?m = "jget (om_entries m)" and ?n = "jget (om_entries n)"
  let ?ks = "sof (jkeys (om_entries m) @ jkeys (om_entries n))"
  let ?g = "\<lambda>q. case (?m q, ?n q) of
      (Some ours, Some theirs) \<Rightarrow> \<lparr>kv_key = kv_key ours, kv_value = f (kv_value ours) (kv_value theirs)\<rparr>
    | (Some ours, None) \<Rightarrow> ours | (None, theirs) \<Rightarrow> the theirs"
  let ?F = "\<lambda>out q. case (?m q, ?n q) of
      (Some ours, Some theirs) \<Rightarrow> jset out q \<lparr>kv_key = kv_key ours, kv_value = f (kv_value ours) (kv_value theirs)\<rparr>
    | (Some ours, None) \<Rightarrow> jset out q ours
    | (None, Some theirs) \<Rightarrow> jset out q theirs
    | (None, None) \<Rightarrow> out"
  let ?P = "\<lambda>q. ?m q \<noteq> None \<or> ?n q \<noteq> None"
  have F: "?F out q = (if ?P q then jset out q (?g q) else out)" for out q
    by (cases "?m q"; cases "?n q") simp_all
  have es: "om_entries (ormap_merge f m n) = foldl ?F [] ?ks" by (simp add: ormap_merge_def Let_def)
  show "jwf (om_entries (ormap_merge f m n))"
    unfolding es by (rule foldl_build(2) [where F = ?F and P = ?P and g = ?g, OF F]) simp
  have "jget (foldl ?F [] ?ks) q = (if ?P q then Some (?g q) else None)" for q
    unfolding foldl_build(1) [where F = ?F and P = ?P and g = ?g, OF F]
    by (auto simp: jkeys_set)
  then show "kv_values (om_entries (ormap_merge f m n)) = map_join f (kv_values (om_entries m)) (kv_values (om_entries n))"
    unfolding es map_join_def by (intro ext) (auto split: option.splits)
qed (simp_all add: ormap_merge_def Let_def)

definition ormap_ok :: "('v \<Rightarrow> bool) \<Rightarrow> ('k, 'v) ormap \<Rightarrow> bool" where
  "ormap_ok vinv m \<longleftrightarrow> orset_ok (om_keyset m) \<and> jwf (om_entries m) \<and>
     (\<forall>q v. kv_values (om_entries m) q = Some v \<longrightarrow> vinv v)"

definition ormap_abs :: "('v \<Rightarrow> 'a) \<Rightarrow> ('k, 'v) ormap \<Rightarrow> orset_abs \<times> (string \<rightharpoonup> 'a)" where
  "ormap_abs vabs m = (orset_abs (om_keyset m), \<lambda>q. map_option vabs (kv_values (om_entries m) q))"

definition ormap_join ::
  "('a \<Rightarrow> 'a \<Rightarrow> 'a) \<Rightarrow> orset_abs \<times> (string \<rightharpoonup> 'a) \<Rightarrow> orset_abs \<times> (string \<rightharpoonup> 'a) \<Rightarrow> orset_abs \<times> (string \<rightharpoonup> 'a)" where
  "ormap_join vjoin x y = (orset_join (fst x) (fst y), map_join vjoin (snd x) (snd y))"

locale crdt_values = crdt merge inv abs join
  for merge :: "'v \<Rightarrow> 'v \<Rightarrow> 'v" and inv :: "'v \<Rightarrow> bool" and abs :: "'v \<Rightarrow> 'a" and join :: "'a \<Rightarrow> 'a \<Rightarrow> 'a"
begin

lemma opt_join_inv:
  "opt_join merge x y = Some v \<Longrightarrow> (\<And>w. x = Some w \<Longrightarrow> inv w) \<Longrightarrow> (\<And>w. y = Some w \<Longrightarrow> inv w) \<Longrightarrow> inv v"
  by (cases x; cases y) (auto intro: merge_inv)

lemma opt_join_abs:
  "(\<And>w. x = Some w \<Longrightarrow> inv w) \<Longrightarrow> (\<And>w. y = Some w \<Longrightarrow> inv w) \<Longrightarrow>
   map_option abs (opt_join merge x y) = opt_join join (map_option abs x) (map_option abs y)"
  by (cases x; cases y) (auto simp: merge_abs)

end

sublocale crdt_values \<subseteq> om: crdt "ormap_merge merge" "ormap_ok inv" "ormap_abs abs" "ormap_join join"
proof unfold_locales
  fix x y z
  have vals: "inv v" if "ormap_ok inv m" "kv_values (om_entries m) q = Some v" for m q v
    using that unfolding ormap_ok_def by blast
  have val: "inv (kv_value e)" if "ormap_ok inv m" "jget (om_entries m) q = Some e" for m q e
    using vals [OF that(1), of q "kv_value e"] that(2) by simp
  show "ormap_ok inv (ormap_merge merge x y)" if ok: "ormap_ok inv x" "ormap_ok inv y"
  proof -
    have wf: "jwf (om_entries x)" "jwf (om_entries y)" "orset_ok (om_keyset x)" "orset_ok (om_keyset y)"
      using ok by (auto simp: ormap_ok_def)
    have "inv v" if "kv_values (om_entries (ormap_merge merge x y)) q = Some v" for q v
    proof -
      have "opt_join merge (kv_values (om_entries x) q) (kv_values (om_entries y) q) = Some v"
        using that fun_cong [OF ormap_merge_laws(2) [OF wf(1,2), of merge], of q] by (simp add: map_join_def)
      then show ?thesis by (rule opt_join_inv) (use vals ok in blast)+
    qed
    then show ?thesis
      unfolding ormap_ok_def using ormap_merge_laws(1,3) [OF wf(1,2)] orset_merge_ok [OF wf(3,4)] by simp
  qed
  show "ormap_abs abs (ormap_merge merge x y) = ormap_join join (ormap_abs abs x) (ormap_abs abs y)"
    if ok: "ormap_ok inv x" "ormap_ok inv y"
  proof -
    have wf: "jwf (om_entries x)" "jwf (om_entries y)" "orset_ok (om_keyset x)" "orset_ok (om_keyset y)"
      using ok by (auto simp: ormap_ok_def)
    have "map_option abs (kv_values (om_entries (ormap_merge merge x y)) q) =
        opt_join join (map_option abs (kv_values (om_entries x) q)) (map_option abs (kv_values (om_entries y) q))" for q
    proof -
      have "map_option abs (opt_join merge (kv_values (om_entries x) q) (kv_values (om_entries y) q)) =
          opt_join join (map_option abs (kv_values (om_entries x) q)) (map_option abs (kv_values (om_entries y) q))"
        by (rule opt_join_abs) (use vals ok in blast)+
      then show ?thesis
        using fun_cong [OF ormap_merge_laws(2) [OF wf(1,2), of merge], of q] by (simp add: map_join_def)
    qed
    then show ?thesis
      by (simp add: ormap_abs_def ormap_join_def map_join_def ormap_merge_laws(3) [OF wf(1,2)] orset_merge_abs [OF wf(3,4)])
  qed
  show "ormap_join join (ormap_abs abs x) (ormap_abs abs x) = ormap_abs abs x" if ok: "ormap_ok inv x"
  proof -
    have "map_join join (snd (ormap_abs abs x)) (snd (ormap_abs abs x)) = snd (ormap_abs abs x)"
      using val [OF ok] by (intro map_join_idem) (auto simp: ormap_abs_def join_idem)
    with ok show ?thesis by (simp add: ormap_join_def ormap_ok_def ormap_abs_def ors.join_idem)
  qed
  show "ormap_join join (ormap_abs abs x) (ormap_abs abs y) = ormap_join join (ormap_abs abs y) (ormap_abs abs x)"
    if ok: "ormap_ok inv x" "ormap_ok inv y"
  proof -
    have "map_join join (snd (ormap_abs abs x)) (snd (ormap_abs abs y)) = map_join join (snd (ormap_abs abs y)) (snd (ormap_abs abs x))"
      using val [OF ok(1)] val [OF ok(2)] by (intro map_join_comm) (auto simp: ormap_abs_def intro: join_comm)
    moreover have "orset_join (orset_abs (om_keyset x)) (orset_abs (om_keyset y)) = orset_join (orset_abs (om_keyset y)) (orset_abs (om_keyset x))"
      using ok by (intro ors.join_comm) (auto simp: ormap_ok_def)
    ultimately show ?thesis by (simp add: ormap_join_def ormap_abs_def)
  qed
  show "ormap_join join (ormap_join join (ormap_abs abs x) (ormap_abs abs y)) (ormap_abs abs z) =
      ormap_join join (ormap_abs abs x) (ormap_join join (ormap_abs abs y) (ormap_abs abs z))"
    if ok: "ormap_ok inv x" "ormap_ok inv y" "ormap_ok inv z"
  proof -
    have "map_join join (map_join join (snd (ormap_abs abs x)) (snd (ormap_abs abs y))) (snd (ormap_abs abs z)) =
        map_join join (snd (ormap_abs abs x)) (map_join join (snd (ormap_abs abs y)) (snd (ormap_abs abs z)))"
      using val [OF ok(1)] val [OF ok(2)] val [OF ok(3)]
      by (intro map_join_assoc) (auto simp: ormap_abs_def intro: join_assoc)
    moreover have "orset_join (orset_join (orset_abs (om_keyset x)) (orset_abs (om_keyset y))) (orset_abs (om_keyset z)) =
        orset_join (orset_abs (om_keyset x)) (orset_join (orset_abs (om_keyset y)) (orset_abs (om_keyset z)))"
      using ok by (intro ors.join_assoc) (auto simp: ormap_ok_def)
    ultimately show ?thesis by (simp add: ormap_join_def ormap_abs_def)
  qed
qed


section \<open>The instances\<close>

interpretation gcv: crdt_values gcounter_merge "gcounter_ok U" jget "map_join max" for U
  by (intro crdt_values.intro gc.crdt_axioms)

text \<open>A counter map is the map of its counters.\<close>

definition gcountermap_ok :: "string set \<Rightarrow> 'k gcounter_map \<Rightarrow> bool" where
  "gcountermap_ok U m \<longleftrightarrow> jwf (gm_entries m) \<and> (\<forall>q c. kv_values (gm_entries m) q = Some c \<longrightarrow> gcounter_ok U c)"

definition gcountermap_abs :: "'k gcounter_map \<Rightarrow> string \<rightharpoonup> string \<rightharpoonup> rat" where
  "gcountermap_abs m = (\<lambda>q. map_option jget (kv_values (gm_entries m) q))"

lemma gcountermap_merge_laws:
  assumes "gcountermap_ok U m" "gcountermap_ok U n"
  shows "gcountermap_ok U (gcountermap_merge m n)"
    "gcountermap_abs (gcountermap_merge m n) = map_join (map_join max) (gcountermap_abs m) (gcountermap_abs n)"
proof -
  have wf: "jwf (gm_entries m)" "jwf (gm_entries n)" using assms by (auto simp: gcountermap_ok_def)
  have get: "kv_values (gm_entries (gcountermap_merge m n)) q =
      opt_join gcounter_merge (kv_values (gm_entries m) q) (kv_values (gm_entries n) q)" for q
    using kv_merge_fold [OF wf(2,1)] by (simp add: gcountermap_merge_def)
  have vals: "kv_values (gm_entries m) q = Some c \<Longrightarrow> gcounter_ok U c" "kv_values (gm_entries n) q = Some c \<Longrightarrow> gcounter_ok U c" for q c
    using assms unfolding gcountermap_ok_def by blast+
  have "gcounter_ok U c" if "kv_values (gm_entries (gcountermap_merge m n)) q = Some c" for q c
    using gcv.opt_join_inv [OF that [unfolded get]] vals by blast
  then show "gcountermap_ok U (gcountermap_merge m n)"
    using kv_merge_fold [OF wf(2,1)] by (simp add: gcountermap_ok_def gcountermap_merge_def)
  show "gcountermap_abs (gcountermap_merge m n) = map_join (map_join max) (gcountermap_abs m) (gcountermap_abs n)"
    unfolding gcountermap_abs_def map_join_def [of "map_join max"] get
    by (intro ext gcv.opt_join_abs) (use vals in blast)+
qed

interpretation gcm: crdt gcountermap_merge "gcountermap_ok U" gcountermap_abs "map_join (map_join max)" for U
proof unfold_locales
  fix x y z :: "'a gcounter_map"
  show "map_join (map_join max) (gcountermap_abs x) (gcountermap_abs x) = gcountermap_abs x"
    by (intro map_join_idem) simp
  show "map_join (map_join max) (gcountermap_abs x) (gcountermap_abs y) = map_join (map_join max) (gcountermap_abs y) (gcountermap_abs x)"
    by (intro map_join_comm) (simp add: max.commute)
  show "map_join (map_join max) (map_join (map_join max) (gcountermap_abs x) (gcountermap_abs y)) (gcountermap_abs z) =
      map_join (map_join max) (gcountermap_abs x) (map_join (map_join max) (gcountermap_abs y) (gcountermap_abs z))"
    by (intro map_join_assoc) (simp add: max.assoc)
qed (rule gcountermap_merge_laws; assumption)+

section \<open>Properties\<close>

text \<open>An observed-remove map whose values are grow-only counters converges: replicas that
  merged the same maps have the same keys present and the same count under every key, whatever was
  removed and re-added concurrently.\<close>

theorem ormap_of_counters_converges:
  fixes t u :: "('k, gcounter) ormap merge_tree"
  assumes "finite U" "card U \<le> MAX_CRDT_ENTRIES" "sources t = sources u"
    and "\<forall>m \<in> sources t. ormap_ok (gcounter_ok U) m \<and> om_identity m = ident \<and> or_identity (om_keyset m) = stringify"
  shows "\<forall>k. ormap_has (eval_merge (ormap_merge gcounter_merge) t) k = ormap_has (eval_merge (ormap_merge gcounter_merge) u) k \<and>
    map_option gcounter_value (ormap_get (eval_merge (ormap_merge gcounter_merge) t) k) =
      map_option gcounter_value (ormap_get (eval_merge (ormap_merge gcounter_merge) u) k)"
proof
  fix k
  let ?t = "eval_merge (ormap_merge gcounter_merge) t" and ?u = "eval_merge (ormap_merge gcounter_merge) u"
  have ok: "\<forall>m \<in> sources t. ormap_ok (gcounter_ok U) m" using assms(4) by simp
  have oks: "ormap_ok (gcounter_ok U) ?t" "ormap_ok (gcounter_ok U) ?u" using ok gcv.om.eval_inv assms(3) by blast+
  have ids: "om_identity (eval_merge (ormap_merge gcounter_merge) x) = ident \<and>
      or_identity (om_keyset (eval_merge (ormap_merge gcounter_merge) x)) = stringify"
    if "\<forall>m \<in> sources x. om_identity m = ident \<and> or_identity (om_keyset m) = stringify" for x
    using that by (induction x) (auto simp: ormap_merge_def orset_merge_elements(4) Let_def)
  have idt: "om_identity ?t = ident" "or_identity (om_keyset ?t) = stringify"
    and idu: "om_identity ?u = ident" "or_identity (om_keyset ?u) = stringify"
    using ids [of t] ids [of u] assms(3,4) by auto
  have eq: "ormap_abs jget ?t = ormap_abs jget ?u" by (rule gcv.om.convergence [OF ok assms(3)])
  then have has: "orset_has (om_keyset ?t) q = orset_has (om_keyset ?u) q" for q
    by (simp add: ormap_abs_def orset_abs_def orset_has_live idt idu)
  have vals: "map_option jget (kv_values (om_entries ?t) q) = map_option jget (kv_values (om_entries ?u) q)" for q
    using fun_cong [OF arg_cong [OF eq, of snd], of q] by (simp add: ormap_abs_def)
  have wf: "kv_values (om_entries ?t) q = Some c \<Longrightarrow> jwf c" "kv_values (om_entries ?u) q = Some c \<Longrightarrow> jwf c" for q c
    using oks unfolding ormap_ok_def gcounter_ok_def by blast+
  have "map_option gcounter_value (kv_values (om_entries ?t) q) = map_option gcounter_value (kv_values (om_entries ?u) q)" for q
  proof (cases "kv_values (om_entries ?t) q")
    case None
    with vals [of q] have "kv_values (om_entries ?u) q = None"
      by (metis map_option_is_None option.map_disc_iff)
    with None show ?thesis by (simp only: option.map)
  next
    case (Some c)
    have u: "Some (jget c) = map_option jget (kv_values (om_entries ?u) q)"
      using vals [of q] unfolding Some option.map .
    obtain d where d: "kv_values (om_entries ?u) q = Some d"
      using u by (cases "jget (om_entries ?u) q") auto
    have "jget c = jget d" using u unfolding d option.map by (rule option.inject [THEN iffD1])
    note d = d this
    have "gcounter_value c = gcounter_value d"
      by (rule gcounter_value_cong [OF wf(1) [OF Some] wf(2) [OF d(1)] d(2)])
    with Some d show ?thesis by (simp only: option.map)
  qed
  with has show "ormap_has ?t k = ormap_has ?u k \<and>
      map_option gcounter_value (ormap_get ?t k) = map_option gcounter_value (ormap_get ?u k)"
    by (simp add: ormap_has_def ormap_get_def idt idu Let_def)
qed

definition demo_om :: "(string, gcounter) ormap" where
  "demo_om = \<lparr>om_keyset = demo_or, om_entries = [(''apple'', \<lparr>kv_key = ''apple'', kv_value = demo_a\<rparr>)], om_identity = \<lambda>k. k\<rparr>"

definition demo_om2 :: "(string, gcounter) ormap" where
  "demo_om2 = \<lparr>om_keyset = demo_or2, om_entries = [(''apple'', \<lparr>kv_key = ''apple'', kv_value = demo_b\<rparr>)], om_identity = \<lambda>k. k\<rparr>"



end
