(* ===== verification/Crdt_Registers.thy ===== *)
theory Crdt_Registers
  imports Crdt_Spec Crdt_Wire
begin

text \<open>
  \<^verbatim>\<open>src/src/crdt/LWWRegister.ts\<close>, \<^verbatim>\<open>src/src/crdt/LWWMap.ts\<close> and \<^verbatim>\<open>src/src/crdt/MVRegister.ts\<close>.

  \<^verbatim>\<open>null\<close> is \<open>None\<close>. Timestamps are finite numbers (what the decoder admits and the clock yields).
  Replica ids compare by code units, which is the list order on characters. The map keys'
  identity is a field. The JSON forms of \<^verbatim>\<open>LWWMap\<close> and \<^verbatim>\<open>MVRegister\<close> serialise keys and values of
  arbitrary types and are not modelled; neither is \<^verbatim>\<open>JSON.stringify\<close> as the deduplication key of
  \<^verbatim>\<open>MVRegister.merge\<close>, whose equality is that of value and clock.
\<close>

section \<open>LWWRegister\<close>

record 'v lww_register =
  lww_value :: "'v option"
  lww_timestamp :: rat
  lww_replica :: string

definition lww_empty :: "'v lww_register" where
  "lww_empty = \<lparr>lww_value = None, lww_timestamp = 0, lww_replica = ''''\<rparr>"

definition lww_assign :: "'v lww_register \<Rightarrow> string \<Rightarrow> 'v option \<Rightarrow> rat \<Rightarrow> 'v lww_register" where
  "lww_assign r replica v timestamp = \<lparr>lww_value = v, lww_timestamp = timestamp, lww_replica = replica\<rparr>"

definition lww_merge :: "'v lww_register \<Rightarrow> 'v lww_register \<Rightarrow> 'v lww_register" where
  "lww_merge r other =
     (if lww_timestamp r = 0 then other
      else if lww_timestamp other = 0 then r
      else if lww_timestamp other > lww_timestamp r then other
      else if lww_timestamp other < lww_timestamp r then r
      else if lww_replica other > lww_replica r then other else r)"

definition lww_equals :: "'v lww_register \<Rightarrow> 'v lww_register \<Rightarrow> bool" where
  "lww_equals r other =
     (lww_timestamp r = lww_timestamp other \<and> lww_replica r = lww_replica other \<and> lww_value r = lww_value other)"

text \<open>The JSON form of a register whose value is itself JSON (\<open>now\<close> is the clock at decoding).\<close>

definition lww_toJSON :: "json lww_register \<Rightarrow> json" where
  "lww_toJSON r = JObj [(''kind'', JStr ''LWWRegister''),
     (''value'', case lww_value r of None \<Rightarrow> JNull | Some v \<Rightarrow> v),
     (''timestamp'', JNum (Fin (lww_timestamp r))), (''replica'', JStr (lww_replica r))]"

definition lww_fromJSON :: "rat \<Rightarrow> json \<Rightarrow> json lww_register decoded" where
  "lww_fromJSON now j =
     ebind (js_prop j ''kind'') (\<lambda>kind.
     ebind (ensure (kind = JStr ''LWWRegister'') UnexpectedKind) (\<lambda>_.
     ebind (js_prop j ''timestamp'') (\<lambda>tj. ebind (assertPlausibleTimestamp tj now) (\<lambda>t.
     ebind (js_prop j ''replica'') (\<lambda>rj. ebind (assertString rj) (\<lambda>replica.
     ebind (js_prop j ''value'') (\<lambda>v.
       Inr \<lparr>lww_value = (if v = JNull then None else Some v), lww_timestamp = t, lww_replica = replica\<rparr>)))))))"

section \<open>LWWMap\<close>

record ('k, 'v) lww_entry =
  le_key :: 'k
  le_register :: "'v lww_register"

record ('k, 'v) lww_map =
  lm_entries :: "(string, ('k, 'v) lww_entry) jmap"
  lm_identity :: "'k \<Rightarrow> string"

definition lwwmap_empty :: "('k \<Rightarrow> string) \<Rightarrow> ('k, 'v) lww_map" where
  "lwwmap_empty identity = \<lparr>lm_entries = [], lm_identity = identity\<rparr>"

definition lwwmap_write :: "('k, 'v) lww_map \<Rightarrow> string \<Rightarrow> 'k \<Rightarrow> 'v option \<Rightarrow> rat \<Rightarrow> ('k, 'v) lww_map" where
  "lwwmap_write m replica key v timestamp =
     (let id = lm_identity m key; existing = jget (lm_entries m) id;
          register = lww_assign (case existing of None \<Rightarrow> lww_empty | Some en \<Rightarrow> le_register en) replica v timestamp
      in m\<lparr>lm_entries := jset (lm_entries m) id
             \<lparr>le_key = (case existing of None \<Rightarrow> key | Some en \<Rightarrow> le_key en), le_register = register\<rparr>\<rparr>)"

definition lwwmap_put :: "('k, 'v) lww_map \<Rightarrow> string \<Rightarrow> 'k \<Rightarrow> 'v \<Rightarrow> rat \<Rightarrow> ('k, 'v) lww_map" where
  "lwwmap_put m replica key v timestamp = lwwmap_write m replica key (Some v) timestamp"

definition lwwmap_remove :: "('k, 'v) lww_map \<Rightarrow> string \<Rightarrow> 'k \<Rightarrow> rat \<Rightarrow> ('k, 'v) lww_map" where
  "lwwmap_remove m replica key timestamp = lwwmap_write m replica key None timestamp"

definition lwwmap_get :: "('k, 'v) lww_map \<Rightarrow> 'k \<Rightarrow> 'v option" where
  "lwwmap_get m key = (case jget (lm_entries m) (lm_identity m key) of
     None \<Rightarrow> None | Some en \<Rightarrow> lww_value (le_register en))"

definition lwwmap_has :: "('k, 'v) lww_map \<Rightarrow> 'k \<Rightarrow> bool" where
  "lwwmap_has m key = (lwwmap_get m key \<noteq> None)"

definition lwwmap_keys :: "('k, 'v) lww_map \<Rightarrow> 'k list" where
  "lwwmap_keys m = map le_key (filter (\<lambda>en. lww_value (le_register en) \<noteq> None) (jvalues (lm_entries m)))"

definition lwwmap_entriesArray :: "('k, 'v) lww_map \<Rightarrow> ('k \<times> 'v) list" where
  "lwwmap_entriesArray m = map (\<lambda>en. (le_key en, the (lww_value (le_register en))))
     (filter (\<lambda>en. lww_value (le_register en) \<noteq> None) (jvalues (lm_entries m)))"

definition lwwmap_size :: "('k, 'v) lww_map \<Rightarrow> nat" where
  "lwwmap_size m = length (filter (\<lambda>en. lww_value (le_register en) \<noteq> None) (jvalues (lm_entries m)))"

definition lwwmap_merge_step ::
  "(string, ('k, 'v) lww_entry) jmap \<Rightarrow> string \<times> ('k, 'v) lww_entry \<Rightarrow> (string, ('k, 'v) lww_entry) jmap" where
  "lwwmap_merge_step nxt = (\<lambda>(id, entry).
     case jget nxt id of
       None \<Rightarrow> jset nxt id entry
     | Some ours \<Rightarrow> jset nxt id \<lparr>le_key = le_key ours, le_register = lww_merge (le_register ours) (le_register entry)\<rparr>)"

definition lwwmap_merge :: "('k, 'v) lww_map \<Rightarrow> ('k, 'v) lww_map \<Rightarrow> ('k, 'v) lww_map" where
  "lwwmap_merge m other = m\<lparr>lm_entries := foldl lwwmap_merge_step (lm_entries m) (lm_entries other)\<rparr>"

definition lwwmap_equals :: "('k, 'v) lww_map \<Rightarrow> ('k, 'v) lww_map \<Rightarrow> bool" where
  "lwwmap_equals m other =
     (length (lm_entries m) = length (lm_entries other) \<and>
      list_all (\<lambda>(id, entry). case jget (lm_entries other) id of None \<Rightarrow> False
        | Some otherEntry \<Rightarrow> lww_equals (le_register entry) (le_register otherEntry)) (lm_entries m))"

section \<open>MVRegister\<close>

record 'v mv_entry =
  mv_value :: 'v
  mv_vc :: "(string, nat) jmap"

type_synonym 'v mv_register = "'v mv_entry list"

definition mv_empty :: "'v mv_register" where
  "mv_empty = []"

fun vc_max_loop :: "(string, nat) jmap \<Rightarrow> (string \<times> nat) list \<Rightarrow> (string, nat) jmap" where
  "vc_max_loop mx [] = mx"
| "vc_max_loop mx ((replicaId, version) # vc) =
     vc_max_loop (if version > (case jget mx replicaId of None \<Rightarrow> 0 | Some v \<Rightarrow> v)
                  then jset mx replicaId version else mx) vc"

definition mv_assign :: "'v mv_register \<Rightarrow> string \<Rightarrow> 'v \<Rightarrow> 'v mv_register" where
  "mv_assign entries replica v =
     (let mx = foldl (\<lambda>mx entry. vc_max_loop mx (mv_vc entry)) [] entries
      in [\<lparr>mv_value = v, mv_vc = jset mx replica ((case jget mx replica of None \<Rightarrow> 0 | Some n \<Rightarrow> n) + 1)\<rparr>])"

definition mv_values :: "'v mv_register \<Rightarrow> 'v list" where
  "mv_values entries = map mv_value entries"

definition mv_hasConflict :: "'v mv_register \<Rightarrow> bool" where
  "mv_hasConflict entries = (length entries > 1)"

fun vc_dominates_loop :: "(string, nat) jmap \<Rightarrow> (string \<times> nat) list \<Rightarrow> bool \<Rightarrow> bool option" where
  "vc_dominates_loop a [] strict = Some strict"
| "vc_dominates_loop a ((k, vb) # b) strict =
     (let va = (case jget a k of None \<Rightarrow> 0 | Some v \<Rightarrow> v) in
      if va < vb then None else vc_dominates_loop a b (strict \<or> va > vb))"

definition vcStrictlyDominates :: "(string, nat) jmap \<Rightarrow> (string, nat) jmap \<Rightarrow> bool" where
  "vcStrictlyDominates a b =
     (case vc_dominates_loop a b False of
        None \<Rightarrow> False
      | Some strict \<Rightarrow> strict \<or> list_ex (\<lambda>(k, va). \<not> jhas b k \<and> va > 0) a)"

definition vcEqual :: "(string, nat) jmap \<Rightarrow> (string, nat) jmap \<Rightarrow> bool" where
  "vcEqual left right = (length left = length right \<and> list_all (\<lambda>(k, v). jget right k = Some v) left)"

text \<open>The merge loop, over positions of the concatenated array; \<open>dominated\<close> holds the positions
  already dropped. (The source's set holds the entry objects; when one object sits at two positions,
  the two carry the same clock, so neither dominates the other and both fall together.)\<close>

fun mv_merge_loop ::
  "'v mv_entry list \<Rightarrow> nat list \<Rightarrow> nat list \<Rightarrow> ('v \<times> (string \<times> nat) list) list \<Rightarrow> 'v mv_entry list \<Rightarrow> 'v mv_entry list" where
  "mv_merge_loop all [] dominated seen survivors = survivors"
| "mv_merge_loop all (i # is) dominated seen survivors =
     (if i \<in> set dominated then mv_merge_loop all is dominated seen survivors
      else if list_ex (\<lambda>j. j \<noteq> i \<and> j \<notin> set dominated \<and> vcStrictlyDominates (mv_vc (all ! j)) (mv_vc (all ! i)))
                [0..<length all]
      then mv_merge_loop all is (i # dominated) seen survivors
      else let key = (mv_value (all ! i), sort_key fst (mv_vc (all ! i))) in
        if key \<in> set seen then mv_merge_loop all is dominated seen survivors
        else mv_merge_loop all is dominated (key # seen) (survivors @ [all ! i]))"

definition mv_merge :: "'v mv_register \<Rightarrow> 'v mv_register \<Rightarrow> 'v mv_register" where
  "mv_merge entries other =
     (let all = entries @ other in mv_merge_loop all [0..<length all] [] [] [])"

definition mv_equals :: "'v mv_register \<Rightarrow> 'v mv_register \<Rightarrow> bool" where
  "mv_equals entries other =
     (length entries = length other \<and>
      list_all (\<lambda>a. list_ex (\<lambda>b. mv_value a = mv_value b \<and> vcEqual (mv_vc a) (mv_vc b)) other) entries)"

section \<open>LWWRegister: the laws\<close>

text \<open>Registers are coherent when a stamp determines what was written (\<open>h\<close>), and the zero stamp is
  the empty register's.\<close>

definition lww_ok :: "(rat \<Rightarrow> string \<Rightarrow> 'v option) \<Rightarrow> 'v lww_register \<Rightarrow> bool" where
  "lww_ok h r \<longleftrightarrow> (if lww_timestamp r = 0 then r = lww_empty else lww_value r = h (lww_timestamp r) (lww_replica r))"

lemma lww_ok_eq:
  assumes "lww_ok h a" "lww_ok h b" "lww_timestamp a = lww_timestamp b" "lww_replica a = lww_replica b"
  shows "a = b"
  using assms by (cases a; cases b) (auto simp: lww_ok_def lww_empty_def split: if_splits)

lemma lww_merge_select: "lww_merge a b = a \<or> lww_merge a b = b"
  by (simp add: lww_merge_def)

interpretation lww: crdt lww_merge "lww_ok h" "\<lambda>r. r" lww_merge for h
proof unfold_locales
  fix x y z :: "'a lww_register"
  show "lww_ok h (lww_merge x y)" if "lww_ok h x" "lww_ok h y"
    using that lww_merge_select [of x y] by auto
  show "lww_merge x x = x" by (simp add: lww_merge_def)
  show "lww_merge x y = lww_merge y x" if "lww_ok h x" "lww_ok h y"
  proof (cases "lww_timestamp x = lww_timestamp y \<and> lww_replica x = lww_replica y")
    case True
    with that have "x = y" by (blast intro: lww_ok_eq)
    then show ?thesis by simp
  next
    case False
    with that show ?thesis by (auto simp: lww_merge_def lww_ok_def)
  qed
  show "lww_merge (lww_merge x y) z = lww_merge x (lww_merge y z)"
    by (simp add: lww_merge_def)
qed simp_all

definition stamp_le :: "'v lww_register \<Rightarrow> 'v lww_register \<Rightarrow> bool" where
  "stamp_le a b \<longleftrightarrow> lww_timestamp a = 0 \<or> lww_timestamp b \<noteq> 0 \<and>
     (lww_timestamp a < lww_timestamp b \<or> lww_timestamp a = lww_timestamp b \<and> lww_replica a \<le> lww_replica b)"

lemma stamp_le_refl [simp]: "stamp_le a a" by (simp add: stamp_le_def)

lemma stamp_le_trans: "stamp_le a b \<Longrightarrow> stamp_le b c \<Longrightarrow> stamp_le a c"
  by (auto simp: stamp_le_def)

lemma lww_merge_stamps: "stamp_le a (lww_merge a b)" "stamp_le b (lww_merge a b)"
  by (auto simp: stamp_le_def lww_merge_def)

lemma lww_eval_latest:
  "eval_merge lww_merge t \<in> sources t \<and> (\<forall>s \<in> sources t. stamp_le s (eval_merge lww_merge t))"
proof (induction t)
  case (Merged l r)
  let ?l = "eval_merge lww_merge l" and ?r = "eval_merge lww_merge r"
  have "stamp_le s (lww_merge ?l ?r)" if "s \<in> sources l \<union> sources r" for s
    using that Merged lww_merge_stamps(1) [of ?l ?r] lww_merge_stamps(2) [of ?r ?l] by (auto intro: stamp_le_trans)
  with Merged lww_merge_select [of ?l ?r] show ?case by auto
qed simp

section \<open>LWWMap: the laws\<close>

definition lwwmap_regs :: "('k, 'v) lww_map \<Rightarrow> string \<rightharpoonup> 'v lww_register" where
  "lwwmap_regs m = (\<lambda>ident. map_option le_register (jget (lm_entries m) ident))"

definition lwwmap_ok :: "(string \<Rightarrow> rat \<Rightarrow> string \<Rightarrow> 'v option) \<Rightarrow> ('k, 'v) lww_map \<Rightarrow> bool" where
  "lwwmap_ok h m \<longleftrightarrow> jwf (lm_entries m) \<and> (\<forall>ident r. lwwmap_regs m ident = Some r \<longrightarrow> lww_ok (h ident) r)"

lemma lwwmap_merge_fold:
  "jwf es \<Longrightarrow> jwf m \<Longrightarrow>
   jwf (foldl lwwmap_merge_step m es) \<and>
   map_option le_register (jget (foldl lwwmap_merge_step m es) ident) =
     opt_join lww_merge (map_option le_register (jget m ident)) (map_option le_register (jget es ident))"
proof (induction es arbitrary: m)
  case (Cons e es)
  obtain k en where e: "e = (k, en)" by force
  have wf: "jwf es" and fresh: "jget es k = None"
    using Cons.prems(1) by (auto simp: e jwf_def jget_None_notin)
  have get: "jget (e # es) q = (if q = k then Some en else jget es q)" for q by (simp add: e jget_def)
  have step: "jwf (lwwmap_merge_step m e)"
    "map_option le_register (jget (lwwmap_merge_step m e) ident) =
      (if ident = k then opt_join lww_merge (map_option le_register (jget m ident)) (Some (le_register en))
       else map_option le_register (jget m ident))"
    using Cons.prems(2) by (auto simp: lwwmap_merge_step_def e split: option.splits)
  show ?case
    using Cons.IH [OF wf step(1)] step(2) fresh by (cases "ident = k") (auto simp: get)
qed simp

lemma lwwmap_merge_regs:
  "jwf (lm_entries m) \<Longrightarrow> jwf (lm_entries n) \<Longrightarrow>
   jwf (lm_entries (lwwmap_merge m n)) \<and> lwwmap_regs (lwwmap_merge m n) = map_join lww_merge (lwwmap_regs m) (lwwmap_regs n)"
  using lwwmap_merge_fold [of "lm_entries n" "lm_entries m"]
  by (auto simp: lwwmap_regs_def lwwmap_merge_def map_join_def fun_eq_iff)

interpretation lwm: crdt lwwmap_merge "lwwmap_ok h" lwwmap_regs "map_join lww_merge" for h
proof unfold_locales
  fix x y z
  show "lwwmap_ok h (lwwmap_merge x y)" if "lwwmap_ok h x" "lwwmap_ok h y"
  proof -
    have "lww_ok (h ident) r" if "map_join lww_merge (lwwmap_regs x) (lwwmap_regs y) ident = Some r" for ident r
      using that \<open>lwwmap_ok h x\<close> \<open>lwwmap_ok h y\<close>
      by (cases "lwwmap_regs x ident"; cases "lwwmap_regs y ident")
        (auto simp: map_join_def lwwmap_ok_def intro: lww.merge_inv)
    with that lwwmap_merge_regs [of x y] show ?thesis by (auto simp: lwwmap_ok_def)
  qed
  show "lwwmap_regs (lwwmap_merge x y) = map_join lww_merge (lwwmap_regs x) (lwwmap_regs y)"
    if "lwwmap_ok h x" "lwwmap_ok h y"
    using that lwwmap_merge_regs by (auto simp: lwwmap_ok_def)
  show "map_join lww_merge (lwwmap_regs x) (lwwmap_regs x) = lwwmap_regs x" if "lwwmap_ok h x"
  proof (rule map_join_idem)
    fix k v assume "lwwmap_regs x k = Some v"
    with that show "lww_merge v v = v" by (intro lww.join_idem [of "h k"]) (auto simp: lwwmap_ok_def)
  qed
  show "map_join lww_merge (lwwmap_regs x) (lwwmap_regs y) = map_join lww_merge (lwwmap_regs y) (lwwmap_regs x)"
    if "lwwmap_ok h x" "lwwmap_ok h y"
  proof (rule map_join_comm)
    fix k v w assume "lwwmap_regs x k = Some v" "lwwmap_regs y k = Some w"
    with that show "lww_merge v w = lww_merge w v"
      by (intro lww.join_comm [of "h k"]) (auto simp: lwwmap_ok_def)
  qed
  show "map_join lww_merge (map_join lww_merge (lwwmap_regs x) (lwwmap_regs y)) (lwwmap_regs z) =
      map_join lww_merge (lwwmap_regs x) (map_join lww_merge (lwwmap_regs y) (lwwmap_regs z))"
    if "lwwmap_ok h x" "lwwmap_ok h y" "lwwmap_ok h z"
  proof (rule map_join_assoc)
    fix k u v w assume "lwwmap_regs x k = Some u" "lwwmap_regs y k = Some v" "lwwmap_regs z k = Some w"
    with that show "lww_merge (lww_merge u v) w = lww_merge u (lww_merge v w)"
      by (intro lww.join_assoc [of "h k"]) (auto simp: lwwmap_ok_def)
  qed
qed

section \<open>MVRegister: the laws\<close>

definition clk :: "(string \<rightharpoonup> nat) \<Rightarrow> string \<Rightarrow> nat" where
  "clk m k = (case m k of None \<Rightarrow> 0 | Some v \<Rightarrow> v)"

lemma vc_dominates_loop_result:
  "vc_dominates_loop a b strict =
     (if \<exists>(k, vb) \<in> set b. clk (jget a) k < vb then None
      else Some (strict \<or> (\<exists>(k, vb) \<in> set b. vb < clk (jget a) k)))"
  by (induction a b strict rule: vc_dominates_loop.induct) (auto simp: clk_def Let_def)

text \<open>The clock comparison is the strict pointwise order.\<close>

lemma vcStrictlyDominates_iff:
  assumes "jwf a" "jwf b"
  shows "vcStrictlyDominates a b \<longleftrightarrow> clk (jget b) < clk (jget a)"
proof -
  have in_b: "(k, v) \<in> set b \<longleftrightarrow> jget b k = Some v" for k v using assms(2) by (rule jget_in_eq)
  have in_a: "(k, v) \<in> set a \<longleftrightarrow> jget a k = Some v" for k v using assms(1) by (rule jget_in_eq)
  have le: "(\<exists>(k, vb) \<in> set b. clk (jget a) k < vb) \<longleftrightarrow> \<not> clk (jget b) \<le> clk (jget a)"
  proof
    assume "\<exists>(k, vb) \<in> set b. clk (jget a) k < vb"
    then obtain k vb where "jget b k = Some vb" "clk (jget a) k < vb" by (auto simp: in_b)
    then have "clk (jget a) k < clk (jget b) k" by (simp add: clk_def)
    then show "\<not> clk (jget b) \<le> clk (jget a)" by (auto simp: le_fun_def not_le)
  next
    assume "\<not> clk (jget b) \<le> clk (jget a)"
    then obtain k where k: "clk (jget a) k < clk (jget b) k" by (auto simp: le_fun_def not_le)
    then obtain vb where "jget b k = Some vb" "clk (jget b) k = vb"
      by (cases "jget b k") (auto simp: clk_def)
    with k show "\<exists>(k, vb) \<in> set b. clk (jget a) k < vb" by (auto simp: in_b)
  qed
  have lt: "(\<exists>(k, vb) \<in> set b. vb < clk (jget a) k) \<or> list_ex (\<lambda>(k, va). \<not> jhas b k \<and> va > 0) a \<longleftrightarrow>
      \<not> clk (jget a) \<le> clk (jget b)"
  proof
    assume "(\<exists>(k, vb) \<in> set b. vb < clk (jget a) k) \<or> list_ex (\<lambda>(k, va). \<not> jhas b k \<and> va > 0) a"
    then have "\<exists>k. clk (jget b) k < clk (jget a) k"
    proof
      assume "\<exists>(k, vb) \<in> set b. vb < clk (jget a) k"
      then obtain k vb where "jget b k = Some vb" "vb < clk (jget a) k" by (auto simp: in_b)
      then show ?thesis by (intro exI [of _ k]) (simp add: clk_def [of "jget b"])
    next
      assume "list_ex (\<lambda>(k, va). \<not> jhas b k \<and> va > 0) a"
      then obtain k va where "jget a k = Some va" "jget b k = None" "va > 0"
        by (auto simp: list_ex_iff in_a jhas_iff)
      then show ?thesis by (intro exI [of _ k]) (simp add: clk_def)
    qed
    then show "\<not> clk (jget a) \<le> clk (jget b)" by (auto simp: le_fun_def not_le)
  next
    assume "\<not> clk (jget a) \<le> clk (jget b)"
    then obtain k where k: "clk (jget b) k < clk (jget a) k" by (auto simp: le_fun_def not_le)
    then obtain va where va: "jget a k = Some va" "clk (jget a) k = va"
      by (cases "jget a k") (auto simp: clk_def)
    show "(\<exists>(k, vb) \<in> set b. vb < clk (jget a) k) \<or> list_ex (\<lambda>(k, va). \<not> jhas b k \<and> va > 0) a"
    proof (cases "jget b k")
      case None
      have "(k, va) \<in> set a" using va in_a by simp
      with None k va show ?thesis by (auto simp: list_ex_iff jhas_iff clk_def)
    next
      case (Some vb)
      then have "(k, vb) \<in> set b" using in_b by simp
      with k Some show ?thesis by (auto simp: clk_def)
    qed
  qed
  show ?thesis
    unfolding vcStrictlyDominates_def vc_dominates_loop_result less_fun_def using le lt by auto
qed

type_synonym 'v mv_abs = "'v \<times> (string \<rightharpoonup> nat)"

definition mv_abs_entry :: "'v mv_entry \<Rightarrow> 'v mv_abs" where
  "mv_abs_entry e = (mv_value e, jget (mv_vc e))"

definition mv_abs :: "'v mv_register \<Rightarrow> 'v mv_abs set" where
  "mv_abs r = mv_abs_entry ` set r"

definition maximals :: "'v mv_abs set \<Rightarrow> 'v mv_abs set" where
  "maximals A = {x \<in> A. \<not> (\<exists>y \<in> A. clk (snd x) < clk (snd y))}"

definition mv_ok :: "'v mv_register \<Rightarrow> bool" where
  "mv_ok r \<longleftrightarrow> (\<forall>e \<in> set r. jwf (mv_vc e)) \<and> distinct (map mv_abs_entry r) \<and> maximals (mv_abs r) = mv_abs r"

lemma maximal_above:
  assumes "finite A" "x \<in> A"
  shows "\<exists>y \<in> maximals A. clk (snd x) \<le> clk (snd y)"
proof -
  obtain c where c: "c \<in> (clk \<circ> snd) ` A" "clk (snd x) \<le> c" "\<forall>d \<in> (clk \<circ> snd) ` A. c \<le> d \<longrightarrow> c = d"
    using finite_has_maximal2 [of "(clk \<circ> snd) ` A" "clk (snd x)"] assms by auto
  from c(1) obtain y where y: "y \<in> A" "c = clk (snd y)" by auto
  have "y \<in> maximals A"
    unfolding maximals_def
  proof (intro CollectI conjI notI)
    assume "\<exists>z \<in> A. clk (snd y) < clk (snd z)"
    then obtain z where z: "z \<in> A" "clk (snd y) < clk (snd z)" by blast
    then have "clk (snd z) \<in> (clk \<circ> snd) ` A" by auto
    with c(3) z(2) y(2) show False by (metis less_le)
  qed (fact y)
  with c(2) y(2) show ?thesis by blast
qed

lemma maximals_absorb:
  assumes "finite A"
  shows "maximals (maximals A \<union> B) = maximals (A \<union> B)"
proof -
  have sub: "maximals A \<subseteq> A" by (auto simp: maximals_def)
  have dominated: "\<exists>z \<in> maximals A \<union> B. clk (snd x) < clk (snd z)" if "y \<in> A \<union> B" "clk (snd x) < clk (snd y)" for x y
  proof (cases "y \<in> A")
    case True
    then obtain z where "z \<in> maximals A" "clk (snd y) \<le> clk (snd z)" using maximal_above [OF assms] by blast
    with that(2) show ?thesis by (meson UnI1 less_le_trans)
  qed (use that in blast)
  have "x \<in> maximals A \<union> B" if "x \<in> A \<union> B" "\<not> (\<exists>y \<in> A \<union> B. clk (snd x) < clk (snd y))" for x
    using that by (auto simp: maximals_def)
  with dominated sub show ?thesis unfolding maximals_def [of "maximals A \<union> B"] maximals_def [of "A \<union> B"]
    by (intro set_eqI iffI) (simp_all, blast+)
qed

text \<open>Position \<open>i\<close> of the concatenated array holds an entry no other entry dominates.\<close>

definition mv_top :: "'v mv_entry list \<Rightarrow> nat \<Rightarrow> bool" where
  "mv_top es i \<longleftrightarrow> mv_abs_entry (es ! i) \<in> maximals (mv_abs es)"

definition mv_key :: "'v mv_entry \<Rightarrow> 'v \<times> (string \<times> nat) list" where
  "mv_key e = (mv_value e, sort_key fst (mv_vc e))"

lemma mv_key_abs: "jwf (mv_vc e) \<Longrightarrow> jwf (mv_vc f) \<Longrightarrow> mv_key e = mv_key f \<longleftrightarrow> mv_abs_entry e = mv_abs_entry f"
proof
  assume wf: "jwf (mv_vc e)" "jwf (mv_vc f)"
  have get: "jget (sort_key fst m) = jget m" if "jwf m" for m :: "(string, nat) jmap"
    using that jwf_mset [of "sort_key fst m" m] by (intro jget_set_cong) simp_all
  show "mv_abs_entry e = mv_abs_entry f" if "mv_key e = mv_key f"
    using that get [OF wf(1)] get [OF wf(2)] by (simp add: mv_key_def mv_abs_entry_def)
  show "mv_key e = mv_key f" if "mv_abs_entry e = mv_abs_entry f"
  proof -
    have "mset (mv_vc e) = mset (mv_vc f)"
      using that wf by (intro jget_ext_mset) (simp_all add: mv_abs_entry_def)
    moreover have "inj_on fst (set (mv_vc e))" using wf(1) by (simp add: jwf_def distinct_map)
    ultimately have "sort_key fst (mv_vc e) = sort_key fst (mv_vc f)"
      by (intro sort_key_inj_key_eq) simp_all
    with that show ?thesis by (simp add: mv_key_def mv_abs_entry_def)
  qed
qed

lemma mv_top_iff:
  assumes "\<forall>e \<in> set es. jwf (mv_vc e)" "i < length es" "\<forall>j \<in> set dominated. j < length es \<and> \<not> mv_top es j"
  shows "list_ex (\<lambda>j. j \<noteq> i \<and> j \<notin> set dominated \<and> vcStrictlyDominates (mv_vc (es ! j)) (mv_vc (es ! i))) [0..<length es]
    \<longleftrightarrow> \<not> mv_top es i"
proof -
  let ?x = "mv_abs_entry (es ! i)"
  have dom: "vcStrictlyDominates (mv_vc (es ! j)) (mv_vc (es ! i)) \<longleftrightarrow>
      clk (snd ?x) < clk (snd (mv_abs_entry (es ! j)))" if "j < length es" for j
    using that assms(1,2) by (simp add: mv_abs_entry_def vcStrictlyDominates_iff)
  have x: "?x \<in> mv_abs es" using assms(2) by (auto simp: mv_abs_def)
  show ?thesis
  proof
    assume "list_ex (\<lambda>j. j \<noteq> i \<and> j \<notin> set dominated \<and> vcStrictlyDominates (mv_vc (es ! j)) (mv_vc (es ! i))) [0..<length es]"
    then obtain j where "j < length es" "clk (snd ?x) < clk (snd (mv_abs_entry (es ! j)))"
      using dom by (auto simp: list_ex_iff)
    then show "\<not> mv_top es i" unfolding mv_top_def maximals_def by (auto simp: mv_abs_def)
  next
    assume "\<not> mv_top es i"
    then obtain y where y: "y \<in> mv_abs es" "clk (snd ?x) < clk (snd y)"
      using x by (auto simp: mv_top_def maximals_def)
    obtain z where z: "z \<in> maximals (mv_abs es)" "clk (snd y) \<le> clk (snd z)"
      using maximal_above [OF _ y(1)] by (auto simp: mv_abs_def)
    then have "z \<in> mv_abs es" by (simp add: maximals_def)
    then obtain j where j: "j < length es" "z = mv_abs_entry (es ! j)"
      by (auto simp: mv_abs_def in_set_conv_nth)
    have lt: "clk (snd ?x) < clk (snd z)" using y(2) z(2) by (rule less_le_trans)
    then have "j \<noteq> i" using j(2) by auto
    moreover have "j \<notin> set dominated" using assms(3) j z(1) by (auto simp: mv_top_def)
    ultimately show "list_ex (\<lambda>j. j \<noteq> i \<and> j \<notin> set dominated \<and> vcStrictlyDominates (mv_vc (es ! j)) (mv_vc (es ! i))) [0..<length es]"
      using j dom [OF j(1)] lt by (auto simp: list_ex_iff)
  qed
qed

lemma mv_merge_loop_result:
  assumes "\<forall>e \<in> set es. jwf (mv_vc e)"
  shows "\<forall>i \<in> set is. i < length es \<Longrightarrow> \<forall>j \<in> set dominated. j < length es \<and> \<not> mv_top es j \<Longrightarrow>
    set seen = mv_key ` set survivors \<Longrightarrow> distinct (map mv_key survivors) \<Longrightarrow>
    distinct (map mv_key (mv_merge_loop es is dominated seen survivors)) \<and>
    mv_key ` set (mv_merge_loop es is dominated seen survivors) =
      mv_key ` (set survivors \<union> {es ! i | i. i \<in> set is \<and> mv_top es i}) \<and>
    set (mv_merge_loop es is dominated seen survivors) \<subseteq> set survivors \<union> set es"
proof (induction "is" arbitrary: dominated seen survivors)
  case (Cons i "is")
  have i: "i < length es" and is_ok: "\<forall>i \<in> set is. i < length es" using Cons.prems(1) by auto
  show ?case
  proof (cases "mv_top es i")
    case False
    have split: "{es ! j | j. j \<in> set (i # is) \<and> mv_top es j} = {es ! j | j. j \<in> set is \<and> mv_top es j}"
      using False by auto
    show ?thesis
    proof (cases "i \<in> set dominated")
      case True
      then show ?thesis unfolding split using Cons.IH [OF is_ok Cons.prems(2-4)] True by simp
    next
      case nd: False
      have ex: "list_ex (\<lambda>j. j \<noteq> i \<and> j \<notin> set dominated \<and> vcStrictlyDominates (mv_vc (es ! j)) (mv_vc (es ! i))) [0..<length es]"
        using mv_top_iff [OF assms i Cons.prems(2)] False by blast
      show ?thesis unfolding split using Cons.IH [OF is_ok _ Cons.prems(3,4), of "i # dominated"] Cons.prems(2) nd ex i False by simp
    qed
  next
    case True
    have nd: "i \<notin> set dominated" using True Cons.prems(2) by auto
    have nex: "\<not> list_ex (\<lambda>j. j \<noteq> i \<and> j \<notin> set dominated \<and> vcStrictlyDominates (mv_vc (es ! j)) (mv_vc (es ! i))) [0..<length es]"
      using mv_top_iff [OF assms i Cons.prems(2)] True by blast
    have split: "{es ! j | j. j \<in> set (i # is) \<and> mv_top es j} = insert (es ! i) {es ! j | j. j \<in> set is \<and> mv_top es j}"
      using True by auto
    show ?thesis
    proof (cases "mv_key (es ! i) \<in> set seen")
      case dup: True
      have step: "mv_merge_loop es (i # is) dominated seen survivors = mv_merge_loop es is dominated seen survivors"
        using nd nex dup by (simp add: mv_key_def)
      have "mv_key (es ! i) \<in> mv_key ` set survivors" using dup Cons.prems(3) by simp
      with Cons.IH [OF is_ok Cons.prems(2-4)] dup show ?thesis
        unfolding step split by (auto simp: mv_key_def)
    next
      case new: False
      have step: "mv_merge_loop es (i # is) dominated seen survivors =
          mv_merge_loop es is dominated (mv_key (es ! i) # seen) (survivors @ [es ! i])"
        using nd nex new by (simp add: mv_key_def Let_def)
      have "es ! i \<in> set es" using i by simp
      then show ?thesis
        unfolding step split
        using Cons.IH [OF is_ok Cons.prems(2), of "mv_key (es ! i) # seen" "survivors @ [es ! i]"] new Cons.prems(3,4) by (auto simp: mv_key_def)
    qed
  qed
qed auto

lemma mv_merge_laws:
  assumes "\<forall>e \<in> set (r @ q). jwf (mv_vc e)"
  shows "mv_abs (mv_merge r q) = maximals (mv_abs r \<union> mv_abs q)" "distinct (map mv_abs_entry (mv_merge r q))"
    "\<forall>e \<in> set (mv_merge r q). jwf (mv_vc e)"
proof -
  let ?es = "r @ q" and ?m = "mv_merge r q"
  have m: "?m = mv_merge_loop ?es [0..<length ?es] [] [] []" by (simp add: mv_merge_def Let_def)
  have res: "distinct (map mv_key ?m)" "mv_key ` set ?m = mv_key ` {?es ! i | i. i < length ?es \<and> mv_top ?es i}"
    "set ?m \<subseteq> set ?es"
    using mv_merge_loop_result [OF assms, of "[0..<length ?es]" "[]" "[]" "[]"] unfolding m by (simp_all del: length_append)
  show wf: "\<forall>e \<in> set ?m. jwf (mv_vc e)" using res(3) assms by blast
  show "distinct (map mv_abs_entry ?m)"
    unfolding distinct_map
  proof (intro conjI inj_onI)
    show "distinct ?m" using res(1) by (simp add: distinct_map)
    fix e f assume "e \<in> set ?m" "f \<in> set ?m" "mv_abs_entry e = mv_abs_entry f"
    moreover from this wf have "mv_key e = mv_key f" using mv_key_abs by blast
    ultimately show "e = f" using res(1) by (auto simp: distinct_map inj_on_def)
  qed
  have tops: "mv_abs_entry ` {?es ! i | i. i < length ?es \<and> mv_top ?es i} = maximals (mv_abs ?es)"
  proof (intro set_eqI iffI)
    fix x assume x: "x \<in> maximals (mv_abs ?es)"
    then have "x \<in> mv_abs_entry ` set ?es" by (simp add: maximals_def mv_abs_def)
    then obtain e where e: "e \<in> set ?es" "x = mv_abs_entry e" by blast
    then obtain i where "i < length ?es" "e = ?es ! i" by (metis in_set_conv_nth)
    with x e have "i < length ?es" "x = mv_abs_entry (?es ! i)" "mv_top ?es i" by (simp_all add: mv_top_def)
    then show "x \<in> mv_abs_entry ` {?es ! i | i. i < length ?es \<and> mv_top ?es i}" by blast
  qed (auto simp: mv_top_def)
  have "mv_abs_entry ` set ?m = mv_abs_entry ` {?es ! i | i. i < length ?es \<and> mv_top ?es i}"
  proof (intro set_eqI iffI)
    fix x assume "x \<in> mv_abs_entry ` set ?m"
    then obtain e where e: "e \<in> set ?m" "x = mv_abs_entry e" by blast
    then obtain i where i: "i < length ?es" "mv_top ?es i" "mv_key e = mv_key (?es ! i)" using res(2) by blast
    then have "mv_abs_entry e = mv_abs_entry (?es ! i)"
      using mv_key_abs wf e(1) assms by (metis nth_mem)
    with e i show "x \<in> mv_abs_entry ` {?es ! i | i. i < length ?es \<and> mv_top ?es i}" by blast
  next
    fix x assume "x \<in> mv_abs_entry ` {?es ! i | i. i < length ?es \<and> mv_top ?es i}"
    then obtain i where i: "i < length ?es" "mv_top ?es i" "x = mv_abs_entry (?es ! i)" by blast
    then have "mv_key (?es ! i) \<in> mv_key ` set ?m" unfolding res(2) by blast
    then obtain e where e: "e \<in> set ?m" "mv_key e = mv_key (?es ! i)" by (metis imageE)
    then have "mv_abs_entry e = mv_abs_entry (?es ! i)"
      using mv_key_abs wf i(1) assms by (metis nth_mem)
    with e(1) i(3) show "x \<in> mv_abs_entry ` set ?m" by (metis imageI)
  qed
  with tops show "mv_abs ?m = maximals (mv_abs r \<union> mv_abs q)" by (simp add: mv_abs_def image_Un)
qed

lemma maximals_idem: "maximals (maximals A) = maximals A"
  by (auto simp: maximals_def)

lemma mv_abs_finite [simp]: "finite (mv_abs r)"
  by (simp add: mv_abs_def)

interpretation mv: crdt mv_merge mv_ok mv_abs "\<lambda>A B. maximals (A \<union> B)"
proof unfold_locales
  fix x y z :: "'a mv_register"
  show "mv_ok (mv_merge x y)" if "mv_ok x" "mv_ok y"
  proof -
    have "\<forall>e \<in> set (x @ y). jwf (mv_vc e)" using that by (auto simp: mv_ok_def)
    from mv_merge_laws [OF this] show ?thesis by (simp add: mv_ok_def maximals_idem)
  qed
  show "mv_abs (mv_merge x y) = maximals (mv_abs x \<union> mv_abs y)" if "mv_ok x" "mv_ok y"
    using that by (intro mv_merge_laws(1)) (auto simp: mv_ok_def)
  show "maximals (mv_abs x \<union> mv_abs x) = mv_abs x" if "mv_ok x"
    using that by (simp add: mv_ok_def)
  show "maximals (mv_abs x \<union> mv_abs y) = maximals (mv_abs y \<union> mv_abs x)"
    by (simp add: Un_commute)
  show "maximals (maximals (mv_abs x \<union> mv_abs y) \<union> mv_abs z) = maximals (mv_abs x \<union> maximals (mv_abs y \<union> mv_abs z))"
    using maximals_absorb [of "mv_abs x \<union> mv_abs y" "mv_abs z"]
      maximals_absorb [of "mv_abs y \<union> mv_abs z" "mv_abs x"]
    by (simp add: Un_ac)
qed

lemma vcEqual_iff: "jwf a \<Longrightarrow> jwf b \<Longrightarrow> vcEqual a b \<longleftrightarrow> jget a = jget b"
proof
  assume wf: "jwf a" "jwf b" and "vcEqual a b"
  then have len: "card (dom (jget a)) = card (dom (jget b))" and sub: "jget a k = Some v \<Longrightarrow> jget b k = Some v" for k v
    by (auto simp: vcEqual_def list_all_iff jsize_card dest!: jget_Some_in)
  then have "dom (jget a) = dom (jget b)" by (intro card_subset_eq) auto
  with sub show "jget a = jget b" by (intro ext) (metis domIff option.exhaust)
qed (auto simp: vcEqual_def list_all_iff jsize_card jget_in_eq)

lemma mv_equals_abs:
  assumes "mv_ok r" "mv_ok q" "mv_abs r = mv_abs q"
  shows "mv_equals r q"
proof -
  have "length r = length q"
    using assms by (simp add: mv_ok_def mv_abs_def flip: set_map) (metis distinct_card length_map set_map)
  moreover have "\<exists>b \<in> set q. mv_value a = mv_value b \<and> vcEqual (mv_vc a) (mv_vc b)" if "a \<in> set r" for a
  proof -
    have "mv_abs_entry a \<in> mv_abs q" using that assms(3) by (auto simp: mv_abs_def)
    then obtain b where b: "b \<in> set q" "mv_abs_entry a = mv_abs_entry b" by (auto simp: mv_abs_def)
    then show ?thesis using that assms(1,2) by (auto simp: mv_abs_entry_def vcEqual_iff mv_ok_def)
  qed
  ultimately show ?thesis by (auto simp: mv_equals_def list_all_iff list_ex_iff)
qed

section \<open>Properties\<close>

text \<open>Last writer wins, everywhere: when a stamp (timestamp, replica) identifies a write,
  replicas that merged the same registers hold the same one, and it is the written register with the
  greatest stamp among them.\<close>

theorem lww_register_converges_to_latest:
  assumes "\<forall>r \<in> sources t. lww_ok h r" "sources t = sources u"
  shows "eval_merge lww_merge t = eval_merge lww_merge u \<and> eval_merge lww_merge t \<in> sources t \<and>
    (\<forall>r \<in> sources t. lww_timestamp r \<noteq> 0 \<longrightarrow>
       lww_timestamp r < lww_timestamp (eval_merge lww_merge t) \<or>
       lww_timestamp r = lww_timestamp (eval_merge lww_merge t) \<and> lww_replica r \<le> lww_replica (eval_merge lww_merge t))"
  using lww.convergence [OF assms] lww_eval_latest [of t] by (auto simp: stamp_le_def)

text \<open>Two writes of one replica under one timestamp never converge: each side keeps its own
  value, whichever way they merge, so the later write of the two stays where it was made.\<close>

theorem lww_same_stamp_never_converges:
  assumes "timestamp \<noteq> 0" "v \<noteq> w"
  shows "lww_merge (lww_assign r replica (Some v) timestamp) (lww_assign s replica (Some w) timestamp) =
      lww_assign r replica (Some v) timestamp \<and>
    lww_merge (lww_assign s replica (Some w) timestamp) (lww_assign r replica (Some v) timestamp) =
      lww_assign s replica (Some w) timestamp \<and>
    \<not> lww_equals (lww_assign r replica (Some v) timestamp) (lww_assign s replica (Some w) timestamp)"
  using assms by (simp add: lww_merge_def lww_assign_def lww_equals_def)

text \<open>A last-writer-wins map converges key by key: replicas that merged the same maps give the
  same answer for every key, tombstones included.\<close>

theorem lww_map_converges:
  assumes "\<forall>m \<in> sources t. lwwmap_ok h m \<and> lm_identity m = ident" "sources t = sources u"
  shows "lwwmap_equals (eval_merge lwwmap_merge t) (eval_merge lwwmap_merge u) \<and>
    (\<forall>k. lwwmap_get (eval_merge lwwmap_merge t) k = lwwmap_get (eval_merge lwwmap_merge u) k)"
proof -
  let ?t = "eval_merge lwwmap_merge t" and ?u = "eval_merge lwwmap_merge u"
  have ok: "\<forall>m \<in> sources t. lwwmap_ok h m" using assms by simp
  have oks: "lwwmap_ok h ?t" "lwwmap_ok h ?u" using ok lwm.eval_inv assms(2) by blast+
  have eq: "lwwmap_regs ?t = lwwmap_regs ?u" by (rule lwm.convergence [OF ok assms(2)])
  have idents: "lm_identity (eval_merge lwwmap_merge x) = ident" if "\<forall>m \<in> sources x. lm_identity m = ident" for x
    using that by (induction x) (auto simp: lwwmap_merge_def)
  have ids: "lm_identity ?t = ident" "lm_identity ?u = ident" using idents [of t] idents [of u] assms by auto
  have some: "map_option le_register (jget (lm_entries ?t) k) = map_option le_register (jget (lm_entries ?u) k)" for k
    using fun_cong [OF eq, of k] by (simp add: lwwmap_regs_def)
  have "lwwmap_get ?t k = lwwmap_get ?u k" for k
    using some [of "ident k"] by (auto simp: lwwmap_get_def ids split: option.splits)
  moreover have "jget (lm_entries ?t) k = None \<longleftrightarrow> jget (lm_entries ?u) k = None" for k
    using some [of k] by (cases "jget (lm_entries ?t) k"; cases "jget (lm_entries ?u) k") auto
  then have "length (lm_entries ?t) = length (lm_entries ?u)"
    using oks by (simp add: lwwmap_ok_def jsize_card dom_def)
  moreover have "case jget (lm_entries ?u) k of None \<Rightarrow> False
      | Some f \<Rightarrow> lww_equals (le_register e) (le_register f)" if "(k, e) \<in> set (lm_entries ?t)" for k e
  proof -
    have "jget (lm_entries ?t) k = Some e" using that oks(1) by (simp add: lwwmap_ok_def jget_in_eq)
    with some [of k] show ?thesis by (cases "jget (lm_entries ?u) k") (simp_all add: lww_equals_def)
  qed
  ultimately show ?thesis by (auto simp: lwwmap_equals_def list_all_iff)
qed

text \<open>C18: a multi-value register keeps exactly the concurrent writes: replicas that merged the same
  registers are \<open>equals\<close>, and the merge of two registers holds precisely the entries of either that no
  entry of either strictly dominates. (The dominated-set shortcut of the loop loses nothing.)\<close>

theorem mv_register_converges:
  assumes "\<forall>r \<in> sources t. mv_ok r" "sources t = sources u" "mv_ok a" "mv_ok b"
  shows "mv_equals (eval_merge mv_merge t) (eval_merge mv_merge u) \<and>
    mv_abs_entry ` set (mv_merge a b) =
      {x \<in> mv_abs_entry ` (set a \<union> set b). \<not> (\<exists>y \<in> mv_abs_entry ` (set a \<union> set b). clk (snd x) < clk (snd y))}"
proof -
  have "mv_ok (eval_merge mv_merge t)" "mv_ok (eval_merge mv_merge u)"
    using assms(1,2) mv.eval_inv by blast+
  moreover have "mv_abs (mv_merge a b) = maximals (mv_abs a \<union> mv_abs b)"
    by (rule mv.merge_abs [OF assms(3,4)])
  then have "mv_abs_entry ` set (mv_merge a b) = maximals (mv_abs_entry ` (set a \<union> set b))"
    by (simp add: mv_abs_def image_Un)
  ultimately show ?thesis
    using mv.convergence [OF assms(1,2)] mv_equals_abs unfolding maximals_def by blast
qed

section \<open>Witnesses\<close>

definition demo_red :: "string lww_register" where
  "demo_red = lww_assign lww_empty ''a'' (Some ''red'') 10"

definition demo_blue :: "string lww_register" where
  "demo_blue = lww_assign lww_empty ''b'' (Some ''blue'') 10"

definition demo_writes :: "rat \<Rightarrow> string \<Rightarrow> string option" where
  "demo_writes t replica = (if replica = ''a'' then Some ''red'' else Some ''blue'')"

lemma demo_registers_ok: "lww_ok demo_writes demo_red" "lww_ok demo_writes demo_blue"
  by (simp_all add: lww_ok_def demo_writes_def demo_red_def demo_blue_def lww_assign_def)

theorem lww_same_stamp_never_converges_witness:
  "lww_merge (lww_assign lww_empty ''a'' (Some ''red'') 10) (lww_assign lww_empty ''a'' (Some ''blue'') 10) =
     lww_assign lww_empty ''a'' (Some ''red'') 10 \<and>
   lww_merge (lww_assign lww_empty ''a'' (Some ''blue'') 10) (lww_assign lww_empty ''a'' (Some ''red'') 10) =
     lww_assign lww_empty ''a'' (Some ''blue'') 10"
  using lww_same_stamp_never_converges [of 10 "''red''" "''blue''" lww_empty "''a''" lww_empty] by simp

definition demo_map :: "(string, string) lww_map" where
  "demo_map = \<lparr>lm_entries = [(''k'', \<lparr>le_key = ''k'', le_register = demo_red\<rparr>)], lm_identity = \<lambda>k. k\<rparr>"

definition demo_map2 :: "(string, string) lww_map" where
  "demo_map2 = \<lparr>lm_entries = [(''k'', \<lparr>le_key = ''k'', le_register = demo_blue\<rparr>)], lm_identity = \<lambda>k. k\<rparr>"

text \<open>
  C17: last writer wins, everywhere. When a stamp (timestamp, replica) identifies a write, replicas that merged the
  same registers hold the same one, and it is the written register with the greatest stamp among them; and replicas
  that merged the same last-writer-wins maps give the same answer for every key, tombstones included.
\<close>

theorem lww_converges:
  assumes "\<forall>r \<in> sources t. lww_ok h r" "sources t = sources u"
    and "\<forall>m \<in> sources v. lwwmap_ok g m \<and> lm_identity m = ident" "sources v = sources w"
  shows "eval_merge lww_merge t = eval_merge lww_merge u \<and> eval_merge lww_merge t \<in> sources t \<and>
    (\<forall>r \<in> sources t. lww_timestamp r \<noteq> 0 \<longrightarrow>
       lww_timestamp r < lww_timestamp (eval_merge lww_merge t) \<or>
       lww_timestamp r = lww_timestamp (eval_merge lww_merge t) \<and> lww_replica r \<le> lww_replica (eval_merge lww_merge t)) \<and>
    lwwmap_equals (eval_merge lwwmap_merge v) (eval_merge lwwmap_merge w) \<and>
    (\<forall>k. lwwmap_get (eval_merge lwwmap_merge v) k = lwwmap_get (eval_merge lwwmap_merge w) k)"
  using lww_register_converges_to_latest [OF assms(1,2)] lww_map_converges [OF assms(3,4)] by blast

theorem lww_converges_witness:
  "eval_merge lww_merge (Merged (Source demo_red) (Source demo_blue)) =
     eval_merge lww_merge (Merged (Merged (Source demo_blue) (Source demo_red)) (Source demo_red)) \<and>
   eval_merge lww_merge (Merged (Source demo_red) (Source demo_blue)) = demo_blue \<and>
   lwwmap_get (eval_merge lwwmap_merge (Merged (Source demo_map) (Source demo_map2))) ''k'' =
   lwwmap_get (eval_merge lwwmap_merge (Merged (Source demo_map2) (Source demo_map))) ''k''"
proof -
  have regs: "\<forall>r \<in> sources (Merged (Source demo_red) (Source demo_blue)). lww_ok demo_writes r"
    "sources (Merged (Source demo_red) (Source demo_blue)) = sources (Merged (Merged (Source demo_blue) (Source demo_red)) (Source demo_red))"
    by (auto simp: demo_registers_ok)
  have maps: "\<forall>m \<in> sources (Merged (Source demo_map) (Source demo_map2)). lwwmap_ok (\<lambda>_. demo_writes) m \<and> lm_identity m = (\<lambda>k. k)"
    "sources (Merged (Source demo_map) (Source demo_map2)) = sources (Merged (Source demo_map2) (Source demo_map))"
    by (auto simp: lwwmap_ok_def lwwmap_regs_def demo_map_def demo_map2_def jwf_def jget_map_of demo_registers_ok split: if_splits)
  have "eval_merge lww_merge (Merged (Source demo_red) (Source demo_blue)) = demo_blue"
    by (simp add: lww_merge_def demo_red_def demo_blue_def lww_assign_def)
  with lww_converges [OF regs maps] show ?thesis by simp
qed

definition demo_mv :: "nat \<Rightarrow> string mv_register" where
  "demo_mv n = (if n = 0 then mv_assign mv_empty ''a'' ''red'' else mv_assign mv_empty ''b'' ''blue'')"

theorem mv_register_converges_witness:
  "mv_equals (eval_merge mv_merge (Merged (Source (demo_mv 0)) (Source (demo_mv 1))))
     (eval_merge mv_merge (Merged (Source (demo_mv 1)) (Source (demo_mv 0))))"
proof -
  have ok: "mv_ok (demo_mv 0)" "mv_ok (demo_mv 1)"
    by (auto simp: mv_ok_def demo_mv_def mv_assign_def mv_empty_def jwf_def jset_def maximals_def mv_abs_def)
  then have "\<forall>r \<in> sources (Merged (Source (demo_mv 0)) (Source (demo_mv 1))). mv_ok r" by simp
  moreover have "sources (Merged (Source (demo_mv 0)) (Source (demo_mv 1))) =
      sources (Merged (Source (demo_mv 1)) (Source (demo_mv 0)))" by auto
  ultimately show ?thesis using mv_register_converges ok by blast
qed

end
