(* ===== verification/Downing.thy ===== *)
theory Downing
  imports JS_Prelude
begin

text \<open>
  The split-brain resolvers of \<^verbatim>\<open>src/src/cluster/downing\<close>: \<^verbatim>\<open>KeepMajority\<close>, \<^verbatim>\<open>KeepOldest\<close>,
  \<^verbatim>\<open>KeepReferee\<close> and \<^verbatim>\<open>StaticQuorum\<close>.

  A member is what a resolver reads of it: its address string, its status and its roles.
  \<^verbatim>\<open>NodeAddress.compareTo\<close> is \<^verbatim>\<open>localeCompare\<close>, whose order the language leaves to the host; it is the
  argument \<open>cmp\<close> of \<open>keepOldest_decide\<close>, assumed where needed to be a total order (\<open>total_cmp\<close>).

  The locale \<open>downing_strategy\<close> is what the cluster relies on: of any number of sides that cannot see
  each other, at most one survives. The four strategies interpret it.
\<close>

section \<open>Views\<close>

datatype member_status = Joining | Weakly_Up | Up | Unreachable | Leaving | Down | Removed

record member =
  addrKey :: string
  status :: member_status
  roles :: "string list"

definition hasRole :: "member \<Rightarrow> string \<Rightarrow> bool" where
  "hasRole m role = (role \<in> set (roles m))"

record partition_view =
  allMembers :: "member list"
  unreachable :: "string list"
  self_address :: string

definition is_candidate_status :: "member_status \<Rightarrow> bool" where
  "is_candidate_status s = (s = Up \<or> s = Leaving \<or> s = Unreachable)"

text \<open>An unset or empty role does not restrict.\<close>

definition role_matches :: "string option \<Rightarrow> member \<Rightarrow> bool" where
  "role_matches role m = (case role of None \<Rightarrow> True | Some r \<Rightarrow> r = [] \<or> hasRole m r)"

definition candidates :: "string option \<Rightarrow> partition_view \<Rightarrow> member list" where
  "candidates role view = filter (\<lambda>m. is_candidate_status (status m) \<and> role_matches role m) (allMembers view)"

definition is_unreachable :: "partition_view \<Rightarrow> member \<Rightarrow> bool" where
  "is_unreachable view m = (addrKey m \<in> set (unreachable view))"

definition reachable_of :: "string option \<Rightarrow> partition_view \<Rightarrow> member list" where
  "reachable_of role view = filter (\<lambda>m. \<not> is_unreachable view m) (candidates role view)"

definition unreachable_of :: "string option \<Rightarrow> partition_view \<Rightarrow> member list" where
  "unreachable_of role view = filter (is_unreachable view) (candidates role view)"

type_synonym downing_decision = "string jset"

section \<open>The strategies\<close>

definition keepMajority_decide :: "string option \<Rightarrow> partition_view \<Rightarrow> downing_decision" where
  "keepMajority_decide role view =
     (if candidates role view = [] then []
      else let reachable = reachable_of role view; unreach = unreachable_of role view;
               needed = length (candidates role view) div 2 + 1
           in if length reachable \<ge> needed then sof (map addrKey unreach)
              else if length unreach \<ge> needed then sof (map addrKey reachable)
              else sof (map addrKey reachable))"

text \<open>The array sort: stable, by a comparator.\<close>

fun insert_by :: "('a \<Rightarrow> 'a \<Rightarrow> int) \<Rightarrow> 'a \<Rightarrow> 'a list \<Rightarrow> 'a list" where
  "insert_by cmp x [] = [x]"
| "insert_by cmp x (y # ys) = (if cmp x y \<le> 0 then x # y # ys else y # insert_by cmp x ys)"

definition sort_by :: "('a \<Rightarrow> 'a \<Rightarrow> int) \<Rightarrow> 'a list \<Rightarrow> 'a list" where
  "sort_by cmp xs = foldr (insert_by cmp) xs []"

definition keepOldest_decide ::
  "(string \<Rightarrow> string \<Rightarrow> int) \<Rightarrow> string option \<Rightarrow> bool \<Rightarrow> partition_view \<Rightarrow> downing_decision" where
  "keepOldest_decide cmp role downIfAlone view =
     (if candidates role view = [] then []
      else let sorted_members = sort_by (\<lambda>a b. cmp (addrKey a) (addrKey b)) (candidates role view);
               oldest = hd sorted_members;
               reachable = reachable_of role view; unreach = unreachable_of role view
           in if \<not> is_unreachable view oldest then sof (map addrKey unreach)
              else if downIfAlone then sof (map addrKey reachable)
              else sof (map addrKey reachable))"

definition keepReferee_decide :: "string \<Rightarrow> nat option \<Rightarrow> partition_view \<Rightarrow> downing_decision" where
  "keepReferee_decide refereeAddress downAllIfBelowQuorum view =
     (case find (\<lambda>m. addrKey m = refereeAddress) (candidates None view) of
        None \<Rightarrow> []
      | Some referee \<Rightarrow>
          let reachable = reachable_of None view; unreach = unreachable_of None view in
          if \<not> is_unreachable view referee then
            (case downAllIfBelowQuorum of
               Some q \<Rightarrow> if q \<noteq> 0 \<and> length reachable < q then sof (map addrKey (reachable @ unreach))
                         else sof (map addrKey unreach)
             | None \<Rightarrow> sof (map addrKey unreach))
          else sof (map addrKey reachable))"

definition staticQuorum_decide :: "nat \<Rightarrow> string option \<Rightarrow> partition_view \<Rightarrow> downing_decision" where
  "staticQuorum_decide quorumSize role view =
     (if length (reachable_of role view) \<ge> quorumSize then sof (map addrKey (unreachable_of role view))
      else sof (map addrKey (reachable_of role view)))"

section \<open>Sides of a partition\<close>

text \<open>Two views are of one cluster when they list the same members once each; two sides are apart
  when no candidate is reachable from both; a side survives when some candidate it can reach is
  left standing by its own decision.\<close>

definition same_cluster :: "partition_view \<Rightarrow> partition_view \<Rightarrow> bool" where
  "same_cluster v w \<longleftrightarrow> mset (allMembers v) = mset (allMembers w) \<and> distinct (map addrKey (allMembers v))"

definition apart :: "string option \<Rightarrow> partition_view \<Rightarrow> partition_view \<Rightarrow> bool" where
  "apart role v w \<longleftrightarrow> (\<forall>m \<in> set (candidates role v). is_unreachable v m \<or> is_unreachable w m)"

definition side_survives :: "string option \<Rightarrow> (partition_view \<Rightarrow> downing_decision) \<Rightarrow> partition_view \<Rightarrow> bool" where
  "side_survives role decide view \<longleftrightarrow> (\<exists>m \<in> set (reachable_of role view). addrKey m \<notin> set (decide view))"

text \<open>A partition into any number of sides.\<close>

definition sides :: "string option \<Rightarrow> partition_view list \<Rightarrow> bool" where
  "sides role vs \<longleftrightarrow> (\<forall>i < length vs. \<forall>j < length vs. i \<noteq> j \<longrightarrow>
     same_cluster (vs ! i) (vs ! j) \<and> apart role (vs ! i) (vs ! j))"

locale downing_strategy =
  fixes role :: "string option"
    and decide :: "partition_view \<Rightarrow> downing_decision"
    and applicable :: "partition_view \<Rightarrow> bool"
  assumes at_most_one_of_two: "same_cluster v w \<Longrightarrow> apart role v w \<Longrightarrow> applicable v \<Longrightarrow> applicable w \<Longrightarrow>
      side_survives role decide v \<Longrightarrow> \<not> side_survives role decide w"
    and survivors_down_the_rest: "applicable v \<Longrightarrow> side_survives role decide v \<Longrightarrow>
      set (map addrKey (unreachable_of role v)) \<subseteq> set (decide v)"
begin

text \<open>However many sides a partition has, at most one survives.\<close>

lemma at_most_one_survivor:
  assumes "sides role vs"
    and "\<forall>v \<in> set vs. applicable v"
  shows "length (filter (side_survives role decide) vs) \<le> 1"
proof (rule ccontr)
  assume "\<not> length (filter (side_survives role decide) vs) \<le> 1"
  then have "1 < card {i. i < length vs \<and> side_survives role decide (vs ! i)}"
    by (simp add: length_filter_conv_card)
  then obtain i j where "i < length vs" "j < length vs" "i \<noteq> j"
    "side_survives role decide (vs ! i)" "side_survives role decide (vs ! j)"
    by (metis (mono_tags, lifting) card_le_Suc0_iff_eq finite_nat_set_iff_bounded mem_Collect_eq not_le One_nat_def)
  with assms show False unfolding sides_def by (meson at_most_one_of_two nth_mem)
qed

end

section \<open>Counting\<close>

lemma candidates_mset: "same_cluster v w \<Longrightarrow> mset (candidates role v) = mset (candidates role w)"
  by (simp add: candidates_def same_cluster_def mset_filter)

lemma distinct_candidates: "distinct (map addrKey (allMembers v)) \<Longrightarrow> distinct (map addrKey (candidates role v))"
  by (simp add: candidates_def distinct_map_filter)

lemma reach_unreach_length: "length (reachable_of role v) + length (unreachable_of role v) = length (candidates role v)"
  unfolding reachable_of_def unreachable_of_def
  using sum_length_filter_compl [of "is_unreachable v" "candidates role v"] by simp

text \<open>Two sides that are apart cannot together reach more candidates than there are.\<close>

lemma apart_counts:
  assumes "same_cluster v w" "apart role v w"
  shows "length (reachable_of role v) + length (reachable_of role w) \<le> length (candidates role v)"
proof -
  have "length (reachable_of role w) = length (filter (\<lambda>m. \<not> is_unreachable w m) (candidates role v))"
    unfolding reachable_of_def by (rule filter_mset_length) (simp add: candidates_mset [OF assms(1)])
  also have "\<dots> \<le> length (unreachable_of role v)"
    unfolding unreachable_of_def by (rule length_filter_mono) (use assms(2) in \<open>auto simp: apart_def\<close>)
  finally show ?thesis using reach_unreach_length [of role v] by simp
qed

lemma not_survives_if_downed:
  "set (map addrKey (reachable_of role v)) \<subseteq> set (decide v) \<Longrightarrow> \<not> side_survives role decide v"
  by (auto simp: side_survives_def)

section \<open>The strategies keep the contract\<close>

lemma keepMajority_survives:
  assumes "side_survives role (keepMajority_decide role) v"
  shows "length (reachable_of role v) > length (candidates role v) div 2 \<and>
    set (keepMajority_decide role v) = set (map addrKey (unreachable_of role v))"
proof -
  from assms have ne: "candidates role v \<noteq> []" by (auto simp: side_survives_def reachable_of_def)
  show ?thesis
  proof (cases "length (reachable_of role v) \<ge> length (candidates role v) div 2 + 1")
    case True
    with ne show ?thesis by (simp add: keepMajority_decide_def Let_def)
  next
    case False
    with ne have "set (keepMajority_decide role v) = set (map addrKey (reachable_of role v))"
      by (simp add: keepMajority_decide_def Let_def)
    with assms not_survives_if_downed show ?thesis by blast
  qed
qed

interpretation km: downing_strategy role "keepMajority_decide role" "\<lambda>_. True" for role
proof unfold_locales
  fix v w
  assume same: "same_cluster v w" and apart: "apart role v w"
  assume v: "side_survives role (keepMajority_decide role) v"
  have len: "length (candidates role w) = length (candidates role v)"
    using candidates_mset [OF same] by (metis size_mset)
  show "\<not> side_survives role (keepMajority_decide role) w"
    using keepMajority_survives [OF v] keepMajority_survives [of role w] apart_counts [OF same apart] len by auto
next
  fix v
  assume "side_survives role (keepMajority_decide role) v"
  from keepMajority_survives [OF this]
  show "set (map addrKey (unreachable_of role v)) \<subseteq> set (keepMajority_decide role v)" by simp
qed

lemma staticQuorum_survives:
  assumes "side_survives role (staticQuorum_decide q role) v"
  shows "length (reachable_of role v) \<ge> q \<and>
    set (staticQuorum_decide q role v) = set (map addrKey (unreachable_of role v))"
  using assms by (auto simp: staticQuorum_decide_def side_survives_def split: if_splits)

interpretation sq: downing_strategy role "staticQuorum_decide q role" "\<lambda>v. length (candidates role v) < 2 * q" for q role
proof unfold_locales
  fix v w
  assume same: "same_cluster v w" and apart: "apart role v w" and lt: "length (candidates role v) < 2 * q"
  assume v: "side_survives role (staticQuorum_decide q role) v"
  show "\<not> side_survives role (staticQuorum_decide q role) w"
    using staticQuorum_survives [OF v] staticQuorum_survives [of role q w] apart_counts [OF same apart] lt by auto
next
  fix v
  assume "side_survives role (staticQuorum_decide q role) v"
  from staticQuorum_survives [OF this]
  show "set (map addrKey (unreachable_of role v)) \<subseteq> set (staticQuorum_decide q role v)" by simp
qed

definition has_referee :: "string \<Rightarrow> partition_view \<Rightarrow> bool" where
  "has_referee referee v \<longleftrightarrow> referee \<in> set (map addrKey (candidates None v))"

lemma keepReferee_survives:
  assumes "has_referee referee v" "side_survives None (keepReferee_decide referee q) v"
  shows "referee \<notin> set (unreachable v) \<and>
    set (keepReferee_decide referee q v) = set (map addrKey (unreachable_of None v))"
proof -
  obtain m where m: "find (\<lambda>m. addrKey m = referee) (candidates None v) = Some m" "addrKey m = referee"
    using assms(1) by (cases "find (\<lambda>m. addrKey m = referee) (candidates None v)")
      (auto simp: has_referee_def find_None_iff find_Some_iff)
  from assms(2) m show ?thesis
    by (auto simp: keepReferee_decide_def side_survives_def is_unreachable_def Let_def split: if_splits option.splits)
qed

interpretation kr: downing_strategy None "keepReferee_decide referee q" "has_referee referee" for referee q
proof unfold_locales
  fix v w
  assume same: "same_cluster v w" and apart: "apart None v w" and ref: "has_referee referee v" "has_referee referee w"
  assume v: "side_survives None (keepReferee_decide referee q) v"
  obtain m where m: "m \<in> set (candidates None v)" "addrKey m = referee" using ref(1) by (auto simp: has_referee_def)
  have "is_unreachable v m \<or> is_unreachable w m" using apart m(1) by (simp add: apart_def)
  with keepReferee_survives [OF ref(1) v] keepReferee_survives [OF ref(2)] m(2)
  show "\<not> side_survives None (keepReferee_decide referee q) w" by (auto simp: is_unreachable_def)
next
  fix v
  assume "has_referee referee v" "side_survives None (keepReferee_decide referee q) v"
  from keepReferee_survives [OF this]
  show "set (map addrKey (unreachable_of None v)) \<subseteq> set (keepReferee_decide referee q v)" by simp
qed

definition total_cmp :: "(string \<Rightarrow> string \<Rightarrow> int) \<Rightarrow> bool" where
  "total_cmp cmp \<longleftrightarrow> (\<forall>a b. cmp a b \<le> 0 \<or> cmp b a \<le> 0) \<and> (\<forall>a b. cmp a b \<le> 0 \<and> cmp b a \<le> 0 \<longrightarrow> a = b) \<and>
     (\<forall>a b c. cmp a b \<le> 0 \<and> cmp b c \<le> 0 \<longrightarrow> cmp a c \<le> 0)"

lemma total_cmp_antisym: "total_cmp cmp \<Longrightarrow> cmp a b \<le> 0 \<Longrightarrow> cmp b a \<le> 0 \<Longrightarrow> a = b"
  unfolding total_cmp_def by blast

lemma insert_by_not_Nil: "insert_by cmp x ys \<noteq> []"
  by (cases ys) auto

lemma sort_by_first:
  assumes "total_cmp cmp" "xs \<noteq> []"
  shows "hd (sort_by (\<lambda>a b. cmp (addrKey a) (addrKey b)) xs) \<in> set xs \<and>
    (\<forall>x \<in> set xs. cmp (addrKey (hd (sort_by (\<lambda>a b. cmp (addrKey a) (addrKey b)) xs))) (addrKey x) \<le> 0)"
  using assms(2)
proof (induction xs)
  case (Cons x xs)
  let ?c = "\<lambda>a b. cmp (addrKey a) (addrKey b)"
  have refl: "cmp a a \<le> 0" for a using assms(1) unfolding total_cmp_def by blast
  show ?case
  proof (cases xs)
    case Nil
    then show ?thesis by (simp add: sort_by_def refl)
  next
    case (Cons y ys)
    let ?h = "hd (sort_by ?c xs)"
    have IH: "?h \<in> set xs" "\<forall>x \<in> set xs. ?c ?h x \<le> 0" using Cons.IH Cons by auto
    have "sort_by ?c xs \<noteq> []" using Cons by (simp add: sort_by_def insert_by_not_Nil)
    then have t: "sort_by ?c xs = ?h # tl (sort_by ?c xs)" by simp
    have "sort_by ?c (x # xs) = insert_by ?c x (sort_by ?c xs)" by (simp add: sort_by_def)
    also have "hd \<dots> = (if ?c x ?h \<le> 0 then x else ?h)"
      by (subst t) simp
    finally have hd: "hd (sort_by ?c (x # xs)) = (if ?c x ?h \<le> 0 then x else ?h)" .
    show ?thesis
    proof (cases "?c x ?h \<le> 0")
      case True
      then have "?c x y \<le> 0" if "y \<in> set xs" for y
        using IH(2) that assms(1) unfolding total_cmp_def by blast
      with True show ?thesis by (simp add: hd refl)
    next
      case False
      then have "?c ?h x \<le> 0" using assms(1) unfolding total_cmp_def by blast
      with False IH show ?thesis by (simp add: hd)
    qed
  qed
qed simp

definition oldest_of :: "(string \<Rightarrow> string \<Rightarrow> int) \<Rightarrow> string option \<Rightarrow> partition_view \<Rightarrow> member" where
  "oldest_of cmp role v = hd (sort_by (\<lambda>a b. cmp (addrKey a) (addrKey b)) (candidates role v))"

lemma keepOldest_survives:
  assumes "side_survives role (keepOldest_decide cmp role alone) v"
  shows "candidates role v \<noteq> [] \<and> \<not> is_unreachable v (oldest_of cmp role v) \<and>
    set (keepOldest_decide cmp role alone v) = set (map addrKey (unreachable_of role v))"
proof -
  from assms have ne: "candidates role v \<noteq> []" by (auto simp: side_survives_def reachable_of_def)
  with assms show ?thesis
    by (auto simp: keepOldest_decide_def side_survives_def oldest_of_def Let_def split: if_splits)
qed

text \<open>Both sides name the same oldest member, in whatever order they list the members.\<close>

lemma oldest_agrees:
  assumes "total_cmp cmp" "same_cluster v w" "candidates role v \<noteq> []"
  shows "addrKey (oldest_of cmp role v) = addrKey (oldest_of cmp role w)" "oldest_of cmp role v \<in> set (candidates role v)"
proof -
  have set: "set (candidates role v) = set (candidates role w)"
    using candidates_mset [OF assms(2)] by (metis set_mset_mset)
  then have ne: "candidates role w \<noteq> []" using assms(3) by auto
  have "cmp (addrKey (oldest_of cmp role v)) (addrKey (oldest_of cmp role w)) \<le> 0"
    "cmp (addrKey (oldest_of cmp role w)) (addrKey (oldest_of cmp role v)) \<le> 0"
    using sort_by_first [OF assms(1,3)] sort_by_first [OF assms(1) ne] set by (simp_all add: oldest_of_def)
  then show "addrKey (oldest_of cmp role v) = addrKey (oldest_of cmp role w)"
    using total_cmp_antisym [OF assms(1)] by simp
  show "oldest_of cmp role v \<in> set (candidates role v)"
    using sort_by_first [OF assms(1,3)] by (simp add: oldest_of_def)
qed

interpretation ko: downing_strategy role "keepOldest_decide cmp role alone" "\<lambda>_. total_cmp cmp" for cmp role alone
proof unfold_locales
  fix v w
  assume same: "same_cluster v w" and apart: "apart role v w" and cmp: "total_cmp cmp"
  assume v: "side_survives role (keepOldest_decide cmp role alone) v"
  note kv = keepOldest_survives [OF v]
  have old: "addrKey (oldest_of cmp role v) = addrKey (oldest_of cmp role w)" "oldest_of cmp role v \<in> set (candidates role v)"
    using oldest_agrees [OF cmp same] kv by auto
  then have "is_unreachable w (oldest_of cmp role w)"
    using apart kv by (auto simp: apart_def is_unreachable_def)
  then show "\<not> side_survives role (keepOldest_decide cmp role alone) w"
    using keepOldest_survives [of role cmp alone w] by auto
next
  fix v
  assume "side_survives role (keepOldest_decide cmp role alone) v"
  from keepOldest_survives [OF this]
  show "set (map addrKey (unreachable_of role v)) \<subseteq> set (keepOldest_decide cmp role alone v)" by simp
qed

text \<open>The option that is documented to hand the win to the other side has no effect.\<close>

lemma keepOldest_ignores_downIfAlone:
  "keepOldest_decide cmp role True view = keepOldest_decide cmp role False view"
  by (simp add: keepOldest_decide_def Let_def)

section \<open>No split brain\<close>

lemma survives_if_reaching:
  assumes "reachable_of role v \<noteq> []" "distinct (map addrKey (allMembers v))"
    "decide v = sof (map addrKey (unreachable_of role v))"
  shows "side_survives role decide v"
proof -
  obtain m where m: "m \<in> set (reachable_of role v)" using assms(1) by (cases "reachable_of role v") auto
  have "addrKey m \<notin> set (map addrKey (unreachable_of role v))"
    using m by (auto simp: reachable_of_def unreachable_of_def is_unreachable_def)
  with m assms(3) show ?thesis by (auto simp: side_survives_def)
qed

text \<open>
  KeepMajority never splits the brain. Of the sides of any partition at most one keeps a member
  it can reach, and a side does so exactly when it reaches a strict majority of the candidates; then
  it downs exactly the candidates it cannot reach.
\<close>

theorem keepMajority_no_split_brain:
  assumes "sides role vs"
  shows "length (filter (side_survives role (keepMajority_decide role)) vs) \<le> 1 \<and>
    (distinct (map addrKey (allMembers v)) \<longrightarrow>
       side_survives role (keepMajority_decide role) v = (2 * length (reachable_of role v) > length (candidates role v)) \<and>
       (side_survives role (keepMajority_decide role) v \<longrightarrow>
          set (keepMajority_decide role v) = set (map addrKey (unreachable_of role v))))"
proof (intro conjI impI)
  show "length (filter (side_survives role (keepMajority_decide role)) vs) \<le> 1"
    by (rule km.at_most_one_survivor [OF assms]) simp
next
  assume d: "distinct (map addrKey (allMembers v))"
  have "side_survives role (keepMajority_decide role) v" if "2 * length (reachable_of role v) > length (candidates role v)"
  proof (rule survives_if_reaching [OF _ d])
    show "reachable_of role v \<noteq> []" using that by auto
    then have "candidates role v \<noteq> []" by (auto simp: reachable_of_def)
    moreover have "length (candidates role v) div 2 + 1 \<le> length (reachable_of role v)" using that by presburger
    ultimately show "keepMajority_decide role v = sof (map addrKey (unreachable_of role v))"
      by (simp add: keepMajority_decide_def Let_def)
  qed
  then show "side_survives role (keepMajority_decide role) v = (2 * length (reachable_of role v) > length (candidates role v))"
    using keepMajority_survives [of role v] by fastforce
next
  assume "side_survives role (keepMajority_decide role) v"
  then show "set (keepMajority_decide role v) = set (map addrKey (unreachable_of role v))"
    using keepMajority_survives [of role v] by simp
qed

definition demo_member :: "string \<Rightarrow> member" where
  "demo_member a = \<lparr>addrKey = a, status = Up, roles = []\<rparr>"

definition demo_view :: "string list \<Rightarrow> partition_view" where
  "demo_view unreach = \<lparr>allMembers = map demo_member [''a'', ''b'', ''c''], unreachable = unreach, self_address = ''a''\<rparr>"

lemmas demo_simps = demo_view_def demo_member_def same_cluster_def apart_def candidates_def is_candidate_status_def
  role_matches_def is_unreachable_def reachable_of_def unreachable_of_def

lemma demo_candidates: "candidates None (demo_view unreach) = map demo_member [''a'', ''b'', ''c'']"
  by (simp add: demo_simps)

lemma demo_sides: "sides None [demo_view [''b'', ''c''], demo_view [''a'']]"
  by (auto simp: sides_def less_Suc_eq demo_simps)

text \<open>
  StaticQuorum never splits the brain when the quorum is more than half of the candidates, and
  then a side survives only if it reaches the quorum.
\<close>

theorem staticQuorum_no_split_brain:
  assumes "sides role vs" "\<forall>v \<in> set vs. length (candidates role v) < 2 * q"
  shows "length (filter (side_survives role (staticQuorum_decide q role)) vs) \<le> 1 \<and>
    (\<forall>v \<in> set vs. side_survives role (staticQuorum_decide q role) v \<longrightarrow>
       length (reachable_of role v) \<ge> q \<and>
       set (staticQuorum_decide q role v) = set (map addrKey (unreachable_of role v)))"
  using sq.at_most_one_survivor [OF assms] staticQuorum_survives by blast

text \<open>
  KeepOldest and KeepReferee elect at most one side. A side survives KeepOldest exactly when it
  reaches the oldest candidate, which all sides agree on; it survives KeepReferee only if it
  reaches the referee.
\<close>

theorem keepOldest_and_keepReferee_no_split_brain:
  assumes "sides role vs" "total_cmp cmp" "sides None ws" "\<forall>w \<in> set ws. has_referee referee w"
  shows "length (filter (side_survives role (keepOldest_decide cmp role alone)) vs) \<le> 1 \<and>
    (distinct (map addrKey (allMembers v)) \<and> candidates role v \<noteq> [] \<longrightarrow>
       side_survives role (keepOldest_decide cmp role alone) v = (\<not> is_unreachable v (oldest_of cmp role v))) \<and>
    length (filter (side_survives None (keepReferee_decide referee q)) ws) \<le> 1 \<and>
    (\<forall>w \<in> set ws. side_survives None (keepReferee_decide referee q) w \<longrightarrow> referee \<notin> set (unreachable w))"
proof (intro conjI impI ballI)
  show "length (filter (side_survives role (keepOldest_decide cmp role alone)) vs) \<le> 1"
    by (rule ko.at_most_one_survivor [OF assms(1)]) (simp add: assms(2))
  show "length (filter (side_survives None (keepReferee_decide referee q)) ws) \<le> 1"
    by (rule kr.at_most_one_survivor [OF assms(3,4)])
  show "referee \<notin> set (unreachable w)" if "w \<in> set ws" "side_survives None (keepReferee_decide referee q) w" for w
    using keepReferee_survives [OF _ that(2)] assms(4) that(1) by blast
next
  assume d: "distinct (map addrKey (allMembers v)) \<and> candidates role v \<noteq> []"
  have "side_survives role (keepOldest_decide cmp role alone) v" if reach: "\<not> is_unreachable v (oldest_of cmp role v)"
  proof (rule survives_if_reaching)
    have "oldest_of cmp role v \<in> set (candidates role v)"
      using sort_by_first [OF assms(2), of "candidates role v"] d by (simp add: oldest_of_def)
    with reach show "reachable_of role v \<noteq> []" by (auto simp: reachable_of_def filter_empty_conv)
    show "keepOldest_decide cmp role alone v = sof (map addrKey (unreachable_of role v))"
      using d reach by (simp add: keepOldest_decide_def oldest_of_def Let_def)
  qed (use d in simp)
  then show "side_survives role (keepOldest_decide cmp role alone) v = (\<not> is_unreachable v (oldest_of cmp role v))"
    using keepOldest_survives [of role cmp alone v] by blast
qed

definition demo_cmp :: "string \<Rightarrow> string \<Rightarrow> int" where
  "demo_cmp a b = (if a < b then -1 else if a = b then 0 else 1)"

lemma demo_cmp_total: "total_cmp demo_cmp"
  by (auto simp: total_cmp_def demo_cmp_def split: if_splits)

text \<open>
  StaticQuorum, KeepOldest and KeepReferee elect at most one side. StaticQuorum does so when the quorum is more
  than half of the candidates, and then a side survives only if it reaches the quorum; a side survives KeepOldest
  exactly when it reaches the oldest candidate, which all sides agree on; it survives KeepReferee only if it reaches
  the referee.
\<close>

theorem fixed_point_resolvers_no_split_brain:
  assumes "sides role vs" "\<forall>v \<in> set vs. length (candidates role v) < 2 * q" "total_cmp cmp"
    and "sides None ws" "\<forall>w \<in> set ws. has_referee referee w"
  shows "length (filter (side_survives role (staticQuorum_decide q role)) vs) \<le> 1 \<and>
    (\<forall>v \<in> set vs. side_survives role (staticQuorum_decide q role) v \<longrightarrow>
       length (reachable_of role v) \<ge> q \<and>
       set (staticQuorum_decide q role v) = set (map addrKey (unreachable_of role v))) \<and>
    length (filter (side_survives role (keepOldest_decide cmp role alone)) vs) \<le> 1 \<and>
    (distinct (map addrKey (allMembers v)) \<and> candidates role v \<noteq> [] \<longrightarrow>
       side_survives role (keepOldest_decide cmp role alone) v = (\<not> is_unreachable v (oldest_of cmp role v))) \<and>
    length (filter (side_survives None (keepReferee_decide referee k)) ws) \<le> 1 \<and>
    (\<forall>w \<in> set ws. side_survives None (keepReferee_decide referee k) w \<longrightarrow> referee \<notin> set (unreachable w))"
  using staticQuorum_no_split_brain [OF assms(1,2)] keepOldest_and_keepReferee_no_split_brain [OF assms(1,3,4,5), of alone v k] by blast



end
