(* ===== verification/Stability_Window.thy ===== *)
theory Stability_Window
  imports JS_Prelude
begin

text \<open>
  The stability window of \<^verbatim>\<open>src/src/cluster/downing/StabilityWindow.ts\<close>, in front of every split-brain
  resolver: a downing decision waits until the membership view has held still, unless a peer has been
  unreachable for so long that the churn around it no longer matters. Timestamps are the rational
  milliseconds the callers pass.

  \<open>trailing P\<close> is the specification: when the unbroken run of observations with \<open>P\<close> that ends at
  the latest one began. The fields of the window are such runs, whatever calls came before.
\<close>

section \<open>The stability window\<close>

definition unstableEscalationDeadlineMs :: "rat \<Rightarrow> rat" where
  "unstableEscalationDeadlineMs stableAfterMs = stableAfterMs * 3"

definition unreachableArbitrationDeadlineMs :: "rat \<Rightarrow> rat" where
  "unreachableArbitrationDeadlineMs stableAfterMs = stableAfterMs * 2"

record stability_window =
  currentView :: "string option"
  stableSince :: rat
  unstableSince :: "rat option"
  unreachableSince :: "(string, rat) jmap"
  stableAfterMs :: rat
  downAllWhenUnstable :: bool

definition window_new :: "rat \<Rightarrow> bool \<Rightarrow> stability_window" where
  "window_new stableAfter downAll = \<lparr>currentView = None, stableSince = 0, unstableSince = None,
     unreachableSince = [], stableAfterMs = stableAfter, downAllWhenUnstable = downAll\<rparr>"

definition trackUnreachableSince :: "(string, rat) jmap \<Rightarrow> string jset \<Rightarrow> rat \<Rightarrow> (string, rat) jmap" where
  "trackUnreachableSince since unreach now =
     (let kept = foldl (\<lambda>m key. if key \<in> set unreach then m else jdelete m key) since (jkeys since)
      in foldl (\<lambda>m key. if jhas m key then m else jset m key now) kept unreach)"

definition window_observe :: "stability_window \<Rightarrow> string \<Rightarrow> string jset \<Rightarrow> rat \<Rightarrow> bool \<times> stability_window" where
  "window_observe w0 fingerprint unreach now =
     (let w = w0\<lparr>unreachableSince := trackUnreachableSince (unreachableSince w0) unreach now\<rparr> in
      if currentView w \<noteq> Some fingerprint then
        (False, w\<lparr>unstableSince := (if currentView w \<noteq> None \<and> unstableSince w = None then Some now else unstableSince w),
                  currentView := Some fingerprint, stableSince := now\<rparr>)
      else if now - stableSince w < stableAfterMs w then (False, w)
      else (True, w\<lparr>unstableSince := None\<rparr>))"

definition window_takeEscalation :: "stability_window \<Rightarrow> string jset \<Rightarrow> rat \<Rightarrow> rat option \<times> stability_window" where
  "window_takeEscalation w unreach now =
     (if \<not> downAllWhenUnstable w then (None, w)
      else if unreach = [] then (None, w)
      else case unstableSince w of
        None \<Rightarrow> (None, w)
      | Some since \<Rightarrow>
          if now - since \<le> unstableEscalationDeadlineMs (stableAfterMs w) then (None, w)
          else (Some (now - since), w\<lparr>unstableSince := None\<rparr>))"

definition window_hasOutlastedChurn :: "stability_window \<Rightarrow> rat \<Rightarrow> bool" where
  "window_hasOutlastedChurn w now =
     list_ex (\<lambda>since. now - since \<ge> unreachableArbitrationDeadlineMs (stableAfterMs w)) (jvalues (unreachableSince w))"

section \<open>Histories\<close>

datatype window_call = Observe string "string jset" rat | Escalate "string jset" rat

fun window_call_apply :: "window_call \<Rightarrow> stability_window \<Rightarrow> stability_window" where
  "window_call_apply (Observe fingerprint unreach now) w = snd (window_observe w fingerprint unreach now)"
| "window_call_apply (Escalate unreach now) w = snd (window_takeEscalation w unreach now)"

text \<open>Histories are lists, the latest call first.\<close>

definition window_run :: "window_call list \<Rightarrow> stability_window \<Rightarrow> stability_window" where
  "window_run calls w = foldr window_call_apply calls w"

fun trailing :: "(string \<Rightarrow> string jset \<Rightarrow> bool) \<Rightarrow> window_call list \<Rightarrow> rat option" where
  "trailing P [] = None"
| "trailing P (Observe fingerprint unreach now # calls) =
     (if P fingerprint unreach then Some (case trailing P calls of None \<Rightarrow> now | Some t \<Rightarrow> t) else None)"
| "trailing P (Escalate _ _ # calls) = trailing P calls"

section \<open>The bookkeeping of unreachable peers\<close>

lemma jget_prune:
  "jget (foldl (\<lambda>m key. if key \<in> U then m else jdelete m key) since ks) k =
     (if k \<in> set ks - U then None else jget since k)"
  by (induction ks arbitrary: since) auto

lemma jget_admit:
  "jget (foldl (\<lambda>m key. if jhas m key then m else jset m key now) since ks) k =
     (if k \<in> set ks then Some (case jget since k of None \<Rightarrow> now | Some t \<Rightarrow> t) else jget since k)"
  by (induction ks arbitrary: since) (auto simp: jhas_iff split: option.splits)

lemma jget_trackUnreachableSince:
  "jget (trackUnreachableSince since unreach now) k =
     (if k \<in> set unreach then Some (case jget since k of None \<Rightarrow> now | Some t \<Rightarrow> t) else None)"
  by (auto simp: trackUnreachableSince_def Let_def jget_admit jget_prune jkeys_set)

lemma jwf_trackUnreachableSince: "jwf since \<Longrightarrow> jwf (trackUnreachableSince since unreach now)"
proof -
  have del: "jwf m \<Longrightarrow> jwf (foldl (\<lambda>m key. if key \<in> U then m else jdelete m key) m ks)"
    for m :: "(string, rat) jmap" and U ks by (induction ks arbitrary: m) auto
  have ins: "jwf m \<Longrightarrow> jwf (foldl (\<lambda>m key. if jhas m key then m else jset m key now) m ks)"
    for m :: "(string, rat) jmap" and ks by (induction ks arbitrary: m) auto
  assume "jwf since"
  then show ?thesis by (simp add: trackUnreachableSince_def Let_def del ins)
qed

section \<open>The fields are trailing runs\<close>

lemma window_config:
  "stableAfterMs (window_run calls (window_new s d)) = s \<and> downAllWhenUnstable (window_run calls (window_new s d)) = d"
  unfolding window_run_def
proof (induction calls)
  case (Cons c calls)
  then show ?case
    by (cases c) (auto simp: window_observe_def window_takeEscalation_def Let_def split: option.splits)
qed (simp add: window_new_def)

lemma escalate_keeps:
  "currentView (snd (window_takeEscalation w unreach now)) = currentView w"
  "stableSince (snd (window_takeEscalation w unreach now)) = stableSince w"
  "unreachableSince (snd (window_takeEscalation w unreach now)) = unreachableSince w"
  by (auto simp: window_takeEscalation_def Let_def split: option.splits)

lemma window_view_run:
  "trailing (\<lambda>f _. f = fingerprint) calls =
     (if currentView (window_run calls (window_new s d)) = Some fingerprint
      then Some (stableSince (window_run calls (window_new s d))) else None)"
proof (induction calls)
  case (Cons c calls)
  show ?case
  proof (cases c)
    case (Observe f unreach now)
    with Cons show ?thesis by (auto simp: window_run_def window_observe_def Let_def)
  next
    case (Escalate unreach now)
    with Cons show ?thesis by (simp add: window_run_def escalate_keeps)
  qed
qed (simp add: window_run_def window_new_def)

lemma window_unreachable_run:
  "jwf (unreachableSince (window_run calls (window_new s d))) \<and>
   jget (unreachableSince (window_run calls (window_new s d))) k = trailing (\<lambda>_ unreach. k \<in> set unreach) calls"
proof (induction calls)
  case (Cons c calls)
  show ?case
  proof (cases c)
    case (Observe f unreach now)
    with Cons show ?thesis
      by (simp add: window_run_def window_observe_def Let_def jget_trackUnreachableSince jwf_trackUnreachableSince)
  next
    case (Escalate unreach now)
    with Cons show ?thesis by (simp add: window_run_def escalate_keeps)
  qed
qed (simp add: window_run_def window_new_def)

text \<open>
  C20: after any history of calls, the window lets a decision through exactly when the fingerprint it
  is shown has been every observation's for at least \<^verbatim>\<open>stableAfterMs\<close>; and it reports an outlasted
  churn exactly when some peer has been in every observed unreachable set for twice that long.
\<close>

theorem stability_window_is_trailing_run:
  "fst (window_observe (window_run calls (window_new s d)) fingerprint unreach now) =
     (\<exists>t. trailing (\<lambda>f _. f = fingerprint) calls = Some t \<and> now - t \<ge> s) \<and>
   window_hasOutlastedChurn (window_run calls (window_new s d)) now =
     (\<exists>k t. trailing (\<lambda>_ u. k \<in> set u) calls = Some t \<and> now - t \<ge> 2 * s)"
proof
  show "fst (window_observe (window_run calls (window_new s d)) fingerprint unreach now) =
     (\<exists>t. trailing (\<lambda>f _. f = fingerprint) calls = Some t \<and> now - t \<ge> s)"
    using window_config [of calls s d]
    by (auto simp: window_observe_def Let_def window_view_run [where s = s and d = d])
next
  let ?m = "unreachableSince (window_run calls (window_new s d))"
  have vals: "t \<in> set (jvalues ?m) \<longleftrightarrow> (\<exists>k. trailing (\<lambda>_ u. k \<in> set u) calls = Some t)" for t
    using window_unreachable_run [of calls s d] jget_in_eq [of ?m] by (force simp: jvalues_def)
  have "window_hasOutlastedChurn (window_run calls (window_new s d)) now = (\<exists>t \<in> set (jvalues ?m). now - t \<ge> 2 * s)"
    using window_config [of calls s d]
    by (simp add: window_hasOutlastedChurn_def list_ex_iff unreachableArbitrationDeadlineMs_def mult.commute)
  with vals show "window_hasOutlastedChurn (window_run calls (window_new s d)) now =
     (\<exists>k t. trailing (\<lambda>_ u. k \<in> set u) calls = Some t \<and> now - t \<ge> 2 * s)" by blast
qed

end
