(* ===== verification/Delivery_Producer.thy ===== *)
theory Delivery_Producer
  imports JS_Prelude
begin

text \<open>
  The sending half of reliable delivery: \<^verbatim>\<open>src/src/delivery/ProducerController.ts\<close> and the message
  types of \<^verbatim>\<open>src/src/delivery/Messages.ts\<close>.

  Every operation returns what the code does to the outside (\<open>producer_out\<close>: deliveries told to the
  consumer, calls of \<^verbatim>\<open>settle\<close>, dead letters, paced warnings), whether it returned normally, and the next
  state. The consumer's \<^verbatim>\<open>tell\<close> may throw: it is the argument \<open>accepts\<close>, false where it throws. A
  confirmation callback is called inside \<^verbatim>\<open>settle\<close>, which contains whatever it throws, so a callback
  cannot influence the state. Sequence numbers are exact; the code's are, up to \<open>2 ^ 53\<close> sends.
\<close>

section \<open>Messages\<close>

text \<open>The fields of a delivery arrive from the wire: \<open>None\<close> is a value of another type than declared.\<close>

record ('b, 'r) delivery =
  d_producerId :: "string option"
  d_incarnation :: "string option"
  d_seq :: js_number
  d_body :: 'b
  d_replyTo :: "'r option"

record acknowledgment =
  a_producerId :: string
  a_incarnation :: string
  a_seq :: nat

datatype 'c confirm = No_Confirm | Callback 'c | Not_Callable

record ('b, 'c) producer_send =
  s_body :: 'b
  s_confirm :: "'c confirm"

datatype settle_outcome = Confirmed | Producer_Stopped

datatype ('b, 'c) producer_message = Send "('b, 'c) producer_send" | Ack acknowledgment | Foreign

record ('b, 'c) inflight_entry =
  if_seq :: nat
  if_body :: 'b
  if_confirm :: "'c confirm"
  attempts :: nat
  timer :: bool

record ('b, 'c) producer =
  inflight :: "(nat, ('b, 'c) inflight_entry) jmap"
  pending :: "('b, 'c) producer_send list"
  nextSeq :: nat
  producer_id :: string
  producer_incarnation :: string
  windowSize :: nat
  p_unhandledSinceReport :: nat
  p_lastUnhandledReportAtMs :: "rat option"

datatype ('b, 'c) producer_out =
    Tell "('b, unit) delivery"
  | Settle "'c confirm" settle_outcome "nat option"
  | Dead_Letter
  | Warn_Unhandled nat

definition producer_new :: "string \<Rightarrow> string \<Rightarrow> nat \<Rightarrow> ('b, 'c) producer" where
  "producer_new i inc window = \<lparr>inflight = [], pending = [], nextSeq = 1, producer_id = i,
     producer_incarnation = inc, windowSize = window, p_unhandledSinceReport = 0, p_lastUnhandledReportAtMs = None\<rparr>"

section \<open>Operations\<close>

text \<open>A counted warning, at most one per interval. A timestamp \<open>None\<close> is minus infinity.\<close>

definition paced_report :: "rat \<Rightarrow> rat \<Rightarrow> nat \<Rightarrow> rat option \<Rightarrow> nat option \<times> nat \<times> rat option" where
  "paced_report interval now cnt lastAt =
     (case lastAt of
        Some t \<Rightarrow> if now - t < interval then (None, cnt, lastAt) else (Some cnt, 0, Some now)
      | None \<Rightarrow> (Some cnt, 0, Some now))"

definition UNHANDLED_REPORT_INTERVAL_MS :: rat where
  "UNHANDLED_REPORT_INTERVAL_MS = 60000"

definition producer_reportUnhandled :: "rat \<Rightarrow> ('b, 'c) producer \<Rightarrow> ('b, 'c) producer_out list \<times> ('b, 'c) producer" where
  "producer_reportUnhandled now p =
     (let (warn, cnt, at_ms) = paced_report UNHANDLED_REPORT_INTERVAL_MS now (p_unhandledSinceReport p + 1)
            (p_lastUnhandledReportAtMs p)
      in (case warn of None \<Rightarrow> [] | Some n \<Rightarrow> [Warn_Unhandled n],
          p\<lparr>p_unhandledSinceReport := cnt, p_lastUnhandledReportAtMs := at_ms\<rparr>))"

definition producer_onUnhandled :: "rat \<Rightarrow> ('b, 'c) producer \<Rightarrow> ('b, 'c) producer_out list \<times> ('b, 'c) producer" where
  "producer_onUnhandled now p = (let (outs, p1) = producer_reportUnhandled now p in (outs @ [Dead_Letter], p1))"

definition delivery_of :: "('b, 'c) producer \<Rightarrow> ('b, 'c) inflight_entry \<Rightarrow> ('b, unit) delivery" where
  "delivery_of p fl = \<lparr>d_producerId = Some (producer_id p), d_incarnation = Some (producer_incarnation p),
     d_seq = Fin (of_nat (if_seq fl)), d_body = if_body fl, d_replyTo = Some ()\<rparr>"

definition producer_send_entry ::
  "(('b, unit) delivery \<Rightarrow> bool) \<Rightarrow> ('b, 'c) producer \<Rightarrow> ('b, 'c) inflight_entry \<Rightarrow>
   ('b, 'c) producer_out list \<times> bool \<times> ('b, 'c) producer" where
  "producer_send_entry accepts p fl0 =
     (let fl = fl0\<lparr>attempts := attempts fl0 + 1, timer := True\<rparr>;
          p1 = p\<lparr>inflight := jset (inflight p) (if_seq fl) fl\<rparr>;
          d = delivery_of p1 fl
      in if accepts d then ([Tell d], True, p1) else ([], False, p1))"

definition producer_dispatch ::
  "(('b, unit) delivery \<Rightarrow> bool) \<Rightarrow> ('b, 'c) producer \<Rightarrow> ('b, 'c) producer_send \<Rightarrow>
   ('b, 'c) producer_out list \<times> bool \<times> ('b, 'c) producer" where
  "producer_dispatch accepts p msg =
     (let fl = \<lparr>if_seq = nextSeq p, if_body = s_body msg, if_confirm = s_confirm msg, attempts = 0, timer = False\<rparr>;
          p1 = p\<lparr>nextSeq := nextSeq p + 1, inflight := jset (inflight p) (nextSeq p) fl\<rparr>
      in producer_send_entry accepts p1 fl)"

definition producer_onSend ::
  "(('b, unit) delivery \<Rightarrow> bool) \<Rightarrow> rat \<Rightarrow> ('b, 'c) producer \<Rightarrow> ('b, 'c) producer_send \<Rightarrow>
   ('b, 'c) producer_out list \<times> bool \<times> ('b, 'c) producer" where
  "producer_onSend accepts now p msg =
     (if s_confirm msg = Not_Callable then (let (outs, p1) = producer_onUnhandled now p in (outs, True, p1))
      else if length (inflight p) \<ge> windowSize p then ([], True, p\<lparr>pending := pending p @ [msg]\<rparr>)
      else producer_dispatch accepts p msg)"

text \<open>The loop after an acknowledgment; a throwing \<^verbatim>\<open>tell\<close> ends it.\<close>

fun producer_pump ::
  "(('b, unit) delivery \<Rightarrow> bool) \<Rightarrow> ('b, 'c) producer_send list \<Rightarrow> ('b, 'c) producer \<Rightarrow>
   ('b, 'c) producer_out list \<times> bool \<times> ('b, 'c) producer" where
  "producer_pump accepts [] p = ([], True, p\<lparr>pending := []\<rparr>)"
| "producer_pump accepts (msg # rest) p =
     (if length (inflight p) < windowSize p then
        (case producer_dispatch accepts (p\<lparr>pending := rest\<rparr>) msg of
           (outs, False, p1) \<Rightarrow> (outs, False, p1)
         | (outs, True, p1) \<Rightarrow> (let (outs2, fine, p2) = producer_pump accepts rest p1 in (outs @ outs2, fine, p2)))
      else ([], True, p\<lparr>pending := msg # rest\<rparr>))"

definition producer_onAcknowledgment ::
  "(('b, unit) delivery \<Rightarrow> bool) \<Rightarrow> ('b, 'c) producer \<Rightarrow> acknowledgment \<Rightarrow>
   ('b, 'c) producer_out list \<times> bool \<times> ('b, 'c) producer" where
  "producer_onAcknowledgment accepts p ack =
     (if a_producerId ack \<noteq> producer_id p then ([], True, p)
      else if a_incarnation ack \<noteq> producer_incarnation p then ([], True, p)
      else case jget (inflight p) (a_seq ack) of
        None \<Rightarrow> ([], True, p)
      | Some fl \<Rightarrow>
          (let p1 = p\<lparr>inflight := jdelete (inflight p) (a_seq ack)\<rparr>;
               (outs, fine, p2) = producer_pump accepts (pending p1) p1
           in (Settle (if_confirm fl) Confirmed (Some (if_seq fl)) # outs, fine, p2)))"

text \<open>The resend timer of a sequence number. The \<^verbatim>\<open>tell\<close> is guarded here.\<close>

definition producer_retransmit ::
  "(('b, unit) delivery \<Rightarrow> bool) \<Rightarrow> ('b, 'c) producer \<Rightarrow> nat \<Rightarrow>
   ('b, 'c) producer_out list \<times> bool \<times> ('b, 'c) producer" where
  "producer_retransmit accepts p n =
     (case jget (inflight p) n of
        None \<Rightarrow> ([], True, p)
      | Some fl \<Rightarrow> (let (outs, _, p1) = producer_send_entry accepts p fl in (outs, True, p1)))"

definition producer_onReceive ::
  "(('b, unit) delivery \<Rightarrow> bool) \<Rightarrow> rat \<Rightarrow> ('b, 'c) producer \<Rightarrow> ('b, 'c) producer_message \<Rightarrow>
   ('b, 'c) producer_out list \<times> bool \<times> ('b, 'c) producer" where
  "producer_onReceive accepts now p msg =
     (case msg of
        Ack ack \<Rightarrow> producer_onAcknowledgment accepts p ack
      | Send s \<Rightarrow> producer_onSend accepts now p s
      | Foreign \<Rightarrow> (let (outs, p1) = producer_onUnhandled now p in (outs, True, p1)))"

definition producer_postStop :: "('b, 'c) producer \<Rightarrow> ('b, 'c) producer_out list \<times> ('b, 'c) producer" where
  "producer_postStop p =
     (map (\<lambda>fl. Settle (if_confirm fl) Producer_Stopped (Some (if_seq fl))) (jvalues (inflight p)) @
      map (\<lambda>s. Settle (s_confirm s) Producer_Stopped None) (pending p),
      p\<lparr>pending := [], inflight := []\<rparr>)"

section \<open>Histories\<close>

text \<open>What happens to a running producer: a message, with what the consumer's \<^verbatim>\<open>tell\<close> does during it,
  or a resend timer. A throw during a message leaves the state as it is.\<close>

datatype ('b, 'c) producer_call =
    Receive "('b, unit) delivery \<Rightarrow> bool" rat "('b, 'c) producer_message"
  | Resend "('b, unit) delivery \<Rightarrow> bool" nat

fun producer_call_apply :: "('b, 'c) producer_call \<Rightarrow> ('b, 'c) producer \<Rightarrow> ('b, 'c) producer_out list \<times> ('b, 'c) producer" where
  "producer_call_apply (Receive accepts now msg) p =
     (let (outs, _, p1) = producer_onReceive accepts now p msg in (outs, p1))"
| "producer_call_apply (Resend accepts n) p = (let (outs, _, p1) = producer_retransmit accepts p n in (outs, p1))"

fun producer_run :: "('b, 'c) producer_call list \<Rightarrow> ('b, 'c) producer \<Rightarrow> ('b, 'c) producer_out list \<times> ('b, 'c) producer" where
  "producer_run [] p = ([], p)"
| "producer_run (c # cs) p =
     (let (outs, p1) = producer_call_apply c p; (outs2, p2) = producer_run cs p1 in (outs @ outs2, p2))"

fun accepted_of :: "('b, 'c) producer_call \<Rightarrow> ('b, 'c) producer_send list" where
  "accepted_of (Receive _ _ (Send s)) = (if s_confirm s = Not_Callable then [] else [s])"
| "accepted_of _ = []"

definition accepted :: "('b, 'c) producer_call list \<Rightarrow> ('b, 'c) producer_send list" where
  "accepted cs = concat (map accepted_of cs)"

fun settled_seq :: "('b, 'c) producer_out \<Rightarrow> nat list" where
  "settled_seq (Settle _ _ (Some n)) = [n]"
| "settled_seq _ = []"

definition settled_seqs :: "('b, 'c) producer_out list \<Rightarrow> nat list" where
  "settled_seqs outs = concat (map settled_seq outs)"

fun settled_confirm :: "('b, 'c) producer_out \<Rightarrow> 'c confirm list" where
  "settled_confirm (Settle c _ _) = [c]"
| "settled_confirm _ = []"

definition settled_confirms :: "('b, 'c) producer_out list \<Rightarrow> 'c confirm list" where
  "settled_confirms outs = concat (map settled_confirm outs)"

lemma settled_append [simp]:
  "settled_seqs (a @ b) = settled_seqs a @ settled_seqs b"
  "settled_confirms (a @ b) = settled_confirms a @ settled_confirms b"
  by (simp_all add: settled_seqs_def settled_confirms_def)

lemma settled_Nil [simp]: "settled_seqs [] = []" "settled_confirms [] = []"
  by (simp_all add: settled_seqs_def settled_confirms_def)

lemma settled_Cons [simp]:
  "settled_seqs (x # b) = settled_seq x @ settled_seqs b"
  "settled_confirms (x # b) = settled_confirm x @ settled_confirms b"
  by (simp_all add: settled_seqs_def settled_confirms_def)

section \<open>The bookkeeping invariant\<close>

text \<open>\<open>ds\<close> are the sends that have been given a number, in that order. What was told to the consumer or
  settled so far (\<open>outs\<close>) carries the numbers, bodies and callbacks of those sends.\<close>

definition told :: "('b, 'c) producer_send list \<Rightarrow> ('b, 'c) producer \<Rightarrow> nat \<Rightarrow> ('b, unit) delivery" where
  "told ds p n = \<lparr>d_producerId = Some (producer_id p), d_incarnation = Some (producer_incarnation p),
     d_seq = Fin (of_nat n), d_body = s_body (ds ! (n - 1)), d_replyTo = Some ()\<rparr>"

fun out_ok :: "('b, 'c) producer_send list \<Rightarrow> ('b, 'c) producer \<Rightarrow> ('b, 'c) producer_out \<Rightarrow> bool" where
  "out_ok ds p (Tell d) = (\<exists>n \<in> {1..length ds}. d = told ds p n)"
| "out_ok ds p (Settle c outcome (Some n)) = (outcome = Confirmed \<and> n \<in> {1..length ds} \<and> c = s_confirm (ds ! (n - 1)))"
| "out_ok ds p (Settle c outcome None) = False"
| "out_ok ds p _ = True"

fun entry_ok :: "('b, 'c) producer_send list \<Rightarrow> nat \<Rightarrow> ('b, 'c) inflight_entry \<Rightarrow> bool" where
  "entry_ok ds n fl = (if_seq fl = n \<and> if_body fl = s_body (ds ! (n - 1)) \<and> if_confirm fl = s_confirm (ds ! (n - 1)))"

definition producer_inv :: "('b, 'c) producer_send list \<Rightarrow> ('b, 'c) producer_out list \<Rightarrow> ('b, 'c) producer \<Rightarrow> bool" where
  "producer_inv ds outs p \<longleftrightarrow>
     jwf (inflight p) \<and> nextSeq p = Suc (length ds) \<and> length (inflight p) \<le> windowSize p \<and>
     (\<forall>n fl. jget (inflight p) n = Some fl \<longrightarrow> entry_ok ds n fl \<and> timer fl) \<and>
     distinct (settled_seqs outs) \<and> set (settled_seqs outs) \<inter> dom (jget (inflight p)) = {} \<and>
     set (settled_seqs outs) \<union> dom (jget (inflight p)) = {1..length ds} \<and>
     (\<forall>x \<in> set outs. out_ok ds p x)"

lemma producer_inv_dest:
  assumes "producer_inv ds outs p"
  shows "jwf (inflight p)" "nextSeq p = Suc (length ds)" "length (inflight p) \<le> windowSize p"
    "jget (inflight p) n = Some fl \<Longrightarrow> entry_ok ds n fl \<and> timer fl \<and> n \<in> {1..length ds}"
    "x \<in> set outs \<Longrightarrow> out_ok ds p x"
  using assms unfolding producer_inv_def by blast+

lemma out_ok_cong:
  assumes "producer_id q = producer_id p" "producer_incarnation q = producer_incarnation p"
  shows "out_ok ds q x = out_ok ds p x"
proof -
  have "told ds q = told ds p" using assms by (simp add: told_def fun_eq_iff)
  then show ?thesis by (cases "(ds, p, x)" rule: out_ok.cases) simp_all
qed

text \<open>Only the in-flight table, the number counter and the outputs matter.\<close>

lemma producer_inv_cong:
  assumes "producer_inv ds outs p" "inflight q = inflight p" "nextSeq q = nextSeq p" "windowSize q = windowSize p"
    "producer_id q = producer_id p" "producer_incarnation q = producer_incarnation p"
  shows "producer_inv ds outs q"
  using assms by (simp add: producer_inv_def out_ok_cong [OF assms(5,6)])

lemma out_ok_told: "n \<in> {1..length ds} \<Longrightarrow> out_ok ds p (Tell (told ds p n))"
  by (simp only: out_ok.simps) blast

lemma out_ok_mono: "out_ok ds p x \<Longrightarrow> out_ok (ds @ [m]) p x"
proof (cases "(ds, p, x)" rule: out_ok.cases)
  case (1 ds' p' d)
  moreover assume "out_ok ds p x"
  ultimately obtain n where n: "n \<in> {1..length ds}" "d = told ds p n" by auto
  then have "d = told (ds @ [m]) p n" by (auto simp: told_def nth_append)
  with n(1) have "\<exists>n \<in> {1..length (ds @ [m])}. d = told (ds @ [m]) p n" by (intro bexI [of _ n]) auto
  with 1 show ?thesis by simp
qed (auto simp: nth_append)

lemma producer_dispatch_eq:
  "producer_dispatch accepts p msg =
     (let fl = \<lparr>if_seq = nextSeq p, if_body = s_body msg, if_confirm = s_confirm msg, attempts = 1, timer = True\<rparr>;
          p1 = p\<lparr>nextSeq := nextSeq p + 1, inflight := jset (inflight p) (nextSeq p) fl\<rparr>;
          d = delivery_of p1 fl
      in if accepts d then ([Tell d], True, p1) else ([], False, p1))"
  by (simp add: producer_dispatch_def producer_send_entry_def Let_def delivery_of_def jset_def)

lemma producer_dispatch_inv:
  assumes inv: "producer_inv ds outs p" and room: "length (inflight p) < windowSize p"
    and run: "producer_dispatch accepts p msg = (outs', fine, p')"
  shows "producer_inv (ds @ [msg]) (outs @ outs') p' \<and> pending p' = pending p \<and> inflight p' \<noteq> [] \<and>
    windowSize p' = windowSize p"
proof -
  note dest = producer_inv_dest [OF inv]
  define fl where "fl = \<lparr>if_seq = nextSeq p, if_body = s_body msg, if_confirm = s_confirm msg, attempts = 1, timer = True\<rparr>"
  have p': "p' = p\<lparr>nextSeq := nextSeq p + 1, inflight := jset (inflight p) (nextSeq p) fl\<rparr>"
    and outs': "outs' = [] \<or> outs' = [Tell (told (ds @ [msg]) p' (Suc (length ds)))]"
    using run dest(2) by (auto simp: producer_dispatch_eq Let_def fl_def told_def delivery_of_def split: if_splits)
  have new: "jget (inflight p) (nextSeq p) = None"
    using dest(4) [of "nextSeq p"] dest(2) by (cases "jget (inflight p) (nextSeq p)") auto
  have old: "out_ok (ds @ [msg]) p' x" if "x \<in> set outs" for x
    using out_ok_mono [OF dest(5) [OF that]] out_ok_cong [of p' p] by (simp add: p')
  have entries: "entry_ok (ds @ [msg]) n e \<and> timer e" if "jget (inflight p') n = Some e" for n e
    using that dest(4) [of n e] dest(2)
    by (cases "n = nextSeq p") (auto simp: p' fl_def nth_append)
  have settled: "settled_seqs outs' = []" using outs' by auto
  have dom: "dom (jget (inflight p')) = insert (Suc (length ds)) (dom (jget (inflight p)))"
    by (simp add: p' dest(2))
  have part: "set (settled_seqs outs) \<inter> dom (jget (inflight p)) = {}"
    "set (settled_seqs outs) \<union> dom (jget (inflight p)) = {1..length ds}" "distinct (settled_seqs outs)"
    using inv by (simp_all add: producer_inv_def)
  have "producer_inv (ds @ [msg]) (outs @ outs') p'"
    unfolding producer_inv_def settled_append settled dom
  proof (intro conjI allI impI ballI)
    show "jwf (inflight p')" using dest(1) by (simp add: p')
    show "nextSeq p' = Suc (length (ds @ [msg]))" using dest(2) by (simp add: p')
    show "length (inflight p') \<le> windowSize p'" using room by (simp add: p' jset_new [OF new])
    show "distinct (settled_seqs outs @ [])" using part by simp
    have "set (settled_seqs outs) \<subseteq> {1..length ds}" using part(2) by blast
    then have "Suc (length ds) \<notin> set (settled_seqs outs)" by auto
    then show "set (settled_seqs outs @ []) \<inter> insert (Suc (length ds)) (dom (jget (inflight p))) = {}" using part(1) by auto
    show "set (settled_seqs outs @ []) \<union> insert (Suc (length ds)) (dom (jget (inflight p))) = {1..length (ds @ [msg])}"
      using part(2) by (auto simp: atLeastAtMostSuc_conv)
    show "entry_ok (ds @ [msg]) n e" "timer e" if "jget (inflight p') n = Some e" for n e
      using entries [OF that] by simp_all
    show "out_ok (ds @ [msg]) p' x" if "x \<in> set (outs @ outs')" for x
      using that old outs' out_ok_told [of "Suc (length ds)" "ds @ [msg]" p'] by (auto simp del: out_ok.simps)
  qed
  then show ?thesis by (simp add: p' jset_new [OF new])
qed

lemma producer_resend_inv:
  assumes inv: "producer_inv ds outs p" and fl: "jget (inflight p) n = Some fl"
    and run: "producer_send_entry accepts p fl = (outs', fine, p')"
  shows "producer_inv ds (outs @ outs') p' \<and> pending p' = pending p \<and> length (inflight p') = length (inflight p)"
proof -
  note dest = producer_inv_dest [OF inv]
  have e: "entry_ok ds n fl" "n \<in> {1..length ds}" using dest(4) [OF fl] by auto
  define fl' where "fl' = fl\<lparr>attempts := attempts fl + 1, timer := True\<rparr>"
  have p': "p' = p\<lparr>inflight := jset (inflight p) n fl'\<rparr>" and outs': "outs' = [] \<or> outs' = [Tell (told ds p n)]"
    using run e(1) by (auto simp: producer_send_entry_def Let_def fl'_def told_def delivery_of_def split: if_splits)
  have dom: "dom (jget (inflight p')) = dom (jget (inflight p))" using fl by (auto simp: p')
  have len: "length (inflight p') = length (inflight p)"
    using dest(1) dom jsize_card [of "inflight p"] jsize_card [of "inflight p'"] by (simp add: p')
  have oo: "out_ok ds p' x = out_ok ds p x" for x by (rule out_ok_cong) (simp_all add: p')
  have entries: "entry_ok ds m e' \<and> timer e'" if "jget (inflight p') m = Some e'" for m e'
    using that dest(4) [of m e'] e(1) by (cases "m = n") (auto simp: p' fl'_def)
  have settled: "settled_seqs outs' = []" using outs' by auto
  have oks: "\<forall>x \<in> set outs'. out_ok ds p x" using outs' out_ok_told [OF e(2), of p] by (auto simp del: out_ok.simps)
  have "producer_inv ds (outs @ outs') p'"
    unfolding producer_inv_def settled_append settled dom len
  proof (intro conjI allI impI ballI)
    show "jwf (inflight p')" "nextSeq p' = Suc (length ds)" "length (inflight p) \<le> windowSize p'"
      using dest(1-3) by (simp_all add: p')
    show "entry_ok ds m e'" "timer e'" if "jget (inflight p') m = Some e'" for m e'
      using entries [OF that] by blast+
    show "out_ok ds p' x" if "x \<in> set (outs @ outs')" for x
      using that dest(5) oks unfolding oo by auto
  qed (use inv in \<open>simp_all add: producer_inv_def\<close>)
  then show ?thesis using len by (simp add: p')
qed

lemma producer_pump_inv:
  assumes "producer_inv ds outs p" "producer_pump accepts ms p = (outs', fine, p')"
  shows "\<exists>k \<le> length ms. producer_inv (ds @ take k ms) (outs @ outs') p' \<and> pending p' = drop k ms \<and>
    windowSize p' = windowSize p \<and>
    (k < length ms \<longrightarrow> 0 < windowSize p \<longrightarrow> inflight p' \<noteq> []) \<and>
    ((\<forall>d. accepts d) \<longrightarrow> k < length ms \<longrightarrow> length (inflight p') \<ge> windowSize p)"
  using assms
proof (induction accepts ms p arbitrary: ds outs outs' fine p' rule: producer_pump.induct)
  case (1 accepts p)
  then show ?case by (auto intro: producer_inv_cong)
next
  case (2 accepts msg rest p)
  show ?case
  proof (cases "length (inflight p) < windowSize p")
    case False
    with 2(3) have "p' = p\<lparr>pending := msg # rest\<rparr>" "outs' = []" by auto
    with 2(2) False show ?thesis by (intro exI [of _ 0]) (auto intro: producer_inv_cong)
  next
    case True
    obtain o1 fine1 p1 where d: "producer_dispatch accepts (p\<lparr>pending := rest\<rparr>) msg = (o1, fine1, p1)"
      by (metis prod_cases3)
    have "producer_inv ds outs (p\<lparr>pending := rest\<rparr>)" using 2(2) by (auto intro: producer_inv_cong)
    from producer_dispatch_inv [OF this _ d] True
    have inv1: "producer_inv (ds @ [msg]) (outs @ o1) p1" "pending p1 = rest" "inflight p1 \<noteq> []" "windowSize p1 = windowSize p"
      by simp_all
    show ?thesis
    proof (cases fine1)
      case False
      with 2(3) True d have "p' = p1" "outs' = o1" by auto
      moreover have "\<not> (\<forall>d. accepts d)"
        using False d by (auto simp: producer_dispatch_eq Let_def split: if_splits)
      ultimately show ?thesis using inv1 by (intro exI [of _ 1]) auto
    next
      case fine: True
      obtain o2 fine2 p2 where r: "producer_pump accepts rest p1 = (o2, fine2, p2)" by (metis prod_cases3)
      have eq: "p' = p2" "outs' = o1 @ o2" using 2(3) True d fine r by auto
      have "fine1 = True" using fine by simp
      note IH = 2(1) [OF True d [symmetric] refl this inv1(1) r]
      obtain k where k: "k \<le> length rest" "producer_inv ((ds @ [msg]) @ take k rest) ((outs @ o1) @ o2) p2"
        "pending p2 = drop k rest" "windowSize p2 = windowSize p1"
        "k < length rest \<longrightarrow> 0 < windowSize p1 \<longrightarrow> inflight p2 \<noteq> []"
        "(\<forall>d. accepts d) \<longrightarrow> k < length rest \<longrightarrow> length (inflight p2) \<ge> windowSize p1"
        using IH by (elim exE conjE) (rule that)
      with eq inv1(4) show ?thesis by (intro exI [of _ "Suc k"]) auto
    qed
  qed
qed

section \<open>Every send is accounted for\<close>

fun calm :: "('b, 'c) producer_call \<Rightarrow> bool" where
  "calm (Receive accepts _ _) = (\<forall>d. accepts d)"
| "calm (Resend accepts _) = (\<forall>d. accepts d)"

text \<open>\<open>quiet\<close>: no \<^verbatim>\<open>tell\<close> has thrown so far. Then numbers follow the order of the sends.\<close>

definition producer_history ::
  "bool \<Rightarrow> ('b, 'c) producer_send list \<Rightarrow> ('b, 'c) producer_send list \<Rightarrow> ('b, 'c) producer_out list \<Rightarrow> ('b, 'c) producer \<Rightarrow> bool" where
  "producer_history quiet acc ds outs p \<longleftrightarrow>
     producer_inv ds outs p \<and> mset acc = mset (ds @ pending p) \<and> 0 < windowSize p \<and>
     (pending p \<noteq> [] \<longrightarrow> inflight p \<noteq> []) \<and>
     (quiet \<longrightarrow> acc = ds @ pending p \<and> (pending p \<noteq> [] \<longrightarrow> length (inflight p) \<ge> windowSize p))"

lemma producer_history_silent:
  assumes "producer_history quiet acc ds outs p" "settled_seqs outs' = []" "\<forall>x \<in> set outs'. out_ok ds p x"
    "inflight q = inflight p" "nextSeq q = nextSeq p" "windowSize q = windowSize p" "pending q = pending p"
    "producer_id q = producer_id p" "producer_incarnation q = producer_incarnation p"
  shows "producer_history quiet acc ds (outs @ outs') q"
proof -
  have "producer_inv ds (outs @ outs') p" using assms(1-3) by (auto simp: producer_history_def producer_inv_def)
  then have "producer_inv ds (outs @ outs') q" by (rule producer_inv_cong) (use assms in simp_all)
  with assms show ?thesis by (simp add: producer_history_def)
qed

lemma producer_unhandled_history:
  assumes "producer_history quiet acc ds outs p" "producer_onUnhandled now p = (outs', q)"
  shows "producer_history quiet acc ds (outs @ outs') q"
proof (rule producer_history_silent [OF assms(1)])
  show "settled_seqs outs' = []" "\<forall>x \<in> set outs'. out_ok ds p x" "inflight q = inflight p" "nextSeq q = nextSeq p"
    "windowSize q = windowSize p" "pending q = pending p"
    "producer_id q = producer_id p" "producer_incarnation q = producer_incarnation p"
    using assms(2)
    by (auto simp: producer_onUnhandled_def producer_reportUnhandled_def Let_def split: prod.splits option.splits)
qed

lemma producer_send_history:
  assumes h: "producer_history quiet acc ds outs p" and run: "producer_onSend accepts now p msg = (outs', fine, q)"
    and ok: "s_confirm msg \<noteq> Not_Callable"
  shows "\<exists>ds'. producer_history (quiet \<and> (\<forall>d. accepts d)) (acc @ [msg]) ds' (outs @ outs') q"
proof (cases "length (inflight p) \<ge> windowSize p")
  case True
  with run ok have q: "q = p\<lparr>pending := pending p @ [msg]\<rparr>" "outs' = []" by (auto simp: producer_onSend_def)
  have "producer_inv ds outs q"
    by (rule producer_inv_cong [of ds outs p]) (use h in \<open>simp_all add: q producer_history_def\<close>)
  with h q True show ?thesis by (intro exI [of _ ds]) (auto simp: producer_history_def)
next
  case False
  with run ok have d: "producer_dispatch accepts p msg = (outs', fine, q)" by (simp add: producer_onSend_def)
  from h have inv: "producer_inv ds outs p" by (simp add: producer_history_def)
  note post = producer_dispatch_inv [OF inv _ d]
  show ?thesis
    by (intro exI [of _ "ds @ [msg]"])
      (use post False h in \<open>auto simp: producer_history_def\<close>)
qed

lemma producer_inv_settle:
  assumes inv: "producer_inv ds outs p" and fl: "jget (inflight p) n = Some fl"
  shows "producer_inv ds (outs @ [Settle (if_confirm fl) Confirmed (Some (if_seq fl))]) (p\<lparr>inflight := jdelete (inflight p) n\<rparr>)"
    (is "producer_inv ds (outs @ [?s]) ?p")
proof -
  note dest = producer_inv_dest [OF inv]
  have e: "if_seq fl = n" "if_confirm fl = s_confirm (ds ! (n - 1))" "n \<in> {1..length ds}" using dest(4) [OF fl] by auto
  have part: "set (settled_seqs outs) \<inter> dom (jget (inflight p)) = {}"
    "set (settled_seqs outs) \<union> dom (jget (inflight p)) = {1..length ds}" "distinct (settled_seqs outs)"
    using inv by (simp_all add: producer_inv_def)
  have n: "n \<in> dom (jget (inflight p))" using fl by blast
  have len: "length (jdelete (inflight p) n) \<le> length (inflight p)" by (simp add: jdelete_def length_delete_le)
  show ?thesis
    unfolding producer_inv_def
  proof (intro conjI allI impI ballI)
    show "jwf (inflight ?p)" "nextSeq ?p = Suc (length ds)" "length (inflight ?p) \<le> windowSize ?p"
      using dest(1-3) len by simp_all
    show "entry_ok ds m e'" "timer e'" if "jget (inflight ?p) m = Some e'" for m e'
      using that dest(4) [of m e'] by (auto split: if_splits)
    show "distinct (settled_seqs (outs @ [?s]))" using part n e(1) by auto
    show "set (settled_seqs (outs @ [?s])) \<inter> dom (jget (inflight ?p)) = {}" using part(1) e(1) by auto
    show "set (settled_seqs (outs @ [?s])) \<union> dom (jget (inflight ?p)) = {1..length ds}" using part(2) e(1) n by auto
    show "out_ok ds ?p x" if "x \<in> set (outs @ [?s])" for x
      using that dest(5) e out_ok_cong [of ?p p ds] by auto
  qed
qed

lemma producer_ack_history:
  assumes h: "producer_history quiet acc ds outs p" and run: "producer_onAcknowledgment accepts p ack = (outs', fine, q)"
  shows "\<exists>ds'. producer_history (quiet \<and> (\<forall>d. accepts d)) acc ds' (outs @ outs') q"
proof (cases "outs' = [] \<and> q = p")
  case True
  with h show ?thesis by (intro exI [of _ ds]) (simp add: producer_history_def)
next
  case False
  with run obtain fl where fl: "jget (inflight p) (a_seq ack) = Some fl"
    by (auto simp: producer_onAcknowledgment_def split: if_splits option.splits)
  let ?p = "p\<lparr>inflight := jdelete (inflight p) (a_seq ack)\<rparr>"
  let ?s = "Settle (if_confirm fl) Confirmed (Some (if_seq fl))"
  obtain outs2 fine2 q2 where pump: "producer_pump accepts (pending ?p) ?p = (outs2, fine2, q2)" by (metis prod_cases3)
  have eq: "q = q2" "outs' = ?s # outs2" using run False fl pump
    by (auto simp: producer_onAcknowledgment_def split: if_splits)
  have "producer_inv ds (outs @ [?s]) ?p"
    using h by (intro producer_inv_settle [OF _ fl]) (simp add: producer_history_def)
  from producer_pump_inv [OF this pump]
  obtain k where k: "k \<le> length (pending p)" "producer_inv (ds @ take k (pending p)) ((outs @ [?s]) @ outs2) q2"
    "pending q2 = drop k (pending p)" "windowSize q2 = windowSize p"
    "k < length (pending p) \<longrightarrow> 0 < windowSize p \<longrightarrow> inflight q2 \<noteq> []"
    "(\<forall>d. accepts d) \<longrightarrow> k < length (pending p) \<longrightarrow> length (inflight q2) \<ge> windowSize p"
    by (elim exE conjE) (rule that, simp_all)
  have parts: "mset (take k (pending p)) + mset (drop k (pending p)) = mset (pending p)"
    by (metis append_take_drop_id mset_append)
  have rest: "pending q2 \<noteq> [] \<Longrightarrow> k < length (pending p)" using k(1,3) by auto
  have "producer_history (quiet \<and> (\<forall>d. accepts d)) acc (ds @ take k (pending p)) (outs @ outs') q"
    unfolding producer_history_def eq
  proof (intro conjI impI)
    show "producer_inv (ds @ take k (pending p)) (outs @ ?s # outs2) q2" using k(2) by simp
    show "mset acc = mset ((ds @ take k (pending p)) @ pending q2)"
      using h parts k(3) by (simp add: producer_history_def add.assoc)
    show "0 < windowSize q2" using h k(4) by (simp add: producer_history_def)
    then show "pending q2 \<noteq> [] \<Longrightarrow> inflight q2 \<noteq> []" using k(4,5) rest by simp
    show "acc = (ds @ take k (pending p)) @ pending q2" if "quiet \<and> (\<forall>d. accepts d)"
      using h k(3) that by (simp add: producer_history_def)
    show "windowSize q2 \<le> length (inflight q2)" if "quiet \<and> (\<forall>d. accepts d)" "pending q2 \<noteq> []"
      using k(4,6) rest that by simp
  qed
  then show ?thesis by blast
qed

lemma producer_call_history:
  assumes h: "producer_history quiet acc ds outs p" and run: "producer_call_apply c p = (outs', q)"
  shows "\<exists>ds'. producer_history (quiet \<and> calm c) (acc @ accepted_of c) ds' (outs @ outs') q"
proof (cases c)
  case (Resend accepts n)
  show ?thesis
  proof (cases "jget (inflight p) n")
    case None
    with Resend run h show ?thesis
      by (intro exI [of _ ds]) (auto simp: producer_retransmit_def producer_history_def)
  next
    case (Some fl)
    obtain fine where send: "producer_send_entry accepts p fl = (outs', fine, q)"
      using run Resend Some by (auto simp: producer_retransmit_def Let_def split: prod.splits)
    have "producer_inv ds outs p" using h by (simp add: producer_history_def)
    note post = producer_resend_inv [OF this Some send]
    have "windowSize q = windowSize p"
      using send by (auto simp: producer_send_entry_def Let_def split: if_splits)
    moreover have "inflight q = [] \<longleftrightarrow> inflight p = []" using post by (metis length_0_conv)
    ultimately show ?thesis using post h Resend
      by (intro exI [of _ ds]) (simp add: producer_history_def)
  qed
next
  case (Receive accepts now msg)
  then obtain fine where rec: "producer_onReceive accepts now p msg = (outs', fine, q)"
    using run by (auto split: prod.splits)
  show ?thesis
  proof (cases msg)
    case (Ack ack)
    with rec Receive producer_ack_history [OF h] show ?thesis by (simp add: producer_onReceive_def)
  next
    case Foreign
    with rec have "producer_onUnhandled now p = (outs', q)" by (auto simp: producer_onReceive_def split: prod.splits)
    from producer_unhandled_history [OF h this] Foreign Receive show ?thesis
      by (intro exI [of _ ds]) (auto simp: producer_history_def)
  next
    case (Send m)
    show ?thesis
    proof (cases "s_confirm m = Not_Callable")
      case True
      with rec Send have "producer_onUnhandled now p = (outs', q)"
        by (auto simp: producer_onReceive_def producer_onSend_def split: prod.splits)
      from producer_unhandled_history [OF h this] Send Receive True show ?thesis
        by (intro exI [of _ ds]) (auto simp: producer_history_def)
    next
      case False
      with rec Send have "producer_onSend accepts now p m = (outs', fine, q)" by (simp add: producer_onReceive_def)
      from producer_send_history [OF h this False] Send Receive False show ?thesis by simp
    qed
  qed
qed

lemma producer_run_history:
  assumes "producer_history quiet acc ds outs p" "producer_run cs p = (outs', q)"
  shows "\<exists>ds'. producer_history (quiet \<and> (\<forall>c \<in> set cs. calm c)) (acc @ accepted cs) ds' (outs @ outs') q"
  using assms
proof (induction cs arbitrary: quiet acc ds outs p outs')
  case Nil
  then show ?case by (auto simp: accepted_def)
next
  case (Cons c cs)
  obtain o1 p1 o2 where c: "producer_call_apply c p = (o1, p1)" and r: "producer_run cs p1 = (o2, q)" "outs' = o1 @ o2"
    using Cons.prems(2) by (auto split: prod.splits)
  from producer_call_history [OF Cons.prems(1) c]
  obtain ds1 where "producer_history (quiet \<and> calm c) (acc @ accepted_of c) ds1 (outs @ o1) p1" by blast
  from Cons.IH [OF this r(1)] show ?case by (simp add: accepted_def r(2) conj_assoc)
qed

lemma producer_pump_config:
  "windowSize (snd (snd (producer_pump accepts ms p))) = windowSize p \<and>
   producer_id (snd (snd (producer_pump accepts ms p))) = producer_id p \<and>
   producer_incarnation (snd (snd (producer_pump accepts ms p))) = producer_incarnation p"
proof (induction accepts ms p rule: producer_pump.induct)
  case (2 accepts msg rest p)
  obtain o1 fine1 p1 where d: "producer_dispatch accepts (p\<lparr>pending := rest\<rparr>) msg = (o1, fine1, p1)"
    by (metis prod_cases3)
  have "windowSize p1 = windowSize p" "producer_id p1 = producer_id p" "producer_incarnation p1 = producer_incarnation p"
    using d by (auto simp: producer_dispatch_eq Let_def split: if_splits)
  with 2 d show ?case by (cases fine1) (auto split: prod.splits)
qed simp

lemma producer_call_config:
  "windowSize (snd (producer_call_apply c p)) = windowSize p \<and>
   producer_id (snd (producer_call_apply c p)) = producer_id p \<and>
   producer_incarnation (snd (producer_call_apply c p)) = producer_incarnation p"
proof (cases c)
  case (Resend accepts n)
  then show ?thesis
    by (auto simp: producer_retransmit_def producer_send_entry_def Let_def split: option.splits prod.splits if_splits)
next
  case (Receive accepts now msg)
  show ?thesis
  proof (cases msg)
    case (Ack ack)
    with Receive show ?thesis
      using producer_pump_config [of accepts "pending p" "p\<lparr>inflight := jdelete (inflight p) (a_seq ack)\<rparr>"]
      by (auto simp: producer_onReceive_def producer_onAcknowledgment_def Let_def split: option.splits prod.splits if_splits)
  qed (use Receive in \<open>auto simp: producer_onReceive_def producer_onSend_def producer_dispatch_eq producer_onUnhandled_def
        producer_reportUnhandled_def Let_def split: prod.splits if_splits\<close>)
qed

lemma producer_run_window: "windowSize (snd (producer_run cs p)) = windowSize p"
proof (induction cs arbitrary: p)
  case (Cons c cs)
  then show ?case using producer_call_config [of c p] by (simp add: split_beta)
qed simp

lemma producer_history_new: "0 < w \<Longrightarrow> producer_history True [] [] [] (producer_new i inc w)"
  by (simp add: producer_history_def producer_inv_def producer_new_def jget_map_of)

lemma settled_confirms_numbered:
  "\<forall>x \<in> set outs. out_ok ds p x \<Longrightarrow> settled_confirms outs = map (\<lambda>n. s_confirm (ds ! (n - 1))) (settled_seqs outs)"
proof (induction outs)
  case (Cons x outs)
  have "settled_confirm x = map (\<lambda>n. s_confirm (ds ! (n - 1))) (settled_seq x)"
    using Cons.prems by (cases "(ds, p, x)" rule: out_ok.cases) auto
  with Cons show ?case by simp
qed simp

text \<open>At any moment, stopping the producer calls every remaining callback: each accepted send's callback
  has then been called exactly once.\<close>

lemma producer_stop_settles:
  assumes "producer_history quiet acc ds outs p"
  shows "mset (settled_confirms (outs @ fst (producer_postStop p))) = mset (map s_confirm acc)"
proof -
  let ?f = "\<lambda>n. s_confirm (ds ! (n - 1))"
  have inv: "producer_inv ds outs p" and acc: "mset acc = mset (ds @ pending p)"
    using assms by (simp_all add: producer_history_def)
  note dest = producer_inv_dest [OF inv]
  have stop: "settled_confirms (fst (producer_postStop p)) = map if_confirm (jvalues (inflight p)) @ map s_confirm (pending p)"
    by (simp add: producer_postStop_def settled_confirms_def comp_def concat_map_singleton)
  have "if_confirm e = ?f n" if "(n, e) \<in> set (inflight p)" for n e
    using that dest(4) [of n e] jget_in_eq [OF dest(1)] by auto
  then have vals: "map if_confirm (jvalues (inflight p)) = map ?f (jkeys (inflight p))"
    by (auto simp: jvalues_def jkeys_def)
  have "distinct (settled_seqs outs @ jkeys (inflight p))" "set (settled_seqs outs @ jkeys (inflight p)) = set [1..<Suc (length ds)]"
    using inv dest(1) by (auto simp: producer_inv_def jkeys_set jkeys_def [symmetric] jwf_def)
  then have seqs: "mset (settled_seqs outs @ jkeys (inflight p)) = mset [1..<Suc (length ds)]"
    by (metis distinct_upt set_eq_iff_mset_eq_distinct)
  have "map ?f [1..<Suc (length ds)] = map s_confirm ds"
    by (rule nth_equalityI) (simp_all del: upt_Suc)
  then have "mset (map s_confirm ds) = image_mset ?f (mset (settled_seqs outs @ jkeys (inflight p)))"
    by (metis mset_map seqs)
  moreover have "mset (map s_confirm acc) = mset (map s_confirm ds) + mset (map s_confirm (pending p))"
    by (metis acc image_mset_union mset_append mset_map)
  moreover have "settled_confirms outs = map ?f (settled_seqs outs)"
    by (rule settled_confirms_numbered) (use dest(5) in blast)
  ultimately show ?thesis by (simp add: stop vals add.assoc)
qed

text \<open>
  C21: after any history of messages and resend timers, a producer with a positive window has at most
  the window in flight and nothing queued without something in flight (so an acknowledgment that
  drains the queue is still to come); every delivery it told carries the number and body of one
  numbered send; an accepted send is numbered or queued, in send order as long as the consumer's \<^verbatim>\<open>tell\<close>
  never threw; and once the producer stops, the callback of every accepted send has been called exactly once.
\<close>

theorem producer_accounts_for_every_send:
  assumes "0 < w" and run: "producer_run cs (producer_new i inc w) = (outs, p)"
  shows "\<exists>ds. mset (accepted cs) = mset (ds @ pending p) \<and>
    ((\<forall>c \<in> set cs. calm c) \<longrightarrow> accepted cs = ds @ pending p) \<and>
    length (inflight p) \<le> w \<and> (pending p \<noteq> [] \<longrightarrow> inflight p \<noteq> []) \<and>
    (\<forall>d. Tell d \<in> set outs \<longrightarrow> (\<exists>n \<in> {1..length ds}. d = told ds p n)) \<and>
    mset (settled_confirms (outs @ fst (producer_postStop p))) = mset (map s_confirm (accepted cs))"
proof -
  obtain ds where h: "producer_history (\<forall>c \<in> set cs. calm c) (accepted cs) ds outs p"
    using producer_run_history [OF producer_history_new [OF assms(1)] run] by auto
  have "windowSize p = w" using run producer_run_window [of cs "producer_new i inc w"] by (simp add: producer_new_def)
  then have "length (inflight p) \<le> w" using h by (auto simp: producer_history_def producer_inv_def)
  moreover have "\<forall>d. Tell d \<in> set outs \<longrightarrow> (\<exists>n \<in> {1..length ds}. d = told ds p n)"
    using h by (force simp: producer_history_def producer_inv_def)
  moreover note producer_stop_settles [OF h]
  ultimately show ?thesis using h by (intro exI [of _ ds]) (simp add: producer_history_def)
qed

theorem producer_accounts_for_every_send_witness:
  "let cs = [Receive (\<lambda>_. True) 0 (Send \<lparr>s_body = ''x'', s_confirm = Callback (1 :: nat)\<rparr>),
             Receive (\<lambda>_. True) 0 (Send \<lparr>s_body = ''y'', s_confirm = Callback 2\<rparr>),
             Receive (\<lambda>_. True) 0 (Ack \<lparr>a_producerId = ''p'', a_incarnation = ''i'', a_seq = 1\<rparr>)];
       (outs, p) = producer_run cs (producer_new ''p'' ''i'' 1)
   in mset (settled_confirms (outs @ fst (producer_postStop p))) = {#Callback 1, Callback 2#}"
proof -
  let ?cs = "[Receive (\<lambda>_. True) 0 (Send \<lparr>s_body = ''x'', s_confirm = Callback (1 :: nat)\<rparr>),
             Receive (\<lambda>_. True) 0 (Send \<lparr>s_body = ''y'', s_confirm = Callback 2\<rparr>),
             Receive (\<lambda>_. True) 0 (Ack \<lparr>a_producerId = ''p'', a_incarnation = ''i'', a_seq = 1\<rparr>)]"
  obtain outs p where run: "producer_run ?cs (producer_new ''p'' ''i'' 1) = (outs, p)" by (metis surj_pair)
  from producer_accounts_for_every_send [OF _ run]
  have "mset (settled_confirms (outs @ fst (producer_postStop p))) = mset (map s_confirm (accepted ?cs))" by auto
  then show ?thesis unfolding Let_def run by (simp add: accepted_def)
qed

end
