(* ===== verification/Delivery_Consumer.thy ===== *)
theory Delivery_Consumer
  imports Delivery_Producer
begin

text \<open>
  The receiving half of reliable delivery: \<^verbatim>\<open>src/src/delivery/ConsumerController.ts\<close>.

  A delivery is handled in two parts, because the user's handler is awaited in between: \<open>consumer_begin\<close>
  runs up to the call of the handler, \<open>consumer_finish\<close> what follows it, given whether the handler threw.
  Between the two the idle sweep may run; no other delivery does, since the cell awaits the returned
  promise. \<open>None\<close> for a limit is \<^verbatim>\<open>Infinity\<close>. The clock readings of one call are the argument \<open>now\<close>.

  The locale \<open>dedup_window\<close> is what the controller needs of the per-producer record: which sequence
  numbers it has seen. The code's pair of a contiguous prefix and a set above it interprets it.
\<close>

section \<open>State\<close>

record dedup_state =
  ds_incarnation :: string
  contiguous :: nat
  above :: "nat jset"
  lastSeenAtMs :: rat

record consumer =
  deduplication :: "(string, dedup_state) jmap"
  maxProducers :: "nat option"
  producerIdleTtlMs :: "rat option"
  maxOutOfOrder :: "nat option"
  evictedSinceReport :: nat
  lastEvictionReportAtMs :: rat
  refusedSinceReport :: nat
  lastRefusalReportAtMs :: rat
  c_unhandledSinceReport :: nat
  c_lastUnhandledReportAtMs :: "rat option"

definition consumer_new :: "nat option \<Rightarrow> rat option \<Rightarrow> nat option \<Rightarrow> consumer" where
  "consumer_new producers ttl outOfOrder = \<lparr>deduplication = [], maxProducers = producers, producerIdleTtlMs = ttl,
     maxOutOfOrder = outOfOrder, evictedSinceReport = 0, lastEvictionReportAtMs = 0, refusedSinceReport = 0,
     lastRefusalReportAtMs = 0, c_unhandledSinceReport = 0, c_lastUnhandledReportAtMs = None\<rparr>"

datatype consumer_out =
    Acknowledge acknowledgment
  | Consumer_Dead_Letter
  | Warn_Evicted nat
  | Warn_Refused nat
  | Warn_Declined nat

section \<open>The record of one producer\<close>

text \<open>The slide of \<^verbatim>\<open>markDelivered\<close>: while the successor is in the set above, it moves below.\<close>

function slide :: "nat \<Rightarrow> nat jset \<Rightarrow> nat \<times> nat jset" where
  "slide c ab = (if c + 1 \<in> set ab then slide (c + 1) (sdel ab (c + 1)) else (c, ab))"
  by pat_completeness auto
termination
  by (relation "measure (\<lambda>(c, ab). card (set ab))") (auto simp: card_gt_0_iff intro!: diff_less)

declare slide.simps [simp del]

definition markDelivered :: "dedup_state \<Rightarrow> nat \<Rightarrow> dedup_state" where
  "markDelivered st n =
     (if n = contiguous st + 1
      then (let (c, ab) = slide (contiguous st + 1) (above st) in st\<lparr>contiguous := c, above := ab\<rparr>)
      else st\<lparr>above := sadd (above st) n\<rparr>)"

definition isDuplicate :: "dedup_state \<Rightarrow> nat \<Rightarrow> bool" where
  "isDuplicate st n = (n \<le> contiguous st \<or> n \<in> set (above st))"

definition hasOutOfOrderRoom :: "nat option \<Rightarrow> dedup_state \<Rightarrow> nat \<Rightarrow> bool" where
  "hasOutOfOrderRoom limit st n =
     (n = contiguous st + 1 \<or> (case limit of None \<Rightarrow> True | Some k \<Rightarrow> length (above st) < k))"

section \<open>Operations\<close>

definition MAX_DELIVERY_IDENTIFIER_LENGTH :: nat where
  "MAX_DELIVERY_IDENTIFIER_LENGTH = 256"

definition DEDUPLICATION_REPORT_INTERVAL_MS :: rat where
  "DEDUPLICATION_REPORT_INTERVAL_MS = 60000"

definition isIdentifier :: "string option \<Rightarrow> bool" where
  "isIdentifier v = (case v of None \<Rightarrow> False | Some s \<Rightarrow> length s > 0 \<and> length s \<le> MAX_DELIVERY_IDENTIFIER_LENGTH)"

definition isAdmissible :: "('b, 'r) delivery \<Rightarrow> bool" where
  "isAdmissible msg =
     (if \<not> isIdentifier (d_producerId msg) then False
      else if \<not> isIdentifier (d_incarnation msg) then False
      else if \<not> js_isSafeInteger (d_seq msg) \<or> \<not> js_less (Fin 0) (d_seq msg) then False
      else d_replyTo msg \<noteq> None)"

definition seq_of :: "('b, 'r) delivery \<Rightarrow> nat" where
  "seq_of msg = (case d_seq msg of Fin q \<Rightarrow> nat \<lfloor>q\<rfloor> | _ \<Rightarrow> 0)"

definition touch :: "rat \<Rightarrow> string \<Rightarrow> dedup_state \<Rightarrow> consumer \<Rightarrow> consumer" where
  "touch now pid st c = c\<lparr>deduplication := jset (jdelete (deduplication c) pid) pid (st\<lparr>lastSeenAtMs := now\<rparr>)\<rparr>"

lemma length_AList_delete_first: "length (AList.delete k ((k, v) # m)) < length ((k, v) # m)"
  by (simp add: length_delete_le le_imp_less_Suc)

function evict_loop :: "nat \<Rightarrow> (string, dedup_state) jmap \<Rightarrow> nat \<times> (string, dedup_state) jmap" where
  "evict_loop cap m =
     (if length m \<ge> cap then
        (case m of
           [] \<Rightarrow> (0, m)
         | (k, _) # _ \<Rightarrow> (let (n, m1) = evict_loop cap (jdelete m k) in (Suc n, m1)))
      else (0, m))"
  by pat_completeness auto
termination
  by (relation "measure (\<lambda>(cap, m). length m)") (auto simp: jdelete_def length_delete_le le_imp_less_Suc)

declare evict_loop.simps [simp del]

definition reportEvictions :: "rat \<Rightarrow> nat \<Rightarrow> consumer \<Rightarrow> consumer_out list \<times> consumer" where
  "reportEvictions now evicted c =
     (let (warn, cnt, at_ms) = paced_report DEDUPLICATION_REPORT_INTERVAL_MS now (evictedSinceReport c + evicted)
            (Some (lastEvictionReportAtMs c))
      in (case warn of None \<Rightarrow> [] | Some n \<Rightarrow> [Warn_Evicted n],
          c\<lparr>evictedSinceReport := cnt, lastEvictionReportAtMs := the at_ms\<rparr>))"

definition evictForNewProducer :: "rat \<Rightarrow> consumer \<Rightarrow> consumer_out list \<times> consumer" where
  "evictForNewProducer now c =
     (case maxProducers c of
        None \<Rightarrow> ([], c)
      | Some cap \<Rightarrow>
          (let (evicted, m) = evict_loop cap (deduplication c); c1 = c\<lparr>deduplication := m\<rparr>
           in if evicted > 0 then reportEvictions now evicted c1 else ([], c1)))"

definition deduplicationStateFor ::
  "rat \<Rightarrow> string \<Rightarrow> string \<Rightarrow> consumer \<Rightarrow> consumer_out list \<times> dedup_state \<times> consumer" where
  "deduplicationStateFor now pid inc c =
     (let fresh = \<lparr>ds_incarnation = inc, contiguous = 0, above = [], lastSeenAtMs = now\<rparr> in
      case jget (deduplication c) pid of
        Some existing \<Rightarrow>
          if ds_incarnation existing = inc
          then ([], existing\<lparr>lastSeenAtMs := now\<rparr>, touch now pid existing c)
          else ([], fresh, touch now pid fresh c)
      | None \<Rightarrow> (let (outs, c1) = evictForNewProducer now c in (outs, fresh, touch now pid fresh c1)))"

definition reportOutOfOrderRefusals :: "rat \<Rightarrow> consumer \<Rightarrow> consumer_out list \<times> consumer" where
  "reportOutOfOrderRefusals now c =
     (let (warn, cnt, at_ms) = paced_report DEDUPLICATION_REPORT_INTERVAL_MS now (refusedSinceReport c + 1)
            (Some (lastRefusalReportAtMs c))
      in (case warn of None \<Rightarrow> [] | Some n \<Rightarrow> [Warn_Refused n],
          c\<lparr>refusedSinceReport := cnt, lastRefusalReportAtMs := the at_ms\<rparr>))"

definition consumer_onUnhandled :: "rat \<Rightarrow> consumer \<Rightarrow> consumer_out list \<times> consumer" where
  "consumer_onUnhandled now c =
     (let (warn, cnt, at_ms) = paced_report UNHANDLED_REPORT_INTERVAL_MS now (c_unhandledSinceReport c + 1)
            (c_lastUnhandledReportAtMs c)
      in ((case warn of None \<Rightarrow> [] | Some n \<Rightarrow> [Warn_Declined n]) @ [Consumer_Dead_Letter],
          c\<lparr>c_unhandledSinceReport := cnt, c_lastUnhandledReportAtMs := at_ms\<rparr>))"

definition ack_for :: "('b, 'r) delivery \<Rightarrow> acknowledgment" where
  "ack_for msg = \<lparr>a_producerId = the (d_producerId msg), a_incarnation = the (d_incarnation msg), a_seq = seq_of msg\<rparr>"

text \<open>Up to the handler. The result carries the producer's record when the handler is to run.\<close>

definition consumer_begin ::
  "rat \<Rightarrow> consumer \<Rightarrow> ('b, 'r) delivery \<Rightarrow> consumer_out list \<times> dedup_state option \<times> consumer" where
  "consumer_begin now c msg =
     (if \<not> isAdmissible msg then ([Consumer_Dead_Letter], None, c)
      else
        (let (outs, st, c1) = deduplicationStateFor now (the (d_producerId msg)) (the (d_incarnation msg)) c in
         if isDuplicate st (seq_of msg) then (outs @ [Acknowledge (ack_for msg)], None, c1)
         else if \<not> hasOutOfOrderRoom (maxOutOfOrder c1) st (seq_of msg)
         then (let (outs2, c2) = reportOutOfOrderRefusals now c1 in (outs @ outs2, None, c2))
         else (outs, Some st, c1)))"

text \<open>After the handler. The record is put back even if the sweep dropped it meanwhile.\<close>

definition consumer_finish ::
  "rat \<Rightarrow> consumer \<Rightarrow> ('b, 'r) delivery \<Rightarrow> dedup_state \<Rightarrow> bool \<Rightarrow> consumer_out list \<times> consumer" where
  "consumer_finish now c msg st threw =
     (if threw then ([], c)
      else ([Acknowledge (ack_for msg)], touch now (the (d_producerId msg)) (markDelivered st (seq_of msg)) c))"

fun sweep_loop :: "rat \<Rightarrow> (string, dedup_state) jmap \<Rightarrow> (string, dedup_state) jmap \<Rightarrow> (string, dedup_state) jmap" where
  "sweep_loop cutoff m [] = m"
| "sweep_loop cutoff m ((pid, st) # rest) =
     (if lastSeenAtMs st > cutoff then m else sweep_loop cutoff (jdelete m pid) rest)"

definition sweepIdleProducers :: "rat \<Rightarrow> consumer \<Rightarrow> consumer" where
  "sweepIdleProducers now c =
     (case producerIdleTtlMs c of
        None \<Rightarrow> c
      | Some ttl \<Rightarrow> c\<lparr>deduplication := sweep_loop (now - ttl) (deduplication c) (deduplication c)\<rparr>)"

definition trackedProducers :: "consumer \<Rightarrow> nat" where
  "trackedProducers c = length (deduplication c)"

definition outOfOrderFor :: "consumer \<Rightarrow> string \<Rightarrow> nat" where
  "outOfOrderFor c pid = (case jget (deduplication c) pid of None \<Rightarrow> 0 | Some st \<Rightarrow> length (above st))"

definition consumer_postStop :: "consumer \<Rightarrow> consumer" where
  "consumer_postStop c = c\<lparr>deduplication := []\<rparr>"

section \<open>The deduplication contract\<close>

locale dedup_window =
  fixes ok :: "'s \<Rightarrow> bool"
    and dup :: "'s \<Rightarrow> nat \<Rightarrow> bool"
    and mark :: "'s \<Rightarrow> nat \<Rightarrow> 's"
    and fresh :: "'s \<Rightarrow> bool"
    and room :: "'s \<Rightarrow> nat \<Rightarrow> bool"
  assumes fresh_ok: "fresh s \<Longrightarrow> ok s"
    and fresh_dup: "fresh s \<Longrightarrow> n > 0 \<Longrightarrow> \<not> dup s n"
    and mark_ok: "ok s \<Longrightarrow> n > 0 \<Longrightarrow> \<not> dup s n \<Longrightarrow> ok (mark s n)"
    and mark_dup: "ok s \<Longrightarrow> n > 0 \<Longrightarrow> \<not> dup s n \<Longrightarrow> dup (mark s n) k = (k = n \<or> dup s k)"
    and next_has_room: "ok s \<Longrightarrow> n > 0 \<Longrightarrow> \<not> dup s n \<Longrightarrow> (\<And>k. 0 < k \<Longrightarrow> k < n \<Longrightarrow> dup s k) \<Longrightarrow> room s n"
begin

definition seen :: "'s \<Rightarrow> nat set" where
  "seen s = {n. 0 < n \<and> dup s n}"

lemma seen_fresh: "fresh s \<Longrightarrow> seen s = {}"
  using fresh_dup by (auto simp: seen_def)

lemma seen_mark: "ok s \<Longrightarrow> 0 < n \<Longrightarrow> \<not> dup s n \<Longrightarrow> seen (mark s n) = insert n (seen s)"
  using mark_dup by (auto simp: seen_def)

text \<open>The number that closes the gap is never refused.\<close>

lemma lowest_unseen_has_room: "ok s \<Longrightarrow> 0 < n \<Longrightarrow> {1..<n} \<subseteq> seen s \<Longrightarrow> dup s n \<or> room s n"
  using next_has_room [of s n] by (fastforce simp: seen_def subset_iff)

end

lemma slide_spec:
  assumes "slide c ab = (c', ab')" "distinct ab" "\<forall>a \<in> set ab. a > c"
  shows "c \<le> c' \<and> {1..c'} \<union> set ab' = {1..c} \<union> set ab \<and> distinct ab' \<and> (\<forall>a \<in> set ab'. a > c' + 1) \<and>
    length ab' \<le> length ab"
  using assms
proof (induction c ab arbitrary: c' ab' rule: slide.induct)
  case (1 c ab)
  show ?case
  proof (cases "c + 1 \<in> set ab")
    case False
    with 1(2) have eq: "c' = c" "ab' = ab" by (simp_all add: slide.simps [of c ab])
    have "c + 1 < a" if "a \<in> set ab" for a
      using 1(4) that False by (metis Suc_eq_plus1 Suc_lessI)
    with 1(3) show ?thesis by (simp add: eq)
  next
    case True
    let ?ab = "sdel ab (c + 1)"
    have run: "slide (c + 1) ?ab = (c', ab')" using 1(2) True by (simp add: slide.simps [of c ab])
    have "\<forall>a \<in> set ?ab. a > c + 1" using 1(4) by (auto simp: less_Suc_eq_le le_eq_less_or_eq Suc_le_eq)
    from 1(1) [OF True run _ this] 1(3)
    have IH: "c + 1 \<le> c'" "{1..c'} \<union> set ab' = {1..c + 1} \<union> set ?ab" "distinct ab'" "\<forall>a \<in> set ab'. a > c' + 1"
      "length ab' \<le> length ?ab" by auto
    moreover have "{1..c + 1} \<union> set ?ab = {1..c} \<union> set ab" using True by (auto simp: le_Suc_eq)
    moreover have "length ?ab \<le> length ab" by (simp add: sdel_def)
    ultimately show ?thesis by auto
  qed
qed

definition dedup_ok :: "dedup_state \<Rightarrow> bool" where
  "dedup_ok st \<longleftrightarrow> distinct (above st) \<and> (\<forall>a \<in> set (above st). a > contiguous st + 1)"

definition dedup_fresh :: "dedup_state \<Rightarrow> bool" where
  "dedup_fresh st \<longleftrightarrow> contiguous st = 0 \<and> above st = []"

lemma markDelivered_spec:
  assumes "dedup_ok st" "0 < n" "\<not> isDuplicate st n"
  shows "dedup_ok (markDelivered st n)" "isDuplicate (markDelivered st n) k = (k = n \<or> isDuplicate st k)"
    "ds_incarnation (markDelivered st n) = ds_incarnation st"
    "hasOutOfOrderRoom (Some b) st n \<Longrightarrow> length (above st) \<le> b \<Longrightarrow> length (above (markDelivered st n)) \<le> b"
proof -
  obtain c ab where s: "slide (contiguous st + 1) (above st) = (c, ab)" by (metis surj_pair)
  have sl: "contiguous st + 1 \<le> c" "{1..c} \<union> set ab = {1..contiguous st + 1} \<union> set (above st)" "distinct ab"
    "\<forall>a \<in> set ab. a > c + 1" "length ab \<le> length (above st)"
    using slide_spec [OF s] assms(1) by (auto simp: dedup_ok_def)
  show "dedup_ok (markDelivered st n)"
    using sl s assms by (auto simp: markDelivered_def dedup_ok_def isDuplicate_def)
  show "isDuplicate (markDelivered st n) k = (k = n \<or> isDuplicate st k)"
  proof (cases "n = contiguous st + 1 \<and> 0 < k")
    case True
    then have "(k \<in> {1..c} \<union> set ab) = (k \<in> {1..contiguous st + 1} \<union> set (above st))" using sl(2) by simp
    with True s show ?thesis by (auto simp: markDelivered_def isDuplicate_def)
  next
    case False
    with assms(2) s show ?thesis by (auto simp: markDelivered_def isDuplicate_def)
  qed
  show "ds_incarnation (markDelivered st n) = ds_incarnation st"
    using s by (simp add: markDelivered_def)
  show "length (above (markDelivered st n)) \<le> b" if "hasOutOfOrderRoom (Some b) st n" "length (above st) \<le> b"
    using that s sl(5) by (auto simp: markDelivered_def hasOutOfOrderRoom_def sadd_def)
qed

interpretation dw: dedup_window dedup_ok isDuplicate markDelivered dedup_fresh "hasOutOfOrderRoom limit" for limit
proof unfold_locales
  fix s n
  assume ok: "dedup_ok s" and n: "0 < n" "\<not> isDuplicate s n" and below: "\<And>k. 0 < k \<Longrightarrow> k < n \<Longrightarrow> isDuplicate s k"
  have "n = contiguous s + 1"
  proof (rule ccontr)
    assume "n \<noteq> contiguous s + 1"
    with n have "contiguous s + 1 < n" by (auto simp: isDuplicate_def)
    then have "isDuplicate s (contiguous s + 1)" by (intro below) auto
    with ok show False by (auto simp: isDuplicate_def dedup_ok_def)
  qed
  then show "hasOutOfOrderRoom limit s n" by (simp add: hasOutOfOrderRoom_def)
qed (simp_all add: markDelivered_spec, auto simp: dedup_fresh_def dedup_ok_def isDuplicate_def)

section \<open>What the operations do to the table\<close>

lemma jdelete_first: "jwf ((k, v) # m) \<Longrightarrow> jdelete ((k, v) # m) k = m"
  by (auto simp: jwf_def jdelete_def AList.delete_eq image_iff intro!: filter_True)

lemma evict_loop_drop:
  assumes "jwf m" "evict_loop cap m = (n, m')"
  shows "\<exists>i. m' = drop i m \<and> (0 < cap \<longrightarrow> length m' < cap)"
  using assms
proof (induction cap m arbitrary: n m' rule: evict_loop.induct)
  case (1 cap m)
  show ?case
  proof (cases m)
    case Nil
    with 1(3) show ?thesis by (auto simp: evict_loop.simps [of cap "[]"] split: if_splits)
  next
    case (Cons kv rest)
    obtain k v where kv: "kv = (k, v)" by (cases kv)
    have del: "jdelete m k = rest" using 1(2) by (simp add: Cons kv jdelete_first)
    show ?thesis
    proof (cases "length m \<ge> cap")
      case False
      with 1(3) show ?thesis by (intro exI [of _ 0]) (auto simp: evict_loop.simps [of cap m])
    next
      case True
      obtain n1 where r: "evict_loop cap rest = (n1, m')"
        using 1(3) True Cons kv del by (auto simp: evict_loop.simps [of cap "(k, v) # rest"] split: prod.splits)
      have "jwf rest" using 1(2) by (simp add: Cons jwf_def)
      with 1(1) [OF True Cons kv [symmetric]] del r obtain i where "m' = drop i rest" "0 < cap \<longrightarrow> length m' < cap"
        by auto
      then show ?thesis by (intro exI [of _ "Suc i"]) (simp add: Cons)
    qed
  qed
qed

text \<open>\<open>m'\<close> is \<open>m\<close> with some keys forgotten.\<close>

definition submap :: "('k, 'v) jmap \<Rightarrow> ('k, 'v) jmap \<Rightarrow> bool" where
  "submap m' m \<longleftrightarrow> jwf m' \<and> (\<forall>k v. jget m' k = Some v \<longrightarrow> jget m k = Some v)"

lemma submap_refl: "jwf m \<Longrightarrow> submap m m"
  by (simp add: submap_def)

lemma submap_drop: "jwf m \<Longrightarrow> submap (drop i m) m"
proof -
  assume wf: "jwf m"
  then have "jwf (drop i m)" by (simp add: jwf_def flip: drop_map)
  moreover have "jget (drop i m) k = Some v \<Longrightarrow> jget m k = Some v" for k v
    using wf jget_Some_in [of "drop i m"] jget_in_eq [OF wf] set_drop_subset by fastforce
  ultimately show ?thesis by (simp add: submap_def)
qed

lemma submap_dom: "submap m' m \<Longrightarrow> dom (jget m') \<subseteq> dom (jget m)"
  by (auto simp: submap_def)

lemma submap_length: "submap m' m \<Longrightarrow> jwf m \<Longrightarrow> length m' \<le> length m"
  using submap_dom [of m' m] by (simp add: jsize_card submap_def card_mono)

lemma sweep_loop_submap: "jwf m \<Longrightarrow> submap (sweep_loop cutoff m es) m"
proof (induction cutoff m es rule: sweep_loop.induct)
  case (2 cutoff m pid st rest)
  show ?case
  proof (cases "lastSeenAtMs st > cutoff")
    case False
    have "submap (sweep_loop cutoff (jdelete m pid) rest) (jdelete m pid)" using 2 False by simp
    moreover have "jget (jdelete m pid) k = Some v \<Longrightarrow> jget m k = Some v" for k v by (simp split: if_splits)
    ultimately show ?thesis using False by (simp only: submap_def sweep_loop.simps if_False) blast
  qed (simp add: submap_refl 2)
qed (simp add: submap_refl)

lemma evictForNewProducer_submap:
  assumes "jwf (deduplication c)" "evictForNewProducer now c = (outs, c')"
  shows "submap (deduplication c') (deduplication c)" "maxOutOfOrder c' = maxOutOfOrder c" "maxProducers c' = maxProducers c"
    "maxProducers c = Some cap \<Longrightarrow> 0 < cap \<Longrightarrow> length (deduplication c') < cap"
    "\<forall>a. Acknowledge a \<notin> set outs"
proof -
  show "submap (deduplication c') (deduplication c)" "maxOutOfOrder c' = maxOutOfOrder c" "maxProducers c' = maxProducers c"
    "maxProducers c = Some cap \<Longrightarrow> 0 < cap \<Longrightarrow> length (deduplication c') < cap" "\<forall>a. Acknowledge a \<notin> set outs"
    using assms evict_loop_drop [OF assms(1)]
    by (auto simp: evictForNewProducer_def reportEvictions_def Let_def submap_refl submap_drop
        split: option.splits prod.splits if_splits dest!: evict_loop_drop [OF assms(1)])
qed

lemma touch_get:
  "jget (deduplication (touch now pid st c)) = (jget (deduplication c))(pid \<mapsto> st\<lparr>lastSeenAtMs := now\<rparr>)"
  by (simp add: touch_def)

lemma touch_wf: "jwf (deduplication c) \<Longrightarrow> jwf (deduplication (touch now pid st c))"
  by (simp add: touch_def)

lemma touch_config [simp]:
  "maxOutOfOrder (touch now pid st c) = maxOutOfOrder c" "maxProducers (touch now pid st c) = maxProducers c"
  by (simp_all add: touch_def)

lemma length_touch:
  assumes "jwf (deduplication c)"
  shows "length (deduplication (touch now pid st c)) = card (insert pid (dom (jget (deduplication c))))"
  using jsize_card [OF touch_wf [OF assms]] by (simp add: touch_get)

text \<open>The record handed out is the one on file, or a fresh one; other producers are at most forgotten.\<close>

lemma deduplicationStateFor_spec:
  assumes wf: "jwf (deduplication c)" and run: "deduplicationStateFor now pid inc c = (outs, st, c')"
  obtains m where "submap m (deduplication c)"
    and "jwf (deduplication c')" and "jget (deduplication c') = (jget m)(pid \<mapsto> st)"
    and "ds_incarnation st = inc"
    and "dedup_fresh st \<and> (jget (deduplication c) pid = None \<or> (\<exists>old. jget (deduplication c) pid = Some old \<and> ds_incarnation old \<noteq> inc))
      \<or> (\<exists>old. jget (deduplication c) pid = Some old \<and> st = old\<lparr>lastSeenAtMs := now\<rparr>)"
    and "maxOutOfOrder c' = maxOutOfOrder c" and "maxProducers c' = maxProducers c"
    and "\<forall>a. Acknowledge a \<notin> set outs"
    and "\<And>cap. maxProducers c = Some cap \<Longrightarrow> 0 < cap \<Longrightarrow> length (deduplication c) \<le> cap \<Longrightarrow> length (deduplication c') \<le> cap"
proof (cases "jget (deduplication c) pid")
  case (Some old)
  have len: "length (deduplication (touch now pid s c)) = length (deduplication c)" for s
    using Some jsize_card [OF wf] by (simp add: length_touch [OF wf] insert_absorb domI)
  show thesis
    by (rule that [of "deduplication c"])
      (use Some run len wf in \<open>auto simp: deduplicationStateFor_def Let_def touch_get touch_wf submap_refl dedup_fresh_def split: if_splits\<close>)
next
  case None
  obtain o1 c1 where ev: "evictForNewProducer now c = (o1, c1)" by (metis surj_pair)
  note sub = evictForNewProducer_submap [OF wf ev]
  have wf1: "jwf (deduplication c1)" using sub(1) by (simp add: submap_def)
  have eq: "outs = o1" "st = \<lparr>ds_incarnation = inc, contiguous = 0, above = [], lastSeenAtMs = now\<rparr>" "c' = touch now pid st c1"
    using run None ev by (auto simp: deduplicationStateFor_def Let_def)
  have len: "length (deduplication c') \<le> cap" if "maxProducers c = Some cap" "0 < cap" for cap
  proof -
    have "length (deduplication c') \<le> Suc (length (deduplication c1))"
      by (simp add: eq(3) length_touch [OF wf1] jsize_card [OF wf1] card_insert_if)
    with sub(4) [OF that] show ?thesis by simp
  qed
  show thesis
    by (rule that [OF sub(1)]) (use sub wf1 eq len None in \<open>auto simp: touch_get touch_wf dedup_fresh_def\<close>)
qed

end
