(* ===== verification/Delivery.thy ===== *)
theory Delivery
  imports Delivery_Consumer
begin

text \<open>
  Reliable delivery end to end (\<^verbatim>\<open>src/src/delivery\<close>): one producer and one consumer, joined by a network
  that loses, duplicates, reorders and delays, and shared with arbitrary other traffic. What nobody but
  the producer and its consumer know is the producer's incarnation, a random token, so other traffic does
  not carry the pair of the producer's id and incarnation.

  \<open>sends\<close>, \<open>outs\<close>, \<open>handled\<close> and \<open>lost\<close> only record what happened: the sends the producer accepted,
  everything it emitted, the deliveries whose handler completed, and the (producer, incarnation) pairs whose
  deduplication record the consumer has dropped at some time.
\<close>

section \<open>The system\<close>

type_synonym key = "string \<times> string"

record ('b, 'c) system =
  prod :: "('b, 'c) producer"
  cons :: consumer
  running :: "(('b, unit) delivery \<times> dedup_state) option"
  net :: "('b, unit) delivery set"
  acks :: "acknowledgment set"
  sends :: "('b, 'c) producer_send list"
  outs :: "('b, 'c) producer_out list"
  handled :: "(key \<times> nat \<times> 'b) list"
  lost :: "key set"

definition key_of :: "('b, 'r) delivery \<Rightarrow> key" where
  "key_of d = (the (d_producerId d), the (d_incarnation d))"

definition key_of_ack :: "acknowledgment \<Rightarrow> key" where
  "key_of_ack a = (a_producerId a, a_incarnation a)"

definition our_key :: "('b, 'c) producer \<Rightarrow> key" where
  "our_key p = (producer_id p, producer_incarnation p)"

definition tracked :: "consumer \<Rightarrow> key set" where
  "tracked c = {(pid, ds_incarnation st) | pid st. jget (deduplication c) pid = Some st}"

definition lost_after :: "key set \<Rightarrow> consumer \<Rightarrow> consumer \<Rightarrow> key set" where
  "lost_after L c c' = L \<union> (tracked c - tracked c')"

definition seqs_of :: "key \<Rightarrow> (key \<times> nat \<times> 'b) list \<Rightarrow> nat list" where
  "seqs_of k H = map (\<lambda>(_, n, _). n) (filter (\<lambda>(k', _). k' = k) H)"

definition system_start :: "string \<Rightarrow> string \<Rightarrow> nat \<Rightarrow> consumer \<Rightarrow> ('b, 'c) system" where
  "system_start i inc w c = \<lparr>prod = producer_new i inc w, cons = c, running = None, net = {}, acks = {},
     sends = [], outs = [], handled = [], lost = {}\<rparr>"

fun authentic :: "('b, 'c) system \<Rightarrow> ('b, 'c) producer_call \<Rightarrow> bool" where
  "authentic s (Receive _ _ (Ack a)) = (a \<in> acks s \<or> key_of_ack a \<noteq> our_key (prod s))"
| "authentic s _ = True"

inductive step :: "('b, 'c) system \<Rightarrow> ('b, 'c) system \<Rightarrow> bool" where
  produce: "authentic s c \<Longrightarrow> producer_call_apply c (prod s) = (o1, p1) \<Longrightarrow>
    step s (s\<lparr>prod := p1, sends := sends s @ accepted_of c, outs := outs s @ o1, net := net s \<union> {d. Tell d \<in> set o1}\<rparr>)"
| foreign: "key_of d \<noteq> our_key (prod s) \<Longrightarrow> step s (s\<lparr>net := insert d (net s)\<rparr>)"
| lose: "step s (s\<lparr>net := net s - D\<rparr>)"
| arrive: "running s = None \<Longrightarrow> d \<in> net s \<Longrightarrow> consumer_begin now (cons s) d = (o1, r, c1) \<Longrightarrow>
    step s (s\<lparr>cons := c1, running := map_option (Pair d) r, acks := acks s \<union> {a. Acknowledge a \<in> set o1},
              lost := lost_after (lost s) (cons s) c1\<rparr>)"
| finish: "running s = Some (d, st) \<Longrightarrow> consumer_finish now (cons s) d st threw = (o1, c1) \<Longrightarrow>
    step s (s\<lparr>cons := c1, running := None, acks := acks s \<union> {a. Acknowledge a \<in> set o1},
              handled := handled s @ (if threw then [] else [(key_of d, seq_of d, d_body d)]),
              lost := lost_after (lost s) (cons s) c1\<rparr>)"
| sweep: "step s (s\<lparr>cons := sweepIdleProducers now (cons s), lost := lost_after (lost s) (cons s) (sweepIdleProducers now (cons s))\<rparr>)"
| decline: "step s (s\<lparr>cons := snd (consumer_onUnhandled now (cons s))\<rparr>)"
| restart: "running s = None \<Longrightarrow>
    step s (s\<lparr>cons := consumer_postStop (cons s), lost := lost_after (lost s) (cons s) (consumer_postStop (cons s))\<rparr>)"

section \<open>The consumer's bookkeeping\<close>

definition record_matches :: "consumer \<Rightarrow> key \<Rightarrow> nat list \<Rightarrow> bool" where
  "record_matches c k ns \<longleftrightarrow> distinct ns \<and>
     (case jget (deduplication c) (fst k) of
        Some st \<Rightarrow> if ds_incarnation st = snd k then set ns = dw.seen st else ns = []
      | None \<Rightarrow> ns = [])"

definition table_ok :: "consumer \<Rightarrow> (key \<times> nat \<times> 'b) list \<Rightarrow> key set \<Rightarrow> bool" where
  "table_ok c H L \<longleftrightarrow> jwf (deduplication c) \<and>
     (\<forall>pid st. jget (deduplication c) pid = Some st \<longrightarrow>
        dedup_ok st \<and> dw.seen st \<subseteq> set (seqs_of (pid, ds_incarnation st) H)) \<and>
     (\<forall>k. k \<notin> L \<longrightarrow> record_matches c k (seqs_of k H))"

definition running_ok :: "consumer \<Rightarrow> (key \<times> nat \<times> 'b) list \<Rightarrow> key set \<Rightarrow> (('b, unit) delivery \<times> dedup_state) option \<Rightarrow> bool" where
  "running_ok c H L r \<longleftrightarrow>
     (case r of None \<Rightarrow> True
      | Some (d, st) \<Rightarrow> 0 < seq_of d \<and> ds_incarnation st = snd (key_of d) \<and> dedup_ok st \<and> \<not> isDuplicate st (seq_of d) \<and>
          dw.seen st \<subseteq> set (seqs_of (key_of d) H) \<and>
          (key_of d \<notin> L \<longrightarrow> jget (deduplication c) (fst (key_of d)) = Some st))"

lemma seen_lastSeen [simp]: "dw.seen (st\<lparr>lastSeenAtMs := now\<rparr>) = dw.seen st"
  by (simp add: dw.seen_def isDuplicate_def)

lemma dedup_ok_lastSeen [simp]: "dedup_ok (st\<lparr>lastSeenAtMs := now\<rparr>) = dedup_ok st"
  by (simp add: dedup_ok_def)

lemma tracked_iff: "(pid, i) \<in> tracked c \<longleftrightarrow> (\<exists>st. jget (deduplication c) pid = Some st \<and> ds_incarnation st = i)"
  by (auto simp: tracked_def)

lemma record_matches_untracked: "k \<notin> tracked c \<Longrightarrow> record_matches c k ns \<longleftrightarrow> ns = []"
  by (cases k) (auto simp: record_matches_def tracked_iff split: option.splits)

lemma record_matches_tracked:
  "jget (deduplication c) (fst k) = Some st \<Longrightarrow> ds_incarnation st = snd k \<Longrightarrow>
   record_matches c k ns \<longleftrightarrow> distinct ns \<and> set ns = dw.seen st"
  by (simp add: record_matches_def)

lemma table_okD:
  assumes "table_ok c H L"
  shows "jwf (deduplication c)" "jget (deduplication c) pid = Some st \<Longrightarrow> dedup_ok st"
    "jget (deduplication c) pid = Some st \<Longrightarrow> dw.seen st \<subseteq> set (seqs_of (pid, ds_incarnation st) H)"
    "k \<notin> L \<Longrightarrow> record_matches c k (seqs_of k H)"
  using assms unfolding table_ok_def by blast+

text \<open>Forgetting records keeps the bookkeeping, for the pairs not forgotten.\<close>

lemma table_ok_submap:
  assumes ok: "table_ok c H L" and sub: "submap (deduplication c') (deduplication c)"
  shows "table_ok c' H (lost_after L c c')"
  unfolding table_ok_def
proof (intro conjI allI impI)
  show "jwf (deduplication c')" using sub by (simp add: submap_def)
next
  fix pid st
  assume "jget (deduplication c') pid = Some st"
  then have "jget (deduplication c) pid = Some st" using sub by (simp add: submap_def)
  then show "dedup_ok st" "dw.seen st \<subseteq> set (seqs_of (pid, ds_incarnation st) H)"
    using ok by (simp_all add: table_ok_def)
next
  fix k
  assume k: "k \<notin> lost_after L c c'"
  then have m: "record_matches c k (seqs_of k H)" using table_okD(4) [OF ok] by (simp add: lost_after_def)
  show "record_matches c' k (seqs_of k H)"
  proof (cases "k \<in> tracked c")
    case False
    then have "k \<notin> tracked c'" using sub by (cases k) (auto simp: tracked_iff submap_def)
    with m False show ?thesis by (simp add: record_matches_untracked)
  next
    case True
    with k obtain st where st: "jget (deduplication c') (fst k) = Some st" "ds_incarnation st = snd k"
      by (cases k) (auto simp: lost_after_def tracked_iff)
    then have "jget (deduplication c) (fst k) = Some st" using sub by (simp add: submap_def)
    with m st show ?thesis by (simp add: record_matches_tracked)
  qed
qed

text \<open>Looking a record up keeps the bookkeeping and hands out a record that matches it.\<close>

lemma table_ok_lookup:
  assumes ok: "table_ok c H L" and run: "deduplicationStateFor now pid inc c = (o1, st, c')"
  shows "table_ok c' H (lost_after L c c')" "dedup_ok st" "ds_incarnation st = inc"
    "dw.seen st \<subseteq> set (seqs_of (pid, inc) H)" "jget (deduplication c') pid = Some st"
    "maxOutOfOrder c' = maxOutOfOrder c" "maxProducers c' = maxProducers c" "\<forall>a. Acknowledge a \<notin> set o1"
proof -
  note okD = table_okD [OF ok]
  obtain m where m: "submap m (deduplication c)" "jwf (deduplication c')" "jget (deduplication c') = (jget m)(pid \<mapsto> st)"
    "ds_incarnation st = inc" "maxOutOfOrder c' = maxOutOfOrder c" "maxProducers c' = maxProducers c" "\<forall>a. Acknowledge a \<notin> set o1"
    and st: "dedup_fresh st \<and> (jget (deduplication c) pid = None \<or> (\<exists>old. jget (deduplication c) pid = Some old \<and> ds_incarnation old \<noteq> inc))
      \<or> (\<exists>old. jget (deduplication c) pid = Some old \<and> st = old\<lparr>lastSeenAtMs := now\<rparr>)"
    by (rule deduplicationStateFor_spec [OF okD(1) run])
  show "ds_incarnation st = inc" "maxOutOfOrder c' = maxOutOfOrder c" "maxProducers c' = maxProducers c" "\<forall>a. Acknowledge a \<notin> set o1"
    using m by simp_all
  show get: "jget (deduplication c') pid = Some st" using m(3) by simp
  show dok: "dedup_ok st" using st okD(2) dw.fresh_ok by auto
  show seen: "dw.seen st \<subseteq> set (seqs_of (pid, inc) H)"
  proof (cases "dedup_fresh st")
    case False
    with st obtain old where "jget (deduplication c) pid = Some old" "st = old\<lparr>lastSeenAtMs := now\<rparr>" by blast
    with okD(3) [of pid old] m(4) show ?thesis by simp
  qed (simp add: dw.seen_fresh)
  show "table_ok c' H (lost_after L c c')"
    unfolding table_ok_def
  proof (intro conjI allI impI)
    fix q s
    assume q: "jget (deduplication c') q = Some s"
    show "dedup_ok s" "dw.seen s \<subseteq> set (seqs_of (q, ds_incarnation s) H)"
      using q dok seen m(1,3,4) okD(2,3) [of q s] by (auto simp: submap_def split: if_splits)
  next
    fix k
    assume k: "k \<notin> lost_after L c c'"
    have old: "record_matches c k (seqs_of k H)" using k okD(4) by (simp add: lost_after_def)
    show "record_matches c' k (seqs_of k H)"
    proof (cases "k \<in> tracked c")
      case True
      with k have "k \<in> tracked c'" by (simp add: lost_after_def)
      then obtain s where s: "jget (deduplication c') (fst k) = Some s" "ds_incarnation s = snd k"
        by (cases k) (auto simp: tracked_iff)
      from True obtain s0 where s0: "jget (deduplication c) (fst k) = Some s0" "ds_incarnation s0 = snd k"
        by (cases k) (auto simp: tracked_iff)
      have "dw.seen s = dw.seen s0"
      proof (cases "fst k = pid")
        case True
        with s s0 st m(4) get show ?thesis by auto
      next
        case False
        with s(1) m(1,3) s0(1) show ?thesis by (auto simp: submap_def)
      qed
      with old s s0 show ?thesis by (simp add: record_matches_tracked)
    next
      case False
      with old have e: "seqs_of k H = []" by (simp add: record_matches_untracked)
      show ?thesis
      proof (cases "k \<in> tracked c'")
        case False
        with e show ?thesis by (simp add: record_matches_untracked)
      next
        case True
        then obtain s where s: "jget (deduplication c') (fst k) = Some s" "ds_incarnation s = snd k"
          by (cases k) (auto simp: tracked_iff)
        have "fst k = pid"
          using False s m(1,3) by (cases k) (auto simp: tracked_iff submap_def split: if_splits)
        with s get have "s = st" "snd k = inc" using m(4) by auto
        moreover have "dedup_fresh st" using st False \<open>fst k = pid\<close> \<open>snd k = inc\<close> m(4)
          by (cases k) (auto simp: tracked_iff)
        ultimately show ?thesis using s e by (simp add: record_matches_tracked dw.seen_fresh)
      qed
    qed
  qed (rule m(2))
qed

lemma admissible_seq: "isAdmissible d \<Longrightarrow> 0 < seq_of d"
  by (auto simp: isAdmissible_def js_isSafeInteger_def seq_of_def split: if_splits js_number.splits)

lemma seqs_of_append: "seqs_of k (H @ H') = seqs_of k H @ seqs_of k H'"
  by (simp add: seqs_of_def)

lemma seqs_of_Nil [simp]: "seqs_of k [] = []"
  by (simp add: seqs_of_def)

lemma reportRefusals_table:
  "reportOutOfOrderRefusals now c = (o1, c') \<Longrightarrow> deduplication c' = deduplication c \<and> (\<forall>a. Acknowledge a \<notin> set o1) \<and>
     maxOutOfOrder c' = maxOutOfOrder c \<and> maxProducers c' = maxProducers c"
  by (auto simp: reportOutOfOrderRefusals_def Let_def split: prod.splits option.splits)

lemma table_ok_same: "deduplication c' = deduplication c \<Longrightarrow> table_ok c' H L = table_ok c H L"
  "deduplication c' = deduplication c \<Longrightarrow> lost_after L c0 c' = lost_after L c0 c"
  by (simp_all add: table_ok_def record_matches_def lost_after_def tracked_def)

lemma lost_after_refl [simp]: "lost_after L c c = L"
  by (simp add: lost_after_def)

text \<open>Up to the handler: an acknowledgment is only sent for a number already handled, and the handler only
  runs on one that the record does not have.\<close>

lemma begin_ok:
  assumes ok: "table_ok c H L" and run: "consumer_begin now c d = (o1, r, c')"
  shows "table_ok c' H (lost_after L c c')" "running_ok c' H (lost_after L c c') (map_option (Pair d) r)"
    "Acknowledge a \<in> set o1 \<Longrightarrow> a_seq a \<in> set (seqs_of (key_of_ack a) H)"
proof (atomize (full), cases "isAdmissible d")
  case False
  with run ok show "table_ok c' H (lost_after L c c') \<and> running_ok c' H (lost_after L c c') (map_option (Pair d) r) \<and>
      (Acknowledge a \<in> set o1 \<longrightarrow> a_seq a \<in> set (seqs_of (key_of_ack a) H))"
    by (auto simp: consumer_begin_def running_ok_def)
next
  case True
  let ?pid = "the (d_producerId d)" and ?inc = "the (d_incarnation d)"
  obtain o0 st c1 where look: "deduplicationStateFor now ?pid ?inc c = (o0, st, c1)" by (metis prod_cases3)
  note l = table_ok_lookup [OF ok look]
  show "table_ok c' H (lost_after L c c') \<and> running_ok c' H (lost_after L c c') (map_option (Pair d) r) \<and>
      (Acknowledge a \<in> set o1 \<longrightarrow> a_seq a \<in> set (seqs_of (key_of_ack a) H))"
  proof (cases "isDuplicate st (seq_of d)")
    case dup: True
    with run True look have eq: "o1 = o0 @ [Acknowledge (ack_for d)]" "r = None" "c' = c1"
      by (auto simp: consumer_begin_def)
    have "seq_of d \<in> set (seqs_of (?pid, ?inc) H)"
      using l(4) dup admissible_seq [OF True] by (auto simp: dw.seen_def)
    with l(1,8) show ?thesis by (auto simp: eq running_ok_def ack_for_def key_of_ack_def)
  next
    case new: False
    show ?thesis
    proof (cases "hasOutOfOrderRoom (maxOutOfOrder c1) st (seq_of d)")
      case room: True
      with run True look new have eq: "o1 = o0" "r = Some st" "c' = c1" by (auto simp: consumer_begin_def)
      with l new admissible_seq [OF True] show ?thesis by (simp add: running_ok_def key_of_def)
    next
      case full: False
      obtain o2 c2 where rep: "reportOutOfOrderRefusals now c1 = (o2, c2)" by (metis surj_pair)
      with run True look new full have eq: "o1 = o0 @ o2" "r = None" "c' = c2" by (auto simp: consumer_begin_def)
      from reportRefusals_table [OF rep] l show ?thesis
        by (auto simp: eq table_ok_same [of c2 c1] running_ok_def)
    qed
  qed
qed

lemma finish_ok:
  assumes ok: "table_ok c H L" and r: "running_ok c H L (Some (d, st))"
    and run: "consumer_finish now c d st threw = (o1, c')"
    and H': "H' = H @ (if threw then [] else [(key_of d, seq_of d, d_body d)])"
  shows "table_ok c' H' (lost_after L c c')" "Acknowledge a \<in> set o1 \<Longrightarrow> a_seq a \<in> set (seqs_of (key_of_ack a) H')"
proof -
  let ?k = "key_of d" and ?st = "(markDelivered st (seq_of d))\<lparr>lastSeenAtMs := now\<rparr>"
  note okD = table_okD [OF ok]
  have st: "0 < seq_of d" "ds_incarnation st = snd ?k" "dedup_ok st" "\<not> isDuplicate st (seq_of d)"
    "dw.seen st \<subseteq> set (seqs_of ?k H)" "?k \<notin> L \<Longrightarrow> jget (deduplication c) (fst ?k) = Some st"
    using r by (simp_all add: running_ok_def)
  note mk = markDelivered_spec [OF st(3,1,4)]
  have seen: "dw.seen (markDelivered st (seq_of d)) = insert (seq_of d) (dw.seen st)"
    by (rule dw.seen_mark [OF st(3,1,4)])
  show "Acknowledge a \<in> set o1 \<Longrightarrow> a_seq a \<in> set (seqs_of (key_of_ack a) H')"
    using run by (auto simp: consumer_finish_def H' ack_for_def key_of_ack_def key_of_def seqs_of_def split: if_splits)
  show "table_ok c' H' (lost_after L c c')"
  proof (cases threw)
    case True
    with run ok show ?thesis by (simp add: consumer_finish_def H')
  next
    case False
    have get: "jget (deduplication c') = (jget (deduplication c))(fst ?k \<mapsto> ?st)" and wf: "jwf (deduplication c')"
      using run False okD(1) by (auto simp: consumer_finish_def touch_get touch_wf key_of_def)
    have inc: "ds_incarnation ?st = snd ?k" using mk(3) st(2) by simp
    have seqs: "seqs_of k H' = seqs_of k H @ (if k = ?k then [seq_of d] else [])" for k
      using False by (simp add: H' seqs_of_append) (simp add: seqs_of_def)
    show ?thesis
      unfolding table_ok_def
    proof (intro conjI allI impI)
      fix q s
      assume q: "jget (deduplication c') q = Some s"
      show "dedup_ok s" using q get mk(1) okD(2) [of q s] by (auto split: if_splits)
      show "dw.seen s \<subseteq> set (seqs_of (q, ds_incarnation s) H')"
      proof (cases "q = fst ?k")
        case True
        with q get have "s = ?st" by simp
        with True inc have "(q, ds_incarnation s) = ?k" by simp
        with st(5) \<open>s = ?st\<close> show ?thesis by (auto simp: seen seqs)
      next
        case False
        with q get okD(3) [of q s] show ?thesis by (auto simp: seqs)
      qed
    next
      fix k
      assume k: "k \<notin> lost_after L c c'"
      have old: "record_matches c k (seqs_of k H)" using k okD(4) by (simp add: lost_after_def)
      show "record_matches c' k (seqs_of k H')"
      proof (cases "k = ?k")
        case True
        have "jget (deduplication c) (fst k) = Some st" using st(6) k True by (simp add: lost_after_def)
        with old st(2) True have "distinct (seqs_of k H)" "set (seqs_of k H) = dw.seen st"
          by (simp_all add: record_matches_tracked)
        with True get inc st(1,4) show ?thesis
          by (auto simp: record_matches_tracked [of _ _ ?st] seqs seen) (simp add: dw.seen_def)
      next
        case other: False
        show ?thesis
        proof (cases "fst k = fst ?k")
          case True
          obtain q i where qi: "k = (q, i)" by (cases k)
          with True other have "q = fst ?k" "i \<noteq> snd ?k" by (auto simp: prod_eq_iff)
          then have "k \<notin> tracked c'" using get inc by (auto simp: qi tracked_iff)
          moreover from this k have "k \<notin> tracked c" by (simp add: lost_after_def)
          ultimately show ?thesis using old other by (simp add: record_matches_untracked seqs)
        next
          case False
          with old other get show ?thesis by (simp add: record_matches_def seqs)
        qed
      qed
    qed (rule wf)
  qed
qed

section \<open>The invariant of the system\<close>

definition faithful :: "('b, 'c) system \<Rightarrow> bool" where
  "faithful s \<longleftrightarrow>
     (\<forall>d \<in> net s. key_of d = our_key (prod s) \<longrightarrow> Tell d \<in> set (outs s)) \<and>
     (\<forall>d st. running s = Some (d, st) \<longrightarrow> key_of d = our_key (prod s) \<longrightarrow> Tell d \<in> set (outs s)) \<and>
     (\<forall>k n b. (k, n, b) \<in> set (handled s) \<longrightarrow> k = our_key (prod s) \<longrightarrow>
        (\<exists>d. Tell d \<in> set (outs s) \<and> seq_of d = n \<and> d_body d = b)) \<and>
     (\<forall>a \<in> acks s. a_seq a \<in> set (seqs_of (key_of_ack a) (handled s))) \<and>
     (\<forall>c n. Settle c Confirmed (Some n) \<in> set (outs s) \<longrightarrow> n \<in> set (seqs_of (our_key (prod s)) (handled s)))"

definition system_inv :: "('b, 'c) system \<Rightarrow> bool" where
  "system_inv s \<longleftrightarrow> table_ok (cons s) (handled s) (lost s) \<and> running_ok (cons s) (handled s) (lost s) (running s) \<and>
     (\<exists>ds. producer_history False (sends s) ds (outs s) (prod s)) \<and> faithful s"

lemma producer_pump_tells: "x \<in> set (fst (producer_pump accepts ms p)) \<Longrightarrow> \<exists>d. x = Tell d"
proof (induction accepts ms p rule: producer_pump.induct)
  case (2 accepts msg rest p)
  obtain o1 fine1 p1 where d: "producer_dispatch accepts (p\<lparr>pending := rest\<rparr>) msg = (o1, fine1, p1)" by (metis prod_cases3)
  have "x \<in> set o1 \<Longrightarrow> \<exists>d. x = Tell d"
    using d by (auto simp: producer_dispatch_eq Let_def split: if_splits)
  with 2 d show ?case by (cases fine1) (auto split: if_splits prod.splits)
qed simp

text \<open>Nothing but a matching acknowledgment confirms a send.\<close>

lemma confirm_needs_ack:
  assumes inv: "producer_inv ds os p" and run: "producer_call_apply c p = (o1, p1)"
    and mem: "Settle cb Confirmed (Some n) \<in> set o1"
  shows "\<exists>accepts now a. c = Receive accepts now (Ack a) \<and> key_of_ack a = our_key p \<and> a_seq a = n"
proof (cases c)
  case (Resend accepts m)
  with run mem show ?thesis
    by (auto simp: producer_retransmit_def producer_send_entry_def Let_def split: option.splits prod.splits if_splits)
next
  case (Receive accepts now msg)
  show ?thesis
  proof (cases msg)
    case (Ack a)
    have no: "Settle cb Confirmed (Some n) \<notin> set (fst (producer_pump accepts ms q))" for ms q
      using producer_pump_tells [of "Settle cb Confirmed (Some n)" accepts ms q] by auto
    from run Receive Ack mem no [of "pending p" "p\<lparr>inflight := jdelete (inflight p) (a_seq a)\<rparr>"]
    obtain fl where fl: "jget (inflight p) (a_seq a) = Some fl" "n = if_seq fl"
      "a_producerId a = producer_id p" "a_incarnation a = producer_incarnation p"
      by (auto simp: producer_onReceive_def producer_onAcknowledgment_def Let_def split: if_splits option.splits prod.splits)
    moreover have "if_seq fl = a_seq a" using producer_inv_dest(4) [OF inv fl(1)] by simp
    ultimately show ?thesis using Receive Ack by (auto simp: key_of_ack_def our_key_def)
  qed (use run Receive mem in \<open>auto simp: producer_onReceive_def producer_onSend_def producer_dispatch_eq
      producer_onUnhandled_def producer_reportUnhandled_def Let_def split: prod.splits if_splits option.splits\<close>)
qed

lemma faithful_acks: "faithful s \<Longrightarrow> a \<in> acks s \<Longrightarrow> a_seq a \<in> set (seqs_of (key_of_ack a) (handled s))"
  by (simp add: faithful_def)

lemma faithful_handled:
  "faithful s \<Longrightarrow> (our_key (prod s), n, b) \<in> set (handled s) \<Longrightarrow> \<exists>d. Tell d \<in> set (outs s) \<and> seq_of d = n \<and> d_body d = b"
  unfolding faithful_def by blast

lemma history_inv: "producer_history q acc ds os p \<Longrightarrow> producer_inv ds os p"
  by (simp add: producer_history_def)

lemma produce_inv:
  assumes inv: "system_inv s" and auth: "authentic s c" and run: "producer_call_apply c (prod s) = (o1, p1)"
  shows "system_inv (s\<lparr>prod := p1, sends := sends s @ accepted_of c, outs := outs s @ o1, net := net s \<union> {d. Tell d \<in> set o1}\<rparr>)"
proof -
  obtain ds where h: "producer_history False (sends s) ds (outs s) (prod s)" using inv by (auto simp: system_inv_def)
  obtain ds' where h': "producer_history False (sends s @ accepted_of c) ds' (outs s @ o1) p1"
    using producer_call_history [OF h run] by auto
  have key: "our_key p1 = our_key (prod s)" using producer_call_config [of c "prod s"] run by (simp add: our_key_def)
  have f: "faithful s" using inv by (simp add: system_inv_def)
  have confirmed: "n \<in> set (seqs_of (our_key (prod s)) (handled s))" if "Settle cb Confirmed (Some n) \<in> set o1" for cb n
  proof -
    from confirm_needs_ack [OF history_inv [OF h] run that] obtain accepts now a
      where "c = Receive accepts now (Ack a)" and a: "key_of_ack a = our_key (prod s)" "a_seq a = n" by blast
    with auth have "a \<in> acks s" by simp
    from faithful_acks [OF f this] show ?thesis by (simp add: a)
  qed
  have "faithful (s\<lparr>prod := p1, sends := sends s @ accepted_of c, outs := outs s @ o1, net := net s \<union> {d. Tell d \<in> set o1}\<rparr>)"
    using f confirmed unfolding faithful_def by (simp add: key) blast
  with inv h' show ?thesis by (auto simp: system_inv_def)
qed

text \<open>Consumer steps that forget records and do nothing else.\<close>

lemma forget_inv:
  assumes inv: "system_inv s" and sub: "submap (deduplication c1) (deduplication (cons s))"
  shows "system_inv (s\<lparr>cons := c1, lost := lost_after (lost s) (cons s) c1\<rparr>)"
proof -
  have t: "table_ok c1 (handled s) (lost_after (lost s) (cons s) c1)"
    using inv by (intro table_ok_submap [OF _ sub]) (simp add: system_inv_def)
  have "running_ok c1 (handled s) (lost_after (lost s) (cons s) c1) (running s)"
  proof (cases "running s")
    case (Some ds)
    obtain d st where ds: "ds = (d, st)" by (cases ds)
    have r: "running_ok (cons s) (handled s) (lost s) (Some (d, st))" using inv Some ds by (simp add: system_inv_def)
    have "jget (deduplication c1) (fst (key_of d)) = Some st" if "key_of d \<notin> lost_after (lost s) (cons s) c1"
    proof -
      have c: "jget (deduplication (cons s)) (fst (key_of d)) = Some st" "ds_incarnation st = snd (key_of d)"
        using r that by (simp_all add: running_ok_def lost_after_def)
      then have "key_of d \<in> tracked (cons s)" using tracked_iff [of "fst (key_of d)" "snd (key_of d)"] by auto
      with that have "key_of d \<in> tracked c1" by (simp add: lost_after_def)
      then obtain st' where "jget (deduplication c1) (fst (key_of d)) = Some st'"
        using tracked_iff [of "fst (key_of d)" "snd (key_of d)"] by auto
      with sub c show ?thesis by (auto simp: submap_def)
    qed
    with r show ?thesis by (simp add: Some ds running_ok_def)
  qed (simp add: running_ok_def)
  with t inv show ?thesis by (simp add: system_inv_def faithful_def)
qed

lemma seqs_of_mem: "n \<in> set (seqs_of k H) \<longleftrightarrow> (\<exists>b. (k, n, b) \<in> set H)"
  by (force simp: seqs_of_def)

lemma arrive_inv:
  assumes inv: "system_inv s" and d: "d \<in> net s" and run: "consumer_begin now (cons s) d = (o1, r, c1)"
  shows "system_inv (s\<lparr>cons := c1, running := map_option (Pair d) r, acks := acks s \<union> {a. Acknowledge a \<in> set o1},
              lost := lost_after (lost s) (cons s) c1\<rparr>)"
proof -
  have t: "table_ok (cons s) (handled s) (lost s)" and f: "faithful s" using inv by (simp_all add: system_inv_def)
  note b = begin_ok [OF t run]
  have "faithful (s\<lparr>cons := c1, running := map_option (Pair d) r, acks := acks s \<union> {a. Acknowledge a \<in> set o1},
              lost := lost_after (lost s) (cons s) c1\<rparr>)"
    using f d b(3) unfolding faithful_def by auto
  with inv b(1,2) show ?thesis by (simp add: system_inv_def)
qed

lemma finish_inv:
  assumes inv: "system_inv s" and r: "running s = Some (d, st)" and run: "consumer_finish now (cons s) d st threw = (o1, c1)"
  shows "system_inv (s\<lparr>cons := c1, running := None, acks := acks s \<union> {a. Acknowledge a \<in> set o1},
              handled := handled s @ (if threw then [] else [(key_of d, seq_of d, d_body d)]),
              lost := lost_after (lost s) (cons s) c1\<rparr>)" (is "system_inv ?s")
proof -
  have t: "table_ok (cons s) (handled s) (lost s)" and f: "faithful s"
    and ro: "running_ok (cons s) (handled s) (lost s) (Some (d, st))" using inv r by (simp_all add: system_inv_def)
  note b = finish_ok [OF t ro run refl]
  have mono: "n \<in> set (seqs_of k (handled s)) \<Longrightarrow> n \<in> set (seqs_of k (handled ?s))" for n k
    by (simp add: seqs_of_append)
  have net: "key_of d = our_key (prod s) \<Longrightarrow> Tell d \<in> set (outs s)" using f r by (simp add: faithful_def)
  have "faithful ?s"
    unfolding faithful_def
  proof (intro conjI ballI allI impI)
    show "Tell d' \<in> set (outs ?s)" if "d' \<in> net ?s" "key_of d' = our_key (prod ?s)" for d'
      using f that by (simp add: faithful_def)
    show "\<exists>d'. Tell d' \<in> set (outs ?s) \<and> seq_of d' = n \<and> d_body d' = b'"
      if "(k, n, b') \<in> set (handled ?s)" "k = our_key (prod ?s)" for k n b'
    proof (cases "(our_key (prod s), n, b') \<in> set (handled s)")
      case True
      from faithful_handled [OF f this] show ?thesis by simp
    next
      case False
      with that have "key_of d = our_key (prod s)" "n = seq_of d" "b' = d_body d" by (auto split: if_splits)
      with net show ?thesis by auto
    qed
    show "a_seq a \<in> set (seqs_of (key_of_ack a) (handled ?s))" if "a \<in> acks ?s" for a
      using that b(2) [of a] mono [OF faithful_acks [OF f]] by auto
    show "n \<in> set (seqs_of (our_key (prod ?s)) (handled ?s))" if "Settle c Confirmed (Some n) \<in> set (outs ?s)" for c n
    proof (rule mono)
      show "n \<in> set (seqs_of (our_key (prod ?s)) (handled s))" using f that by (auto simp: faithful_def)
    qed
  qed simp
  with inv b(1) show ?thesis by (simp add: system_inv_def running_ok_def)
qed

lemma step_inv: "step s s' \<Longrightarrow> system_inv s \<Longrightarrow> system_inv s'"
proof (induction rule: step.induct)
  case (produce s c o1 p1)
  then show ?case by (intro produce_inv)
next
  case (foreign d s)
  then show ?case by (auto simp: system_inv_def faithful_def)
next
  case (lose s D)
  then show ?case by (auto simp: system_inv_def faithful_def)
next
  case (arrive s d now o1 r c1)
  then show ?case by (intro arrive_inv)
next
  case (finish s d st now threw o1 c1)
  then show ?case by (intro finish_inv)
next
  case (sweep s now)
  then have "jwf (deduplication (cons s))" by (simp add: system_inv_def table_ok_def)
  then have "submap (deduplication (sweepIdleProducers now (cons s))) (deduplication (cons s))"
    by (auto simp: sweepIdleProducers_def submap_refl sweep_loop_submap split: option.splits)
  with sweep show ?case by (intro forget_inv)
next
  case (decline s now)
  have "deduplication (snd (consumer_onUnhandled now (cons s))) = deduplication (cons s)"
    by (auto simp: consumer_onUnhandled_def Let_def split: prod.splits)
  with decline table_ok_same(1) [OF this] show ?case
    by (auto simp: system_inv_def faithful_def running_ok_def split: option.splits)
next
  case (restart s)
  have "submap (deduplication (consumer_postStop (cons s))) (deduplication (cons s))"
    by (simp add: consumer_postStop_def submap_def)
  with restart show ?case by (intro forget_inv)
qed

lemma start_inv:
  assumes "0 < w" "deduplication c = []"
  shows "system_inv (system_start i inc w c)"
proof -
  have "producer_history False [] [] [] (producer_new i inc w)"
    using producer_history_new [OF assms(1), of i inc] unfolding producer_history_def by blast
  with assms(2) show ?thesis
    by (auto simp: system_inv_def system_start_def table_ok_def record_matches_def seqs_of_def running_ok_def faithful_def)
qed

lemma reachable_inv:
  assumes "step\<^sup>*\<^sup>* (system_start i inc w c) s" "0 < w" "deduplication c = []"
  shows "system_inv s"
  using assms(1) by (induction rule: rtranclp_induct) (auto intro: start_inv [OF assms(2,3)] step_inv)

section \<open>What the protocol promises\<close>

lemma seq_of_told [simp]: "seq_of (told ds p n) = n"
  by (simp add: seq_of_def told_def)

lemma d_body_told [simp]: "d_body (told ds p n) = s_body (ds ! (n - 1))"
  by (simp add: told_def)

lemma handled_is_told:
  assumes "faithful s" "producer_inv ds (outs s) (prod s)" "(our_key (prod s), n, b) \<in> set (handled s)"
  shows "n \<in> {1..length ds} \<and> b = s_body (ds ! (n - 1))"
proof -
  from faithful_handled [OF assms(1,3)] obtain d where d: "Tell d \<in> set (outs s)" "seq_of d = n" "d_body d = b" by blast
  from producer_inv_dest(5) [OF assms(2) d(1)] obtain m where "m \<in> {1..length ds}" "d = told ds (prod s) m" by auto
  with d show ?thesis by auto
qed

text \<open>
  C22: at-least-once, and exactly-once while the consumer remembers. However the network and the other
  traffic behave and whichever handlers fail, a callback is told that its send was delivered only after
  the handler completed on that send's body; every body of this producer the handler completed on is that
  of the send with that number; and unless the consumer has dropped this producer's record (by the
  producer limit, the idle sweep, a restart), the handler completed on each send at most once.
\<close>

theorem delivery_confirmed_and_exactly_once:
  assumes "step\<^sup>*\<^sup>* (system_start i inc w (consumer_new limit ttl room)) s" "0 < w"
  shows "\<exists>ds. mset (sends s) = mset (ds @ pending (prod s)) \<and>
    (\<forall>c n. Settle c Confirmed (Some n) \<in> set (outs s) \<longrightarrow>
       n \<in> {1..length ds} \<and> c = s_confirm (ds ! (n - 1)) \<and> (our_key (prod s), n, s_body (ds ! (n - 1))) \<in> set (handled s)) \<and>
    (\<forall>n b. (our_key (prod s), n, b) \<in> set (handled s) \<longrightarrow> n \<in> {1..length ds} \<and> b = s_body (ds ! (n - 1))) \<and>
    (our_key (prod s) \<notin> lost s \<longrightarrow> distinct (seqs_of (our_key (prod s)) (handled s)))"
proof -
  have inv: "system_inv s" by (rule reachable_inv [OF assms]) (simp add: consumer_new_def)
  then obtain ds where h: "producer_history False (sends s) ds (outs s) (prod s)" and f: "faithful s"
    and t: "table_ok (cons s) (handled s) (lost s)" by (auto simp: system_inv_def)
  note p = history_inv [OF h]
  note told = handled_is_told [OF f p]
  have conf: "n \<in> {1..length ds} \<and> c = s_confirm (ds ! (n - 1)) \<and> (our_key (prod s), n, s_body (ds ! (n - 1))) \<in> set (handled s)"
    if m: "Settle c Confirmed (Some n) \<in> set (outs s)" for c n
  proof -
    have "n \<in> set (seqs_of (our_key (prod s)) (handled s))" using f m by (auto simp: faithful_def)
    then obtain b where b: "(our_key (prod s), n, b) \<in> set (handled s)" by (auto simp: seqs_of_mem)
    with told [OF b] producer_inv_dest(5) [OF p m] show ?thesis by auto
  qed
  moreover have "our_key (prod s) \<notin> lost s \<Longrightarrow> distinct (seqs_of (our_key (prod s)) (handled s))"
    using table_okD(4) [OF t] by (simp add: record_matches_def)
  moreover have "mset (sends s) = mset (ds @ pending (prod s))" using h by (simp add: producer_history_def)
  ultimately show ?thesis using told by (intro exI [of _ ds]) blast
qed

text \<open>Everything below the oldest send in flight has been handled.\<close>

lemma below_oldest_handled:
  assumes h: "producer_history False (sends s) ds (outs s) (prod s)" and f: "faithful s"
    and oldest: "jget (inflight (prod s)) n = Some fl" "\<forall>m \<in> dom (jget (inflight (prod s))). n \<le> m"
  shows "{1..<n} \<subseteq> set (seqs_of (our_key (prod s)) (handled s))"
proof
  note p = history_inv [OF h]
  fix m
  assume m: "m \<in> {1..<n}"
  have "n \<le> length ds" using producer_inv_dest(4) [OF p oldest(1)] by simp
  with m have "m \<in> {1..length ds}" by simp
  moreover have "m \<notin> dom (jget (inflight (prod s)))" using m oldest(2) by (meson atLeastLessThan_iff not_le)
  ultimately have "m \<in> set (settled_seqs (outs s))" using p by (auto simp: producer_inv_def)
  then obtain x where x: "x \<in> set (outs s)" "m \<in> set (settled_seq x)" by (auto simp: settled_seqs_def)
  then obtain c oc where "x = Settle c oc (Some m)" by (cases x rule: settled_seq.cases) auto
  with producer_inv_dest(5) [OF p x(1)] x(1) have "Settle c Confirmed (Some m) \<in> set (outs s)" by simp
  with f show "m \<in> set (seqs_of (our_key (prod s)) (handled s))" by (auto simp: faithful_def)
qed

text \<open>
  C23: the out-of-order limit cannot deadlock a producer the consumer remembers. As long as its record was
  never dropped, the oldest send in flight, whenever a copy of it arrives, is acknowledged or handed to
  the handler, however full the out-of-order window is.
\<close>

theorem delivery_oldest_in_flight_never_refused:
  assumes "step\<^sup>*\<^sup>* (system_start i inc w (consumer_new limit ttl room)) s" "0 < w"
    and remembered: "our_key (prod s) \<notin> lost s"
    and oldest: "jget (inflight (prod s)) n = Some fl" "\<forall>m \<in> dom (jget (inflight (prod s))). n \<le> m"
    and d: "isAdmissible d" "key_of d = our_key (prod s)" "seq_of d = n"
    and run: "consumer_begin now (cons s) d = (o1, r, c1)"
  shows "r \<noteq> None \<or> Acknowledge (ack_for d) \<in> set o1"
proof -
  have inv: "system_inv s" by (rule reachable_inv [OF assms(1,2)]) (simp add: consumer_new_def)
  then obtain ds where h: "producer_history False (sends s) ds (outs s) (prod s)" and f: "faithful s"
    and t: "table_ok (cons s) (handled s) (lost s)" by (auto simp: system_inv_def)
  let ?k = "our_key (prod s)"
  have below: "{1..<n} \<subseteq> set (seqs_of ?k (handled s))" by (rule below_oldest_handled [OF h f oldest])
  obtain o0 st c0 where look: "deduplicationStateFor now (fst ?k) (snd ?k) (cons s) = (o0, st, c0)" by (metis prod_cases3)
  note l = table_ok_lookup [OF t look]
  have "{1..<n} \<subseteq> dw.seen st"
  proof (cases "?k \<in> lost_after (lost s) (cons s) c0")
    case False
    then have "record_matches c0 ?k (seqs_of ?k (handled s))" by (rule table_okD(4) [OF l(1)])
    with l(3,5) below show ?thesis by (simp add: record_matches_def)
  next
    case True
    with remembered l(3,5) show ?thesis
      using tracked_iff [of "fst ?k" "snd ?k" c0] by (auto simp: lost_after_def)
  qed
  then have "isDuplicate st n \<or> hasOutOfOrderRoom (maxOutOfOrder c0) st n"
    using admissible_seq [OF d(1)] d(3) by (intro dw.lowest_unseen_has_room [OF l(2)]) simp_all
  moreover have "the (d_producerId d) = fst ?k" "the (d_incarnation d) = snd ?k"
    using d(2) by (simp_all add: key_of_def prod_eq_iff)
  ultimately show ?thesis using run look d(1,3) by (auto simp: consumer_begin_def split: if_splits)
qed

section \<open>Bounds\<close>

definition entry_bound :: "nat \<Rightarrow> string \<Rightarrow> dedup_state \<Rightarrow> bool" where
  "entry_bound k pid st \<longleftrightarrow> isIdentifier (Some pid) \<and> isIdentifier (Some (ds_incarnation st)) \<and> length (above st) \<le> k"

definition consumer_bounds :: "nat \<Rightarrow> nat \<Rightarrow> consumer \<Rightarrow> (('b, unit) delivery \<times> dedup_state) option \<Rightarrow> bool" where
  "consumer_bounds cap k c r \<longleftrightarrow>
     maxProducers c = Some cap \<and> maxOutOfOrder c = Some k \<and>
     (\<forall>pid st. jget (deduplication c) pid = Some st \<longrightarrow> entry_bound k pid st) \<and>
     (case r of None \<Rightarrow> card (dom (jget (deduplication c))) \<le> cap
      | Some (d, st) \<Rightarrow> card (insert (fst (key_of d)) (dom (jget (deduplication c)))) \<le> cap \<and>
          entry_bound k (fst (key_of d)) st \<and> hasOutOfOrderRoom (Some k) st (seq_of d))"

lemma bounds_submap:
  assumes "consumer_bounds cap k c r" "submap (deduplication c') (deduplication c)"
    "maxProducers c' = maxProducers c" "maxOutOfOrder c' = maxOutOfOrder c"
  shows "consumer_bounds cap k c' r"
proof -
  have sub: "dom (jget (deduplication c')) \<subseteq> dom (jget (deduplication c))" by (rule submap_dom [OF assms(2)])
  then have "card (dom (jget (deduplication c'))) \<le> card (dom (jget (deduplication c)))"
    "card (insert q (dom (jget (deduplication c')))) \<le> card (insert q (dom (jget (deduplication c))))" for q
    by (auto intro!: card_mono)
  from this(1) this(2) [of "fst (key_of (fst (the r)))"] assms show ?thesis
    by (auto simp: consumer_bounds_def submap_def split: option.splits)
qed

lemma bounds_same:
  "deduplication c' = deduplication c \<Longrightarrow> maxProducers c' = maxProducers c \<Longrightarrow> maxOutOfOrder c' = maxOutOfOrder c \<Longrightarrow>
   consumer_bounds cap k c' r = consumer_bounds cap k c r"
  by (simp add: consumer_bounds_def split: option.split)

lemma begin_bounds:
  fixes d :: "('b, unit) delivery"
  assumes b: "consumer_bounds cap k c (None :: (('b, unit) delivery \<times> dedup_state) option)" and cap: "0 < cap" and wf: "jwf (deduplication c)"
    and run: "consumer_begin now c d = (o1, r, c')"
  shows "consumer_bounds cap k c' (map_option (Pair d) r)"
proof (cases "isAdmissible d")
  case False
  with run b show ?thesis by (auto simp: consumer_begin_def)
next
  case True
  obtain o0 st c1 where look: "deduplicationStateFor now (the (d_producerId d)) (the (d_incarnation d)) c = (o0, st, c1)"
    by (metis prod_cases3)
  let ?pid = "the (d_producerId d)" and ?inc = "the (d_incarnation d)"
  obtain m where m: "submap m (deduplication c)" "jwf (deduplication c1)" "jget (deduplication c1) = (jget m)(?pid \<mapsto> st)"
    "ds_incarnation st = ?inc" "maxOutOfOrder c1 = maxOutOfOrder c" "maxProducers c1 = maxProducers c"
    and st: "dedup_fresh st \<or> (\<exists>old. jget (deduplication c) ?pid = Some old \<and> st = old\<lparr>lastSeenAtMs := now\<rparr>)"
    and len: "maxProducers c = Some cap \<Longrightarrow> 0 < cap \<Longrightarrow> length (deduplication c) \<le> cap \<Longrightarrow> length (deduplication c1) \<le> cap"
    by (rule deduplicationStateFor_spec [OF wf look]) blast
  have size: "card (dom (jget (deduplication c1))) \<le> cap"
    using len b cap jsize_card [OF wf] jsize_card [OF m(2)] by (simp add: consumer_bounds_def)
  have ids: "isIdentifier (Some ?pid)" "isIdentifier (Some ?inc)"
    using True by (auto simp: isAdmissible_def isIdentifier_def split: if_splits option.splits)
  have "length (above st) \<le> k"
    using st b by (auto simp: dedup_fresh_def consumer_bounds_def entry_bound_def)
  with ids m(4) have eb: "entry_bound k ?pid st" by (simp add: entry_bound_def)
  have ebs: "entry_bound k q s" if "jget (deduplication c1) q = Some s" for q s
    using that eb m(1,3) b by (auto simp: consumer_bounds_def submap_def split: if_splits)
  have b1: "consumer_bounds cap k c1 (None :: (('b, unit) delivery \<times> dedup_state) option)"
    using b m(5,6) size ebs by (simp add: consumer_bounds_def)
  have "?pid \<in> dom (jget (deduplication c1))" using m(3) by auto
  then have b2: "consumer_bounds cap k c1 (Some (d, st))" if "hasOutOfOrderRoom (Some k) st (seq_of d)"
    using b1 eb that by (simp add: consumer_bounds_def key_of_def insert_absorb)
  have k: "maxOutOfOrder c1 = Some k" using b m(5) by (simp add: consumer_bounds_def)
  obtain o2 c2 where rep: "reportOutOfOrderRefusals now c1 = (o2, c2)" by (metis surj_pair)
  have b3: "consumer_bounds cap k c2 (None :: (('b, unit) delivery \<times> dedup_state) option)"
    using b1 reportRefusals_table [OF rep] by (simp add: bounds_same [of c2 c1])
  show ?thesis using run True look k b1 b2 b3 rep by (auto simp: consumer_begin_def split: if_splits)
qed

lemma finish_bounds:
  fixes d :: "('b, unit) delivery"
  assumes b: "consumer_bounds cap k c (Some (d, st))" and wf: "jwf (deduplication c)"
    and st: "dedup_ok st" "0 < seq_of d" "\<not> isDuplicate st (seq_of d)"
    and run: "consumer_finish now c d st threw = (o1, c')"
  shows "consumer_bounds cap k c' (None :: (('b, unit) delivery \<times> dedup_state) option)"
proof (cases threw)
  case True
  have "card (dom (jget (deduplication c))) \<le> card (insert (fst (key_of d)) (dom (jget (deduplication c))))"
    by (rule card_mono) auto
  with b run True show ?thesis by (auto simp: consumer_bounds_def consumer_finish_def)
next
  case False
  note mk = markDelivered_spec [OF st(1,2,3)]
  have "length (above (markDelivered st (seq_of d))) \<le> k"
    using b mk(4) by (simp add: consumer_bounds_def entry_bound_def)
  with b mk(3) have "entry_bound k (fst (key_of d)) ((markDelivered st (seq_of d))\<lparr>lastSeenAtMs := now\<rparr>)"
    by (simp add: consumer_bounds_def entry_bound_def)
  moreover have "c' = touch now (fst (key_of d)) (markDelivered st (seq_of d)) c"
    using run False by (simp add: consumer_finish_def key_of_def)
  ultimately show ?thesis using b by (auto simp: consumer_bounds_def touch_get split: if_splits)
qed

lemma step_bounds:
  assumes "step s s'" "system_inv s" "0 < cap" "consumer_bounds cap k (cons s) (running s)"
  shows "consumer_bounds cap k (cons s') (running s')"
  using assms
proof (induction rule: step.induct)
  case (arrive s d now o1 r c1)
  then have "jwf (deduplication (cons s))" by (simp add: system_inv_def table_ok_def)
  with arrive begin_bounds [of cap k "cons s" now d o1 r c1] show ?case by simp
next
  case (finish s d st now threw o1 c1)
  then have "jwf (deduplication (cons s))" "running_ok (cons s) (handled s) (lost s) (Some (d, st))"
    by (simp_all add: system_inv_def table_ok_def)
  with finish finish_bounds [of cap k "cons s" d st now threw o1 c1] show ?case by (simp add: running_ok_def)
next
  case (sweep s now)
  then have "jwf (deduplication (cons s))" by (simp add: system_inv_def table_ok_def)
  then have "submap (deduplication (sweepIdleProducers now (cons s))) (deduplication (cons s))"
    by (auto simp: sweepIdleProducers_def submap_refl sweep_loop_submap split: option.splits)
  moreover have "maxProducers (sweepIdleProducers now (cons s)) = maxProducers (cons s)"
    "maxOutOfOrder (sweepIdleProducers now (cons s)) = maxOutOfOrder (cons s)"
    by (auto simp: sweepIdleProducers_def split: option.splits)
  ultimately show ?case using sweep bounds_submap by simp
next
  case (decline s now)
  have "consumer_bounds cap k (snd (consumer_onUnhandled now (cons s))) (running s) = consumer_bounds cap k (cons s) (running s)"
    by (rule bounds_same) (auto simp: consumer_onUnhandled_def Let_def split: prod.splits)
  with decline show ?case by simp
next
  case (restart s)
  have "submap (deduplication (consumer_postStop (cons s))) (deduplication (cons s))"
    by (simp add: consumer_postStop_def submap_def)
  then have "consumer_bounds cap k (consumer_postStop (cons s)) (running s)"
    by (rule bounds_submap [OF restart(4)]) (simp_all add: consumer_postStop_def)
  then show ?case by simp
qed simp_all

text \<open>
  The memory of the consumer is bounded by its two limits whatever arrives: at most \<^verbatim>\<open>maxProducers\<close> records,
  each with identifiers of at most 256 characters and at most \<^verbatim>\<open>maxOutOfOrder\<close> retained numbers.
\<close>

theorem delivery_consumer_memory_bounded:
  assumes "step\<^sup>*\<^sup>* (system_start i inc w (consumer_new (Some cap) ttl (Some k))) s" "0 < w" "0 < cap"
  shows "trackedProducers (cons s) \<le> cap \<and> (\<forall>pid. outOfOrderFor (cons s) pid \<le> k) \<and>
    (\<forall>(pid, st) \<in> set (deduplication (cons s)). length pid \<le> 256 \<and> length (ds_incarnation st) \<le> 256)"
proof -
  have "system_inv s \<and> consumer_bounds cap k (cons s) (running s)"
    using assms(1)
  proof (induction rule: rtranclp_induct)
    case base
    have "system_inv (system_start i inc w (consumer_new (Some cap) ttl (Some k)))"
      by (rule start_inv [OF assms(2)]) (simp add: consumer_new_def)
    then show ?case by (simp add: consumer_bounds_def system_start_def consumer_new_def jget_map_of)
  next
    case (step y z)
    then show ?case using step_inv step_bounds [OF step(2) _ assms(3)] by blast
  qed
  then have wf: "jwf (deduplication (cons s))" and b: "consumer_bounds cap k (cons s) (running s)"
    by (simp_all add: system_inv_def table_ok_def)
  have "card (dom (jget (deduplication (cons s)))) \<le> cap"
  proof (cases "running s")
    case (Some r)
    have "card (dom (jget (deduplication (cons s)))) \<le> card (insert (fst (key_of (fst r))) (dom (jget (deduplication (cons s)))))"
      by (rule card_mono) auto
    with b Some show ?thesis by (cases r) (simp add: consumer_bounds_def)
  qed (use b in \<open>simp add: consumer_bounds_def\<close>)
  moreover have "entry_bound k pid st" if "(pid, st) \<in> set (deduplication (cons s))" for pid st
    using that b jget_in_eq [OF wf] by (simp add: consumer_bounds_def)
  moreover have "outOfOrderFor (cons s) pid \<le> k" for pid
    using b by (auto simp: outOfOrderFor_def consumer_bounds_def entry_bound_def split: option.splits)
  ultimately show ?thesis
    by (auto simp: trackedProducers_def jsize_card [OF wf] entry_bound_def isIdentifier_def MAX_DELIVERY_IDENTIFIER_LENGTH_def)
qed

section \<open>A dropped record can stall a producer for good\<close>

text \<open>Steps that do not drop the producer's record (again).\<close>

definition keeping :: "('b, 'c) system \<Rightarrow> ('b, 'c) system \<Rightarrow> bool" where
  "keeping s s' \<longleftrightarrow> step s s' \<and> our_key (prod s) \<in> tracked (cons s')"

text \<open>The record waits for number \<open>m\<close>, which the producer has settled long ago, with a full window above it.\<close>

definition stalled :: "nat \<Rightarrow> ('b, 'c) system \<Rightarrow> bool" where
  "stalled m s \<longleftrightarrow>
     (\<exists>st k. jget (deduplication (cons s)) (fst (our_key (prod s))) = Some st \<and> ds_incarnation st = snd (our_key (prod s)) \<and>
        contiguous st + 1 = m \<and> maxOutOfOrder (cons s) = Some k \<and> k \<le> length (above st)) \<and>
     m < nextSeq (prod s) \<and> m \<notin> dom (jget (inflight (prod s))) \<and>
     (\<forall>d \<in> net s. key_of d = our_key (prod s) \<longrightarrow> seq_of d \<noteq> m) \<and>
     (\<forall>d st. running s = Some (d, st) \<longrightarrow> fst (key_of d) \<noteq> fst (our_key (prod s)))"

lemma stalled_cong:
  assumes "stalled m s" "prod s' = prod s" "net s' \<subseteq> net s" "running s' = None \<or> running s' = running s"
    "maxOutOfOrder (cons s') = maxOutOfOrder (cons s)"
    and st: "\<And>st. jget (deduplication (cons s)) (fst (our_key (prod s))) = Some st \<Longrightarrow> ds_incarnation st = snd (our_key (prod s)) \<Longrightarrow>
      \<exists>t. jget (deduplication (cons s')) (fst (our_key (prod s))) = Some (st\<lparr>lastSeenAtMs := t\<rparr>)"
  shows "stalled m s'"
proof -
  obtain st0 k where st0: "jget (deduplication (cons s)) (fst (our_key (prod s))) = Some st0" "ds_incarnation st0 = snd (our_key (prod s))"
    "contiguous st0 + 1 = m" "maxOutOfOrder (cons s) = Some k" "k \<le> length (above st0)"
    using assms(1) by (auto simp: stalled_def)
  from st [OF st0(1,2)] obtain t where "jget (deduplication (cons s')) (fst (our_key (prod s))) = Some (st0\<lparr>lastSeenAtMs := t\<rparr>)" ..
  with st0 assms(2,5) have "\<exists>st k. jget (deduplication (cons s')) (fst (our_key (prod s'))) = Some st \<and>
    ds_incarnation st = snd (our_key (prod s')) \<and> contiguous st + 1 = m \<and> maxOutOfOrder (cons s') = Some k \<and> k \<le> length (above st)"
    by (intro exI [of _ "st0\<lparr>lastSeenAtMs := t\<rparr>"] exI [of _ k]) simp
  moreover have "fst (key_of d) \<noteq> fst (our_key (prod s'))" if "running s' = Some (d, st1)" for d st1
  proof -
    have "running s = Some (d, st1)" using assms(4) that by auto
    with assms(1,2) show ?thesis by (simp add: stalled_def)
  qed
  moreover have "seq_of d \<noteq> m" if "d \<in> net s'" "key_of d = our_key (prod s')" for d
    using assms(1-3) that by (auto simp: stalled_def)
  ultimately show ?thesis using assms(1,2) by (simp add: stalled_def)
qed

text \<open>The producer only ever tells what is in flight or newly numbered.\<close>

definition fresh_from :: "('b, 'c) producer \<Rightarrow> ('b, 'c) producer_out list \<times> ('b, 'c) producer \<Rightarrow> bool" where
  "fresh_from p r \<longleftrightarrow> nextSeq p \<le> nextSeq (snd r) \<and>
     dom (jget (inflight (snd r))) \<subseteq> dom (jget (inflight p)) \<union> {nextSeq p..} \<and>
     (\<forall>d. Tell d \<in> set (fst r) \<longrightarrow> seq_of d \<in> dom (jget (inflight p)) \<union> {nextSeq p..})"

lemma seq_of_delivery [simp]: "seq_of (delivery_of p fl) = if_seq fl"
  by (simp add: seq_of_def delivery_of_def)

lemma dispatch_fresh: "producer_dispatch accepts p msg = (o1, fine, p1) \<Longrightarrow> fresh_from p (o1, p1)"
  by (auto simp: producer_dispatch_eq Let_def fresh_from_def split: if_splits)

lemma fresh_from_trans:
  assumes "fresh_from p (o1, p1)" "fresh_from p1 (o2, p2)"
  shows "fresh_from p (o1 @ o2, p2)"
proof -
  have le: "nextSeq p \<le> nextSeq p1" and sub: "dom (jget (inflight p1)) \<subseteq> dom (jget (inflight p)) \<union> {nextSeq p..}"
    using assms(1) by (simp_all add: fresh_from_def)
  then have "dom (jget (inflight p1)) \<union> {nextSeq p1..} \<subseteq> dom (jget (inflight p)) \<union> {nextSeq p..}" by auto
  then have in1: "x \<in> dom (jget (inflight p1)) \<union> {nextSeq p1..} \<Longrightarrow> x \<in> dom (jget (inflight p)) \<union> {nextSeq p..}" for x
    by (rule subsetD)
  show ?thesis
    unfolding fresh_from_def fst_conv snd_conv
  proof (intro conjI allI impI)
    show "nextSeq p \<le> nextSeq p2" using assms(2) le by (simp add: fresh_from_def)
    show "dom (jget (inflight p2)) \<subseteq> dom (jget (inflight p)) \<union> {nextSeq p..}"
      using assms(2) in1 by (simp only: fresh_from_def snd_conv) (meson subset_iff)
    show "seq_of d \<in> dom (jget (inflight p)) \<union> {nextSeq p..}" if "Tell d \<in> set (o1 @ o2)" for d
      using that assms in1 [of "seq_of d"] by (simp only: fresh_from_def fst_conv set_append Un_iff) blast
  qed
qed

lemma pump_fresh: "producer_pump accepts ms p = (o1, fine, p1) \<Longrightarrow> fresh_from p (o1, p1)"
proof (induction accepts ms p arbitrary: o1 fine p1 rule: producer_pump.induct)
  case (1 accepts p)
  then show ?case by (auto simp: fresh_from_def)
next
  case (2 accepts msg rest p)
  obtain o0 fine0 p0 where d: "producer_dispatch accepts (p\<lparr>pending := rest\<rparr>) msg = (o0, fine0, p0)" by (metis prod_cases3)
  have f0: "fresh_from p (o0, p0)" using dispatch_fresh [OF d] by (simp add: fresh_from_def)
  show ?case
  proof (cases "length (inflight p) < windowSize p \<and> fine0")
    case False
    with 2(2) d f0 show ?thesis by (cases fine0) (auto simp: fresh_from_def split: if_splits)
  next
    case True
    then have t: "length (inflight p) < windowSize p" "fine0 = True" by auto
    obtain o2 fine2 p2 where r: "producer_pump accepts rest p0 = (o2, fine2, p2)" by (metis prod_cases3)
    have "fresh_from p0 (o2, p2)" using 2(1) [OF t(1) d [symmetric] refl t(2) r] .
    with fresh_from_trans [OF f0] 2(2) t d r show ?thesis by auto
  qed
qed

lemma call_fresh:
  assumes inv: "producer_inv ds os p" and run: "producer_call_apply c p = (o1, p1)"
  shows "fresh_from p (o1, p1)"
proof (cases c)
  case (Resend accepts n)
  show ?thesis
  proof (cases "jget (inflight p) n")
    case (Some fl)
    have "if_seq fl = n" using producer_inv_dest(4) [OF inv Some] by simp
    with run Resend Some show ?thesis
      by (auto simp: producer_retransmit_def producer_send_entry_def Let_def fresh_from_def split: if_splits)
  qed (use run Resend in \<open>auto simp: producer_retransmit_def fresh_from_def\<close>)
next
  case (Receive accepts now msg)
  obtain fine where rec: "producer_onReceive accepts now p msg = (o1, fine, p1)"
    using run Receive by (auto split: prod.splits)
  show ?thesis
  proof (cases msg)
    case Foreign
    with rec show ?thesis
      by (auto simp: producer_onReceive_def producer_onUnhandled_def producer_reportUnhandled_def Let_def fresh_from_def
          split: prod.splits option.splits)
  next
    case (Send m)
    with rec show ?thesis
      by (auto simp: producer_onReceive_def producer_onSend_def producer_onUnhandled_def producer_reportUnhandled_def Let_def
          dispatch_fresh split: prod.splits option.splits if_splits) (auto simp: fresh_from_def)
  next
    case (Ack a)
    show ?thesis
    proof (cases "o1 = [] \<and> p1 = p")
      case True
      then show ?thesis by (simp add: fresh_from_def)
    next
      case False
      let ?p = "p\<lparr>inflight := jdelete (inflight p) (a_seq a)\<rparr>"
      obtain o2 fine2 p2 where pump: "producer_pump accepts (pending p) ?p = (o2, fine2, p2)" by (metis prod_cases3)
      from rec Ack False pump obtain c n where "o1 = Settle c Confirmed n # o2" "p1 = p2"
        by (auto simp: producer_onReceive_def producer_onAcknowledgment_def split: if_splits option.splits)
      with pump_fresh [OF pump] show ?thesis by (auto simp: fresh_from_def)
    qed
  qed
qed

lemma stalled_produce:
  assumes inv: "system_inv s" and st: "stalled m s" and run: "producer_call_apply c (prod s) = (o1, p1)"
  shows "stalled m (s\<lparr>prod := p1, sends := sends s @ accepted_of c, outs := outs s @ o1, net := net s \<union> {d. Tell d \<in> set o1}\<rparr>)"
proof -
  obtain ds where "producer_history False (sends s) ds (outs s) (prod s)" using inv by (auto simp: system_inv_def)
  from call_fresh [OF history_inv [OF this] run] have fr: "fresh_from (prod s) (o1, p1)" .
  have m: "m < nextSeq (prod s)" "m \<notin> dom (jget (inflight (prod s)))" using st by (simp_all add: stalled_def)
  then have out: "m \<notin> dom (jget (inflight (prod s))) \<union> {nextSeq (prod s)..}" by simp
  have key: "our_key p1 = our_key (prod s)" using producer_call_config [of c "prod s"] run by (simp add: our_key_def)
  have "m < nextSeq p1" "m \<notin> dom (jget (inflight p1))" "\<forall>d. Tell d \<in> set o1 \<longrightarrow> seq_of d \<noteq> m"
    using fr m(1) out unfolding fresh_from_def fst_conv snd_conv by (simp, blast, metis)
  with st show ?thesis by (auto simp: stalled_def key)
qed

lemma stalled_arrive:
  assumes inv: "system_inv s" and st: "stalled m s" and net: "d \<in> net s" and idle: "running s = None"
    and run: "consumer_begin now (cons s) d = (o1, r, c1)" and keep: "our_key (prod s) \<in> tracked c1"
  shows "stalled m (s\<lparr>cons := c1, running := map_option (Pair d) r, acks := A, lost := L\<rparr>)" (is "stalled m ?s")
proof (cases "isAdmissible d")
  case False
  with run idle have "c1 = cons s" "r = None" by (auto simp: consumer_begin_def)
  with st idle show ?thesis by (simp add: stalled_def)
next
  case True
  let ?k = "our_key (prod s)"
  have wf: "jwf (deduplication (cons s))" using inv by (simp add: system_inv_def table_ok_def)
  obtain st0 k where st0: "jget (deduplication (cons s)) (fst ?k) = Some st0" "ds_incarnation st0 = snd ?k"
    "contiguous st0 + 1 = m" "maxOutOfOrder (cons s) = Some k" "k \<le> length (above st0)" using st by (auto simp: stalled_def)
  obtain o0 sd c0 where look: "deduplicationStateFor now (fst (key_of d)) (snd (key_of d)) (cons s) = (o0, sd, c0)"
    by (metis prod_cases3)
  obtain mp where mp: "submap mp (deduplication (cons s))" "jget (deduplication c0) = (jget mp)(fst (key_of d) \<mapsto> sd)"
    "ds_incarnation sd = snd (key_of d)" "maxOutOfOrder c0 = maxOutOfOrder (cons s)"
    by (rule deduplicationStateFor_spec [OF wf look]) blast
  have tab: "deduplication c1 = deduplication c0" "maxOutOfOrder c1 = maxOutOfOrder c0"
    and r: "r = None \<or> r = Some sd \<and> \<not> isDuplicate sd (seq_of d) \<and> hasOutOfOrderRoom (maxOutOfOrder c0) sd (seq_of d)"
    using run True look reportRefusals_table [of now c0]
    by (auto simp: consumer_begin_def key_of_def split: if_splits prod.splits)
  from keep obtain st1 where st1: "jget (deduplication c0) (fst ?k) = Some st1" "ds_incarnation st1 = snd ?k"
    using tracked_iff [of "fst ?k" "snd ?k" c1] tab by auto
  show ?thesis
  proof (cases "fst (key_of d) = fst ?k")
    case False
    with st1 mp(1,2) st0 have "st1 = st0" by (auto simp: submap_def)
    with False st st0 st1 tab mp(4) r show ?thesis by (auto simp: stalled_def)
  next
    case same: True
    with st1 mp(2,3) have key: "key_of d = ?k" "sd = st1" by (auto simp: prod_eq_iff)
    have "sd = st0\<lparr>lastSeenAtMs := now\<rparr>"
      using look key(1) st0(1,2) by (auto simp: deduplicationStateFor_def Let_def)
    moreover have "r = None"
      using r st net key st0 mp(4) calculation by (auto simp: hasOutOfOrderRoom_def stalled_def)
    ultimately show ?thesis using st0 st1 key tab mp(4) by (intro stalled_cong [OF st]) auto
  qed
qed

lemma stalled_submap:
  assumes "stalled m s" "submap (deduplication c1) (deduplication (cons s))" "maxOutOfOrder c1 = maxOutOfOrder (cons s)"
    "our_key (prod s) \<in> tracked c1"
  shows "stalled m (s\<lparr>cons := c1, lost := L\<rparr>)"
proof (rule stalled_cong [OF assms(1)])
  fix st
  assume st: "jget (deduplication (cons s)) (fst (our_key (prod s))) = Some st"
  from assms(4) obtain st1 where "jget (deduplication c1) (fst (our_key (prod s))) = Some st1"
    using tracked_iff [of "fst (our_key (prod s))" "snd (our_key (prod s))"] by auto
  with assms(2) st have "jget (deduplication c1) (fst (our_key (prod s))) = Some st" by (auto simp: submap_def)
  then show "\<exists>t. jget (deduplication (cons (s\<lparr>cons := c1, lost := L\<rparr>))) (fst (our_key (prod s))) = Some (st\<lparr>lastSeenAtMs := t\<rparr>)"
    by (intro exI [of _ "lastSeenAtMs st"]) simp
qed (simp_all add: assms(3))

lemma stalled_step:
  assumes "step s s'" "system_inv s" "stalled m s" "our_key (prod s) \<in> tracked (cons s')"
  shows "stalled m s' \<and> seqs_of (our_key (prod s')) (handled s') = seqs_of (our_key (prod s)) (handled s)"
  using assms
proof (induction rule: step.induct)
  case (produce s c o1 p1)
  have "our_key p1 = our_key (prod s)" using producer_call_config [of c "prod s"] produce(2) by (simp add: our_key_def)
  with produce stalled_produce show ?case by simp
next
  case (foreign d s)
  then show ?case by (auto simp: stalled_def)
next
  case (lose s D)
  then show ?case by (auto simp: stalled_def)
next
  case (arrive s d now o1 r c1)
  then show ?case using stalled_arrive [of s m d now o1 r c1] by simp
next
  case (finish s d st now threw o1 c1)
  then have ne: "fst (key_of d) \<noteq> fst (our_key (prod s))" by (auto simp: stalled_def)
  then have "seqs_of (our_key (prod s)) [(key_of d, seq_of d, d_body d)] = []" by (auto simp: seqs_of_def)
  moreover have "jget (deduplication c1) (fst (our_key (prod s))) = jget (deduplication (cons s)) (fst (our_key (prod s)))"
    "maxOutOfOrder c1 = maxOutOfOrder (cons s)"
    using finish(2) ne by (auto simp: consumer_finish_def touch_get key_of_def split: if_splits)
  ultimately show ?case using finish(4) by (auto simp: stalled_def seqs_of_append)
next
  case (sweep s now)
  then have "jwf (deduplication (cons s))" by (simp add: system_inv_def table_ok_def)
  then have "submap (deduplication (sweepIdleProducers now (cons s))) (deduplication (cons s))"
    by (auto simp: sweepIdleProducers_def submap_refl sweep_loop_submap split: option.splits)
  moreover have "maxOutOfOrder (sweepIdleProducers now (cons s)) = maxOutOfOrder (cons s)"
    by (auto simp: sweepIdleProducers_def split: option.splits)
  ultimately show ?case using sweep stalled_submap by simp
next
  case (decline s now)
  have "deduplication (snd (consumer_onUnhandled now (cons s))) = deduplication (cons s)"
    "maxOutOfOrder (snd (consumer_onUnhandled now (cons s))) = maxOutOfOrder (cons s)"
    by (auto simp: consumer_onUnhandled_def Let_def split: prod.splits)
  with decline show ?case by (simp add: stalled_def)
next
  case (restart s)
  then show ?case by (auto simp: consumer_postStop_def tracked_def)
qed

text \<open>
  C24: a limit of the guarantee. Once the consumer has dropped a producer's record, the new record waits
  for number 1, which the producer settled long ago and never sends again. From a state in which the
  window above that gap is full, no execution that keeps the record ever completes a handler for the
  producer again: its sends stay in flight for good, retransmitted and refused.
\<close>

theorem delivery_stalled_forever:
  assumes "step\<^sup>*\<^sup>* (system_start i inc w (consumer_new limit ttl room)) s" "0 < w" "stalled m s" "keeping\<^sup>*\<^sup>* s s'"
  shows "seqs_of (our_key (prod s')) (handled s') = seqs_of (our_key (prod s)) (handled s)"
proof -
  have "system_inv s" by (rule reachable_inv [OF assms(1,2)]) (simp add: consumer_new_def)
  from assms(4) this assms(3)
  have "system_inv s' \<and> stalled m s' \<and> seqs_of (our_key (prod s')) (handled s') = seqs_of (our_key (prod s)) (handled s)"
  proof (induction rule: rtranclp_induct)
    case base
    then show ?case by simp
  next
    case (step y z)
    then have y: "step y z" "system_inv y" "stalled m y" "our_key (prod y) \<in> tracked (cons z)"
      "seqs_of (our_key (prod y)) (handled y) = seqs_of (our_key (prod s)) (handled s)" by (auto simp: keeping_def)
    from stalled_step [OF y(1-4)] y(5) step_inv [OF y(1,2)] show ?case by simp
  qed
  then show ?thesis by simp
qed

section \<open>A concrete execution\<close>

text \<open>Steps as a function, to run examples: \<open>None\<close> where the step is not enabled.\<close>

datatype ('b, 'c) system_op =
    Produce "('b, 'c) producer_call"
  | Lose_All
  | Arrive rat "('b, unit) delivery"
  | Finish rat
  | Sweep rat

fun system_apply :: "('b, 'c) system_op \<Rightarrow> ('b, 'c) system \<Rightarrow> ('b, 'c) system option" where
  "system_apply (Produce c) s = (if authentic s c then
     (let (o1, p1) = producer_call_apply c (prod s) in
      Some (s\<lparr>prod := p1, sends := sends s @ accepted_of c, outs := outs s @ o1, net := net s \<union> {d. Tell d \<in> set o1}\<rparr>)) else None)"
| "system_apply Lose_All s = Some (s\<lparr>net := net s - net s\<rparr>)"
| "system_apply (Arrive now d) s = (if running s = None \<and> d \<in> net s then
     (let (o1, r, c1) = consumer_begin now (cons s) d in
      Some (s\<lparr>cons := c1, running := map_option (Pair d) r, acks := acks s \<union> {a. Acknowledge a \<in> set o1},
              lost := lost_after (lost s) (cons s) c1\<rparr>)) else None)"
| "system_apply (Finish now) s = (case running s of None \<Rightarrow> None | Some (d, st) \<Rightarrow>
     (let (o1, c1) = consumer_finish now (cons s) d st False in
      Some (s\<lparr>cons := c1, running := None, acks := acks s \<union> {a. Acknowledge a \<in> set o1},
              handled := handled s @ [(key_of d, seq_of d, d_body d)], lost := lost_after (lost s) (cons s) c1\<rparr>)))"
| "system_apply (Sweep now) s = Some (s\<lparr>cons := sweepIdleProducers now (cons s),
     lost := lost_after (lost s) (cons s) (sweepIdleProducers now (cons s))\<rparr>)"

fun system_run :: "('b, 'c) system_op list \<Rightarrow> ('b, 'c) system \<Rightarrow> ('b, 'c) system option" where
  "system_run [] s = Some s"
| "system_run (x # xs) s = (case system_apply x s of None \<Rightarrow> None | Some s1 \<Rightarrow> system_run xs s1)"

lemma system_apply_step: "system_apply x s = Some s' \<Longrightarrow> step s s'"
proof (cases x)
  case (Produce c)
  then show "system_apply x s = Some s' \<Longrightarrow> step s s'"
    by (auto split: if_splits prod.splits intro: step.produce)
next
  case Lose_All
  then show "system_apply x s = Some s' \<Longrightarrow> step s s'" using step.lose [of s "net s"] by auto
next
  case (Arrive now d)
  then show "system_apply x s = Some s' \<Longrightarrow> step s s'"
    by (auto split: if_splits prod.splits intro: step.arrive)
next
  case (Finish now)
  then show "system_apply x s = Some s' \<Longrightarrow> step s s'"
    using step.finish [of s _ _ now False] by (fastforce split: option.splits prod.splits)
next
  case (Sweep now)
  then show "system_apply x s = Some s' \<Longrightarrow> step s s'" using step.sweep [of s now] by auto
qed

lemma system_run_steps: "system_run xs s = Some s' \<Longrightarrow> step\<^sup>*\<^sup>* s s'"
proof (induction xs arbitrary: s)
  case (Cons x xs)
  then obtain s1 where s1: "system_apply x s = Some s1" "system_run xs s1 = Some s'" by (auto split: option.splits)
  from system_apply_step [OF s1(1)] Cons.IH [OF s1(2)] show ?case by (rule converse_rtranclp_into_rtranclp)
qed simp

definition demo_send :: "string \<Rightarrow> (string, nat) producer_call" where
  "demo_send b = Receive (\<lambda>_. True) 0 (Send \<lparr>s_body = b, s_confirm = Callback 0\<rparr>)"

definition demo_ack :: "nat \<Rightarrow> (string, nat) producer_call" where
  "demo_ack n = Receive (\<lambda>_. True) 0 (Ack \<lparr>a_producerId = ''p'', a_incarnation = ''i'', a_seq = n\<rparr>)"

definition demo_delivery :: "rat \<Rightarrow> string \<Rightarrow> (string, unit) delivery" where
  "demo_delivery n b = \<lparr>d_producerId = Some ''p'', d_incarnation = Some ''i'', d_seq = Fin n, d_body = b, d_replyTo = Some ()\<rparr>"

definition demo_start :: "(string, nat) system" where
  "demo_start = system_start ''p'' ''i'' 1 (consumer_new None (Some 10) (Some 1))"

text \<open>A send delivered and confirmed; then, after an idle sweep, a second one, and a third left in flight.\<close>

definition demo_first :: "(string, nat) system_op list" where
  "demo_first = [Produce (demo_send ''a''), Arrive 0 (demo_delivery 1 ''a''), Finish 0, Produce (demo_ack 1)]"

definition demo_second :: "(string, nat) system_op list" where
  "demo_second = [Sweep 100, Lose_All, Produce (demo_send ''b''), Arrive 100 (demo_delivery 2 ''b''), Finish 100,
     Produce (demo_ack 2), Produce (demo_send ''c'')]"

lemmas demo_eval = demo_start_def system_start_def producer_new_def consumer_new_def demo_send_def demo_ack_def demo_delivery_def
  producer_onReceive_def producer_onSend_def producer_dispatch_eq delivery_of_def jset_def jdelete_def jget_def
  consumer_begin_def isAdmissible_def isIdentifier_def js_isSafeInteger_def MAX_SAFE_INTEGER_def MAX_DELIVERY_IDENTIFIER_LENGTH_def
  deduplicationStateFor_def evictForNewProducer_def touch_def isDuplicate_def seq_of_def hasOutOfOrderRoom_def
  consumer_finish_def markDelivered_def slide.simps ack_for_def key_of_def key_of_ack_def our_key_def
  producer_onAcknowledgment_def sweepIdleProducers_def lost_after_def Let_def

lemma demo_first_run:
  "\<exists>s. system_run demo_first demo_start = Some s \<and> Settle (Callback 0) Confirmed (Some 1) \<in> set (outs s) \<and>
     our_key (prod s) = (''p'', ''i'') \<and> (''p'', ''i'') \<notin> lost s \<and> sends s = [\<lparr>s_body = ''a'', s_confirm = Callback 0\<rparr>] \<and>
     pending (prod s) = []"
  by (simp add: demo_first_def demo_eval tracked_iff)

lemma demo_stalled_run:
  "\<exists>s. system_run (demo_first @ demo_second) demo_start = Some s \<and> stalled 1 s \<and> 3 \<in> dom (jget (inflight (prod s))) \<and>
     3 \<notin> set (seqs_of (our_key (prod s)) (handled s))"
  by (simp add: demo_first_def demo_second_def demo_eval tracked_iff stalled_def seqs_of_mem sadd_def jget_map_of numeral_3_eq_3)

theorem delivery_confirmed_and_exactly_once_witness:
  "\<exists>s. step\<^sup>*\<^sup>* demo_start s \<and> Settle (Callback 0) Confirmed (Some 1) \<in> set (outs s) \<and>
     ((''p'', ''i''), 1, ''a'') \<in> set (handled s) \<and> distinct (seqs_of (''p'', ''i'') (handled s))"
proof -
  obtain s where s: "system_run demo_first demo_start = Some s" "Settle (Callback 0) Confirmed (Some 1) \<in> set (outs s)"
    "our_key (prod s) = (''p'', ''i'')" "(''p'', ''i'') \<notin> lost s" "sends s = [\<lparr>s_body = ''a'', s_confirm = Callback 0\<rparr>]"
    "pending (prod s) = []" using demo_first_run by blast
  have reach: "step\<^sup>*\<^sup>* demo_start s" by (rule system_run_steps [OF s(1)])
  from delivery_confirmed_and_exactly_once [OF reach [unfolded demo_start_def]] s(2-)
  have "((''p'', ''i''), 1, ''a'') \<in> set (handled s) \<and> distinct (seqs_of (''p'', ''i'') (handled s))" by force
  with reach s(2) show ?thesis by blast
qed

theorem delivery_stalled_forever_witness:
  "\<exists>s. step\<^sup>*\<^sup>* demo_start s \<and> 3 \<in> dom (jget (inflight (prod s))) \<and>
     (\<forall>s'. keeping\<^sup>*\<^sup>* s s' \<longrightarrow> 3 \<notin> set (seqs_of (our_key (prod s')) (handled s')))"
proof -
  obtain s where s: "system_run (demo_first @ demo_second) demo_start = Some s" "stalled 1 s"
    "3 \<in> dom (jget (inflight (prod s)))" "3 \<notin> set (seqs_of (our_key (prod s)) (handled s))" using demo_stalled_run by blast
  have reach: "step\<^sup>*\<^sup>* demo_start s" by (rule system_run_steps [OF s(1)])
  have "3 \<notin> set (seqs_of (our_key (prod s')) (handled s'))" if "keeping\<^sup>*\<^sup>* s s'" for s'
    using delivery_stalled_forever [OF reach [unfolded demo_start_def] _ s(2) that] s(4) by simp
  with reach s(3) show ?thesis by blast
qed

theorem delivery_consumer_memory_bounded_witness:
  "trackedProducers (consumer_new (Some 4) None (Some 2)) \<le> 4"
  using delivery_consumer_memory_bounded
    [OF rtranclp.rtrancl_refl, where i = "''p''" and inc = "''i''" and w = 1 and cap = 4 and ttl = None and k = 2]
  by (simp add: system_start_def)

theorem delivery_oldest_in_flight_never_refused_witness:
  "\<exists>s r o1 c1. step\<^sup>*\<^sup>* demo_start s \<and> consumer_begin 0 (cons s) (demo_delivery 1 ''a'') = (o1, r, c1) \<and>
     (r \<noteq> None \<or> Acknowledge (ack_for (demo_delivery 1 ''a'')) \<in> set o1)"
proof -
  obtain s where s: "system_run [Produce (demo_send ''a'')] demo_start = Some s" "our_key (prod s) = (''p'', ''i'')"
    "lost s = {}" "dom (jget (inflight (prod s))) = {1}"
    by (simp add: demo_eval jget_map_of)
  have reach: "step\<^sup>*\<^sup>* demo_start s" by (rule system_run_steps [OF s(1)])
  obtain fl where fl: "jget (inflight (prod s)) 1 = Some fl" using s(4) by auto
  obtain o1 r c1 where run: "consumer_begin 0 (cons s) (demo_delivery 1 ''a'') = (o1, r, c1)" by (metis prod_cases3)
  have d: "isAdmissible (demo_delivery 1 ''a'')" "key_of (demo_delivery 1 ''a'') = our_key (prod s)" "seq_of (demo_delivery 1 ''a'') = 1"
    using s(2) by (simp_all add: demo_eval)
  have "r \<noteq> None \<or> Acknowledge (ack_for (demo_delivery 1 ''a'')) \<in> set o1"
    by (rule delivery_oldest_in_flight_never_refused [OF reach [unfolded demo_start_def] _ _ fl _ d run]) (use s in auto)
  with reach run show ?thesis by blast
qed

end
