(* ===== verification/Cluster_Member.thy ===== *)
theory Cluster_Member
  imports Crdt_Wire Downing
begin

text \<open>
  Node addresses and member records: \<^verbatim>\<open>src/src/cluster/NodeAddress.ts\<close>, \<^verbatim>\<open>src/src/cluster/Member.ts\<close> and the
  member part of \<^verbatim>\<open>src/src/cluster/Protocol.ts\<close>.

  A node is known in the cluster by the string form of its address: it keys the membership table, while
  \<^verbatim>\<open>equals\<close> compares the fields. The two agree for nodes whose system name contains no at sign.
  Versions and removal times come from the wire and are JavaScript numbers.
\<close>

section \<open>Numbers and their string form\<close>

definition js_plus :: "js_number \<Rightarrow> rat \<Rightarrow> js_number" where
  "js_plus x r = (case x of Fin q \<Rightarrow> Fin (q + r) | _ \<Rightarrow> x)"

definition js_le :: "js_number \<Rightarrow> js_number \<Rightarrow> bool" where
  "js_le x y = (js_less x y \<or> js_eq x y)"

definition digit_char :: "nat \<Rightarrow> char" where
  "digit_char d = char_of (48 + d)"

fun nat_digits :: "nat \<Rightarrow> string" where
  "nat_digits n = (if n < 10 then [digit_char n] else nat_digits (n div 10) @ [digit_char (n mod 10)])"

declare nat_digits.simps [simp del]

definition int_string :: "int \<Rightarrow> string" where
  "int_string i = (if i < 0 then ''-'' @ nat_digits (nat (- i)) else nat_digits (nat i))"

text \<open>\<^verbatim>\<open>parseInt(s, 10)\<close>: leading white space, a sign, and as many digits as there are; \<open>None\<close> is NaN.\<close>

definition is_space :: "char \<Rightarrow> bool" where
  "is_space c = (c \<in> {CHR '' '', CHR 0x09, CHR 0x0A, CHR 0x0B, CHR 0x0C, CHR 0x0D, CHR 0xA0})"

definition parse_digits :: "string \<Rightarrow> nat option" where
  "parse_digits s = (let ds = takeWhile is_digit s in if ds = [] then None else Some (numeral_value ds))"

definition js_parseInt :: "string \<Rightarrow> int option" where
  "js_parseInt s0 =
     (let s = dropWhile is_space s0 in
      case s of
        [] \<Rightarrow> None
      | c # cs \<Rightarrow>
          if c = CHR ''-'' then map_option (\<lambda>n. - int n) (parse_digits cs)
          else if c = CHR ''+'' then map_option int (parse_digits cs)
          else map_option int (parse_digits s))"

section \<open>Node addresses\<close>

record node_address =
  systemName :: string
  host :: string
  port :: int
  incarnation :: "string option"

definition addr_toString :: "node_address \<Rightarrow> string" where
  "addr_toString a = systemName a @ ''@'' @ host a @ '':'' @ int_string (port a)"

definition addr_equals :: "node_address \<Rightarrow> node_address \<Rightarrow> bool" where
  "addr_equals a b = (systemName a = systemName b \<and> host a = host b \<and> port a = port b)"

definition MAX_NODE_INCARNATION_LENGTH :: nat where
  "MAX_NODE_INCARNATION_LENGTH = 128"

definition isIncarnation :: "json \<Rightarrow> bool" where
  "isIncarnation v = (case v of JStr s \<Rightarrow> length s > 0 \<and> length s \<le> MAX_NODE_INCARNATION_LENGTH | _ \<Rightarrow> False)"

definition isPort :: "json \<Rightarrow> bool" where
  "isPort v = (case v of JNum n \<Rightarrow> js_isSafeInteger n \<and> js_less (Fin 0) n | _ \<Rightarrow> False)"

definition addr_toJSON :: "node_address \<Rightarrow> json" where
  "addr_toJSON a = JObj ([(''systemName'', JStr (systemName a)), (''host'', JStr (host a)), (''port'', JNum (Fin (of_int (port a))))] @
     (case incarnation a of None \<Rightarrow> [] | Some i \<Rightarrow> [(''incarnation'', JStr i)]))"

datatype member_error = Invalid_Address | Invalid_Status

definition prop_of :: "json \<Rightarrow> string \<Rightarrow> json" where
  "prop_of v name = (case js_prop v name of Inl _ \<Rightarrow> JUndef | Inr x \<Rightarrow> x)"

definition addr_fromJSON :: "json \<Rightarrow> member_error + node_address" where
  "addr_fromJSON data =
     (case (prop_of data ''systemName'', prop_of data ''host'', prop_of data ''port'', prop_of data ''incarnation'') of
        (JStr s, JStr h, JNum (Fin p), i) \<Rightarrow>
          if s = [] \<or> h = [] \<or> \<not> isPort (JNum (Fin p)) \<or> (i \<noteq> JUndef \<and> \<not> isIncarnation i) then Inl Invalid_Address
          else Inr \<lparr>systemName = s, host = h, port = \<lfloor>p\<rfloor>, incarnation = (case i of JStr x \<Rightarrow> Some x | _ \<Rightarrow> None)\<rparr>
      | _ \<Rightarrow> Inl Invalid_Address)"

definition index_of :: "char \<Rightarrow> string \<Rightarrow> int" where
  "index_of c s = (if c \<in> set s then int (length (takeWhile (\<lambda>x. x \<noteq> c) s)) else -1)"

definition last_index_of :: "char \<Rightarrow> string \<Rightarrow> int" where
  "last_index_of c s = (if c \<in> set s then int (length s) - 1 - int (length (takeWhile (\<lambda>x. x \<noteq> c) (rev s))) else -1)"

definition addr_parse :: "string \<Rightarrow> member_error + node_address" where
  "addr_parse s =
     (let at_pos = index_of (CHR ''@'') s; colon = last_index_of (CHR '':'') s in
      if at_pos < 0 \<or> colon \<le> at_pos then Inl Invalid_Address
      else case js_parseInt (drop (nat colon + 1) s) of
        None \<Rightarrow> Inl Invalid_Address
      | Some p \<Rightarrow> Inr \<lparr>systemName = take (nat at_pos) s, host = drop (nat at_pos + 1) (take (nat colon) s), port = p, incarnation = None\<rparr>)"

section \<open>Members\<close>

record storage_identities =
  si_journal :: "string option"
  si_snapshotStore :: "string option"
  si_durableStateStore :: "string option"

record cmember =
  m_address :: node_address
  m_status :: member_status
  m_version :: js_number
  m_roles :: "string jset"
  m_removedAt :: "js_number option"
  m_storageIdentities :: "storage_identities option"
  m_configurationFacts :: "(string, string) jmap option"
  m_appVersion :: "string option"

definition member_key :: "cmember \<Rightarrow> string" where
  "member_key m = addr_toString (m_address m)"

definition member_hasRole :: "cmember \<Rightarrow> string \<Rightarrow> bool" where
  "member_hasRole m role = (role \<in> set (m_roles m))"

definition member_isReachable :: "cmember \<Rightarrow> bool" where
  "member_isReachable m = (m_status m = Up \<or> m_status m = Weakly_Up \<or> m_status m = Joining \<or> m_status m = Leaving)"

definition withStatus :: "cmember \<Rightarrow> member_status \<Rightarrow> cmember" where
  "withStatus m s = m\<lparr>m_status := s, m_version := js_plus (m_version m) 1\<rparr>"

definition withStorageIdentities :: "cmember \<Rightarrow> storage_identities \<Rightarrow> cmember" where
  "withStorageIdentities m si = m\<lparr>m_storageIdentities := Some si\<rparr>"

definition withConfigurationFacts :: "cmember \<Rightarrow> (string, string) jmap \<Rightarrow> cmember" where
  "withConfigurationFacts m facts = m\<lparr>m_configurationFacts := Some facts\<rparr>"

definition withAppVersion :: "cmember \<Rightarrow> string option \<Rightarrow> cmember" where
  "withAppVersion m v = m\<lparr>m_appVersion := v\<rparr>"

definition withRemoved :: "cmember \<Rightarrow> rat \<Rightarrow> cmember" where
  "withRemoved m now = m\<lparr>m_status := Removed, m_version := js_plus (m_version m) 1, m_removedAt := Some (Fin now)\<rparr>"

section \<open>The wire form\<close>

definition MAX_STORAGE_IDENTITY_LENGTH :: nat where
  "MAX_STORAGE_IDENTITY_LENGTH = 64"
definition MAX_CONFIGURATION_FACT_NAME_LENGTH :: nat where
  "MAX_CONFIGURATION_FACT_NAME_LENGTH = 128"
definition MAX_CONFIGURATION_FACT_VALUE_LENGTH :: nat where
  "MAX_CONFIGURATION_FACT_VALUE_LENGTH = 128"
definition MAX_CONFIGURATION_FACTS :: nat where
  "MAX_CONFIGURATION_FACTS = 16"
definition MAX_APP_VERSION_LENGTH :: nat where
  "MAX_APP_VERSION_LENGTH = 64"

definition status_string :: "member_status \<Rightarrow> string" where
  "status_string s = (case s of Joining \<Rightarrow> ''joining'' | Weakly_Up \<Rightarrow> ''weakly-up'' | Up \<Rightarrow> ''up'' | Unreachable \<Rightarrow> ''unreachable''
     | Leaving \<Rightarrow> ''leaving'' | Down \<Rightarrow> ''down'' | Removed \<Rightarrow> ''removed'')"

definition MEMBER_STATUSES :: "member_status list" where
  "MEMBER_STATUSES = [Joining, Weakly_Up, Up, Unreachable, Leaving, Down, Removed]"

definition memberStatus_of :: "json \<Rightarrow> member_status option" where
  "memberStatus_of v = (case v of JStr s \<Rightarrow> find (\<lambda>x. status_string x = s) MEMBER_STATUSES | _ \<Rightarrow> None)"

definition fact_name_start :: "char \<Rightarrow> bool" where
  "fact_name_start c = (CHR ''a'' \<le> c \<and> c \<le> CHR ''z'' \<or> is_digit c)"

definition fact_name_ok :: "string \<Rightarrow> bool" where
  "fact_name_ok s = (case s of [] \<Rightarrow> False
     | c # cs \<Rightarrow> fact_name_start c \<and> list_all (\<lambda>x. fact_name_start x \<or> x = CHR ''.'' \<or> x = CHR ''-'') cs)"

definition isAppVersion :: "json \<Rightarrow> bool" where
  "isAppVersion v = (case v of JStr s \<Rightarrow>
      length s > 0 \<and> length s \<le> MAX_APP_VERSION_LENGTH \<and> list_all (\<lambda>c. CHR 0x21 \<le> c \<and> c \<le> CHR 0x7E) s
    | _ \<Rightarrow> False)"

definition identity_field :: "json \<Rightarrow> string option" where
  "identity_field v = (case v of JStr s \<Rightarrow> if length s > 0 \<and> length s \<le> MAX_STORAGE_IDENTITY_LENGTH then Some s else None | _ \<Rightarrow> None)"

definition sanitizeStorageIdentities :: "json \<Rightarrow> storage_identities option" where
  "sanitizeStorageIdentities data =
     (case data of
        JObj es \<Rightarrow>
          (let si = \<lparr>si_journal = identity_field (prop_of data ''journal''), si_snapshotStore = identity_field (prop_of data ''snapshotStore''),
                     si_durableStateStore = identity_field (prop_of data ''durableStateStore'')\<rparr>
           in if si_journal si = None \<and> si_snapshotStore si = None \<and> si_durableStateStore si = None then None else Some si)
      | _ \<Rightarrow> None)"

fun sanitize_facts :: "(string, string) jmap \<Rightarrow> nat \<Rightarrow> (string \<times> json) list \<Rightarrow> (string, string) jmap \<times> nat" where
  "sanitize_facts acc kept [] = (acc, kept)"
| "sanitize_facts acc kept ((name, v) # es) =
     (if kept \<ge> MAX_CONFIGURATION_FACTS then (acc, kept)
      else if length name > MAX_CONFIGURATION_FACT_NAME_LENGTH then sanitize_facts acc kept es
      else if \<not> fact_name_ok name then sanitize_facts acc kept es
      else case v of
        JStr s \<Rightarrow>
          if s = [] \<or> length s > MAX_CONFIGURATION_FACT_VALUE_LENGTH then sanitize_facts acc kept es
          else sanitize_facts (jset acc name s) (kept + 1) es
      | _ \<Rightarrow> sanitize_facts acc kept es)"

definition sanitizeConfigurationFacts :: "json \<Rightarrow> (string, string) jmap option" where
  "sanitizeConfigurationFacts data =
     (case data of
        JObj es \<Rightarrow> (let (facts, kept) = sanitize_facts [] 0 es in if kept > 0 then Some facts else None)
      | _ \<Rightarrow> None)"

record member_data =
  md_address :: json
  md_status :: json
  md_version :: js_number
  md_roles :: "string list option"
  md_removedAt :: "js_number option"
  md_storageIdentities :: json
  md_configurationFacts :: json
  md_appVersion :: json

definition identities_json :: "storage_identities \<Rightarrow> json" where
  "identities_json si = JObj (concat [
     (case si_journal si of None \<Rightarrow> [] | Some s \<Rightarrow> [(''journal'', JStr s)]),
     (case si_snapshotStore si of None \<Rightarrow> [] | Some s \<Rightarrow> [(''snapshotStore'', JStr s)]),
     (case si_durableStateStore si of None \<Rightarrow> [] | Some s \<Rightarrow> [(''durableStateStore'', JStr s)])])"

definition facts_json :: "(string, string) jmap \<Rightarrow> json" where
  "facts_json facts = JObj (map (\<lambda>(k, v). (k, JStr v)) facts)"

definition member_toData :: "cmember \<Rightarrow> member_data" where
  "member_toData m = \<lparr>md_address = addr_toJSON (m_address m), md_status = JStr (status_string (m_status m)),
     md_version = m_version m, md_roles = Some (m_roles m), md_removedAt = m_removedAt m,
     md_storageIdentities = (case m_storageIdentities m of None \<Rightarrow> JUndef | Some si \<Rightarrow> identities_json si),
     md_configurationFacts = (case m_configurationFacts m of None \<Rightarrow> JUndef | Some facts \<Rightarrow> facts_json facts),
     md_appVersion = (case m_appVersion m of None \<Rightarrow> JUndef | Some v \<Rightarrow> JStr v)\<rparr>"

definition member_fromData :: "member_data \<Rightarrow> member_error + cmember" where
  "member_fromData data =
     (case memberStatus_of (md_status data) of
        None \<Rightarrow> Inl Invalid_Status
      | Some s \<Rightarrow> ebind (addr_fromJSON (md_address data)) (\<lambda>a.
          Inr \<lparr>m_address = a, m_status = s, m_version = md_version data,
               m_roles = sof (case md_roles data of None \<Rightarrow> [] | Some rs \<Rightarrow> rs), m_removedAt = md_removedAt data,
               m_storageIdentities = sanitizeStorageIdentities (md_storageIdentities data),
               m_configurationFacts = sanitizeConfigurationFacts (md_configurationFacts data),
               m_appVersion = (if isAppVersion (md_appVersion data) then
                  (case md_appVersion data of JStr v \<Rightarrow> Some v | _ \<Rightarrow> None) else None)\<rparr>))"

section \<open>The string form identifies the node\<close>

lemma digit_char_of_char: "d < 10 \<Longrightarrow> (of_char (digit_char d) :: nat) = 48 + d"
  by (simp add: digit_char_def)

lemma is_digit_iff: "is_digit c \<longleftrightarrow> (of_char c :: nat) \<in> {48..57}"
  by (simp add: is_digit_def less_eq_char_def)

lemma is_digit_char [simp]: "d < 10 \<Longrightarrow> is_digit (digit_char d)"
  by (simp add: is_digit_iff digit_char_of_char)

lemma digit_value_char [simp]: "d < 10 \<Longrightarrow> digit_value (digit_char d) = d"
  by (simp add: digit_value_def digit_char_of_char)

lemma numeral_value_snoc: "numeral_value (s @ [c]) = 10 * numeral_value s + digit_value c"
  by (simp add: numeral_value_def)

lemma nat_digits_value: "numeral_value (nat_digits n) = n"
proof (induction n rule: nat_digits.induct)
  case (1 n)
  show ?case
  proof (cases "n < 10")
    case True
    then show ?thesis by (simp add: nat_digits.simps [of n] numeral_value_def)
  next
    case False
    with 1 show ?thesis by (subst nat_digits.simps) (simp add: numeral_value_snoc)
  qed
qed

lemma nat_digits_digits: "c \<in> set (nat_digits n) \<Longrightarrow> is_digit c"
proof (induction n rule: nat_digits.induct)
  case (1 n)
  then show ?case
    by (cases "n < 10") (auto simp: nat_digits.simps [of n])
qed

lemma nat_digits_not_Nil: "nat_digits n \<noteq> []"
  by (subst nat_digits.simps) simp

lemma parse_nat_digits: "parse_digits (nat_digits n) = Some n"
proof -
  have "takeWhile is_digit (nat_digits n) = nat_digits n" using nat_digits_digits by (simp add: takeWhile_eq_all_conv)
  then show ?thesis unfolding parse_digits_def Let_def by (simp only: nat_digits_value nat_digits_not_Nil if_False)
qed

lemma is_digit_not_special: "is_digit c \<Longrightarrow> c \<noteq> CHR ''-'' \<and> c \<noteq> CHR ''+'' \<and> c \<noteq> CHR '':'' \<and> c \<noteq> CHR ''@'' \<and> \<not> is_space c"
  by (auto simp: is_digit_iff is_space_def)

lemma parseInt_int_string: "js_parseInt (int_string i) = Some i"
proof (cases "i < 0")
  case True
  then show ?thesis by (simp add: int_string_def js_parseInt_def is_space_def parse_nat_digits)
next
  case False
  obtain c cs where c: "nat_digits (nat i) = c # cs" using nat_digits_not_Nil by (cases "nat_digits (nat i)") auto
  then have "is_digit c" using nat_digits_digits [of c "nat i"] by simp
  with False c parse_nat_digits [of "nat i"] show ?thesis
    using is_digit_not_special [of c] by (simp add: int_string_def js_parseInt_def)
qed

lemma int_string_chars: "c \<in> set (int_string i) \<Longrightarrow> c \<noteq> CHR '':'' \<and> c \<noteq> CHR ''@''"
proof -
  assume c: "c \<in> set (int_string i)"
  show ?thesis
  proof (cases "c = CHR ''-''")
    case False
    with c have "is_digit c" using nat_digits_digits by (auto simp: int_string_def split: if_splits)
    then show ?thesis using is_digit_not_special by blast
  qed simp
qed

lemma int_string_inj: "int_string i = int_string j \<Longrightarrow> i = j"
  by (metis option.inject parseInt_int_string)

lemma split_first:
  assumes "c \<notin> set u"
  shows "index_of c (u @ c # v) = int (length u)"
proof -
  have "takeWhile (\<lambda>x. x \<noteq> c) (u @ c # v) = u" using assms by (subst takeWhile_append2) auto
  then show ?thesis by (simp add: index_of_def)
qed

lemma split_last:
  assumes "c \<notin> set v"
  shows "last_index_of c (u @ c # v) = int (length u)"
proof -
  have "takeWhile (\<lambda>x. x \<noteq> c) (rev (u @ c # v)) = rev v"
    using assms by (simp, subst takeWhile_append2) auto
  then show ?thesis by (simp add: last_index_of_def)
qed

lemma addr_toString_shape:
  "addr_toString a = systemName a @ CHR ''@'' # (host a @ CHR '':'' # int_string (port a))"
  "addr_toString a = (systemName a @ CHR ''@'' # host a) @ CHR '':'' # int_string (port a)"
  by (simp_all add: addr_toString_def)

lemma addr_parse_toString:
  assumes "CHR ''@'' \<notin> set (systemName a)"
  shows "addr_parse (addr_toString a) = Inr (a\<lparr>incarnation := None\<rparr>)"
proof -
  have first: "index_of (CHR ''@'') (addr_toString a) = int (length (systemName a))"
    unfolding addr_toString_shape(1) by (rule split_first [OF assms])
  have last: "last_index_of (CHR '':'') (addr_toString a) = int (length (systemName a @ CHR ''@'' # host a))"
    unfolding addr_toString_shape(2) by (rule split_last) (use int_string_chars in blast)
  have rest: "drop (Suc (length (systemName a) + Suc (length (host a)))) (addr_toString a) = int_string (port a)"
    "take (length (systemName a)) (addr_toString a) = systemName a"
    "drop (Suc (length (systemName a))) (take (length (systemName a) + Suc (length (host a))) (addr_toString a)) = host a"
    by (simp_all add: addr_toString_def)
  show ?thesis
    unfolding addr_parse_def Let_def first last using rest by (simp add: nat_add_distrib parseInt_int_string)
qed

text \<open>An address with the string form of a node whose name has no at sign is that node's.\<close>

lemma addr_toString_equals:
  assumes a: "CHR ''@'' \<notin> set (systemName a)" "CHR ''@'' \<notin> set (host a)" and eq: "addr_toString a = addr_toString b"
  shows "addr_equals a b"
proof -
  have digits: "CHR ''@'' \<notin> set (int_string i)" for i using int_string_chars by blast
  have "count_list (addr_toString a) (CHR ''@'') = 1" using a digits by (simp add: addr_toString_def)
  then have "count_list (addr_toString b) (CHR ''@'') = 1" by (simp add: eq)
  then have b: "CHR ''@'' \<notin> set (systemName b)" by (simp add: addr_toString_def count_list_0_iff)
  from addr_parse_toString [OF a(1)] addr_parse_toString [OF b] eq
  have "a\<lparr>incarnation := None\<rparr> = b\<lparr>incarnation := None\<rparr>" by simp
  then show ?thesis by (cases a; cases b) (simp add: addr_equals_def)
qed

section \<open>The wire form reads back\<close>

definition addr_ok :: "node_address \<Rightarrow> bool" where
  "addr_ok a \<longleftrightarrow> systemName a \<noteq> [] \<and> host a \<noteq> [] \<and> 0 < port a \<and> of_int (port a) \<le> MAX_SAFE_INTEGER \<and>
     (case incarnation a of None \<Rightarrow> True | Some i \<Rightarrow> isIncarnation (JStr i))"

definition identities_ok :: "storage_identities \<Rightarrow> bool" where
  "identities_ok si \<longleftrightarrow> (\<forall>f \<in> set [si_journal si, si_snapshotStore si, si_durableStateStore si].
     case f of None \<Rightarrow> True | Some s \<Rightarrow> identity_field (JStr s) = Some s) \<and>
     (si_journal si \<noteq> None \<or> si_snapshotStore si \<noteq> None \<or> si_durableStateStore si \<noteq> None)"

definition fact_ok :: "string \<times> string \<Rightarrow> bool" where
  "fact_ok e \<longleftrightarrow> length (fst e) \<le> MAX_CONFIGURATION_FACT_NAME_LENGTH \<and> fact_name_ok (fst e) \<and>
     snd e \<noteq> [] \<and> length (snd e) \<le> MAX_CONFIGURATION_FACT_VALUE_LENGTH"

definition facts_ok :: "(string, string) jmap \<Rightarrow> bool" where
  "facts_ok facts \<longleftrightarrow> jwf facts \<and> facts \<noteq> [] \<and> length facts \<le> MAX_CONFIGURATION_FACTS \<and> list_all fact_ok facts"

definition member_ok :: "cmember \<Rightarrow> bool" where
  "member_ok m \<longleftrightarrow> addr_ok (m_address m) \<and> distinct (m_roles m) \<and>
     (case m_storageIdentities m of None \<Rightarrow> True | Some si \<Rightarrow> identities_ok si) \<and>
     (case m_configurationFacts m of None \<Rightarrow> True | Some facts \<Rightarrow> facts_ok facts) \<and>
     (case m_appVersion m of None \<Rightarrow> True | Some v \<Rightarrow> isAppVersion (JStr v))"

lemma prop_of_JObj: "prop_of (JObj es) name = (case jget es name of None \<Rightarrow> JUndef | Some x \<Rightarrow> x)"
  by (simp add: prop_of_def js_prop_def)

lemma addr_fromJSON_toJSON: "addr_ok a \<Longrightarrow> addr_fromJSON (addr_toJSON a) = Inr a"
  by (cases a, cases "incarnation a")
    (auto simp: addr_ok_def addr_fromJSON_def addr_toJSON_def prop_of_JObj jget_def isPort_def js_isSafeInteger_def MAX_SAFE_INTEGER_def)

lemma memberStatus_of_string: "memberStatus_of (JStr (status_string s)) = Some s"
  by (cases s) (simp_all add: memberStatus_of_def status_string_def MEMBER_STATUSES_def)

lemma sanitizeStorageIdentities_back: "identities_ok si \<Longrightarrow> sanitizeStorageIdentities (identities_json si) = Some si"
  by (cases si)
    (auto simp: identities_ok_def identities_json_def sanitizeStorageIdentities_def prop_of_JObj jget_def Let_def identity_field_def
      split: option.splits)

lemma sanitize_facts_back:
  "list_all fact_ok facts \<Longrightarrow> jwf (acc @ facts) \<Longrightarrow> kept = length acc \<Longrightarrow> length (acc @ facts) \<le> MAX_CONFIGURATION_FACTS \<Longrightarrow>
   sanitize_facts acc kept (map (\<lambda>(k, v). (k, JStr v)) facts) = (acc @ facts, length (acc @ facts))"
proof (induction facts arbitrary: acc kept)
  case (Cons f facts)
  obtain k v where f: "f = (k, v)" by (cases f)
  have "jget acc k = None" using Cons.prems(2) by (auto simp: jwf_def f jget_None_notin)
  then have "jset acc k v = acc @ [(k, v)]" by (rule jset_new)
  with Cons.IH [of "acc @ [f]" "Suc kept"] Cons.prems f show ?case by (simp add: fact_ok_def)
qed simp

lemma sanitizeConfigurationFacts_back: "facts_ok facts \<Longrightarrow> sanitizeConfigurationFacts (facts_json facts) = Some facts"
  using sanitize_facts_back [of facts "[]" 0]
  by (auto simp: facts_ok_def sanitizeConfigurationFacts_def facts_json_def)

lemma sanitize_undefined:
  "sanitizeStorageIdentities JUndef = None" "sanitizeConfigurationFacts JUndef = None" "\<not> isAppVersion JUndef"
  by (simp_all add: sanitizeStorageIdentities_def sanitizeConfigurationFacts_def isAppVersion_def)

text \<open>
  C25: a node's address is recovered from its string form, and no two addresses share the string form of a
  node whose names contain no at sign; and a well-formed member record survives the wire unchanged.
\<close>

theorem member_identity_and_wire_roundtrip:
  assumes "CHR ''@'' \<notin> set (systemName a)" "CHR ''@'' \<notin> set (host a)" "member_ok m"
  shows "addr_parse (addr_toString a) = Inr (a\<lparr>incarnation := None\<rparr>) \<and>
    (addr_toString a = addr_toString b) = addr_equals a b \<and>
    member_fromData (member_toData m) = Inr m"
proof (intro conjI)
  show "addr_parse (addr_toString a) = Inr (a\<lparr>incarnation := None\<rparr>)" by (rule addr_parse_toString [OF assms(1)])
  show "(addr_toString a = addr_toString b) = addr_equals a b"
    using addr_toString_equals [OF assms(1,2)] by (auto simp: addr_equals_def addr_toString_def)
  show "member_fromData (member_toData m) = Inr m"
    using assms(3)
    by (cases m)
      (auto simp: member_ok_def member_fromData_def member_toData_def memberStatus_of_string addr_fromJSON_toJSON
        sanitizeStorageIdentities_back sanitizeConfigurationFacts_back sanitize_undefined split: option.splits)
qed

definition demo_address :: "string \<Rightarrow> node_address" where
  "demo_address h = \<lparr>systemName = ''sys'', host = h, port = 2552, incarnation = Some ''u1''\<rparr>"

definition demo_cmember :: "string \<Rightarrow> cmember" where
  "demo_cmember h = \<lparr>m_address = demo_address h, m_status = Up, m_version = Fin 7, m_roles = [''backend''], m_removedAt = None,
     m_storageIdentities = None, m_configurationFacts = Some [(''shards'', ''10'')], m_appVersion = Some ''1.0''\<rparr>"

theorem member_identity_and_wire_roundtrip_witness:
  "addr_parse ''sys@h:2552'' = Inr ((demo_address ''h'')\<lparr>incarnation := None\<rparr>) \<and>
   addr_toString (demo_address ''h'') \<noteq> addr_toString (demo_address ''k'') \<and>
   member_fromData (member_toData (demo_cmember ''h'')) = Inr (demo_cmember ''h'')"
proof -
  have ok: "member_ok (demo_cmember ''h'')"
    by (simp add: member_ok_def demo_cmember_def demo_address_def addr_ok_def MAX_SAFE_INTEGER_def isIncarnation_def
        MAX_NODE_INCARNATION_LENGTH_def facts_ok_def fact_ok_def jwf_def MAX_CONFIGURATION_FACTS_def
        MAX_CONFIGURATION_FACT_NAME_LENGTH_def MAX_CONFIGURATION_FACT_VALUE_LENGTH_def fact_name_ok_def fact_name_start_def
        is_digit_def isAppVersion_def MAX_APP_VERSION_LENGTH_def less_eq_char_def)
  have str: "addr_toString (demo_address ''h'') = ''sys@h:2552''"
    by code_simp
  show ?thesis
    using member_identity_and_wire_roundtrip [of "demo_address ''h''" "demo_cmember ''h''" "demo_address ''k''"] ok
    unfolding str by (simp add: demo_address_def addr_equals_def)
qed

end
