(* ===== verification/Failure_Detector.thy ===== *)
theory Failure_Detector
  imports JS_Prelude
begin

text \<open>
  The timeout failure detector of \<^verbatim>\<open>src/src/cluster/FailureDetector.ts\<close>. Peers are keyed by the string form
  of their address; the clock reading of each call is its argument \<open>now\<close>.
\<close>

datatype failure_decision = Healthy | Suspect | Dead

record fd_sample =
  lastSeen :: rat
  everSeen :: bool

record failure_detector =
  samples :: "(string, fd_sample) jmap"
  heartbeatIntervalMs :: rat
  unreachableAfterMs :: rat
  downAfterMs :: rat

definition fd_new :: "rat \<Rightarrow> rat \<Rightarrow> rat \<Rightarrow> failure_detector" where
  "fd_new interval unreach down = \<lparr>samples = [], heartbeatIntervalMs = interval, unreachableAfterMs = unreach, downAfterMs = down\<rparr>"

definition fd_heardFrom :: "failure_detector \<Rightarrow> string \<Rightarrow> rat \<Rightarrow> failure_detector" where
  "fd_heardFrom fd peer now =
     fd\<lparr>samples := jset (samples fd) peer
          \<lparr>lastSeen = now, everSeen = (case jget (samples fd) peer of None \<Rightarrow> True | Some s \<Rightarrow> everSeen s)\<rparr>\<rparr>"

definition fd_heartbeat :: "failure_detector \<Rightarrow> string \<Rightarrow> rat \<Rightarrow> failure_detector" where
  "fd_heartbeat fd peer now = fd_heardFrom fd peer now"

definition fd_register :: "failure_detector \<Rightarrow> string \<Rightarrow> rat \<Rightarrow> failure_detector" where
  "fd_register fd peer now =
     (if \<not> jhas (samples fd) peer then fd\<lparr>samples := jset (samples fd) peer \<lparr>lastSeen = now, everSeen = False\<rparr>\<rparr> else fd)"

definition fd_forget :: "failure_detector \<Rightarrow> string \<Rightarrow> failure_detector" where
  "fd_forget fd peer = fd\<lparr>samples := jdelete (samples fd) peer\<rparr>"

definition fd_decide :: "failure_detector \<Rightarrow> string \<Rightarrow> rat \<Rightarrow> failure_decision" where
  "fd_decide fd peer now =
     (case jget (samples fd) peer of
        None \<Rightarrow> Healthy
      | Some s \<Rightarrow>
          if now - lastSeen s \<ge> downAfterMs fd then Dead
          else if now - lastSeen s \<ge> unreachableAfterMs fd then Suspect
          else Healthy)"

definition fd_lastSeen :: "failure_detector \<Rightarrow> string \<Rightarrow> rat option" where
  "fd_lastSeen fd peer = map_option lastSeen (jget (samples fd) peer)"

section \<open>Histories\<close>

datatype fd_call = Heard string rat | Register string rat | Forget string

fun fd_call_apply :: "fd_call \<Rightarrow> failure_detector \<Rightarrow> failure_detector" where
  "fd_call_apply (Heard p t) fd = fd_heardFrom fd p t"
| "fd_call_apply (Register p t) fd = fd_register fd p t"
| "fd_call_apply (Forget p) fd = fd_forget fd p"

text \<open>Histories are lists, the latest call first. The sign of life of a peer is the latest time it was heard
  from; before that, the time it was first registered; none once it is forgotten.\<close>

fun sign_of_life :: "string \<Rightarrow> fd_call list \<Rightarrow> rat option" where
  "sign_of_life p [] = None"
| "sign_of_life p (Heard q t # cs) = (if q = p then Some t else sign_of_life p cs)"
| "sign_of_life p (Register q t # cs) =
     (if q = p then Some (case sign_of_life p cs of None \<Rightarrow> t | Some t0 \<Rightarrow> t0) else sign_of_life p cs)"
| "sign_of_life p (Forget q # cs) = (if q = p then None else sign_of_life p cs)"

lemma fd_run_spec:
  "fd_lastSeen (foldr fd_call_apply cs (fd_new i u d)) p = sign_of_life p cs \<and>
   unreachableAfterMs (foldr fd_call_apply cs (fd_new i u d)) = u \<and> downAfterMs (foldr fd_call_apply cs (fd_new i u d)) = d"
proof (induction cs)
  case Nil
  then show ?case by (simp add: fd_new_def fd_lastSeen_def)
next
  case (Cons c cs)
  then show ?case
    by (cases c) (auto simp: fd_lastSeen_def fd_heardFrom_def fd_register_def fd_forget_def jhas_iff split: option.splits)
qed

text \<open>
  After any history of calls the verdict on a peer depends on the time since its last sign of life only:
  dead from \<open>downAfterMs\<close> on, suspect from \<open>unreachableAfterMs\<close> on, healthy before and when unknown or forgotten.
\<close>

theorem fd_verdict:
  "fd_decide (foldr fd_call_apply cs (fd_new i u d)) p now =
     (case sign_of_life p cs of
        None \<Rightarrow> Healthy
      | Some t \<Rightarrow> if now - t \<ge> d then Dead else if now - t \<ge> u then Suspect else Healthy)"
  using fd_run_spec [of cs i u d p]
  by (cases "jget (samples (foldr fd_call_apply cs (fd_new i u d))) p")
    (auto simp: fd_decide_def fd_lastSeen_def dest: sym)

end
