(* ===== verification/Cluster_Node.thy ===== *)
theory Cluster_Node
  imports Cluster_Member Failure_Detector Stability_Window
begin

text \<open>
  A node's view of the cluster: the membership part of \<^verbatim>\<open>src/src/cluster/Cluster.ts\<close>. The state is the class's
  own: the membership table with its tombstones, the guards in front of the gossip merge, the leader, the
  failure detector and the split-brain resolver with its stability window.

  \<open>events\<close> records what was emitted, in order; \<open>outbox\<close> what was handed to the transport. Timers call the
  \<^verbatim>\<open>Tick\<close> operations. The clock reading of a call is its argument \<open>now\<close>. The collation that orders addresses
  (\<^verbatim>\<open>localeCompare\<close>) and the downing provider are fields, since the host and the configuration supply them;
  a provider that throws answers \<open>None\<close>. Log lines and metrics are not modelled.
\<close>

section \<open>State\<close>

datatype gossip_refusal = Map_Cap | Version_Skew | Timestamp_Skew | Replayed_Frame | Self_Claim

datatype cluster_event =
    MemberJoined cmember | MemberWeaklyUp cmember | MemberUp cmember | SelfUp cmember | MemberUnreachable cmember
  | MemberReachable cmember | MemberDown cmember | MemberLeft cmember | MemberRemoved cmember | SelfRemoved cmember
  | LeaderChanged "cmember option" | ReachabilityChanged node_address bool
  | MemberConfigurationMismatch cmember string string string

datatype wire_out =
    Send_Gossip node_address rat "member_data list"
  | Send_Heartbeat node_address nat rat
  | Send_Heartbeat_Ack node_address js_number
  | Send_Leave node_address
  | Run_Coordinated_Shutdown

record cluster_node =
  selfAddress :: node_address
  selfRoles :: "string jset"
  selfAppVersion :: "string option"
  selfStorageIdentities :: storage_identities
  storageIdentityMismatchReported :: "string jset"
  selfConfigurationFacts :: "(string, string) jmap"
  configurationMismatchReported :: "string jset"
  configurationCheckedPaths :: "string jset"
  configurationCompatibilityEnforce :: bool
  members :: "(string, cmember) jmap"
  tombstoneCount :: int
  reachability :: "(string, bool) jmap"
  parkedWithoutResolver :: "string jset"
  acceptedGossipSequences :: "(string, js_number) jmap"
  refusalCounts :: "gossip_refusal \<Rightarrow> nat"
  currentLeader :: "cmember option"
  started :: bool
  gossipSequence :: rat
  heartbeatSeq :: nat
  selfElected :: bool
  heldSelfElection :: bool
  seedAddrs :: "node_address list"
  minimumMembersBeforeUp :: nat
  minimumMembersBeforeUpPerRole :: "(string \<times> nat) list"
  maxMembers :: nat
  maxTombstones :: nat
  maxVersionSkewMs :: rat
  tombstoneTtlMs :: rat
  tombstoneMinRetentionMs :: rat
  lastDownedView :: "string option"
  stabilityWindow :: stability_window
  downing :: "(partition_view \<Rightarrow> string jset option) option"
  failureDetectorAutoDown :: bool
  runCoordinatedShutdownWhenDown :: bool
  failureDetector :: failure_detector
  collation :: "string \<Rightarrow> string \<Rightarrow> int"
  events :: "cluster_event list"
  outbox :: "wire_out list"

definition self_key :: "cluster_node \<Rightarrow> string" where
  "self_key n = addr_toString (selfAddress n)"

definition isSelf :: "cluster_node \<Rightarrow> cmember \<Rightarrow> bool" where
  "isSelf n m = addr_equals (m_address m) (selfAddress n)"

definition member_at :: "cluster_node \<Rightarrow> string \<Rightarrow> cmember option" where
  "member_at n key = jget (members n) key"

section \<open>Events and the leader\<close>

definition emit :: "cluster_event \<Rightarrow> cluster_node \<Rightarrow> cluster_node" where
  "emit e n = n\<lparr>events := events n @ [e]\<rparr>"

definition cluster_send :: "wire_out \<Rightarrow> cluster_node \<Rightarrow> cluster_node" where
  "cluster_send w n = n\<lparr>outbox := outbox n @ [w]\<rparr>"

definition getMembers :: "cluster_node \<Rightarrow> cmember list" where
  "getMembers n = filter (\<lambda>m. m_status m \<noteq> Removed) (jvalues (members n))"

definition upMembers :: "cluster_node \<Rightarrow> cmember list" where
  "upMembers n = sort_by (\<lambda>a b. collation n (member_key a) (member_key b))
     (filter (\<lambda>m. m_status m = Up) (jvalues (members n)))"

definition upMembersWithRole :: "cluster_node \<Rightarrow> string \<Rightarrow> cmember list" where
  "upMembersWithRole n role = filter (\<lambda>m. member_hasRole m role) (upMembers n)"

definition reachableMembers :: "cluster_node \<Rightarrow> cmember list" where
  "reachableMembers n = filter member_isReachable (jvalues (members n))"

definition leader :: "cluster_node \<Rightarrow> cmember option" where
  "leader n = (case upMembers n of [] \<Rightarrow> None | m # _ \<Rightarrow> Some m)"

definition isLeader :: "cluster_node \<Rightarrow> bool" where
  "isLeader n = (case leader n of None \<Rightarrow> False | Some l \<Rightarrow> isSelf n l)"

definition maybeEmitLeaderChange :: "cluster_node \<Rightarrow> cluster_node" where
  "maybeEmitLeaderChange n =
     (let newLeader = leader n in
      if (case (currentLeader n, newLeader) of
            (None, None) \<Rightarrow> False
          | (Some a, Some b) \<Rightarrow> \<not> addr_equals (m_address a) (m_address b)
          | _ \<Rightarrow> True)
      then emit (LeaderChanged newLeader) (n\<lparr>currentLeader := newLeader\<rparr>)
      else n)"

definition statusEventsOf :: "cluster_node \<Rightarrow> cmember \<Rightarrow> cluster_event list" where
  "statusEventsOf n m =
     (case m_status m of
        Up \<Rightarrow> if isSelf n m then [MemberUp m, SelfUp m] else [MemberUp m]
      | Weakly_Up \<Rightarrow> [MemberWeaklyUp m]
      | Unreachable \<Rightarrow> [MemberUnreachable m]
      | Down \<Rightarrow> [MemberDown m]
      | Leaving \<Rightarrow> [MemberLeft m]
      | Removed \<Rightarrow> if isSelf n m then [MemberRemoved m, SelfRemoved m] else [MemberRemoved m]
      | Joining \<Rightarrow> [])"

definition emitStatusTransition :: "member_status \<Rightarrow> cmember \<Rightarrow> cluster_node \<Rightarrow> cluster_node" where
  "emitStatusTransition prev nxt n =
     (if prev = m_status nxt then n
      else maybeEmitLeaderChange (foldl (\<lambda>n e. emit e n) n (statusEventsOf n nxt)))"

section \<open>The table\<close>

definition setMember :: "cmember \<Rightarrow> cluster_node \<Rightarrow> cluster_node" where
  "setMember m n =
     (let key = member_key m;
          gone = (case jget (members n) key of Some p \<Rightarrow> m_status p = Removed | None \<Rightarrow> False)
      in n\<lparr>tombstoneCount := tombstoneCount n - (if gone then 1 else 0) + (if m_status m = Removed then 1 else 0),
           members := jset (members n) key m\<rparr>)"

definition deleteMember :: "string \<Rightarrow> cluster_node \<Rightarrow> cluster_node" where
  "deleteMember key n =
     (case jget (members n) key of
        None \<Rightarrow> n
      | Some p \<Rightarrow> n\<lparr>tombstoneCount := tombstoneCount n - (if m_status p = Removed then 1 else 0),
                     members := jdelete (members n) key,
                     reachability := jdelete (reachability n) key,
                     parkedWithoutResolver := sdel (parkedWithoutResolver n) key,
                     acceptedGossipSequences := jdelete (acceptedGossipSequences n) key\<rparr>)"

definition updateMember :: "cmember \<Rightarrow> cluster_node \<Rightarrow> cluster_node" where
  "updateMember nxt n =
     (let n1 = setMember nxt n in
      case jget (members n) (member_key nxt) of
        Some prev \<Rightarrow> emitStatusTransition (m_status prev) nxt n1
      | None \<Rightarrow> emit (MemberJoined nxt) n1)"

section \<open>Advisory facts: storage identities, configuration, application version\<close>

definition MAX_REPORTED_CONFIGURATION_MISMATCHES :: nat where
  "MAX_REPORTED_CONFIGURATION_MISMATCHES = 32"

datatype identity_kind = Journal | Snapshot_Store | Durable_State_Store

definition publishStorageIdentity :: "identity_kind \<Rightarrow> string \<Rightarrow> cluster_node \<Rightarrow> cluster_node" where
  "publishStorageIdentity kind identity n =
     n\<lparr>selfStorageIdentities := (case kind of
          Journal \<Rightarrow> (selfStorageIdentities n)\<lparr>si_journal := Some identity\<rparr>
        | Snapshot_Store \<Rightarrow> (selfStorageIdentities n)\<lparr>si_snapshotStore := Some identity\<rparr>
        | Durable_State_Store \<Rightarrow> (selfStorageIdentities n)\<lparr>si_durableStateStore := Some identity\<rparr>)\<rparr>"

definition selfStorageIdentitiesSnapshot :: "cluster_node \<Rightarrow> storage_identities option" where
  "selfStorageIdentitiesSnapshot n =
     (let si = selfStorageIdentities n in
      if si_journal si = None \<and> si_snapshotStore si = None \<and> si_durableStateStore si = None then None else Some si)"

definition check_identity_field :: "string \<Rightarrow> string option \<Rightarrow> string option \<Rightarrow> string jset \<Rightarrow> string jset" where
  "check_identity_field field ours theirs reported =
     (if ours = None \<or> theirs = None \<or> ours = theirs then reported else sadd reported field)"

definition checkStorageIdentityAgreement :: "cmember \<Rightarrow> cluster_node \<Rightarrow> cluster_node" where
  "checkStorageIdentityAgreement m n =
     (if isSelf n m then n
      else case m_storageIdentities m of
        None \<Rightarrow> n
      | Some claims \<Rightarrow>
          (let ours = selfStorageIdentities n;
               r0 = storageIdentityMismatchReported n;
               r1 = check_identity_field ''journal'' (si_journal ours) (si_journal claims) r0;
               r2 = check_identity_field ''snapshotStore'' (si_snapshotStore ours) (si_snapshotStore claims) r1;
               r3 = check_identity_field ''durableStateStore'' (si_durableStateStore ours) (si_durableStateStore claims) r2
           in n\<lparr>storageIdentityMismatchReported := r3\<rparr>))"

definition publishConfigurationFact :: "string \<Rightarrow> string \<Rightarrow> cluster_node \<Rightarrow> cluster_node" where
  "publishConfigurationFact name v n =
     (if name \<notin> set (configurationCheckedPaths n) then n
      else if length name > MAX_CONFIGURATION_FACT_NAME_LENGTH then n
      else if \<not> fact_name_ok name then n
      else if v = [] \<or> length v > MAX_CONFIGURATION_FACT_VALUE_LENGTH then n
      else if length (selfConfigurationFacts n) \<ge> MAX_CONFIGURATION_FACTS \<and> \<not> jhas (selfConfigurationFacts n) name then n
      else n\<lparr>selfConfigurationFacts := jset (selfConfigurationFacts n) name v\<rparr>)"

definition selfConfigurationFactsSnapshot :: "cluster_node \<Rightarrow> (string, string) jmap option" where
  "selfConfigurationFactsSnapshot n = (if selfConfigurationFacts n = [] then None else Some (selfConfigurationFacts n))"

fun check_facts :: "cmember \<Rightarrow> (string, string) jmap \<Rightarrow> (string, string) jmap \<Rightarrow> cluster_node \<Rightarrow> cluster_node" where
  "check_facts m claims [] n = n"
| "check_facts m claims ((name, ours) # facts) n =
     (case jget claims name of
        None \<Rightarrow> check_facts m claims facts n
      | Some theirs \<Rightarrow>
          if theirs = ours then check_facts m claims facts n
          else
            (let latch = name @ ''@'' @ member_key m in
             if latch \<in> set (configurationMismatchReported n) then check_facts m claims facts n
             else if length (configurationMismatchReported n) \<ge> MAX_REPORTED_CONFIGURATION_MISMATCHES then check_facts m claims facts n
             else check_facts m claims facts
               (emit (MemberConfigurationMismatch m name ours theirs)
                 (n\<lparr>configurationMismatchReported := sadd (configurationMismatchReported n) latch\<rparr>))))"

definition checkConfigurationAgreement :: "cmember \<Rightarrow> cluster_node \<Rightarrow> cluster_node" where
  "checkConfigurationAgreement m n =
     (if isSelf n m then n
      else case m_configurationFacts m of
        None \<Rightarrow> n
      | Some claims \<Rightarrow> check_facts m claims (selfConfigurationFacts n) n)"

definition divergesInConfiguration :: "cluster_node \<Rightarrow> cmember \<Rightarrow> bool" where
  "divergesInConfiguration n m =
     (case m_configurationFacts m of
        None \<Rightarrow> False
      | Some claims \<Rightarrow> list_ex (\<lambda>(name, ours). case jget claims name of None \<Rightarrow> False | Some theirs \<Rightarrow> theirs \<noteq> ours)
          (selfConfigurationFacts n))"

definition placementCandidates :: "cluster_node \<Rightarrow> cmember list" where
  "placementCandidates n =
     (if \<not> configurationCompatibilityEnforce n then upMembers n
      else filter (\<lambda>m. isSelf n m \<or> \<not> divergesInConfiguration n m) (upMembers n))"

definition placementCandidatesWithRole :: "cluster_node \<Rightarrow> string \<Rightarrow> cmember list" where
  "placementCandidatesWithRole n role = filter (\<lambda>m. member_hasRole m role) (placementCandidates n)"

definition sameConfigurationFacts :: "(string, string) jmap \<Rightarrow> (string, string) jmap \<Rightarrow> bool" where
  "sameConfigurationFacts held incoming =
     (length held = length incoming \<and> list_all (\<lambda>(name, v). jget incoming name = Some v) held)"

definition adoptStorageIdentities :: "cmember \<Rightarrow> cmember \<Rightarrow> cluster_node \<Rightarrow> cluster_node" where
  "adoptStorageIdentities existing incoming n =
     (case m_storageIdentities incoming of
        None \<Rightarrow> n
      | Some si \<Rightarrow>
          if m_storageIdentities existing \<noteq> None then n
          else if isSelf n incoming then n
          else checkStorageIdentityAgreement incoming (setMember (withStorageIdentities existing si) n))"

definition current_or :: "cluster_node \<Rightarrow> cmember \<Rightarrow> cmember \<Rightarrow> cmember" where
  "current_or n incoming existing = (case jget (members n) (member_key incoming) of Some c \<Rightarrow> c | None \<Rightarrow> existing)"

definition adoptConfigurationFacts :: "node_address \<Rightarrow> cmember \<Rightarrow> cmember \<Rightarrow> cluster_node \<Rightarrow> cluster_node" where
  "adoptConfigurationFacts from existing incoming n =
     (case m_configurationFacts incoming of
        None \<Rightarrow> n
      | Some facts \<Rightarrow>
          if isSelf n incoming then n
          else
            (let current = current_or n incoming existing in
             if (case m_configurationFacts current of
                   None \<Rightarrow> False
                 | Some held \<Rightarrow> \<not> addr_equals (m_address incoming) from \<or> sameConfigurationFacts held facts)
             then n
             else checkConfigurationAgreement incoming (setMember (withConfigurationFacts current facts) n)))"

definition adoptAppVersion :: "node_address \<Rightarrow> cmember \<Rightarrow> cmember \<Rightarrow> cluster_node \<Rightarrow> cluster_node" where
  "adoptAppVersion from existing incoming n =
     (if isSelf n incoming then n
      else
        (let current = current_or n incoming existing;
             heldRun = incarnation (m_address current);
             statedRun = incarnation (m_address incoming) in
         if heldRun \<noteq> None \<and> statedRun \<noteq> None \<and> heldRun \<noteq> statedRun then n
         else if addr_equals (m_address incoming) from then
           (if m_appVersion current = m_appVersion incoming then n
            else setMember (withAppVersion current (m_appVersion incoming)) n)
         else if m_appVersion incoming = None \<or> m_appVersion current \<noteq> None then n
         else if heldRun = None \<or> statedRun = None then n
         else setMember (withAppVersion current (m_appVersion incoming)) n))"

definition withLocalSelfIdentity :: "cluster_node \<Rightarrow> cmember \<Rightarrow> cmember" where
  "withLocalSelfIdentity n m =
     (if \<not> isSelf n m then m
      else m\<lparr>m_address := selfAddress n,
             m_storageIdentities := (case selfStorageIdentitiesSnapshot n of None \<Rightarrow> m_storageIdentities m | Some si \<Rightarrow> Some si),
             m_configurationFacts := (case selfConfigurationFactsSnapshot n of None \<Rightarrow> m_configurationFacts m | Some f \<Rightarrow> Some f),
             m_appVersion := selfAppVersion n\<rparr>)"

definition memberDataForGossip :: "cluster_node \<Rightarrow> cmember \<Rightarrow> member_data" where
  "memberDataForGossip n m =
     (let data = member_toData m in
      if \<not> isSelf n m then data
      else
        (let d1 = (case selfStorageIdentitiesSnapshot n of None \<Rightarrow> data | Some si \<Rightarrow> data\<lparr>md_storageIdentities := identities_json si\<rparr>);
             d2 = (case selfConfigurationFactsSnapshot n of None \<Rightarrow> d1 | Some f \<Rightarrow> d1\<lparr>md_configurationFacts := facts_json f\<rparr>)
         in case selfAppVersion n of None \<Rightarrow> d2 | Some v \<Rightarrow> d2\<lparr>md_appVersion := JStr v\<rparr>))"

section \<open>The guards of the merge\<close>

definition MAX_WALL_CLOCK_SKEW_MS :: rat where
  "MAX_WALL_CLOCK_SKEW_MS = 24 * 60 * 60 * 1000"

definition refuse :: "gossip_refusal \<Rightarrow> nat \<Rightarrow> cluster_node \<Rightarrow> cluster_node" where
  "refuse reason k n = n\<lparr>refusalCounts := (refusalCounts n)(reason := refusalCounts n reason + k)\<rparr>"

definition isOwnPromotion :: "cluster_node \<Rightarrow> member_status \<Rightarrow> bool" where
  "isOwnPromotion n incomingStatus =
     (incomingStatus = Up \<and>
      (case jget (members n) (self_key n) of None \<Rightarrow> False | Some me \<Rightarrow> m_status me = Joining \<or> m_status me = Weakly_Up))"

text \<open>The guards that count a refusal return the node with it.\<close>

definition maySpeakFor ::
  "node_address \<Rightarrow> member_status option \<Rightarrow> node_address \<Rightarrow> member_status \<Rightarrow> cluster_node \<Rightarrow> bool \<times> cluster_node" where
  "maySpeakFor from senderStatus subject incomingStatus n =
     (if addr_equals subject (selfAddress n) then
        (if isOwnPromotion n incomingStatus then (True, n)
         else (False, if map_option m_status (jget (members n) (self_key n)) \<noteq> Some incomingStatus
                      then refuse Self_Claim 1 n else n))
      else if addr_equals subject from then (True, n)
      else if senderStatus = Some Up \<or> senderStatus = Some Weakly_Up \<or> senderStatus = Some Leaving then (True, n)
      else (False, n))"

definition admitsVersion :: "rat \<Rightarrow> cmember \<Rightarrow> cluster_node \<Rightarrow> bool \<times> cluster_node" where
  "admitsVersion now incoming n =
     (if js_isFinite (m_version incoming) \<and> js_le (m_version incoming) (Fin (now + maxVersionSkewMs n)) then (True, n)
      else (False, refuse Version_Skew 1 n))"

definition admitsMember :: "cmember \<Rightarrow> cmember option \<Rightarrow> cluster_node \<Rightarrow> bool \<times> cluster_node" where
  "admitsMember incoming existing n =
     (let wantsTombstone = (m_status incoming = Removed);
          cap = (if wantsTombstone then maxTombstones n else maxMembers n);
          held = (if wantsTombstone then tombstoneCount n else int (length (members n)) - tombstoneCount n)
      in if (case existing of None \<Rightarrow> False | Some e \<Rightarrow> (m_status e = Removed) = wantsTombstone) then (True, n)
         else if cap = 0 then (True, n)
         else if held < int cap then (True, n)
         else (False, refuse Map_Cap 1 n))"

definition promotedAtEqualVersion :: "cmember \<Rightarrow> cmember \<Rightarrow> bool" where
  "promotedAtEqualVersion existing incoming =
     (js_eq (m_version incoming) (m_version existing) \<and> m_status existing = Weakly_Up \<and> m_status incoming = Up)"

definition isRestartOf :: "cmember \<Rightarrow> cmember \<Rightarrow> bool" where
  "isRestartOf existing incoming =
     (if m_status incoming = Down \<or> m_status incoming = Removed then False
      else incarnation (m_address existing) \<noteq> None \<and> incarnation (m_address incoming) \<noteq> None \<and>
           incarnation (m_address existing) \<noteq> incarnation (m_address incoming))"

section \<open>The merge\<close>

definition admitFirstSighting :: "rat \<Rightarrow> cmember \<Rightarrow> cluster_node \<Rightarrow> cluster_node" where
  "admitFirstSighting now incoming n =
     (let n1 = checkConfigurationAgreement incoming (checkStorageIdentityAgreement incoming (setMember incoming n));
          n2 = emit (MemberJoined incoming)
                 (n1\<lparr>failureDetector := fd_register (failureDetector n1) (member_key incoming) now\<rparr>)
      in if m_status incoming \<noteq> Joining then emitStatusTransition Joining incoming n2 else n2)"

definition replaceIncarnation :: "rat \<Rightarrow> cmember \<Rightarrow> cmember \<Rightarrow> cluster_node \<Rightarrow> cluster_node" where
  "replaceIncarnation now existing incoming n =
     (let downed = withStatus existing Down;
          n1 = deleteMember (member_key existing) (updateMember downed n);
          n2 = n1\<lparr>failureDetector := fd_forget (failureDetector n1) (member_key existing)\<rparr>
      in admitFirstSighting now incoming (emit (MemberRemoved (withStatus downed Removed)) n2))"

text \<open>An expired or implausibly dated tombstone is refused.\<close>

definition admitsTombstoneDate :: "rat \<Rightarrow> cmember \<Rightarrow> cluster_node \<Rightarrow> bool \<times> cluster_node" where
  "admitsTombstoneDate now incoming n =
     (case (m_status incoming, m_removedAt incoming) of
        (Removed, Some r) \<Rightarrow>
          (case r of
             Fin t \<Rightarrow> if t > now + MAX_WALL_CLOCK_SKEW_MS then (False, refuse Timestamp_Skew 1 n)
                       else if now - t \<ge> tombstoneTtlMs n then (False, n) else (True, n)
           | _ \<Rightarrow> (False, refuse Timestamp_Skew 1 n))
      | _ \<Rightarrow> (True, n))"

definition merge_known :: "rat \<Rightarrow> node_address \<Rightarrow> cmember \<Rightarrow> cmember \<Rightarrow> cluster_node \<Rightarrow> cluster_node" where
  "merge_known now from existing incoming n =
     (if m_status existing = Removed \<and> js_less (m_version existing) (m_version incoming) then
        (case admitsMember incoming (Some existing) n of
           (False, n1) \<Rightarrow> n1
         | (True, n1) \<Rightarrow> admitFirstSighting now incoming n1)
      else if js_le (m_version incoming) (m_version existing) \<and> \<not> promotedAtEqualVersion existing incoming then
        adoptAppVersion from existing incoming
          (adoptConfigurationFacts from existing incoming (adoptStorageIdentities existing incoming n))
      else
        (case admitsMember incoming (Some existing) n of
           (False, n1) \<Rightarrow> n1
         | (True, n1) \<Rightarrow>
             if isRestartOf existing incoming then replaceIncarnation now existing incoming n1
             else emitStatusTransition (m_status existing) incoming
                    (checkConfigurationAgreement incoming (checkStorageIdentityAgreement incoming (setMember incoming n1)))))"

definition mergeMember :: "rat \<Rightarrow> node_address \<Rightarrow> member_status option \<Rightarrow> cmember \<Rightarrow> cluster_node \<Rightarrow> cluster_node" where
  "mergeMember now from senderStatus decoded n =
     (let incoming = withLocalSelfIdentity n decoded in
      case maySpeakFor from senderStatus (m_address incoming) (m_status incoming) n of
        (False, n1) \<Rightarrow> n1
      | (True, n1) \<Rightarrow>
        (case admitsVersion now incoming n1 of
           (False, n2) \<Rightarrow> n2
         | (True, n2) \<Rightarrow>
           (case admitsTombstoneDate now incoming n2 of
              (False, n3) \<Rightarrow> n3
            | (True, n3) \<Rightarrow>
              (case jget (members n3) (member_key incoming) of
                 None \<Rightarrow>
                   (case admitsMember incoming None n3 of
                      (False, n4) \<Rightarrow> n4
                    | (True, n4) \<Rightarrow> admitFirstSighting now incoming n4)
               | Some existing \<Rightarrow> merge_known now from existing incoming n3))))"

section \<open>Becoming up\<close>

definition membersCountingTowardUpThreshold :: "cluster_node \<Rightarrow> cmember list" where
  "membersCountingTowardUpThreshold n =
     filter (\<lambda>m. m_status m = Joining \<or> m_status m = Weakly_Up \<or> m_status m = Up) (jvalues (members n))"

definition upThresholdSatisfied :: "cluster_node \<Rightarrow> bool" where
  "upThresholdSatisfied n =
     (let present = membersCountingTowardUpThreshold n in
      length present \<ge> minimumMembersBeforeUp n \<and>
      list_all (\<lambda>(role, minimum). length (filter (\<lambda>m. member_hasRole m role) present) \<ge> minimum) (minimumMembersBeforeUpPerRole n))"

definition holdSelfElection :: "cluster_node \<Rightarrow> cluster_node" where
  "holdSelfElection n = (if heldSelfElection n then n else n\<lparr>heldSelfElection := True\<rparr>)"

definition selfElect :: "cluster_node \<Rightarrow> cluster_node" where
  "selfElect n =
     (if \<not> started n then n
      else case jget (members n) (self_key n) of
        None \<Rightarrow> n
      | Some me \<Rightarrow>
          if m_status me \<noteq> Joining \<and> m_status me \<noteq> Weakly_Up then n
          else if \<not> upThresholdSatisfied n then holdSelfElection n
          else updateMember (withStatus me Up) (n\<lparr>heldSelfElection := False, selfElected := True\<rparr>))"

definition runHeldSelfElection :: "cluster_node \<Rightarrow> cluster_node" where
  "runHeldSelfElection n =
     (if \<not> heldSelfElection n then n
      else if \<not> upThresholdSatisfied n then n
      else selfElect (n\<lparr>heldSelfElection := False\<rparr>))"

definition promote_one :: "cluster_node \<Rightarrow> cmember \<Rightarrow> cluster_node" where
  "promote_one n m = (if m_status m = Joining \<or> m_status m = Weakly_Up then updateMember (withStatus m Up) n else n)"

definition promoteJoiningMembers :: "cluster_node \<Rightarrow> cluster_node" where
  "promoteJoiningMembers n =
     (if \<not> isLeader n then n
      else if \<not> upThresholdSatisfied n then n
      else foldl promote_one n (jvalues (members n)))"

definition leaderActionsTick :: "cluster_node \<Rightarrow> cluster_node" where
  "leaderActionsTick n = (if \<not> started n then n else promoteJoiningMembers (runHeldSelfElection n))"

definition weaklyUpTimer :: "cluster_node \<Rightarrow> cluster_node" where
  "weaklyUpTimer n =
     (case jget (members n) (self_key n) of
        Some me \<Rightarrow> if m_status me = Joining then updateMember (withStatus me Weakly_Up) n else n
      | None \<Rightarrow> n)"

section \<open>Messages\<close>

record gossip_message =
  g_from :: json
  g_sequence :: js_number
  g_members :: "member_data list"

definition admitsGossipSequence :: "rat \<Rightarrow> node_address \<Rightarrow> js_number \<Rightarrow> cluster_node \<Rightarrow> bool" where
  "admitsGossipSequence now from sequence n =
     (if \<not> js_isFinite sequence \<or> js_less (Fin (now + maxVersionSkewMs n)) sequence then False
      else case jget (acceptedGossipSequences n) (addr_toString from) of
        None \<Rightarrow> True
      | Some lastAccepted \<Rightarrow> js_less lastAccepted sequence)"

definition rememberGossipSequence :: "node_address \<Rightarrow> js_number \<Rightarrow> cluster_node \<Rightarrow> cluster_node" where
  "rememberGossipSequence from sequence n =
     (if \<not> jhas (members n) (addr_toString from) then n
      else n\<lparr>acceptedGossipSequences := jset (acceptedGossipSequences n) (addr_toString from) sequence\<rparr>)"

text \<open>A record that does not decode throws: the rest of the frame is not read.\<close>

fun merge_all :: "rat \<Rightarrow> node_address \<Rightarrow> member_status option \<Rightarrow> member_data list \<Rightarrow> cluster_node \<Rightarrow> bool \<times> cluster_node" where
  "merge_all now from senderStatus [] n = (True, n)"
| "merge_all now from senderStatus (d # ds) n =
     (case member_fromData d of
        Inl _ \<Rightarrow> (False, n)
      | Inr m \<Rightarrow> merge_all now from senderStatus ds (mergeMember now from senderStatus m n))"

definition admit_sender :: "node_address \<Rightarrow> cluster_node \<Rightarrow> cluster_node" where
  "admit_sender sender n =
     (if jhas (members n) (addr_toString sender) then n
      else
        (let m = \<lparr>m_address = sender, m_status = Joining, m_version = Fin 1, m_roles = [], m_removedAt = None,
                   m_storageIdentities = None, m_configurationFacts = None, m_appVersion = None\<rparr> in
         case admitsMember m None n of
           (False, n1) \<Rightarrow> n1
         | (True, n1) \<Rightarrow> emit (MemberJoined m) (setMember m n1)))"

definition onGossip :: "rat \<Rightarrow> node_address \<Rightarrow> gossip_message \<Rightarrow> cluster_node \<Rightarrow> cluster_node" where
  "onGossip now from msg n =
     (if \<not> admitsGossipSequence now from (g_sequence msg) n then refuse Replayed_Frame (length (g_members msg)) n
      else case addr_fromJSON (g_from msg) of
        Inl _ \<Rightarrow> n
      | Inr sender \<Rightarrow>
          (let senderStatus = map_option m_status (jget (members n) (addr_toString from)) in
           case merge_all now from senderStatus (g_members msg) n of
             (False, n1) \<Rightarrow> n1
           | (True, n1) \<Rightarrow>
               leaderActionsTick (rememberGossipSequence from (g_sequence msg) (admit_sender sender n1))))"

definition isPlausibleHeartbeat :: "rat \<Rightarrow> js_number \<Rightarrow> js_number \<Rightarrow> bool" where
  "isPlausibleHeartbeat now sq ts =
     (js_isSafeInteger sq \<and> \<not> js_less sq (Fin 0) \<and> js_isFinite ts \<and> js_le ts (Fin (now + MAX_WALL_CLOCK_SKEW_MS)))"

definition onHeartbeat :: "rat \<Rightarrow> node_address \<Rightarrow> js_number \<Rightarrow> js_number \<Rightarrow> cluster_node \<Rightarrow> cluster_node" where
  "onHeartbeat now from sq ts n0 =
     (if \<not> isPlausibleHeartbeat now sq ts then n0
      else
        (let key = addr_toString from;
             n = cluster_send (Send_Heartbeat_Ack from sq) (n0\<lparr>failureDetector := fd_heartbeat (failureDetector n0) key now\<rparr>) in
         case jget (members n) key of
           Some existing \<Rightarrow>
             if m_status existing = Unreachable then
               (let n1 = updateMember (withStatus existing Up) n in
                case jget (members n1) key of
                  Some recovered \<Rightarrow> if m_status recovered = Up then emit (MemberReachable recovered) n1 else n1
                | None \<Rightarrow> n1)
             else n
         | None \<Rightarrow> n))"

definition onLeave :: "rat \<Rightarrow> node_address \<Rightarrow> node_address \<Rightarrow> cluster_node \<Rightarrow> cluster_node" where
  "onLeave now from peer n =
     (if \<not> addr_equals peer from then n
      else case jget (members n) (addr_toString peer) of
        None \<Rightarrow> n
      | Some existing \<Rightarrow>
          (let leaving = withStatus existing Leaving;
               removed = withRemoved leaving now;
               n1 = setMember removed n;
               n2 = n1\<lparr>failureDetector := fd_forget (failureDetector n1) (addr_toString peer)\<rparr>
           in maybeEmitLeaderChange (emit (MemberRemoved removed) (emit (MemberLeft leaving) n2))))"

datatype wire_message =
    Heartbeat js_number js_number
  | Heartbeat_Ack
  | Gossip gossip_message
  | Leave json

text \<open>The frames of the membership protocol. Every frame is a sign of life of its sender.\<close>

definition handleWire :: "rat \<Rightarrow> node_address \<Rightarrow> wire_message \<Rightarrow> cluster_node \<Rightarrow> cluster_node" where
  "handleWire now from msg n0 =
     (let n = n0\<lparr>failureDetector := fd_heardFrom (failureDetector n0) (addr_toString from) now\<rparr> in
      case msg of
        Heartbeat sq ts \<Rightarrow> onHeartbeat now from sq ts n
      | Heartbeat_Ack \<Rightarrow> n
      | Gossip g \<Rightarrow> onGossip now from g n
      | Leave node \<Rightarrow> (case addr_fromJSON node of Inl _ \<Rightarrow> n | Inr peer \<Rightarrow> onLeave now from peer n))"

section \<open>Timers\<close>

definition gossipTick :: "nat \<Rightarrow> cluster_node \<Rightarrow> cluster_node" where
  "gossipTick choice n0 =
     (let n = leaderActionsTick n0;
          targets = filter (\<lambda>m. \<not> isSelf n m) (reachableMembers n)
      in if targets = [] then n
         else
           (let target = targets ! (choice mod length targets);
                sq = gossipSequence n + 1
            in cluster_send (Send_Gossip (m_address target) sq (map (memberDataForGossip n) (jvalues (members n))))
                 (n\<lparr>gossipSequence := sq\<rparr>)))"

definition heartbeatTick :: "rat \<Rightarrow> cluster_node \<Rightarrow> cluster_node" where
  "heartbeatTick now n0 =
     (let n = n0\<lparr>heartbeatSeq := heartbeatSeq n0 + 1\<rparr> in
      foldl (\<lambda>n m. if isSelf n m then n else cluster_send (Send_Heartbeat (m_address m) (heartbeatSeq n) now) n) n (reachableMembers n))"

definition contactSeeds :: "rat \<Rightarrow> cluster_node \<Rightarrow> cluster_node" where
  "contactSeeds now n0 =
     (case jget (members n0) (self_key n0) of
        None \<Rightarrow> n0
      | Some me \<Rightarrow>
          (let sq = gossipSequence n0 + 1; n = n0\<lparr>gossipSequence := sq\<rparr> in
           foldl (\<lambda>n seed. cluster_send (Send_Gossip seed sq [memberDataForGossip n me])
               (n\<lparr>failureDetector := fd_register (failureDetector n) (addr_toString seed) now\<rparr>)) n (seedAddrs n)))"

definition tombstonePruneTick :: "rat \<Rightarrow> cluster_node \<Rightarrow> cluster_node" where
  "tombstonePruneTick now n =
     (let cutoff = max (tombstoneTtlMs n) (tombstoneMinRetentionMs n) in
      foldl (\<lambda>n (key, m).
          if m_status m \<noteq> Removed then n
          else case m_removedAt m of
            None \<Rightarrow> n
          | Some r \<Rightarrow> (case r of
               Fin t \<Rightarrow> if now - t < cutoff then n else deleteMember key n
             | PosInf \<Rightarrow> n
             | NegInf \<Rightarrow> deleteMember key n
             | NaN \<Rightarrow> deleteMember key n)) n (members n))"

section \<open>Failure detection and downing\<close>

definition trackReachability :: "cmember \<Rightarrow> failure_decision \<Rightarrow> cluster_node \<Rightarrow> cluster_node" where
  "trackReachability m decision n =
     (let key = member_key m in
      if m_status m = Down \<or> m_status m = Removed then n\<lparr>reachability := jdelete (reachability n) key\<rparr>
      else
        (let reachable = (decision = Healthy); previous = jget (reachability n) key in
         if previous = Some reachable then n
         else
           (let n1 = n\<lparr>reachability := jset (reachability n) key reachable\<rparr> in
            if previous = None \<and> reachable then n1 else emit (ReachabilityChanged (m_address m) reachable) n1)))"

definition holdForResolver :: "cmember \<Rightarrow> cluster_node \<Rightarrow> cluster_node" where
  "holdForResolver m n =
     (let n1 = (if downing n = None then n\<lparr>parkedWithoutResolver := sadd (parkedWithoutResolver n) (member_key m)\<rparr> else n) in
      if m_status m = Unreachable then n1 else updateMember (withStatus m Unreachable) n1)"

definition detect_one :: "rat \<Rightarrow> cluster_node \<Rightarrow> cmember \<Rightarrow> cluster_node" where
  "detect_one now n0 m =
     (if isSelf n0 m then n0
      else
        (let key = member_key m;
             decision = fd_decide (failureDetector n0) key now;
             n1 = trackReachability m decision n0;
             n = (if decision \<noteq> Dead then n1\<lparr>parkedWithoutResolver := sdel (parkedWithoutResolver n1) key\<rparr> else n1)
         in if decision = Suspect \<and> m_status m = Up then updateMember (withStatus m Unreachable) n
            else if decision = Dead \<and> m_status m \<noteq> Down \<and> m_status m \<noteq> Removed then
              (if downing n \<noteq> None \<or> \<not> failureDetectorAutoDown n then holdForResolver m n
               else
                 (let downed = withStatus m Down;
                      n2 = deleteMember key (updateMember downed n);
                      n3 = n2\<lparr>failureDetector := fd_forget (failureDetector n2) key\<rparr>
                  in emit (MemberRemoved (withStatus downed Removed)) n3))
            else n))"

definition beginLeaving :: "cluster_node \<Rightarrow> bool \<times> cluster_node" where
  "beginLeaving n = (if \<not> started n then (False, n) else (True, n\<lparr>started := False\<rparr>))"

definition depart :: "cluster_node \<Rightarrow> cluster_node" where
  "depart n0 =
     (let n = (case jget (members n0) (self_key n0) of
                 Some me \<Rightarrow> updateMember (withStatus me Leaving) n0
               | None \<Rightarrow> n0)
      in foldl (\<lambda>n m. cluster_send (Send_Leave (m_address m)) n) n (filter (\<lambda>m. \<not> isSelf n m) (reachableMembers n)))"

definition leaveAtOnce :: "cluster_node \<Rightarrow> cluster_node" where
  "leaveAtOnce n = (case beginLeaving n of (False, n1) \<Rightarrow> n1 | (True, n1) \<Rightarrow> depart n1)"

definition leaveAfterDowningSelf :: "cluster_node \<Rightarrow> cluster_node" where
  "leaveAfterDowningSelf n0 =
     (let n = leaveAtOnce n0 in
      if \<not> runCoordinatedShutdownWhenDown n then n else cluster_send Run_Coordinated_Shutdown n)"

definition down_member :: "rat \<Rightarrow> cmember \<Rightarrow> cluster_node \<Rightarrow> cluster_node" where
  "down_member now m n =
     (let downed = withStatus m Down;
          removed = withRemoved downed now;
          n1 = setMember removed (updateMember downed n);
          n2 = n1\<lparr>failureDetector := fd_forget (failureDetector n1) (member_key m)\<rparr>
      in emit (MemberRemoved removed) n2)"

definition down_one :: "rat \<Rightarrow> cluster_node \<Rightarrow> string \<Rightarrow> cluster_node" where
  "down_one now n key =
     (if key = self_key n then n
      else case jget (members n) key of
        None \<Rightarrow> n
      | Some m \<Rightarrow> if m_status m = Down \<or> m_status m = Removed then n else down_member now m n)"

definition applyDowningDecision :: "rat \<Rightarrow> string jset \<Rightarrow> string \<Rightarrow> cluster_node \<Rightarrow> cluster_node" where
  "applyDowningDecision now toDown fingerprint n0 =
     (let n = foldl (down_one now) (n0\<lparr>lastDownedView := Some fingerprint\<rparr>) toDown in
      if self_key n0 \<in> set toDown then leaveAfterDowningSelf n else n)"

definition view_member :: "cmember \<Rightarrow> member" where
  "view_member m = \<lparr>addrKey = member_key m, status = m_status m, roles = m_roles m\<rparr>"

fun join_strings :: "string \<Rightarrow> string list \<Rightarrow> string" where
  "join_strings sep [] = []"
| "join_strings sep [x] = x"
| "join_strings sep (x # xs) = x @ sep @ join_strings sep xs"

definition view_fingerprint :: "cmember list \<Rightarrow> string" where
  "view_fingerprint ms = join_strings ''|'' (sort (map (\<lambda>m. member_key m @ '':'' @ status_string (m_status m)) ms))"

definition evaluateDowning :: "rat \<Rightarrow> cluster_node \<Rightarrow> cluster_node" where
  "evaluateDowning now n0 =
     (case downing n0 of
        None \<Rightarrow> n0
      | Some decide \<Rightarrow>
          (let allM = jvalues (members n0);
               unreach = sof (map member_key (filter (\<lambda>m. m_status m = Unreachable) allM));
               fingerprint = view_fingerprint allM;
               (stable, w1) = window_observe (stabilityWindow n0) fingerprint unreach now;
               (escalated, w2) = (if stable then (None, w1) else window_takeEscalation w1 unreach now);
               n = n0\<lparr>stabilityWindow := w2\<rparr>
           in if escalated \<noteq> None then applyDowningDecision now (sof (map member_key allM)) fingerprint n
              else if \<not> stable \<and> \<not> window_hasOutlastedChurn w2 now then n
              else if lastDownedView n = Some fingerprint then n
              else case decide \<lparr>allMembers = map view_member allM, unreachable = unreach, self_address = self_key n\<rparr> of
                None \<Rightarrow> n
              | Some toDown \<Rightarrow> if toDown = [] then n else applyDowningDecision now toDown fingerprint n))"

definition failureDetectionTick :: "rat \<Rightarrow> cluster_node \<Rightarrow> cluster_node" where
  "failureDetectionTick now n0 =
     (let n = foldl (detect_one now) n0 (jvalues (members n0)) in
      if downing n \<noteq> None then evaluateDowning now n else n)"

definition cluster_down :: "rat \<Rightarrow> string \<Rightarrow> cluster_node \<Rightarrow> bool \<times> cluster_node" where
  "cluster_down now key n =
     (if \<not> started n then (False, n)
      else case jget (members n) key of
        None \<Rightarrow> (False, n)
      | Some m \<Rightarrow>
          if m_status m = Down \<or> m_status m = Removed then (False, n)
          else if isSelf n m then (False, n)
          else (True, down_member now m n))"

section \<open>Starting\<close>

datatype self_election = Immediate | Never | Deferred

definition armSelfElection :: "self_election \<Rightarrow> cluster_node \<Rightarrow> cluster_node" where
  "armSelfElection policy n =
     (case policy of
        Immediate \<Rightarrow> if seedAddrs n \<noteq> [] then n else selfElect n
      | Never \<Rightarrow> n
      | Deferred \<Rightarrow> n)"

definition cluster_start :: "rat \<Rightarrow> self_election \<Rightarrow> node_address list \<Rightarrow> cluster_node \<Rightarrow> cluster_node" where
  "cluster_start now policy seeds n0 =
     (let me = \<lparr>m_address = selfAddress n0, m_status = Joining, m_version = Fin now, m_roles = selfRoles n0, m_removedAt = None,
                m_storageIdentities = selfStorageIdentitiesSnapshot n0, m_configurationFacts = None,
                m_appVersion = selfAppVersion n0\<rparr>;
          n1 = emit (MemberJoined me) (setMember me (n0\<lparr>started := True, gossipSequence := now\<rparr>));
          n2 = n1\<lparr>seedAddrs := seedAddrs n1 @ filter (\<lambda>a. \<not> addr_equals a (selfAddress n1)) seeds\<rparr>;
          n3 = (if seedAddrs n2 \<noteq> [] then contactSeeds now n2 else n2)
      in armSelfElection policy n3)"

end
