(* ===== verification/Cluster_Invariant.thy ===== *)
theory Cluster_Invariant
  imports Cluster_Node
begin

text \<open>
  What every operation of a node keeps of its membership table. Operations that only emit events, send
  frames or record refusals leave the table alone (\<open>same_table\<close>); the others are sequences of \<open>setMember\<close>
  and \<open>deleteMember\<close>, so the well-formedness of the table is kept by the two and hence by every handler and
  every timer.
\<close>

section \<open>Operations that leave the table alone\<close>

definition same_table :: "cluster_node \<Rightarrow> cluster_node \<Rightarrow> bool" where
  "same_table n' n \<longleftrightarrow> selfAddress n' = selfAddress n \<and> members n' = members n \<and> tombstoneCount n' = tombstoneCount n \<and>
     reachability n' = reachability n \<and> parkedWithoutResolver n' = parkedWithoutResolver n \<and>
     acceptedGossipSequences n' = acceptedGossipSequences n \<and> maxMembers n' = maxMembers n \<and> maxTombstones n' = maxTombstones n"

named_theorems same_table_rules "operations that leave the table alone"

lemma same_table_refl [same_table_rules]: "same_table n n"
  by (simp add: same_table_def)

lemma same_table_trans: "same_table n2 n1 \<Longrightarrow> same_table n1 n0 \<Longrightarrow> same_table n2 n0"
  by (simp add: same_table_def)

lemma same_table_emit [same_table_rules]: "same_table n' n \<Longrightarrow> same_table (emit e n') n"
  by (simp add: same_table_def emit_def)

lemma same_table_send [same_table_rules]: "same_table n' n \<Longrightarrow> same_table (cluster_send w n') n"
  by (simp add: same_table_def cluster_send_def)

lemma same_table_refuse [same_table_rules]: "same_table n' n \<Longrightarrow> same_table (refuse r k n') n"
  by (simp add: same_table_def refuse_def)

lemma same_table_fd [same_table_rules]: "same_table n' n \<Longrightarrow> same_table (n'\<lparr>failureDetector := fd\<rparr>) n"
  by (simp add: same_table_def)

lemma same_table_leader [same_table_rules]: "same_table n' n \<Longrightarrow> same_table (maybeEmitLeaderChange n') n"
  by (simp add: same_table_def maybeEmitLeaderChange_def emit_def Let_def)

lemma same_table_foldl:
  assumes "\<And>n x. same_table (f n x) n"
  shows "same_table (foldl f n xs) n"
  using assms by (induction xs arbitrary: n) (simp add: same_table_refl, metis foldl_Cons same_table_trans)

lemma same_table_events: "same_table (foldl (\<lambda>n e. emit e n) n es) n"
  by (rule same_table_foldl) (intro same_table_rules)

lemma same_table_transition [same_table_rules]: "same_table n' n \<Longrightarrow> same_table (emitStatusTransition p m n') n"
  unfolding emitStatusTransition_def
  using same_table_trans [OF same_table_leader [OF same_table_events]] by simp

lemma same_table_storage [same_table_rules]: "same_table n' n \<Longrightarrow> same_table (checkStorageIdentityAgreement m n') n"
  by (simp add: checkStorageIdentityAgreement_def Let_def same_table_def split: option.splits)

lemma same_table_check_facts: "same_table (check_facts m claims facts n) n"
proof (induction m claims facts n rule: check_facts.induct)
  case (2 m claims name ours facts n)
  then show ?case
    by (auto simp: Let_def same_table_def emit_def split: option.splits)
qed (simp add: same_table_refl)

lemma same_table_config [same_table_rules]: "same_table n' n \<Longrightarrow> same_table (checkConfigurationAgreement m n') n"
  unfolding checkConfigurationAgreement_def
  using same_table_trans [OF same_table_check_facts] by (simp split: option.splits)

lemma same_table_guards:
  "same_table (snd (maySpeakFor from st a s n)) n" "same_table (snd (admitsVersion now m n)) n"
  "same_table (snd (admitsMember m ex n)) n" "same_table (snd (admitsTombstoneDate now m n)) n"
  by (auto simp: maySpeakFor_def admitsVersion_def admitsMember_def admitsTombstoneDate_def Let_def
      intro!: same_table_rules split: member_status.splits option.splits js_number.splits)

text \<open>An update is a write to the table and events.\<close>

lemma same_table_update: "same_table (updateMember m n) (setMember m n)"
  unfolding updateMember_def Let_def
  by (auto intro!: same_table_rules split: option.splits)

lemma same_table_first: "same_table (admitFirstSighting now m n) (setMember m n)"
  unfolding admitFirstSighting_def Let_def by (auto intro!: same_table_rules)

section \<open>Well-formed tables\<close>

definition tombstones :: "(string, cmember) jmap \<Rightarrow> nat" where
  "tombstones t = length (filter (\<lambda>(k, m). m_status m = Removed) t)"

definition table_wf :: "cluster_node \<Rightarrow> bool" where
  "table_wf n \<longleftrightarrow> jwf (members n) \<and>
     (\<forall>k m. jget (members n) k = Some m \<longrightarrow> member_key m = k \<and> js_isFinite (m_version m)) \<and>
     tombstoneCount n = int (tombstones (members n)) \<and>
     dom (jget (reachability n)) \<subseteq> dom (jget (members n)) \<and>
     set (parkedWithoutResolver n) \<subseteq> dom (jget (members n)) \<and>
     dom (jget (acceptedGossipSequences n)) \<subseteq> dom (jget (members n))"

lemma table_wf_same: "same_table n' n \<Longrightarrow> table_wf n' = table_wf n"
  by (simp add: table_wf_def same_table_def)

lemma filter_length_card:
  assumes "jwf t"
  shows "length (filter (\<lambda>(k, m). P m) t) = card {k. \<exists>m. jget t k = Some m \<and> P m}"
proof -
  have d: "distinct (map fst (filter (\<lambda>(k, m). P m) t))" using assms by (simp add: jwf_def distinct_map_filter)
  have "length (filter (\<lambda>(k, m). P m) t) = card (set (map fst (filter (\<lambda>(k, m). P m) t)))"
    using distinct_card [OF d] by simp
  also have "set (map fst (filter (\<lambda>(k, m). P m) t)) = {k. \<exists>m. jget t k = Some m \<and> P m}"
    using jget_in_eq [OF assms] by force
  finally show ?thesis .
qed

lemma tombstones_card: "jwf t \<Longrightarrow> tombstones t = card {k. \<exists>m. jget t k = Some m \<and> m_status m = Removed}"
  unfolding tombstones_def by (rule filter_length_card)

lemma finite_tombs: "finite {k. \<exists>m. jget t k = Some m \<and> P m}"
  by (rule finite_subset [of _ "dom (jget t)"]) auto

lemma tombstones_jset:
  assumes "jwf t"
  shows "int (tombstones (jset t k m)) = int (tombstones t) -
    (if (case jget t k of Some p \<Rightarrow> m_status p = Removed | None \<Rightarrow> False) then 1 else 0) + (if m_status m = Removed then 1 else 0)"
proof -
  let ?S = "{k. \<exists>m. jget t k = Some m \<and> m_status m = Removed}"
  have fin: "finite ?S" by (rule finite_tombs)
  have in_S: "k \<in> ?S \<longleftrightarrow> (case jget t k of Some p \<Rightarrow> m_status p = Removed | None \<Rightarrow> False)" by (auto split: option.splits)
  have new: "{k'. \<exists>m'. jget (jset t k m) k' = Some m' \<and> m_status m' = Removed} =
      (if m_status m = Removed then insert k ?S else ?S - {k})" by auto
  have "k \<in> ?S \<Longrightarrow> 0 < card ?S" using fin card_gt_0_iff by blast
  then show ?thesis
    unfolding tombstones_card [OF assms] tombstones_card [OF jwf_jset [OF assms]] new in_S [symmetric]
    using fin by (auto simp: card_insert_if of_nat_diff)
qed

lemma tombstones_jdelete:
  assumes "jwf t" "jget t k = Some p"
  shows "int (tombstones (jdelete t k)) = int (tombstones t) - (if m_status p = Removed then 1 else 0)"
proof -
  let ?S = "{k. \<exists>m. jget t k = Some m \<and> m_status m = Removed}"
  have fin: "finite ?S" by (rule finite_tombs)
  have new: "{k'. \<exists>m'. jget (jdelete t k) k' = Some m' \<and> m_status m' = Removed} = ?S - {k}" by auto
  have in_S: "k \<in> ?S \<longleftrightarrow> m_status p = Removed" using assms(2) by simp
  have "k \<in> ?S \<Longrightarrow> 0 < card ?S" using fin card_gt_0_iff by blast
  then show ?thesis
    unfolding tombstones_card [OF assms(1)] tombstones_card [OF jwf_jdelete [OF assms(1)]] new in_S [symmetric]
    using fin by (auto simp: of_nat_diff)
qed

lemma members_setMember [simp]: "members (setMember m n) = jset (members n) (member_key m) m"
  by (simp add: setMember_def Let_def)

lemma setMember_frame [simp]:
  "selfAddress (setMember m n) = selfAddress n" "reachability (setMember m n) = reachability n"
  "parkedWithoutResolver (setMember m n) = parkedWithoutResolver n" "acceptedGossipSequences (setMember m n) = acceptedGossipSequences n"
  "maxMembers (setMember m n) = maxMembers n" "maxTombstones (setMember m n) = maxTombstones n"
  by (simp_all add: setMember_def Let_def)

lemma table_wf_set:
  assumes "table_wf n" "js_isFinite (m_version m)"
  shows "table_wf (setMember m n)"
proof -
  have wf: "jwf (members n)" using assms(1) by (simp add: table_wf_def)
  have "tombstoneCount (setMember m n) = int (tombstones (members (setMember m n)))"
    using assms(1) tombstones_jset [OF wf, of "member_key m" m] by (simp add: setMember_def Let_def table_wf_def)
  moreover have "dom (jget (members n)) \<subseteq> dom (jget (members (setMember m n)))" by auto
  ultimately show ?thesis using assms unfolding table_wf_def by (auto split: if_splits)
qed

lemma table_wf_delete:
  assumes "table_wf n"
  shows "table_wf (deleteMember k n)"
proof (cases "jget (members n) k")
  case None
  with assms show ?thesis by (simp add: deleteMember_def)
next
  case (Some p)
  have wf: "jwf (members n)" using assms by (simp add: table_wf_def)
  from Some assms tombstones_jdelete [OF wf Some] show ?thesis
    by (auto simp: deleteMember_def table_wf_def split: if_splits)
qed

lemma table_wfD: "table_wf n \<Longrightarrow> jget (members n) k = Some m \<Longrightarrow> member_key m = k \<and> js_isFinite (m_version m)"
  by (simp add: table_wf_def)

lemma table_wf_values: "table_wf n \<Longrightarrow> m \<in> set (jvalues (members n)) \<Longrightarrow> jget (members n) (member_key m) = Some m \<and> js_isFinite (m_version m)"
proof -
  assume wf: "table_wf n" and "m \<in> set (jvalues (members n))"
  then obtain k where "(k, m) \<in> set (members n)" by (auto simp: jvalues_def)
  moreover have "jwf (members n)" using wf by (simp add: table_wf_def)
  ultimately have "jget (members n) k = Some m" by (simp add: jget_in_eq)
  with table_wfD [OF wf this] show ?thesis by auto
qed

lemma finite_version [simp]:
  "js_isFinite (m_version (withStatus m s)) = js_isFinite (m_version m)"
  "js_isFinite (m_version (withRemoved m now)) = js_isFinite (m_version m)"
  "js_isFinite (m_version (withStorageIdentities m si)) = js_isFinite (m_version m)"
  "js_isFinite (m_version (withConfigurationFacts m f)) = js_isFinite (m_version m)"
  "js_isFinite (m_version (withAppVersion m v)) = js_isFinite (m_version m)"
  by (auto simp: withStatus_def withRemoved_def withStorageIdentities_def withConfigurationFacts_def withAppVersion_def
      js_plus_def js_isFinite_def split: js_number.splits)

lemma member_key_with [simp]:
  "member_key (withStatus m s) = member_key m" "member_key (withRemoved m now) = member_key m"
  "member_key (withStorageIdentities m si) = member_key m" "member_key (withConfigurationFacts m f) = member_key m"
  "member_key (withAppVersion m v) = member_key m"
  by (simp_all add: member_key_def withStatus_def withRemoved_def withStorageIdentities_def withConfigurationFacts_def withAppVersion_def)

lemma table_wf_update: "table_wf n \<Longrightarrow> js_isFinite (m_version m) \<Longrightarrow> table_wf (updateMember m n)"
  using table_wf_same [OF same_table_update] table_wf_set by blast

lemma table_wf_first: "table_wf n \<Longrightarrow> js_isFinite (m_version m) \<Longrightarrow> table_wf (admitFirstSighting now m n)"
  using table_wf_same [OF same_table_first] table_wf_set by blast

lemma table_wf_noise:
  "table_wf (emit e n) = table_wf n" "table_wf (cluster_send w n) = table_wf n" "table_wf (refuse r k n) = table_wf n"
  "table_wf (n\<lparr>failureDetector := fd\<rparr>) = table_wf n" "table_wf (maybeEmitLeaderChange n) = table_wf n"
  "table_wf (emitStatusTransition p m n) = table_wf n" "table_wf (checkStorageIdentityAgreement m n) = table_wf n"
  "table_wf (checkConfigurationAgreement m n) = table_wf n" "table_wf (snd (maySpeakFor from st a s n)) = table_wf n"
  "table_wf (snd (admitsVersion now m n)) = table_wf n" "table_wf (snd (admitsMember m ex n)) = table_wf n"
  "table_wf (snd (admitsTombstoneDate now m n)) = table_wf n"
  by (auto intro!: table_wf_same same_table_rules same_table_guards)

lemma current_or_finite:
  "table_wf n \<Longrightarrow> js_isFinite (m_version ex) \<Longrightarrow> js_isFinite (m_version (current_or n m ex))"
  using table_wfD [of n "member_key m"] by (auto simp: current_or_def split: option.splits)

lemma table_wf_adopt:
  assumes "table_wf n" "js_isFinite (m_version ex)"
  shows "table_wf (adoptStorageIdentities ex m n)" "table_wf (adoptConfigurationFacts from ex m n)" "table_wf (adoptAppVersion from ex m n)"
  using assms current_or_finite [OF assms, of m]
  by (auto simp: adoptStorageIdentities_def adoptConfigurationFacts_def adoptAppVersion_def Let_def table_wf_noise table_wf_set
      split: option.splits)

lemma table_wf_replace:
  "table_wf n \<Longrightarrow> js_isFinite (m_version ex) \<Longrightarrow> js_isFinite (m_version m) \<Longrightarrow> table_wf (replaceIncarnation now ex m n)"
  by (simp add: replaceIncarnation_def Let_def table_wf_first table_wf_noise table_wf_delete table_wf_update)

lemma table_wf_merge_known:
  assumes "table_wf n" "js_isFinite (m_version ex)" "js_isFinite (m_version m)"
  shows "table_wf (merge_known now from ex m n)"
proof -
  obtain b n1 where a: "admitsMember m (Some ex) n = (b, n1)" by (metis surj_pair)
  have n1: "table_wf n1" using table_wf_noise(11) [of m "Some ex" n] a assms(1) by simp
  show ?thesis
    unfolding merge_known_def a
    using assms n1 by (auto simp: table_wf_first table_wf_adopt table_wf_replace table_wf_noise table_wf_set split: bool.splits)
qed

lemma version_local [simp]: "m_version (withLocalSelfIdentity n m) = m_version m"
  by (simp add: withLocalSelfIdentity_def)

lemma table_wf_merge:
  assumes "table_wf n"
  shows "table_wf (mergeMember now from st d n)"
proof -
  let ?m = "withLocalSelfIdentity n d"
  obtain b1 n1 where s: "maySpeakFor from st (m_address ?m) (m_status ?m) n = (b1, n1)" by (metis surj_pair)
  obtain b2 n2 where v: "admitsVersion now ?m n1 = (b2, n2)" by (metis surj_pair)
  obtain b3 n3 where t: "admitsTombstoneDate now ?m n2 = (b3, n3)" by (metis surj_pair)
  obtain b4 n4 where a: "admitsMember ?m None n3 = (b4, n4)" by (metis surj_pair)
  have wf: "table_wf n1" "table_wf n2" "table_wf n3" "table_wf n4"
    using assms table_wf_noise(9-12) s v t a by (metis snd_conv)+
  have fin: "js_isFinite (m_version ?m)" if b2 using v that by (auto simp: admitsVersion_def split: if_splits)
  show ?thesis
    unfolding mergeMember_def Let_def s v t a
    using wf fin table_wfD [OF wf(3)]
    by (auto simp: s v t a table_wf_first table_wf_merge_known split: bool.splits option.splits)
qed

lemma table_wf_merge_all: "table_wf n \<Longrightarrow> table_wf (snd (merge_all now from st ds n))"
  by (induction now "from" st ds n rule: merge_all.induct) (auto simp: table_wf_merge split: sum.splits)

lemma table_wf_sender: "table_wf n \<Longrightarrow> table_wf (admit_sender a n)"
proof -
  assume wf: "table_wf n"
  let ?m = "\<lparr>m_address = a, m_status = Joining, m_version = Fin 1, m_roles = [], m_removedAt = None,
    m_storageIdentities = None, m_configurationFacts = None, m_appVersion = None\<rparr>"
  obtain b n1 where g: "admitsMember ?m None n = (b, n1)" by (metis surj_pair)
  have "table_wf n1" using table_wf_noise(11) [of ?m None n] g wf by simp
  with wf show ?thesis
    by (auto simp: admit_sender_def Let_def g table_wf_noise js_isFinite_def intro!: table_wf_set split: bool.splits)
qed

lemma table_wf_remember: "table_wf n \<Longrightarrow> table_wf (rememberGossipSequence from sq n)"
  by (auto simp: rememberGossipSequence_def table_wf_def jhas_iff)

lemma table_wf_fields [simp]:
  "table_wf (n\<lparr>heldSelfElection := b\<rparr>) = table_wf n" "table_wf (n\<lparr>selfElected := b\<rparr>) = table_wf n"
  "table_wf (n\<lparr>started := b\<rparr>) = table_wf n" "table_wf (n\<lparr>gossipSequence := r\<rparr>) = table_wf n"
  "table_wf (n\<lparr>heartbeatSeq := h\<rparr>) = table_wf n" "table_wf (n\<lparr>seedAddrs := sa\<rparr>) = table_wf n"
  "table_wf (n\<lparr>lastDownedView := l\<rparr>) = table_wf n" "table_wf (n\<lparr>stabilityWindow := w\<rparr>) = table_wf n"
  by (simp_all add: table_wf_def)

lemma table_wf_elect: "table_wf n \<Longrightarrow> table_wf (selfElect n)"
  using table_wfD [of n "self_key n"]
  by (auto simp: selfElect_def holdSelfElection_def table_wf_update split: option.splits)

lemma table_wf_foldl:
  assumes "table_wf n" "\<And>n x. x \<in> set xs \<Longrightarrow> table_wf n \<Longrightarrow> table_wf (f n x)"
  shows "table_wf (foldl f n xs)"
  using assms by (induction xs arbitrary: n) auto

lemma table_wf_held: "table_wf n \<Longrightarrow> table_wf (runHeldSelfElection n)"
  by (simp add: runHeldSelfElection_def table_wf_elect)

lemma table_wf_promote: "table_wf n \<Longrightarrow> table_wf (promoteJoiningMembers n)"
proof -
  assume wf: "table_wf n"
  have "table_wf (foldl promote_one n (jvalues (members n)))"
    by (rule table_wf_foldl [OF wf]) (auto simp: promote_one_def table_wf_update dest: table_wf_values [OF wf])
  then show ?thesis using wf by (simp add: promoteJoiningMembers_def)
qed

lemma table_wf_leaderActions: "table_wf n \<Longrightarrow> table_wf (leaderActionsTick n)"
  by (simp add: leaderActionsTick_def table_wf_promote table_wf_held)

lemma table_wf_weaklyUp: "table_wf n \<Longrightarrow> table_wf (weaklyUpTimer n)"
  using table_wfD [of n "self_key n"] by (auto simp: weaklyUpTimer_def table_wf_update split: option.splits)

section \<open>Messages\<close>

lemma table_wf_gossip: "table_wf n \<Longrightarrow> table_wf (onGossip now from g n)"
  using table_wf_merge_all [of n now "from" "map_option m_status (jget (members n) (addr_toString from))" "g_members g"]
  by (auto simp: onGossip_def Let_def table_wf_noise intro!: table_wf_leaderActions table_wf_remember table_wf_sender
      split: sum.splits prod.splits bool.splits)

lemma table_wf_heartbeat: "table_wf n \<Longrightarrow> table_wf (onHeartbeat now from sq ts n)"
proof -
  assume wf: "table_wf n"
  let ?n = "cluster_send (Send_Heartbeat_Ack from sq) (n\<lparr>failureDetector := fd_heartbeat (failureDetector n) (addr_toString from) now\<rparr>)"
  have wf': "table_wf ?n" using wf by (simp add: table_wf_noise)
  show ?thesis
    unfolding onHeartbeat_def Let_def
    using wf wf' table_wfD [OF wf', of "addr_toString from"] by (auto simp: table_wf_noise table_wf_update split: option.splits)
qed

lemma table_wf_leave: "table_wf n \<Longrightarrow> table_wf (onLeave now from peer n)"
  using table_wfD [of n "addr_toString peer"]
  by (auto simp: onLeave_def Let_def table_wf_noise intro!: table_wf_set split: option.splits)

lemma table_wf_wire: "table_wf n \<Longrightarrow> table_wf (handleWire now from msg n)"
  by (auto simp: handleWire_def Let_def table_wf_noise table_wf_heartbeat table_wf_gossip table_wf_leave
      split: wire_message.splits sum.splits)

section \<open>Timers\<close>

lemma table_wf_gossipTick: "table_wf n \<Longrightarrow> table_wf (gossipTick choice n)"
  by (simp add: gossipTick_def Let_def table_wf_noise table_wf_leaderActions)

lemma table_wf_heartbeatTick: "table_wf n \<Longrightarrow> table_wf (heartbeatTick now n)"
  unfolding heartbeatTick_def Let_def by (rule table_wf_foldl) (simp_all add: table_wf_noise)

lemma table_wf_contactSeeds: "table_wf n \<Longrightarrow> table_wf (contactSeeds now n)"
  unfolding contactSeeds_def Let_def
  by (auto simp: table_wf_noise intro!: table_wf_foldl split: option.splits)

lemma table_wf_prune: "table_wf n \<Longrightarrow> table_wf (tombstonePruneTick now n)"
  unfolding tombstonePruneTick_def Let_def
  by (rule table_wf_foldl) (auto simp: table_wf_delete split: option.splits js_number.splits)

section \<open>Failure detection, downing, leaving\<close>

lemma table_wf_track:
  "table_wf n \<Longrightarrow> member_key m \<in> dom (jget (members n)) \<Longrightarrow> table_wf (trackReachability m d n)"
  unfolding trackReachability_def Let_def by (auto simp: table_wf_noise) (auto simp: table_wf_def)

lemma table_wf_unpark: "table_wf n \<Longrightarrow> table_wf (n\<lparr>parkedWithoutResolver := sdel (parkedWithoutResolver n) k\<rparr>)"
  by (auto simp: table_wf_def)

lemma table_wf_park:
  "table_wf n \<Longrightarrow> k \<in> dom (jget (members n)) \<Longrightarrow> table_wf (n\<lparr>parkedWithoutResolver := sadd (parkedWithoutResolver n) k\<rparr>)"
  by (auto simp: table_wf_def)

lemma table_wf_hold:
  "table_wf n \<Longrightarrow> member_key m \<in> dom (jget (members n)) \<Longrightarrow> js_isFinite (m_version m) \<Longrightarrow> table_wf (holdForResolver m n)"
  unfolding holdForResolver_def Let_def by (auto intro!: table_wf_update table_wf_park)

lemma members_track [simp]: "members (trackReachability m d n) = members n"
  by (simp add: trackReachability_def Let_def emit_def)

lemma table_wf_detect:
  assumes "table_wf n" "member_key m \<in> dom (jget (members n))" "js_isFinite (m_version m)"
  shows "table_wf (detect_one now n m)"
proof -
  let ?d = "fd_decide (failureDetector n) (member_key m) now"
  let ?n1 = "trackReachability m ?d n"
  define N where "N = (if ?d \<noteq> Dead then ?n1\<lparr>parkedWithoutResolver := sdel (parkedWithoutResolver ?n1) (member_key m)\<rparr> else ?n1)"
  have "table_wf N" using assms table_wf_track table_wf_unpark by (simp add: N_def)
  moreover have "member_key m \<in> dom (jget (members N))" using assms(2) by (simp add: N_def)
  ultimately show ?thesis
    unfolding detect_one_def Let_def N_def [symmetric]
    using assms(1,3) by (simp add: table_wf_update table_wf_hold table_wf_delete table_wf_noise)
qed

text \<open>One member's verdict only touches that member's entry, so the others of the pass are still in the table.\<close>

lemma members_update [simp]: "members (updateMember m n) = jset (members n) (member_key m) m"
  using same_table_update [of m n] by (simp add: same_table_def)

lemma members_fields [simp]:
  "members (emit e n) = members n" "members (cluster_send w n) = members n" "members (maybeEmitLeaderChange n) = members n"
  "members (refuse r k n) = members n"
  using same_table_emit [OF same_table_refl] same_table_send [OF same_table_refl] same_table_leader [OF same_table_refl]
    same_table_refuse [OF same_table_refl]
  by (simp_all add: same_table_def)

lemma jget_delete [simp]: "jget (members (deleteMember k n)) = (jget (members n))(k := None)"
  by (auto simp: deleteMember_def split: option.splits)

lemma detect_one_others: "k \<noteq> member_key m \<Longrightarrow> jget (members (detect_one now n m)) k = jget (members n) k"
  by (simp add: detect_one_def holdForResolver_def Let_def)

lemma table_wf_detect_all:
  assumes "table_wf n" "distinct (map member_key ms)" "\<And>m. m \<in> set ms \<Longrightarrow> member_key m \<in> dom (jget (members n)) \<and> js_isFinite (m_version m)"
  shows "table_wf (foldl (detect_one now) n ms)"
  using assms
proof (induction ms arbitrary: n)
  case (Cons m ms)
  have "member_key x \<in> dom (jget (members (detect_one now n m))) \<and> js_isFinite (m_version x)" if "x \<in> set ms" for x
  proof -
    have "member_key x \<noteq> member_key m" using Cons.prems(2) imageI [OF that, of member_key] by auto
    then show ?thesis using Cons.prems(3) [of x] detect_one_others [of "member_key x" m now n] that by (simp add: dom_def)
  qed
  with Cons show ?case by (simp add: table_wf_detect)
qed simp

lemma distinct_keys: "table_wf n \<Longrightarrow> distinct (map member_key (jvalues (members n)))"
proof -
  assume wf: "table_wf n"
  have "map member_key (jvalues (members n)) = jkeys (members n)"
    using wf by (auto simp: jvalues_def jkeys_def table_wf_def jget_in_eq)
  then show ?thesis using wf by (simp add: table_wf_def jwf_def jkeys_def)
qed

lemma table_wf_leaving: "table_wf n \<Longrightarrow> table_wf (leaveAtOnce n)"
proof -
  have depart: "table_wf (depart n)" if "table_wf n" for n
    unfolding depart_def Let_def using that table_wfD [OF that, of "self_key n"]
    by (auto simp: table_wf_noise intro!: table_wf_foldl table_wf_update split: option.splits)
  show "table_wf n \<Longrightarrow> ?thesis" by (simp add: leaveAtOnce_def beginLeaving_def depart)
qed

lemma table_wf_down_member: "table_wf n \<Longrightarrow> js_isFinite (m_version m) \<Longrightarrow> table_wf (down_member now m n)"
  by (simp add: down_member_def Let_def table_wf_noise table_wf_set table_wf_update)

lemma table_wf_down_one: "table_wf n \<Longrightarrow> table_wf (down_one now n k)"
  using table_wfD [of n k] by (auto simp: down_one_def table_wf_down_member split: option.splits)

lemma table_wf_apply: "table_wf n \<Longrightarrow> table_wf (applyDowningDecision now toDown fp n)"
proof -
  assume wf: "table_wf n"
  have "table_wf (foldl (down_one now) (n\<lparr>lastDownedView := Some fp\<rparr>) toDown)"
    by (rule table_wf_foldl) (simp_all add: wf table_wf_down_one)
  then show ?thesis
    by (simp add: applyDowningDecision_def leaveAfterDowningSelf_def Let_def table_wf_leaving table_wf_noise)
qed

lemma table_wf_evaluate: "table_wf n \<Longrightarrow> table_wf (evaluateDowning now n)"
  unfolding evaluateDowning_def by (auto simp: Let_def table_wf_apply split: option.splits prod.splits)

lemma table_wf_detection: "table_wf n \<Longrightarrow> table_wf (failureDetectionTick now n)"
proof -
  assume wf: "table_wf n"
  have "table_wf (foldl (detect_one now) n (jvalues (members n)))"
    by (rule table_wf_detect_all [OF wf distinct_keys [OF wf]]) (use table_wf_values [OF wf] in blast)
  then show ?thesis by (simp add: failureDetectionTick_def Let_def table_wf_evaluate)
qed

lemma table_wf_down: "table_wf n \<Longrightarrow> table_wf (snd (cluster_down now k n))"
  using table_wfD [of n k] by (auto simp: cluster_down_def table_wf_down_member split: option.splits)

lemma table_wf_start: "table_wf n \<Longrightarrow> table_wf (cluster_start now policy seeds n)"
  by (auto simp: cluster_start_def armSelfElection_def Let_def table_wf_noise js_isFinite_def
      intro!: table_wf_elect table_wf_contactSeeds table_wf_set split: self_election.splits)

section \<open>Reachable nodes\<close>

text \<open>A constructed node: the initial values of the table's fields. Configuration, detector and resolver are arbitrary.\<close>

definition fresh_node :: "cluster_node \<Rightarrow> bool" where
  "fresh_node n = (members n = [] \<and> tombstoneCount n = 0 \<and> reachability n = [] \<and> parkedWithoutResolver n = [] \<and>
     acceptedGossipSequences n = [] \<and> \<not> started n \<and> currentLeader n = None \<and> \<not> selfElected n \<and> \<not> heldSelfElection n \<and>
     seedAddrs n = [])"

text \<open>
  Everything that happens to a started node: frames, timers and calls. The transport and the timers exist from
  \<open>cluster_start\<close> on. The peer of a frame is another node: a node does not connect to itself.
\<close>

inductive cluster_step :: "cluster_node \<Rightarrow> cluster_node \<Rightarrow> bool" where
  wire: "\<not> addr_equals from (selfAddress n) \<Longrightarrow> cluster_step n (handleWire now from msg n)"
| gossip_timer: "cluster_step n (gossipTick choice n)"
| heartbeat_timer: "cluster_step n (heartbeatTick now n)"
| detection_timer: "cluster_step n (failureDetectionTick now n)"
| prune_timer: "cluster_step n (tombstonePruneTick now n)"
| seed_timer: "cluster_step n (contactSeeds now n)"
| weakly_up_timer: "cluster_step n (weaklyUpTimer n)"
| election_timer: "cluster_step n (selfElect n)"
| down: "cluster_step n (snd (cluster_down now key n))"
| leave: "cluster_step n (leaveAtOnce n)"
| storage: "cluster_step n (publishStorageIdentity kind identity n)"
| fact: "cluster_step n (publishConfigurationFact name val n)"

inductive cluster_reachable :: "cluster_node \<Rightarrow> bool" where
  start: "fresh_node n \<Longrightarrow> cluster_reachable (cluster_start now policy seeds n)"
| step: "cluster_reachable n \<Longrightarrow> cluster_step n n' \<Longrightarrow> cluster_reachable n'"

inductive_cases cluster_stepE [elim]: "cluster_step n n'"

lemma table_wf_publish [simp]:
  "table_wf (publishStorageIdentity kind identity n) = table_wf n" "table_wf (publishConfigurationFact name v n) = table_wf n"
  by (simp_all add: publishStorageIdentity_def publishConfigurationFact_def table_wf_def)

lemma table_wf_step: "cluster_step n n' \<Longrightarrow> table_wf n \<Longrightarrow> table_wf n'"
  by (induction rule: cluster_step.induct)
    (simp_all add: table_wf_wire table_wf_gossipTick table_wf_heartbeatTick table_wf_detection table_wf_prune
      table_wf_contactSeeds table_wf_weaklyUp table_wf_elect table_wf_down table_wf_leaving)

lemma table_wf_fresh: "fresh_node n \<Longrightarrow> table_wf n"
  by (auto simp: fresh_node_def table_wf_def tombstones_def)

lemma reachable_table_wf: "cluster_reachable n \<Longrightarrow> table_wf n"
  by (induction rule: cluster_reachable.induct) (blast intro: table_wf_fresh table_wf_start table_wf_step)+

end
