(* ===== verification/Cluster_Gossip.thy ===== *)
theory Cluster_Gossip
  imports Cluster_Invariant
begin

text \<open>
  What a gossip frame can do to a node, whoever sent it: one record of a frame leaves every entry but its own
  alone (\<open>merge_effect\<close>), and its own entry only moves forward. From that: an entry's version never goes back,
  a node's own entry answers to nobody, and the two caps on the table hold.
\<close>

section \<open>The effect of one record\<close>

definition touched :: "cmember \<Rightarrow> cmember \<Rightarrow> bool" where
  "touched p q \<longleftrightarrow> m_address q = m_address p \<and> m_status q = m_status p \<and> m_version q = m_version p"

lemma touched_refl [simp]: "touched p p"
  by (simp add: touched_def)

lemma touched_trans: "touched p q \<Longrightarrow> touched q r \<Longrightarrow> touched p r"
  by (simp add: touched_def)

lemma touched_with [simp]:
  "touched p (withStorageIdentities p si)" "touched p (withConfigurationFacts p f)" "touched p (withAppVersion p v)"
  by (simp_all add: touched_def withStorageIdentities_def withConfigurationFacts_def withAppVersion_def)

lemma touched_key: "touched p q \<Longrightarrow> member_key q = member_key p"
  by (simp add: touched_def member_key_def)

text \<open>The adoption of advisory facts writes the entry again with its address, status and version.\<close>

definition restates :: "string \<Rightarrow> cluster_node \<Rightarrow> cluster_node \<Rightarrow> bool" where
  "restates k n n' \<longleftrightarrow> (\<forall>j. j \<noteq> k \<longrightarrow> jget (members n') j = jget (members n) j) \<and>
     (\<exists>p q. jget (members n) k = Some p \<and> jget (members n') k = Some q \<and> touched p q)"

lemma restates_trans: "restates k n0 n1 \<Longrightarrow> restates k n1 n2 \<Longrightarrow> restates k n0 n2"
  unfolding restates_def by (metis option.inject touched_trans)

lemma restates_same: "members n' = members n \<Longrightarrow> jget (members n) k = Some p \<Longrightarrow> restates k n n'"
  by (simp add: restates_def)

lemma restates_set: "jget (members n) k = Some p \<Longrightarrow> touched p q \<Longrightarrow> member_key q = k \<Longrightarrow> restates k n (setMember q n)"
  by (simp add: restates_def)

lemma members_checks [simp]:
  "members (checkStorageIdentityAgreement m n) = members n" "members (checkConfigurationAgreement m n) = members n"
  "members (emitStatusTransition s m n) = members n"
  using same_table_storage [OF same_table_refl] same_table_config [OF same_table_refl] same_table_transition [OF same_table_refl]
  by (simp_all add: same_table_def)

lemma adoptions_rewrite:
  assumes "jget (members n) (member_key m) = Some p" "member_key p = member_key m"
  shows "restates (member_key m) n (adoptConfigurationFacts from ex m n)" "restates (member_key m) n (adoptAppVersion from ex m n)"
  using assms restates_same [OF refl assms(1)]
  by (auto simp: adoptConfigurationFacts_def adoptAppVersion_def current_or_def Let_def restates_def split: option.splits)

lemma adoptStorage_restates:
  assumes "jget (members n) (member_key m) = Some p" "member_key p = member_key m"
  shows "restates (member_key m) n (adoptStorageIdentities p m n)"
  using assms restates_same [OF refl assms(1)]
  by (auto simp: adoptStorageIdentities_def restates_def split: option.splits)

lemma restates_key:
  "restates k n n' \<Longrightarrow> jget (members n) k = Some p \<Longrightarrow> \<exists>q. jget (members n') k = Some q \<and> member_key q = member_key p"
  unfolding restates_def using touched_key by fastforce

lemma adoptions_all:
  assumes "jget (members n) (member_key m) = Some p" "member_key p = member_key m"
  shows "restates (member_key m) n
    (adoptAppVersion from p m (adoptConfigurationFacts from p m (adoptStorageIdentities p m n)))"
proof -
  have 1: "restates (member_key m) n (adoptStorageIdentities p m n)" by (rule adoptStorage_restates [OF assms])
  obtain q where q: "jget (members (adoptStorageIdentities p m n)) (member_key m) = Some q" "member_key q = member_key m"
    using restates_key [OF 1 assms(1)] assms(2) by auto
  note 2 = adoptions_rewrite(1) [OF q, of "from" p]
  obtain r where r: "jget (members (adoptConfigurationFacts from p m (adoptStorageIdentities p m n))) (member_key m) = Some r"
    "member_key r = member_key m"
    using restates_key [OF 2 q(1)] q(2) by auto
  show ?thesis using restates_trans [OF restates_trans [OF 1 2] adoptions_rewrite(2) [OF r]] .
qed

text \<open>The record replaces its own entry.\<close>

definition writes :: "cmember \<Rightarrow> cluster_node \<Rightarrow> cluster_node \<Rightarrow> bool" where
  "writes m n n' \<longleftrightarrow> jget (members n') = (jget (members n))(member_key m \<mapsto> m)"

lemma writes_first: "writes m n (admitFirstSighting now m n)"
  using same_table_first [of now m n] by (simp add: writes_def same_table_def)

lemma writes_replace: "member_key p = member_key m \<Longrightarrow> writes m n (replaceIncarnation now p m n)"
  using writes_first [of m _ now] by (simp add: replaceIncarnation_def Let_def writes_def)

lemma members_guards [simp]:
  "members (snd (maySpeakFor from st a s n)) = members n" "members (snd (admitsVersion now m n)) = members n"
  "members (snd (admitsMember m ex n)) = members n" "members (snd (admitsTombstoneDate now m n)) = members n"
  using same_table_guards by (simp_all add: same_table_def)

definition newer :: "cmember \<Rightarrow> cmember option \<Rightarrow> bool" where
  "newer m ex \<longleftrightarrow> (case ex of None \<Rightarrow> True | Some p \<Rightarrow> js_less (m_version p) (m_version m) \<or> promotedAtEqualVersion p m)"

lemma js_le_total: "js_isFinite a \<Longrightarrow> js_isFinite b \<Longrightarrow> \<not> js_le a b \<Longrightarrow> js_less b a"
  by (cases a; cases b) (auto simp: js_le_def js_isFinite_def)

lemma merge_known_effect:
  assumes "jget (members n) (member_key m) = Some p" "member_key p = member_key m"
    and fin: "js_isFinite (m_version p)" "js_isFinite (m_version m)"
    and n'_def: "n' = merge_known now from p m n"
  shows "members n' = members n \<or> restates (member_key m) n n' \<or>
    writes m n n' \<and> newer m (Some p) \<and> fst (admitsMember m (Some p) n)"
proof -
  obtain b n1 where a: "admitsMember m (Some p) n = (b, n1)" by (metis surj_pair)
  have n1: "members n1 = members n" using members_guards(3) [of m "Some p" n] a by simp
  have w: "writes m n N" if "writes m n1 N" for N using that n1 by (simp add: writes_def)
  show ?thesis
  proof (cases "m_status p = Removed \<and> js_less (m_version p) (m_version m)")
    case True
    then show ?thesis using a n1 w [OF writes_first, of now]
      by (auto simp: n'_def merge_known_def newer_def split: bool.splits)
  next
    case live: False
    show ?thesis
    proof (cases "js_le (m_version m) (m_version p) \<and> \<not> promotedAtEqualVersion p m")
      case True
      then show ?thesis using live adoptions_all [OF assms(1,2)] by (auto simp: n'_def merge_known_def)
    next
      case False
      then have "newer m (Some p)" using js_le_total [OF fin(2,1)] by (auto simp: newer_def)
      moreover have "members n' = members n \<or> writes m n n' \<and> b"
        unfolding n'_def merge_known_def
        using live False a n1 w [OF writes_replace [OF assms(2)], of now]
        by (auto simp: writes_def split: bool.splits)
      ultimately show ?thesis using a by auto
    qed
  qed
qed

lemma merge_effect:
  fixes d n now "from" st
  assumes wf: "table_wf n" and n'_def: "n' = mergeMember now from st d n" and m_def: "m = withLocalSelfIdentity n d"
  shows "members n' = members n \<or> restates (member_key m) n n' \<or>
    writes m n n' \<and> newer m (jget (members n) (member_key m)) \<and> js_isFinite (m_version m) \<and>
    fst (maySpeakFor from st (m_address m) (m_status m) n) \<and>
    (\<exists>N. same_table N n \<and> fst (admitsMember m (jget (members n) (member_key m)) N))"
proof -
  obtain b1 n1 where s: "maySpeakFor from st (m_address m) (m_status m) n = (b1, n1)" by (metis surj_pair)
  obtain b2 n2 where v: "admitsVersion now m n1 = (b2, n2)" by (metis surj_pair)
  obtain b3 n3 where t: "admitsTombstoneDate now m n2 = (b3, n3)" by (metis surj_pair)
  obtain b4 n4 where a: "admitsMember m None n3 = (b4, n4)" by (metis surj_pair)
  have st: "same_table n1 n" "same_table n2 n" "same_table n3 n" "same_table n4 n"
    using s v t a same_table_guards by (metis snd_conv same_table_trans)+
  then have mem: "members n1 = members n" "members n2 = members n" "members n3 = members n" "members n4 = members n"
    by (simp_all add: same_table_def)
  have fin: "b2 \<Longrightarrow> js_isFinite (m_version m)" using v by (auto simp: admitsVersion_def split: if_splits)
  show ?thesis
  proof (cases "b1 \<and> b2 \<and> b3")
    case False
    then show ?thesis using mem by (auto simp: n'_def mergeMember_def m_def [symmetric] s v t split: bool.splits)
  next
    case ok: True
    show ?thesis
    proof (cases "jget (members n) (member_key m)")
      case None
      have "writes m n (admitFirstSighting now m n4)" using writes_first [of m n4 now] mem by (simp add: writes_def)
      moreover have "\<exists>N. same_table N n \<and> fst (admitsMember m None N)" if b4 using that a st(3) by (metis fst_conv)
      ultimately show ?thesis using None ok s v t a mem fin
        by (auto simp: n'_def mergeMember_def m_def [symmetric] newer_def split: bool.splits)
    next
      case (Some p)
      note wfp = table_wfD [OF wf Some]
      have "n' = merge_known now from p m n3"
        using Some ok s v t mem by (simp add: n'_def mergeMember_def m_def [symmetric] Let_def)
      from merge_known_effect [OF _ _ _ _ this] wfp fin ok Some st(3) mem
      show ?thesis using s by (auto simp: restates_def writes_def)
    qed
  qed
qed

definition config_of :: "cluster_node \<Rightarrow> node_address \<times> nat \<times> nat" where
  "config_of n = (selfAddress n, maxMembers n, maxTombstones n)"

lemma config_same: "same_table n' n \<Longrightarrow> config_of n' = config_of n"
  by (simp add: config_of_def same_table_def)

lemma config_set [simp]: "config_of (setMember m n) = config_of n"
  by (simp add: config_of_def)

lemma config_fields [simp]:
  "config_of (n\<lparr>heldSelfElection := b\<rparr>) = config_of n" "config_of (n\<lparr>selfElected := b\<rparr>) = config_of n"
  "config_of (n\<lparr>started := b\<rparr>) = config_of n" "config_of (n\<lparr>gossipSequence := r\<rparr>) = config_of n"
  "config_of (n\<lparr>seedAddrs := sa\<rparr>) = config_of n"
  by (simp_all add: config_of_def)

lemma config_delete [simp]: "config_of (deleteMember k n) = config_of n"
  by (simp add: config_of_def deleteMember_def split: option.split)

lemma config_noise [simp]:
  "config_of (emit e n) = config_of n" "config_of (cluster_send w n) = config_of n"
  "config_of (n\<lparr>failureDetector := fd\<rparr>) = config_of n"
  "config_of (updateMember m n) = config_of n" "config_of (admitFirstSighting now m n) = config_of n"
  "config_of (checkStorageIdentityAgreement m n) = config_of n" "config_of (checkConfigurationAgreement m n) = config_of n"
  "config_of (emitStatusTransition p m n) = config_of n" "config_of (snd (maySpeakFor from st a s n)) = config_of n"
  "config_of (snd (admitsVersion now m n)) = config_of n" "config_of (snd (admitsMember m ex n)) = config_of n"
  "config_of (snd (admitsTombstoneDate now m n)) = config_of n" "config_of (maybeEmitLeaderChange n) = config_of n"
  using config_same [OF same_table_update [of m n]] config_same [OF same_table_first [of now m n]]
  by (auto intro!: config_same same_table_rules same_table_guards)

lemma config_adopt [simp]:
  "config_of (adoptStorageIdentities ex m n) = config_of n" "config_of (adoptConfigurationFacts from ex m n) = config_of n"
  "config_of (adoptAppVersion from ex m n) = config_of n" "config_of (replaceIncarnation now ex m n) = config_of n"
  by (auto simp: adoptStorageIdentities_def adoptConfigurationFacts_def adoptAppVersion_def replaceIncarnation_def Let_def
      split: option.splits)

lemma config_merge_known [simp]: "config_of (merge_known now from ex m n) = config_of n"
proof -
  obtain b n1 where a: "admitsMember m (Some ex) n = (b, n1)" by (metis surj_pair)
  have "config_of n1 = config_of n" using config_noise(11) [of m "Some ex" n] a by simp
  then show ?thesis by (simp add: merge_known_def a split: bool.split)
qed

lemma config_merge [simp]: "config_of (mergeMember now from st d n) = config_of n"
proof -
  let ?m = "withLocalSelfIdentity n d"
  obtain b1 n1 where s: "maySpeakFor from st (m_address ?m) (m_status ?m) n = (b1, n1)" by (metis surj_pair)
  obtain b2 n2 where v: "admitsVersion now ?m n1 = (b2, n2)" by (metis surj_pair)
  obtain b3 n3 where t: "admitsTombstoneDate now ?m n2 = (b3, n3)" by (metis surj_pair)
  obtain b4 n4 where a: "admitsMember ?m None n3 = (b4, n4)" by (metis surj_pair)
  have "config_of n1 = config_of n" "config_of n2 = config_of n" "config_of n3 = config_of n" "config_of n4 = config_of n"
    using s v t a config_noise(9-12) by (metis snd_conv)+
  then show ?thesis
    by (simp add: mergeMember_def Let_def s v t a split: bool.split option.split)
qed

text \<open>A promotion writes each entry of its snapshot once, so the rest of the snapshot stays current.\<close>

lemma table_wf_promote_one: "table_wf n \<Longrightarrow> js_isFinite (m_version m) \<Longrightarrow> table_wf (promote_one n m)"
  by (simp add: promote_one_def table_wf_update)

lemma promote_one_others: "k \<noteq> member_key m \<Longrightarrow> jget (members (promote_one n m)) k = jget (members n) k"
  by (simp add: promote_one_def)

section \<open>The effect of a frame\<close>

text \<open>
  A frame is merges, the admission of its sender and promotions. A relation that holds across each of these
  holds across the frame.
\<close>

locale frame_relation =
  fixes R :: "cluster_node \<Rightarrow> cluster_node \<Rightarrow> bool"
  assumes same: "members n' = members n \<Longrightarrow> config_of n' = config_of n \<Longrightarrow> R n n'"
    and trans: "R n0 n1 \<Longrightarrow> R n1 n2 \<Longrightarrow> R n0 n2"
    and merge: "table_wf n \<Longrightarrow> R n (mergeMember now from st d n)"
    and sender: "table_wf n \<Longrightarrow> R n (admit_sender a n)"
    and promotion: "table_wf n \<Longrightarrow> jget (members n) (member_key m) = Some m \<Longrightarrow> m_status m = Joining \<or> m_status m = Weakly_Up \<Longrightarrow>
      members n' = jset (members n) (member_key m) (withStatus m Up) \<Longrightarrow> config_of n' = config_of n \<Longrightarrow> R n n'"
begin

lemma merge_all_rel: "table_wf n \<Longrightarrow> R n (snd (merge_all now from st ds n))"
proof (induction now "from" st ds n rule: merge_all.induct)
  case (2 now "from" st d ds n)
  then show ?case
    by (auto simp: same table_wf_merge split: sum.splits intro: trans merge)
qed (simp add: same)

lemma elect_rel: "table_wf n \<Longrightarrow> R n (selfElect n)"
proof -
  assume wf: "table_wf n"
  have "R n (updateMember (withStatus me Up) (n\<lparr>heldSelfElection := False, selfElected := True\<rparr>))"
    if "jget (members n) (self_key n) = Some me" "m_status me = Joining \<or> m_status me = Weakly_Up" for me
    by (rule promotion [OF wf _ that(2)]) (use that(1) table_wfD [OF wf that(1)] in simp_all)
  moreover have "R n (n\<lparr>heldSelfElection := True\<rparr>)" "R n n" by (auto intro!: same simp: config_of_def)
  ultimately show ?thesis by (auto simp: selfElect_def holdSelfElection_def split: option.splits)
qed

lemma held_rel: "table_wf n \<Longrightarrow> R n (runHeldSelfElection n)"
  using trans [OF same elect_rel, of "n\<lparr>heldSelfElection := False\<rparr>" n] same [of n n]
  by (simp add: runHeldSelfElection_def config_of_def)

lemma promote_all_rel:
  assumes "table_wf n" "distinct (map member_key ms)" "\<And>m. m \<in> set ms \<Longrightarrow> jget (members n) (member_key m) = Some m"
  shows "R n (foldl promote_one n ms)"
  using assms
proof (induction ms arbitrary: n)
  case (Cons m ms)
  have m: "jget (members n) (member_key m) = Some m" using Cons.prems(3) by simp
  have wf: "table_wf (promote_one n m)" using Cons.prems(1) table_wfD [OF Cons.prems(1) m] by (simp add: table_wf_promote_one)
  have "jget (members (promote_one n m)) (member_key x) = Some x" if "x \<in> set ms" for x
  proof -
    have "member_key x \<noteq> member_key m" using Cons.prems(2) imageI [OF that, of member_key] by auto
    then show ?thesis using Cons.prems(3) [of x] that by (simp add: promote_one_others)
  qed
  with Cons.IH [OF wf] Cons.prems have "R (promote_one n m) (foldl promote_one (promote_one n m) ms)" by simp
  moreover have "R n (promote_one n m)"
    unfolding promote_one_def by (auto intro: same promotion [OF Cons.prems(1) m])
  ultimately show ?case by (auto intro: trans)
qed (simp add: same)

lemma leaderActions_rel: "table_wf n \<Longrightarrow> R n (leaderActionsTick n)"
proof -
  have promote: "R n (promoteJoiningMembers n)" if "table_wf n" for n
    using promote_all_rel [OF that distinct_keys [OF that]] table_wf_values [OF that]
    by (auto simp: promoteJoiningMembers_def same)
  assume "table_wf n"
  then show ?thesis
    using trans [OF held_rel promote [OF table_wf_held]] by (simp add: leaderActionsTick_def same)
qed

lemma remember_rel: "R n (rememberGossipSequence from sq n)"
  by (rule same) (simp_all add: rememberGossipSequence_def config_of_def)

lemma gossip_rel: "table_wf n \<Longrightarrow> R n (onGossip now from g n)"
proof -
  assume wf: "table_wf n"
  define st where "st = map_option m_status (jget (members n) (addr_toString from))"
  obtain b n1 where m: "merge_all now from st (g_members g) n = (b, n1)" by (metis surj_pair)
  have n1: "R n n1" "table_wf n1"
    using merge_all_rel [OF wf, of now "from" st "g_members g"] table_wf_merge_all [OF wf, of now "from" st "g_members g"] m by auto
  have "R n (leaderActionsTick (rememberGossipSequence from (g_sequence g) (admit_sender a n1)))" for a
    using trans [OF trans [OF trans [OF n1(1) sender] remember_rel] leaderActions_rel]
      n1(2) table_wf_remember [OF table_wf_sender [OF n1(2)]] by blast
  moreover have "R n (refuse r k n)" for r k by (rule same) (simp_all add: refuse_def config_of_def)
  ultimately show ?thesis
    using n1 m by (auto simp: onGossip_def st_def [symmetric] same Let_def split: sum.splits bool.splits)
qed

end

section \<open>Entries only move forward\<close>

definition entry_step :: "cmember option \<Rightarrow> cmember option \<Rightarrow> bool" where
  "entry_step a b = (case (a, b) of
      (None, _) \<Rightarrow> True
    | (Some p, None) \<Rightarrow> False
    | (Some p, Some q) \<Rightarrow> js_less (m_version p) (m_version q) \<or>
        m_version q = m_version p \<and> (m_status q = m_status p \<or> m_status p = Weakly_Up \<and> m_status q = Up))"

lemma entry_step_refl [simp]: "entry_step a a"
  by (simp add: entry_step_def split: option.splits)

lemma entry_step_None [simp]: "entry_step None b"
  by (simp add: entry_step_def)

lemma entry_step_trans: "entry_step a b \<Longrightarrow> entry_step b c \<Longrightarrow> entry_step a c"
  by (auto simp: entry_step_def js_less_trans split: option.splits)

definition forward :: "cluster_node \<Rightarrow> cluster_node \<Rightarrow> bool" where
  "forward n n' \<longleftrightarrow> (\<forall>k. entry_step (jget (members n) k) (jget (members n') k))"

lemma forward_trans: "forward n0 n1 \<Longrightarrow> forward n1 n2 \<Longrightarrow> forward n0 n2"
  unfolding forward_def by (blast intro: entry_step_trans)

lemma forward_same: "members n' = members n \<Longrightarrow> forward n n'"
  by (simp add: forward_def)

lemma entry_step_Some:
  "entry_step (Some p) (Some q) \<longleftrightarrow> js_less (m_version p) (m_version q) \<or>
     m_version q = m_version p \<and> (m_status q = m_status p \<or> m_status p = Weakly_Up \<and> m_status q = Up)"
  by (simp add: entry_step_def)

lemma forward_at:
  assumes "\<And>j. j \<noteq> k \<Longrightarrow> jget (members n') j = jget (members n) j" "entry_step (jget (members n) k) (jget (members n') k)"
  shows "forward n n'"
  unfolding forward_def using assms by (metis entry_step_refl)

lemma forward_restates: "restates k n n' \<Longrightarrow> forward n n'"
  by (rule forward_at [of k]) (auto simp: restates_def touched_def entry_step_Some)

lemma forward_writes: "writes m n n' \<Longrightarrow> entry_step (jget (members n) (member_key m)) (Some m) \<Longrightarrow> forward n n'"
  by (rule forward_at [of "member_key m"]) (auto simp: writes_def)

lemma newer_step: "js_isFinite (m_version m) \<Longrightarrow> newer m a \<Longrightarrow> entry_step a (Some m)"
  by (cases "m_version m")
    (auto simp: newer_def entry_step_def promotedAtEqualVersion_def js_isFinite_def js_eq_iff split: option.splits)

lemma forward_merge: "table_wf n \<Longrightarrow> forward n (mergeMember now from st d n)"
  by (drule merge_effect [OF _ refl refl, of n now "from" st d]) (blast intro: forward_same forward_restates forward_writes newer_step)

lemma forward_sender: "forward n (admit_sender a n)"
  unfolding forward_def admit_sender_def Let_def
  by (auto simp: jhas_iff member_key_def split: prod.splits bool.splits dest: arg_cong [of _ _ "\<lambda>p. members (snd p)"])

lemma version_withStatus: "js_isFinite (m_version m) \<Longrightarrow> js_less (m_version m) (m_version (withStatus m s))"
  by (cases "m_version m") (simp_all add: withStatus_def js_plus_def js_isFinite_def)

interpretation fwd: frame_relation forward
proof
  show "forward n n'" if "members n' = members n" for n n' using that by (rule forward_same)
  show "forward n0 n2" if "forward n0 n1" "forward n1 n2" for n0 n1 n2 using that by (rule forward_trans)
  show "forward n (mergeMember now from st d n)" if "table_wf n" for now "from" st d n using that by (rule forward_merge)
  show "forward n (admit_sender a n)" for a n by (rule forward_sender)
  show "forward n n'" if "table_wf n" "jget (members n) (member_key m) = Some m" "members n' = jset (members n) (member_key m) (withStatus m Up)"
    for n m n'
    using that table_wfD [OF that(1,2)] version_withStatus [of m Up] by (auto intro!: forward_at [of "member_key m"] simp: entry_step_Some)
qed

section \<open>A node's own entry\<close>

definition self_entry :: "cluster_node \<Rightarrow> cmember \<Rightarrow> bool" where
  "self_entry n me \<longleftrightarrow> jget (members n) (self_key n) = Some me \<and> m_address me = selfAddress n"

text \<open>The only change a node accepts about itself: its promotion to up.\<close>

definition own_change :: "member_status \<Rightarrow> member_status \<Rightarrow> bool" where
  "own_change s s' \<longleftrightarrow> s' = s \<or> (s = Joining \<or> s = Weakly_Up) \<and> s' = Up"

lemma own_change_refl [simp]: "own_change s s"
  by (simp add: own_change_def)

lemma own_change_trans: "own_change a b \<Longrightarrow> own_change b c \<Longrightarrow> own_change a c"
  by (auto simp: own_change_def)

definition plain_name :: "node_address \<Rightarrow> bool" where
  "plain_name a \<longleftrightarrow> CHR ''@'' \<notin> set (systemName a) \<and> CHR ''@'' \<notin> set (host a)"

definition self_kept :: "cluster_node \<Rightarrow> cluster_node \<Rightarrow> bool" where
  "self_kept n n' \<longleftrightarrow> selfAddress n' = selfAddress n \<and>
     (\<forall>me. plain_name (selfAddress n) \<and> self_entry n me \<longrightarrow> (\<exists>me'. self_entry n' me' \<and> own_change (m_status me) (m_status me')))"

lemma self_kept_trans: "self_kept n0 n1 \<Longrightarrow> self_kept n1 n2 \<Longrightarrow> self_kept n0 n2"
  unfolding self_kept_def by (metis own_change_trans)

lemma self_kept_same: "members n' = members n \<Longrightarrow> selfAddress n' = selfAddress n \<Longrightarrow> self_kept n n'"
  by (auto simp: self_kept_def self_entry_def self_key_def)

lemma self_kept_merge:
  assumes wf: "table_wf n"
  shows "self_kept n (mergeMember now from st d n)"
proof -
  let ?n' = "mergeMember now from st d n" and ?m = "withLocalSelfIdentity n d"
  have addr: "selfAddress ?n' = selfAddress n" using config_merge [of now "from" st d n] by (simp add: config_of_def)
  consider "members ?n' = members n" | "restates (member_key ?m) n ?n'"
    | "writes ?m n ?n'" "fst (maySpeakFor from st (m_address ?m) (m_status ?m) n)"
    using merge_effect [OF wf refl refl, of now "from" st d] by blast
  then show ?thesis
  proof cases
    case 1
    then show ?thesis using addr by (rule self_kept_same)
  next
    case 2
    then have "\<exists>me'. self_entry ?n' me' \<and> own_change (m_status me) (m_status me')" if "self_entry n me" for me
      using that addr by (cases "self_key n = member_key ?m") (auto simp: restates_def touched_def self_entry_def self_key_def)
    then show ?thesis using addr by (simp add: self_kept_def)
  next
    case 3
    have "\<exists>me'. self_entry ?n' me' \<and> own_change (m_status me) (m_status me')" if plain: "plain_name (selfAddress n)" and me: "self_entry n me" for me
    proof (cases "member_key ?m = self_key n")
      case False
      then show ?thesis using 3(1) me addr by (auto simp: writes_def self_entry_def self_key_def)
    next
      case True
      then have eq: "addr_equals (m_address ?m) (selfAddress n)"
        using addr_toString_equals [of "selfAddress n" "m_address ?m"] plain
        by (auto simp: plain_name_def member_key_def self_key_def addr_equals_def)
      then have "m_address ?m = selfAddress n" by (auto simp: withLocalSelfIdentity_def isSelf_def)
      moreover have "m_status ?m = Up" "m_status me = Joining \<or> m_status me = Weakly_Up"
        using 3(2) eq me by (auto simp: maySpeakFor_def isOwnPromotion_def self_entry_def split: if_splits)
      ultimately show ?thesis using 3(1) True addr by (auto simp: writes_def self_entry_def self_key_def own_change_def)
    qed
    then show ?thesis using addr by (simp add: self_kept_def)
  qed
qed

lemma self_kept_new:
  assumes "jget (members n) (member_key m) = None" "members n' = jset (members n) (member_key m) m" "selfAddress n' = selfAddress n"
  shows "self_kept n n'"
  using assms by (auto simp: self_kept_def self_entry_def self_key_def)

lemma self_kept_sender: "self_kept n (admit_sender a n)"
proof -
  let ?m = "\<lparr>m_address = a, m_status = Joining, m_version = Fin 1, m_roles = [], m_removedAt = None,
    m_storageIdentities = None, m_configurationFacts = None, m_appVersion = None\<rparr>"
  obtain b n1 where g: "admitsMember ?m None n = (b, n1)" by (metis surj_pair)
  have n1: "members n1 = members n" "selfAddress n1 = selfAddress n"
    using same_table_guards(3) [of ?m None n] g by (simp_all add: same_table_def)
  show ?thesis
  proof (cases "\<not> jhas (members n) (addr_toString a) \<and> b")
    case True
    then have "admit_sender a n = emit (MemberJoined ?m) (setMember ?m n1)" by (simp add: admit_sender_def Let_def g)
    moreover have "self_kept n (emit (MemberJoined ?m) (setMember ?m n1))"
      by (rule self_kept_new [of n ?m]) (use True n1 in \<open>auto simp: jhas_iff member_key_def emit_def\<close>)
    ultimately show ?thesis by simp
  next
    case False
    then show ?thesis using n1 by (auto simp: admit_sender_def Let_def g self_kept_same split: bool.splits)
  qed
qed

lemma self_kept_promotion:
  assumes "jget (members n) k = Some m" "member_key m = k" "m_status m = Joining \<or> m_status m = Weakly_Up"
    "members n' = jset (members n) k (withStatus m Up)" "config_of n' = config_of n"
  shows "self_kept n n'"
  using assms
  by (auto simp: self_kept_def self_entry_def self_key_def own_change_def withStatus_def config_of_def)

interpretation own: frame_relation self_kept
proof
  show "self_kept n n'" if "members n' = members n" "config_of n' = config_of n" for n n'
    using that by (auto intro: self_kept_same simp: config_of_def)
  show "self_kept n0 n2" if "self_kept n0 n1" "self_kept n1 n2" for n0 n1 n2 using that by (rule self_kept_trans)
  show "self_kept n (mergeMember now from st d n)" if "table_wf n" for now "from" st d n using that by (rule self_kept_merge)
  show "self_kept n (admit_sender a n)" for a n by (rule self_kept_sender)
  show "self_kept n n'" if "jget (members n) (member_key m) = Some m" "m_status m = Joining \<or> m_status m = Weakly_Up"
    "members n' = jset (members n) (member_key m) (withStatus m Up)" "config_of n' = config_of n" for n m n'
    using that by (auto intro: self_kept_promotion)
qed

section \<open>The caps\<close>

definition holding :: "(cmember \<Rightarrow> bool) \<Rightarrow> cluster_node \<Rightarrow> nat" where
  "holding P n = card {k. \<exists>m. jget (members n) k = Some m \<and> P m}"

abbreviation gone :: "cmember \<Rightarrow> bool" where
  "gone m \<equiv> m_status m = Removed"

abbreviation live :: "cmember \<Rightarrow> bool" where
  "live m \<equiv> m_status m \<noteq> Removed"

lemma holding_same: "members n' = members n \<Longrightarrow> holding P n' = holding P n"
  by (simp add: holding_def)

lemma holding_le:
  assumes "jget (members n') = (jget (members n))(k \<mapsto> m)" "P m \<Longrightarrow> case jget (members n) k of None \<Rightarrow> False | Some p \<Rightarrow> P p"
  shows "holding P n' \<le> holding P n"
  unfolding holding_def
  by (rule card_mono [OF finite_tombs]) (use assms in \<open>auto split: if_splits option.splits\<close>)

lemma holding_Suc:
  assumes "jget (members n') = (jget (members n))(k \<mapsto> m)"
  shows "holding P n' \<le> Suc (holding P n)"
proof -
  have "{k. \<exists>m. jget (members n') k = Some m \<and> P m} \<subseteq> insert k {k. \<exists>m. jget (members n) k = Some m \<and> P m}"
    using assms by (auto split: if_splits)
  then have "holding P n' \<le> card (insert k {k. \<exists>m. jget (members n) k = Some m \<and> P m})"
    unfolding holding_def by (rule card_mono [rotated]) (simp add: finite_tombs)
  also have "\<dots> \<le> Suc (holding P n)" unfolding holding_def by (rule card_insert_le_m1 [of "Suc _", simplified]) simp
  finally show ?thesis .
qed

lemma holding_values: "table_wf n \<Longrightarrow> holding P n = length (filter P (jvalues (members n)))"
proof -
  assume "table_wf n"
  then have "jwf (members n)" by (simp add: table_wf_def)
  from filter_length_card [OF this, of P] show ?thesis
    by (simp add: holding_def jvalues_def filter_map o_def case_prod_unfold)
qed

lemma tombstoneCount_gone: "table_wf n \<Longrightarrow> tombstoneCount n = int (holding gone n)"
  by (simp add: table_wf_def tombstones_card holding_def)

lemma live_count: "table_wf n \<Longrightarrow> int (length (members n)) - tombstoneCount n = int (holding live n)"
proof -
  assume wf: "table_wf n"
  have "length (filter gone (jvalues (members n))) + length (filter live (jvalues (members n))) = length (members n)"
    using sum_length_filter_compl [of gone "jvalues (members n)"] by (simp add: jvalues_def)
  then show ?thesis using holding_values [OF wf] tombstoneCount_gone [OF wf] by simp
qed

text \<open>A count that was under its cap stays there, one that was above does not grow.\<close>

definition capped :: "cluster_node \<Rightarrow> cluster_node \<Rightarrow> bool" where
  "capped n n' \<longleftrightarrow> config_of n' = config_of n \<and>
     (0 < maxMembers n \<longrightarrow> holding live n' \<le> max (maxMembers n) (holding live n)) \<and>
     (0 < maxTombstones n \<longrightarrow> holding gone n' \<le> max (maxTombstones n) (holding gone n))"

lemma max_chain: "(b :: nat) \<le> max c a \<Longrightarrow> d \<le> max c b \<Longrightarrow> d \<le> max c a"
  by (simp only: le_max_iff_disj) linarith

lemma capped_trans:
  assumes 1: "capped n0 n1" and 2: "capped n1 n2"
  shows "capped n0 n2"
proof -
  have c: "config_of n1 = config_of n0" "config_of n2 = config_of n0" using 1 2 by (simp_all add: capped_def)
  have caps: "maxMembers n1 = maxMembers n0" "maxTombstones n1 = maxTombstones n0" using c(1) by (simp_all add: config_of_def)
  have "holding live n2 \<le> max (maxMembers n0) (holding live n0)" if "0 < maxMembers n0"
    by (rule max_chain [of "holding live n1"]) (use 1 2 that caps in \<open>simp_all add: capped_def\<close>)
  moreover have "holding gone n2 \<le> max (maxTombstones n0) (holding gone n0)" if "0 < maxTombstones n0"
    by (rule max_chain [of "holding gone n1"]) (use 1 2 that caps in \<open>simp_all add: capped_def\<close>)
  ultimately show ?thesis using c(2) by (simp add: capped_def)
qed

lemma capped_same:
  assumes "members n' = members n" "config_of n' = config_of n"
  shows "capped n n'"
  using assms holding_same [OF assms(1)] by (simp add: capped_def)

lemma capped_kind:
  assumes "config_of n' = config_of n" "jget (members n') = (jget (members n))(k \<mapsto> m)" "jget (members n) k = Some p" "gone m = gone p"
  shows "capped n n'"
proof -
  have "holding live n' \<le> holding live n" by (rule holding_le [OF assms(2)]) (use assms(3,4) in simp)
  moreover have "holding gone n' \<le> holding gone n" by (rule holding_le [OF assms(2)]) (use assms(3,4) in simp)
  ultimately show ?thesis using assms(1) by (simp add: capped_def max.coboundedI2)
qed

lemma capped_admitted:
  assumes wf: "table_wf n" and N: "same_table N n" and ok: "fst (admitsMember m (jget (members n) k) N)"
    and n': "jget (members n') = (jget (members n))(k \<mapsto> m)" "config_of n' = config_of n"
  shows "capped n n'"
proof (cases "\<exists>p. jget (members n) k = Some p \<and> gone p = gone m")
  case True
  then show ?thesis using n' by (auto intro: capped_kind)
next
  case False
  have N': "members N = members n" "tombstoneCount N = tombstoneCount n" "maxMembers N = maxMembers n" "maxTombstones N = maxTombstones n"
    using N by (simp_all add: same_table_def)
  have "holding gone n < maxTombstones n \<or> maxTombstones n = 0" if "gone m"
    using ok False that tombstoneCount_gone [OF wf] by (auto simp: admitsMember_def N' Let_def split: if_splits option.splits)
  moreover have "holding live n < maxMembers n \<or> maxMembers n = 0" if "live m"
    using ok False that live_count [OF wf] by (auto simp: admitsMember_def N' Let_def split: if_splits option.splits)
  moreover have "holding gone n' \<le> holding gone n" if "live m" by (rule holding_le [OF n'(1)]) (use that in simp)
  moreover have "holding live n' \<le> holding live n" if "gone m" by (rule holding_le [OF n'(1)]) (use that in simp)
  moreover note holding_Suc [OF n'(1), of gone] holding_Suc [OF n'(1), of live]
  ultimately show ?thesis using n'(2) by (cases "gone m") (auto simp: capped_def)
qed

lemma capped_merge:
  assumes wf: "table_wf n"
  shows "capped n (mergeMember now from st d n)"
  using merge_effect [OF wf refl refl, of now "from" st d]
proof (elim disjE)
  assume "restates (member_key (withLocalSelfIdentity n d)) n (mergeMember now from st d n)"
  then obtain p q where pq: "jget (members n) (member_key (withLocalSelfIdentity n d)) = Some p" "touched p q"
    and n': "jget (members (mergeMember now from st d n)) = (jget (members n))(member_key (withLocalSelfIdentity n d) \<mapsto> q)"
    unfolding restates_def by (auto simp: fun_eq_iff)
  show ?thesis by (rule capped_kind [OF config_merge n' pq(1)]) (use pq(2) in \<open>simp add: touched_def\<close>)
qed (auto intro: capped_same capped_admitted [OF wf] simp: writes_def)

lemma capped_sender: "table_wf n \<Longrightarrow> capped n (admit_sender a n)"
proof -
  assume wf: "table_wf n"
  let ?m = "\<lparr>m_address = a, m_status = Joining, m_version = Fin 1, m_roles = [], m_removedAt = None,
    m_storageIdentities = None, m_configurationFacts = None, m_appVersion = None\<rparr>"
  obtain b n1 where g: "admitsMember ?m None n = (b, n1)" by (metis surj_pair)
  have n1: "members n1 = members n" "config_of n1 = config_of n"
    using members_guards(3) [of ?m None n] config_noise(11) [of ?m None n] g by simp_all
  show ?thesis
  proof (cases "\<not> jhas (members n) (addr_toString a) \<and> b")
    case True
    then have eq: "admit_sender a n = emit (MemberJoined ?m) (setMember ?m n1)" by (simp add: admit_sender_def Let_def g)
    show ?thesis unfolding eq
      by (rule capped_admitted [OF wf same_table_refl, of ?m "addr_toString a"])
        (use True n1 g in \<open>simp_all add: jhas_iff member_key_def\<close>)
  next
    case False
    then show ?thesis using n1 by (auto simp: admit_sender_def Let_def g capped_same split: bool.splits)
  qed
qed

interpretation caps: frame_relation capped
proof
  show "capped n n'" if "members n' = members n" "config_of n' = config_of n" for n n' using that by (rule capped_same)
  show "capped n0 n2" if "capped n0 n1" "capped n1 n2" for n0 n1 n2 using that by (rule capped_trans)
  show "capped n (mergeMember now from st d n)" if "table_wf n" for now "from" st d n using that by (rule capped_merge)
  show "capped n (admit_sender a n)" if "table_wf n" for a n using that by (rule capped_sender)
  show "capped n n'" if "jget (members n) (member_key m) = Some m" "m_status m = Joining \<or> m_status m = Weakly_Up"
    "members n' = jset (members n) (member_key m) (withStatus m Up)" "config_of n' = config_of n" for n m n'
    by (rule capped_kind [OF that(4) _ that(1), of "withStatus m Up"]) (use that(2,3) in \<open>auto simp: withStatus_def\<close>)
qed

end
