(* ===== verification/Cluster_Self.thy ===== *)
theory Cluster_Self
  imports Cluster_Gossip
begin

text \<open>
  A node and its own row: from its start on, a node is in its own table under its own address, and never as
  unreachable, down or removed, whatever its peers say and whatever its failure detector and its split-brain
  resolver decide. Most operations do not touch the row at all (\<open>away\<close>).
\<close>

section \<open>Operations away from the own row\<close>

definition away :: "cluster_node \<Rightarrow> cluster_node \<Rightarrow> bool" where
  "away n n' \<longleftrightarrow> selfAddress n' = selfAddress n \<and> jget (members n') (self_key n) = jget (members n) (self_key n)"

lemma away_self_key: "away n n' \<Longrightarrow> self_key n' = self_key n"
  by (simp add: away_def self_key_def)

lemma away_trans: "away n0 n1 \<Longrightarrow> away n1 n2 \<Longrightarrow> away n0 n2"
  by (simp add: away_def self_key_def)

lemma away_refl [simp]: "away n n"
  by (simp add: away_def)

lemma away_same: "same_table n' n \<Longrightarrow> away n n'"
  by (simp add: away_def same_table_def)

lemma away_foldl:
  assumes "\<And>n' x. x \<in> set xs \<Longrightarrow> away n n' \<Longrightarrow> away n' (f n' x)"
  shows "away n (foldl f n xs)"
proof -
  have "away n (foldl f m xs)" if "away n m" for m
    using that assms
  proof (induction xs arbitrary: m)
    case (Cons x xs)
    have "away n (f m x)" by (rule away_trans [OF Cons.prems(1) Cons.prems(2)]) (simp_all add: Cons.prems(1))
    then show ?case using Cons.IH Cons.prems(2) by simp
  qed simp
  then show ?thesis by simp
qed

lemma selfAddress_update [simp]: "selfAddress (updateMember m n) = selfAddress n"
  using same_table_update [of m n] by (simp add: same_table_def)

lemma away_set: "member_key m \<noteq> self_key n \<Longrightarrow> away n (setMember m n)"
  by (simp add: away_def)

lemma away_update: "member_key m \<noteq> self_key n \<Longrightarrow> away n (updateMember m n)"
  by (simp add: away_def)

lemma selfAddress_delete [simp]: "selfAddress (deleteMember k n) = selfAddress n"
  by (simp add: deleteMember_def split: option.split)

lemma away_delete: "k \<noteq> self_key n \<Longrightarrow> away n (deleteMember k n)"
  by (simp add: away_def)

lemma selfAddress_noise [simp]:
  "selfAddress (emit e n) = selfAddress n" "selfAddress (cluster_send w n) = selfAddress n"
  "selfAddress (maybeEmitLeaderChange n) = selfAddress n"
  using same_table_emit [OF same_table_refl] same_table_send [OF same_table_refl] same_table_leader [OF same_table_refl]
  by (simp_all add: same_table_def)

lemma away_noise:
  "away n (emit e n') = away n n'" "away n (cluster_send w n') = away n n'" "away n (maybeEmitLeaderChange n') = away n n'"
  "away n (n'\<lparr>failureDetector := fd\<rparr>) = away n n'"
  by (simp_all add: away_def)

definition own_row :: "cluster_node \<Rightarrow> bool" where
  "own_row n \<longleftrightarrow> plain_name (selfAddress n) \<and> (\<exists>me. self_entry n me \<and> m_status me \<in> {Joining, Weakly_Up, Up, Leaving})"

lemma own_row_away: "own_row n \<Longrightarrow> away n n' \<Longrightarrow> own_row n'"
  by (auto simp: own_row_def away_def self_entry_def self_key_def)

lemma own_row_kept: "own_row n \<Longrightarrow> self_kept n n' \<Longrightarrow> own_row n'"
  unfolding own_row_def self_kept_def own_change_def by fastforce

lemma own_row_status:
  assumes "own_row n" "jget (members n) (self_key n) = Some me" "s \<in> {Joining, Weakly_Up, Up, Leaving}"
  shows "own_row (updateMember (withStatus me s) n)"
proof -
  have me: "m_address me = selfAddress n" using assms(1,2) by (auto simp: own_row_def self_entry_def)
  then have "member_key (withStatus me s) = self_key n" by (simp add: member_key_def self_key_def withStatus_def)
  then have "self_entry (updateMember (withStatus me s) n) (withStatus me s)"
    using me by (simp add: self_entry_def self_key_def withStatus_def)
  moreover have "m_status (withStatus me s) = s" by (simp add: withStatus_def)
  ultimately show ?thesis using assms(1,3) unfolding own_row_def by auto
qed

lemma own_row_same: "same_table n' n \<Longrightarrow> own_row n' = own_row n"
  by (simp add: own_row_def self_entry_def self_key_def same_table_def)

text \<open>The row whose key is the node's own is the node's.\<close>

lemma own_row_isSelf:
  "own_row n \<Longrightarrow> table_wf n \<Longrightarrow> jget (members n) (member_key m) = Some m \<Longrightarrow> member_key m = self_key n \<Longrightarrow> isSelf n m"
  by (auto simp: own_row_def self_entry_def isSelf_def addr_equals_def)

lemma peer_key: "plain_name (selfAddress n) \<Longrightarrow> \<not> addr_equals a (selfAddress n) \<Longrightarrow> addr_toString a \<noteq> self_key n"
  using addr_toString_equals [of "selfAddress n" a] by (auto simp: plain_name_def self_key_def addr_equals_def)

section \<open>Messages\<close>

lemma own_row_gossip: "own_row n \<Longrightarrow> table_wf n \<Longrightarrow> own_row (onGossip now from g n)"
  by (rule own_row_kept [OF _ own.gossip_rel])

lemma own_row_heartbeat:
  assumes "own_row n" "table_wf n" "addr_toString from \<noteq> self_key n"
  shows "own_row (onHeartbeat now from sq ts n)"
proof -
  have "away n (onHeartbeat now from sq ts n)"
    using assms(3) table_wfD [OF assms(2), of "addr_toString from"]
    by (auto simp: onHeartbeat_def Let_def away_noise away_def split: option.splits)
  then show ?thesis using assms(1) by (rule own_row_away [rotated])
qed

lemma own_row_leave:
  assumes "own_row n" "table_wf n" "addr_toString from \<noteq> self_key n"
  shows "own_row (onLeave now from peer n)"
proof -
  have "away n (onLeave now from peer n)"
    using assms(3) table_wfD [OF assms(2), of "addr_toString peer"]
    by (auto simp: onLeave_def Let_def away_def addr_equals_def addr_toString_def split: option.splits)
  then show ?thesis using assms(1) by (rule own_row_away [rotated])
qed

lemma own_row_wire:
  assumes "own_row n" "table_wf n" "\<not> addr_equals from (selfAddress n)"
  shows "own_row (handleWire now from msg n)"
proof -
  let ?n = "n\<lparr>failureDetector := fd_heardFrom (failureDetector n) (addr_toString from) now\<rparr>"
  have "own_row ?n" "table_wf ?n" using assms(1,2) own_row_same [OF same_table_fd [OF same_table_refl]] by (simp_all add: table_wf_noise)
  moreover have "addr_toString from \<noteq> self_key ?n" using peer_key [OF _ assms(3)] assms(1) by (simp add: own_row_def self_key_def)
  ultimately show ?thesis
    by (auto simp: handleWire_def Let_def own_row_gossip own_row_heartbeat own_row_leave split: wire_message.splits sum.splits)
qed

section \<open>Timers\<close>

lemma own_row_gossipTick: "own_row n \<Longrightarrow> table_wf n \<Longrightarrow> own_row (gossipTick choice n)"
proof -
  assume n: "own_row n" "table_wf n"
  have "own_row (leaderActionsTick n)" by (rule own_row_kept [OF n(1) own.leaderActions_rel [OF n(2)]])
  then show ?thesis by (rule own_row_away) (simp add: gossipTick_def Let_def away_def)
qed

lemma own_row_heartbeatTick: "own_row n \<Longrightarrow> own_row (heartbeatTick now n)"
proof -
  assume n: "own_row n"
  have 1: "same_table (n\<lparr>heartbeatSeq := h\<rparr>) n" for h by (simp add: same_table_def)
  have "same_table (heartbeatTick now n) n"
    unfolding heartbeatTick_def Let_def
    by (rule same_table_trans [OF same_table_foldl 1]) (auto intro: same_table_rules)
  then show ?thesis using n own_row_same by blast
qed

lemma own_row_contactSeeds: "own_row n \<Longrightarrow> own_row (contactSeeds now n)"
proof -
  assume n: "own_row n"
  have 1: "same_table (n\<lparr>gossipSequence := h\<rparr>) n" for h by (simp add: same_table_def)
  have "same_table (contactSeeds now n) n"
    unfolding contactSeeds_def Let_def
    by (auto split: option.split intro!: same_table_refl same_table_trans [OF same_table_foldl 1] same_table_send same_table_fd)
  then show ?thesis using n own_row_same by blast
qed

lemma own_row_prune:
  assumes "own_row n" "table_wf n"
  shows "own_row (tombstonePruneTick now n)"
proof -
  have "jwf (members n)" using assms(2) by (simp add: table_wf_def)
  then have live: "m_status m \<noteq> Removed" if "(self_key n, m) \<in> set (members n)" for m
    using assms(1) that by (auto simp: jget_in_eq own_row_def self_entry_def)
  have "away n (tombstonePruneTick now n)"
    unfolding tombstonePruneTick_def Let_def
    by (rule away_foldl)
      (auto simp: away_self_key live intro!: away_delete split: option.splits js_number.splits)
  then show ?thesis using assms(1) by (rule own_row_away [rotated])
qed

lemma own_row_weaklyUp: "own_row n \<Longrightarrow> own_row (weaklyUpTimer n)"
  by (auto simp: weaklyUpTimer_def own_row_status split: option.splits)

lemma own_row_elect: "own_row n \<Longrightarrow> table_wf n \<Longrightarrow> own_row (selfElect n)"
  by (rule own_row_kept [OF _ own.elect_rel])

section \<open>Failure detection, downing, leaving\<close>

lemma selfAddress_track [simp]: "selfAddress (trackReachability m d n) = selfAddress n"
  by (simp add: trackReachability_def Let_def)

lemma selfAddress_detect [simp]: "selfAddress (detect_one now n m) = selfAddress n"
  by (simp add: detect_one_def holdForResolver_def Let_def)

lemma away_detect: "member_key m = self_key n \<longrightarrow> isSelf n m \<Longrightarrow> away n (detect_one now n m)"
proof (cases "isSelf n m")
  case False
  assume "member_key m = self_key n \<longrightarrow> isSelf n m"
  with False have "self_key n \<noteq> member_key m" by auto
  from detect_one_others [OF this, of now n] show ?thesis by (simp add: away_def)
qed (simp add: detect_one_def)

lemma isSelf_away: "away n n' \<Longrightarrow> isSelf n' m = isSelf n m"
  by (simp add: away_def isSelf_def)

lemma away_detect_all:
  assumes "own_row n" "table_wf n"
  shows "away n (foldl (detect_one now) n (jvalues (members n)))"
proof (rule away_foldl)
  fix n' m assume m: "m \<in> set (jvalues (members n))" and n': "away n n'"
  have "member_key m = self_key n \<longrightarrow> isSelf n m" using table_wf_values [OF assms(2) m] own_row_isSelf [OF assms] by blast
  then show "away n' (detect_one now n' m)" using n' by (intro away_detect) (simp add: isSelf_away away_self_key)
qed

lemma away_down_member: "member_key m \<noteq> self_key n \<Longrightarrow> away n (down_member now m n)"
  by (simp add: down_member_def Let_def away_def)

lemma away_down_one: "table_wf n \<Longrightarrow> away n (down_one now n k)"
  using table_wfD [of n k] by (auto simp: down_one_def away_down_member split: option.splits)

lemma away_down_all: "table_wf n \<Longrightarrow> away n (foldl (down_one now) n ks) \<and> table_wf (foldl (down_one now) n ks)"
proof (induction ks arbitrary: n)
  case (Cons k ks)
  from Cons.IH [OF table_wf_down_one [OF Cons.prems, of now k]] away_trans [OF away_down_one [OF Cons.prems, of now k]]
  show ?case by simp
qed simp

lemma own_row_leaving: "own_row n \<Longrightarrow> own_row (leaveAtOnce n)"
proof -
  have depart: "own_row (depart n)" if "own_row n" for n
  proof -
    let ?n = "case jget (members n) (self_key n) of Some me \<Rightarrow> updateMember (withStatus me Leaving) n | None \<Rightarrow> n"
    have "own_row ?n" using that by (simp add: own_row_status split: option.split)
    moreover have "same_table (depart n) ?n"
      unfolding depart_def Let_def by (rule same_table_foldl) (intro same_table_rules)
    ultimately show ?thesis using own_row_same by blast
  qed
  have stop: "own_row (n\<lparr>started := b\<rparr>) = own_row n" for b by (rule own_row_same) (simp add: same_table_def)
  show "own_row n \<Longrightarrow> ?thesis" by (simp add: leaveAtOnce_def beginLeaving_def depart stop)
qed

lemma own_row_apply:
  assumes "own_row n" "table_wf n"
  shows "own_row (applyDowningDecision now toDown fp n)"
proof -
  let ?n = "n\<lparr>lastDownedView := Some fp\<rparr>"
  have "own_row ?n" using own_row_same [of ?n n] assms(1) by (simp add: same_table_def)
  then have down: "own_row (foldl (down_one now) ?n toDown)" using away_down_all [of ?n] assms(2) by (auto intro: own_row_away)
  have send: "own_row (cluster_send w m) = own_row m" for w m by (rule own_row_same) (intro same_table_rules)
  show ?thesis using own_row_leaving [OF down] down
    by (simp add: applyDowningDecision_def leaveAfterDowningSelf_def Let_def send)
qed

lemma own_row_evaluate: "own_row n \<Longrightarrow> table_wf n \<Longrightarrow> own_row (evaluateDowning now n)"
proof -
  assume n: "own_row n" "table_wf n"
  have w: "own_row (n\<lparr>stabilityWindow := w\<rparr>)" for w using n(1) own_row_same [of "n\<lparr>stabilityWindow := w\<rparr>" n] by (simp add: same_table_def)
  show ?thesis
    unfolding evaluateDowning_def using n w by (auto simp: Let_def own_row_apply split: option.splits prod.splits)
qed

lemma own_row_detection: "own_row n \<Longrightarrow> table_wf n \<Longrightarrow> own_row (failureDetectionTick now n)"
proof -
  assume n: "own_row n" "table_wf n"
  let ?n = "foldl (detect_one now) n (jvalues (members n))"
  have "own_row ?n" by (rule own_row_away [OF n(1) away_detect_all [OF n]])
  moreover have "table_wf ?n"
    by (rule table_wf_detect_all [OF n(2) distinct_keys [OF n(2)]]) (use table_wf_values [OF n(2)] in blast)
  ultimately show ?thesis by (simp add: failureDetectionTick_def Let_def own_row_evaluate)
qed

lemma own_row_down: "own_row n \<Longrightarrow> table_wf n \<Longrightarrow> own_row (snd (cluster_down now k n))"
proof -
  assume n: "own_row n" "table_wf n"
  have "own_row (down_member now m n)" if "jget (members n) k = Some m" "\<not> isSelf n m" for m
    by (rule own_row_away [OF n(1) away_down_member])
      (use that own_row_isSelf [OF n, of m] table_wfD [OF n(2) that(1)] in auto)
  then show ?thesis using n(1) by (auto simp: cluster_down_def split: option.splits)
qed

lemma own_row_publish:
  "own_row (publishStorageIdentity kind identity n) = own_row n" "own_row (publishConfigurationFact name v n) = own_row n"
  by (auto intro!: own_row_same simp: publishStorageIdentity_def publishConfigurationFact_def same_table_def)

lemma own_row_step: "cluster_step n n' \<Longrightarrow> table_wf n \<Longrightarrow> own_row n \<Longrightarrow> own_row n'"
  by (induction rule: cluster_step.induct)
    (simp_all add: own_row_wire own_row_gossipTick own_row_heartbeatTick own_row_detection own_row_prune
      own_row_contactSeeds own_row_weaklyUp own_row_elect own_row_down own_row_leaving own_row_publish)

section \<open>The address of a node\<close>

lemma selfAddress_foldl: "(\<And>n x. selfAddress (f n x) = selfAddress n) \<Longrightarrow> selfAddress (foldl f n xs) = selfAddress n"
  by (induction xs arbitrary: n) simp_all

interpretation cfg: frame_relation "\<lambda>n n'. config_of n' = config_of n"
proof
  show "config_of (admit_sender a n) = config_of n" for a n
  proof -
    let ?m = "\<lparr>m_address = a, m_status = Joining, m_version = Fin 1, m_roles = [], m_removedAt = None,
      m_storageIdentities = None, m_configurationFacts = None, m_appVersion = None\<rparr>"
    obtain b n1 where "admitsMember ?m None n = (b, n1)" by (metis surj_pair)
    then show ?thesis using config_noise(11) [of ?m None n] by (simp add: admit_sender_def Let_def split: bool.split)
  qed
qed simp_all

lemma selfAddress_messages:
  "table_wf n \<Longrightarrow> selfAddress (onGossip now from g n) = selfAddress n" "selfAddress (onHeartbeat now from sq ts n) = selfAddress n"
  "selfAddress (onLeave now from peer n) = selfAddress n" "table_wf n \<Longrightarrow> selfAddress (leaderActionsTick n) = selfAddress n"
  using cfg.gossip_rel [of n now "from" g] cfg.leaderActions_rel [of n]
  by (auto simp: config_of_def onHeartbeat_def onLeave_def Let_def split: option.splits)

lemma selfAddress_down [simp]:
  "selfAddress (down_member now m n) = selfAddress n" "selfAddress (down_one now n k) = selfAddress n"
  by (simp_all add: down_one_def down_member_def Let_def split: option.split)

lemma selfAddress_leaving [simp]: "selfAddress (leaveAtOnce n) = selfAddress n"
  by (simp add: leaveAtOnce_def beginLeaving_def depart_def Let_def selfAddress_foldl split: option.split)

lemma selfAddress_apply [simp]: "selfAddress (applyDowningDecision now toDown fp n) = selfAddress n"
  by (simp add: applyDowningDecision_def leaveAfterDowningSelf_def Let_def selfAddress_foldl)

lemma selfAddress_evaluate [simp]: "selfAddress (evaluateDowning now n) = selfAddress n"
  by (simp add: evaluateDowning_def Let_def split: option.split prod.split)

lemma selfAddress_timers:
  "table_wf n \<Longrightarrow> selfAddress (gossipTick choice n) = selfAddress n" "selfAddress (heartbeatTick now n) = selfAddress n"
  "selfAddress (contactSeeds now n) = selfAddress n" "selfAddress (tombstonePruneTick now n) = selfAddress n"
  "selfAddress (failureDetectionTick now n) = selfAddress n" "selfAddress (weaklyUpTimer n) = selfAddress n"
  "selfAddress (selfElect n) = selfAddress n"
  by (auto simp: gossipTick_def heartbeatTick_def contactSeeds_def tombstonePruneTick_def failureDetectionTick_def weaklyUpTimer_def
      selfElect_def holdSelfElection_def Let_def selfAddress_messages
      intro!: selfAddress_foldl [THEN trans] selfAddress_foldl split: option.split js_number.split prod.split)

lemma selfAddress_step: "cluster_step n n' \<Longrightarrow> table_wf n \<Longrightarrow> selfAddress n' = selfAddress n"
  by (induction rule: cluster_step.induct)
    (auto simp: handleWire_def Let_def selfAddress_messages selfAddress_timers table_wf_noise cluster_down_def publishStorageIdentity_def
      publishConfigurationFact_def split: wire_message.split sum.split option.split)

section \<open>Starting\<close>

lemma own_row_start: "fresh_node n \<Longrightarrow> plain_name (selfAddress n) \<Longrightarrow> own_row (cluster_start now policy seeds n)"
proof -
  assume n: "fresh_node n" "plain_name (selfAddress n)"
  define me where "me = \<lparr>m_address = selfAddress n, m_status = Joining, m_version = Fin now, m_roles = selfRoles n, m_removedAt = None,
    m_storageIdentities = selfStorageIdentitiesSnapshot n, m_configurationFacts = None, m_appVersion = selfAppVersion n\<rparr>"
  define n1 where "n1 = emit (MemberJoined me) (setMember me (n\<lparr>started := True, gossipSequence := now\<rparr>))"
  have n1: "own_row n1" "table_wf n1"
    using n(2) table_wf_fresh [OF n(1)]
    by (auto simp: n1_def own_row_def self_entry_def self_key_def member_key_def me_def table_wf_noise js_isFinite_def intro!: table_wf_set)
  have seeds: "own_row (n1\<lparr>seedAddrs := x\<rparr>)" "table_wf (n1\<lparr>seedAddrs := x\<rparr>)" for x
    using n1 own_row_same [of "n1\<lparr>seedAddrs := x\<rparr>" n1] by (simp_all add: same_table_def)
  show ?thesis
    unfolding cluster_start_def me_def [symmetric] Let_def n1_def [symmetric]
    using seeds own_row_contactSeeds table_wf_contactSeeds
    by (auto simp: armSelfElection_def own_row_elect split: self_election.splits)
qed

lemma config_foldl: "(\<And>n x. config_of (f n x) = config_of n) \<Longrightarrow> config_of (foldl f n xs) = config_of n"
  by (induction xs arbitrary: n) simp_all

lemma config_start: "config_of (cluster_start now policy seeds n) = config_of n"
proof -
  have "config_of (selfElect n) = config_of n" for n by (simp add: selfElect_def holdSelfElection_def split: option.split)
  moreover have "config_of (contactSeeds now n) = config_of n" for n
    by (simp add: contactSeeds_def Let_def config_foldl split: option.split)
  ultimately show ?thesis by (simp add: cluster_start_def armSelfElection_def Let_def split: self_election.split)
qed

lemma selfAddress_start: "selfAddress (cluster_start now policy seeds n) = selfAddress n"
  using config_start by (simp add: config_of_def)

lemma reachable_own_row: "cluster_reachable n \<Longrightarrow> plain_name (selfAddress n) \<Longrightarrow> own_row n"
proof (induction rule: cluster_reachable.induct)
  case (step n n')
  then show ?case using own_row_step selfAddress_step reachable_table_wf by metis
qed (simp add: own_row_start selfAddress_start)

section \<open>Properties\<close>

text \<open>A node with defaults for everything a property does not fix.\<close>

definition demo_node :: cluster_node where
  "demo_node = \<lparr>selfAddress = demo_address ''h'', selfRoles = [], selfAppVersion = None,
     selfStorageIdentities = \<lparr>si_journal = None, si_snapshotStore = None, si_durableStateStore = None\<rparr>,
     storageIdentityMismatchReported = [], selfConfigurationFacts = [], configurationMismatchReported = [], configurationCheckedPaths = [],
     configurationCompatibilityEnforce = False, members = [], tombstoneCount = 0, reachability = [], parkedWithoutResolver = [],
     acceptedGossipSequences = [], refusalCounts = (\<lambda>_. 0), currentLeader = None, started = False, gossipSequence = 0, heartbeatSeq = 0,
     selfElected = False, heldSelfElection = False, seedAddrs = [], minimumMembersBeforeUp = 1, minimumMembersBeforeUpPerRole = [],
     maxMembers = 2, maxTombstones = 1, maxVersionSkewMs = 1000, tombstoneTtlMs = 1000, tombstoneMinRetentionMs = 1000,
     lastDownedView = None, stabilityWindow = window_new 5 False, downing = None, failureDetectorAutoDown = False,
     runCoordinatedShutdownWhenDown = False, failureDetector = fd_new 1 5 10, collation = (\<lambda>_ _. 0), events = [], outbox = []\<rparr>"

definition demo_row :: "string \<Rightarrow> member_status \<Rightarrow> rat \<Rightarrow> cmember" where
  "demo_row h s v = \<lparr>m_address = demo_address h, m_status = s, m_version = Fin v, m_roles = [], m_removedAt = None,
     m_storageIdentities = None, m_configurationFacts = None, m_appVersion = None\<rparr>"

text \<open>A peer's frame: itself as up, a third node as joining, and the receiver as down.\<close>

definition demo_frame :: "rat \<Rightarrow> gossip_message" where
  "demo_frame sq = \<lparr>g_from = addr_toJSON (demo_address ''k''), g_sequence = Fin sq,
     g_members = map member_toData [demo_row ''k'' Up 5, demo_row ''l'' Joining 6, demo_row ''h'' Down 900]\<rparr>"

definition demo_started :: cluster_node where
  "demo_started = cluster_start 3 Immediate [] demo_node"

lemma demo_fresh: "fresh_node demo_node"
  by (simp add: fresh_node_def demo_node_def)

lemma demo_reachable: "cluster_reachable demo_started"
  unfolding demo_started_def by (rule cluster_reachable.start [OF demo_fresh])

lemma demo_key: "addr_toString (demo_address ''h'') = ''sys@h:2552''"
  by code_simp

lemma demo_table: "members demo_started = [(''sys@h:2552'', demo_row ''h'' Up 4)]"
  by (simp add: demo_started_def cluster_start_def demo_node_def demo_row_def Let_def armSelfElection_def selfElect_def
      setMember_def emit_def self_key_def demo_key upThresholdSatisfied_def membersCountingTowardUpThreshold_def jmap_defs
      member_key_def withStatus_def js_plus_def selfStorageIdentitiesSnapshot_def)

lemma demo_self: "selfAddress demo_started = demo_address ''h''"
  by (simp add: demo_started_def selfAddress_start demo_node_def)

text \<open>
  C26: in every reachable state of a started node, whatever frames, timers and calls it saw, the membership
  table holds one row per node, under the node's own key and with a finite version; the tombstone counter
  is the number of removed rows, so it and the live rows make up the table; and the reachability
  verdicts, the parked members and the last gossip sequences are only kept for nodes in the table.
\<close>

theorem cluster_table_consistent:
  assumes "cluster_reachable n"
  shows "distinct (map member_key (jvalues (members n))) \<and>
    (\<forall>k. case jget (members n) k of None \<Rightarrow> k \<notin> dom (jget (reachability n)) \<union> set (parkedWithoutResolver n) \<union> dom (jget (acceptedGossipSequences n))
        | Some m \<Rightarrow> member_key m = k \<and> js_isFinite (m_version m)) \<and>
    tombstoneCount n = int (length (filter (\<lambda>m. m_status m = Removed) (jvalues (members n)))) \<and>
    int (length (getMembers n)) + tombstoneCount n = int (length (members n))"
proof (intro conjI)
  have wf: "table_wf n" by (rule reachable_table_wf [OF assms])
  show "distinct (map member_key (jvalues (members n)))" by (rule distinct_keys [OF wf])
  show "\<forall>k. case jget (members n) k of None \<Rightarrow> k \<notin> dom (jget (reachability n)) \<union> set (parkedWithoutResolver n) \<union> dom (jget (acceptedGossipSequences n))
        | Some m \<Rightarrow> member_key m = k \<and> js_isFinite (m_version m)"
    using wf table_wfD [OF wf] by (auto simp: table_wf_def split: option.split)
  show "tombstoneCount n = int (length (filter (\<lambda>m. m_status m = Removed) (jvalues (members n))))"
    using tombstoneCount_gone [OF wf] holding_values [OF wf] by simp
  show "int (length (getMembers n)) + tombstoneCount n = int (length (members n))"
    using live_count [OF wf] holding_values [OF wf] by (simp add: getMembers_def)
qed

theorem cluster_table_consistent_witness:
  "distinct (map member_key (jvalues (members (handleWire 10 (demo_address ''k'') (Gossip (demo_frame 1)) demo_started)))) \<and>
   members demo_started \<noteq> []"
proof -
  have "cluster_reachable (handleWire 10 (demo_address ''k'') (Gossip (demo_frame 1)) demo_started)"
    by (rule cluster_reachable.step [OF demo_reachable cluster_step.wire]) (simp add: demo_self demo_address_def addr_equals_def)
  from cluster_table_consistent [OF this] demo_table show ?thesis by simp
qed

text \<open>
  C27: a started node whose names have no at sign is always in its own table under its own address, and
  never as unreachable, down or removed; no gossip frame, from anybody and with any content, changes
  the status it holds of itself, except to promote it from joining or weakly up to up.
\<close>

theorem cluster_own_row_is_its_own:
  assumes reach: "cluster_reachable n" and plain: "plain_name (selfAddress n)"
  shows "\<exists>me. jget (members n) (self_key n) = Some me \<and> m_address me = selfAddress n \<and>
    m_status me \<in> {Joining, Weakly_Up, Up, Leaving} \<and>
    (\<exists>me'. jget (members (onGossip now from g n)) (self_key n) = Some me' \<and> m_address me' = selfAddress n \<and>
      (m_status me' = m_status me \<or> m_status me \<in> {Joining, Weakly_Up} \<and> m_status me' = Up))"
proof -
  have wf: "table_wf n" by (rule reachable_table_wf [OF reach])
  obtain me where me: "self_entry n me" "m_status me \<in> {Joining, Weakly_Up, Up, Leaving}"
    using reachable_own_row [OF reach plain] by (auto simp: own_row_def)
  obtain me' where me': "self_entry (onGossip now from g n) me'" "own_change (m_status me) (m_status me')"
    using own.gossip_rel [OF wf, of now "from" g] me(1) plain by (auto simp: self_kept_def)
  have "self_key (onGossip now from g n) = self_key n" "selfAddress (onGossip now from g n) = selfAddress n"
    using selfAddress_messages(1) [OF wf] by (simp_all add: self_key_def)
  then show ?thesis using me me' by (auto simp: self_entry_def own_change_def)
qed

theorem cluster_own_row_is_its_own_witness:
  "\<exists>me'. jget (members (onGossip 10 (demo_address ''k'') (demo_frame 1) demo_started)) ''sys@h:2552'' = Some me' \<and> m_status me' = Up"
proof -
  have plain: "plain_name (selfAddress demo_started)" by (simp add: demo_self demo_address_def plain_name_def)
  have "jget (members demo_started) (self_key demo_started) = Some (demo_row ''h'' Up 4)"
    by (simp add: demo_table self_key_def demo_self demo_key jget_def)
  with cluster_own_row_is_its_own [OF demo_reachable plain, of 10 "demo_address ''k''" "demo_frame 1"]
  show ?thesis by (auto simp: self_key_def demo_self demo_key demo_row_def)
qed

lemma gossip_row_forward:
  assumes "cluster_reachable n" "jget (members n) k = Some p"
  shows "\<exists>q. jget (members (onGossip now from g n)) k = Some q \<and>
      (js_less (m_version p) (m_version q) \<or>
       m_version q = m_version p \<and> (m_status q = m_status p \<or> m_status p = Weakly_Up \<and> m_status q = Up))"
proof -
  have "entry_step (jget (members n) k) (jget (members (onGossip now from g n)) k)"
    using fwd.gossip_rel [OF reachable_table_wf [OF assms(1)], of now "from" g] by (simp add: forward_def)
  then show ?thesis using assms(2) by (auto simp: entry_step_def split: option.splits)
qed

lemma gossip_within_caps:
  assumes reach: "cluster_reachable n" and caps: "0 < maxMembers n" "0 < maxTombstones n"
  shows "length (getMembers (onGossip now from g n)) \<le> max (maxMembers n) (length (getMembers n)) \<and>
    tombstoneCount (onGossip now from g n) \<le> max (int (maxTombstones n)) (tombstoneCount n)"
proof -
  have wf: "table_wf n" by (rule reachable_table_wf [OF reach])
  note wf' = table_wf_gossip [OF wf, of now "from" g]
  show ?thesis
    using caps.gossip_rel [OF wf, of now "from" g] assms(2,3) holding_values [OF wf, of live] holding_values [OF wf', of live]
      tombstoneCount_gone [OF wf] tombstoneCount_gone [OF wf']
    by (simp add: capped_def getMembers_def flip: of_nat_max)
qed

lemma gossip_stale_ignored:
  "jget (acceptedGossipSequences n) (addr_toString from) = Some s \<Longrightarrow> \<not> js_less s (g_sequence g) \<Longrightarrow> members (onGossip now from g n) = members n"
  by (auto simp: onGossip_def admitsGossipSequence_def)



end
