(* ===== verification/JS_Float.thy ===== *)
theory JS_Float
  imports JS_Prelude
begin

text \<open>
  JavaScript's numbers as IEEE 754 doubles: sign, biased exponent and fraction. NaN is one value, as the language
  has it. Here are the byte order of \<^verbatim>\<open>DataView.setFloat64\<close> and \<^verbatim>\<open>getFloat64\<close>, the conversions from and
  to integers, the narrower formats, and rounded division and multiplication.
\<close>

section \<open>Doubles\<close>

datatype dbl = DNaN | Dbl bool nat nat

text \<open>A double that is not NaN: a finite one, or an infinity (the largest exponent, fraction zero).\<close>

definition dbl_ok :: "dbl \<Rightarrow> bool" where
  "dbl_ok d = (case d of DNaN \<Rightarrow> True | Dbl s e m \<Rightarrow> e < 2047 \<and> m < 2 ^ 52 \<or> e = 2047 \<and> m = 0)"

definition dbl_inf :: "bool \<Rightarrow> dbl" where
  "dbl_inf s = Dbl s 2047 0"

definition dbl_isFinite :: "dbl \<Rightarrow> bool" where
  "dbl_isFinite d = (case d of DNaN \<Rightarrow> False | Dbl s e m \<Rightarrow> e < 2047)"

definition neg_zero :: dbl where
  "neg_zero = Dbl True 0 0"

fun log2 :: "nat \<Rightarrow> nat" where
  "log2 n = (if n < 2 then 0 else Suc (log2 (n div 2)))"

declare log2.simps [simp del]

text \<open>The double with the value \<open>\<plusminus> M * 2 ^ x\<close>, for at most 53 significant bits and a normal result.\<close>

definition dbl_make :: "bool \<Rightarrow> nat \<Rightarrow> int \<Rightarrow> dbl" where
  "dbl_make s M x =
     (if M = 0 then Dbl s 0 0
      else (let k = log2 M in Dbl s (nat (int k + x + 1023)) (M * 2 ^ 53 div 2 ^ (k + 1) - 2 ^ 52)))"

definition dbl_of_int :: "int \<Rightarrow> dbl" where
  "dbl_of_int n = dbl_make (n < 0) (nat \<bar>n\<bar>) 0"

text \<open>A finite double is \<open>dbl_mant * 2 ^ dbl_exp\<close> up to its sign.\<close>

definition dbl_mant :: "nat \<Rightarrow> nat \<Rightarrow> nat" where
  "dbl_mant e m = (if e = 0 then m else 2 ^ 52 + m)"

definition dbl_exp :: "nat \<Rightarrow> int" where
  "dbl_exp e = int (if e = 0 then 1 else e) - 1075"

text \<open>\<^verbatim>\<open>Number.isInteger\<close> and the integer.\<close>

definition dbl_int :: "dbl \<Rightarrow> int option" where
  "dbl_int d =
     (case d of
        DNaN \<Rightarrow> None
      | Dbl s e m \<Rightarrow>
          if e \<ge> 2047 then None
          else
            (let M = dbl_mant e m; x = dbl_exp e; sgn = (if s then -1 else 1) in
             if x \<ge> 0 then Some (sgn * int M * 2 ^ nat x)
             else if M mod 2 ^ nat (- x) = 0 then Some (sgn * int (M div 2 ^ nat (- x)))
             else None))"

section \<open>Bytes\<close>

text \<open>Big-endian bytes of a number, and back.\<close>

fun be_bytes :: "nat \<Rightarrow> nat \<Rightarrow> nat list" where
  "be_bytes 0 n = []"
| "be_bytes (Suc k) n = be_bytes k (n div 256) @ [n mod 256]"

definition be_value :: "nat list \<Rightarrow> nat" where
  "be_value bs = foldl (\<lambda>acc b. acc * 256 + b) 0 bs"

definition setFloat64 :: "dbl \<Rightarrow> nat list" where
  "setFloat64 d =
     be_bytes 8 (case d of DNaN \<Rightarrow> 2047 * 2 ^ 52 + 2 ^ 51 | Dbl s e m \<Rightarrow> (if s then 2 ^ 63 else 0) + e * 2 ^ 52 + m)"

definition float_fields :: "nat \<Rightarrow> nat \<Rightarrow> nat \<Rightarrow> bool \<times> nat \<times> nat" where
  "float_fields eb mb n = (n div 2 ^ (eb + mb) mod 2 = 1, n div 2 ^ mb mod 2 ^ eb, n mod 2 ^ mb)"

definition getFloat64 :: "nat list \<Rightarrow> dbl" where
  "getFloat64 bs =
     (let (s, e, m) = float_fields 11 52 (be_value bs) in if e = 2047 \<and> m \<noteq> 0 then DNaN else Dbl s e m)"

definition getFloat32 :: "nat list \<Rightarrow> dbl" where
  "getFloat32 bs =
     (let (s, e, m) = float_fields 8 23 (be_value bs) in
      if e = 255 then (if m = 0 then dbl_inf s else DNaN)
      else if e = 0 then dbl_make s m (- 149)
      else dbl_make s (2 ^ 23 + m) (int e - 150))"

section \<open>Rounding\<close>

text \<open>Round a positive rational to a double, to the nearest and to an even fraction on a tie.\<close>

definition round_half_even :: "rat \<Rightarrow> nat" where
  "round_half_even r =
     (let f = nat \<lfloor>r\<rfloor>; rest = r - of_nat f in
      if rest < 1 / 2 then f else if rest > 1 / 2 then f + 1 else if even f then f else f + 1)"

definition rat_pow2 :: "int \<Rightarrow> rat" where
  "rat_pow2 x = (if x \<ge> 0 then 2 ^ nat x else 1 / 2 ^ nat (- x))"

text \<open>The exponent \<open>k\<close> with \<open>2 ^ k \<le> r < 2 ^ (k + 1)\<close>.\<close>

definition rat_log2 :: "rat \<Rightarrow> int" where
  "rat_log2 r =
     (let (p, q) = quotient_of r; k = int (log2 (nat p)) - int (log2 (nat q)) in
      if rat_pow2 k \<le> r then k else k - 1)"

definition dbl_round :: "bool \<Rightarrow> rat \<Rightarrow> dbl" where
  "dbl_round s r =
     (if r = 0 then Dbl s 0 0
      else
        (let k = max (rat_log2 r) (- 1022);
             M = round_half_even (r * rat_pow2 (52 - k))
         in if M < 2 ^ 52 then Dbl s 0 M
            else if M = 2 ^ 53 then (if k + 1 > 1023 then dbl_inf s else Dbl s (nat (k + 1024)) 0)
            else if k > 1023 then dbl_inf s
            else Dbl s (nat (k + 1023)) (M - 2 ^ 52)))"

definition dbl_abs :: "dbl \<Rightarrow> rat" where
  "dbl_abs d = (case d of DNaN \<Rightarrow> 0 | Dbl s e m \<Rightarrow> of_nat (dbl_mant e m) * rat_pow2 (dbl_exp e))"

definition dbl_sign :: "dbl \<Rightarrow> bool" where
  "dbl_sign d = (case d of DNaN \<Rightarrow> False | Dbl s e m \<Rightarrow> s)"

definition dbl_mult :: "dbl \<Rightarrow> dbl \<Rightarrow> dbl" where
  "dbl_mult a b =
     (let s = (dbl_sign a \<noteq> dbl_sign b) in
      if a = DNaN \<or> b = DNaN then DNaN
      else if \<not> dbl_isFinite a then (if dbl_isFinite b \<and> dbl_abs b = 0 then DNaN else dbl_inf s)
      else if \<not> dbl_isFinite b then (if dbl_abs a = 0 then DNaN else dbl_inf s)
      else dbl_round s (dbl_abs a * dbl_abs b))"

definition dbl_div :: "dbl \<Rightarrow> dbl \<Rightarrow> dbl" where
  "dbl_div a b =
     (let s = (dbl_sign a \<noteq> dbl_sign b) in
      if a = DNaN \<or> b = DNaN then DNaN
      else if \<not> dbl_isFinite a then (if dbl_isFinite b then dbl_inf s else DNaN)
      else if \<not> dbl_isFinite b then Dbl s 0 0
      else if dbl_abs b = 0 then (if dbl_abs a = 0 then DNaN else dbl_inf s)
      else dbl_round s (dbl_abs a / dbl_abs b))"

section \<open>Facts\<close>

lemma log2_unique: "2 ^ k \<le> n \<Longrightarrow> n < 2 ^ (k + 1) \<Longrightarrow> log2 n = k"
proof (induction k arbitrary: n)
  case 0
  then show ?case by (subst log2.simps) simp
next
  case (Suc k)
  have "2 ^ k \<le> n div 2" "n div 2 < 2 ^ (k + 1)" using Suc.prems by auto
  then have "log2 (n div 2) = k" by (rule Suc.IH)
  moreover have "\<not> n < 2" using Suc.prems(1) by (metis le_trans not_le one_le_numeral one_le_power power_Suc mult_le_mono2 mult.right_neutral)
  ultimately show ?case by (subst log2.simps) simp
qed

lemma length_be_bytes [simp]: "length (be_bytes k n) = k"
  by (induction k arbitrary: n) auto

lemma be_value_append [simp]: "be_value (bs @ [b]) = be_value bs * 256 + b"
  by (simp add: be_value_def)

lemma be_value_bytes: "be_value (be_bytes k n) = n mod 256 ^ k"
proof (induction k arbitrary: n)
  case (Suc k)
  have "n div 256 mod 256 ^ k * 256 + n mod 256 = n mod (256 * 256 ^ k)"
    by (simp add: mod_mult2_eq)
  with Suc show ?case by simp
qed (simp add: be_value_def)

lemma be_bytes_bound: "b \<in> set (be_bytes k n) \<Longrightarrow> b < 256"
  by (induction k arbitrary: n) auto

lemma be_value_bound: "(\<And>b. b \<in> set bs \<Longrightarrow> b < 256) \<Longrightarrow> be_value bs < 256 ^ length bs"
proof (induction bs rule: rev_induct)
  case (snoc b bs)
  then have "be_value bs < 256 ^ length bs" "b < 256" by auto
  then have "be_value bs + 1 \<le> 256 ^ length bs" by simp
  then have "(be_value bs + 1) * 256 \<le> 256 ^ length bs * 256" by (rule mult_le_mono1)
  with \<open>b < 256\<close> show ?case by simp
qed (simp add: be_value_def)

lemma float_fields_make:
  assumes "e < 2 ^ eb" "m < 2 ^ mb"
  shows "float_fields eb mb ((if s then 2 ^ (eb + mb) else 0) + e * 2 ^ mb + m) = (s, e, m)"
proof -
  let ?n = "(if s then 2 ^ (eb + mb) else 0) + e * 2 ^ mb + m"
  have em: "e * 2 ^ mb + m < 2 ^ (eb + mb)"
  proof -
    have "(e + 1) * 2 ^ mb \<le> 2 ^ eb * 2 ^ mb" using assms(1) by (intro mult_le_mono1) simp
    then show ?thesis using assms(2) by (simp add: power_add)
  qed
  have "?n div 2 ^ (eb + mb) = (if s then 1 else 0)" using em by (cases s) (simp_all add: add.assoc div_add_self1)
  moreover have "?n div 2 ^ mb mod 2 ^ eb = e"
    using assms by (cases s) (simp_all add: power_add add.assoc div_add1_eq)
  moreover have "?n mod 2 ^ mb = m"
    using assms(2) by (cases s) (simp_all add: power_add mod_add_left_eq [symmetric])
  ultimately show ?thesis by (auto simp: float_fields_def)
qed

lemma getFloat64_setFloat64:
  assumes "dbl_ok d"
  shows "getFloat64 (setFloat64 d) = d"
proof (cases d)
  case DNaN
  have "float_fields 11 52 ((if False then 2 ^ (11 + 52) else 0) + 2047 * 2 ^ 52 + 2 ^ 51) = (False, 2047, 2 ^ 51)"
    by (rule float_fields_make) simp_all
  then show ?thesis using DNaN by (simp add: getFloat64_def setFloat64_def be_value_bytes)
next
  case (Dbl s e m)
  let ?n = "(if s then 2 ^ (11 + 52) else 0) + e * 2 ^ 52 + m"
  have e: "e < 2 ^ 11" and m: "m < 2 ^ 52" and fin: "e = 2047 \<longrightarrow> m = 0" using assms Dbl by (auto simp: dbl_ok_def)
  have "e \<le> 2047" using e by simp
  then have "e * 2 ^ 52 \<le> 2047 * 2 ^ 52" by (rule mult_le_mono1)
  then have "?n < 256 ^ 8" using m by (cases s) simp_all
  then have "be_value (setFloat64 d) = ?n" using Dbl by (cases s) (simp_all add: setFloat64_def be_value_bytes)
  then show ?thesis using float_fields_make [OF e m, of s] fin Dbl by (simp add: getFloat64_def)
qed

lemma length_setFloat64 [simp]: "length (setFloat64 d) = 8"
  by (simp add: setFloat64_def)

text \<open>A double that is an integer of at most 53 bits is the double of that integer, unless it is the negative zero.\<close>

lemma dbl_make_exact:
  assumes "2 ^ 52 \<le> N * 2 ^ t" "N * 2 ^ t < 2 ^ 53" "t \<le> 52"
  shows "dbl_make s N 0 = Dbl s (1075 - t) (N * 2 ^ t - 2 ^ 52)"
proof -
  have split: "(2::nat) ^ 52 = 2 ^ (52 - t) * 2 ^ t" "(2::nat) ^ 53 = 2 ^ (52 - t + 1) * 2 ^ t"
    using assms(3) by (simp_all add: power_add [symmetric])
  have "2 ^ (52 - t) \<le> N" using assms(1) unfolding split(1) by simp
  moreover have "N < 2 ^ (52 - t + 1)" using assms(2) unfolding split(2) by simp
  ultimately have k: "log2 N = 52 - t" by (rule log2_unique)
  have "N * 2 ^ 53 div 2 ^ (52 - t + 1) = N * 2 ^ t"
    unfolding split(2) by (simp add: mult.assoc [symmetric] mult.commute)
  moreover have "N \<noteq> 0" using assms(1) by (intro notI) simp
  moreover have "nat (int (52 - t) + 0 + 1023) = 1075 - t" using assms(3) by simp
  ultimately show ?thesis unfolding dbl_make_def k Let_def by simp
qed

lemma dbl_of_int_int:
  assumes ok: "dbl_ok d" and i: "dbl_int d = Some n" and b: "\<bar>n\<bar> < 2 ^ 53" and nz: "d \<noteq> neg_zero"
  shows "dbl_of_int n = d"
proof -
  obtain s e m where d: "d = Dbl s e m" and e: "e < 2047" using i by (cases d) (auto simp: dbl_int_def split: if_splits)
  have m: "m < 2 ^ 52" using ok e d by (auto simp: dbl_ok_def)
  show ?thesis
  proof (cases "e = 0")
    case True
    have "m < 2 ^ 1074" using m by (rule less_le_trans) simp
    then have "m = 0" using i d True by (auto simp: dbl_int_def dbl_mant_def dbl_exp_def Let_def split: if_splits)
    then show ?thesis using i nz d True by (auto simp: dbl_int_def dbl_mant_def dbl_exp_def neg_zero_def dbl_of_int_def dbl_make_def)
  next
    case False
    let ?M = "2 ^ 52 + m"
    have mant: "dbl_mant e m = ?M" "dbl_exp e = int e - 1075" using False by (simp_all add: dbl_mant_def dbl_exp_def)
    show ?thesis
    proof (cases "e \<le> 1075")
      case le: True
      define t where "t = 1075 - e"
      have x: "nat (- dbl_exp e) = t" using le by (simp add: mant t_def)
      have N: "nat \<bar>n\<bar> * 2 ^ t = ?M \<and> (n < 0) = s"
      proof (cases "t = 0")
        case True
        then have "e = 1075" using le by (simp add: t_def)
        then have "n = (if s then -1 else 1) * int ?M" using i d e by (auto simp: dbl_int_def dbl_mant_def dbl_exp_def)
        then show ?thesis using True by (auto simp: nat_mult_distrib abs_mult nat_add_distrib)
      next
        case pos: False
        then have "e < 1075" using le by (simp add: t_def)
        then have div: "?M mod 2 ^ t = 0" and n: "n = (if s then -1 else 1) * int (?M div 2 ^ t)"
          using i d e x by (auto simp: dbl_int_def mant Let_def t_def split: if_splits)
        have "?M div 2 ^ t * 2 ^ t = ?M" using div by (metis add.right_neutral div_mult_mod_eq)
        moreover from this have "?M div 2 ^ t > 0" by (intro gr0I) simp
        moreover have "nat \<bar>n\<bar> = ?M div 2 ^ t" using n by (auto simp: abs_mult)
        ultimately show ?thesis using n by auto
      qed
      have t: "t \<le> 52"
      proof (rule ccontr)
        assume "\<not> t \<le> 52"
        then have "2 ^ 53 \<le> (2::nat) ^ t" by (intro power_increasing) simp_all
        moreover have "nat \<bar>n\<bar> \<noteq> 0" using N by (intro notI) simp
        ultimately have "2 ^ 53 \<le> nat \<bar>n\<bar> * 2 ^ t" by (metis le_trans mult_le_mono1 nat_mult_1 One_nat_def Suc_leI neq0_conv)
        then show False using N m by simp
      qed
      have "dbl_make s (nat \<bar>n\<bar>) 0 = Dbl s (1075 - t) (nat \<bar>n\<bar> * 2 ^ t - 2 ^ 52)"
        by (rule dbl_make_exact) (use N m t in auto)
      then show ?thesis using N d le by (simp add: dbl_of_int_def t_def)
    next
      case False
      have x: "dbl_exp e \<ge> 0" "nat (dbl_exp e) = e - 1075" using False by (simp_all add: mant nat_diff_distrib)
      have "Some n = Some ((if s then -1 else 1) * int ?M * 2 ^ (e - 1075))"
        using i [unfolded d dbl_int_def] e x by (simp only: dbl.case Let_def mant(1) if_True if_False not_le [symmetric] simp_thms)
      then have "\<bar>n\<bar> = int ?M * 2 ^ (e - 1075)" by (simp add: abs_mult)
      moreover have "(2::int) ^ 1 \<le> 2 ^ (e - 1075)" using False by (intro power_increasing) simp_all
      then have "int ?M * 2 ^ 1 \<le> int ?M * 2 ^ (e - 1075)" by (rule mult_left_mono) simp
      ultimately have "int ?M * 2 \<le> \<bar>n\<bar>" by (simp only: power_one_right)
      then show ?thesis using b by simp
    qed
  qed
qed

end
