(* ===== verification/JS_Text.thy ===== *)
theory JS_Text
  imports JS_Prelude
begin

text \<open>
  JavaScript strings are lists of UTF-16 code units. Here are the two directions of the Encoding Standard the
  serializers use: \<^verbatim>\<open>TextEncoder.encode\<close>, which replaces a lone surrogate, and \<^verbatim>\<open>TextDecoder.decode\<close> with its
  defaults, which replaces malformed sequences and drops a leading byte order mark.
\<close>

type_synonym jstr = "nat list"

definition jlit :: "string \<Rightarrow> jstr" where
  "jlit s = map of_char s"

section \<open>UTF-16\<close>

definition high_surrogate :: "nat \<Rightarrow> bool" where
  "high_surrogate u = (0xD800 \<le> u \<and> u \<le> 0xDBFF)"

definition low_surrogate :: "nat \<Rightarrow> bool" where
  "low_surrogate u = (0xDC00 \<le> u \<and> u \<le> 0xDFFF)"

definition scalar_value :: "nat \<Rightarrow> bool" where
  "scalar_value c = (c < 0xD800 \<or> 0xDFFF < c \<and> c < 0x110000)"

fun utf16_scalars :: "jstr \<Rightarrow> nat list" where
  "utf16_scalars [] = []"
| "utf16_scalars [u] = [if high_surrogate u \<or> low_surrogate u then 0xFFFD else u]"
| "utf16_scalars (u # v # us) =
     (if high_surrogate u \<and> low_surrogate v then (0x10000 + (u - 0xD800) * 0x400 + (v - 0xDC00)) # utf16_scalars us
      else if high_surrogate u \<or> low_surrogate u then 0xFFFD # utf16_scalars (v # us)
      else u # utf16_scalars (v # us))"

definition scalar_units :: "nat \<Rightarrow> jstr" where
  "scalar_units c = (if c < 0x10000 then [c] else [0xD800 + (c - 0x10000) div 0x400, 0xDC00 + (c - 0x10000) mod 0x400])"

section \<open>UTF-8\<close>

definition utf8_scalar :: "nat \<Rightarrow> nat list" where
  "utf8_scalar c =
     (if c < 0x80 then [c]
      else if c < 0x800 then [0xC0 + c div 0x40, 0x80 + c mod 0x40]
      else if c < 0x10000 then [0xE0 + c div 0x1000, 0x80 + c div 0x40 mod 0x40, 0x80 + c mod 0x40]
      else [0xF0 + c div 0x40000, 0x80 + c div 0x1000 mod 0x40, 0x80 + c div 0x40 mod 0x40, 0x80 + c mod 0x40])"

definition textEncode :: "jstr \<Rightarrow> nat list" where
  "textEncode s = concat (map utf8_scalar (utf16_scalars s))"

text \<open>The decoder's state: the code point so far, the continuation bytes still needed, and the bounds on the next one.\<close>

record utf8_state =
  u_point :: nat
  u_needed :: nat
  u_lower :: nat
  u_upper :: nat

definition utf8_init :: utf8_state where
  "utf8_init = \<lparr>u_point = 0, u_needed = 0, u_lower = 0x80, u_upper = 0xBF\<rparr>"

definition utf8_lead :: "nat \<Rightarrow> utf8_state \<times> nat list" where
  "utf8_lead b =
     (if b \<le> 0x7F then (utf8_init, [b])
      else if 0xC2 \<le> b \<and> b \<le> 0xDF then (utf8_init\<lparr>u_point := b mod 0x20, u_needed := 1\<rparr>, [])
      else if 0xE0 \<le> b \<and> b \<le> 0xEF then
        (\<lparr>u_point = b mod 0x10, u_needed = 2, u_lower = (if b = 0xE0 then 0xA0 else 0x80), u_upper = (if b = 0xED then 0x9F else 0xBF)\<rparr>, [])
      else if 0xF0 \<le> b \<and> b \<le> 0xF4 then
        (\<lparr>u_point = b mod 0x8, u_needed = 3, u_lower = (if b = 0xF0 then 0x90 else 0x80), u_upper = (if b = 0xF4 then 0x8F else 0xBF)\<rparr>, [])
      else (utf8_init, [0xFFFD]))"

text \<open>A byte out of bounds ends the sequence with a replacement and is read again as a lead byte.\<close>

definition utf8_byte :: "utf8_state \<Rightarrow> nat \<Rightarrow> utf8_state \<times> nat list" where
  "utf8_byte st b =
     (if u_needed st = 0 then utf8_lead b
      else if \<not> (u_lower st \<le> b \<and> b \<le> u_upper st) then
        (case utf8_lead b of (st', out) \<Rightarrow> (st', 0xFFFD # out))
      else
        (let p = u_point st * 0x40 + b mod 0x40 in
         if u_needed st = 1 then (utf8_init, [p])
         else (utf8_init\<lparr>u_point := p, u_needed := u_needed st - 1\<rparr>, [])))"

fun utf8_run :: "utf8_state \<Rightarrow> nat list \<Rightarrow> nat list" where
  "utf8_run st [] = (if u_needed st = 0 then [] else [0xFFFD])"
| "utf8_run st (b # bs) = (case utf8_byte st b of (st', out) \<Rightarrow> out @ utf8_run st' bs)"

definition textDecode :: "nat list \<Rightarrow> jstr" where
  "textDecode bs =
     (let cs = utf8_run utf8_init bs in
      concat (map scalar_units (case cs of [] \<Rightarrow> [] | c # r \<Rightarrow> if c = 0xFEFF then r else cs)))"

section \<open>Round trip\<close>

lemma low_bits:
  "y < 0x40 \<Longrightarrow> (0x80 + y) mod 0x40 = (y :: nat)" "y < 0x20 \<Longrightarrow> (0xC0 + y) mod 0x20 = (y :: nat)"
  "y < 0x10 \<Longrightarrow> (0xE0 + y) mod 0x10 = (y :: nat)" "y < 0x8 \<Longrightarrow> (0xF0 + y) mod 0x8 = (y :: nat)"
  using mod_mult_self3 [of 2 64 y] mod_mult_self3 [of 6 32 y] mod_mult_self3 [of 14 16 y] mod_mult_self3 [of 30 8 y] by simp_all

lemma six_bits: "c = c div 0x40 * 0x40 + c mod (0x40 :: nat)" "c div 0x1000 = c div 0x40 div (0x40 :: nat)"
  "c div 0x40000 = c div 0x40 div 0x40 div (0x40 :: nat)"
  by (simp_all add: div_mult2_eq [symmetric])

lemma utf8_continue:
  assumes "y < 0x40" "u_needed st \<noteq> 0" "u_lower st \<le> 0x80 + y" "0x80 + y \<le> u_upper st"
  shows "utf8_byte st (0x80 + y) =
    (if u_needed st = 1 then (utf8_init, [u_point st * 0x40 + y])
     else (utf8_init\<lparr>u_point := u_point st * 0x40 + y, u_needed := u_needed st - 1\<rparr>, []))"
proof -
  have "(0x80 + y) mod 0x40 = y" using assms(1) by (rule low_bits)
  then show ?thesis using assms(2-4) by (simp add: utf8_byte_def Let_def)
qed

lemma utf8_run_scalar:
  assumes "scalar_value c"
  shows "utf8_run utf8_init (utf8_scalar c @ bs) = c # utf8_run utf8_init bs"
proof -
  define x y z where "x = c mod 0x40" and "y = c div 0x40 mod 0x40" and "z = c div 0x1000 mod 0x40"
  have xyz: "x < 0x40" "y < 0x40" "z < 0x40" by (simp_all add: x_def y_def z_def)
  consider "c < 0x80" | "0x80 \<le> c" "c < 0x800" | "0x800 \<le> c" "c < 0x10000" | "0x10000 \<le> c" by linarith
  then show ?thesis
  proof cases
    case 1
    then show ?thesis by (simp add: utf8_scalar_def utf8_byte_def utf8_lead_def utf8_init_def)
  next
    case 2
    define w where "w = c div 0x40"
    have w: "2 \<le> w" "w < 32" and c: "c = w * 0x40 + x" using 2 by (auto simp: w_def x_def)
    have lead: "utf8_byte utf8_init (0xC0 + w) = (utf8_init\<lparr>u_point := w, u_needed := 1\<rparr>, [])"
      using w by (simp add: utf8_byte_def utf8_lead_def utf8_init_def low_bits)
    have "utf8_scalar c = [0xC0 + w, 0x80 + x]" using 2 by (simp add: utf8_scalar_def w_def x_def)
    then show ?thesis
      using lead utf8_continue [OF xyz(1), of "utf8_init\<lparr>u_point := w, u_needed := 1\<rparr>"] xyz(1) by (simp add: utf8_init_def c)
  next
    case 3
    define w where "w = c div 0x1000"
    have w: "w < 16" using 3 by (auto simp: w_def)
    have c: "c = (w * 0x40 + y) * 0x40 + x"
      using six_bits(1) [of c] six_bits(1) [of "c div 0x40"] by (simp add: w_def x_def y_def six_bits(2))
    let ?st = "\<lparr>u_point = w, u_needed = 2, u_lower = (if w = 0 then 0xA0 else 0x80), u_upper = (if w = 13 then 0x9F else 0xBF)\<rparr>"
    have lead: "utf8_byte utf8_init (0xE0 + w) = (?st, [])"
      using w by (simp add: utf8_byte_def utf8_lead_def utf8_init_def low_bits)
    have "w = 0 \<longrightarrow> 0x20 \<le> y" "w = 13 \<longrightarrow> y \<le> 0x1F" using 3 assms c xyz by (auto simp: scalar_value_def)
    then have 1: "utf8_byte ?st (0x80 + y) = (utf8_init\<lparr>u_point := w * 0x40 + y, u_needed := 1\<rparr>, [])"
      using xyz(2) by (subst utf8_continue) auto
    have 2: "utf8_byte (utf8_init\<lparr>u_point := w * 0x40 + y, u_needed := 1\<rparr>) (0x80 + x) = (utf8_init, [c])"
      using xyz(1) by (subst utf8_continue) (auto simp: utf8_init_def c)
    have "utf8_scalar c = [0xE0 + w, 0x80 + y, 0x80 + x]" using 3 by (simp add: utf8_scalar_def w_def x_def y_def)
    then show ?thesis using lead 1 2 by simp
  next
    case 4
    define w where "w = c div 0x40000"
    have c: "c = ((w * 0x40 + z) * 0x40 + y) * 0x40 + x"
      using six_bits(1) [of c] six_bits(1) [of "c div 0x40"] six_bits(1) [of "c div 0x40 div 0x40"]
      by (simp add: w_def x_def y_def z_def six_bits(2,3))
    have w: "w \<le> 4" using assms 4 by (auto simp: w_def scalar_value_def)
    let ?st = "\<lparr>u_point = w, u_needed = 3, u_lower = (if w = 0 then 0x90 else 0x80), u_upper = (if w = 4 then 0x8F else 0xBF)\<rparr>"
    have lead: "utf8_byte utf8_init (0xF0 + w) = (?st, [])"
      using w by (simp add: utf8_byte_def utf8_lead_def utf8_init_def low_bits)
    have "w = 0 \<longrightarrow> 0x10 \<le> z" "w = 4 \<longrightarrow> z \<le> 0xF" using 4 assms c xyz by (auto simp: scalar_value_def)
    then have 1: "utf8_byte ?st (0x80 + z) = (utf8_init\<lparr>u_point := w * 0x40 + z, u_needed := 2\<rparr>, [])"
      using xyz(3) by (subst utf8_continue) auto
    have 2: "utf8_byte (utf8_init\<lparr>u_point := w * 0x40 + z, u_needed := 2\<rparr>) (0x80 + y) =
        (utf8_init\<lparr>u_point := (w * 0x40 + z) * 0x40 + y, u_needed := 1\<rparr>, [])"
      using xyz(2) by (subst utf8_continue) (auto simp: utf8_init_def)
    have 3: "utf8_byte (utf8_init\<lparr>u_point := (w * 0x40 + z) * 0x40 + y, u_needed := 1\<rparr>) (0x80 + x) = (utf8_init, [c])"
      using xyz(1) by (subst utf8_continue) (auto simp: utf8_init_def c)
    have "utf8_scalar c = [0xF0 + w, 0x80 + z, 0x80 + y, 0x80 + x]" using 4 by (simp add: utf8_scalar_def w_def x_def y_def z_def)
    then show ?thesis using lead 1 2 3 by simp
  qed
qed

text \<open>Strings whose surrogates come in pairs.\<close>

fun utf16_ok :: "jstr \<Rightarrow> bool" where
  "utf16_ok [] = True"
| "utf16_ok [u] = (u < 0x10000 \<and> \<not> high_surrogate u \<and> \<not> low_surrogate u)"
| "utf16_ok (u # v # us) =
     (u < 0x10000 \<and> (if high_surrogate u then low_surrogate v \<and> utf16_ok us else \<not> low_surrogate u \<and> utf16_ok (v # us)))"

lemma surrogate_pair:
  assumes "high_surrogate u" "low_surrogate v"
  defines "c \<equiv> 0x10000 + (u - 0xD800) * 0x400 + (v - 0xDC00)"
  shows "scalar_units c = [u, v]" "scalar_value c"
proof -
  define a b where "a = u - 0xD800" and "b = v - 0xDC00"
  have ab: "a < 0x400" "b < 0x400" "u = 0xD800 + a" "v = 0xDC00 + b"
    using assms(1,2) by (auto simp: a_def b_def high_surrogate_def low_surrogate_def)
  have c: "c = 0x10000 + (a * 0x400 + b)" by (simp add: c_def a_def b_def)
  have "a * 0x400 + b < 0x100000" using ab(1,2) by linarith
  then show "scalar_value c" by (simp add: c scalar_value_def)
  have "(a * 0x400 + b) div 0x400 = a" "(a * 0x400 + b) mod 0x400 = b" using ab(2) by simp_all
  then show "scalar_units c = [u, v]" by (simp add: scalar_units_def c ab(3,4))
qed

lemma utf16_scalars_units: "utf16_ok s \<Longrightarrow> concat (map scalar_units (utf16_scalars s)) = s \<and> list_all scalar_value (utf16_scalars s)"
proof (induction s rule: utf16_ok.induct)
  case (3 u v us)
  show ?case
  proof (cases "high_surrogate u")
    case True
    then show ?thesis using 3 surrogate_pair [OF True] by simp
  next
    case False
    then have u: "\<not> low_surrogate u" "u < 0x10000" "utf16_ok (v # us)" using "3.prems" by simp_all
    have "scalar_units u = [u]" "scalar_value u"
      using u(1,2) False by (auto simp: scalar_units_def scalar_value_def high_surrogate_def low_surrogate_def)
    then show ?thesis using "3.IH"(2) [OF False u(3)] False u(1) by simp
  qed
qed (auto simp: scalar_units_def scalar_value_def high_surrogate_def low_surrogate_def)

lemma utf8_run_encode: "list_all scalar_value cs \<Longrightarrow> utf8_run utf8_init (concat (map utf8_scalar cs)) = cs"
  by (induction cs) (simp_all add: utf8_run_scalar utf8_init_def [THEN arg_cong, of u_needed])

lemma hd_scalars: "utf16_ok (u # us) \<Longrightarrow> \<exists>c cs. utf16_scalars (u # us) = c # cs \<and> (c = 0xFEFF \<longrightarrow> u = 0xFEFF)"
  by (cases us) (auto simp: high_surrogate_def low_surrogate_def)

lemma textDecode_textEncode:
  assumes "utf16_ok s" "s = [] \<or> hd s \<noteq> 0xFEFF"
  shows "textDecode (textEncode s) = s"
proof (cases s)
  case Nil
  then show ?thesis by (simp add: textDecode_def textEncode_def utf8_init_def)
next
  case (Cons u us)
  obtain c cs where c: "utf16_scalars s = c # cs" "c \<noteq> 0xFEFF" using hd_scalars [of u us] assms Cons by auto
  have "utf8_run utf8_init (textEncode s) = c # cs"
    unfolding textEncode_def c(1) using utf8_run_encode [of "c # cs"] utf16_scalars_units [OF assms(1)] c(1) by simp
  then show ?thesis using utf16_scalars_units [OF assms(1)] c by (simp add: textDecode_def)
qed

text \<open>A string that starts with a byte order mark loses it.\<close>

lemma textDecode_bom:
  assumes "utf16_ok s"
  shows "textDecode (textEncode (0xFEFF # s)) = s"
proof -
  have bom: "utf16_scalars (0xFEFF # s) = 0xFEFF # utf16_scalars s"
    by (cases s) (simp_all add: high_surrogate_def low_surrogate_def)
  moreover have "scalar_value 0xFEFF" by (simp add: scalar_value_def)
  ultimately have "utf8_run utf8_init (textEncode (0xFEFF # s)) = 0xFEFF # utf16_scalars s"
    unfolding textEncode_def using utf8_run_encode [of "0xFEFF # utf16_scalars s"] utf16_scalars_units [OF assms] by simp
  then show ?thesis using utf16_scalars_units [OF assms] by (simp add: textDecode_def)
qed

end
