(* ===== verification/Bidirectional.thy ===== *)
theory Bidirectional
  imports JS_Prelude
begin

text \<open>
  The two-way containers \<^verbatim>\<open>src/src/util/BidirectionalMap.ts\<close> and \<^verbatim>\<open>BidirectionalMultiMap.ts\<close>: two maps that mirror each
  other. Equality of keys is the language's SameValueZero, for which equality stands. Their invariant says that the
  maps mirror each other; the specification is an injective finite map and a finite relation.
\<close>

section \<open>BidirectionalMap\<close>

record ('k, 'v) bimap =
  bm_forward :: "('k, 'v) jmap"
  bm_reverse :: "('v, 'k) jmap"

definition bm_empty :: "('k, 'v) bimap" where
  "bm_empty = \<lparr>bm_forward = [], bm_reverse = []\<rparr>"

definition bm_set :: "'k \<Rightarrow> 'v \<Rightarrow> ('k, 'v) bimap \<Rightarrow> ('k, 'v) bimap" where
  "bm_set key v m =
     (let m1 = (case jget (bm_forward m) key of
                  Some old \<Rightarrow> m\<lparr>bm_reverse := jdelete (bm_reverse m) old\<rparr> | None \<Rightarrow> m);
          m2 = (case jget (bm_reverse m1) v of
                  Some holder \<Rightarrow> m1\<lparr>bm_forward := jdelete (bm_forward m1) holder\<rparr> | None \<Rightarrow> m1)
      in m2\<lparr>bm_forward := jset (bm_forward m2) key v, bm_reverse := jset (bm_reverse m2) v key\<rparr>)"

definition bm_new :: "('k \<times> 'v) list \<Rightarrow> ('k, 'v) bimap" where
  "bm_new entries = foldl (\<lambda>m (k, v). bm_set k v m) bm_empty entries"

definition bm_trySet :: "'k \<Rightarrow> 'v \<Rightarrow> ('k, 'v) bimap \<Rightarrow> bool \<times> ('k, 'v) bimap" where
  "bm_trySet key v m =
     (let keyIsBound = jhas (bm_forward m) key; valueIsBound = jhas (bm_reverse m) v in
      if keyIsBound \<or> valueIsBound then (keyIsBound \<and> valueIsBound \<and> jget (bm_forward m) key = Some v, m)
      else (True, m\<lparr>bm_forward := jset (bm_forward m) key v, bm_reverse := jset (bm_reverse m) v key\<rparr>))"

definition bm_get :: "'k \<Rightarrow> ('k, 'v) bimap \<Rightarrow> 'v option" where
  "bm_get key m = jget (bm_forward m) key"

definition bm_getKey :: "'v \<Rightarrow> ('k, 'v) bimap \<Rightarrow> 'k option" where
  "bm_getKey v m = jget (bm_reverse m) v"

definition bm_delete :: "'k \<Rightarrow> ('k, 'v) bimap \<Rightarrow> bool \<times> ('k, 'v) bimap" where
  "bm_delete key m =
     (case jget (bm_forward m) key of
        None \<Rightarrow> (False, m)
      | Some v \<Rightarrow> (True, m\<lparr>bm_forward := jdelete (bm_forward m) key, bm_reverse := jdelete (bm_reverse m) v\<rparr>))"

definition bm_deleteValue :: "'v \<Rightarrow> ('k, 'v) bimap \<Rightarrow> bool \<times> ('k, 'v) bimap" where
  "bm_deleteValue v m =
     (case jget (bm_reverse m) v of
        None \<Rightarrow> (False, m)
      | Some key \<Rightarrow> (True, m\<lparr>bm_reverse := jdelete (bm_reverse m) v, bm_forward := jdelete (bm_forward m) key\<rparr>))"

definition bm_clear :: "('k, 'v) bimap \<Rightarrow> ('k, 'v) bimap" where
  "bm_clear m = m\<lparr>bm_forward := [], bm_reverse := []\<rparr>"

definition bm_inverse :: "('k, 'v) bimap \<Rightarrow> ('v, 'k) bimap" where
  "bm_inverse m = \<lparr>bm_forward = bm_reverse m, bm_reverse = bm_forward m\<rparr>"

definition bm_getOrInsert :: "'k \<Rightarrow> 'v \<Rightarrow> ('k, 'v) bimap \<Rightarrow> 'v \<times> ('k, 'v) bimap" where
  "bm_getOrInsert key v m = (case jget (bm_forward m) key of Some old \<Rightarrow> (old, m) | None \<Rightarrow> (v, bm_set key v m))"

definition bm_getOrInsertComputed :: "'k \<Rightarrow> ('k \<Rightarrow> 'v) \<Rightarrow> ('k, 'v) bimap \<Rightarrow> 'v \<times> ('k, 'v) bimap" where
  "bm_getOrInsertComputed key f m =
     (case jget (bm_forward m) key of Some old \<Rightarrow> (old, m) | None \<Rightarrow> (let v = f key in (v, bm_set key v m)))"

definition bm_getOrInsertKey :: "'v \<Rightarrow> 'k \<Rightarrow> ('k, 'v) bimap \<Rightarrow> 'k \<times> ('k, 'v) bimap" where
  "bm_getOrInsertKey v key m = (case jget (bm_reverse m) v of Some old \<Rightarrow> (old, m) | None \<Rightarrow> (key, bm_set key v m))"

definition bm_getOrInsertComputedKey :: "'v \<Rightarrow> ('v \<Rightarrow> 'k) \<Rightarrow> ('k, 'v) bimap \<Rightarrow> 'k \<times> ('k, 'v) bimap" where
  "bm_getOrInsertComputedKey v f m =
     (case jget (bm_reverse m) v of Some old \<Rightarrow> (old, m) | None \<Rightarrow> (let key = f v in (key, bm_set key v m)))"

section \<open>BidirectionalMultiMap\<close>

record ('l, 'r) multimap =
  mm_forward :: "('l, 'r jset) jmap"
  mm_reverse :: "('r, 'l jset) jmap"
  mm_pairs :: int

definition mm_empty :: "('l, 'r) multimap" where
  "mm_empty = \<lparr>mm_forward = [], mm_reverse = [], mm_pairs = 0\<rparr>"

definition row :: "('k, 'a jset) jmap \<Rightarrow> 'k \<Rightarrow> 'a jset" where
  "row m k = (case jget m k of Some s \<Rightarrow> s | None \<Rightarrow> [])"

definition mm_add :: "'l \<Rightarrow> 'r \<Rightarrow> ('l, 'r) multimap \<Rightarrow> ('l, 'r) multimap" where
  "mm_add l r m =
     (let m1 = (case jget (mm_forward m) l of
                  None \<Rightarrow> m\<lparr>mm_forward := jset (mm_forward m) l []\<rparr> | Some _ \<Rightarrow> m)
      in if r \<in> set (row (mm_forward m1) l) then m1
         else
           (let m2 = m1\<lparr>mm_forward := jset (mm_forward m1) l (sadd (row (mm_forward m1) l) r)\<rparr>;
                m3 = (case jget (mm_reverse m2) r of
                        None \<Rightarrow> m2\<lparr>mm_reverse := jset (mm_reverse m2) r []\<rparr> | Some _ \<Rightarrow> m2)
            in m3\<lparr>mm_reverse := jset (mm_reverse m3) r (sadd (row (mm_reverse m3) r) l), mm_pairs := mm_pairs m3 + 1\<rparr>))"

definition mm_new :: "('l \<times> 'r) list \<Rightarrow> ('l, 'r) multimap" where
  "mm_new ps = foldl (\<lambda>m (l, r). mm_add l r m) mm_empty ps"

text \<open>Take \<open>x\<close> out of the set under \<open>k\<close>, and the row with it when that empties it.\<close>

definition drop_from :: "('k, 'a jset) jmap \<Rightarrow> 'k \<Rightarrow> 'a \<Rightarrow> ('k, 'a jset) jmap" where
  "drop_from m k x =
     (case jget m k of
        None \<Rightarrow> m
      | Some s \<Rightarrow> (let s' = sdel s x in if s' = [] then jdelete m k else jset m k s'))"

definition mm_delete :: "'l \<Rightarrow> 'r \<Rightarrow> ('l, 'r) multimap \<Rightarrow> bool \<times> ('l, 'r) multimap" where
  "mm_delete l r m =
     (if r \<notin> set (row (mm_forward m) l) then (False, m)
      else (True, m\<lparr>mm_forward := drop_from (mm_forward m) l r, mm_reverse := drop_from (mm_reverse m) r l,
                    mm_pairs := mm_pairs m - 1\<rparr>))"

definition mm_get :: "'l \<Rightarrow> ('l, 'r) multimap \<Rightarrow> 'r jset" where
  "mm_get l m = row (mm_forward m) l"

definition mm_getKeys :: "'r \<Rightarrow> ('l, 'r) multimap \<Rightarrow> 'l jset" where
  "mm_getKeys r m = row (mm_reverse m) r"

definition mm_deleteLeft :: "'l \<Rightarrow> ('l, 'r) multimap \<Rightarrow> bool \<times> ('l, 'r) multimap" where
  "mm_deleteLeft l m =
     (case jget (mm_forward m) l of
        None \<Rightarrow> (False, m)
      | Some partners \<Rightarrow>
          (True, m\<lparr>mm_forward := jdelete (mm_forward m) l,
                   mm_reverse := foldl (\<lambda>rev r. drop_from rev r l) (mm_reverse m) partners,
                   mm_pairs := mm_pairs m - int (length partners)\<rparr>))"

definition mm_deleteRight :: "'r \<Rightarrow> ('l, 'r) multimap \<Rightarrow> bool \<times> ('l, 'r) multimap" where
  "mm_deleteRight r m =
     (case jget (mm_reverse m) r of
        None \<Rightarrow> (False, m)
      | Some holders \<Rightarrow>
          (True, m\<lparr>mm_reverse := jdelete (mm_reverse m) r,
                   mm_forward := foldl (\<lambda>fwd l. drop_from fwd l r) (mm_forward m) holders,
                   mm_pairs := mm_pairs m - int (length holders)\<rparr>))"

definition mm_has :: "'l \<Rightarrow> 'r \<Rightarrow> ('l, 'r) multimap \<Rightarrow> bool" where
  "mm_has l r m = (r \<in> set (row (mm_forward m) l))"

definition mm_clear :: "('l, 'r) multimap \<Rightarrow> ('l, 'r) multimap" where
  "mm_clear m = m\<lparr>mm_forward := [], mm_reverse := [], mm_pairs := 0\<rparr>"

definition mm_entries :: "('l, 'r) multimap \<Rightarrow> ('l \<times> 'r) list" where
  "mm_entries m = concat (map (\<lambda>(l, rs). map (Pair l) rs) (mm_forward m))"

definition mm_inverse :: "('l, 'r) multimap \<Rightarrow> ('r, 'l) multimap" where
  "mm_inverse m = \<lparr>mm_forward = mm_reverse m, mm_reverse = mm_forward m, mm_pairs = mm_pairs m\<rparr>"

section \<open>A BidirectionalMap is an injective map\<close>

definition bm_ok :: "('k, 'v) bimap \<Rightarrow> bool" where
  "bm_ok m \<longleftrightarrow> jwf (bm_forward m) \<and> jwf (bm_reverse m) \<and>
     (\<forall>k v. jget (bm_forward m) k = Some v \<longleftrightarrow> jget (bm_reverse m) v = Some k)"

lemma bm_okD: "bm_ok m \<Longrightarrow> jget (bm_forward m) k = Some v \<longleftrightarrow> jget (bm_reverse m) v = Some k"
  by (simp add: bm_ok_def)

lemma bm_injD: "bm_ok m \<Longrightarrow> jget (bm_reverse m) v = Some k \<Longrightarrow> jget (bm_reverse m) w = Some k \<Longrightarrow> v = w"
  by (metis bm_okD option.inject)

lemma bm_NoneD: "bm_ok m \<Longrightarrow> jget (bm_forward m) k = None \<Longrightarrow> jget (bm_reverse m) x = Some k \<Longrightarrow> False"
  by (metis bm_okD option.distinct(1))

text \<open>\<open>rebind k v f\<close>: the map that takes \<open>k\<close> to \<open>v\<close> and otherwise is \<open>f\<close> without the keys taken to \<open>v\<close>.\<close>

definition rebind :: "'k \<Rightarrow> 'v \<Rightarrow> ('k \<rightharpoonup> 'v) \<Rightarrow> 'k \<rightharpoonup> 'v" where
  "rebind k v f = (\<lambda>x. if x = k then Some v else if f x = Some v then None else f x)"

lemma bm_set_forward: "bm_ok m \<Longrightarrow> jget (bm_forward (bm_set k v m)) = rebind k v (jget (bm_forward m))"
  using bm_okD [of m]
  by (auto simp: bm_set_def rebind_def Let_def fun_eq_iff split: option.splits)

lemma bm_set_reverse: "bm_ok m \<Longrightarrow> jget (bm_reverse (bm_set k v m)) = rebind v k (jget (bm_reverse m))"
  using bm_okD [of m]
  by (auto simp: bm_set_def rebind_def Let_def fun_eq_iff split: option.splits dest: bm_injD [of m] bm_NoneD [of m])

lemma bm_set_ok: "bm_ok m \<Longrightarrow> bm_ok (bm_set k v m)"
proof -
  assume ok: "bm_ok m"
  have "jwf (bm_forward (bm_set k v m))" "jwf (bm_reverse (bm_set k v m))"
    using ok by (auto simp: bm_set_def bm_ok_def Let_def split: option.splits)
  then show ?thesis
    using bm_okD [OF ok] unfolding bm_ok_def bm_set_forward [OF ok] bm_set_reverse [OF ok]
    by (auto simp: rebind_def dest: bm_injD [OF ok])
qed

text \<open>The calls of the class and what they answer.\<close>

datatype ('k, 'v) bm_call =
    Bm_Set 'k 'v | Bm_TrySet 'k 'v | Bm_Delete 'k | Bm_DeleteValue 'v | Bm_Clear | Bm_GetOrInsert 'k 'v | Bm_GetOrInsertKey 'v 'k

fun bm_apply :: "('k, 'v) bm_call \<Rightarrow> ('k, 'v) bimap \<Rightarrow> ('k, 'v) bimap" where
  "bm_apply (Bm_Set k v) m = bm_set k v m"
| "bm_apply (Bm_TrySet k v) m = snd (bm_trySet k v m)"
| "bm_apply (Bm_Delete k) m = snd (bm_delete k m)"
| "bm_apply (Bm_DeleteValue v) m = snd (bm_deleteValue v m)"
| "bm_apply Bm_Clear m = bm_clear m"
| "bm_apply (Bm_GetOrInsert k v) m = snd (bm_getOrInsert k v m)"
| "bm_apply (Bm_GetOrInsertKey v k) m = snd (bm_getOrInsertKey v k m)"

text \<open>The specification: a finite injective map.\<close>

fun bm_spec :: "('k, 'v) bm_call \<Rightarrow> ('k \<rightharpoonup> 'v) \<Rightarrow> 'k \<rightharpoonup> 'v" where
  "bm_spec (Bm_Set k v) f = rebind k v f"
| "bm_spec (Bm_TrySet k v) f = (if k \<in> dom f \<or> v \<in> ran f then f else f(k \<mapsto> v))"
| "bm_spec (Bm_Delete k) f = f(k := None)"
| "bm_spec (Bm_DeleteValue v) f = (\<lambda>x. if f x = Some v then None else f x)"
| "bm_spec Bm_Clear f = Map.empty"
| "bm_spec (Bm_GetOrInsert k v) f = (if k \<in> dom f then f else rebind k v f)"
| "bm_spec (Bm_GetOrInsertKey v k) f = (if v \<in> ran f then f else rebind k v f)"

lemma bm_ran: "bm_ok m \<Longrightarrow> v \<in> ran (jget (bm_forward m)) \<longleftrightarrow> jget (bm_reverse m) v \<noteq> None"
  by (auto simp: ran_def bm_okD)

lemma bm_trySet_ok: "bm_ok m \<Longrightarrow> bm_ok (snd (bm_trySet k v m))"
  using bm_okD [of m] by (auto simp: bm_trySet_def bm_ok_def Let_def jhas_iff)

lemma bm_delete_ok: "bm_ok m \<Longrightarrow> bm_ok (snd (bm_delete k m))"
  using bm_okD [of m] bm_injD [of m] by (auto simp: bm_delete_def bm_ok_def split: option.splits)

lemma bm_deleteValue_ok: "bm_ok m \<Longrightarrow> bm_ok (snd (bm_deleteValue v m))"
  using bm_okD [of m] bm_injD [of m] by (auto simp: bm_deleteValue_def bm_ok_def split: option.splits)

lemma bm_apply_ok: "bm_ok m \<Longrightarrow> bm_ok (bm_apply c m)"
  by (cases c)
    (simp_all add: bm_set_ok bm_trySet_ok bm_delete_ok bm_deleteValue_ok bm_getOrInsert_def bm_getOrInsertKey_def
      bm_clear_def split: option.split, simp add: bm_ok_def)

lemma bm_apply_spec: "bm_ok m \<Longrightarrow> jget (bm_forward (bm_apply c m)) = bm_spec c (jget (bm_forward m))"
  using bm_okD [of m] bm_ran [of m]
  by (cases c)
    (auto simp: bm_set_forward bm_trySet_def bm_delete_def bm_deleteValue_def bm_clear_def bm_getOrInsert_def bm_getOrInsertKey_def
      Let_def jhas_iff fun_eq_iff dom_def split: option.splits dest: bm_injD bm_NoneD)

lemma bm_inverse_ok: "bm_ok m \<Longrightarrow> bm_ok (bm_inverse m)"
  by (auto simp: bm_ok_def bm_inverse_def)

section \<open>A BidirectionalMultiMap is a relation\<close>

definition rel_of :: "('k, 'a jset) jmap \<Rightarrow> ('k \<times> 'a) set" where
  "rel_of m = {(k, x). x \<in> set (row m k)}"

definition rows_ok :: "('k, 'a jset) jmap \<Rightarrow> bool" where
  "rows_ok m \<longleftrightarrow> jwf m \<and> (\<forall>k s. jget m k = Some s \<longrightarrow> s \<noteq> [] \<and> distinct s)"

definition mm_ok :: "('l, 'r) multimap \<Rightarrow> bool" where
  "mm_ok m \<longleftrightarrow> rows_ok (mm_forward m) \<and> rows_ok (mm_reverse m) \<and> rel_of (mm_reverse m) = (rel_of (mm_forward m))\<inverse> \<and>
     mm_pairs m = int (card (rel_of (mm_forward m)))"

lemma rel_of_iff: "(k, x) \<in> rel_of m \<longleftrightarrow> (\<exists>s. jget m k = Some s \<and> x \<in> set s)"
  by (cases "jget m k") (simp_all add: rel_of_def row_def)

lemma finite_rel_of [simp]: "finite (rel_of m)"
proof -
  have "(k, x) \<in> rel_of m \<Longrightarrow> (k, x) \<in> (SIGMA k : dom (jget m). set (row m k))" for k x
    by (cases "jget m k") (auto simp: rel_of_def row_def)
  then show ?thesis by (intro finite_subset [of "rel_of m" "SIGMA k : dom (jget m). set (row m k)"]) auto
qed

lemma rows_ok_add: "rows_ok m \<Longrightarrow> rows_ok (jset m k (sadd (row m k) x))"
  by (auto simp: rows_ok_def row_def sadd_def split: option.splits)

lemma rel_of_add: "rel_of (jset m k (sadd (row m k) x)) = insert (k, x) (rel_of m)"
  by (auto simp: rel_of_iff row_def split: option.splits if_splits)

lemma rel_of_fresh: "jget m k = None \<Longrightarrow> rel_of (jset m k []) = rel_of m"
  by (auto simp: rel_of_iff split: if_splits)

lemma jset_jset: "jset (jset m k v) k w = jset m k w"
  by (induction m) (auto simp: jset_def)

lemma rows_ok_drop: "rows_ok m \<Longrightarrow> rows_ok (drop_from m k x)"
  by (auto simp: rows_ok_def drop_from_def Let_def split: option.splits if_splits)

lemma rel_of_drop: "rel_of (drop_from m k x) = rel_of m - {(k, x)}"
proof (cases "jget m k")
  case (Some s)
  have empty: "sdel s x = [] \<Longrightarrow> set s \<subseteq> {x}" using set_sdel [of s x] by auto
  show ?thesis
    using Some by (auto simp: drop_from_def rel_of_iff Let_def split: if_splits dest!: empty)
qed (auto simp: drop_from_def rel_of_iff)

lemma mm_add_alt:
  assumes "rows_ok (mm_forward m)"
  shows "mm_add l r m =
    (if r \<in> set (row (mm_forward m) l) then m
     else m\<lparr>mm_forward := jset (mm_forward m) l (sadd (row (mm_forward m) l) r),
            mm_reverse := jset (mm_reverse m) r (sadd (row (mm_reverse m) r) l), mm_pairs := mm_pairs m + 1\<rparr>)"
  by (auto simp: mm_add_def row_def Let_def jset_jset split: option.splits)

lemma mm_add_ok:
  assumes "mm_ok m"
  shows "mm_ok (mm_add l r m) \<and> rel_of (mm_forward (mm_add l r m)) = insert (l, r) (rel_of (mm_forward m))"
proof -
  have ok: "rows_ok (mm_forward m)" "rows_ok (mm_reverse m)" "rel_of (mm_reverse m) = (rel_of (mm_forward m))\<inverse>"
    "mm_pairs m = int (card (rel_of (mm_forward m)))" using assms by (simp_all add: mm_ok_def)
  show ?thesis
  proof (cases "r \<in> set (row (mm_forward m) l)")
    case True
    then show ?thesis using assms by (auto simp: mm_add_alt [OF ok(1)] rel_of_def)
  next
    case False
    then have "(l, r) \<notin> rel_of (mm_forward m)" by (simp add: rel_of_def)
    then show ?thesis using False ok by (auto simp: mm_add_alt [OF ok(1)] mm_ok_def rows_ok_add rel_of_add)
  qed
qed

lemma mm_delete_ok:
  assumes "mm_ok m"
  shows "mm_ok (snd (mm_delete l r m)) \<and> rel_of (mm_forward (snd (mm_delete l r m))) = rel_of (mm_forward m) - {(l, r)} \<and>
    fst (mm_delete l r m) = ((l, r) \<in> rel_of (mm_forward m))"
proof (cases "(l, r) \<in> rel_of (mm_forward m)")
  case True
  then have "0 < card (rel_of (mm_forward m))" by (auto simp: card_gt_0_iff)
  then show ?thesis using assms True
    by (auto simp: mm_delete_def mm_ok_def rows_ok_drop rel_of_drop rel_of_def [THEN eq_reflection, symmetric] row_def [symmetric]
        card_Diff_singleton of_nat_diff) (auto simp: rel_of_def)
next
  case False
  then show ?thesis using assms by (auto simp: mm_delete_def rel_of_def)
qed

text \<open>Dropping one element from a list of rows.\<close>

lemma rows_ok_drop_all: "rows_ok m \<Longrightarrow> rows_ok (foldl (\<lambda>m k. drop_from m k x) m ks)"
  by (induction ks arbitrary: m) (simp_all add: rows_ok_drop)

lemma rel_of_drop_all: "rel_of (foldl (\<lambda>m k. drop_from m k x) m ks) = rel_of m - {(k, y). k \<in> set ks \<and> y = x}"
  by (induction ks arbitrary: m) (auto simp: rel_of_drop)

lemma rows_ok_delete: "rows_ok m \<Longrightarrow> rows_ok (jdelete m k)"
  by (auto simp: rows_ok_def split: if_splits)

lemma rel_of_delete: "rel_of (jdelete m k) = rel_of m - {(j, x). j = k}"
  by (auto simp: rel_of_iff split: if_splits)

lemma card_row:
  assumes "rows_ok m" "jget m k = Some s"
  shows "int (card (rel_of m - {(j, x). j = k})) = int (card (rel_of m)) - int (length s)"
proof -
  have "rel_of m \<inter> {(j, x). j = k} = Pair k ` set s" using assms(2) by (auto simp: rel_of_iff)
  moreover have "card (Pair k ` set s) = length s"
    using assms by (simp add: card_image inj_on_def distinct_card rows_ok_def)
  ultimately have "card (rel_of m) = length s + card (rel_of m - {(j, x). j = k})"
    using card_Int_Diff [OF finite_rel_of, of m "{(j, x). j = k}"] by simp
  then show ?thesis by simp
qed

lemma mm_deleteLeft_ok:
  assumes "mm_ok m"
  shows "mm_ok (snd (mm_deleteLeft l m)) \<and> rel_of (mm_forward (snd (mm_deleteLeft l m))) = rel_of (mm_forward m) - {(j, x). j = l} \<and>
    fst (mm_deleteLeft l m) = (\<exists>r. (l, r) \<in> rel_of (mm_forward m))"
proof (cases "jget (mm_forward m) l")
  case None
  then have "\<nexists>r. (l, r) \<in> rel_of (mm_forward m)" by (simp add: rel_of_iff)
  then show ?thesis using None assms by (auto simp: mm_deleteLeft_def)
next
  case (Some s)
  have ok: "rows_ok (mm_forward m)" "rows_ok (mm_reverse m)" "rel_of (mm_reverse m) = (rel_of (mm_forward m))\<inverse>"
    "mm_pairs m = int (card (rel_of (mm_forward m)))" using assms by (simp_all add: mm_ok_def)
  have "s \<noteq> []" using ok(1) Some by (auto simp: rows_ok_def)
  then have ex: "\<exists>r. (l, r) \<in> rel_of (mm_forward m)" using Some by (cases s) (auto simp: rel_of_iff)
  have "rel_of (mm_reverse m) - {(k, y). k \<in> set s \<and> y = l} = (rel_of (mm_forward m) - {(j, x). j = l})\<inverse>"
    using ok(3) Some by (auto simp: rel_of_iff)
  then show ?thesis
    using Some ok ex card_row [OF ok(1) Some]
    by (simp add: mm_deleteLeft_def mm_ok_def rows_ok_delete rows_ok_drop_all rel_of_delete rel_of_drop_all)
qed

lemma mm_inverse_ok: "mm_ok m \<Longrightarrow> mm_ok (mm_inverse m)"
  by (auto simp: mm_ok_def mm_inverse_def)

lemma mm_deleteRight_inverse:
  "mm_deleteRight r m = (case mm_deleteLeft r (mm_inverse m) of (b, m') \<Rightarrow> (b, mm_inverse m'))"
  by (cases m) (simp add: mm_deleteRight_def mm_deleteLeft_def mm_inverse_def split: option.split)

lemma mm_deleteRight_ok:
  assumes "mm_ok m"
  shows "mm_ok (snd (mm_deleteRight r m)) \<and> rel_of (mm_forward (snd (mm_deleteRight r m))) = rel_of (mm_forward m) - {(x, j). j = r} \<and>
    fst (mm_deleteRight r m) = (\<exists>l. (l, r) \<in> rel_of (mm_forward m))"
proof -
  obtain b m' where d: "mm_deleteLeft r (mm_inverse m) = (b, m')" by (metis surj_pair)
  have inv: "rel_of (mm_forward (mm_inverse m)) = (rel_of (mm_forward m))\<inverse>" using assms by (simp add: mm_inverse_def mm_ok_def)
  from mm_deleteLeft_ok [OF mm_inverse_ok [OF assms], of r] d inv
  have m': "mm_ok m'" "rel_of (mm_forward m') = (rel_of (mm_forward m))\<inverse> - {(j, x). j = r}" "b = (\<exists>l. (l, r) \<in> rel_of (mm_forward m))"
    by simp_all
  have "rel_of (mm_forward (mm_inverse m')) = (rel_of (mm_forward m'))\<inverse>" using m'(1) by (simp add: mm_inverse_def mm_ok_def)
  then show ?thesis using m' mm_inverse_ok [OF m'(1)] by (auto simp: mm_deleteRight_inverse d)
qed

datatype ('l, 'r) mm_call = Mm_Add 'l 'r | Mm_Delete 'l 'r | Mm_DeleteLeft 'l | Mm_DeleteRight 'r | Mm_Clear

fun mm_apply :: "('l, 'r) mm_call \<Rightarrow> ('l, 'r) multimap \<Rightarrow> ('l, 'r) multimap" where
  "mm_apply (Mm_Add l r) m = mm_add l r m"
| "mm_apply (Mm_Delete l r) m = snd (mm_delete l r m)"
| "mm_apply (Mm_DeleteLeft l) m = snd (mm_deleteLeft l m)"
| "mm_apply (Mm_DeleteRight r) m = snd (mm_deleteRight r m)"
| "mm_apply Mm_Clear m = mm_clear m"

fun mm_spec :: "('l, 'r) mm_call \<Rightarrow> ('l \<times> 'r) set \<Rightarrow> ('l \<times> 'r) set" where
  "mm_spec (Mm_Add l r) R = insert (l, r) R"
| "mm_spec (Mm_Delete l r) R = R - {(l, r)}"
| "mm_spec (Mm_DeleteLeft l) R = {(x, y) \<in> R. x \<noteq> l}"
| "mm_spec (Mm_DeleteRight r) R = {(x, y) \<in> R. y \<noteq> r}"
| "mm_spec Mm_Clear R = {}"

lemma mm_apply_ok: "mm_ok m \<Longrightarrow> mm_ok (mm_apply c m) \<and> rel_of (mm_forward (mm_apply c m)) = mm_spec c (rel_of (mm_forward m))"
proof (cases c)
  case (Mm_DeleteLeft l)
  assume "mm_ok m"
  from mm_deleteLeft_ok [OF this, of l] Mm_DeleteLeft show ?thesis by auto
next
  case (Mm_DeleteRight r)
  assume "mm_ok m"
  from mm_deleteRight_ok [OF this, of r] Mm_DeleteRight show ?thesis by auto
next
  case Mm_Clear
  assume "mm_ok m"
  then show ?thesis using Mm_Clear by (auto simp: mm_clear_def mm_ok_def rows_ok_def rel_of_def row_def)
qed (simp_all add: mm_add_ok mm_delete_ok)

section \<open>Histories\<close>

text \<open>A container whose calls keep an invariant and commute with an abstraction refines its specification over every history.\<close>

locale container_refinement =
  fixes apply_call :: "'c \<Rightarrow> 's \<Rightarrow> 's" and spec_call :: "'c \<Rightarrow> 'a \<Rightarrow> 'a" and ok :: "'s \<Rightarrow> bool" and abs_of :: "'s \<Rightarrow> 'a" and s0 :: 's
  assumes start_ok: "ok s0"
    and call_ok: "ok s \<Longrightarrow> ok (apply_call c s)"
    and call_abs: "ok s \<Longrightarrow> abs_of (apply_call c s) = spec_call c (abs_of s)"
begin

lemma history: "ok (foldl (\<lambda>s c. apply_call c s) s0 cs) \<and>
  abs_of (foldl (\<lambda>s c. apply_call c s) s0 cs) = foldl (\<lambda>a c. spec_call c a) (abs_of s0) cs"
  by (induction cs rule: rev_induct) (simp_all add: start_ok call_ok call_abs)

end

interpretation bimaps: container_refinement bm_apply bm_spec bm_ok "\<lambda>m. jget (bm_forward m)" bm_empty
proof
  show "bm_ok bm_empty" by (simp add: bm_ok_def bm_empty_def)
qed (simp_all add: bm_apply_ok bm_apply_spec)

interpretation multimaps: container_refinement mm_apply mm_spec mm_ok "\<lambda>m. rel_of (mm_forward m)" mm_empty
proof
  show "mm_ok mm_empty" by (simp add: mm_ok_def mm_empty_def rows_ok_def rel_of_def row_def)
qed (simp_all add: mm_apply_ok)

lemma mm_entries_rel: "mm_ok m \<Longrightarrow> set (mm_entries m) = rel_of (mm_forward m) \<and> distinct (mm_entries m)"
proof -
  assume ok: "mm_ok m"
  then have wf: "jwf (mm_forward m)" and rows: "\<And>k s. (k, s) \<in> set (mm_forward m) \<Longrightarrow> distinct s"
    by (auto simp: mm_ok_def rows_ok_def jget_in_eq)
  have "set (mm_entries m) = rel_of (mm_forward m)"
  proof (rule set_eqI, clarify)
    fix l r
    have "(l, r) \<in> set (mm_entries m) \<longleftrightarrow> (\<exists>rs. (l, rs) \<in> set (mm_forward m) \<and> r \<in> set rs)"
      by (auto simp: mm_entries_def)
    then show "(l, r) \<in> set (mm_entries m) \<longleftrightarrow> (l, r) \<in> rel_of (mm_forward m)" by (simp add: jget_in_eq [OF wf] rel_of_iff)
  qed
  moreover have "distinct (concat (map (\<lambda>(l, rs). map (Pair l) rs) t))"
    if "distinct (map fst t)" "\<And>k s. (k, s) \<in> set t \<Longrightarrow> distinct s" for t :: "('a \<times> 'b list) list"
    using that
  proof (induction t)
    case (Cons e t)
    obtain l rs where e: "e = (l, rs)" by (cases e)
    have "distinct rs" using Cons.prems(2) e by auto
    moreover have "set (map (Pair l) rs) \<inter> set (concat (map (\<lambda>(l, rs). map (Pair l) rs) t)) = {}"
      using Cons.prems(1) e by force
    moreover have "distinct (concat (map (\<lambda>(l, rs). map (Pair l) rs) t))" using Cons by auto
    ultimately show ?case by (simp add: e distinct_map inj_on_def)
  qed simp
  ultimately show ?thesis using wf rows by (simp add: mm_entries_def jwf_def)
qed

text \<open>
  After any sequence of calls a BidirectionalMap is the injective map its specification gives and its two
  lookups are inverse to each other with as many values as keys; a BidirectionalMultiMap is the relation its
  specification gives, looked up from both sides, with its size the number of pairs and each pair
  iterated once.
\<close>

theorem bidirectional_containers_refine:
  fixes bcs :: "('k, 'v) bm_call list" and mcs :: "('l, 'r) mm_call list"
  shows "let b = foldl (\<lambda>s c. bm_apply c s) bm_empty bcs; f = foldl (\<lambda>a c. bm_spec c a) Map.empty bcs;
      m = foldl (\<lambda>s c. mm_apply c s) mm_empty mcs; R = foldl (\<lambda>a c. mm_spec c a) {} mcs
    in (\<forall>k. bm_get k b = f k) \<and> (\<forall>k v. (bm_get k b = Some v) = (bm_getKey v b = Some k)) \<and>
      length (bm_forward b) = length (bm_reverse b) \<and>
      (\<forall>l r. mm_has l r m = ((l, r) \<in> R)) \<and> (\<forall>l. set (mm_get l m) = R `` {l}) \<and> (\<forall>r. set (mm_getKeys r m) = R\<inverse> `` {r}) \<and>
      mm_pairs m = int (card R) \<and> set (mm_entries m) = R \<and> distinct (mm_entries m)"
proof -
  define b m where "b = foldl (\<lambda>s c. bm_apply c s) bm_empty bcs" and "m = foldl (\<lambda>s c. mm_apply c s) mm_empty mcs"
  define f R where "f = foldl (\<lambda>a c. bm_spec c a) Map.empty bcs" and "R = foldl (\<lambda>a c. mm_spec c a) {} mcs"
  have empty: "jget (bm_forward bm_empty) = (Map.empty :: 'k \<rightharpoonup> 'v)" by (simp add: bm_empty_def fun_eq_iff)
  have b: "bm_ok b" "jget (bm_forward b) = f"
    using bimaps.history [of bcs] by (simp_all add: b_def f_def empty)
  have m: "mm_ok m" "rel_of (mm_forward m) = R"
    using multimaps.history [of mcs] by (simp_all add: m_def R_def mm_empty_def rel_of_def row_def)
  have rev: "rel_of (mm_reverse m) = R\<inverse>" using m by (simp add: mm_ok_def)
  have sizes: "length (bm_forward b) = length (bm_reverse b)"
  proof -
    have "dom (jget (bm_reverse b)) = (\<lambda>k. the (jget (bm_forward b) k)) ` dom (jget (bm_forward b))"
    proof (rule set_eqI)
      fix v
      have "v \<in> dom (jget (bm_reverse b)) \<longleftrightarrow> (\<exists>k. jget (bm_forward b) k = Some v)"
        using bm_okD [OF b(1)] by (auto simp: dom_def)
      then show "v \<in> dom (jget (bm_reverse b)) \<longleftrightarrow> v \<in> (\<lambda>k. the (jget (bm_forward b) k)) ` dom (jget (bm_forward b))"
        by (auto simp: image_iff dom_def)
    qed
    moreover have "inj_on (\<lambda>k. the (jget (bm_forward b) k)) (dom (jget (bm_forward b)))"
      by (rule inj_onI) (metis bm_okD [OF b(1)] domD option.sel option.inject)
    ultimately show ?thesis using b(1) by (simp add: bm_ok_def jsize_card card_image)
  qed
  have rows: "r \<in> set (row (mm_forward m) l) \<longleftrightarrow> (l, r) \<in> R" "l \<in> set (row (mm_reverse m) r) \<longleftrightarrow> (l, r) \<in> R" for l r
    unfolding m(2) [symmetric] using rev [unfolded m(2) [symmetric]] by (auto simp: rel_of_def)
  have "mm_pairs m = int (card R)" using m by (simp add: mm_ok_def)
  then show ?thesis
    unfolding b_def [symmetric] m_def [symmetric] f_def [symmetric] R_def [symmetric] Let_def
    using b(2) sizes bm_okD [OF b(1)] mm_entries_rel [OF m(1)] m(2)
    by (auto simp: bm_get_def bm_getKey_def mm_has_def mm_get_def mm_getKeys_def rows)
qed

end
