(* ===== verification/Cbor.thy ===== *)
theory Cbor
  imports JS_Float JS_Text Bidirectional Crdt_Wire
begin

text \<open>
  The CBOR codec, \<^verbatim>\<open>src/src/serialization/CborCodec.ts\<close>. Values are trees, so the encoder's check for circular references
  never fires and is left out. Bytes are numbers below 256; the encoder returns the bytes it pushes and the decoder
  the bytes it has not read. The URL and RegExp constructors and the date parser of the host are arguments.
\<close>

section \<open>Values\<close>

datatype cval =
    CNull
  | CUndef
  | CBool bool
  | CNum dbl
  | CBig int
  | CStr jstr
  | CBytes "nat list"
  | CDate dbl
  | CBiMap "(cval \<times> cval) list"
  | CMulti "(cval \<times> cval list) list"
  | CMap "(cval \<times> cval) list"
  | CSet "cval list"
  | CView "jstr option" "nat list"
  | CRegExp jstr jstr
  | CUrl jstr
  | CErr jstr jstr "cval option" "cval list option"
  | CBoxed cval
  | CArr "cval list"
  | CObj "cval option" "(jstr \<times> cval) list"
  | CUnsupported

datatype cbor_error =
    Nesting | Bigint_Range | Unknown_View | Unsupported_Type
  | Unexpected_End | Truncated | Additional_Info | Simple_Value | String_Length | Non_String_Key
  | Map_Expected | Tag_Content nat | Generic_Content | Trailing_Bytes | Document_Size

type_synonym 'a cres = "cbor_error + 'a"

section \<open>Limits and tags\<close>

definition MAX_NESTING_DEPTH :: nat where
  "MAX_NESTING_DEPTH = 256"

definition MAX_BIGNUM_BYTES :: nat where
  "MAX_BIGNUM_BYTES = 1024"

definition MAX_BIGNUM_MAGNITUDE :: int where
  "MAX_BIGNUM_MAGNITUDE = 2 ^ (MAX_BIGNUM_BYTES * 8) - 1"

definition MAX_SAFE :: int where
  "MAX_SAFE = 9007199254740991"

definition TAG_DATETIME :: nat where "TAG_DATETIME = 0"

definition TAG_EPOCH_DATETIME :: nat where "TAG_EPOCH_DATETIME = 1"

definition TAG_UNSIGNED_BIGNUM :: nat where "TAG_UNSIGNED_BIGNUM = 2"

definition TAG_NEGATIVE_BIGNUM :: nat where "TAG_NEGATIVE_BIGNUM = 3"

definition TAG_GENERIC_OBJECT :: nat where "TAG_GENERIC_OBJECT = 27"

definition TAG_URI :: nat where "TAG_URI = 32"

definition TAG_SET :: nat where "TAG_SET = 258"

definition TAG_MAP :: nat where "TAG_MAP = 259"

text \<open>The typed arrays a name stands for and the bytes of an element; \<^verbatim>\<open>Float16Array\<close> only where the host has it.\<close>

definition TYPED_ARRAY_CONSTRUCTORS :: "bool \<Rightarrow> (jstr \<times> nat) list" where
  "TYPED_ARRAY_CONSTRUCTORS float16 =
     [(jlit ''Int8Array'', 1), (jlit ''Uint8ClampedArray'', 1), (jlit ''Int16Array'', 2), (jlit ''Uint16Array'', 2),
      (jlit ''Int32Array'', 4), (jlit ''Uint32Array'', 4), (jlit ''Float32Array'', 4), (jlit ''Float64Array'', 8),
      (jlit ''BigInt64Array'', 8), (jlit ''BigUint64Array'', 8)] @ (if float16 then [(jlit ''Float16Array'', 2)] else [])"

definition isBinaryKind :: "bool \<Rightarrow> jstr \<Rightarrow> bool" where
  "isBinaryKind float16 kind =
     (kind = jlit ''ArrayBuffer'' \<or> kind = jlit ''DataView'' \<or> jhas (TYPED_ARRAY_CONSTRUCTORS float16) kind)"

section \<open>The encoder\<close>

definition writeHeader :: "nat \<Rightarrow> nat \<Rightarrow> nat list" where
  "writeHeader major v =
     (let mj = major mod 8 * 32 in
      if v < 24 then [mj + v]
      else if v < 0x100 then [mj + 24, v]
      else if v < 0x10000 then (mj + 25) # be_bytes 2 v
      else if v < 0x100000000 then (mj + 26) # be_bytes 4 v
      else (mj + 27) # be_bytes 8 v)"

definition writeTag :: "nat \<Rightarrow> nat list" where
  "writeTag tag = writeHeader 6 tag"

definition writeSimple :: "nat \<Rightarrow> nat list" where
  "writeSimple v = [7 * 32 + v]"

definition writeDouble :: "dbl \<Rightarrow> nat list" where
  "writeDouble d = (7 * 32 + 27) # setFloat64 d"

definition writeInt :: "int \<Rightarrow> nat list" where
  "writeInt v = (if v \<ge> 0 then writeHeader 0 (nat v) else writeHeader 1 (nat (- v - 1)))"

function bigint_loop :: "int \<Rightarrow> nat list \<Rightarrow> nat list" where
  "bigint_loop v bytes = (if v \<le> 0 then bytes else bigint_loop (v div 256) (nat (v mod 256) # bytes))"
  by auto
termination by (relation "measure (\<lambda>(v, _). nat v)") auto

declare bigint_loop.simps [simp del]

definition bigIntToBytes :: "int \<Rightarrow> nat list" where
  "bigIntToBytes n = (if n = 0 then [0] else bigint_loop n [])"

definition writeBytes :: "nat list \<Rightarrow> nat list" where
  "writeBytes bs = writeHeader 2 (length bs) @ bs"

definition writeString :: "jstr \<Rightarrow> nat list" where
  "writeString s = (let bs = textEncode s in writeHeader 3 (length bs) @ bs)"

definition writeBigInt :: "int \<Rightarrow> nat list cres" where
  "writeBigInt v =
     (let magnitude = (if v \<ge> 0 then v else - v - 1) in
      if magnitude > MAX_BIGNUM_MAGNITUDE then Inl Bigint_Range
      else Inr (writeTag (if v \<ge> 0 then TAG_UNSIGNED_BIGNUM else TAG_NEGATIVE_BIGNUM) @ writeBytes (bigIntToBytes magnitude)))"

definition requireDepth :: "nat \<Rightarrow> nat list cres \<Rightarrow> nat list cres" where
  "requireDepth depth r = (if depth > MAX_NESTING_DEPTH then Inl Nesting else r)"

definition writeNumber :: "dbl \<Rightarrow> nat list" where
  "writeNumber d =
     (if d = neg_zero then writeDouble d
      else case dbl_int d of
        Some n \<Rightarrow> if \<bar>n\<bar> \<le> MAX_SAFE then writeInt n else writeDouble d
      | None \<Rightarrow> writeDouble d)"

definition generic_header :: "nat \<Rightarrow> string \<Rightarrow> nat list" where
  "generic_header k name = writeTag TAG_GENERIC_OBJECT @ writeHeader 4 k @ writeString (jlit name)"

text \<open>
  The loops over elements, entries and properties take the writers of the parts. \<open>write_seq\<close> is the loop over an array or
  set, \<open>write_pairs\<close> over a map, \<open>write_fields\<close> over the properties of an object; a writer takes the depth and whether a
  \<^verbatim>\<open>toJSON\<close> method is called.
\<close>

type_synonym writer = "nat \<Rightarrow> bool \<Rightarrow> nat list cres"

fun write_seq :: "writer list \<Rightarrow> nat \<Rightarrow> nat list cres" where
  "write_seq [] depth = Inr []"
| "write_seq (w # ws) depth = ebind (w depth True) (\<lambda>a. ebind (write_seq ws depth) (\<lambda>b. Inr (a @ b)))"

fun write_pairs :: "(writer \<times> writer) list \<Rightarrow> nat \<Rightarrow> nat list cres" where
  "write_pairs [] depth = Inr []"
| "write_pairs ((k, v) # es) depth =
     ebind (k depth True) (\<lambda>a. ebind (v depth True) (\<lambda>b. ebind (write_pairs es depth) (\<lambda>c. Inr (a @ b @ c))))"

fun write_fields :: "(jstr \<times> writer) list \<Rightarrow> nat \<Rightarrow> nat list cres" where
  "write_fields [] depth = Inr []"
| "write_fields ((k, v) # es) depth =
     ebind (v depth True) (\<lambda>b. ebind (write_fields es depth) (\<lambda>c. Inr (writeString k @ b @ c)))"

definition guarded :: "writer \<Rightarrow> writer" where
  "guarded w = (\<lambda>depth allowToJson. if depth > MAX_NESTING_DEPTH then Inl Nesting else w depth allowToJson)"

definition writeArray :: "writer list \<Rightarrow> nat \<Rightarrow> nat list cres" where
  "writeArray ws depth = ebind (write_seq ws (depth + 1)) (\<lambda>body. Inr (writeHeader 4 (length ws) @ body))"

definition writeMapBody :: "(writer \<times> writer) list \<Rightarrow> nat \<Rightarrow> nat list cres" where
  "writeMapBody es depth = ebind (write_pairs es (depth + 1)) (\<lambda>body. Inr (writeTag TAG_MAP @ writeHeader 5 (length es) @ body))"

definition writeSet :: "writer list \<Rightarrow> nat \<Rightarrow> nat list cres" where
  "writeSet ws depth =
     requireDepth (depth + 1) (ebind (write_seq ws (depth + 2)) (\<lambda>body. Inr (writeTag TAG_SET @ writeHeader 4 (length ws) @ body)))"

definition writeBidirectionalMap :: "(writer \<times> writer) list \<Rightarrow> nat \<Rightarrow> nat list cres" where
  "writeBidirectionalMap es depth =
     requireDepth (depth + 2) (ebind (writeMapBody es (depth + 2)) (\<lambda>body. Inr (generic_header 2 ''BidirectionalMap'' @ body)))"

text \<open>A row of a multimap is written as its key and the set of its partners.\<close>

definition writeBidirectionalMultiMap :: "(writer \<times> writer list) list \<Rightarrow> nat \<Rightarrow> nat list cres" where
  "writeBidirectionalMultiMap rows depth =
     requireDepth (depth + 2)
       (ebind (writeMapBody (map (\<lambda>(l, rs). (l, guarded (\<lambda>d _. writeSet rs d))) rows) (depth + 2))
         (\<lambda>body. Inr (generic_header 2 ''BidirectionalMultiMap'' @ body)))"

definition writeBinaryView :: "jstr option \<Rightarrow> nat list \<Rightarrow> nat \<Rightarrow> nat list cres" where
  "writeBinaryView kind bs depth =
     (case kind of
        None \<Rightarrow> Inl Unknown_View
      | Some name \<Rightarrow> requireDepth (depth + 2)
          (Inr (writeTag TAG_GENERIC_OBJECT @ writeHeader 4 2 @ writeString name @ writeBytes bs)))"

definition writeRegExp :: "jstr \<Rightarrow> jstr \<Rightarrow> nat \<Rightarrow> nat list cres" where
  "writeRegExp source flags depth =
     requireDepth (depth + 2) (Inr (generic_header 3 ''RegExp'' @ writeString source @ writeString flags))"

definition write_optional :: "string \<Rightarrow> writer option \<Rightarrow> nat \<Rightarrow> nat list cres" where
  "write_optional name w depth =
     (case w of None \<Rightarrow> Inr [] | Some f \<Rightarrow> ebind (f depth True) (\<lambda>bs. Inr (writeString (jlit name) @ bs)))"

definition writeError :: "jstr \<Rightarrow> jstr \<Rightarrow> writer option \<Rightarrow> writer option \<Rightarrow> nat \<Rightarrow> nat list cres" where
  "writeError name message cause errors depth =
     requireDepth (depth + 3)
       (ebind (write_optional ''cause'' cause (depth + 3)) (\<lambda>causeBytes.
        ebind (write_optional ''errors'' errors (depth + 3)) (\<lambda>errorsBytes.
        Inr (generic_header 2 ''Error'' @
             writeHeader 5 (2 + (if cause \<noteq> None then 1 else 0) + (if errors \<noteq> None then 1 else 0)) @
             writeString (jlit ''name'') @ writeString name @ writeString (jlit ''message'') @ writeString message @
             causeBytes @ errorsBytes))))"

definition writeObject :: "writer option \<Rightarrow> (jstr \<times> writer) list \<Rightarrow> nat \<Rightarrow> bool \<Rightarrow> nat list cres" where
  "writeObject toJson es depth allowToJson =
     (case (allowToJson, toJson) of
        (True, Some w) \<Rightarrow> w depth False
      | _ \<Rightarrow> ebind (write_fields es (depth + 1)) (\<lambda>body. Inr (writeHeader 5 (length es) @ body)))"

primrec writeValue :: "cval \<Rightarrow> writer" where
  "writeValue CNull = guarded (\<lambda>depth _. Inr (writeSimple 22))"
| "writeValue CUndef = guarded (\<lambda>depth _. Inr (writeSimple 23))"
| "writeValue (CBool b) = guarded (\<lambda>depth _. Inr (writeSimple (if b then 21 else 20)))"
| "writeValue (CNum d) = guarded (\<lambda>depth _. Inr (writeNumber d))"
| "writeValue (CBig n) = guarded (\<lambda>depth _. requireDepth (depth + 1) (writeBigInt n))"
| "writeValue (CStr s) = guarded (\<lambda>depth _. Inr (writeString s))"
| "writeValue (CBytes bs) = guarded (\<lambda>depth _. Inr (writeBytes bs))"
| "writeValue (CDate ms) = guarded (\<lambda>depth _.
     requireDepth (depth + 1) (Inr (writeTag TAG_EPOCH_DATETIME @ writeDouble (dbl_div ms (dbl_of_int 1000)))))"
| "writeValue (CBiMap es) = guarded (\<lambda>depth _. writeBidirectionalMap (map (map_prod writeValue writeValue) es) depth)"
| "writeValue (CMulti rows) = guarded (\<lambda>depth _. writeBidirectionalMultiMap (map (map_prod writeValue (map writeValue)) rows) depth)"
| "writeValue (CMap es) = guarded (\<lambda>depth _. writeMapBody (map (map_prod writeValue writeValue) es) depth)"
| "writeValue (CSet xs) = guarded (\<lambda>depth _. writeSet (map writeValue xs) depth)"
| "writeValue (CView kind bs) = guarded (\<lambda>depth _. writeBinaryView kind bs depth)"
| "writeValue (CRegExp source flags) = guarded (\<lambda>depth _. writeRegExp source flags depth)"
| "writeValue (CUrl href) = guarded (\<lambda>depth _. requireDepth (depth + 1) (Inr (writeTag TAG_URI @ writeString href)))"
| "writeValue (CErr name message cause errors) = guarded (\<lambda>depth _.
     writeError name message
       (if cause = Some CUndef then None else map_option writeValue cause)
       (map_option (\<lambda>ws. guarded (\<lambda>d _. writeArray ws d)) (map_option (map writeValue) errors)) depth)"
| "writeValue (CBoxed w) = guarded (\<lambda>depth _. writeValue w depth False)"
| "writeValue (CArr xs) = guarded (\<lambda>depth _. writeArray (map writeValue xs) depth)"
| "writeValue (CObj toJson es) = guarded (\<lambda>depth allowToJson.
     writeObject (map_option writeValue toJson) (map (map_prod id writeValue) es) depth allowToJson)"
| "writeValue CUnsupported = guarded (\<lambda>depth _. Inl Unsupported_Type)"

definition cbor_encode :: "cval \<Rightarrow> nat list cres" where
  "cbor_encode v = writeValue v 0 True"

section \<open>Building values\<close>

text \<open>
  Maps and sets compare primitives by value, with the two zeros equal, and objects by identity. Every object a decoder
  builds is new, so an object is told apart by its place in the input.
\<close>

datatype cref = Prim cval | Obj "nat \<times> nat" cval

definition is_primitive :: "cval \<Rightarrow> bool" where
  "is_primitive v = (case v of CNull \<Rightarrow> True | CUndef \<Rightarrow> True | CBool _ \<Rightarrow> True | CNum _ \<Rightarrow> True | CBig _ \<Rightarrow> True | CStr _ \<Rightarrow> True | _ \<Rightarrow> False)"

definition ref_of :: "nat \<times> nat \<Rightarrow> cval \<Rightarrow> cref" where
  "ref_of i v = (if is_primitive v then Prim (if v = CNum neg_zero then CNum (Dbl False 0 0) else v) else Obj i v)"

fun deref :: "cref \<Rightarrow> cval" where
  "deref (Prim v) = v"
| "deref (Obj i v) = v"

definition build_map :: "(cval \<times> cval) list \<Rightarrow> (cval \<times> cval) list" where
  "build_map ps =
     map (\<lambda>(k, v). (deref k, v)) (foldl (\<lambda>m (i, k, v). jset m (ref_of (i, 0) k) v) [] (enumerate 0 ps))"

definition build_set :: "cval list \<Rightarrow> cval list" where
  "build_set xs = map deref (sof (map (\<lambda>(i, x). ref_of (i, 0) x) (enumerate 0 xs)))"

text \<open>A BidirectionalMap from the entries of a map: an entry whose value is bound again later is dropped.\<close>

definition build_bimap :: "(cval \<times> cval) list \<Rightarrow> (cval \<times> cval) list" where
  "build_bimap es =
     (let m = bm_new (map (\<lambda>(i, k, v). (ref_of (i, 0) k, ref_of (i, 1) v)) (enumerate 0 es))
      in map snd (filter (\<lambda>(i, k, v). jhas (bm_forward m) (ref_of (i, 0) k)) (enumerate 0 es)))"

definition build_multi :: "(cval \<times> cval list) list \<Rightarrow> (cval \<times> cval list) list" where
  "build_multi rows =
     map (\<lambda>(l, rs). (deref l, map deref rs))
       (mm_forward (mm_new (concat (map (\<lambda>(i, l, rs). map (\<lambda>(j, r). (ref_of (i, 0) l, ref_of (i, j + 1) r)) (enumerate 0 rs))
         (enumerate 0 rows)))))"

text \<open>The own properties of an object: array indices in ascending order, then the other keys as they were added.\<close>

definition unit_digits :: "jstr \<Rightarrow> nat" where
  "unit_digits s = foldl (\<lambda>n u. 10 * n + (u - 48)) 0 s"

definition index_key :: "jstr \<Rightarrow> bool" where
  "index_key s = (s \<noteq> [] \<and> list_all (\<lambda>u. 48 \<le> u \<and> u \<le> 57) s \<and> (hd s = 48 \<longrightarrow> length s = 1) \<and> unit_digits s < 2 ^ 32 - 1)"

definition property_order :: "(jstr \<times> 'a) list \<Rightarrow> (jstr \<times> 'a) list" where
  "property_order es = sort_key (\<lambda>(k, v). unit_digits k) (filter (\<lambda>(k, v). index_key k) es) @ filter (\<lambda>(k, v). \<not> index_key k) es"

definition build_object :: "(jstr \<times> cval) list \<Rightarrow> (jstr \<times> cval) list" where
  "build_object es = property_order (foldl (\<lambda>o' (k, v). jset o' k v) [] es)"

section \<open>The decoder\<close>

record cbor_host =
  h_parseDate :: "jstr \<Rightarrow> dbl"
  h_parseUrl :: "jstr \<Rightarrow> jstr option"
  h_regExp :: "jstr \<Rightarrow> jstr \<Rightarrow> (jstr \<times> jstr) option"
  h_float16 :: bool

record read_constraints =
  maxNestingDepth :: nat
  maxDocumentBytes :: nat
  maxStringLength :: nat

definition defaultReadConstraintsOptions :: read_constraints where
  "defaultReadConstraintsOptions = \<lparr>maxNestingDepth = MAX_NESTING_DEPTH, maxDocumentBytes = 0, maxStringLength = 20 * 1024 * 1024\<rparr>"

definition readUint :: "nat \<Rightarrow> nat list \<Rightarrow> (nat \<times> nat list) cres" where
  "readUint byteLen bs = (if byteLen > length bs then Inl Truncated else Inr (be_value (take byteLen bs), drop byteLen bs))"

definition readLength :: "nat \<Rightarrow> nat list \<Rightarrow> (nat \<times> nat list) cres" where
  "readLength add bs =
     (if add < 24 then Inr (add, bs)
      else if add = 24 then readUint 1 bs
      else if add = 25 then readUint 2 bs
      else if add = 26 then readUint 4 bs
      else if add = 27 then readUint 8 bs
      else Inl Additional_Info)"

text \<open>\<^verbatim>\<open>Number(len)\<close>: a bigint is rounded to 53 significant bits.\<close>

definition js_Number :: "nat \<Rightarrow> nat" where
  "js_Number n =
     (if int n \<le> MAX_SAFE then n
      else (let k = log2 n - 52 in round_half_even (of_nat n / 2 ^ k) * 2 ^ k))"

definition readBytes :: "nat \<Rightarrow> nat list \<Rightarrow> (nat list \<times> nat list) cres" where
  "readBytes k bs = (if k > length bs then Inl Truncated else Inr (take k bs, drop k bs))"

definition requireStringLength :: "read_constraints \<Rightarrow> nat \<Rightarrow> nat cres" where
  "requireStringLength c k = (if maxStringLength c > 0 \<and> k > maxStringLength c then Inl String_Length else Inr k)"

definition readHalfFloat :: "nat list \<Rightarrow> (cval \<times> nat list) cres" where
  "readHalfFloat bs =
     (if 2 > length bs then Inl Truncated
      else
        (let (s, e, m) = float_fields 5 10 (be_value (take 2 bs)) in
         Inr (CNum (if e = 0 then dbl_make s m (- 24)
                    else if e = 31 then (if m \<noteq> 0 then DNaN else dbl_inf s)
                    else dbl_make s (1024 + m) (int e - 25)), drop 2 bs)))"

definition readSimple :: "nat \<Rightarrow> nat list \<Rightarrow> (cval \<times> nat list) cres" where
  "readSimple add bs =
     (if add = 20 then Inr (CBool False, bs)
      else if add = 21 then Inr (CBool True, bs)
      else if add = 22 then Inr (CNull, bs)
      else if add = 23 then Inr (CUndef, bs)
      else if add = 25 then readHalfFloat bs
      else if add = 26 then (if 4 > length bs then Inl Truncated else Inr (CNum (getFloat32 (take 4 bs)), drop 4 bs))
      else if add = 27 then (if 8 > length bs then Inl Truncated else Inr (CNum (getFloat64 (take 8 bs)), drop 8 bs))
      else Inl Simple_Value)"

definition bytesToBigInt :: "nat list \<Rightarrow> int" where
  "bytesToBigInt bs = int (be_value bs)"

text \<open>The time a \<^verbatim>\<open>Date\<close> takes from a number: whole milliseconds, not a number outside its range.\<close>

definition time_clip :: "dbl \<Rightarrow> dbl" where
  "time_clip d =
     (if \<not> dbl_isFinite d \<or> dbl_abs d > 8640000000000000 then DNaN
      else dbl_of_int ((if dbl_sign d then -1 else 1) * \<lfloor>dbl_abs d\<rfloor>))"

definition applyTag :: "cbor_host \<Rightarrow> nat \<Rightarrow> cval \<Rightarrow> cval cres" where
  "applyTag h tag inner =
     (if tag = TAG_DATETIME then (case inner of CStr s \<Rightarrow> Inr (CDate (h_parseDate h s)) | _ \<Rightarrow> Inl (Tag_Content tag))
      else if tag = TAG_EPOCH_DATETIME then
        (case inner of CNum d \<Rightarrow> Inr (CDate (time_clip (dbl_mult d (dbl_of_int 1000)))) | _ \<Rightarrow> Inl (Tag_Content tag))
      else if tag = TAG_UNSIGNED_BIGNUM \<or> tag = TAG_NEGATIVE_BIGNUM then
        (case inner of
           CBytes bs \<Rightarrow>
             if length bs > MAX_BIGNUM_BYTES then Inl (Tag_Content tag)
             else Inr (CBig (if tag = TAG_UNSIGNED_BIGNUM then bytesToBigInt bs else - 1 - bytesToBigInt bs))
         | _ \<Rightarrow> Inl (Tag_Content tag))
      else if tag = TAG_URI then
        (case inner of
           CStr s \<Rightarrow> (case h_parseUrl h s of Some href \<Rightarrow> Inr (CUrl href) | None \<Rightarrow> Inl (Tag_Content tag))
         | _ \<Rightarrow> Inl (Tag_Content tag))
      else if tag = TAG_SET then (case inner of CArr xs \<Rightarrow> Inr (CSet (build_set xs)) | _ \<Rightarrow> Inl (Tag_Content tag))
      else Inr inner)"

text \<open>A missing argument reads as undefined.\<close>

definition arg :: "cval list \<Rightarrow> nat \<Rightarrow> cval" where
  "arg args i = (if i < length args then args ! i else CUndef)"

definition buildBidirectionalMap :: "cval list \<Rightarrow> cval cres" where
  "buildBidirectionalMap args = (case arg args 0 of CMap es \<Rightarrow> Inr (CBiMap (build_bimap es)) | _ \<Rightarrow> Inl Generic_Content)"

definition set_members :: "cval \<Rightarrow> cval list option" where
  "set_members v = (case v of CSet xs \<Rightarrow> Some xs | _ \<Rightarrow> None)"

definition buildBidirectionalMultiMap :: "cval list \<Rightarrow> cval cres" where
  "buildBidirectionalMultiMap args =
     (case arg args 0 of
        CMap es \<Rightarrow>
          if list_all (\<lambda>(l, p). set_members p \<noteq> None) es
          then Inr (CMulti (build_multi (map (\<lambda>(l, p). (l, the (set_members p))) es)))
          else Inl Generic_Content
      | _ \<Rightarrow> Inl Generic_Content)"

definition rebuildBinaryView :: "bool \<Rightarrow> jstr \<Rightarrow> nat list \<Rightarrow> cval option" where
  "rebuildBinaryView float16 kind bs =
     (if kind = jlit ''ArrayBuffer'' \<or> kind = jlit ''DataView'' then Some (CView (Some kind) bs)
      else case jget (TYPED_ARRAY_CONSTRUCTORS float16) kind of
        Some w \<Rightarrow> if length bs mod w \<noteq> 0 then None else Some (CView (Some kind) bs)
      | None \<Rightarrow> None)"

definition buildBinaryView :: "cbor_host \<Rightarrow> jstr \<Rightarrow> cval list \<Rightarrow> cval cres" where
  "buildBinaryView h kind args =
     (case arg args 0 of
        CBytes bs \<Rightarrow> (case rebuildBinaryView (h_float16 h) kind bs of Some v \<Rightarrow> Inr v | None \<Rightarrow> Inl Generic_Content)
      | _ \<Rightarrow> Inl Generic_Content)"

definition buildRegExp :: "cbor_host \<Rightarrow> cval list \<Rightarrow> cval cres" where
  "buildRegExp h args =
     (case (arg args 0, arg args 1) of
        (CStr source, CStr flags) \<Rightarrow>
          (case h_regExp h source flags of Some (s, f) \<Rightarrow> Inr (CRegExp s f) | None \<Rightarrow> Inl Generic_Content)
      | _ \<Rightarrow> Inl Generic_Content)"

text \<open>The properties of an error payload: those of a plain object, or of an error in its place.\<close>

definition payload_field :: "cval \<Rightarrow> string \<Rightarrow> cval option" where
  "payload_field p name =
     (case p of
        CObj _ es \<Rightarrow> jget es (jlit name)
      | CErr n m cause errors \<Rightarrow>
          (if name = ''name'' then Some (CStr n) else if name = ''message'' then Some (CStr m)
           else if name = ''cause'' then cause else if name = ''errors'' then map_option CArr errors else None)
      | _ \<Rightarrow> None)"

definition rebuildError :: "jstr \<Rightarrow> jstr \<Rightarrow> cval list option \<Rightarrow> cval option \<Rightarrow> cval" where
  "rebuildError name message errors cause =
     CErr name message cause (if name = jlit ''AggregateError'' then errors else None)"

definition buildError :: "cval list \<Rightarrow> cval cres" where
  "buildError args =
     (case (payload_field (arg args 0) ''name'', payload_field (arg args 0) ''message'') of
        (Some (CStr name), Some (CStr message)) \<Rightarrow>
          Inr (rebuildError name message
            (case payload_field (arg args 0) ''errors'' of Some (CArr xs) \<Rightarrow> Some xs | _ \<Rightarrow> None)
            (payload_field (arg args 0) ''cause''))
      | _ \<Rightarrow> Inl Generic_Content)"

definition readGenericObject :: "cbor_host \<Rightarrow> cval \<Rightarrow> cval cres" where
  "readGenericObject h inner =
     (case inner of
        CArr (CStr name # args) \<Rightarrow>
          if name = jlit ''BidirectionalMap'' then buildBidirectionalMap args
          else if name = jlit ''BidirectionalMultiMap'' then buildBidirectionalMultiMap args
          else if name = jlit ''RegExp'' then buildRegExp h args
          else if name = jlit ''Error'' then buildError args
          else if isBinaryKind (h_float16 h) name then buildBinaryView h name args
          else Inr inner
      | _ \<Rightarrow> Inl Generic_Content)"

text \<open>The loops of the decoder take the reader of the next level.\<close>

type_synonym reader = "nat list \<Rightarrow> (cval \<times> nat list) cres"

function read_items :: "reader \<Rightarrow> nat \<Rightarrow> nat list \<Rightarrow> (cval list \<times> nat list) cres" where
  "read_items rd k bs =
     (if k = 0 then Inr ([], bs)
      else ebind (rd bs) (\<lambda>(x, r). ebind (read_items rd (k - 1) r) (\<lambda>(xs, r'). Inr (x # xs, r'))))"
  by auto
termination by (relation "measure (\<lambda>(_, k, _). k)") auto

function read_pairs :: "reader \<Rightarrow> nat \<Rightarrow> nat list \<Rightarrow> ((cval \<times> cval) list \<times> nat list) cres" where
  "read_pairs rd k bs =
     (if k = 0 then Inr ([], bs)
      else ebind (rd bs) (\<lambda>(key, r). ebind (rd r) (\<lambda>(v, r'). ebind (read_pairs rd (k - 1) r') (\<lambda>(es, r''). Inr ((key, v) # es, r'')))))"
  by auto
termination by (relation "measure (\<lambda>(_, k, _). k)") auto

function read_fields :: "reader \<Rightarrow> nat \<Rightarrow> nat list \<Rightarrow> ((jstr \<times> cval) list \<times> nat list) cres" where
  "read_fields rd k bs =
     (if k = 0 then Inr ([], bs)
      else ebind (rd bs) (\<lambda>(key, r). ebind (rd r) (\<lambda>(v, r').
        case key of
          CStr name \<Rightarrow> ebind (read_fields rd (k - 1) r') (\<lambda>(es, r''). Inr ((name, v) # es, r''))
        | _ \<Rightarrow> Inl Non_String_Key)))"
  by auto
termination by (relation "measure (\<lambda>(_, k, _). k)") auto

declare read_items.simps [simp del] read_pairs.simps [simp del] read_fields.simps [simp del]

definition readEntryPairs :: "reader \<Rightarrow> nat list \<Rightarrow> ((cval \<times> cval) list \<times> nat list) cres" where
  "readEntryPairs rd bs =
     (case bs of
        [] \<Rightarrow> Inl Unexpected_End
      | ib # r \<Rightarrow>
          if ib div 32 mod 8 \<noteq> 5 then Inl Map_Expected
          else ebind (readLength (ib mod 32) r) (\<lambda>(len, r1). read_pairs rd (js_Number len) r1))"

definition readTagged :: "cbor_host \<Rightarrow> reader \<Rightarrow> nat \<Rightarrow> nat list \<Rightarrow> (cval \<times> nat list) cres" where
  "readTagged h rd tag bs =
     (if tag = TAG_MAP then ebind (readEntryPairs rd bs) (\<lambda>(ps, r). Inr (CMap (build_map ps), r))
      else ebind (rd bs) (\<lambda>(inner, r).
        ebind (if tag = TAG_GENERIC_OBJECT then readGenericObject h inner else applyTag h tag inner) (\<lambda>v. Inr (v, r))))"

text \<open>The switch on the major type, after the length was read.\<close>

definition readMajor :: "cbor_host \<Rightarrow> read_constraints \<Rightarrow> reader \<Rightarrow> nat \<Rightarrow> nat \<Rightarrow> nat list \<Rightarrow> (cval \<times> nat list) cres" where
  "readMajor h c rd major len r =
     (if major = 0 then Inr (if int len > MAX_SAFE then CBig (int len) else CNum (dbl_of_int (int len)), r)
      else if major = 1 then Inr (if int len > MAX_SAFE then CBig (- int len - 1) else CNum (dbl_of_int (- int len - 1)), r)
      else if major = 2 then
        ebind (requireStringLength c (js_Number len)) (\<lambda>k. ebind (readBytes k r) (\<lambda>(b, r2). Inr (CBytes b, r2)))
      else if major = 3 then
        ebind (requireStringLength c (js_Number len)) (\<lambda>k. ebind (readBytes k r) (\<lambda>(b, r2). Inr (CStr (textDecode b), r2)))
      else if major = 4 then ebind (read_items rd (js_Number len) r) (\<lambda>(xs, r2). Inr (CArr xs, r2))
      else if major = 5 then ebind (read_fields rd (js_Number len) r) (\<lambda>(es, r2). Inr (CObj None (build_object es), r2))
      else readTagged h rd (js_Number len) r)"

text \<open>
  The first argument is what is left of the nesting depth: \<open>maxNestingDepth + 1 - depth\<close>. A depth above the limit is
  the argument zero.
\<close>

primrec readValue :: "nat \<Rightarrow> cbor_host \<Rightarrow> read_constraints \<Rightarrow> reader" where
  "readValue 0 h c = (\<lambda>bs. Inl Nesting)"
| "readValue (Suc left) h c = (\<lambda>bs.
     case bs of
       [] \<Rightarrow> Inl Unexpected_End
     | ib # r \<Rightarrow>
         (let major = ib div 32 mod 8; add = ib mod 32 in
          if major = 7 then readSimple add r
          else ebind (readLength add r) (\<lambda>(len, r1). readMajor h c (readValue left h c) major len r1)))"

definition cbor_decode :: "cbor_host \<Rightarrow> read_constraints \<Rightarrow> nat list \<Rightarrow> cval cres" where
  "cbor_decode h c bs =
     ebind (readValue (maxNestingDepth c + 1) h c bs) (\<lambda>(v, r). if r \<noteq> [] then Inl Trailing_Bytes else Inr v)"

definition toBinary :: "cval \<Rightarrow> nat list cres" where
  "toBinary v = cbor_encode v"

definition fromBinary :: "cbor_host \<Rightarrow> read_constraints \<Rightarrow> nat list \<Rightarrow> cval cres" where
  "fromBinary h c bs =
     (if maxDocumentBytes c > 0 \<and> length bs > maxDocumentBytes c then Inl Document_Size else cbor_decode h c bs)"

end
