(* ===== verification/Cbor_Roundtrip.thy ===== *)
theory Cbor_Roundtrip
  imports Cbor
begin

text \<open>
  What the encoder writes the decoder reads back. \<open>reads v\<close> says that the bytes of \<open>v\<close>, written at some depth, are read
  at that depth as \<open>v\<close> and nothing beyond them is touched; it is proved for every well-formed value by
  induction, from one lemma per header, loop and builder.
\<close>

section \<open>Headers\<close>

lemma header_read:
  assumes "major < 8" "v < 2 ^ 64"
  shows "\<exists>ib lb. writeHeader major v = ib # lb \<and> ib div 32 mod 8 = major \<and> ib < 256 \<and>
    (\<forall>rest. readLength (ib mod 32) (lb @ rest) = Inr (v, rest))"
proof -
  have ib: "(major * 32 + a) div 32 mod 8 = major" "(major * 32 + a) mod 32 = a" "major * 32 + a < 256" if "a < 32" for a
    using assms(1) that by auto
  have uint: "readUint k (be_bytes k v @ rest) = Inr (v, rest)" if "v < 256 ^ k" for k rest
    using that be_value_bytes [of k v] by (simp add: readUint_def)
  have mj: "major mod 8 = major" using assms(1) by simp
  consider "v < 24" | "24 \<le> v" "v < 0x100" | "0x100 \<le> v" "v < 0x10000" | "0x10000 \<le> v" "v < 0x100000000" | "0x100000000 \<le> v"
    by linarith
  then show ?thesis
  proof cases
    case 1
    then show ?thesis using ib [of v] by (simp add: writeHeader_def mj readLength_def)
  next
    case 2
    then have "be_bytes 1 v = [v]" by simp
    then show ?thesis using 2 ib [of 24] uint [of 1] by (simp add: writeHeader_def mj readLength_def)
  next
    case 3
    then show ?thesis using ib [of 25] uint [of 2] by (simp add: writeHeader_def mj readLength_def del: be_bytes.simps)
  next
    case 4
    then show ?thesis using ib [of 26] uint [of 4] by (simp add: writeHeader_def mj readLength_def del: be_bytes.simps)
  next
    case 5
    then show ?thesis using assms(2) ib [of 27] uint [of 8] by (simp add: writeHeader_def mj readLength_def del: be_bytes.simps)
  qed
qed

lemma readValue_header:
  assumes "major < 7" "v < 2 ^ 64" "depth \<le> 256"
  shows "readValue (257 - depth) h c (writeHeader major v @ rest) = readMajor h c (readValue (256 - depth) h c) major v rest"
proof -
  obtain ib lb where ib: "writeHeader major v = ib # lb" "ib div 32 mod 8 = major"
    "\<And>rest. readLength (ib mod 32) (lb @ rest) = Inr (v, rest)"
    using header_read [of major v] assms(1,2) by auto
  have "257 - depth = Suc (256 - depth)" using assms(3) by simp
  then show ?thesis using ib assms(1) by simp
qed

lemma js_Number_safe: "int v \<le> MAX_SAFE \<Longrightarrow> js_Number v = v"
  by (simp add: js_Number_def)

lemma safe_64: "int v \<le> MAX_SAFE \<Longrightarrow> v < 2 ^ 64"
  by (simp add: MAX_SAFE_def)

lemma readValue_double: "dbl_ok d \<Longrightarrow> depth \<le> 256 \<Longrightarrow> readValue (257 - depth) h c (writeDouble d @ rest) = Inr (CNum d, rest)"
  using Suc_diff_le [of depth 256] by (simp add: writeDouble_def readSimple_def getFloat64_setFloat64)

lemma readValue_simple:
  "depth \<le> 256 \<Longrightarrow> s \<in> {20, 21, 22, 23} \<Longrightarrow> readValue (257 - depth) h c (writeSimple s @ rest) =
     Inr (if s = 20 then CBool False else if s = 21 then CBool True else if s = 22 then CNull else CUndef, rest)"
  using Suc_diff_le [of depth 256] by (auto simp: writeSimple_def readSimple_def)

lemma readValue_number:
  assumes "dbl_ok d" "depth \<le> 256"
  shows "readValue (257 - depth) h c (writeNumber d @ rest) = Inr (CNum d, rest)"
proof (cases "d \<noteq> neg_zero \<and> (\<exists>n. dbl_int d = Some n \<and> \<bar>n\<bar> \<le> MAX_SAFE)")
  case True
  then obtain n where n: "d \<noteq> neg_zero" "dbl_int d = Some n" "\<bar>n\<bar> \<le> MAX_SAFE" by auto
  then have d: "dbl_of_int n = d" using dbl_of_int_int [OF assms(1)] by (simp add: MAX_SAFE_def)
  have w: "writeNumber d = writeInt n" using n by (simp add: writeNumber_def)
  show ?thesis
  proof (cases "n \<ge> 0")
    case True
    then have "nat n < 2 ^ 64" using n(3) by (simp add: MAX_SAFE_def)
    from readValue_header [OF _ this assms(2), of 0 h c rest] show ?thesis
      unfolding w writeInt_def using True n(3) d by (simp add: readMajor_def)
  next
    case False
    then have "nat (- n - 1) < 2 ^ 64" using n(3) by (simp add: MAX_SAFE_def)
    from readValue_header [OF _ this assms(2), of 1 h c rest] show ?thesis
      unfolding w writeInt_def using False n(3) d by (simp add: readMajor_def)
  qed
next
  case False
  then have "writeNumber d = writeDouble d" by (auto simp: writeNumber_def split: option.split)
  then show ?thesis using readValue_double [OF assms] by simp
qed

section \<open>Strings, byte strings, bigints\<close>

definition length_ok :: "read_constraints \<Rightarrow> nat \<Rightarrow> bool" where
  "length_ok c k \<longleftrightarrow> int k \<le> MAX_SAFE \<and> (maxStringLength c = 0 \<or> k \<le> maxStringLength c)"

lemma length_okD: "length_ok c k \<Longrightarrow> int k \<le> MAX_SAFE \<and> requireStringLength c k = Inr k"
  by (auto simp: length_ok_def requireStringLength_def)

definition text_ok :: "read_constraints \<Rightarrow> jstr \<Rightarrow> bool" where
  "text_ok c s \<longleftrightarrow> utf16_ok s \<and> (s = [] \<or> hd s \<noteq> 0xFEFF) \<and> length_ok c (length (textEncode s))"

lemma readValue_string:
  assumes "text_ok c s" "depth \<le> 256"
  shows "readValue (257 - depth) h c (writeString s @ rest) = Inr (CStr s, rest)"
proof -
  have l: "int (length (textEncode s)) \<le> MAX_SAFE" "requireStringLength c (length (textEncode s)) = Inr (length (textEncode s))"
    and t: "textDecode (textEncode s) = s"
    using assms(1) textDecode_textEncode length_okD by (auto simp: text_ok_def)
  show ?thesis
    unfolding writeString_def Let_def append_assoc
    using readValue_header [OF _ safe_64 [OF l(1)] assms(2), of 3] l t
    by (simp add: readMajor_def js_Number_safe readBytes_def)
qed

lemma readValue_bytes:
  assumes "length_ok c (length bs)" "depth \<le> 256"
  shows "readValue (257 - depth) h c (writeBytes bs @ rest) = Inr (CBytes bs, rest)"
proof -
  have l: "int (length bs) \<le> MAX_SAFE" "requireStringLength c (length bs) = Inr (length bs)"
    using length_okD [OF assms(1)] by simp_all
  show ?thesis
    unfolding writeBytes_def append_assoc
    using readValue_header [OF _ safe_64 [OF l(1)] assms(2), of 2] l
    by (simp add: readMajor_def js_Number_safe readBytes_def)
qed

lemma bigint_loop_value: "0 \<le> v \<Longrightarrow> int (be_value (bigint_loop v bytes)) = v * 256 ^ length bytes + int (be_value bytes)"
proof (induction v bytes rule: bigint_loop.induct)
  case (1 v bytes)
  have cons: "be_value (b # bs) = b * 256 ^ length bs + be_value bs" for b bs
    by (induction bs rule: rev_induct) (simp_all add: be_value_def algebra_simps)
  show ?case
  proof (cases "v \<le> 0")
    case True
    then show ?thesis using 1(2) by (subst bigint_loop.simps) simp
  next
    case False
    then have "int (be_value (bigint_loop v bytes)) = (v div 256) * 256 ^ Suc (length bytes) + int (be_value (nat (v mod 256) # bytes))"
      using 1(1) by (subst bigint_loop.simps) simp
    also have "\<dots> = v div 256 * 256 * 256 ^ length bytes + v mod 256 * 256 ^ length bytes + int (be_value bytes)"
      by (simp add: cons mult.assoc)
    also have "\<dots> = (v div 256 * 256 + v mod 256) * 256 ^ length bytes + int (be_value bytes)"
      by (simp only: distrib_right)
    finally show ?thesis by simp
  qed
qed

lemma bigint_loop_length: "0 < v \<Longrightarrow> v < 256 ^ k \<Longrightarrow> length (bigint_loop v bytes) \<le> k + length bytes"
proof (induction k arbitrary: v bytes)
  case (Suc k)
  show ?case
  proof (cases "v < 256")
    case True
    then have "bigint_loop v bytes = nat (v mod 256) # bytes"
      using Suc.prems(1) by (subst bigint_loop.simps, simp, subst bigint_loop.simps, simp)
    then show ?thesis by simp
  next
    case False
    have "v div 256 < 256 ^ k" using Suc.prems(2) by (simp add: div_less_iff_less_mult mult.commute)
    with Suc.IH [of "v div 256" "nat (v mod 256) # bytes"] False show ?thesis by (subst bigint_loop.simps) simp
  qed
qed simp

lemma bigIntToBytes_back:
  assumes "0 \<le> n" "n \<le> MAX_BIGNUM_MAGNITUDE"
  shows "bytesToBigInt (bigIntToBytes n) = n" "length (bigIntToBytes n) \<le> MAX_BIGNUM_BYTES"
proof -
  show "bytesToBigInt (bigIntToBytes n) = n"
    using bigint_loop_value [OF assms(1), of "[]"] by (simp add: bigIntToBytes_def bytesToBigInt_def be_value_def)
  have "n < 2 ^ (MAX_BIGNUM_BYTES * 8)" using assms(2) by (simp add: MAX_BIGNUM_MAGNITUDE_def)
  also have "(2::int) ^ (MAX_BIGNUM_BYTES * 8) = 256 ^ MAX_BIGNUM_BYTES"
    by (simp only: mult.commute [of MAX_BIGNUM_BYTES 8] power_mult) simp
  finally show "length (bigIntToBytes n) \<le> MAX_BIGNUM_BYTES"
    using bigint_loop_length [of n MAX_BIGNUM_BYTES "[]"] assms(1) by (simp add: bigIntToBytes_def MAX_BIGNUM_BYTES_def)
qed

text \<open>The constraints a node reads with: the encoder's own depth limit, and room for a byte string of a bigint and for the type names.\<close>

definition wide_enough :: "read_constraints \<Rightarrow> bool" where
  "wide_enough c \<longleftrightarrow> maxNestingDepth c = MAX_NESTING_DEPTH \<and> (maxStringLength c = 0 \<or> MAX_BIGNUM_BYTES \<le> maxStringLength c)"

lemma tag_safe: "int tag \<le> 259 \<Longrightarrow> int tag \<le> MAX_SAFE"
  by (simp add: MAX_SAFE_def)

lemma readValue_tag:
  assumes "tag \<le> 259" "depth \<le> 256"
  shows "readValue (257 - depth) h c (writeTag tag @ rest) = readTagged h (readValue (256 - depth) h c) tag rest"
proof -
  have safe: "int tag \<le> MAX_SAFE" using assms(1) by (simp add: MAX_SAFE_def)
  show ?thesis
    unfolding writeTag_def
    using readValue_header [OF _ safe_64 [OF safe] assms(2), of 6] by (simp add: readMajor_def js_Number_safe [OF safe])
qed

lemma next_depth: "257 - (depth + 1) = 256 - (depth :: nat)"
  by simp

lemma readValue_bigint:
  assumes c: "wide_enough c" and d: "depth \<le> 255" and w: "writeBigInt n = Inr bs"
  shows "readValue (257 - depth) h c (bs @ rest) = Inr (CBig n, rest)"
proof -
  define mag where "mag = (if n \<ge> 0 then n else - n - 1)"
  define tag where "tag = (if n \<ge> 0 then TAG_UNSIGNED_BIGNUM else TAG_NEGATIVE_BIGNUM)"
  have mag: "0 \<le> mag" "mag \<le> MAX_BIGNUM_MAGNITUDE" and bs: "bs = writeTag tag @ writeBytes (bigIntToBytes mag)"
    using w by (auto simp: writeBigInt_def mag_def tag_def Let_def split: if_splits)
  note bytes = bigIntToBytes_back [OF mag]
  have "length_ok c (length (bigIntToBytes mag))"
    using bytes(2) c by (auto simp: length_ok_def wide_enough_def MAX_BIGNUM_BYTES_def MAX_SAFE_def)
  then have inner: "readValue (256 - depth) h c (writeBytes (bigIntToBytes mag) @ rest) = Inr (CBytes (bigIntToBytes mag), rest)"
    using readValue_bytes [of c _ "depth + 1"] d by (simp add: next_depth)
  have tags: "tag \<le> 259" "tag \<noteq> TAG_MAP" "tag \<noteq> TAG_GENERIC_OBJECT" "tag \<noteq> TAG_DATETIME" "tag \<noteq> TAG_EPOCH_DATETIME"
    "tag = TAG_UNSIGNED_BIGNUM \<or> tag = TAG_NEGATIVE_BIGNUM" "(tag = TAG_UNSIGNED_BIGNUM) = (n \<ge> 0)"
    by (auto simp: tag_def TAG_MAP_def TAG_GENERIC_OBJECT_def TAG_DATETIME_def TAG_EPOCH_DATETIME_def TAG_UNSIGNED_BIGNUM_def TAG_NEGATIVE_BIGNUM_def)
  have "readTagged h (readValue (256 - depth) h c) tag (writeBytes (bigIntToBytes mag) @ rest) = Inr (CBig n, rest)"
    using inner tags bytes by (auto simp: readTagged_def applyTag_def mag_def)
  then show ?thesis using readValue_tag [OF tags(1)] d unfolding bs by simp
qed

section \<open>Loops\<close>

definition reads :: "cbor_host \<Rightarrow> read_constraints \<Rightarrow> cval \<Rightarrow> bool" where
  "reads h c v \<longleftrightarrow> (\<forall>depth allow bs rest. writeValue v depth allow = Inr bs \<longrightarrow> readValue (257 - depth) h c (bs @ rest) = Inr (v, rest))"

lemma readsD: "reads h c v \<Longrightarrow> writeValue v depth allow = Inr bs \<Longrightarrow> readValue (257 - depth) h c (bs @ rest) = Inr (v, rest)"
  by (simp add: reads_def)

lemma write_seq_iff: "write_seq (w # ws) depth = Inr bs \<longleftrightarrow>
  (\<exists>a b. w depth True = Inr a \<and> write_seq ws depth = Inr b \<and> bs = a @ b)"
  by (auto simp: ebind_Inr_iff)

lemma write_pairs_iff: "write_pairs ((k, v) # es) depth = Inr bs \<longleftrightarrow>
  (\<exists>a b d. k depth True = Inr a \<and> v depth True = Inr b \<and> write_pairs es depth = Inr d \<and> bs = a @ b @ d)"
  by (auto simp: ebind_Inr_iff)

lemma write_fields_iff: "write_fields ((k, v) # es) depth = Inr bs \<longleftrightarrow>
  (\<exists>b d. v depth True = Inr b \<and> write_fields es depth = Inr d \<and> bs = writeString k @ b @ d)"
  by (auto simp: ebind_Inr_iff)

lemma read_items_back:
  "(\<And>x. x \<in> set xs \<Longrightarrow> reads h c x) \<Longrightarrow> write_seq (map writeValue xs) depth = Inr bs \<Longrightarrow>
   read_items (readValue (257 - depth) h c) (length xs) (bs @ rest) = Inr (xs, rest)"
proof (induction xs arbitrary: bs)
  case (Cons x xs)
  obtain a b where ab: "writeValue x depth True = Inr a" "write_seq (map writeValue xs) depth = Inr b" "bs = a @ b"
    using Cons.prems(2) unfolding list.map write_seq_iff by blast
  have "read_items (readValue (257 - depth) h c) (length xs) (b @ rest) = Inr (xs, rest)"
    using Cons.prems(1) by (intro Cons.IH [OF _ ab(2)]) simp
  then show ?case using readsD [OF _ ab(1)] Cons.prems(1) by (subst read_items.simps) (simp add: ab(3))
qed (simp add: read_items.simps)

lemma read_pairs_back:
  "(\<And>k v. (k, v) \<in> set es \<Longrightarrow> reads h c k \<and> reads h c v) \<Longrightarrow> write_pairs (map (map_prod writeValue writeValue) es) depth = Inr bs \<Longrightarrow>
   read_pairs (readValue (257 - depth) h c) (length es) (bs @ rest) = Inr (es, rest)"
proof (induction es arbitrary: bs)
  case (Cons e es)
  obtain k v where e: "e = (k, v)" by (cases e)
  obtain a b d where ab: "writeValue k depth True = Inr a" "writeValue v depth True = Inr b"
    "write_pairs (map (map_prod writeValue writeValue) es) depth = Inr d" "bs = a @ b @ d"
    using Cons.prems(2) unfolding list.map e map_prod_simp write_pairs_iff by blast
  have "read_pairs (readValue (257 - depth) h c) (length es) (d @ rest) = Inr (es, rest)"
    by (rule Cons.IH [OF _ ab(3)]) (meson Cons.prems(1) list.set_intros(2))
  then show ?case using readsD [OF _ ab(1)] readsD [OF _ ab(2)] Cons.prems(1) [of k v]
    by (subst read_pairs.simps) (simp add: ab(4) e)
qed (simp add: read_pairs.simps)

lemma read_fields_back:
  "(\<And>k v. (k, v) \<in> set es \<Longrightarrow> text_ok c k \<and> reads h c v) \<Longrightarrow> depth \<le> 256 \<or> es = [] \<Longrightarrow>
   write_fields (map (map_prod id writeValue) es) depth = Inr bs \<Longrightarrow>
   read_fields (readValue (257 - depth) h c) (length es) (bs @ rest) = Inr (es, rest)"
proof (induction es arbitrary: bs)
  case (Cons e es)
  obtain k v where e: "e = (k, v)" by (cases e)
  obtain b d where ab: "writeValue v depth True = Inr b" "write_fields (map (map_prod id writeValue) es) depth = Inr d"
    "bs = writeString k @ b @ d"
    using Cons.prems(3) unfolding list.map e map_prod_simp id_apply write_fields_iff by blast
  have depth: "depth \<le> 256" using Cons.prems(2) by simp
  have "read_fields (readValue (257 - depth) h c) (length es) (d @ rest) = Inr (es, rest)"
    by (rule Cons.IH [OF _ _ ab(2)]) (meson Cons.prems(1) list.set_intros(2), simp add: depth)
  then show ?case using readsD [OF _ ab(1)] readValue_string [OF _ depth] Cons.prems(1) [of k v]
    by (subst read_fields.simps) (simp add: ab(3) e)
qed (simp add: read_fields.simps)

section \<open>Builders\<close>

text \<open>No two of the values are the same to a map or a set: primitives are not repeated, up to the sign of zero.\<close>

definition zero_norm :: "cval \<Rightarrow> cval" where
  "zero_norm v = (if v = CNum neg_zero then CNum (Dbl False 0 0) else v)"

definition all_distinct :: "cval list \<Rightarrow> bool" where
  "all_distinct ks \<longleftrightarrow> distinct (map zero_norm (filter is_primitive ks))"

text \<open>The keys of a map, the members of a set: a negative zero is stored as zero.\<close>

definition keys_ok :: "cval list \<Rightarrow> bool" where
  "keys_ok ks \<longleftrightarrow> all_distinct ks \<and> CNum neg_zero \<notin> set ks"

definition refs_from :: "(nat \<Rightarrow> nat \<times> nat) \<Rightarrow> nat \<Rightarrow> cval list \<Rightarrow> cref list" where
  "refs_from f n ks = map (\<lambda>(i, k). ref_of (f i) k) (enumerate n ks)"

abbreviation key_index :: "nat \<Rightarrow> nat \<times> nat" where
  "key_index i \<equiv> (i, 0)"

abbreviation value_index :: "nat \<Rightarrow> nat \<times> nat" where
  "value_index i \<equiv> (i, 1)"

lemma refs_from_simps [simp]: "refs_from f n [] = []" "refs_from f n (k # ks) = ref_of (f n) k # refs_from f (Suc n) ks"
  by (simp_all add: refs_from_def)

lemma length_refs_from [simp]: "length (refs_from f n ks) = length ks"
  by (simp add: refs_from_def)

lemma deref_refs_from: "CNum neg_zero \<notin> set ks \<Longrightarrow> map deref (refs_from f n ks) = ks"
  by (induction ks arbitrary: n) (auto simp: ref_of_def)

lemma Prim_in_refs: "Prim v \<in> set (refs_from f n ks) \<Longrightarrow> v \<in> set (map zero_norm (filter is_primitive ks))"
  by (induction ks arbitrary: n) (auto simp: ref_of_def zero_norm_def split: if_splits)

lemma Obj_in_refs: "Obj x v \<in> set (refs_from f n ks) \<Longrightarrow> \<exists>i \<ge> n. x = f i"
proof (induction ks arbitrary: n)
  case (Cons k ks)
  then show ?case by (auto simp: ref_of_def dest!: Cons.IH split: if_splits intro: Suc_leD)
qed simp

lemma refs_distinct: "inj f \<Longrightarrow> all_distinct ks \<Longrightarrow> distinct (refs_from f n ks)"
proof (induction ks arbitrary: n)
  case (Cons k ks)
  have "ref_of (f n) k \<notin> set (refs_from f (Suc n) ks)"
  proof
    assume in_refs: "ref_of (f n) k \<in> set (refs_from f (Suc n) ks)"
    show False
    proof (cases "is_primitive k")
      case True
      then have "ref_of (f n) k = Prim (zero_norm k)" by (simp add: ref_of_def zero_norm_def)
      with in_refs Prim_in_refs [of "zero_norm k" f "Suc n" ks] Cons.prems True show False by (auto simp: all_distinct_def)
    next
      case False
      with in_refs Obj_in_refs [of "f n" k f "Suc n" ks] Cons.prems(1) show False by (auto simp: ref_of_def dest: injD)
    qed
  qed
  moreover have "all_distinct ks" using Cons.prems by (auto simp: all_distinct_def split: if_splits)
  ultimately show ?case using Cons.IH Cons.prems(1) by simp
qed simp

lemma inj_index [simp]: "inj key_index" "inj value_index" "inj (\<lambda>j. (i :: nat, j + 1 :: nat))"
  by (simp_all add: inj_on_def)

lemma build_map_ok:
  assumes "keys_ok (map fst es)"
  shows "build_map es = es"
proof -
  have zip: "map (\<lambda>(i, k, v). (ref_of (i, 0) k, v)) (enumerate n es) = zip (refs_from key_index n (map fst es)) (map snd es)" for n
    by (induction es arbitrary: n) auto
  have "foldl (\<lambda>m (i, k, v). jset m (ref_of (i, 0) k) v) [] (enumerate 0 es) =
      foldl (\<lambda>m (k, v). jset m k v) [] (zip (refs_from key_index 0 (map fst es)) (map snd es))"
    unfolding zip [symmetric] foldl_map by (simp add: case_prod_unfold)
  also have "\<dots> = zip (refs_from key_index 0 (map fst es)) (map snd es)"
    using foldl_jset_fresh [of "[]" "zip (refs_from key_index 0 (map fst es)) (map snd es)"] refs_distinct [of key_index "map fst es" 0] assms by (simp add: keys_ok_def jwf_def)
  finally have "build_map es = zip (map deref (refs_from key_index 0 (map fst es))) (map snd es)"
    by (simp add: build_map_def zip_map1)
  also have "\<dots> = es" using deref_refs_from [of "map fst es" key_index 0] assms by (simp add: keys_ok_def zip_map_fst_snd)
  finally show ?thesis .
qed

lemma build_set_ok: "keys_ok xs \<Longrightarrow> build_set xs = xs"
  using refs_distinct [of key_index xs 0] deref_refs_from [of xs key_index 0] by (simp add: build_set_def refs_from_def keys_ok_def)

lemma build_object_ok: "distinct (map fst es) \<Longrightarrow> property_order es = es \<Longrightarrow> build_object es = es"
  using foldl_jset_fresh [of "[]" es] by (simp add: build_object_def jwf_def)

lemma bm_new_fresh:
  assumes "distinct (map fst es)" "distinct (map snd es)"
  shows "bm_forward (bm_new es) = es"
proof -
  have "bm_forward (foldl (\<lambda>m (k, v). bm_set k v m) m es) = bm_forward m @ es"
    if "distinct (map fst es)" "distinct (map snd es)" "\<And>k v. (k, v) \<in> set es \<Longrightarrow> jget (bm_forward m) k = None \<and> jget (bm_reverse m) v = None"
    for m :: "('a, 'b) bimap" and es
    using that
  proof (induction es arbitrary: m)
    case (Cons e es)
    obtain k v where e: "e = (k, v)" by (cases e)
    have none: "jget (bm_forward m) k = None" "jget (bm_reverse m) v = None" using Cons.prems(3) [of k v] e by simp_all
    have fwd: "bm_forward (bm_set k v m) = bm_forward m @ [(k, v)]" and rev: "bm_reverse (bm_set k v m) = bm_reverse m @ [(v, k)]"
      using none by (simp_all add: bm_set_def jset_new)
    have fresh: "jget (bm_forward (bm_set k v m)) k' = None \<and> jget (bm_reverse (bm_set k v m)) v' = None" if "(k', v') \<in> set es" for k' v'
    proof -
      have "k' \<noteq> k" "v' \<noteq> v" using that Cons.prems(1,2) e by force+
      then show ?thesis using Cons.prems(3) [of k' v'] that none by (simp add: bm_set_def)
    qed
    show ?case using Cons.IH [OF _ _ fresh] Cons.prems(1,2) e fwd by simp
  qed simp
  from this [OF assms, of bm_empty] show ?thesis by (simp add: bm_new_def bm_empty_def)
qed

lemma build_bimap_ok:
  assumes "keys_ok (map fst es)" "all_distinct (map snd es)"
  shows "build_bimap es = es"
proof -
  let ?refs = "map (\<lambda>(i, k, v). (ref_of (i, 0) k, ref_of (i, 1) v)) (enumerate 0 es)"
  have fst: "map fst (map (\<lambda>(i, k, v). (ref_of (i, 0) k, ref_of (i, 1) v)) (enumerate n es)) = refs_from key_index n (map fst es)" for n
    by (induction es arbitrary: n) auto
  have snd: "map snd (map (\<lambda>(i, k, v). (ref_of (i, 0) k, ref_of (i, 1) v)) (enumerate n es)) = refs_from value_index n (map snd es)" for n
    by (induction es arbitrary: n) auto
  have "bm_forward (bm_new ?refs) = ?refs"
    by (rule bm_new_fresh; unfold fst snd; rule refs_distinct) (use assms in \<open>simp_all add: keys_ok_def inj_on_def\<close>)
  then have "jhas (bm_forward (bm_new ?refs)) (ref_of (i, 0) k)" if "(i, k, v) \<in> set (enumerate 0 es)" for i k v
    using that by (auto simp: jhas_iff jget_None_notin image_iff case_prod_unfold intro!: bexI [of _ "(i, k, v)"])
  then have "filter (\<lambda>(i, k, v). jhas (bm_forward (bm_new ?refs)) (ref_of (i, 0) k)) (enumerate 0 es) = enumerate 0 es"
    by (auto intro!: filter_True)
  then show ?thesis by (simp add: build_bimap_def Let_def)
qed

text \<open>The rows of a multimap, added pair by pair.\<close>

lemma row_jset [simp]: "row (jset m k s) k' = (if k' = k then s else row m k')"
  by (simp add: row_def)

lemma mm_add_new:
  assumes "jget (mm_forward m) l = None"
  shows "mm_forward (mm_add l r m) = mm_forward m @ [(l, [r])]"
proof -
  have "mm_forward (mm_add l r m) = jset (mm_forward m) l [r]"
    using assms by (simp add: mm_add_def Let_def row_def jset_jset sadd_def split: option.split)
  then show ?thesis using assms by (simp add: jset_new)
qed

lemma jget_snoc: "jget t k = None \<Longrightarrow> jget (t @ [(k, v)]) = (jget t)(k \<mapsto> v)"
  using jget_jset [of t k v] by (simp add: jset_new)

lemma jset_snoc: "jget t k = None \<Longrightarrow> jset (t @ [(k, v)]) k w = t @ [(k, w)]"
  using jset_jset [of t k v w] by (simp add: jset_new)

lemma mm_add_more:
  assumes "mm_forward m = t @ [(l, rs)]" "jget t l = None" "r \<notin> set rs"
  shows "mm_forward (mm_add l r m) = t @ [(l, rs @ [r])]"
  using assms by (simp add: mm_add_def Let_def row_def sadd_def jget_snoc jset_snoc split: option.split)

lemma mm_add_row:
  assumes "distinct (rs @ qs)" "mm_forward m = t @ [(l, rs)]" "jget t l = None"
  shows "mm_forward (foldl (\<lambda>m (l, r). mm_add l r m) m (map (Pair l) qs)) = t @ [(l, rs @ qs)]"
  using assms
proof (induction qs arbitrary: m rs)
  case (Cons r qs)
  have "mm_forward (mm_add l r m) = t @ [(l, rs @ [r])]" using Cons.prems by (intro mm_add_more) auto
  then show ?case using Cons.IH [of "rs @ [r]" "mm_add l r m"] Cons.prems by simp
qed simp

lemma mm_add_rows:
  assumes "distinct (map fst rows)" "\<And>l rs. (l, rs) \<in> set rows \<Longrightarrow> rs \<noteq> [] \<and> distinct rs \<and> jget (mm_forward m) l = None"
  shows "mm_forward (foldl (\<lambda>m (l, r). mm_add l r m) m (concat (map (\<lambda>(l, rs). map (Pair l) rs) rows))) = mm_forward m @ rows"
  using assms
proof (induction rows arbitrary: m)
  case (Cons e rows)
  obtain l rs where e: "e = (l, rs)" by (cases e)
  have l: "rs \<noteq> []" "distinct rs" "jget (mm_forward m) l = None" using Cons.prems(2) [of l rs] e by auto
  then obtain r qs where rs: "rs = r # qs" by (cases rs) auto
  let ?m = "foldl (\<lambda>m (l, r). mm_add l r m) m (map (Pair l) rs)"
  have fwd: "mm_forward ?m = mm_forward m @ [(l, rs)]"
    using mm_add_row [of "[r]" qs "mm_add l r m" "mm_forward m" l] mm_add_new [OF l(3)] l rs by simp
  have "rs' \<noteq> [] \<and> distinct rs' \<and> jget (mm_forward ?m) l' = None" if "(l', rs') \<in> set rows" for l' rs'
  proof -
    have "l' \<noteq> l" using that Cons.prems(1) e by force
    then show ?thesis using Cons.prems(2) [of l' rs'] that fwd l(3) by (simp add: jget_snoc)
  qed
  then have "mm_forward (foldl (\<lambda>m (l, r). mm_add l r m) ?m (concat (map (\<lambda>(l, rs). map (Pair l) rs) rows))) = mm_forward ?m @ rows"
    using Cons.prems(1) by (intro Cons.IH) auto
  then show ?case using e fwd by simp
qed simp

lemma build_multi_ok:
  assumes keys: "keys_ok (map fst rows)" and rows: "\<And>l rs. (l, rs) \<in> set rows \<Longrightarrow> rs \<noteq> [] \<and> keys_ok rs"
  shows "build_multi rows = rows"
proof -
  define refs where "refs n rows = map (\<lambda>(i, l, rs). (ref_of (i, 0) l, refs_from (\<lambda>j. (i, j + 1)) 0 rs)) (enumerate n rows)"
    for n and rows :: "(cval \<times> cval list) list"
  have pairs: "map (\<lambda>(i, l, rs). map (\<lambda>(j, r). (ref_of (i, 0) l, ref_of (i, j + 1) r)) (enumerate 0 rs)) (enumerate n rows) =
      map (\<lambda>(l, rs). map (Pair l) rs) (refs n rows)" for n
    by (auto simp: refs_def refs_from_def)
  have fst: "map fst (refs n rows) = refs_from key_index n (map fst rows)" for n and rows
    by (induction rows arbitrary: n) (auto simp: refs_def)
  have row: "rs \<noteq> [] \<and> distinct rs" if in_refs: "(l, rs) \<in> set (refs 0 rows)" for l rs
  proof -
    obtain i l' rs' where "(i, l', rs') \<in> set (enumerate 0 rows)" "rs = refs_from (\<lambda>j. (i, j + 1)) 0 rs'"
      using in_refs unfolding refs_def by force
    moreover have "(l', rs') \<in> set rows"
      using imageI [OF calculation(1), of snd] unfolding set_map [symmetric] map_snd_enumerate by simp
    ultimately show ?thesis using rows [of l' rs'] refs_distinct [OF inj_index(3)] length_refs_from by (metis keys_ok_def length_0_conv)
  qed
  have fwd: "mm_forward (mm_new (concat (map (\<lambda>(l, rs). map (Pair l) rs) (refs 0 rows)))) = refs 0 rows"
    using mm_add_rows [of "refs 0 rows" mm_empty] row keys refs_distinct [of key_index "map fst rows" 0]
    by (simp add: mm_new_def mm_empty_def fst keys_ok_def)
  have "map (\<lambda>(l, rs). (deref l, map deref rs)) (refs n rows) = rows"
    if "CNum neg_zero \<notin> set (map fst rows)" "\<And>l rs. (l, rs) \<in> set rows \<Longrightarrow> keys_ok rs" for n rows
    using that
  proof (induction rows arbitrary: n)
    case (Cons e rows)
    obtain l rs where e: "e = (l, rs)" by (cases e)
    have "CNum neg_zero \<notin> set rs" using Cons.prems(2) [of l rs] e by (simp add: keys_ok_def)
    moreover have "map (\<lambda>(l, rs). (deref l, map deref rs)) (refs (Suc n) rows) = rows"
      by (rule Cons.IH) (use Cons.prems in auto)
    ultimately show ?case using Cons.prems(1) by (simp add: refs_def e deref_refs_from) (auto simp: ref_of_def)
  qed (simp add: refs_def)
  then show ?thesis using keys rows unfolding build_multi_def pairs fwd by (simp add: keys_ok_def)
qed

section \<open>Values that come back\<close>

text \<open>
  The values the format can carry: no boxed primitives, no \<^verbatim>\<open>toJSON\<close> methods and no unsupported types; strings whose
  surrogates are paired and that do not start with a byte order mark; maps, sets and two-way maps as
  these containers hold their entries; objects with their properties in order; times that survive the conversion
  to seconds; URLs and patterns the host reads back as they are.
\<close>

definition counted :: "'a list \<Rightarrow> bool" where
  "counted xs \<longleftrightarrow> int (length xs) \<le> MAX_SAFE"

definition date_ok :: "dbl \<Rightarrow> bool" where
  "date_ok ms \<longleftrightarrow> dbl_ok (dbl_div ms (dbl_of_int 1000)) \<and> time_clip (dbl_mult (dbl_div ms (dbl_of_int 1000)) (dbl_of_int 1000)) = ms"

primrec cbor_ok :: "cbor_host \<Rightarrow> read_constraints \<Rightarrow> cval \<Rightarrow> bool" where
  "cbor_ok h c CNull = True"
| "cbor_ok h c CUndef = True"
| "cbor_ok h c (CBool b) = True"
| "cbor_ok h c (CNum d) = dbl_ok d"
| "cbor_ok h c (CBig n) = ((if n \<ge> 0 then n else - n - 1) \<le> MAX_BIGNUM_MAGNITUDE)"
| "cbor_ok h c (CStr s) = text_ok c s"
| "cbor_ok h c (CBytes bs) = length_ok c (length bs)"
| "cbor_ok h c (CDate ms) = date_ok ms"
| "cbor_ok h c (CBiMap es) = (counted es \<and> keys_ok (map fst es) \<and> all_distinct (map snd es) \<and>
     list_all (\<lambda>(a, b). a \<and> b) (map (map_prod (cbor_ok h c) (cbor_ok h c)) es))"
| "cbor_ok h c (CMulti rows) = (counted rows \<and> keys_ok (map fst rows) \<and>
     list_all (\<lambda>(l, rs). rs \<noteq> [] \<and> keys_ok rs \<and> counted rs) rows \<and>
     list_all (\<lambda>(a, bs). a \<and> list_all id bs) (map (map_prod (cbor_ok h c) (map (cbor_ok h c))) rows))"
| "cbor_ok h c (CMap es) = (counted es \<and> keys_ok (map fst es) \<and>
     list_all (\<lambda>(a, b). a \<and> b) (map (map_prod (cbor_ok h c) (cbor_ok h c)) es))"
| "cbor_ok h c (CSet xs) = (counted xs \<and> keys_ok xs \<and> list_all id (map (cbor_ok h c) xs))"
| "cbor_ok h c (CView kind bs) = (case kind of None \<Rightarrow> False
     | Some k \<Rightarrow> text_ok c k \<and> length_ok c (length bs) \<and> rebuildBinaryView (h_float16 h) k bs = Some (CView (Some k) bs))"
| "cbor_ok h c (CRegExp s f) = (text_ok c s \<and> text_ok c f \<and> h_regExp h s f = Some (s, f))"
| "cbor_ok h c (CUrl href) = (text_ok c href \<and> h_parseUrl h href = Some href)"
| "cbor_ok h c (CErr name message cause errors) = (text_ok c name \<and> text_ok c message \<and> cause \<noteq> Some CUndef \<and>
     (errors \<noteq> None \<longrightarrow> name = jlit ''AggregateError'') \<and> pred_option counted errors \<and>
     pred_option id (map_option (cbor_ok h c) cause) \<and> pred_option (list_all id) (map_option (map (cbor_ok h c)) errors))"
| "cbor_ok h c (CBoxed v) = False"
| "cbor_ok h c (CArr xs) = (counted xs \<and> list_all id (map (cbor_ok h c) xs))"
| "cbor_ok h c (CObj toJson es) = (toJson = None \<and> counted es \<and> distinct (map fst es) \<and> property_order es = es \<and>
     list_all (\<lambda>(k, _). text_ok c k) es \<and> list_all (\<lambda>(_, b). b) (map (map_prod id (cbor_ok h c)) es))"
| "cbor_ok h c CUnsupported = False"

text \<open>The parts of a value are read one level below it.\<close>

lemma guardedD: "guarded w depth allow = Inr bs \<Longrightarrow> depth \<le> 256 \<and> w depth allow = Inr bs"
  by (simp add: guarded_def MAX_NESTING_DEPTH_def split: if_splits)

lemma requireDepthD: "requireDepth k r = Inr bs \<Longrightarrow> k \<le> 256 \<and> r = Inr bs"
  by (simp add: requireDepth_def MAX_NESTING_DEPTH_def split: if_splits)

lemma read_array_back:
  assumes "\<And>x. x \<in> set xs \<Longrightarrow> reads h c x" "counted xs" "depth \<le> 256" "writeArray (map writeValue xs) depth = Inr bs"
  shows "readValue (257 - depth) h c (bs @ rest) = Inr (CArr xs, rest)"
proof -
  obtain body where body: "write_seq (map writeValue xs) (depth + 1) = Inr body" "bs = writeHeader 4 (length xs) @ body"
    using assms(4) by (auto simp: writeArray_def ebind_Inr_iff)
  have safe: "int (length xs) \<le> MAX_SAFE" using assms(2) by (simp add: counted_def)
  have "read_items (readValue (256 - depth) h c) (length xs) (body @ rest) = Inr (xs, rest)"
    using read_items_back [OF assms(1) body(1)] by (simp add: next_depth)
  then show ?thesis
    using readValue_header [OF _ safe_64 [OF safe] assms(3), of 4 h c "body @ rest"] by (simp add: body(2) readMajor_def js_Number_safe [OF safe])
qed

lemma read_map_back:
  assumes "\<And>k v. (k, v) \<in> set es \<Longrightarrow> reads h c k \<and> reads h c v" "counted es" "keys_ok (map fst es)" "depth \<le> 256"
    "writeMapBody (map (map_prod writeValue writeValue) es) depth = Inr bs"
  shows "readValue (257 - depth) h c (bs @ rest) = Inr (CMap es, rest)"
proof -
  obtain body where body: "write_pairs (map (map_prod writeValue writeValue) es) (depth + 1) = Inr body"
      "bs = writeTag TAG_MAP @ writeHeader 5 (length es) @ body"
    using assms(5) by (auto simp: writeMapBody_def ebind_Inr_iff)
  have safe: "int (length es) \<le> MAX_SAFE" using assms(2) by (simp add: counted_def)
  obtain ib lb where hd: "writeHeader 5 (length es) = ib # lb" "ib div 32 mod 8 = 5"
    "\<And>rest. readLength (ib mod 32) (lb @ rest) = Inr (length es, rest)"
    using header_read [of 5, OF _ safe_64 [OF safe]] by auto
  have "read_pairs (readValue (256 - depth) h c) (length es) (body @ rest) = Inr (es, rest)"
    using read_pairs_back [OF assms(1) body(1)] by (simp add: next_depth)
  then have "readEntryPairs (readValue (256 - depth) h c) (writeHeader 5 (length es) @ body @ rest) = Inr (es, rest)"
    by (simp add: readEntryPairs_def hd js_Number_safe [OF safe])
  moreover have "TAG_MAP \<le> 259" by (simp add: TAG_MAP_def)
  ultimately show ?thesis
    using readValue_tag [of TAG_MAP depth h c "writeHeader 5 (length es) @ body @ rest"] assms(4)
    by (simp add: body(2) readTagged_def build_map_ok [OF assms(3)])
qed

lemma read_set_back:
  assumes "\<And>x. x \<in> set xs \<Longrightarrow> reads h c x" "counted xs" "keys_ok xs" "depth \<le> 256" "writeSet (map writeValue xs) depth = Inr bs"
  shows "readValue (257 - depth) h c (bs @ rest) = Inr (CSet xs, rest)"
proof -
  obtain body where d: "depth + 1 \<le> 256" and body: "write_seq (map writeValue xs) (depth + 2) = Inr body"
      "bs = writeTag TAG_SET @ writeHeader 4 (length xs) @ body"
    using assms(5) by (auto simp: writeSet_def ebind_Inr_iff dest!: requireDepthD)
  have "writeArray (map writeValue xs) (depth + 1) = Inr (writeHeader 4 (length xs) @ body)"
    using body(1) by (simp add: writeArray_def)
  from read_array_back [OF assms(1,2) d this, of rest]
  have "readValue (256 - depth) h c (writeHeader 4 (length xs) @ body @ rest) = Inr (CArr xs, rest)" by (simp add: next_depth)
  then show ?thesis
    using readValue_tag [of TAG_SET depth h c "writeHeader 4 (length xs) @ body @ rest"] assms(4) build_set_ok [OF assms(3)]
    by (simp add: body(2) readTagged_def applyTag_def TAG_SET_def TAG_MAP_def TAG_GENERIC_OBJECT_def TAG_DATETIME_def TAG_EPOCH_DATETIME_def
        TAG_UNSIGNED_BIGNUM_def TAG_NEGATIVE_BIGNUM_def TAG_URI_def)
qed

section \<open>Generic objects\<close>

lemma ascii_text: "list_all (\<lambda>u. u < 128) s \<Longrightarrow> utf16_ok s \<and> textEncode s = s"
proof -
  have "list_all (\<lambda>u. u < 128) s \<Longrightarrow> utf16_ok s \<and> utf16_scalars s = s"
    by (induction s rule: utf16_ok.induct) (auto simp: high_surrogate_def low_surrogate_def)
  moreover have "list_all (\<lambda>u. u < 128) s \<Longrightarrow> concat (map utf8_scalar s) = s"
    by (induction s) (auto simp: utf8_scalar_def)
  ultimately show "list_all (\<lambda>u. u < 128) s \<Longrightarrow> ?thesis" by (simp add: textEncode_def)
qed

lemma literal_ok:
  assumes "wide_enough c" "list_all (\<lambda>u. u < 128) s" "length s \<le> 64"
  shows "text_ok c s"
proof -
  have "s = [] \<or> hd s \<noteq> 0xFEFF" using assms(2) by (cases s) auto
  then show ?thesis using assms ascii_text [OF assms(2)]
    by (auto simp: text_ok_def length_ok_def wide_enough_def MAX_BIGNUM_BYTES_def MAX_SAFE_def)
qed

lemma type_names:
  assumes "wide_enough c"
  shows "text_ok c (jlit ''BidirectionalMap'')" "text_ok c (jlit ''BidirectionalMultiMap'')" "text_ok c (jlit ''RegExp'')"
    "text_ok c (jlit ''Error'')" "text_ok c (jlit ''name'')" "text_ok c (jlit ''message'')" "text_ok c (jlit ''cause'')" "text_ok c (jlit ''errors'')"
  by (rule literal_ok [OF assms]; simp add: jlit_def)+

lemma read_items_two: "rd bs = Inr (x, r) \<Longrightarrow> rd r = Inr (y, r') \<Longrightarrow> read_items rd 2 bs = Inr ([x, y], r')"
  by (subst read_items.simps, simp, subst read_items.simps, simp, subst read_items.simps, simp)

lemma read_items_three:
  "rd bs = Inr (x, r) \<Longrightarrow> rd r = Inr (y, r') \<Longrightarrow> rd r' = Inr (z, r'') \<Longrightarrow> read_items rd 3 bs = Inr ([x, y, z], r'')"
  by (subst read_items.simps, simp, subst read_items.simps, simp, subst read_items.simps, simp, subst read_items.simps, simp)

lemma read_generic:
  assumes d: "depth + 2 \<le> 256" and k: "k \<le> 3" and items: "read_items (readValue (255 - depth) h c) k (body @ rest) = Inr (xs, rest)"
    and v: "readGenericObject h (CArr xs) = Inr v"
  shows "readValue (257 - depth) h c ((writeTag TAG_GENERIC_OBJECT @ writeHeader 4 k @ body) @ rest) = Inr (v, rest)"
proof -
  have safe: "int k \<le> MAX_SAFE" using k by (simp add: MAX_SAFE_def)
  have "readValue (257 - (depth + 1)) h c (writeHeader 4 k @ body @ rest) = Inr (CArr xs, rest)"
    using readValue_header [OF _ safe_64 [OF safe], of 4 "depth + 1" h c "body @ rest"] d items
    by (simp add: readMajor_def js_Number_safe [OF safe])
  then have "readValue (256 - depth) h c (writeHeader 4 k @ body @ rest) = Inr (CArr xs, rest)" by (simp add: next_depth)
  then show ?thesis
    using readValue_tag [of TAG_GENERIC_OBJECT depth h c "writeHeader 4 k @ body @ rest"] d v
    by (simp add: readTagged_def TAG_GENERIC_OBJECT_def TAG_MAP_def)
qed

text \<open>The second component of a generic object, after its name.\<close>

lemma read_generic_two:
  assumes d: "depth + 2 \<le> 256" and name: "text_ok c name"
    and part: "readValue (257 - (depth + 2)) h c (body @ rest) = Inr (x, rest)" and v: "readGenericObject h (CArr [CStr name, x]) = Inr v"
  shows "readValue (257 - depth) h c ((writeTag TAG_GENERIC_OBJECT @ writeHeader 4 2 @ writeString name @ body) @ rest) = Inr (v, rest)"
proof -
  have "readValue (257 - (depth + 2)) h c (writeString name @ body @ rest) = Inr (CStr name, body @ rest)"
    by (rule readValue_string [OF name d])
  then have "read_items (readValue (255 - depth) h c) 2 ((writeString name @ body) @ rest) = Inr ([CStr name, x], rest)"
    using part by (intro read_items_two) simp_all
  from read_generic [OF d _ this v] show ?thesis by simp
qed

lemma name_differs:
  "jlit ''BidirectionalMultiMap'' \<noteq> jlit ''BidirectionalMap''" "jlit ''RegExp'' \<noteq> jlit ''BidirectionalMap''"
  "jlit ''RegExp'' \<noteq> jlit ''BidirectionalMultiMap''" "jlit ''Error'' \<noteq> jlit ''BidirectionalMap''"
  "jlit ''Error'' \<noteq> jlit ''BidirectionalMultiMap''" "jlit ''Error'' \<noteq> jlit ''RegExp''"
  by (simp_all add: jlit_def)

lemma read_bimap_back:
  assumes c: "wide_enough c" and parts: "\<And>k v. (k, v) \<in> set es \<Longrightarrow> reads h c k \<and> reads h c v"
    and ok: "counted es" "keys_ok (map fst es)" "all_distinct (map snd es)"
    and w: "writeBidirectionalMap (map (map_prod writeValue writeValue) es) depth = Inr bs"
  shows "readValue (257 - depth) h c (bs @ rest) = Inr (CBiMap es, rest)"
proof -
  obtain body where d: "depth + 2 \<le> 256" and body: "writeMapBody (map (map_prod writeValue writeValue) es) (depth + 2) = Inr body"
      "bs = generic_header 2 ''BidirectionalMap'' @ body"
    using w by (auto simp: writeBidirectionalMap_def ebind_Inr_iff dest!: requireDepthD)
  have "readGenericObject h (CArr [CStr (jlit ''BidirectionalMap''), CMap es]) = Inr (CBiMap es)"
    by (simp add: readGenericObject_def buildBidirectionalMap_def arg_def build_bimap_ok [OF ok(2,3)])
  from read_generic_two [OF d type_names(1) [OF c] read_map_back [OF parts ok(1,2) d body(1)] this]
  show ?thesis by (simp add: body(2) generic_header_def)
qed

lemma read_regexp_back:
  assumes c: "wide_enough c" and ok: "text_ok c s" "text_ok c f" "h_regExp h s f = Some (s, f)" and w: "writeRegExp s f depth = Inr bs"
  shows "readValue (257 - depth) h c (bs @ rest) = Inr (CRegExp s f, rest)"
proof -
  have d: "depth + 2 \<le> 256" and bs: "bs = generic_header 3 ''RegExp'' @ writeString s @ writeString f"
    using w by (auto simp: writeRegExp_def dest!: requireDepthD)
  note str = readValue_string [OF _ d]
  have "read_items (readValue (257 - (depth + 2)) h c) 3 (writeString (jlit ''RegExp'') @ writeString s @ writeString f @ rest) =
      Inr ([CStr (jlit ''RegExp''), CStr s, CStr f], rest)"
    by (rule read_items_three) (rule str [OF type_names(3) [OF c]], rule str [OF ok(1)], rule str [OF ok(2)])
  moreover have "readGenericObject h (CArr [CStr (jlit ''RegExp''), CStr s, CStr f]) = Inr (CRegExp s f)"
    using ok(3) by (simp add: readGenericObject_def buildRegExp_def arg_def name_differs)
  ultimately show ?thesis
    using read_generic [OF d, of 3 h c "writeString (jlit ''RegExp'') @ writeString s @ writeString f"] by (simp add: bs generic_header_def)
qed

lemma read_view_back:
  assumes ok: "text_ok c k" "length_ok c (length b)" "rebuildBinaryView (h_float16 h) k b = Some (CView (Some k) b)"
    and w: "writeBinaryView (Some k) b depth = Inr bs"
  shows "readValue (257 - depth) h c (bs @ rest) = Inr (CView (Some k) b, rest)"
proof -
  have d: "depth + 2 \<le> 256" and bs: "bs = writeTag TAG_GENERIC_OBJECT @ writeHeader 4 2 @ writeString k @ writeBytes b"
    using w by (auto simp: writeBinaryView_def dest!: requireDepthD)
  have "isBinaryKind (h_float16 h) k"
    using ok(3) by (auto simp: rebuildBinaryView_def isBinaryKind_def jhas_iff split: if_splits option.splits)
  moreover from this have "k \<noteq> jlit ''BidirectionalMap''" "k \<noteq> jlit ''BidirectionalMultiMap''" "k \<noteq> jlit ''RegExp''" "k \<noteq> jlit ''Error''"
    by (auto simp: isBinaryKind_def TYPED_ARRAY_CONSTRUCTORS_def jhas_def jlit_def split: if_splits)
  ultimately have "readGenericObject h (CArr [CStr k, CBytes b]) = Inr (CView (Some k) b)"
    using ok(3) by (simp add: readGenericObject_def buildBinaryView_def arg_def)
  from read_generic_two [OF d ok(1) readValue_bytes [OF ok(2) d] this] show ?thesis by (simp add: bs)
qed

text \<open>The rows of a multimap are a map to sets.\<close>

lemma read_multi_back:
  assumes c: "wide_enough c" and parts: "\<And>l rs. (l, rs) \<in> set rows \<Longrightarrow> reads h c l \<and> (\<forall>r \<in> set rs. reads h c r)"
    and ok: "counted rows" "keys_ok (map fst rows)" "\<And>l rs. (l, rs) \<in> set rows \<Longrightarrow> rs \<noteq> [] \<and> keys_ok rs \<and> counted rs"
    and w: "writeBidirectionalMultiMap (map (map_prod writeValue (map writeValue)) rows) depth = Inr bs"
  shows "readValue (257 - depth) h c (bs @ rest) = Inr (CMulti rows, rest)"
proof -
  define es where "es = map (\<lambda>(l, rs). (l, CSet rs)) rows"
  have writers: "map (\<lambda>(l, rs). (l, guarded (\<lambda>d _. writeSet rs d))) (map (map_prod writeValue (map writeValue)) rows) =
      map (map_prod writeValue writeValue) es"
    by (simp add: es_def case_prod_unfold)
  obtain body where d: "depth + 2 \<le> 256" and body: "writeMapBody (map (map_prod writeValue writeValue) es) (depth + 2) = Inr body"
      "bs = generic_header 2 ''BidirectionalMultiMap'' @ body"
    using w unfolding writeBidirectionalMultiMap_def writers by (auto simp: ebind_Inr_iff dest!: requireDepthD)
  have sets: "reads h c (CSet rs)" if "(l, rs) \<in> set rows" for l rs
    unfolding reads_def using parts [OF that] ok(3) [OF that] by (auto intro!: read_set_back dest!: guardedD)
  have es: "reads h c k \<and> reads h c v" if "(k, v) \<in> set es" for k v
    using that parts sets unfolding es_def by fastforce
  have fst: "map fst es = map fst rows" by (simp add: es_def case_prod_unfold comp_def)
  have "counted es" "keys_ok (map fst es)" using ok(1,2) by (simp_all add: fst) (simp add: es_def counted_def)
  note part = read_map_back [OF es this d body(1)]
  have all: "list_all (\<lambda>(l, p). set_members p \<noteq> None) es" by (auto simp: es_def set_members_def list_all_iff)
  have rows: "map (\<lambda>(l, p). (l, the (set_members p))) es = rows" by (simp add: es_def set_members_def case_prod_unfold comp_def)
  have "build_multi rows = rows" using ok(2,3) by (intro build_multi_ok) blast+
  then have "readGenericObject h (CArr [CStr (jlit ''BidirectionalMultiMap''), CMap es]) = Inr (CMulti rows)"
    by (simp add: readGenericObject_def buildBidirectionalMultiMap_def arg_def name_differs all [unfolded not_None_eq] rows)
  from read_generic_two [OF d type_names(2) [OF c] part this] show ?thesis by (simp add: body(2) generic_header_def)
qed

lemma read_object_back:
  assumes "\<And>k v. (k, v) \<in> set es \<Longrightarrow> text_ok c k \<and> reads h c v" "counted es" "distinct (map fst es)" "property_order es = es" "depth \<le> 256"
    "write_fields (map (map_prod id writeValue) es) (depth + 1) = Inr body"
  shows "readValue (257 - depth) h c (writeHeader 5 (length es) @ body @ rest) = Inr (CObj None es, rest)"
proof -
  have safe: "int (length es) \<le> MAX_SAFE" using assms(2) by (simp add: counted_def)
  have "depth + 1 \<le> 256 \<or> es = []"
  proof (cases es)
    case (Cons e es')
    then show ?thesis using assms(6) by (cases e) (cases "snd e", auto simp: ebind_Inr_iff dest!: guardedD)
  qed simp
  from read_fields_back [OF assms(1) this assms(6), of rest]
  have "read_fields (readValue (256 - depth) h c) (length es) (body @ rest) = Inr (es, rest)" by (simp add: next_depth)
  then show ?thesis
    using readValue_header [OF _ safe_64 [OF safe] assms(5), of 5 h c "body @ rest"] build_object_ok [OF assms(3,4)]
    by (simp add: readMajor_def js_Number_safe [OF safe])
qed

text \<open>The payload of an error is an object of two to four properties.\<close>

definition error_fields :: "jstr \<Rightarrow> jstr \<Rightarrow> cval option \<Rightarrow> cval list option \<Rightarrow> (jstr \<times> cval) list" where
  "error_fields name message cause errors =
     [(jlit ''name'', CStr name), (jlit ''message'', CStr message)] @
     (case cause of None \<Rightarrow> [] | Some v \<Rightarrow> [(jlit ''cause'', v)]) @
     (case errors of None \<Rightarrow> [] | Some xs \<Rightarrow> [(jlit ''errors'', CArr xs)])"

lemma error_fields_order:
  "distinct (map fst (error_fields name message cause errors)) \<and>
   property_order (error_fields name message cause errors) = error_fields name message cause errors \<and>
   length (error_fields name message cause errors) = 2 + (if cause \<noteq> None then 1 else 0) + (if errors \<noteq> None then 1 else 0)"
  by (auto simp: error_fields_def property_order_def index_key_def jlit_def split: option.split)

lemma write_error_fields:
  assumes "depth + 3 \<le> 256" "cause \<noteq> Some CUndef"
    and "write_optional ''cause'' (map_option writeValue cause) (depth + 3) = Inr a"
    and "write_optional ''errors'' (map_option (\<lambda>xs. writeValue (CArr xs)) errors) (depth + 3) = Inr b"
  shows "write_fields (map (map_prod id writeValue) (error_fields name message cause errors)) (depth + 3) =
    Inr (writeString (jlit ''name'') @ writeString name @ writeString (jlit ''message'') @ writeString message @ a @ b)"
proof -
  have str: "writeValue (CStr t) (depth + 3) True = Inr (writeString t)" for t
    using assms(1) by (simp add: guarded_def MAX_NESTING_DEPTH_def)
  show ?thesis
    using assms(3,4)
    by (cases cause; cases errors) (auto simp: error_fields_def write_optional_def str ebind_Inr_iff simp del: writeValue.simps)
qed

lemma errors_writer: "map_option (\<lambda>ws. guarded (\<lambda>d _. writeArray ws d)) (map_option (map writeValue) errors) = map_option (\<lambda>xs. writeValue (CArr xs)) errors"
  by (cases errors) simp_all

lemma read_error_back:
  assumes c: "wide_enough c" and names: "text_ok c name" "text_ok c message" and cause: "cause \<noteq> Some CUndef"
    and parts: "\<And>v. cause = Some v \<Longrightarrow> reads h c v" "\<And>xs. errors = Some xs \<Longrightarrow> reads h c (CArr xs)"
    and agg: "errors \<noteq> None \<longrightarrow> name = jlit ''AggregateError''"
    and w: "writeError name message (map_option writeValue cause) (map_option (\<lambda>xs. writeValue (CArr xs)) errors) depth = Inr bs"
  shows "readValue (257 - depth) h c (bs @ rest) = Inr (CErr name message cause errors, rest)"
proof -
  let ?fs = "error_fields name message cause errors"
  obtain a b where d: "depth + 3 \<le> 256"
    and ab: "write_optional ''cause'' (map_option writeValue cause) (depth + 3) = Inr a"
      "write_optional ''errors'' (map_option (\<lambda>xs. writeValue (CArr xs)) errors) (depth + 3) = Inr b"
    and bs: "bs = generic_header 2 ''Error'' @ writeHeader 5 (length ?fs) @
      writeString (jlit ''name'') @ writeString name @ writeString (jlit ''message'') @ writeString message @ a @ b"
    using w by (auto simp: writeError_def error_fields_order ebind_Inr_iff simp del: writeValue.simps dest!: requireDepthD)
  have str: "reads h c (CStr t)" if "text_ok c t" for t
    unfolding reads_def using readValue_string [OF that] by (auto dest!: guardedD)
  have fields: "text_ok c k \<and> reads h c v" if "(k, v) \<in> set ?fs" for k v
    using that parts type_names [OF c] str [OF names(1)] str [OF names(2)] by (auto simp: error_fields_def split: option.splits)
  have few: "counted ?fs" using error_fields_order [of name message cause errors] by (simp add: counted_def MAX_SAFE_def)
  have ord: "distinct (map fst ?fs)" "property_order ?fs = ?fs" using error_fields_order by blast+
  have d2: "depth + 2 \<le> 256" using d by simp
  have body: "write_fields (map (map_prod id writeValue) ?fs) ((depth + 2) + 1) =
      Inr (writeString (jlit ''name'') @ writeString name @ writeString (jlit ''message'') @ writeString message @ a @ b)"
    using write_error_fields [OF d cause ab] by (simp add: numeral_3_eq_3)
  from read_object_back [where es = ?fs and h = h and c = c and rest = rest, OF fields few ord d2 body]
  have part: "readValue (257 - (depth + 2)) h c ((writeHeader 5 (length ?fs) @
      writeString (jlit ''name'') @ writeString name @ writeString (jlit ''message'') @ writeString message @ a @ b) @ rest) = Inr (CObj None ?fs, rest)"
    by (simp only: append_assoc)
  have "buildError [CObj None ?fs] = Inr (CErr name message cause errors)"
    using agg cause
    by (auto simp: buildError_def arg_def payload_field_def error_fields_def rebuildError_def jget_def jlit_def split: option.splits)
  then have "readGenericObject h (CArr [CStr (jlit ''Error''), CObj None ?fs]) = Inr (CErr name message cause errors)"
    by (simp add: readGenericObject_def name_differs)
  from read_generic_two [OF d2 type_names(4) [OF c] part this] show ?thesis by (simp add: bs generic_header_def)
qed

lemma read_date_back:
  assumes "date_ok ms" "depth + 1 \<le> 256"
  shows "readValue (257 - depth) h c (writeTag TAG_EPOCH_DATETIME @ writeDouble (dbl_div ms (dbl_of_int 1000)) @ rest) = Inr (CDate ms, rest)"
proof -
  let ?d = "dbl_div ms (dbl_of_int 1000)"
  have "readValue (257 - (depth + 1)) h c (writeDouble ?d @ rest) = Inr (CNum ?d, rest)"
    using assms by (intro readValue_double) (simp_all add: date_ok_def)
  then show ?thesis
    using readValue_tag [of TAG_EPOCH_DATETIME depth h c "writeDouble ?d @ rest"] assms
    by (simp add: next_depth readTagged_def applyTag_def date_ok_def TAG_EPOCH_DATETIME_def TAG_MAP_def TAG_GENERIC_OBJECT_def TAG_DATETIME_def)
qed

lemma read_url_back:
  assumes "text_ok c href" "h_parseUrl h href = Some href" "depth + 1 \<le> 256"
  shows "readValue (257 - depth) h c (writeTag TAG_URI @ writeString href @ rest) = Inr (CUrl href, rest)"
proof -
  have "readValue (257 - (depth + 1)) h c (writeString href @ rest) = Inr (CStr href, rest)"
    using assms by (intro readValue_string)
  then show ?thesis
    using readValue_tag [of TAG_URI depth h c "writeString href @ rest"] assms
    by (simp add: next_depth readTagged_def applyTag_def TAG_EPOCH_DATETIME_def TAG_MAP_def TAG_GENERIC_OBJECT_def TAG_DATETIME_def
        TAG_URI_def TAG_UNSIGNED_BIGNUM_def TAG_NEGATIVE_BIGNUM_def)
qed

section \<open>The round trip\<close>

lemma reads_ok: "wide_enough c \<Longrightarrow> cbor_ok h c v \<Longrightarrow> reads h c v"
proof (induction v)
  case (CBiMap es)
  then have parts: "reads h c k \<and> reads h c v" if "(k, v) \<in> set es" for k v
    using that by (fastforce simp: list_all_iff)
  show ?case
    unfolding reads_def using CBiMap.prems by (auto intro!: read_bimap_back parts dest!: guardedD)
next
  case (CMulti rows)
  then have parts: "reads h c l \<and> (\<forall>r \<in> set rs. reads h c r)" if "(l, rs) \<in> set rows" for l rs
    using that by (fastforce simp: list_all_iff)
  have rows: "rs \<noteq> [] \<and> keys_ok rs \<and> counted rs" if "(l, rs) \<in> set rows" for l rs
    using CMulti.prems(2) that by (auto simp: list_all_iff)
  show ?case
    unfolding reads_def
  proof (intro allI impI)
    fix depth allow bs rest
    assume "writeValue (CMulti rows) depth allow = Inr bs"
    then have "writeBidirectionalMultiMap (map (map_prod writeValue (map writeValue)) rows) depth = Inr bs" by (auto dest!: guardedD)
    from read_multi_back [OF CMulti.prems(1) parts _ _ rows this] CMulti.prems(2)
    show "readValue (257 - depth) h c (bs @ rest) = Inr (CMulti rows, rest)" by simp
  qed
next
  case (CMap es)
  then have parts: "reads h c k \<and> reads h c v" if "(k, v) \<in> set es" for k v
    using that by (fastforce simp: list_all_iff)
  show ?case
    unfolding reads_def using CMap.prems by (auto intro!: read_map_back parts dest!: guardedD)
next
  case (CSet xs)
  then have parts: "reads h c x" if "x \<in> set xs" for x
    using that by (simp add: list_all_iff)
  show ?case
    unfolding reads_def using CSet.prems by (auto intro!: read_set_back parts dest!: guardedD)
next
  case (CArr xs)
  then have parts: "reads h c x" if "x \<in> set xs" for x
    using that by (simp add: list_all_iff)
  show ?case
    unfolding reads_def using CArr.prems by (auto intro!: read_array_back parts dest!: guardedD)
next
  case (CObj toJson es)
  then have parts: "text_ok c k \<and> reads h c v" if "(k, v) \<in> set es" for k v
    using that by (fastforce simp: list_all_iff)
  show ?case
    unfolding reads_def using CObj.prems
    by (auto simp: writeObject_def ebind_Inr_iff intro!: read_object_back parts dest!: guardedD split: bool.splits)
next
  case (CErr name message cause errors)
  have errs: "reads h c (CArr xs)" if "errors = Some xs" for xs
  proof -
    have parts: "reads h c x" if "x \<in> set xs" for x
      using CErr that \<open>errors = Some xs\<close> by (simp add: list_all_iff)
    show ?thesis
      unfolding reads_def using CErr.prems that by (auto intro!: read_array_back parts dest!: guardedD)
  qed
  have cause: "reads h c v" if "cause = Some v" for v using CErr that by simp
  show ?case
    unfolding reads_def
  proof (intro allI impI)
    fix depth allow bs rest
    assume "writeValue (CErr name message cause errors) depth allow = Inr bs"
    then have "writeError name message (map_option writeValue cause) (map_option (\<lambda>xs. writeValue (CArr xs)) errors) depth = Inr bs"
      using CErr.prems(2) unfolding writeValue.simps(16) errors_writer by (auto simp del: writeValue.simps dest!: guardedD)
    then show "readValue (257 - depth) h c (bs @ rest) = Inr (CErr name message cause errors, rest)"
      using CErr.prems cause errs by (intro read_error_back) auto
  qed
next
  case (CNum d)
  then show ?case unfolding reads_def by (auto simp: readValue_number dest!: guardedD)
next
  case (CBig n)
  then show ?case unfolding reads_def by (auto intro!: readValue_bigint dest!: guardedD requireDepthD)
next
  case (CDate ms)
  then show ?case unfolding reads_def by (auto intro!: read_date_back simp: MAX_NESTING_DEPTH_def dest!: guardedD requireDepthD)
next
  case (CUrl href)
  then show ?case unfolding reads_def by (auto intro!: read_url_back simp: MAX_NESTING_DEPTH_def dest!: guardedD requireDepthD)
qed (auto simp: reads_def readValue_string readValue_bytes readValue_simple intro!: read_regexp_back read_view_back dest!: guardedD requireDepthD split: option.splits)

end
