(* ===== verification/Cbor_Total.thy ===== *)
theory Cbor_Total
  imports Cbor_Roundtrip "HOL-Library.Code_Target_Numeral"
begin

text \<open>
  The encoder accepts every value the format carries, up to the nesting limit: \<open>levels\<close> counts what a value needs
  below its own depth, and \<open>writes\<close> says that enough room for them is all the encoder asks for. With what
  \<open>Cbor_Roundtrip\<close> shows of the decoder this gives the round trip.
\<close>

section \<open>Nesting\<close>

text \<open>The levels a value takes below its own, as the encoder counts them.\<close>

definition most :: "nat list \<Rightarrow> nat" where
  "most ns = foldr max ns 0"

lemma most_le: "most ns \<le> k \<longleftrightarrow> (\<forall>n \<in> set ns. n \<le> k)"
  by (induction ns) (auto simp: most_def)

definition below :: "nat \<Rightarrow> nat list \<Rightarrow> nat" where
  "below k ns = (if ns = [] then 0 else k + most ns)"

lemma below_le:
  assumes "d + below k ns \<le> b" "n \<in> set ns"
  shows "d + k + n \<le> b"
proof -
  have "n \<le> most ns" using most_le [of ns "most ns"] assms(2) by blast
  then show ?thesis using assms by (auto simp: below_def split: if_splits)
qed

lemma below_shift: "a + below (n + m) ns \<le> b \<Longrightarrow> a + n \<le> b \<Longrightarrow> a + n + below m ns \<le> b"
  by (auto simp: below_def split: if_splits)

primrec levels :: "cval \<Rightarrow> nat" where
  "levels CNull = 0"
| "levels CUndef = 0"
| "levels (CBool b) = 0"
| "levels (CNum d) = 0"
| "levels (CBig n) = 1"
| "levels (CStr s) = 0"
| "levels (CBytes bs) = 0"
| "levels (CDate ms) = 1"
| "levels (CBiMap es) = max 2 (below 3 (map (\<lambda>(a, b). max a b) (map (map_prod levels levels) es)))"
| "levels (CMulti rows) = max 2 (below 3 (map (\<lambda>(a, bs). max a (max 1 (below 2 bs))) (map (map_prod levels (map levels)) rows)))"
| "levels (CMap es) = below 1 (map (\<lambda>(a, b). max a b) (map (map_prod levels levels) es))"
| "levels (CSet xs) = max 1 (below 2 (map levels xs))"
| "levels (CView kind bs) = 2"
| "levels (CRegExp s f) = 2"
| "levels (CUrl href) = 1"
| "levels (CErr name message cause errors) =
     3 + max (case map_option levels cause of None \<Rightarrow> 0 | Some n \<Rightarrow> n)
             (case map_option (map levels) errors of None \<Rightarrow> 0 | Some ns \<Rightarrow> below 1 ns)"
| "levels (CBoxed v) = levels v"
| "levels (CArr xs) = below 1 (map levels xs)"
| "levels (CObj toJson es) = below 1 (map snd (map (map_prod id levels) es))"
| "levels CUnsupported = 0"

definition writes :: "cval \<Rightarrow> bool" where
  "writes v \<longleftrightarrow> (\<forall>depth allow. depth + levels v \<le> 256 \<longrightarrow> (\<exists>bs. writeValue v depth allow = Inr bs))"

lemma writesD: "writes v \<Longrightarrow> depth + levels v \<le> 256 \<Longrightarrow> \<exists>bs. writeValue v depth allow = Inr bs"
  by (simp add: writes_def)

lemma write_seq_ok:
  "(\<And>x. x \<in> set xs \<Longrightarrow> writes x \<and> depth + levels x \<le> 256) \<Longrightarrow> \<exists>bs. write_seq (map writeValue xs) depth = Inr bs"
proof (induction xs)
  case (Cons x xs)
  obtain b where "write_seq (map writeValue xs) depth = Inr b" using Cons by auto
  moreover obtain a where "writeValue x depth True = Inr a" using Cons.prems [of x] writesD by (meson list.set_intros(1))
  ultimately show ?case by simp
qed simp

lemma write_pairs_ok:
  "(\<And>k v. (k, v) \<in> set es \<Longrightarrow> writes k \<and> writes v \<and> depth + levels k \<le> 256 \<and> depth + levels v \<le> 256) \<Longrightarrow>
   \<exists>bs. write_pairs (map (map_prod writeValue writeValue) es) depth = Inr bs"
proof (induction es)
  case (Cons e es)
  obtain k v where e: "e = (k, v)" by (cases e)
  obtain b where "write_pairs (map (map_prod writeValue writeValue) es) depth = Inr b"
    using Cons.IH Cons.prems by (meson list.set_intros(2))
  moreover obtain a where "writeValue k depth True = Inr a" using Cons.prems [of k v] e writesD by (meson list.set_intros(1))
  moreover obtain d where "writeValue v depth True = Inr d" using Cons.prems [of k v] e writesD by (meson list.set_intros(1))
  ultimately show ?case by (simp add: e)
qed simp

lemma write_fields_ok:
  "(\<And>k v. (k, v) \<in> set es \<Longrightarrow> writes v \<and> depth + levels v \<le> 256) \<Longrightarrow> \<exists>bs. write_fields (map (map_prod id writeValue) es) depth = Inr bs"
proof (induction es)
  case (Cons e es)
  obtain k v where e: "e = (k, v)" by (cases e)
  obtain b where "write_fields (map (map_prod id writeValue) es) depth = Inr b"
    using Cons.IH Cons.prems by (meson list.set_intros(2))
  moreover obtain a where "writeValue v depth True = Inr a" using Cons.prems [of k v] e writesD by (meson list.set_intros(1))
  ultimately show ?case unfolding list.map e map_prod_simp id_apply write_fields.simps by simp
qed simp

lemma guarded_ok: "depth \<le> 256 \<Longrightarrow> guarded w depth allow = w depth allow"
  by (simp add: guarded_def MAX_NESTING_DEPTH_def)

lemma requireDepth_ok: "k \<le> 256 \<Longrightarrow> requireDepth k r = r"
  by (simp add: requireDepth_def MAX_NESTING_DEPTH_def)

lemma pairs_below:
  assumes "(k, v) \<in> set es" "depth + below n (map (\<lambda>(a, b). max a b) (map (map_prod levels levels) es)) \<le> 256"
  shows "depth + n + levels k \<le> 256 \<and> depth + n + levels v \<le> 256"
proof -
  have "max (levels k) (levels v) \<in> set (map (\<lambda>(a, b). max a b) (map (map_prod levels levels) es))"
    using assms(1) by force
  from below_le [OF assms(2) this] show ?thesis by (simp add: max_def split: if_splits)
qed

lemma items_below:
  "x \<in> set xs \<Longrightarrow> depth + below n (map levels xs) \<le> 256 \<Longrightarrow> depth + n + levels x \<le> 256"
  using below_le [of depth n "map levels xs" 256 "levels x"] by simp

lemma write_array_ok:
  assumes "\<And>x. x \<in> set xs \<Longrightarrow> writes x" "depth + below 1 (map levels xs) \<le> 256"
  shows "\<exists>bs. writeArray (map writeValue xs) depth = Inr bs"
  using write_seq_ok [of xs "depth + 1"] assms items_below [of _ xs depth 1] by (fastforce simp: writeArray_def)

lemma write_set_ok:
  assumes "\<And>x. x \<in> set xs \<Longrightarrow> writes x" "depth + max 1 (below 2 (map levels xs)) \<le> 256"
  shows "\<exists>bs. writeSet (map writeValue xs) depth = Inr bs"
proof -
  have "\<exists>bs. write_seq (map writeValue xs) (depth + 2) = Inr bs"
    using assms items_below [of _ xs depth 2] by (intro write_seq_ok) simp
  then show ?thesis using assms(2) by (auto simp: writeSet_def requireDepth_ok)
qed

lemma write_map_ok:
  assumes "\<And>k v. (k, v) \<in> set es \<Longrightarrow> writes k \<and> writes v"
    "depth + below 1 (map (\<lambda>(a, b). max a b) (map (map_prod levels levels) es)) \<le> 256"
  shows "\<exists>bs. writeMapBody (map (map_prod writeValue writeValue) es) depth = Inr bs"
  using write_pairs_ok [of es "depth + 1"] assms pairs_below [of _ _ es depth 1] by (fastforce simp: writeMapBody_def)

lemma write_bimap_ok:
  assumes "\<And>k v. (k, v) \<in> set es \<Longrightarrow> writes k \<and> writes v" "depth + levels (CBiMap es) \<le> 256"
  shows "\<exists>bs. writeBidirectionalMap (map (map_prod writeValue writeValue) es) depth = Inr bs"
proof -
  have "\<exists>bs. writeMapBody (map (map_prod writeValue writeValue) es) (depth + 2) = Inr bs"
    by (intro write_map_ok assms(1) below_shift) (use assms(2) in auto)
  then show ?thesis using assms(2) by (auto simp: writeBidirectionalMap_def requireDepth_ok)
qed

text \<open>A row is written as its key beside the set of its partners, so the rows are the entries of a map into sets.\<close>

lemma rows_as_sets:
  "map (\<lambda>(l, rs). (l, guarded (\<lambda>d _. writeSet rs d))) (map (map_prod writeValue (map writeValue)) rows) =
   map (map_prod writeValue writeValue) (map (map_prod id CSet) rows)"
  by (induction rows) auto

lemma levels_rows:
  "map (\<lambda>(a, bs). max a (max 1 (below 2 bs))) (map (map_prod levels (map levels)) rows) =
   map (\<lambda>(a, b). max a b) (map (map_prod levels levels) (map (map_prod id CSet) rows))"
  by (induction rows) auto

lemma write_multi_ok:
  assumes "\<And>l rs. (l, rs) \<in> set rows \<Longrightarrow> writes l \<and> (\<forall>r \<in> set rs. writes r)" "depth + levels (CMulti rows) \<le> 256"
  shows "\<exists>bs. writeBidirectionalMultiMap (map (map_prod writeValue (map writeValue)) rows) depth = Inr bs"
proof -
  have sets: "writes (CSet rs)" if "(l, rs) \<in> set rows" for l rs
    unfolding writes_def using assms(1) [OF that] write_set_ok [of rs] by (auto simp: guarded_ok)
  have "\<exists>bs. writeMapBody (map (map_prod writeValue writeValue) (map (map_prod id CSet) rows)) (depth + 2) = Inr bs"
  proof (rule write_map_ok)
    show "writes k \<and> writes v" if "(k, v) \<in> set (map (map_prod id CSet) rows)" for k v
      using that assms(1) sets by auto
    show "depth + 2 + below 1 (map (\<lambda>(a, b). max a b) (map (map_prod levels levels) (map (map_prod id CSet) rows))) \<le> 256"
      using assms(2) unfolding levels.simps levels_rows by (intro below_shift) auto
  qed
  then show ?thesis
    using assms(2) unfolding writeBidirectionalMultiMap_def rows_as_sets by (auto simp: requireDepth_ok)
qed

lemma write_object_ok:
  assumes "\<And>k v. (k, v) \<in> set es \<Longrightarrow> writes v" "depth + levels (CObj None es) \<le> 256"
  shows "\<exists>bs. writeObject None (map (map_prod id writeValue) es) depth allow = Inr bs"
proof -
  have "\<exists>bs. write_fields (map (map_prod id writeValue) es) (depth + 1) = Inr bs"
  proof (rule write_fields_ok)
    fix k v assume kv: "(k, v) \<in> set es"
    then have "levels v \<in> set (map snd (map (map_prod id levels) es))" by force
    from below_le [OF _ this, of depth 1 256] assms kv
    show "writes v \<and> depth + 1 + levels v \<le> 256" by (auto split: option.splits)
  qed
  then show ?thesis unfolding writeObject_def by (auto split: bool.splits)
qed

lemma write_error_ok:
  assumes "pred_option writes cause" "pred_option (list_all writes) errors" "cause \<noteq> Some CUndef"
    and d: "depth + levels (CErr name message cause errors) \<le> 256"
  shows "\<exists>bs. writeValue (CErr name message cause errors) depth allow = Inr bs"
proof -
  have c: "\<exists>bs. write_optional t (map_option writeValue cause) (depth + 3) = Inr bs" for t
    using assms by (cases cause) (auto simp: write_optional_def writes_def ebind_Inr_iff)
  have e: "\<exists>bs. write_optional t (map_option (\<lambda>ws. guarded (\<lambda>d _. writeArray ws d)) (map_option (map writeValue) errors)) (depth + 3) = Inr bs" for t
  proof (cases errors)
    case (Some xs)
    have "\<exists>bs. writeArray (map writeValue xs) (depth + 3) = Inr bs"
      by (rule write_array_ok) (use assms Some in \<open>auto simp: list_all_iff\<close>)
    then show ?thesis using d Some by (auto simp: write_optional_def guarded_ok ebind_Inr_iff)
  qed (simp add: write_optional_def)
  show ?thesis
    using c [of "''cause''"] e [of "''errors''"] d assms(3)
    by (auto simp: guarded_ok writeError_def requireDepth_ok)
qed

lemma writes_ok: "cbor_ok h c v \<Longrightarrow> writes v"
proof (induction v)
  case (CBiMap es)
  then have "writes k \<and> writes v" if "(k, v) \<in> set es" for k v
    using that by (fastforce simp: list_all_iff)
  from write_bimap_ok [OF this] show ?case unfolding writes_def by (auto simp: guarded_ok)
next
  case (CMulti rows)
  then have "writes l \<and> (\<forall>r \<in> set rs. writes r)" if "(l, rs) \<in> set rows" for l rs
    using that by (fastforce simp: list_all_iff)
  from write_multi_ok [OF this] show ?case unfolding writes_def by (auto simp: guarded_ok)
next
  case (CMap es)
  then have "writes k \<and> writes v" if "(k, v) \<in> set es" for k v
    using that by (fastforce simp: list_all_iff)
  from write_map_ok [OF this] show ?case unfolding writes_def by (auto simp: guarded_ok)
next
  case (CSet xs)
  then have "writes x" if "x \<in> set xs" for x using that by (simp add: list_all_iff)
  from write_set_ok [OF this] show ?case unfolding writes_def by (auto simp: guarded_ok)
next
  case (CArr xs)
  then have "writes x" if "x \<in> set xs" for x using that by (simp add: list_all_iff)
  from write_array_ok [OF this] show ?case unfolding writes_def by (auto simp: guarded_ok)
next
  case (CObj toJson es)
  then have "writes v" if "(k, v) \<in> set es" for k v
    using that by (fastforce simp: list_all_iff)
  from write_object_ok [OF this] CObj.prems show ?case unfolding writes_def by (auto simp: guarded_ok)
next
  case (CErr name message cause errors)
  have "pred_option writes cause" "pred_option (list_all writes) errors"
    using CErr by (auto simp: option.pred_set list_all_iff)
  then show ?case using CErr.prems write_error_ok unfolding writes_def by simp
qed (auto simp: writes_def guarded_ok requireDepth_ok writeBigInt_def writeRegExp_def writeBinaryView_def split: option.splits if_splits)

text \<open>A host whose parsers take every text as it is.\<close>

definition permissive_host :: cbor_host where
  "permissive_host = \<lparr>h_parseDate = (\<lambda>_. DNaN), h_parseUrl = Some, h_regExp = (\<lambda>s f. Some (s, f)), h_float16 = True\<rparr>"

text \<open>
  C39. A value the format carries, nested no deeper than the limit, is encoded without an error, and decoding the bytes
  gives back that value: objects with the order of their keys, maps, sets, two-way maps and multimaps,
  typed arrays, dates, bigints, URLs, patterns and errors with their causes.
\<close>

theorem cbor_roundtrip:
  assumes "wide_enough c" "maxDocumentBytes c = 0" "cbor_ok h c v" "levels v \<le> MAX_NESTING_DEPTH"
  shows "\<exists>bs. toBinary v = Inr bs \<and> fromBinary h c bs = Inr v"
proof -
  obtain bs where bs: "writeValue v 0 True = Inr bs"
    using writesD [OF writes_ok [OF assms(3)], of 0 True] assms(4) by (auto simp: MAX_NESTING_DEPTH_def)
  have "readValue 257 h c bs = Inr (v, [])"
    using readsD [OF reads_ok [OF assms(1,3)] bs, of "[]"] by simp
  then show ?thesis
    using bs assms(1,2) by (auto simp: toBinary_def cbor_encode_def fromBinary_def cbor_decode_def wide_enough_def MAX_NESTING_DEPTH_def)
qed

definition sample_value :: cval where
  "sample_value =
     CObj None
       [(jlit ''at'', CDate (Dbl False 0 0)),
        (jlit ''tags'', CSet [CStr (jlit ''a''), CNull, CArr []]),
        (jlit ''peers'', CMulti [(CUrl (jlit ''x''), [CBool True, CBool False])]),
        (jlit ''why'', CErr (jlit ''no'') (jlit ''no'') (Some (CMap [(CStr (jlit ''a''), CBytes [1, 2])])) None)]"

lemma sample_texts:
  "list_all (text_ok defaultReadConstraintsOptions) (map jlit [''at'', ''tags'', ''a'', ''peers'', ''x'', ''why'', ''no''])"
  by code_simp

lemma sample_time: "date_ok (Dbl False 0 0)"
proof -
  have "dbl_of_int 1000 = Dbl False 1032 4292493394837504" by code_simp
  then show ?thesis
    by (simp add: date_ok_def dbl_ok_def dbl_div_def dbl_mult_def dbl_round_def dbl_abs_def dbl_mant_def dbl_sign_def dbl_isFinite_def
        time_clip_def dbl_of_int_def dbl_make_def rat_pow2_def dbl_exp_def)
qed

lemma sample_keys: "distinct (map jlit [''at'', ''tags'', ''peers'', ''why''])"
  by code_simp

lemma sample_order: "property_order [(jlit ''at'', a), (jlit ''tags'', b), (jlit ''peers'', c), (jlit ''why'', d)] =
   [(jlit ''at'', a), (jlit ''tags'', b), (jlit ''peers'', c), (jlit ''why'', d)]"
  by (simp add: property_order_def index_key_def jlit_def)

lemma sample_ok: "cbor_ok permissive_host defaultReadConstraintsOptions sample_value"
  using sample_texts sample_time sample_keys
  by (simp add: sample_order sample_value_def counted_def MAX_SAFE_def permissive_host_def keys_ok_def all_distinct_def is_primitive_def
      zero_norm_def length_ok_def defaultReadConstraintsOptions_def del: One_nat_def)

theorem cbor_roundtrip_witness:
  "\<exists>bs. toBinary sample_value = Inr bs \<and> fromBinary permissive_host defaultReadConstraintsOptions bs = Inr sample_value"
proof (rule cbor_roundtrip)
  show "wide_enough defaultReadConstraintsOptions" by code_simp
  show "maxDocumentBytes defaultReadConstraintsOptions = 0" by code_simp
  show "cbor_ok permissive_host defaultReadConstraintsOptions sample_value" by (rule sample_ok)
  show "levels sample_value \<le> MAX_NESTING_DEPTH" by code_simp
qed

end
