(* ===== verification/Cbor_Bounds.thy ===== *)
theory Cbor_Bounds
  imports Cbor_Total "HOL-Library.Sublist"
begin

text \<open>
  What a decoder builds is no larger than what it read: every value it returns has at most as many nodes as it consumed
  bytes. A document of a few bytes that claims a huge array or map is an error, not an allocation.
\<close>

section \<open>Sizes of the containers\<close>

primrec nodes :: "cval \<Rightarrow> nat" where
  "nodes CNull = 1"
| "nodes CUndef = 1"
| "nodes (CBool b) = 1"
| "nodes (CNum d) = 1"
| "nodes (CBig n) = 1"
| "nodes (CStr s) = 1"
| "nodes (CBytes bs) = 1"
| "nodes (CDate ms) = 1"
| "nodes (CBiMap es) = 1 + sum_list (map (\<lambda>(a, b). a + b) (map (map_prod nodes nodes) es))"
| "nodes (CMulti rows) = 1 + sum_list (map (\<lambda>(a, bs). a + sum_list bs) (map (map_prod nodes (map nodes)) rows))"
| "nodes (CMap es) = 1 + sum_list (map (\<lambda>(a, b). a + b) (map (map_prod nodes nodes) es))"
| "nodes (CSet xs) = 1 + sum_list (map nodes xs)"
| "nodes (CView kind bs) = 1"
| "nodes (CRegExp s f) = 1"
| "nodes (CUrl href) = 1"
| "nodes (CErr name message cause errors) =
     3 + (case map_option nodes cause of None \<Rightarrow> 0 | Some n \<Rightarrow> n) +
         (case map_option (map nodes) errors of None \<Rightarrow> 0 | Some ns \<Rightarrow> sum_list ns)"
| "nodes (CBoxed v) = 1 + nodes v"
| "nodes (CArr xs) = 1 + sum_list (map nodes xs)"
| "nodes (CObj toJson es) = 1 + (case map_option nodes toJson of None \<Rightarrow> 0 | Some n \<Rightarrow> n) + sum_list (map (\<lambda>(k, n). 1 + n) (map (map_prod id nodes) es))"
| "nodes CUnsupported = 1"

abbreviation pair_nodes :: "cval \<times> cval \<Rightarrow> nat" where
  "pair_nodes e \<equiv> nodes (fst e) + nodes (snd e)"

abbreviation row_nodes :: "cval \<times> cval list \<Rightarrow> nat" where
  "row_nodes e \<equiv> nodes (fst e) + sum_list (map nodes (snd e))"

abbreviation field_nodes :: "jstr \<times> cval \<Rightarrow> nat" where
  "field_nodes e \<equiv> 1 + nodes (snd e)"

lemma nodes_containers [simp]:
  "nodes (CBiMap es) = 1 + sum_list (map pair_nodes es)"
  "nodes (CMap es) = 1 + sum_list (map pair_nodes es)"
  "nodes (CMulti rows) = 1 + sum_list (map row_nodes rows)"
  "nodes (CObj None fs) = 1 + sum_list (map field_nodes fs)"
proof -
  have pairs: "sum_list (map (\<lambda>(a, b). a + b) (map (map_prod nodes nodes) es)) = sum_list (map pair_nodes es)"
    by (induction es) auto
  have rows: "sum_list (map (\<lambda>(a, bs). a + sum_list bs) (map (map_prod nodes (map nodes)) rows)) = sum_list (map row_nodes rows)"
    by (induction rows) auto
  have fields: "sum_list (map (\<lambda>(k, n). 1 + n) (map (map_prod id nodes) fs)) = sum_list (map field_nodes fs)"
    by (induction fs) auto
  show "nodes (CBiMap es) = 1 + sum_list (map pair_nodes es)" "nodes (CMap es) = 1 + sum_list (map pair_nodes es)"
    "nodes (CMulti rows) = 1 + sum_list (map row_nodes rows)" "nodes (CObj None fs) = 1 + sum_list (map field_nodes fs)"
    unfolding nodes.simps pairs rows fields by simp_all
qed

lemma nodes_object: "sum_list (map field_nodes es) < nodes (CObj toJson es)"
proof -
  have "sum_list (map (\<lambda>(k, n). 1 + n) (map (map_prod id nodes) es)) = sum_list (map field_nodes es)"
    by (induction es) auto
  note fields = this
  show ?thesis unfolding nodes.simps fields by simp
qed

declare nodes.simps(9,10,11,19) [simp del]

lemma nodes_pos: "nodes v \<ge> 1"
  using nodes_object by (cases v) (auto simp: Suc_le_eq intro: le_less_trans)

lemma nodes_deref: "nodes (deref (ref_of i v)) = nodes v"
  by (auto simp: ref_of_def)

text \<open>The weight of a map after an entry is set.\<close>

lemma weight_jset:
  "sum_list (map w (jset m k v)) + (case jget m k of None \<Rightarrow> 0 | Some old \<Rightarrow> w (k, old)) = sum_list (map w m) + (w (k, v) :: nat)"
  by (induction m) (auto simp: jmap_defs)

lemma weight_jset_le: "sum_list (map w (jset m k v)) \<le> sum_list (map w m) + (w (k, v) :: nat)"
  using weight_jset [of w m k v] by simp

lemma weight_fold:
  "sum_list (map w (foldl (\<lambda>m x. jset m (f x) (g x)) m xs)) \<le> sum_list (map w m) + sum_list (map (\<lambda>x. w (f x, g x) :: nat) xs)"
proof (induction xs arbitrary: m)
  case (Cons x xs)
  show ?case using Cons.IH [of "jset m (f x) (g x)"] weight_jset_le [of w m "f x" "g x"] by simp
qed simp

lemma sum_enumerate: "sum_list (map (\<lambda>(i, x). g x) (enumerate n xs)) = (sum_list (map g xs) :: nat)"
  by (induction xs arbitrary: n) auto

lemma length_le_weight: "(\<And>x. x \<in> set xs \<Longrightarrow> w x \<ge> 1) \<Longrightarrow> length xs \<le> (sum_list (map w xs) :: nat)"
  by (induction xs) fastforce+

lemma build_map_nodes: "sum_list (map pair_nodes (build_map ps)) \<le> sum_list (map pair_nodes ps)"
proof -
  let ?w = "\<lambda>e. nodes (deref (fst e)) + nodes (snd e)"
  have "sum_list (map pair_nodes (build_map ps)) =
      sum_list (map ?w (foldl (\<lambda>m x. jset m (ref_of (fst x, 0) (fst (snd x))) (snd (snd x))) [] (enumerate 0 ps)))"
    by (simp add: build_map_def comp_def case_prod_unfold)
  also have "\<dots> \<le> sum_list (map (\<lambda>(i, e). pair_nodes e) (enumerate 0 ps))"
    using weight_fold [of ?w "\<lambda>x. ref_of (fst x, 0) (fst (snd x))" "\<lambda>x. snd (snd x)" "[]" "enumerate 0 ps"]
    by (simp add: nodes_deref case_prod_unfold)
  finally show ?thesis by (simp add: sum_enumerate)
qed

lemma weight_sof: "sum_list (map g (sof xs)) \<le> (sum_list (map g xs) :: nat)"
proof -
  have "sum_list (map g (foldl sadd s xs)) \<le> sum_list (map g s) + sum_list (map g xs)" for s
  proof (induction xs arbitrary: s)
    case (Cons x xs)
    show ?case using Cons.IH [of "sadd s x"] by (auto simp: sadd_def split: if_splits)
  qed simp
  from this [of "[]"] show ?thesis by (simp add: jset_defs)
qed

lemma build_set_nodes: "sum_list (map nodes (build_set xs)) \<le> sum_list (map nodes xs)"
proof -
  have "sum_list (map nodes (build_set xs)) \<le> sum_list (map (\<lambda>(i, x). nodes x) (enumerate 0 xs))"
    using weight_sof [of "\<lambda>x. nodes (deref x)" "map (\<lambda>(i, x). ref_of (i, 0) x) (enumerate 0 xs)"]
    by (simp add: build_set_def comp_def nodes_deref case_prod_unfold)
  then show ?thesis by (simp add: sum_enumerate)
qed

lemma sum_filter_le: "sum_list (map g (filter p xs)) \<le> (sum_list (map g xs) :: nat)"
  by (induction xs) auto

lemma build_bimap_nodes: "sum_list (map pair_nodes (build_bimap es)) \<le> sum_list (map pair_nodes es)"
proof -
  have "sum_list (map pair_nodes (build_bimap es)) \<le> sum_list (map (\<lambda>x. pair_nodes (snd x)) (enumerate 0 es))"
    unfolding build_bimap_def Let_def map_map comp_def by (rule sum_filter_le)
  then show ?thesis using sum_enumerate [of pair_nodes 0 es] by (simp add: case_prod_unfold)
qed

lemma build_object_nodes: "sum_list (map field_nodes (build_object es)) \<le> sum_list (map field_nodes es)"
proof -
  have order: "sum_list (map w (property_order xs)) = sum_list (map w xs)" for w :: "jstr \<times> cval \<Rightarrow> nat" and xs
  proof -
    have "mset (property_order xs) = mset xs" by (simp add: property_order_def case_prod_unfold)
    then show ?thesis by (metis mset_map sum_mset_sum_list)
  qed
  show ?thesis
    using weight_fold [of field_nodes fst snd "[]" es] by (simp add: build_object_def order case_prod_unfold)
qed

text \<open>A pair added to a two-way multimap costs its right side, and its left side when the row is new.\<close>

definition mm_weight :: "(cref, cref) multimap \<Rightarrow> nat" where
  "mm_weight m = sum_list (map (\<lambda>e. nodes (deref (fst e)) + sum_list (map (\<lambda>r. nodes (deref r)) (snd e))) (mm_forward m))"

lemma mm_add_weight:
  "mm_weight (mm_add l r m) \<le> mm_weight m + nodes (deref r) + (if jhas (mm_forward m) l then 0 else nodes (deref l))"
  "jhas (mm_forward (mm_add l r m)) l"
proof -
  let ?w = "\<lambda>e. nodes (deref (fst e)) + sum_list (map (\<lambda>r. nodes (deref r)) (snd e))"
  show "jhas (mm_forward (mm_add l r m)) l"
    by (auto simp: mm_add_def Let_def jhas_iff split: option.splits)
  have known: "sum_list (map ?w (jset f l (sadd s r))) \<le> sum_list (map ?w f) + nodes (deref r)"
    if "jget f l = Some s" for f s
    using weight_jset [of ?w f l "sadd s r"] that by (auto simp: sadd_def split: if_splits)
  have new: "sum_list (map ?w (jset f l [])) \<le> sum_list (map ?w f) + nodes (deref l)" for f
    using weight_jset_le [of ?w f l "[]"] by simp
  show "mm_weight (mm_add l r m) \<le> mm_weight m + nodes (deref r) + (if jhas (mm_forward m) l then 0 else nodes (deref l))"
    using known [of "mm_forward m"] known [of "jset (mm_forward m) l []" "[]"] new [of "mm_forward m"]
    by (auto simp: mm_weight_def mm_add_def Let_def row_def jhas_iff split: option.splits)
qed

lemma mm_add_row_weight:
  "mm_weight (foldl (\<lambda>m (l, r). mm_add l r m) m (map (Pair l) rs)) \<le>
     mm_weight m + sum_list (map (\<lambda>r. nodes (deref r)) rs) + (if jhas (mm_forward m) l then 0 else nodes (deref l))"
proof (induction rs arbitrary: m)
  case (Cons r rs)
  show ?case using Cons.IH [of "mm_add l r m"] mm_add_weight [of l r m] by simp
qed simp

lemma mm_add_rows_weight:
  "mm_weight (foldl (\<lambda>m (l, r). mm_add l r m) m (concat (map (\<lambda>(l, rs). map (Pair l) rs) rows))) \<le>
     mm_weight m + sum_list (map (\<lambda>e. nodes (deref (fst e)) + sum_list (map (\<lambda>r. nodes (deref r)) (snd e))) rows)"
proof (induction rows arbitrary: m)
  case (Cons e rows)
  obtain l rs where e: "e = (l, rs)" by (cases e)
  show ?case
    using Cons.IH [of "foldl (\<lambda>m (l, r). mm_add l r m) m (map (Pair l) rs)"] mm_add_row_weight [of m l rs]
    by (simp add: e split: if_splits)
qed simp

lemma build_multi_nodes: "sum_list (map row_nodes (build_multi rows)) \<le> sum_list (map row_nodes rows)"
proof -
  define refs where "refs = map (\<lambda>(i, l, rs). (ref_of (i, 0) l, map (\<lambda>(j, r). ref_of (i, j + 1) r) (enumerate 0 rs))) (enumerate 0 rows)"
  have pairs: "map (\<lambda>(i, l, rs). map (\<lambda>(j, r). (ref_of (i, 0) l, ref_of (i, j + 1) r)) (enumerate 0 rs)) (enumerate 0 rows) =
      map (\<lambda>(l, rs). map (Pair l) rs) refs"
    by (auto simp: refs_def)
  have row: "sum_list (map (\<lambda>(j, r). nodes (deref (ref_of (i, j + 1) r))) (enumerate 0 rs)) = sum_list (map nodes rs)" for i rs
    using sum_enumerate [of nodes 0 rs] by (simp add: nodes_deref)
  have "sum_list (map row_nodes (build_multi rows)) = mm_weight (mm_new (concat (map (\<lambda>(l, rs). map (Pair l) rs) refs)))"
    unfolding build_multi_def pairs by (simp add: mm_weight_def comp_def case_prod_unfold)
  also have "\<dots> \<le> sum_list (map (\<lambda>e. nodes (deref (fst e)) + sum_list (map (\<lambda>r. nodes (deref r)) (snd e))) refs)"
    using mm_add_rows_weight [of mm_empty refs] by (simp add: mm_new_def mm_weight_def mm_empty_def)
  also have "\<dots> = sum_list (map (\<lambda>(i, e). row_nodes e) (enumerate 0 rows))"
    using row by (simp add: refs_def comp_def nodes_deref case_prod_unfold)
  finally show ?thesis by (simp add: sum_enumerate)
qed

section \<open>What the parts of a decoder consume\<close>

text \<open>A reader leaves a rest of its input, and has consumed at least one byte for each node.\<close>

definition frugal :: "reader \<Rightarrow> bool" where
  "frugal rd \<longleftrightarrow> (\<forall>bs v r. rd bs = Inr (v, r) \<longrightarrow> suffix r bs \<and> nodes v + length r \<le> length bs)"

lemma frugalD: "frugal rd \<Longrightarrow> rd bs = Inr (v, r) \<Longrightarrow> suffix r bs \<and> nodes v + length r \<le> length bs"
  by (simp add: frugal_def)

lemma read_items_frugal:
  "frugal rd \<Longrightarrow> read_items rd k bs = Inr (xs, r) \<Longrightarrow>
   suffix r bs \<and> length xs = k \<and> sum_list (map nodes xs) + length r \<le> length bs"
proof (induction rd k bs arbitrary: xs r rule: read_items.induct)
  case (1 rd k bs)
  show ?case
  proof (cases "k = 0")
    case False
    then obtain x r1 xs' where x: "rd bs = Inr (x, r1)" "read_items rd (k - 1) r1 = Inr (xs', r)" "xs = x # xs'"
      using "1.prems"(2) unfolding read_items.simps [of rd k bs] by (auto simp: ebind_Inr_iff)
    from frugalD [OF "1.prems"(1) x(1)] "1.IH" [OF False "1.prems"(1) x(2)] x(3) False
    show ?thesis using suffix_order.trans by auto
  qed (use "1.prems" in \<open>simp add: read_items.simps\<close>)
qed

lemma read_pairs_frugal:
  "frugal rd \<Longrightarrow> read_pairs rd k bs = Inr (es, r) \<Longrightarrow>
   suffix r bs \<and> length es = k \<and> sum_list (map pair_nodes es) + length r \<le> length bs"
proof (induction rd k bs arbitrary: es r rule: read_pairs.induct)
  case (1 rd k bs)
  show ?case
  proof (cases "k = 0")
    case False
    then obtain key r1 v r2 es' where x: "rd bs = Inr (key, r1)" "rd r1 = Inr (v, r2)" "read_pairs rd (k - 1) r2 = Inr (es', r)" "es = (key, v) # es'"
      using "1.prems"(2) unfolding read_pairs.simps [of rd k bs] by (auto simp: ebind_Inr_iff)
    from frugalD [OF "1.prems"(1) x(1)] frugalD [OF "1.prems"(1) x(2)] "1.IH" [OF False "1.prems"(1) x(3)] x(4) False
    show ?thesis by (auto dest: suffix_order.trans)
  qed (use "1.prems" in \<open>simp add: read_pairs.simps\<close>)
qed

lemma read_fields_frugal:
  "frugal rd \<Longrightarrow> read_fields rd k bs = Inr (es, r) \<Longrightarrow>
   suffix r bs \<and> length es = k \<and> sum_list (map field_nodes es) + length r \<le> length bs"
proof (induction rd k bs arbitrary: es r rule: read_fields.induct)
  case (1 rd k bs)
  show ?case
  proof (cases "k = 0")
    case False
    then obtain key r1 v r2 where kv: "rd bs = Inr (key, r1)" "rd r1 = Inr (v, r2)"
      "(case key of CStr name \<Rightarrow> ebind (read_fields rd (k - 1) r2) (\<lambda>(es, r''). Inr ((name, v) # es, r'')) | _ \<Rightarrow> Inl Non_String_Key) = Inr (es, r)"
      using "1.prems"(2) unfolding read_fields.simps [of rd k bs] by (auto simp: ebind_Inr_iff)
    then obtain name es' where x: "rd bs = Inr (CStr name, r1)" "rd r1 = Inr (v, r2)" "read_fields rd (k - 1) r2 = Inr (es', r)" "es = (name, v) # es'"
      by (cases key) (auto simp: ebind_Inr_iff)
    from frugalD [OF "1.prems"(1) x(1)] frugalD [OF "1.prems"(1) x(2)] "1.IH" [OF False refl "1.prems"(1) x(3)] x(4) False
    show ?thesis by (auto dest: suffix_order.trans)
  qed (use "1.prems" in \<open>simp add: read_fields.simps\<close>)
qed

lemma readLength_suffix: "readLength add bs = Inr (n, r) \<Longrightarrow> suffix r bs"
  by (auto simp: readLength_def readUint_def suffix_drop split: if_splits)

lemma readSimple_frugal: "readSimple add bs = Inr (v, r) \<Longrightarrow> suffix r bs \<and> nodes v = 1"
  by (auto simp: readSimple_def readHalfFloat_def Let_def suffix_drop split: if_splits prod.splits)

section \<open>What the tags build\<close>

lemma applyTag_nodes: "applyTag h tag inner = Inr v \<Longrightarrow> nodes v \<le> nodes inner"
  using build_set_nodes nodes_pos
  by (auto simp: applyTag_def Let_def split: if_splits cval.split_asm option.split_asm)

lemma arg_nodes: "nodes (arg args i) \<le> 1 + sum_list (map nodes args)"
proof (cases "i < length args")
  case True
  then have "nodes (args ! i) \<in> set (map nodes args)" by simp
  from member_le_sum_list [OF this] show ?thesis using True by (simp add: arg_def)
qed (simp add: arg_def)

lemma set_members_iff: "set_members p = Some xs \<longleftrightarrow> p = CSet xs"
  by (cases p) (auto simp: set_members_def)

lemma set_rows_nodes:
  "list_all (\<lambda>(l, p). set_members p \<noteq> None) es \<Longrightarrow>
   sum_list (map row_nodes (map (\<lambda>(l, p). (l, the (set_members p))) es)) \<le> sum_list (map pair_nodes es)"
  by (induction es) (auto simp: set_members_iff, simp add: set_members_def)

text \<open>Properties with different names are different parts of an object.\<close>

lemma fields_nodes:
  "distinct ks \<Longrightarrow> sum_list (map (\<lambda>k. case jget es k of None \<Rightarrow> 0 | Some v \<Rightarrow> nodes v) ks) \<le> sum_list (map field_nodes es)"
proof (induction es arbitrary: ks)
  case (Cons e es)
  obtain k v where e: "e = (k, v)" by (cases e)
  let ?f = "\<lambda>es k. case jget es k of None \<Rightarrow> 0 | Some v \<Rightarrow> nodes v"
  have rest: "map (?f (e # es)) (remove1 k ks) = map (?f es) (remove1 k ks)"
    using Cons.prems e by (auto simp: jget_def)
  have "sum_list (map (?f (e # es)) ks) \<le> nodes v + sum_list (map (?f es) (remove1 k ks))"
  proof (cases "k \<in> set ks")
    case True
    have "sum_list (map (?f (e # es)) ks) = ?f (e # es) k + sum_list (map (?f (e # es)) (remove1 k ks))"
      by (rule sum_list_map_remove1) (rule True)
    moreover have "?f (e # es) k = nodes v" by (simp add: e jget_def)
    ultimately show ?thesis unfolding rest by simp
  next
    case False
    then have "sum_list (map (?f (e # es)) ks) = sum_list (map (?f (e # es)) (remove1 k ks))" by (simp add: remove1_idem)
    then show ?thesis unfolding rest by simp
  qed
  then show ?case using Cons.IH [of "remove1 k ks"] Cons.prems e by simp
qed (simp add: jget_def)

lemma payload_nodes:
  "(case payload_field p ''name'' of None \<Rightarrow> 0 | Some v \<Rightarrow> nodes v) + (case payload_field p ''message'' of None \<Rightarrow> 0 | Some v \<Rightarrow> nodes v) +
   (case payload_field p ''cause'' of None \<Rightarrow> 0 | Some v \<Rightarrow> nodes v) + (case payload_field p ''errors'' of None \<Rightarrow> 0 | Some v \<Rightarrow> nodes v)
   \<le> nodes p"
proof (cases p)
  case (CObj toJson es)
  have "distinct [jlit ''name'', jlit ''message'', jlit ''cause'', jlit ''errors'']" by code_simp
  from fields_nodes [OF this, of es] nodes_object [of es toJson] show ?thesis by (simp add: payload_field_def CObj)
qed (auto simp: payload_field_def split: option.splits)

lemma buildError_nodes: "buildError args = Inr v \<Longrightarrow> nodes v \<le> 1 + nodes (arg args 0)"
  using payload_nodes [of "arg args 0"]
  by (auto simp: buildError_def rebuildError_def split: option.split_asm cval.split_asm option.splits)

lemma readGenericObject_nodes:
  assumes "readGenericObject h inner = Inr v"
  shows "nodes v \<le> nodes inner"
proof -
  obtain name args where inner: "inner = CArr (CStr name # args)"
    using assms by (auto simp: readGenericObject_def split: cval.split_asm list.split_asm)
  have a: "nodes (arg args 0) \<le> 1 + sum_list (map nodes args)" by (rule arg_nodes)
  have "nodes v \<le> 1 + nodes (arg args 0)" if ne: "v \<noteq> inner"
  proof -
    consider "buildBidirectionalMap args = Inr v" | "buildBidirectionalMultiMap args = Inr v" | "buildRegExp h args = Inr v"
      | "buildError args = Inr v" | "buildBinaryView h name args = Inr v"
      using assms ne by (auto simp: readGenericObject_def inner split: if_splits)
    then show ?thesis
    proof cases
      case 1
      then show ?thesis using build_bimap_nodes by (auto simp: buildBidirectionalMap_def split: cval.split_asm intro: le_SucI)
    next
      case 2
      then obtain es where "arg args 0 = CMap es" "list_all (\<lambda>(l, p). set_members p \<noteq> None) es"
        "v = CMulti (build_multi (map (\<lambda>(l, p). (l, the (set_members p))) es))"
        by (auto simp: buildBidirectionalMultiMap_def split: cval.split_asm if_splits)
      then show ?thesis using build_multi_nodes set_rows_nodes [of es] by (fastforce intro: le_trans)
    next
      case 3
      then show ?thesis by (auto simp: buildRegExp_def split: cval.split_asm option.split_asm)
    next
      case 4
      then show ?thesis by (rule buildError_nodes)
    next
      case 5
      then show ?thesis by (auto simp: buildBinaryView_def rebuildBinaryView_def split: cval.split_asm option.split_asm if_splits)
    qed
  qed
  then show ?thesis using a by (cases "v = inner") (auto simp: inner)
qed

lemma readTagged_frugal:
  assumes "frugal rd" "readTagged h rd tag bs = Inr (v, r)"
  shows "suffix r bs \<and> nodes v + length r \<le> 1 + length bs"
proof (cases "tag = TAG_MAP")
  case True
  then obtain ib r0 len r1 ps where m: "bs = ib # r0" "readLength (ib mod 32) r0 = Inr (len, r1)"
    "read_pairs rd (js_Number len) r1 = Inr (ps, r)" "v = CMap (build_map ps)"
    using assms(2) by (auto simp: readTagged_def readEntryPairs_def ebind_Inr_iff split: list.split_asm if_splits)
  have s1: "suffix r1 r0" by (rule readLength_suffix [OF m(2)])
  have s2: "suffix r r1" "sum_list (map pair_nodes ps) + length r \<le> length r1"
    using read_pairs_frugal [OF assms(1) m(3)] by auto
  have "suffix r bs" using suffix_order.trans [OF s2(1) s1] by (simp add: m(1) suffix_ConsI)
  then show ?thesis using s2(2) suffix_length_le [OF s1] build_map_nodes [of ps] by (simp add: m)
next
  case False
  then obtain inner where t: "rd bs = Inr (inner, r)"
    "(if tag = TAG_GENERIC_OBJECT then readGenericObject h inner else applyTag h tag inner) = Inr v"
    using assms(2) by (auto simp: readTagged_def ebind_Inr_iff)
  have "nodes v \<le> nodes inner" using t(2) readGenericObject_nodes applyTag_nodes by (metis (full_types))
  then show ?thesis using frugalD [OF assms(1) t(1)] by simp
qed

lemma readMajor_frugal:
  assumes "frugal rd" "readMajor h c rd major len bs = Inr (v, r)"
  shows "suffix r bs \<and> nodes v + length r \<le> 1 + length bs"
proof -
  have bytes: "suffix r bs \<and> length r \<le> length bs" if "readBytes k bs = Inr (b, r)" for k b
    using that by (auto simp: readBytes_def suffix_drop split: if_splits)
  consider (leaf) "nodes v = 1" "suffix r bs" | (items) xs where "read_items rd (js_Number len) bs = Inr (xs, r)" "v = CArr xs"
    | (fields) es where "read_fields rd (js_Number len) bs = Inr (es, r)" "v = CObj None (build_object es)"
    | (tag) "readTagged h rd (js_Number len) bs = Inr (v, r)"
    using assms(2) bytes by (auto simp: readMajor_def ebind_Inr_iff split: if_splits)
  then show ?thesis
  proof cases
    case leaf
    then show ?thesis using suffix_length_le by fastforce
  next
    case items
    then show ?thesis using read_items_frugal [OF assms(1) items(1)] by simp
  next
    case fields
    then show ?thesis using read_fields_frugal [OF assms(1) fields(1)] build_object_nodes [of es] by simp
  next
    case tag
    then show ?thesis by (rule readTagged_frugal [OF assms(1)])
  qed
qed

lemma readValue_frugal: "frugal (readValue left h c)"
proof (induction left)
  case (Suc left)
  show ?case
    unfolding frugal_def
  proof (intro allI impI)
    fix bs v r
    assume "readValue (Suc left) h c bs = Inr (v, r)"
    then obtain ib r0 where bs: "bs = ib # r0"
      and rd: "if ib div 32 mod 8 = 7 then readSimple (ib mod 32) r0 = Inr (v, r)
        else \<exists>len r1. readLength (ib mod 32) r0 = Inr (len, r1) \<and> readMajor h c (readValue left h c) (ib div 32 mod 8) len r1 = Inr (v, r)"
      by (auto simp: Let_def ebind_Inr_iff split: list.split_asm if_splits)
    show "suffix r bs \<and> nodes v + length r \<le> length bs"
    proof (cases "ib div 32 mod 8 = 7")
      case True
      then show ?thesis using rd readSimple_frugal [of "ib mod 32" r0 v r] suffix_length_le by (fastforce simp: bs suffix_ConsI)
    next
      case False
      then obtain len r1 where l: "suffix r1 r0" "readMajor h c (readValue left h c) (ib div 32 mod 8) len r1 = Inr (v, r)"
        using rd by (auto dest: readLength_suffix)
      from readMajor_frugal [OF Suc.IH l(2)] suffix_length_le [OF l(1)] suffix_order.trans [OF _ l(1)]
      show ?thesis by (auto simp: bs suffix_ConsI)
    qed
  qed
qed (simp add: frugal_def)



end
