(* ===== verification/Actor_Cell.thy ===== *)
theory Actor_Cell
  imports Mailbox
begin

text \<open>
  The actor cell of \<^verbatim>\<open>src/src/internal/ActorCell.ts\<close>: the tree of cells, the dispatcher turns that run them, the
  lifecycle from creation to termination, supervision, death watch, the stash and the throttle.

  A cell's turn runs code between two suspension points (\<^verbatim>\<open>await\<close>) without interruption, and everything else may
  happen at a suspension point. So a turn carries the point it waits at (\<open>phase\<close>), and each function below is
  the code from one suspension point to the next. What an actor's own code does is not modelled: it may call any
  operation of its context at any moment (\<open>call\<close>), and its hooks end as the call that resumes the turn says.

  The mailbox is the unbounded one a cell builds by default. Metrics, tracing, the explain plan, log output,
  timers of the actor (which only send messages) and releases of signals are left out.
\<close>

section \<open>Messages, commands and cells\<close>

type_synonym cid = nat

datatype cmsg =
  PoisonPill
| Kill
| ReceiveTimeout
| TerminatedMsg cid bool \<comment> \<open>its subject, and whether the framework made it\<close>
| Message nat

datatype system_command =
  CreateC
| TerminateC
| RecreateC nat \<comment> \<open>the cause\<close>
| SuspendC
| ResumeC
| FailureC cid nat "cmsg option"
| ChildTerminatedC cid
| WatchNotifyC cid
| ReceiveTimeoutC

datatype cell_state = Creating | Running | Suspended | Terminating | Terminated

datatype on_excess = Excess_Drop | Excess_Pause

datatype directive = Dir_Resume | Dir_Restart | Dir_Stop | Dir_Escalate

record strategy =
  strategy_id :: nat
  all_for_one :: bool
  maxRetries :: int
  withinTimeRangeMs :: int

record restart_budget =
  budget_maxRetries :: int
  budget_withinTimeRangeMs :: int
  failureTimes :: "int list"

record cell = "(cmsg, (cmsg, system_command) mailbox) cell_stash" +
  c_parent :: "cid option"
  c_name :: string
  c_throughput :: nat
  c_state :: cell_state
  c_processing :: bool
  c_actor :: bool
  c_children :: "(string, cid) jmap"
  c_pendingRecreate :: "nat option"
  c_behaviorStack :: "nat list"
  c_watchers :: "cid jset"
  c_watching :: "cid jset"
  c_watchWith :: "(cid, cmsg) jmap"
  c_restartBudget :: "(nat \<times> restart_budget) option"
  c_receiveTimeoutMs :: nat
  c_receiveTimer :: bool
  c_throttle :: "on_excess option"
  c_throttleTimer :: bool
  c_terminationOrder :: "string list option"
  c_terminationGroupIndex :: nat

text \<open>Where a turn goes on after a system command or a user message.\<close>

datatype cont = After_System nat | After_User nat

datatype phase =
  Armed
| Turn nat \<comment> \<open>before the next command or message; the messages handled so far\<close>
| In_preStart cont
| In_postStop cont
| In_preRestart nat cont
| In_postRestart nat cont
| In_handler "cmsg envelope" cont

record system =
  cells :: "cid \<Rightarrow> cell option"
  next_cid :: nat
  turns :: "(cid \<times> phase) list"
  next_ref :: nat
  dead_letters :: "(cid \<times> cmsg envelope) list"
  served :: "(cid \<times> cmsg envelope) list"
  discarded :: "(cid \<times> cmsg envelope) list"
  root_terminated :: bool

definition no_cell :: cell where
  "no_cell =
     \<lparr>mailbox_of = \<lparr>userQueue = [], systemQueue = [], suspended_flag = False\<rparr>, stashBuffer = [], stashCapacity = 0, currentEnvelope = None,
      c_parent = None, c_name = [], c_throughput = 1, c_state = Terminated, c_processing = False, c_actor = False, c_children = [],
      c_pendingRecreate = None, c_behaviorStack = [], c_watchers = [], c_watching = [], c_watchWith = [], c_restartBudget = None,
      c_receiveTimeoutMs = 0, c_receiveTimer = False, c_throttle = None, c_throttleTimer = False,
      c_terminationOrder = None, c_terminationGroupIndex = 0\<rparr>"

definition cell_at :: "system \<Rightarrow> cid \<Rightarrow> cell" where
  "cell_at s c = (case cells s c of Some k \<Rightarrow> k | None \<Rightarrow> no_cell)"

definition upd :: "cid \<Rightarrow> (cell \<Rightarrow> cell) \<Rightarrow> system \<Rightarrow> system" where
  "upd c f s = s\<lparr>cells := (cells s)(c := map_option f (cells s c))\<rparr>"

section \<open>Queues and scheduling\<close>

definition hasDispatchableWork :: "cell \<Rightarrow> bool" where
  "hasDispatchableWork k =
     (if c_throttleTimer k then mb_hasSystemMessages (mailbox_of k) else mb_hasMessages (mailbox_of k))"

definition schedule :: "cid \<Rightarrow> system \<Rightarrow> system" where
  "schedule c s =
     (let k = cell_at s c in
      if c_processing k \<or> c_state k = Terminated then s
      else if \<not> hasDispatchableWork k then s
      else (upd c (\<lambda>k. k\<lparr>c_processing := True\<rparr>) s)\<lparr>turns := turns s @ [(c, Armed)]\<rparr>)"

definition sys_env :: "system_command \<Rightarrow> system_command envelope" where
  "sys_env command = \<lparr>env_ref = 0, message = command, undroppable = False, replayed = False\<rparr>"

definition enqueueSystem :: "cid \<Rightarrow> system_command \<Rightarrow> system \<Rightarrow> system" where
  "enqueueSystem c command s =
     schedule c (upd c (\<lambda>k. k\<lparr>mailbox_of := mb_enqueueSystem (mailbox_of k) (sys_env command)\<rparr>) s)"

definition enqueue_all :: "cid list \<Rightarrow> system_command \<Rightarrow> system \<Rightarrow> system" where
  "enqueue_all cs command s = foldl (\<lambda>s c. enqueueSystem c command s) s cs"

definition new_env :: "cmsg \<Rightarrow> system \<Rightarrow> cmsg envelope" where
  "new_env m s = \<lparr>env_ref = next_ref s, message = m, undroppable = False, replayed = False\<rparr>"

definition take_ref :: "system \<Rightarrow> system" where
  "take_ref s = s\<lparr>next_ref := next_ref s + 1\<rparr>"

definition dead_letter :: "cid \<Rightarrow> cmsg envelope \<Rightarrow> system \<Rightarrow> system" where
  "dead_letter c env s = s\<lparr>dead_letters := dead_letters s @ [(c, env)]\<rparr>"

definition enqueueUser :: "cid \<Rightarrow> bool \<Rightarrow> cmsg envelope \<Rightarrow> system \<Rightarrow> system" where
  "enqueueUser c exemptFromBound env s =
     schedule c (upd c (\<lambda>k. k\<lparr>mailbox_of :=
       (if exemptFromBound then mb_enqueueSignal (mailbox_of k) env else mb_enqueue (mailbox_of k) env)\<rparr>) s)"

definition postUserEnvelope :: "cid \<Rightarrow> cmsg envelope \<Rightarrow> system \<Rightarrow> system" where
  "postUserEnvelope c env s =
     (if c_state (cell_at s c) = Terminated then dead_letter c env s else enqueueUser c False env s)"

definition postSignalEnvelope :: "cid \<Rightarrow> cmsg envelope \<Rightarrow> system \<Rightarrow> system" where
  "postSignalEnvelope c env s =
     (if c_state (cell_at s c) = Terminated then dead_letter c env s else enqueueUser c True (env\<lparr>undroppable := True\<rparr>) s)"

text \<open>A message given to a ref, and one made by the framework.\<close>

definition tell :: "cid \<Rightarrow> cmsg \<Rightarrow> system \<Rightarrow> system" where
  "tell c m s = postUserEnvelope c (new_env m s) (take_ref s)"

definition notifyWatcher :: "cid \<Rightarrow> cmsg \<Rightarrow> system \<Rightarrow> system" where
  "notifyWatcher watcher m s = postSignalEnvelope watcher (new_env m s) (take_ref s)"

definition prependUserMessages :: "cid \<Rightarrow> cmsg list \<Rightarrow> system \<Rightarrow> system" where
  "prependUserMessages c ms s =
     (if ms = [] then s
      else
        (let envs = map (\<lambda>(i, m). \<lparr>env_ref = next_ref s + i, message = m, undroppable = False, replayed = False\<rparr>) (enumerate 0 ms);
             s1 = s\<lparr>next_ref := next_ref s + length ms\<rparr>
         in if c_state (cell_at s c) = Terminated then foldl (\<lambda>s env. dead_letter c env s) s1 envs
            else schedule c (upd c (\<lambda>k. k\<lparr>mailbox_of := mb_prependUser (mailbox_of k) envs\<rparr>) s1)))"

section \<open>The turn of a cell\<close>

definition set_phase :: "cid \<Rightarrow> phase \<Rightarrow> system \<Rightarrow> system" where
  "set_phase c ph s = s\<lparr>turns := map (\<lambda>(d, q). (d, if d = c then ph else q)) (turns s)\<rparr>"

definition finish_turn :: "cid \<Rightarrow> system \<Rightarrow> system" where
  "finish_turn c s =
     (let s1 = (upd c (\<lambda>k. k\<lparr>c_processing := False\<rparr>) s)\<lparr>turns := filter (\<lambda>(d, q). d \<noteq> c) (turns s)\<rparr>;
          k = cell_at s1 c
      in if c_state k \<noteq> Terminated \<and> hasDispatchableWork k then schedule c s1 else s1)"

definition continue_turn :: "cid \<Rightarrow> cont \<Rightarrow> system \<Rightarrow> system" where
  "continue_turn c next_step s =
     (case next_step of
        After_System n \<Rightarrow> if c_state (cell_at s c) = Terminated then finish_turn c s else set_phase c (Turn n) s
      | After_User n \<Rightarrow> if n + 1 < c_throughput (cell_at s c) then set_phase c (Turn (n + 1)) s else finish_turn c s)"

section \<open>Failure and supervision\<close>

definition failToParent :: "cid \<Rightarrow> nat \<Rightarrow> cmsg option \<Rightarrow> system \<Rightarrow> system" where
  "failToParent c cause m s =
     (let s1 = upd c (\<lambda>k. k\<lparr>mailbox_of := mb_suspend (mailbox_of k), c_state := (if c_state k = Running then Suspended else c_state k)\<rparr>) s;
          s2 = enqueue_all (jvalues (c_children (cell_at s1 c))) SuspendC s1
      in case c_parent (cell_at s c) of
           Some p \<Rightarrow> enqueueSystem p (FailureC c cause m) s2
         | None \<Rightarrow> enqueueSystem c TerminateC s2)"

definition new_budget :: "strategy \<Rightarrow> restart_budget" where
  "new_budget st = \<lparr>budget_maxRetries = maxRetries st, budget_withinTimeRangeMs = withinTimeRangeMs st, failureTimes = []\<rparr>"

definition budget_registerRestart :: "int \<Rightarrow> restart_budget \<Rightarrow> bool \<times> restart_budget" where
  "budget_registerRestart now b =
     (if budget_maxRetries b < 0 then (True, b)
      else
        (let b1 = (if budget_withinTimeRangeMs b > 0
                   then b\<lparr>failureTimes := filter (\<lambda>t. t \<ge> now - budget_withinTimeRangeMs b) (failureTimes b)\<rparr> else b)
         in if int (length (failureTimes b1)) \<ge> budget_maxRetries b1 then (False, b1)
            else (True, b1\<lparr>failureTimes := failureTimes b1 @ [now]\<rparr>)))"

definition registerRestart :: "cid \<Rightarrow> strategy \<Rightarrow> int \<Rightarrow> system \<Rightarrow> bool \<times> system" where
  "registerRestart c st now s =
     (let b = (case c_restartBudget (cell_at s c) of
                 Some (i, b) \<Rightarrow> if i = strategy_id st then b else new_budget st
               | None \<Rightarrow> new_budget st);
          (ok, b') = budget_registerRestart now b
      in (ok, upd c (\<lambda>k. k\<lparr>c_restartBudget := Some (strategy_id st, b')\<rparr>) s))"

text \<open>What the supervisor's strategy answers, or that it threw.\<close>

datatype verdict = Decider_Threw | Verdict strategy directive int

definition onFailure :: "cid \<Rightarrow> cid \<Rightarrow> nat \<Rightarrow> cmsg option \<Rightarrow> verdict \<Rightarrow> system \<Rightarrow> system" where
  "onFailure c failed cause m v s =
     (case jget (c_children (cell_at s c)) (c_name (cell_at s failed)) of
        None \<Rightarrow> s
      | Some child \<Rightarrow>
          (case v of
             Decider_Threw \<Rightarrow> s
           | Verdict st d now \<Rightarrow>
               (let affected = (if all_for_one st then jvalues (c_children (cell_at s c)) else [child])
                in case d of
                     Dir_Resume \<Rightarrow> enqueue_all affected ResumeC s
                   | Dir_Restart \<Rightarrow>
                       (let (withinLimit, s1) = registerRestart c st now s
                        in if withinLimit then enqueue_all affected (RecreateC cause) s1 else enqueue_all affected TerminateC s1)
                   | Dir_Stop \<Rightarrow> enqueue_all affected TerminateC s
                   | Dir_Escalate \<Rightarrow> failToParent c cause m s)))"

section \<open>Stopping\<close>

definition deadLetterStash :: "cid \<Rightarrow> system \<Rightarrow> system" where
  "deadLetterStash c s =
     foldl (\<lambda>s env. dead_letter c env s) (upd c (\<lambda>k. k\<lparr>stashBuffer := []\<rparr>) s) (stashBuffer (cell_at s c))"

definition deadLetterQueuedMessages :: "cid \<Rightarrow> system \<Rightarrow> system" where
  "deadLetterQueuedMessages c s =
     (let (envs, mb) = mb_drainUser (mailbox_of (cell_at s c))
      in foldl (\<lambda>s env. dead_letter c env s) (upd c (\<lambda>k. k\<lparr>mailbox_of := mb\<rparr>) s) envs)"

definition removeWatcher :: "cid \<Rightarrow> cid \<Rightarrow> system \<Rightarrow> system" where
  "removeWatcher c watcher s = upd c (\<lambda>k. k\<lparr>c_watchers := sdel (c_watchers k) watcher\<rparr>) s"

text \<open>Up to the call of \<^verbatim>\<open>postStop\<close>, and from its return on.\<close>

definition finalizeTermination :: "cid \<Rightarrow> cont \<Rightarrow> system \<Rightarrow> system" where
  "finalizeTermination c next_step s = set_phase c (In_postStop next_step) (upd c (\<lambda>k. k\<lparr>c_throttleTimer := False\<rparr>) s)"

definition retire :: "cid \<Rightarrow> system \<Rightarrow> system" where
  "retire c s =
     deadLetterQueuedMessages c (upd c (\<lambda>k. k\<lparr>c_state := Terminated\<rparr>) (deadLetterQueuedMessages c (deadLetterStash c s)))"

definition notify_watchers :: "cid \<Rightarrow> system \<Rightarrow> system" where
  "notify_watchers c s =
     upd c (\<lambda>k. k\<lparr>c_watchers := []\<rparr>)
       (foldl (\<lambda>s watcher. notifyWatcher watcher (TerminatedMsg c True) s) s (c_watchers (cell_at s c)))"

definition drop_watches :: "cid \<Rightarrow> system \<Rightarrow> system" where
  "drop_watches c s =
     upd c (\<lambda>k. k\<lparr>c_watching := [], c_watchWith := []\<rparr>) (foldl (\<lambda>s t. removeWatcher t c s) s (c_watching (cell_at s c)))"

definition after_postStop :: "cid \<Rightarrow> system \<Rightarrow> system" where
  "after_postStop c s =
     (let s1 = drop_watches c (notify_watchers c (retire c s))
      in case c_parent (cell_at s c) of
           Some p \<Rightarrow> enqueueSystem p (ChildTerminatedC c) s1
         | None \<Rightarrow> s1\<lparr>root_terminated := True\<rparr>)"

fun next_group :: "string list \<Rightarrow> nat \<Rightarrow> (string, cid) jmap \<Rightarrow> cid option \<times> nat" where
  "next_group [] i children = (None, i)"
| "next_group (name # order) i children =
     (case jget children name of Some child \<Rightarrow> (Some child, i + 1) | None \<Rightarrow> next_group order (i + 1) children)"

definition terminateNextGroup :: "cid \<Rightarrow> cont \<Rightarrow> system \<Rightarrow> system" where
  "terminateNextGroup c next_step s =
     (let k = cell_at s c;
          order = (case c_terminationOrder k of Some names \<Rightarrow> names | None \<Rightarrow> []);
          (child, i) = next_group (drop (c_terminationGroupIndex k) order) (c_terminationGroupIndex k) (c_children k);
          s1 = upd c (\<lambda>k. k\<lparr>c_terminationGroupIndex := i\<rparr>) s
      in case child of
           Some d \<Rightarrow> continue_turn c next_step (enqueueSystem d TerminateC s1)
         | None \<Rightarrow>
             (let s2 = enqueue_all (jvalues (c_children k)) TerminateC s1
              in if c_children k = [] then finalizeTermination c next_step s2 else continue_turn c next_step s2))"

definition onTerminate :: "cid \<Rightarrow> cont \<Rightarrow> system \<Rightarrow> system" where
  "onTerminate c next_step s =
     (if c_state (cell_at s c) = Terminated \<or> c_state (cell_at s c) = Terminating then continue_turn c next_step s
      else
        (let s1 = upd c (\<lambda>k. k\<lparr>c_state := Terminating, c_receiveTimer := False\<rparr>) s;
             k = cell_at s1 c
         in if c_terminationOrder k \<noteq> None then terminateNextGroup c next_step s1
            else
              (let s2 = enqueue_all (jvalues (c_children k)) TerminateC s1
               in if c_children k = [] then finalizeTermination c next_step s2 else continue_turn c next_step s2)))"

section \<open>Starting and restarting\<close>

text \<open>The instance's own receive function is behavior 0.\<close>

definition onCreate :: "cid \<Rightarrow> bool \<Rightarrow> nat \<Rightarrow> cont \<Rightarrow> system \<Rightarrow> system" where
  "onCreate c built err next_step s =
     (if built then set_phase c (In_preStart next_step) (upd c (\<lambda>k. k\<lparr>c_actor := True, c_behaviorStack := [0], c_state := Running\<rparr>) s)
      else continue_turn c next_step (failToParent c err None s))"

definition onRecreate :: "cid \<Rightarrow> nat \<Rightarrow> cont \<Rightarrow> system \<Rightarrow> system" where
  "onRecreate c cause next_step s =
     (if \<not> c_actor (cell_at s c) then continue_turn c next_step s
      else set_phase c (In_preRestart cause next_step) (deadLetterStash c s))"

definition completeRecreate :: "cid \<Rightarrow> nat \<Rightarrow> bool \<Rightarrow> nat \<Rightarrow> cont \<Rightarrow> system \<Rightarrow> system" where
  "completeRecreate c cause built err next_step s =
     (if built then set_phase c (In_postRestart cause next_step) (upd c (\<lambda>k. k\<lparr>c_behaviorStack := [0]\<rparr>) s)
      else continue_turn c next_step (failToParent c err None s))"

definition after_preRestart :: "cid \<Rightarrow> nat \<Rightarrow> bool \<Rightarrow> bool \<Rightarrow> nat \<Rightarrow> cont \<Rightarrow> system \<Rightarrow> system" where
  "after_preRestart c cause stopChildren built err next_step s =
     (if stopChildren \<and> c_children (cell_at s c) \<noteq> []
      then continue_turn c next_step
             (upd c (\<lambda>k. k\<lparr>c_pendingRecreate := Some cause\<rparr>) (enqueue_all (jvalues (c_children (cell_at s c))) TerminateC s))
      else completeRecreate c cause built err next_step s)"

definition after_postRestart :: "cid \<Rightarrow> system \<Rightarrow> system" where
  "after_postRestart c s =
     (let s1 = upd c (\<lambda>k. k\<lparr>mailbox_of := mb_resume (mailbox_of k)\<rparr>) s
      in upd c (\<lambda>k. k\<lparr>c_state := Running\<rparr>) (enqueue_all (jvalues (c_children (cell_at s c))) ResumeC s1))"

definition onSuspend :: "cid \<Rightarrow> system \<Rightarrow> system" where
  "onSuspend c s =
     (let s1 = upd c (\<lambda>k. k\<lparr>mailbox_of := mb_suspend (mailbox_of k), c_state := (if c_state k = Running then Suspended else c_state k)\<rparr>) s
      in enqueue_all (jvalues (c_children (cell_at s c))) SuspendC s1)"

definition onResume :: "cid \<Rightarrow> system \<Rightarrow> system" where
  "onResume c s =
     (let s1 = upd c (\<lambda>k. k\<lparr>mailbox_of := mb_resume (mailbox_of k), c_state := (if c_state k = Suspended then Running else c_state k)\<rparr>) s
      in enqueue_all (jvalues (c_children (cell_at s c))) ResumeC s1)"

definition onChildTerminated :: "cid \<Rightarrow> cid \<Rightarrow> bool \<Rightarrow> nat \<Rightarrow> cont \<Rightarrow> system \<Rightarrow> system" where
  "onChildTerminated c child built err next_step s =
     (let s1 = upd c (\<lambda>k. k\<lparr>c_children := jdelete (c_children k) (c_name (cell_at s child))\<rparr>) s;
          k = cell_at s1 c;
          settle = (\<lambda>s2. if c_state k \<noteq> Terminating then continue_turn c next_step s2
                         else if c_terminationOrder k \<noteq> None then terminateNextGroup c next_step s2
                         else if c_children k = [] then finalizeTermination c next_step s2
                         else continue_turn c next_step s2)
      in case c_pendingRecreate k of
           Some cause \<Rightarrow>
             if c_children k = [] then
               (let s2 = upd c (\<lambda>k. k\<lparr>c_pendingRecreate := None\<rparr>) s1
                in if c_state k \<noteq> Terminating \<and> c_state k \<noteq> Terminated then completeRecreate c cause built err next_step s2 else settle s2)
             else settle s1
         | None \<Rightarrow> settle s1)"

section \<open>Handling a message\<close>

definition ACTOR_KILLED :: nat where "ACTOR_KILLED = 0"

definition serve :: "cid \<Rightarrow> cmsg envelope \<Rightarrow> system \<Rightarrow> system" where
  "serve c env s = s\<lparr>served := served s @ [(c, env)]\<rparr>"

definition resetReceiveTimer :: "cell \<Rightarrow> cell" where
  "resetReceiveTimer k = k\<lparr>c_receiveTimer := (c_receiveTimeoutMs k > 0)\<rparr>"

text \<open>A stashed message has left the handler; any other is done with.\<close>

definition dispatchEpilogue :: "cid \<Rightarrow> system \<Rightarrow> system" where
  "dispatchEpilogue c s =
     (let s1 = (case currentEnvelope (cell_at s c) of Some env \<Rightarrow> serve c env s | None \<Rightarrow> s)
      in upd c (\<lambda>k. k\<lparr>currentEnvelope := None\<rparr>) s1)"

definition dispatchToBehavior :: "cid \<Rightarrow> cmsg envelope \<Rightarrow> cont \<Rightarrow> system \<Rightarrow> system" where
  "dispatchToBehavior c env next_step s =
     (let k = cell_at s c in
      case message env of
        TerminatedMsg t branded \<Rightarrow>
          if \<not> branded \<or> t \<notin> set (c_watching k) then continue_turn c next_step (upd c (\<lambda>k. k\<lparr>currentEnvelope := None\<rparr>) (dead_letter c env s))
          else
            (let env' = (case jget (c_watchWith k) t of Some m \<Rightarrow> env\<lparr>message := m\<rparr> | None \<Rightarrow> env)
             in set_phase c (In_handler env' next_step)
                  (upd c (\<lambda>k. k\<lparr>currentEnvelope := Some env', c_watching := sdel (c_watching k) t, c_watchWith := jdelete (c_watchWith k) t\<rparr>) s))
      | _ \<Rightarrow> set_phase c (In_handler env next_step) (upd c (\<lambda>k. k\<lparr>currentEnvelope := Some env\<rparr>) s))"

definition handleUserMessage :: "cid \<Rightarrow> cmsg envelope \<Rightarrow> cont \<Rightarrow> system \<Rightarrow> system" where
  "handleUserMessage c env next_step s =
     (if message env = PoisonPill then onTerminate c next_step (serve c env s)
      else if message env = Kill then continue_turn c next_step (failToParent c ACTOR_KILLED (Some Kill) (serve c env s))
      else dispatchToBehavior c env next_step s)"

definition after_handler :: "cid \<Rightarrow> cmsg envelope \<Rightarrow> bool \<Rightarrow> nat \<Rightarrow> system \<Rightarrow> system" where
  "after_handler c env ok err s =
     (if ok then dispatchEpilogue c (upd c resetReceiveTimer s)
      else dispatchEpilogue c (failToParent c err (Some (message env)) s))"

definition onReceiveTimeout :: "cid \<Rightarrow> cont \<Rightarrow> system \<Rightarrow> system" where
  "onReceiveTimeout c next_step s =
     (if c_state (cell_at s c) \<noteq> Running then continue_turn c next_step s
      else handleUserMessage c (new_env ReceiveTimeout s) next_step (take_ref s))"

definition handleThrottleExcess :: "cid \<Rightarrow> cmsg envelope \<Rightarrow> system \<Rightarrow> system" where
  "handleThrottleExcess c env s =
     (if c_throttle (cell_at s c) = Some Excess_Drop then s\<lparr>discarded := discarded s @ [(c, env)]\<rparr>
      else upd c (\<lambda>k. k\<lparr>mailbox_of := mb_prependUser (mailbox_of k) [env], c_throttleTimer := True\<rparr>) s)"

text \<open>What the code outside of the cell contributes to a step of its turn.\<close>

record choice =
  built :: bool
  error_cause :: nat
  strategy_says :: verdict
  token :: bool
  stopChildren :: bool
  hook_ok :: bool

definition handleSystemCommand :: "cid \<Rightarrow> choice \<Rightarrow> cont \<Rightarrow> system_command \<Rightarrow> system \<Rightarrow> system" where
  "handleSystemCommand c ch next_step command s =
     (case command of
        CreateC \<Rightarrow> onCreate c (built ch) (error_cause ch) next_step s
      | TerminateC \<Rightarrow> onTerminate c next_step s
      | RecreateC cause \<Rightarrow> onRecreate c cause next_step s
      | SuspendC \<Rightarrow> continue_turn c next_step (onSuspend c s)
      | ResumeC \<Rightarrow> continue_turn c next_step (onResume c s)
      | FailureC child cause m \<Rightarrow>
          if strategy_says ch = Decider_Threw \<and> jget (c_children (cell_at s c)) (c_name (cell_at s child)) \<noteq> None then finish_turn c s
          else continue_turn c next_step (onFailure c child cause m (strategy_says ch) s)
      | ChildTerminatedC child \<Rightarrow> onChildTerminated c child (built ch) (error_cause ch) next_step s
      | WatchNotifyC target \<Rightarrow> continue_turn c next_step (postSignalEnvelope c (new_env (TerminatedMsg target True) s) (take_ref s))
      | ReceiveTimeoutC \<Rightarrow> onReceiveTimeout c next_step s)"

text \<open>The loop of \<^verbatim>\<open>run\<close>: a system command if there is one, otherwise a message.\<close>

definition run_user :: "cid \<Rightarrow> nat \<Rightarrow> bool \<Rightarrow> system \<Rightarrow> system" where
  "run_user c n tok s =
     (if c_state (cell_at s c) \<noteq> Running then finish_turn c s
      else
        (case mb_dequeueUser (mailbox_of (cell_at s c)) of
           (None, mb) \<Rightarrow> finish_turn c s
         | (Some env, mb) \<Rightarrow>
             (let s1 = upd c (\<lambda>k. k\<lparr>mailbox_of := mb\<rparr>) s
              in if c_throttle (cell_at s c) \<noteq> None \<and> \<not> undroppable env \<and> \<not> tok then finish_turn c (handleThrottleExcess c env s1)
                 else handleUserMessage c env (After_User n) s1)))"

definition run_step :: "cid \<Rightarrow> nat \<Rightarrow> choice \<Rightarrow> system \<Rightarrow> system" where
  "run_step c n ch s =
     (case mb_dequeueSystem (mailbox_of (cell_at s c)) of
        (Some command, mb) \<Rightarrow> handleSystemCommand c ch (After_System n) (message command) (upd c (\<lambda>k. k\<lparr>mailbox_of := mb\<rparr>) s)
      | (None, mb) \<Rightarrow> run_user c n (token ch) s)"

definition resume_step :: "cid \<Rightarrow> phase \<Rightarrow> choice \<Rightarrow> system \<Rightarrow> system" where
  "resume_step c ph ch s =
     (case ph of
        Armed \<Rightarrow> set_phase c (Turn 0) s
      | Turn n \<Rightarrow> run_step c n ch s
      | In_preStart next_step \<Rightarrow> continue_turn c next_step (if hook_ok ch then s else failToParent c (error_cause ch) None s)
      | In_postStop next_step \<Rightarrow> continue_turn c next_step (after_postStop c s)
      | In_preRestart cause next_step \<Rightarrow> after_preRestart c cause (stopChildren ch) (built ch) (error_cause ch) next_step s
      | In_postRestart cause next_step \<Rightarrow>
          continue_turn c next_step (if hook_ok ch then after_postRestart c s else failToParent c (error_cause ch) None s)
      | In_handler env next_step \<Rightarrow> continue_turn c next_step (after_handler c env (hook_ok ch) (error_cause ch) s))"

section \<open>The operations of the context\<close>

definition assertValidName :: "string \<Rightarrow> bool" where
  "assertValidName name =
     (name \<noteq> [] \<and> CHR ''/'' \<notin> set name \<and> CHR 0x5C \<notin> set name \<and> name \<noteq> ''.'' \<and> name \<noteq> ''..'' \<and>
      list_all (\<lambda>ch. of_char ch \<ge> (0x20 :: nat) \<and> of_char ch \<noteq> (0x7F :: nat)) name)"

definition assertUserAssignableName :: "string \<Rightarrow> bool" where
  "assertUserAssignableName name = (name = [] \<or> hd name \<noteq> CHR ''$'')"

datatype spawn_error = Reserved_Name | Spawn_After_Stop | Name_Taken | Invalid_Name

definition new_cell :: "cid option \<Rightarrow> string \<Rightarrow> nat \<Rightarrow> string list option \<Rightarrow> cell" where
  "new_cell par name throughput order =
     no_cell\<lparr>c_parent := par, c_name := name, c_throughput := max 1 throughput, stashCapacity := 1024, c_state := Creating,
       c_terminationOrder := order\<rparr>"

definition spawn :: "cid \<Rightarrow> bool \<Rightarrow> string \<Rightarrow> nat \<Rightarrow> system \<Rightarrow> (spawn_error + cid) \<times> system" where
  "spawn c generated name throughput s =
     (let k = cell_at s c in
      if \<not> generated \<and> \<not> assertUserAssignableName name then (Inl Reserved_Name, s)
      else if c_state k = Terminated \<or> c_state k = Terminating then (Inl Spawn_After_Stop, s)
      else if jhas (c_children k) name then (Inl Name_Taken, s)
      else if \<not> assertValidName name then (Inl Invalid_Name, s)
      else
        (let child = next_cid s;
             s1 = s\<lparr>next_cid := child + 1, cells := (cells s)(child \<mapsto> new_cell (Some c) name throughput None)\<rparr>
         in (Inr child, upd c (\<lambda>k. k\<lparr>c_children := jset (c_children k) name child\<rparr>) (enqueueSystem child CreateC s1))))"

definition addWatcher :: "cid \<Rightarrow> cid \<Rightarrow> system \<Rightarrow> system" where
  "addWatcher c watcher s =
     (if c_state (cell_at s c) = Terminated then notifyWatcher watcher (TerminatedMsg c True) s
      else upd c (\<lambda>k. k\<lparr>c_watchers := sadd (c_watchers k) watcher\<rparr>) s)"

definition registerWatch :: "cid \<Rightarrow> cid \<Rightarrow> system \<Rightarrow> system" where
  "registerWatch c t s =
     (if t \<in> set (c_watching (cell_at s c)) then s
      else addWatcher t c (upd c (\<lambda>k. k\<lparr>c_watching := sadd (c_watching k) t\<rparr>) s))"

definition watch :: "cid \<Rightarrow> cid \<Rightarrow> system \<Rightarrow> system" where
  "watch c t s = registerWatch c t (upd c (\<lambda>k. k\<lparr>c_watchWith := jdelete (c_watchWith k) t\<rparr>) s)"

definition watchWith :: "cid \<Rightarrow> cid \<Rightarrow> cmsg \<Rightarrow> system \<Rightarrow> system" where
  "watchWith c t m s = registerWatch c t (upd c (\<lambda>k. k\<lparr>c_watchWith := jset (c_watchWith k) t m\<rparr>) s)"

definition unwatch :: "cid \<Rightarrow> cid \<Rightarrow> system \<Rightarrow> system" where
  "unwatch c t s =
     (let s1 = upd c (\<lambda>k. k\<lparr>c_watchWith := jdelete (c_watchWith k) t\<rparr>) s
      in if t \<notin> set (c_watching (cell_at s c)) then s1
         else removeWatcher t c (upd c (\<lambda>k. k\<lparr>c_watching := sdel (c_watching k) t\<rparr>) s1))"

definition become :: "nat \<Rightarrow> bool \<Rightarrow> cell \<Rightarrow> cell" where
  "become behavior discardOld k =
     k\<lparr>c_behaviorStack := (if discardOld \<and> c_behaviorStack k \<noteq> [] then butlast (c_behaviorStack k) @ [behavior] else c_behaviorStack k @ [behavior])\<rparr>"

definition unbecome :: "cell \<Rightarrow> cell" where
  "unbecome k = (if length (c_behaviorStack k) > 1 then k\<lparr>c_behaviorStack := butlast (c_behaviorStack k)\<rparr> else k)"

definition setReceiveTimeout :: "nat \<Rightarrow> cell \<Rightarrow> cell" where
  "setReceiveTimeout ms k = resetReceiveTimer (k\<lparr>c_receiveTimeoutMs := ms\<rparr>)"

definition cancelReceiveTimeout :: "cell \<Rightarrow> cell" where
  "cancelReceiveTimeout k = k\<lparr>c_receiveTimeoutMs := 0, c_receiveTimer := False\<rparr>"

definition plain_exec :: "(cmsg, system_command) mailbox \<Rightarrow> cmsg mb_op \<Rightarrow> (cmsg, (cmsg, system_command) mailbox) mb_outcome" where
  "plain_exec mb c =
     (case c of
        Enqueue env \<Rightarrow> (None, [], mb_enqueue mb env)
      | EnqueueSignal env \<Rightarrow> (None, [], mb_enqueueSignal mb env)
      | PrependUser envs \<Rightarrow> (None, [], mb_prependUser mb envs)
      | DequeueUser \<Rightarrow> (let (env, mb') = mb_dequeueUser mb in (None, (case env of None \<Rightarrow> [] | Some e \<Rightarrow> [e]), mb'))
      | mb_op.Suspend \<Rightarrow> (None, [], mb_suspend mb)
      | mb_op.Resume \<Rightarrow> (None, [], mb_resume mb)
      | DrainUser \<Rightarrow> (let (envs, mb') = mb_drainUser mb in (None, envs, mb')))"

definition stash :: "cid \<Rightarrow> system \<Rightarrow> system" where
  "stash c s = upd c (\<lambda>k. snd (cell_stash k)) s"

definition unstashAll :: "cid \<Rightarrow> system \<Rightarrow> system" where
  "unstashAll c s =
     (if stashBuffer (cell_at s c) = [] then s else schedule c (upd c (\<lambda>k. snd (cell_unstashAll plain_exec k)) s))"

text \<open>A cell that runs and has messages is scheduled when its throttle changes.\<close>

definition schedule_running :: "cid \<Rightarrow> system \<Rightarrow> system" where
  "schedule_running c s =
     (if c_state (cell_at s c) = Running \<and> mb_hasMessages (mailbox_of (cell_at s c)) then schedule c s else s)"

definition throttle :: "cid \<Rightarrow> on_excess option \<Rightarrow> system \<Rightarrow> system" where
  "throttle c mode s = schedule_running c (upd c (\<lambda>k. k\<lparr>c_throttle := mode, c_throttleTimer := False\<rparr>) s)"

section \<open>Histories\<close>

datatype call =
  Tell cid cmsg
| Prepend cid "cmsg list"
| Spawn cid bool string nat
| StopSelf cid
| Watch cid cid
| WatchWith cid cid cmsg
| Unwatch cid cid
| Become cid nat bool
| Unbecome cid
| SetReceiveTimeout cid nat
| CancelReceiveTimeout cid
| ReceiveTimer cid
| Stash cid
| UnstashAll cid
| Throttle cid "on_excess option"
| ThrottleTimer cid
| RemoteDeath cid cid
| Run cid choice

definition perform :: "call \<Rightarrow> system \<Rightarrow> system" where
  "perform a s =
     (case a of
        Tell c m \<Rightarrow> tell c m s
      | Prepend c ms \<Rightarrow> prependUserMessages c ms s
      | Spawn c generated name throughput \<Rightarrow> snd (spawn c generated name throughput s)
      | StopSelf c \<Rightarrow> enqueueSystem c TerminateC s
      | Watch c t \<Rightarrow> watch c t s
      | WatchWith c t m \<Rightarrow> watchWith c t m s
      | Unwatch c t \<Rightarrow> unwatch c t s
      | Become c behavior discardOld \<Rightarrow> upd c (become behavior discardOld) s
      | Unbecome c \<Rightarrow> upd c unbecome s
      | SetReceiveTimeout c ms \<Rightarrow> upd c (setReceiveTimeout ms) s
      | CancelReceiveTimeout c \<Rightarrow> upd c cancelReceiveTimeout s
      | ReceiveTimer c \<Rightarrow> if c_receiveTimer (cell_at s c) then enqueueSystem c ReceiveTimeoutC s else s
      | Stash c \<Rightarrow> stash c s
      | UnstashAll c \<Rightarrow> unstashAll c s
      | Throttle c mode \<Rightarrow> throttle c mode s
      | ThrottleTimer c \<Rightarrow>
          if c_throttleTimer (cell_at s c) then schedule_running c (upd c (\<lambda>k. k\<lparr>c_throttleTimer := False\<rparr>) s) else s
      | RemoteDeath c t \<Rightarrow> enqueueSystem c (WatchNotifyC t) s
      | Run c ch \<Rightarrow> (case jget (turns s) c of Some ph \<Rightarrow> resume_step c ph ch s | None \<Rightarrow> s))"

text \<open>The root cell of a system, which stops its guardians one after the other.\<close>

definition boot :: "nat \<Rightarrow> string list option \<Rightarrow> system" where
  "boot throughput order =
     enqueueSystem 0 CreateC
       \<lparr>cells = [0 \<mapsto> new_cell None [] throughput order],
        next_cid = 1, turns = [], next_ref = 0, dead_letters = [], served = [], discarded = [], root_terminated = False\<rparr>"

definition history :: "system \<Rightarrow> call list \<Rightarrow> system" where
  "history s calls = foldl (\<lambda>s a. perform a s) s calls"

end
