(* ===== verification/Actor_Schedule.thy ===== *)
theory Actor_Schedule
  imports Actor_Cell
begin

text \<open>
  Scheduling: what the primitive steps of a cell do to the cells and the turns, and the invariant that a cell has
  at most one turn, and a turn whenever it has something to do.
\<close>

section \<open>Effects of the primitive steps\<close>

named_theorems cell_simps

lemma cell_at_upd [simp]: "cell_at (upd c f s) d = (if d = c \<and> cells s c \<noteq> None then f (cell_at s c) else cell_at s d)"
  by (auto simp: cell_at_def upd_def split: option.splits)

lemma cells_upd_None [simp]: "cells (upd c f s) d = None \<longleftrightarrow> cells s d = None"
  by (auto simp: upd_def)

lemma upd_other [simp]:
  "turns (upd c f s) = turns s" "next_cid (upd c f s) = next_cid s" "next_ref (upd c f s) = next_ref s"
  "dead_letters (upd c f s) = dead_letters s" "served (upd c f s) = served s" "discarded (upd c f s) = discarded s"
  "root_terminated (upd c f s) = root_terminated s"
  by (simp_all add: upd_def)

lemma cell_at_cells: "cells s = cells s' \<Longrightarrow> cell_at s = cell_at s'"
  by (rule ext) (simp add: cell_at_def)

lemma cell_at_None: "cells s c = None \<Longrightarrow> cell_at s c = no_cell"
  by (simp add: cell_at_def)

definition ready :: "cell \<Rightarrow> bool" where
  "ready k \<longleftrightarrow> \<not> c_processing k \<and> c_state k \<noteq> Terminated \<and> hasDispatchableWork k"

lemma not_ready_no_cell [simp]: "\<not> ready no_cell"
  by (simp add: ready_def no_cell_def)

lemma ready_cell: "ready (cell_at s c) \<Longrightarrow> cells s c \<noteq> None"
  by (metis cell_at_None not_ready_no_cell)

lemma schedule_alt:
  "schedule c s =
     (if ready (cell_at s c) then (upd c (\<lambda>k. k\<lparr>c_processing := True\<rparr>) s)\<lparr>turns := turns s @ [(c, Armed)]\<rparr> else s)"
  by (auto simp: schedule_def ready_def Let_def)

lemma cell_at_schedule [simp]:
  "cell_at (schedule c s) d = (if d = c \<and> ready (cell_at s c) then (cell_at s c)\<lparr>c_processing := True\<rparr> else cell_at s d)"
  using ready_cell [of s c] by (auto simp: schedule_alt cell_at_upd [unfolded cell_at_def] cell_at_def upd_def)

lemma turns_schedule [simp]: "turns (schedule c s) = (if ready (cell_at s c) then turns s @ [(c, Armed)] else turns s)"
  by (simp add: schedule_alt)

lemma schedule_other [simp]:
  "next_cid (schedule c s) = next_cid s" "next_ref (schedule c s) = next_ref s" "dead_letters (schedule c s) = dead_letters s"
  "served (schedule c s) = served s" "discarded (schedule c s) = discarded s" "root_terminated (schedule c s) = root_terminated s"
  "cells (schedule c s) d = None \<longleftrightarrow> cells s d = None"
  by (simp_all add: schedule_alt upd_def)

lemma cell_at_turns [simp]:
  "cell_at (s\<lparr>turns := t\<rparr>) = cell_at s" "cell_at (s\<lparr>next_ref := n\<rparr>) = cell_at s" "cell_at (s\<lparr>dead_letters := l\<rparr>) = cell_at s"
  "cell_at (s\<lparr>served := l\<rparr>) = cell_at s" "cell_at (s\<lparr>discarded := l\<rparr>) = cell_at s" "cell_at (s\<lparr>root_terminated := b\<rparr>) = cell_at s"
  by (rule ext, simp add: cell_at_def)+

text \<open>A cell as the others see it: all but whether it has a turn and the commands in its queue.\<close>

definition settled :: "cell \<Rightarrow> cell" where
  "settled k = k\<lparr>c_processing := False, mailbox_of := (mailbox_of k)\<lparr>systemQueue := []\<rparr>\<rparr>"

section \<open>The invariant\<close>

definition one_turn_each :: "system \<Rightarrow> bool" where
  "one_turn_each s \<longleftrightarrow> distinct (map fst (turns s)) \<and> (\<forall>c. c_processing (cell_at s c) \<longleftrightarrow> c \<in> fst ` set (turns s)) \<and>
     (\<forall>c. cells s c \<noteq> None \<longrightarrow> c < next_cid s)"

definition awake :: "cell \<Rightarrow> bool" where
  "awake k \<longleftrightarrow> c_processing k \<or> c_state k = Terminated \<or>
     systemQueue (mailbox_of k) = [] \<and> (c_state k = Running \<longrightarrow> \<not> hasDispatchableWork k)"

definition scheduled_ok :: "system \<Rightarrow> bool" where
  "scheduled_ok s \<longleftrightarrow> one_turn_each s \<and> (\<forall>c. awake (cell_at s c))"

definition in_turn :: "cid \<Rightarrow> system \<Rightarrow> bool" where
  "in_turn c s \<longleftrightarrow> scheduled_ok s \<and> c \<in> fst ` set (turns s)"

lemma awake_no_cell [simp]: "awake no_cell"
  by (simp add: awake_def no_cell_def)

lemma awake_schedule: "awake ((cell_at (schedule c s)) c)"
  by (auto simp: awake_def ready_def hasDispatchableWork_def mb_hasMessages_def mb_hasSystemMessages_def)

lemma schedule_ok:
  assumes "one_turn_each s" "\<And>d. d \<noteq> c \<Longrightarrow> awake (cell_at s d)"
  shows "scheduled_ok (schedule c s)"
proof -
  have "one_turn_each (schedule c s)"
    using assms(1) by (auto simp: one_turn_each_def ready_def)
  moreover have "awake (cell_at (schedule c s) d)" for d
    using assms(2) [of d] awake_schedule [of c s] by (cases "d = c") auto
  ultimately show ?thesis by (simp add: scheduled_ok_def)
qed

text \<open>An update that leaves the flag alone keeps the turns; the cell stays awake if it has a turn, or if it
  has no more to do than before.\<close>

lemma upd_one_turn: "(\<And>k. c_processing (f k) = c_processing k) \<Longrightarrow> one_turn_each s \<Longrightarrow> one_turn_each (upd c f s)"
  by (auto simp: one_turn_each_def)

definition quiet :: "(cell \<Rightarrow> cell) \<Rightarrow> bool" where
  "quiet f \<longleftrightarrow> (\<forall>k. c_processing (f k) = c_processing k \<and> (awake k \<longrightarrow> awake (f k)))"

lemma upd_quiet_ok: "quiet f \<Longrightarrow> scheduled_ok s \<Longrightarrow> scheduled_ok (upd c f s)"
  using upd_one_turn [of f s c] by (auto simp: scheduled_ok_def quiet_def)

lemma in_turn_processing: "in_turn c s \<Longrightarrow> c_processing (cell_at s c)"
  by (simp add: in_turn_def scheduled_ok_def one_turn_each_def)

lemma in_turn_cell: "in_turn c s \<Longrightarrow> cells s c \<noteq> None"
  using in_turn_processing [of c s] by (auto simp: cell_at_def no_cell_def split: option.splits)

lemma upd_in_turn: "in_turn c s \<Longrightarrow> (\<And>k. c_processing (f k) = c_processing k) \<Longrightarrow> in_turn c (upd c f s)"
  using upd_one_turn [of f s c] in_turn_processing [of c s] by (auto simp: in_turn_def scheduled_ok_def awake_def)

lemma schedule_in_turn: "in_turn c s \<Longrightarrow> c_processing (cell_at s d) \<or> awake (cell_at s d) \<Longrightarrow> in_turn c (schedule d s)"
  using schedule_ok [of s d] by (auto simp: in_turn_def scheduled_ok_def)

lemma enqueueSystem_ok: "scheduled_ok s \<Longrightarrow> scheduled_ok (enqueueSystem c command s)"
  unfolding enqueueSystem_def by (rule schedule_ok) (auto simp: scheduled_ok_def intro!: upd_one_turn)

section \<open>Steps that keep it\<close>

text \<open>A step that keeps the invariant and ends no turn.\<close>

definition keeps :: "(system \<Rightarrow> system) \<Rightarrow> bool" where
  "keeps F \<longleftrightarrow> (\<forall>s. scheduled_ok s \<longrightarrow> scheduled_ok (F s) \<and> fst ` set (turns s) \<subseteq> fst ` set (turns (F s)))"

lemma keeps_ok: "keeps F \<Longrightarrow> scheduled_ok s \<Longrightarrow> scheduled_ok (F s)"
  by (simp add: keeps_def)

lemma keeps_in_turn: "keeps F \<Longrightarrow> in_turn c s \<Longrightarrow> in_turn c (F s)"
  by (auto simp: keeps_def in_turn_def)

lemma keepsI:
  assumes "\<And>s. scheduled_ok s \<Longrightarrow> scheduled_ok (F s)" "\<And>s. fst ` set (turns s) \<subseteq> fst ` set (turns (F s))"
  shows "keeps F"
  using assms by (simp add: keeps_def)

lemma keeps_id [intro]: "keeps (\<lambda>s. s)"
  by (simp add: keeps_def)

lemma keeps_comp:
  assumes "keeps F" "keeps G"
  shows "keeps (\<lambda>s. F (G s))"
  unfolding keeps_def
proof (intro allI impI conjI)
  fix s assume s: "scheduled_ok s"
  have g: "scheduled_ok (G s)" "fst ` set (turns s) \<subseteq> fst ` set (turns (G s))" using assms(2) s by (auto simp: keeps_def)
  show "scheduled_ok (F (G s))" using assms(1) g(1) by (simp add: keeps_def)
  have "fst ` set (turns (G s)) \<subseteq> fst ` set (turns (F (G s)))" using assms(1) g(1) by (simp add: keeps_def)
  with g(2) show "fst ` set (turns s) \<subseteq> fst ` set (turns (F (G s)))" by (rule subset_trans)
qed

lemma keeps_if: "(\<And>s. p s \<Longrightarrow> keeps F) \<Longrightarrow> keeps G \<Longrightarrow> keeps (\<lambda>s. if p s then F s else G s)"
  unfolding keeps_def by auto

lemma keeps_foldl: "(\<And>x. keeps (F x)) \<Longrightarrow> scheduled_ok s \<Longrightarrow>
   scheduled_ok (foldl (\<lambda>s x. F x s) s xs) \<and> fst ` set (turns s) \<subseteq> fst ` set (turns (foldl (\<lambda>s x. F x s) s xs))"
proof (induction xs arbitrary: s)
  case (Cons x xs)
  have "scheduled_ok (F x s)" "fst ` set (turns s) \<subseteq> fst ` set (turns (F x s))"
    using Cons.prems by (auto simp: keeps_def)
  then show ?case using Cons.IH [OF Cons.prems(1), of "F x s"] by auto
qed simp

lemma turns_schedule_mono: "fst ` set (turns s) \<subseteq> fst ` set (turns (schedule c s))"
  by (rule image_mono) (simp add: subset_insertI)

text \<open>Work is put into a queue and the cell is scheduled.\<close>

lemma keeps_schedule_upd:
  assumes "\<And>k. c_processing (f k) = c_processing k"
  shows "keeps (\<lambda>s. schedule c (upd c f s))"
proof (rule keepsI)
  show "scheduled_ok (schedule c (upd c f s))" if "scheduled_ok s" for s
    using that assms by (intro schedule_ok upd_one_turn) (auto simp: scheduled_ok_def)
  show "fst ` set (turns s) \<subseteq> fst ` set (turns (schedule c (upd c f s)))" for s
    using turns_schedule_mono [of "upd c f s" c] unfolding upd_other .
qed

lemma keeps_enqueueSystem: "keeps (enqueueSystem c command)"
  unfolding enqueueSystem_def by (rule keeps_schedule_upd) simp

lemma keeps_enqueue_all: "keeps (enqueue_all cs command)"
  using keeps_foldl [of "\<lambda>c. enqueueSystem c command"] keeps_enqueueSystem by (simp add: keeps_def enqueue_all_def)

lemma keeps_ghost:
  "keeps (dead_letter c env)" "keeps (serve c env)" "keeps take_ref" "keeps (\<lambda>s. s\<lparr>discarded := d s\<rparr>)" "keeps (\<lambda>s. s\<lparr>next_ref := n s\<rparr>)"
  "keeps (\<lambda>s. s\<lparr>root_terminated := b\<rparr>)"
  by (simp_all add: keeps_def dead_letter_def serve_def take_ref_def scheduled_ok_def one_turn_each_def)

lemma keeps_dead_letters: "keeps (\<lambda>s. foldl (\<lambda>s env. dead_letter c env s) s envs)"
  using keeps_foldl [of "dead_letter c"] keeps_ghost by (simp add: keeps_def)

lemma keeps_upd: "quiet f \<Longrightarrow> keeps (upd c f)"
  by (simp add: keeps_def upd_quiet_ok)

lemma keeps_enqueueUser: "keeps (enqueueUser c exempt env)"
  unfolding enqueueUser_def by (rule keeps_schedule_upd) simp

lemma keeps_post: "keeps (postUserEnvelope c env)" "keeps (postSignalEnvelope c env)"
  unfolding postUserEnvelope_def postSignalEnvelope_def by (intro keeps_if keeps_ghost keeps_enqueueUser)+

lemma keeps_at: "(\<And>x. keeps (F x)) \<Longrightarrow> keeps (\<lambda>s. F (g s) s)"
  unfolding keeps_def by blast

lemma keeps_tell: "keeps (tell c m)"
proof -
  have "keeps (\<lambda>s. postUserEnvelope c env (take_ref s))" for env by (rule keeps_comp [OF keeps_post(1) keeps_ghost(3)])
  from keeps_at [where F = "\<lambda>env s. postUserEnvelope c env (take_ref s)", OF this] show ?thesis unfolding tell_def .
qed

lemma keeps_notifyWatcher: "keeps (notifyWatcher c m)"
proof -
  have "keeps (\<lambda>s. postSignalEnvelope c env (take_ref s))" for env by (rule keeps_comp [OF keeps_post(2) keeps_ghost(3)])
  from keeps_at [where F = "\<lambda>env s. postSignalEnvelope c env (take_ref s)", OF this] show ?thesis unfolding notifyWatcher_def .
qed

lemma quietI:
  assumes "\<And>k. c_processing (f k) = c_processing k" "\<And>k. c_state (f k) = c_state k"
    "\<And>k. mailbox_of (f k) = mailbox_of k" "\<And>k. c_throttleTimer (f k) = c_throttleTimer k"
  shows "quiet f"
  using assms by (simp add: quiet_def awake_def hasDispatchableWork_def)

lemma quiet_watch:
  "quiet (\<lambda>k. k\<lparr>c_watchers := w k\<rparr>)" "quiet (\<lambda>k. k\<lparr>c_watching := x k\<rparr>)" "quiet (\<lambda>k. k\<lparr>c_watchWith := y k\<rparr>)"
  "quiet (\<lambda>k. k\<lparr>c_watching := x k, c_watchWith := y k\<rparr>)" "quiet (\<lambda>k. k\<lparr>c_children := z k\<rparr>)" "quiet (\<lambda>k. k\<lparr>stashBuffer := b k\<rparr>)"
  by (auto intro!: quietI)

lemma keeps_watch: "keeps (watch c t)" "keeps (watchWith c t m)" "keeps (unwatch c t)"
proof -
  have add: "keeps (addWatcher d w)" for d w
    unfolding addWatcher_def by (intro keeps_if keeps_notifyWatcher keeps_upd quiet_watch)
  have reg: "keeps (registerWatch c t)"
    unfolding registerWatch_def by (rule keeps_if [OF keeps_id keeps_comp [OF add keeps_upd]]) (rule quiet_watch)
  show "keeps (watch c t)" unfolding watch_def by (rule keeps_comp [OF reg keeps_upd]) (rule quiet_watch)
  show "keeps (watchWith c t m)" unfolding watchWith_def by (rule keeps_comp [OF reg keeps_upd]) (rule quiet_watch)
  show "keeps (unwatch c t)"
    unfolding unwatch_def Let_def removeWatcher_def
    by (rule keeps_if [OF keeps_upd keeps_comp [OF keeps_upd keeps_comp [OF keeps_upd keeps_upd]]]) (rule quiet_watch)+
qed

section \<open>Steps of a turn\<close>

lemma set_phase_ok: "scheduled_ok s \<Longrightarrow> scheduled_ok (set_phase c ph s)"
  by (simp add: scheduled_ok_def one_turn_each_def set_phase_def comp_def case_prod_beta image_image)

lemma turns_set_phase: "fst ` set (turns (set_phase c ph s)) = fst ` set (turns s)"
  by (simp add: set_phase_def image_image case_prod_beta)

lemma finish_turn_ok:
  assumes "in_turn c s"
  shows "scheduled_ok (finish_turn c s)"
proof -
  let ?s1 = "(upd c (\<lambda>k. k\<lparr>c_processing := False\<rparr>) s)\<lparr>turns := filter (\<lambda>(d, q). d \<noteq> c) (turns s)\<rparr>"
  have cell: "cells s c \<noteq> None" by (rule in_turn_cell [OF assms])
  have fsts: "fst ` set (turns ?s1) = fst ` set (turns s) - {c}" by force
  have "distinct (map fst (turns ?s1))"
    using assms by (simp add: in_turn_def scheduled_ok_def one_turn_each_def distinct_map_filter)
  then have one: "one_turn_each ?s1"
    using assms cell unfolding one_turn_each_def fsts by (auto simp: in_turn_def scheduled_ok_def one_turn_each_def)
  have rest: "awake (cell_at ?s1 d)" if "d \<noteq> c" for d
    using assms that by (simp add: in_turn_def scheduled_ok_def)
  have "finish_turn c s = schedule c ?s1"
    by (auto simp: finish_turn_def Let_def schedule_def)
  then show ?thesis using schedule_ok [OF one rest] by simp
qed

lemma continue_turn_ok: "in_turn c s \<Longrightarrow> scheduled_ok (continue_turn c next_step s)"
  by (auto simp: continue_turn_def finish_turn_ok in_turn_def set_phase_ok split: cont.splits)

lemma in_turn_ok: "in_turn c s \<Longrightarrow> scheduled_ok s"
  by (simp add: in_turn_def)

text \<open>A step of the cell whose turn it is: it may also change its own state and queues.\<close>

definition inner :: "cid \<Rightarrow> (system \<Rightarrow> system) \<Rightarrow> bool" where
  "inner c F \<longleftrightarrow> (\<forall>s. in_turn c s \<longrightarrow> in_turn c (F s))"

lemma innerD: "inner c F \<Longrightarrow> in_turn c s \<Longrightarrow> in_turn c (F s)"
  by (simp add: inner_def)

lemma inner_keeps: "keeps F \<Longrightarrow> inner c F"
  by (simp add: inner_def keeps_in_turn)

lemma inner_upd: "(\<And>k. c_processing (f k) = c_processing k) \<Longrightarrow> inner c (upd c f)"
  by (simp add: inner_def upd_in_turn)

lemma failToParent_in_turn: "in_turn c s \<Longrightarrow> in_turn c (failToParent c cause m s)"
  unfolding failToParent_def Let_def
  by (auto intro!: keeps_in_turn [OF keeps_enqueueSystem] keeps_in_turn [OF keeps_enqueue_all] upd_in_turn split: option.split)

lemma registerRestart_in_turn: "registerRestart c st now s = (ok, s') \<Longrightarrow> in_turn c s \<Longrightarrow> in_turn c s'"
  by (auto simp: registerRestart_def Let_def intro!: upd_in_turn split: prod.splits)

lemma onFailure_in_turn: "in_turn c s \<Longrightarrow> in_turn c (onFailure c failed cause m v s)"
  by (auto simp: onFailure_def Let_def dest: registerRestart_in_turn intro!: keeps_in_turn [OF keeps_enqueue_all] failToParent_in_turn
      split: option.split verdict.split directive.split prod.split)

lemma deadLetters_in_turn:
  "in_turn c s \<Longrightarrow> in_turn c (deadLetterStash c s)" "in_turn c s \<Longrightarrow> in_turn c (deadLetterQueuedMessages c s)"
  by (auto simp: deadLetterStash_def deadLetterQueuedMessages_def mb_drainUser_def intro!: keeps_in_turn [OF keeps_dead_letters] upd_in_turn)

lemma in_turn_foldl: "(\<And>x. keeps (F x)) \<Longrightarrow> in_turn c s \<Longrightarrow> in_turn c (foldl (\<lambda>s x. F x s) s xs)"
  using keeps_foldl [of F s xs] by (auto simp: in_turn_def)

lemma after_postStop_in_turn: "in_turn c s \<Longrightarrow> in_turn c (after_postStop c s)"
proof -
  assume s: "in_turn c s"
  have r: "in_turn c (retire c s)"
    unfolding retire_def using s by (auto intro!: deadLetters_in_turn upd_in_turn)
  have n: "in_turn c (notify_watchers c s)" if "in_turn c s" for s
    unfolding notify_watchers_def using that by (auto intro!: upd_in_turn in_turn_foldl keeps_notifyWatcher)
  have d: "in_turn c (drop_watches c s)" if "in_turn c s" for s
    unfolding drop_watches_def using that
    by (auto intro!: upd_in_turn in_turn_foldl simp: removeWatcher_def keeps_upd quiet_watch)
  show ?thesis
    unfolding after_postStop_def Let_def
    using n [OF r] d by (auto intro!: keeps_in_turn [OF keeps_enqueueSystem] keeps_in_turn [OF keeps_ghost(6)] split: option.split)
qed

lemma finalizeTermination_ok: "in_turn c s \<Longrightarrow> scheduled_ok (finalizeTermination c next_step s)"
  unfolding finalizeTermination_def by (intro set_phase_ok in_turn_ok [OF upd_in_turn]) auto

lemma terminateNextGroup_ok: "in_turn c s \<Longrightarrow> scheduled_ok (terminateNextGroup c next_step s)"
  by (auto simp: terminateNextGroup_def Let_def
      intro!: finalizeTermination_ok continue_turn_ok keeps_in_turn [OF keeps_enqueueSystem] keeps_in_turn [OF keeps_enqueue_all] upd_in_turn
      split: prod.split option.split)

lemma onTerminate_ok: "in_turn c s \<Longrightarrow> scheduled_ok (onTerminate c next_step s)"
  unfolding onTerminate_def Let_def
  by (auto intro!: terminateNextGroup_ok finalizeTermination_ok continue_turn_ok keeps_in_turn [OF keeps_enqueue_all] upd_in_turn simp del: cell_at_upd)

lemma completeRecreate_ok: "in_turn c s \<Longrightarrow> scheduled_ok (completeRecreate c cause b err next_step s)"
  unfolding completeRecreate_def
  by (auto intro!: set_phase_ok in_turn_ok [OF upd_in_turn] continue_turn_ok failToParent_in_turn)

lemma onChildTerminated_ok:
  assumes "in_turn c s"
  shows "scheduled_ok (onChildTerminated c child b err next_step s)"
proof -
  have a: "in_turn c (upd c (\<lambda>k. k\<lparr>c_children := jdelete (c_children k) n\<rparr>) s)" for n
    using assms by (rule upd_in_turn) simp
  have b: "in_turn c (upd c (\<lambda>k. k\<lparr>c_pendingRecreate := None\<rparr>) (upd c (\<lambda>k. k\<lparr>c_children := jdelete (c_children k) n\<rparr>) s))" for n
    using a by (rule upd_in_turn) simp
  show ?thesis
    unfolding onChildTerminated_def Let_def
    by (auto simp del: cell_at_upd split: option.split
        intro!: a b completeRecreate_ok continue_turn_ok terminateNextGroup_ok finalizeTermination_ok)
qed

lemma handleUserMessage_ok: "in_turn c s \<Longrightarrow> scheduled_ok (handleUserMessage c env next_step s)"
  unfolding handleUserMessage_def dispatchToBehavior_def Let_def
  by (auto intro!: onTerminate_ok continue_turn_ok failToParent_in_turn keeps_in_turn [OF keeps_ghost(2)] keeps_in_turn [OF keeps_ghost(1)]
      set_phase_ok in_turn_ok [OF upd_in_turn] upd_in_turn split: cmsg.split)

lemma handleSystemCommand_ok: "in_turn c s \<Longrightarrow> scheduled_ok (handleSystemCommand c ch next_step command s)"
  unfolding handleSystemCommand_def onCreate_def onRecreate_def onReceiveTimeout_def onSuspend_def onResume_def Let_def
  by (auto intro!: onTerminate_ok continue_turn_ok failToParent_in_turn finish_turn_ok onFailure_in_turn onChildTerminated_ok
      handleUserMessage_ok keeps_in_turn [OF keeps_enqueue_all] keeps_in_turn [OF keeps_post(2)] keeps_in_turn [OF keeps_ghost(3)]
      set_phase_ok in_turn_ok [OF upd_in_turn] upd_in_turn in_turn_ok [OF deadLetters_in_turn(1)] split: system_command.split)

lemma run_user_ok: "in_turn c s \<Longrightarrow> scheduled_ok (run_user c n tok s)"
  unfolding run_user_def handleThrottleExcess_def Let_def
  by (auto intro!: finish_turn_ok handleUserMessage_ok upd_in_turn keeps_in_turn [OF keeps_ghost(4)] split: prod.split option.split)

lemma resume_step_ok:
  assumes "in_turn c s"
  shows "scheduled_ok (resume_step c ph ch s)"
proof -
  have ph: "scheduled_ok (set_phase c q s)" for q using assms by (intro set_phase_ok in_turn_ok)
  have run: "scheduled_ok (run_step c n ch s)" for n
    unfolding run_step_def using assms
    by (auto intro!: handleSystemCommand_ok run_user_ok upd_in_turn split: prod.split option.split)
  have restart: "in_turn c (after_postRestart c s)"
    unfolding after_postRestart_def Let_def using assms by (auto intro!: upd_in_turn keeps_in_turn [OF keeps_enqueue_all])
  have clean: "scheduled_ok (after_preRestart c cause sc b err next_step s)" for cause sc b err next_step
    unfolding after_preRestart_def using assms
    by (auto intro!: continue_turn_ok completeRecreate_ok upd_in_turn keeps_in_turn [OF keeps_enqueue_all])
  have handler: "in_turn c (after_handler c env ok err s)" for env ok err
    unfolding after_handler_def dispatchEpilogue_def Let_def using assms
    by (auto intro!: upd_in_turn failToParent_in_turn keeps_in_turn [OF keeps_ghost(2)] simp: resetReceiveTimer_def split: option.split)
  show ?thesis
    unfolding resume_step_def using assms
    by (auto intro!: ph run clean handler restart continue_turn_ok failToParent_in_turn after_postStop_in_turn split: phase.split)
qed

lemma schedule_running_ok:
  assumes "one_turn_each s" "\<And>d. d \<noteq> c \<Longrightarrow> awake (cell_at s d)"
    "c_processing (cell_at s c) \<or> c_state (cell_at s c) = Terminated \<or> systemQueue (mailbox_of (cell_at s c)) = []"
  shows "scheduled_ok (schedule_running c s)"
proof (cases "c_state (cell_at s c) = Running \<and> mb_hasMessages (mailbox_of (cell_at s c))")
  case True
  then show ?thesis using schedule_ok [OF assms(1,2)] by (simp add: schedule_running_def)
next
  case False
  then have "awake (cell_at s c)"
    using assms(3) by (auto simp: awake_def hasDispatchableWork_def mb_hasMessages_def mb_hasSystemMessages_def)
  then have "awake (cell_at s d)" for d using assms(2) by (cases "d = c") auto
  moreover have "schedule_running c s = s" using False by (auto simp: schedule_running_def)
  ultimately show ?thesis using assms(1) by (simp add: scheduled_ok_def)
qed

lemma spawn_ok:
  assumes "scheduled_ok s"
  shows "scheduled_ok (snd (spawn c generated name throughput s))"
proof -
  let ?child = "next_cid s"
  let ?s1 = "s\<lparr>next_cid := ?child + 1, cells := (cells s)(?child \<mapsto> new_cell (Some c) name throughput None)\<rparr>"
  have none: "cells s ?child = None" using assms by (auto simp: scheduled_ok_def one_turn_each_def)
  have at: "cell_at ?s1 d = (if d = ?child then new_cell (Some c) name throughput None else cell_at s d)" for d
    by (simp add: cell_at_def)
  have "\<not> c_processing (cell_at s ?child)" by (simp add: cell_at_None [OF none] no_cell_def)
  then have "?child \<notin> fst ` set (turns s)"
    using assms unfolding scheduled_ok_def one_turn_each_def by blast
  then have "one_turn_each ?s1"
    unfolding one_turn_each_def at
    using assms by (auto simp: scheduled_ok_def one_turn_each_def new_cell_def no_cell_def less_Suc_eq)
  moreover have "awake (cell_at ?s1 d)" for d
    using assms unfolding at by (auto simp: scheduled_ok_def awake_def new_cell_def no_cell_def)
  ultimately have "scheduled_ok ?s1" by (simp add: scheduled_ok_def)
  then have "scheduled_ok (upd c (\<lambda>k. k\<lparr>c_children := jset (c_children k) name ?child\<rparr>) (enqueueSystem ?child CreateC ?s1))"
    by (intro upd_quiet_ok quiet_watch enqueueSystem_ok)
  then show ?thesis using assms by (auto simp: spawn_def Let_def)
qed

lemma throttle_ok: "scheduled_ok s \<Longrightarrow> scheduled_ok (throttle c mode s)"
  unfolding throttle_def
  by (rule schedule_running_ok) (auto simp: scheduled_ok_def awake_def intro!: upd_one_turn)

lemma perform_ok:
  assumes "scheduled_ok s"
  shows "scheduled_ok (perform a s)"
proof -
  have prep: "scheduled_ok (prependUserMessages c ms s)" for c ms
    unfolding prependUserMessages_def Let_def using assms
    by (auto intro!: keeps_ok [OF keeps_dead_letters] keeps_ok [OF keeps_schedule_upd] keeps_ok [OF keeps_ghost(5)])
  have local_quiet: "quiet (become b d)" "quiet unbecome" "quiet (setReceiveTimeout ms)" "quiet cancelReceiveTimeout" for b d ms
    by (auto intro!: quietI simp: become_def unbecome_def setReceiveTimeout_def resetReceiveTimer_def cancelReceiveTimeout_def split: if_splits)
  have stash: "scheduled_ok (stash c s)" for c
    unfolding stash_def using assms by (intro upd_quiet_ok quietI) (auto simp: cell_stash_def split: option.split)
  have unstash: "scheduled_ok (unstashAll c s)" for c
  proof -
    have "c_processing (snd (cell_unstashAll plain_exec k)) = c_processing k" for k :: cell
      by (auto simp: cell_unstashAll_def plain_exec_def)
    then show ?thesis unfolding unstashAll_def using assms by (auto intro!: keeps_ok [OF keeps_schedule_upd])
  qed
  have timer: "scheduled_ok (schedule_running c (upd c (\<lambda>k. k\<lparr>c_throttleTimer := False\<rparr>) s))" for c
    using assms by (intro schedule_running_ok) (auto simp: scheduled_ok_def awake_def intro!: upd_one_turn)
  have run: "scheduled_ok (resume_step c ph ch s)" if "jget (turns s) c = Some ph" for c ph ch
  proof -
    have "(c, ph) \<in> set (turns s)" using that by (simp add: jget_map_of map_of_SomeD)
    then show ?thesis using assms by (intro resume_step_ok) (force simp: in_turn_def)
  qed
  show ?thesis
    unfolding perform_def using assms
    by (auto intro!: prep stash unstash timer run upd_quiet_ok local_quiet spawn_ok throttle_ok enqueueSystem_ok
        keeps_ok [OF keeps_tell] keeps_ok [OF keeps_watch(1)] keeps_ok [OF keeps_watch(2)] keeps_ok [OF keeps_watch(3)]
        split: call.split option.split)
qed

lemma history_ok: "scheduled_ok s \<Longrightarrow> scheduled_ok (history s calls)"
  unfolding history_def by (induction calls arbitrary: s) (auto simp: perform_ok)

lemma boot_ok: "scheduled_ok (boot throughput order)"
  unfolding boot_def
  by (rule enqueueSystem_ok) (auto simp: scheduled_ok_def one_turn_each_def cell_at_def new_cell_def no_cell_def awake_def)

text \<open>
  C2. Whatever is called in whatever order, a cell has at most one turn at a time, so its messages are handled one
  after the other; and no wake-up is lost: a cell without a turn that has not terminated has no system command in
  its queue, and, when it is running, nothing at all to do.
\<close>

theorem actor_turns_exclusive_and_never_lost:
  fixes calls :: "call list"
  assumes "s = history (boot throughput order) calls"
  shows "distinct (map fst (turns s)) \<and> (\<forall>c. c_processing (cell_at s c) \<longleftrightarrow> c \<in> fst ` set (turns s)) \<and>
    (\<forall>c. c \<notin> fst ` set (turns s) \<longrightarrow> c_state (cell_at s c) \<noteq> Terminated \<longrightarrow>
       systemQueue (mailbox_of (cell_at s c)) = [] \<and> (c_state (cell_at s c) = Running \<longrightarrow> \<not> hasDispatchableWork (cell_at s c)))"
  using history_ok [OF boot_ok [of throughput order], of calls]
  unfolding assms scheduled_ok_def one_turn_each_def awake_def by blast

definition all_well :: choice where
  "all_well = \<lparr>built = True, error_cause = 1, strategy_says = Decider_Threw, token = True, stopChildren = True, hook_ok = True\<rparr>"

theorem actor_turns_exclusive_and_never_lost_witness:
  "let s = history (boot 1 None) [Run 0 all_well, Run 0 all_well, Run 0 all_well, Run 0 all_well] in
   0 \<notin> fst ` set (turns s) \<and> c_state (cell_at s 0) = Running \<and> systemQueue (mailbox_of (cell_at s 0)) = [] \<and> \<not> hasDispatchableWork (cell_at s 0)"
proof -
  let ?s = "history (boot 1 None) [Run 0 all_well, Run 0 all_well, Run 0 all_well, Run 0 all_well]"
  have "0 \<notin> fst ` set (turns ?s)" "c_state (cell_at ?s 0) = Running" by code_simp+
  then show ?thesis using actor_turns_exclusive_and_never_lost [of ?s 1 None] unfolding Let_def by auto
qed

end
