(* ===== verification/Actor_Accounting.thy ===== *)
theory Actor_Accounting
  imports Actor_Schedule
begin

text \<open>
  Where messages are: every envelope that was ever made is, at any moment, in one queue, in one stash, in one
  handler, or was served, dead-lettered or discarded by a throttle in drop mode; and it is so once.
\<close>

section \<open>Envelopes in hand\<close>

definition held :: "cell \<Rightarrow> nat list" where
  "held k = map env_ref (userQueue (mailbox_of k)) @ map env_ref (stashBuffer k) @
     (case currentEnvelope k of None \<Rightarrow> [] | Some env \<Rightarrow> [env_ref env])"

definition refs_of :: "(cid \<times> cmsg envelope) list \<Rightarrow> nat multiset" where
  "refs_of l = mset (map (env_ref \<circ> snd) l)"

definition everywhere :: "system \<Rightarrow> nat multiset" where
  "everywhere s = (\<Sum>c\<leftarrow>[0..<next_cid s]. mset (held (cell_at s c))) + refs_of (dead_letters s) + refs_of (served s) + refs_of (discarded s)"

text \<open>In the middle of a step some envelopes, \<open>M\<close>, are on their way.\<close>

definition owes :: "system \<Rightarrow> nat multiset \<Rightarrow> bool" where
  "owes s M \<longleftrightarrow> (\<forall>c. cells s c \<noteq> None \<longrightarrow> c < next_cid s) \<and> everywhere s + M = mset [0..<next_ref s]"

lemma held_no_cell [simp]: "held no_cell = []"
  by (simp add: held_def no_cell_def)

lemma sum_upd:
  assumes "c < n" "\<And>d. d \<noteq> c \<Longrightarrow> g d = f d"
  shows "(\<Sum>d\<leftarrow>[0..<n]. g d) + f c = (\<Sum>d\<leftarrow>[0..<n]. f d) + (g c :: nat multiset)"
proof -
  have "(\<Sum>d\<leftarrow>[0..<n]. g d) = sum g {0..<n}" "(\<Sum>d\<leftarrow>[0..<n]. f d) = sum f {0..<n}"
    by (simp_all add: interv_sum_list_conv_sum_set_nat)
  moreover have "sum g {0..<n} = g c + sum g ({0..<n} - {c})" "sum f {0..<n} = f c + sum f ({0..<n} - {c})"
    using assms(1) by (auto intro!: sum.remove)
  moreover have "sum g ({0..<n} - {c}) = sum f ({0..<n} - {c})" using assms(2) by (intro sum.cong) auto
  ultimately show ?thesis by (simp add: ac_simps)
qed

lemma owes_upd:
  assumes "owes s M" "cells s c \<noteq> None \<Longrightarrow> mset (held (cell_at s c)) + M = mset (held (f (cell_at s c))) + M'"
    "cells s c = None \<Longrightarrow> M' = M"
  shows "owes (upd c f s) M'"
proof (cases "cells s c = None")
  case True
  then have "upd c f s = s" by (simp add: upd_def fun_upd_idem)
  then show ?thesis using assms True by simp
next
  case False
  then have c: "c < next_cid s" using assms(1) by (auto simp: owes_def)
  have "everywhere (upd c f s) + mset (held (cell_at s c)) = everywhere s + mset (held (f (cell_at s c)))"
    using sum_upd [OF c, of "\<lambda>d. mset (held (cell_at (upd c f s) d))" "\<lambda>d. mset (held (cell_at s d))"] False
    by (simp add: everywhere_def ac_simps)
  then have "everywhere (upd c f s) + M' + mset (held (cell_at s c)) + mset (held (f (cell_at s c))) =
      everywhere s + M + mset (held (cell_at s c)) + mset (held (f (cell_at s c)))"
    using assms(2) [OF False] by (metis (no_types, lifting) add.assoc add.commute)
  then have "everywhere (upd c f s) + M' = everywhere s + M" by simp
  then show ?thesis using assms(1) by (simp add: owes_def)
qed

lemma owes_schedule [simp]: "owes (schedule c s) M = owes s M"
proof -
  have "held (cell_at (schedule c s) d) = held (cell_at s d)" for d by (simp add: held_def)
  then show ?thesis by (simp add: owes_def everywhere_def)
qed

lemma owes_take_ref: "owes s M \<Longrightarrow> owes (take_ref s) (add_mset (next_ref s) M)"
  by (auto simp: owes_def everywhere_def take_ref_def)

lemma owes_logs:
  "owes s (add_mset (env_ref env) M) \<Longrightarrow> owes (dead_letter c env s) M"
  "owes s (add_mset (env_ref env) M) \<Longrightarrow> owes (serve c env s) M"
  "owes s (add_mset (env_ref env) M) \<Longrightarrow> owes (s\<lparr>discarded := discarded s @ [(c, env)]\<rparr>) M"
  by (simp_all add: owes_def everywhere_def dead_letter_def serve_def refs_of_def)

lemma owes_dead_letters:
  "owes s (mset (map env_ref envs) + M) \<Longrightarrow> owes (foldl (\<lambda>s env. dead_letter c env s) s envs) M"
  by (induction envs arbitrary: s) (auto intro: owes_logs(1))

lemma held_updates [simp]:
  "held (k\<lparr>c_state := st\<rparr>) = held k" "held (k\<lparr>c_processing := b\<rparr>) = held k" "held (k\<lparr>c_actor := b\<rparr>) = held k"
  "held (k\<lparr>c_children := ch\<rparr>) = held k" "held (k\<lparr>c_pendingRecreate := p\<rparr>) = held k" "held (k\<lparr>c_behaviorStack := bs\<rparr>) = held k"
  "held (k\<lparr>c_watchers := w\<rparr>) = held k" "held (k\<lparr>c_watching := w\<rparr>) = held k" "held (k\<lparr>c_watchWith := ww\<rparr>) = held k"
  "held (k\<lparr>c_restartBudget := rb\<rparr>) = held k" "held (k\<lparr>c_receiveTimeoutMs := ms\<rparr>) = held k" "held (k\<lparr>c_receiveTimer := b\<rparr>) = held k"
  "held (k\<lparr>c_throttle := th\<rparr>) = held k" "held (k\<lparr>c_throttleTimer := b\<rparr>) = held k" "held (k\<lparr>c_terminationGroupIndex := i\<rparr>) = held k"
  "userQueue mb = userQueue (mailbox_of k) \<Longrightarrow> held (k\<lparr>mailbox_of := mb\<rparr>) = held k"
  by (simp_all add: held_def)

section \<open>Steps that leave envelopes where they are\<close>

text \<open>Such a step neither touches an envelope in a handler nor moves a turn that is under way.\<close>

definition calm :: "(system \<Rightarrow> system) \<Rightarrow> bool" where
  "calm F \<longleftrightarrow> (\<forall>s. (\<forall>M. owes s M \<longrightarrow> owes (F s) M) \<and>
     (\<forall>d. currentEnvelope (cell_at (F s) d) = currentEnvelope (cell_at s d)) \<and>
     (\<forall>d ph. jget (turns s) d = Some ph \<longrightarrow> jget (turns (F s)) d = Some ph))"

lemma calmD:
  assumes "calm F"
  shows "owes s M \<Longrightarrow> owes (F s) M" "currentEnvelope (cell_at (F s) d) = currentEnvelope (cell_at s d)"
    "jget (turns s) d = Some ph \<Longrightarrow> jget (turns (F s)) d = Some ph"
  using assms by (simp_all add: calm_def)

lemma calm_id: "calm (\<lambda>s. s)"
  by (simp add: calm_def)

lemma calm_comp: "calm F \<Longrightarrow> calm G \<Longrightarrow> calm (\<lambda>s. F (G s))"
  by (simp add: calm_def)

lemma calm_if: "calm F \<Longrightarrow> calm G \<Longrightarrow> calm (\<lambda>s. if p s then F s else G s)"
  by (simp add: calm_def)

lemma calm_at: "(\<And>x. calm (F x)) \<Longrightarrow> calm (\<lambda>s. F (g s) s)"
  by (simp add: calm_def)

lemma calm_foldl: "(\<And>x. calm (F x)) \<Longrightarrow> calm (\<lambda>s. foldl (\<lambda>s x. F x s) s xs)"
  by (induction xs) (auto simp: calm_def)

lemma jget_append: "jget xs k = Some v \<Longrightarrow> jget (xs @ ys) k = Some v"
  by (simp add: jget_def)

lemma calm_schedule: "calm (schedule c)"
  by (auto simp: calm_def jget_append)

lemma calm_upd:
  assumes "\<And>k. mset (held (f k)) = mset (held k)" "\<And>k. currentEnvelope (f k) = currentEnvelope k"
  shows "calm (upd c f)"
  using assms owes_upd [of _ _ c f] by (auto simp: calm_def)

lemma calm_enqueueSystem: "calm (enqueueSystem c command)"
  unfolding enqueueSystem_def by (rule calm_comp [OF calm_schedule calm_upd]) (auto simp: mb_enqueueSystem_def)

lemma calm_enqueue_all: "calm (enqueue_all cs command)"
  unfolding enqueue_all_def by (rule calm_foldl) (rule calm_enqueueSystem)

lemma calm_failToParent: "calm (failToParent c cause m)"
proof -
  have u: "calm (upd c (\<lambda>k. k\<lparr>mailbox_of := mb_suspend (mailbox_of k), c_state := (if c_state k = Running then Suspended else c_state k)\<rparr>))"
    by (rule calm_upd) (auto simp: mb_suspend_def)
  show ?thesis
    unfolding failToParent_def Let_def
    using u calm_enqueue_all calm_enqueueSystem by (auto simp: calm_def split: option.split)
qed

lemma calm_registerRestart: "calm (\<lambda>s. snd (registerRestart c st now s))"
proof -
  have "calm (upd c (\<lambda>k. k\<lparr>c_restartBudget := b\<rparr>))" for b by (rule calm_upd) auto
  then show ?thesis by (simp add: calm_def registerRestart_def Let_def split: prod.split)
qed

lemma calm_onFailure: "calm (onFailure c failed cause m v)"
  unfolding calm_def onFailure_def Let_def case_prod_beta
  by (auto split: option.split verdict.split directive.split simp: calmD(2) [OF calm_enqueue_all] calmD(2) [OF calm_registerRestart] calmD(2) [OF calm_failToParent]
      intro!: calmD(1) [OF calm_enqueue_all] calmD(1) [OF calm_registerRestart] calmD(1) [OF calm_failToParent]
        calmD(3) [OF calm_enqueue_all] calmD(3) [OF calm_registerRestart] calmD(3) [OF calm_failToParent])

section \<open>Steps that move envelopes\<close>

lemma owes_enqueueUser:
  assumes "owes s (add_mset (env_ref env) M)" "cells s c \<noteq> None"
  shows "owes (enqueueUser c exempt env s) M"
  unfolding enqueueUser_def owes_schedule
  by (rule owes_upd [OF assms(1)]) (use assms(2) in \<open>simp_all add: held_def mb_enqueue_def mb_enqueueSignal_def\<close>)

lemma alive_cell: "c_state (cell_at s c) \<noteq> Terminated \<Longrightarrow> cells s c \<noteq> None"
  by (metis cell_at_None no_cell_def cell.select_convs(4))

lemma owes_post:
  "owes s (add_mset (env_ref env) M) \<Longrightarrow> owes (postUserEnvelope c env s) M"
  "owes s (add_mset (env_ref env) M) \<Longrightarrow> owes (postSignalEnvelope c env s) M"
  by (auto simp: postUserEnvelope_def postSignalEnvelope_def intro!: owes_logs owes_enqueueUser dest: alive_cell)

lemma calm_post: "currentEnvelope (cell_at (postUserEnvelope c env s) d) = currentEnvelope (cell_at s d)"
  "currentEnvelope (cell_at (postSignalEnvelope c env s) d) = currentEnvelope (cell_at s d)"
  "jget (turns s) d = Some ph \<Longrightarrow> jget (turns (postUserEnvelope c env s)) d = Some ph"
  "jget (turns s) d = Some ph \<Longrightarrow> jget (turns (postSignalEnvelope c env s)) d = Some ph"
  by (auto simp: postUserEnvelope_def postSignalEnvelope_def enqueueUser_def dead_letter_def jget_append)

lemma take_ref_simps [simp]: "cell_at (take_ref s) = cell_at s" "turns (take_ref s) = turns s"
  by (auto simp: take_ref_def)

lemma calm_tell: "calm (tell c m)"
  unfolding calm_def tell_def
  using owes_take_ref owes_post(1) calm_post by (auto simp: new_env_def)

lemma calm_notifyWatcher: "calm (notifyWatcher c m)"
  unfolding calm_def notifyWatcher_def
  using owes_take_ref owes_post(2) calm_post by (auto simp: new_env_def)

section \<open>The balance through a turn\<close>

definition others_ok :: "cid \<Rightarrow> system \<Rightarrow> bool" where
  "others_ok c s \<longleftrightarrow> (\<forall>d. d \<noteq> c \<longrightarrow> currentEnvelope (cell_at s d) \<noteq> None \<longrightarrow> (\<exists>env next_step. jget (turns s) d = Some (In_handler env next_step)))"

definition free :: "cid \<Rightarrow> nat multiset \<Rightarrow> system \<Rightarrow> bool" where
  "free c M s \<longleftrightarrow> owes s M \<and> currentEnvelope (cell_at s c) = None \<and> others_ok c s"

definition balanced :: "system \<Rightarrow> bool" where
  "balanced s \<longleftrightarrow> owes s {#} \<and>
     (\<forall>c. currentEnvelope (cell_at s c) \<noteq> None \<longrightarrow> (\<exists>env next_step. jget (turns s) c = Some (In_handler env next_step)))"

lemma calm_others: "calm F \<Longrightarrow> others_ok c s \<Longrightarrow> others_ok c (F s)"
  unfolding others_ok_def calm_def by metis

lemma calm_free: "calm F \<Longrightarrow> free c M s \<Longrightarrow> free c M (F s)"
  using calm_others [of F c s] by (simp add: free_def calm_def)

lemma calm_balanced: "calm F \<Longrightarrow> balanced s \<Longrightarrow> balanced (F s)"
  unfolding balanced_def calm_def by metis

lemma balanced_others: "balanced s \<Longrightarrow> others_ok c s"
  by (simp add: balanced_def others_ok_def)

lemma balanced_free: "balanced s \<Longrightarrow> currentEnvelope (cell_at s c) = None \<Longrightarrow> free c {#} s"
  using balanced_others by (simp add: balanced_def free_def)

lemma upd_free:
  assumes "free c M s" "\<And>k. mset (held (f k)) = mset (held k)" "\<And>k. currentEnvelope (f k) = currentEnvelope k"
  shows "free c M (upd d f s)"
  using calm_free [OF calm_upd assms(1)] assms(2,3) by blast

lemma upd_free_at:
  assumes "free c M s" "held (f (cell_at s c)) = held (cell_at s c)" "currentEnvelope (f (cell_at s c)) = currentEnvelope (cell_at s c)"
  shows "free c M (upd c f s)"
proof -
  have "owes (upd c f s) M" by (rule owes_upd [of s M]) (use assms in \<open>auto simp: free_def\<close>)
  then show ?thesis using assms by (auto simp: free_def others_ok_def)
qed

lemma jget_set_phase: "jget (turns (set_phase c ph s)) d = (if d = c then map_option (\<lambda>_. ph) (jget (turns s) d) else jget (turns s) d)"
proof -
  have "jget (map (\<lambda>(d, q). (d, if d = c then ph else q)) xs) d = (if d = c then map_option (\<lambda>_. ph) (jget xs d) else jget xs d)" for xs
    by (induction xs) (auto simp: jget_def)
  then show ?thesis by (simp add: set_phase_def)
qed

lemma set_phase_simps [simp]: "cell_at (set_phase c ph s) = cell_at s" "owes (set_phase c ph s) M = owes s M"
  by (simp_all add: set_phase_def owes_def everywhere_def)

lemma set_phase_balanced: "free c {#} s \<Longrightarrow> balanced (set_phase c ph s)"
  by (auto simp: free_def balanced_def others_ok_def jget_set_phase)

lemma finish_turn_balanced:
  assumes "free c {#} s"
  shows "balanced (finish_turn c s)"
proof -
  let ?u = "upd c (\<lambda>k. k\<lparr>c_processing := False\<rparr>) s"
  let ?s1 = "?u\<lparr>turns := filter (\<lambda>(d, q). d \<noteq> c) (turns s)\<rparr>"
  have f: "free c {#} ?u" using assms by (rule upd_free) simp_all
  have get: "jget (filter (\<lambda>(d, q). d \<noteq> c) xs) d = jget xs d" if "d \<noteq> c" for d and xs :: "(cid \<times> phase) list"
    using that by (induction xs) (auto simp: jget_def)
  have "owes ?s1 {#}" using f by (simp add: free_def owes_def everywhere_def)
  moreover have "\<exists>env next_step. jget (turns ?s1) d = Some (In_handler env next_step)" if "currentEnvelope (cell_at ?s1 d) \<noteq> None" for d
  proof -
    have d: "currentEnvelope (cell_at s d) \<noteq> None" using that by (simp split: if_splits)
    then have "d \<noteq> c" using assms by (auto simp: free_def)
    then show ?thesis using d assms get by (auto simp: free_def others_ok_def)
  qed
  ultimately have "balanced ?s1" by (simp add: balanced_def)
  then show ?thesis using calm_balanced [OF calm_schedule] by (auto simp: finish_turn_def Let_def)
qed

lemma continue_turn_balanced: "free c {#} s \<Longrightarrow> balanced (continue_turn c next_step s)"
  by (auto simp: continue_turn_def finish_turn_balanced set_phase_balanced split: cont.split)

lemma finalizeTermination_balanced: "free c {#} s \<Longrightarrow> balanced (finalizeTermination c next_step s)"
  unfolding finalizeTermination_def by (auto intro!: set_phase_balanced upd_free)

lemma terminateNextGroup_balanced: "free c {#} s \<Longrightarrow> balanced (terminateNextGroup c next_step s)"
  by (auto simp: terminateNextGroup_def Let_def
      intro!: finalizeTermination_balanced continue_turn_balanced calm_free [OF calm_enqueueSystem] calm_free [OF calm_enqueue_all] upd_free
      split: prod.split option.split)

lemma onTerminate_balanced: "free c {#} s \<Longrightarrow> balanced (onTerminate c next_step s)"
  unfolding onTerminate_def Let_def
  by (auto intro!: terminateNextGroup_balanced finalizeTermination_balanced continue_turn_balanced calm_free [OF calm_enqueue_all] upd_free
      simp del: cell_at_upd)

lemma completeRecreate_balanced: "free c {#} s \<Longrightarrow> balanced (completeRecreate c cause b err next_step s)"
  unfolding completeRecreate_def
  by (auto intro!: set_phase_balanced upd_free continue_turn_balanced calm_free [OF calm_failToParent])

lemma onChildTerminated_balanced:
  assumes "free c {#} s"
  shows "balanced (onChildTerminated c child b err next_step s)"
proof -
  have a: "free c {#} (upd c (\<lambda>k. k\<lparr>c_children := jdelete (c_children k) n\<rparr>) s)" for n
    using assms by (rule upd_free) simp_all
  have b: "free c {#} (upd c (\<lambda>k. k\<lparr>c_pendingRecreate := None\<rparr>) (upd c (\<lambda>k. k\<lparr>c_children := jdelete (c_children k) n\<rparr>) s))" for n
    using a by (rule upd_free) simp_all
  show ?thesis
    unfolding onChildTerminated_def Let_def
    by (auto simp del: cell_at_upd split: option.split
        intro!: a b completeRecreate_balanced continue_turn_balanced terminateNextGroup_balanced finalizeTermination_balanced)
qed

lemma dispatchToBehavior_balanced:
  assumes "free c {#env_ref env#} s" "in_turn c s"
  shows "balanced (dispatchToBehavior c env next_step s)"
proof -
  obtain ph where ph: "jget (turns s) c = Some ph"
    using assms(2) by (auto simp: in_turn_def jget_map_of image_iff dest: weak_map_of_SomeI)
  have cell: "cells s c \<noteq> None" by (rule in_turn_cell [OF assms(2)])
  have into: "balanced (set_phase c (In_handler e next_step) (upd c f s))"
    if "\<And>k. currentEnvelope (f k) = Some e" "env_ref e = env_ref env" "\<And>k. currentEnvelope k = None \<Longrightarrow> mset (held (f k)) = add_mset (env_ref env) (mset (held k))" for f e
  proof -
    have "owes (upd c f s) {#}" by (rule owes_upd) (use assms(1) that(3) cell in \<open>auto simp: free_def\<close>)
    then show ?thesis using assms(1) ph that(1) by (auto simp: balanced_def free_def others_ok_def jget_set_phase)
  qed
  have refused: "balanced (continue_turn c next_step (upd c (\<lambda>k. k\<lparr>currentEnvelope := None\<rparr>) (dead_letter c env s)))"
  proof -
    have "free c {#} (dead_letter c env s)"
      using assms(1) owes_logs(1) by (auto simp: free_def others_ok_def dead_letter_def)
    moreover from this have "upd c (\<lambda>k. k\<lparr>currentEnvelope := None\<rparr>) (dead_letter c env s) = dead_letter c env s"
      by (auto simp: free_def upd_def cell_at_def fun_eq_iff split: option.splits intro!: system.equality)
    ultimately show ?thesis by (simp add: continue_turn_balanced)
  qed
  show ?thesis
    unfolding dispatchToBehavior_def Let_def
    by (auto intro!: into refused split: cmsg.split option.split simp: held_def)
qed

lemma handleUserMessage_balanced:
  assumes "free c {#env_ref env#} s" "in_turn c s"
  shows "balanced (handleUserMessage c env next_step s)"
proof -
  have "free c {#} (serve c env s)"
    using assms(1) owes_logs(2) by (auto simp: free_def others_ok_def serve_def)
  then show ?thesis
    unfolding handleUserMessage_def using dispatchToBehavior_balanced [OF assms]
    by (auto intro!: onTerminate_balanced continue_turn_balanced calm_free [OF calm_failToParent])
qed

lemma free_deadLetterStash: "free c {#} s \<Longrightarrow> free c {#} (deadLetterStash c s)"
proof -
  assume s: "free c {#} s"
  have "owes (upd c (\<lambda>k. k\<lparr>stashBuffer := []\<rparr>) s) (mset (map env_ref (stashBuffer (cell_at s c))) + {#})"
    by (rule owes_upd [of s "{#}"]) (use s in \<open>auto simp: free_def held_def cell_at_None no_cell_def\<close>)
  from owes_dead_letters [OF this, of c] have "owes (deadLetterStash c s) {#}" by (simp add: deadLetterStash_def)
  moreover have "cell_at (foldl (\<lambda>s env. dead_letter c env s) s' envs) = cell_at s'" "turns (foldl (\<lambda>s env. dead_letter c env s) s' envs) = turns s'" for s' envs
    by (induction envs arbitrary: s') (auto simp: dead_letter_def)
  ultimately show ?thesis using s by (auto simp: free_def others_ok_def deadLetterStash_def)
qed

lemma free_deadLetterQueued: "free c {#} s \<Longrightarrow> free c {#} (deadLetterQueuedMessages c s)"
proof -
  assume s: "free c {#} s"
  let ?mb = "(mailbox_of (cell_at s c))\<lparr>userQueue := []\<rparr>"
  have "owes (upd c (\<lambda>k. k\<lparr>mailbox_of := ?mb\<rparr>) s) (mset (map env_ref (userQueue (mailbox_of (cell_at s c)))) + {#})"
    by (rule owes_upd [of s "{#}"]) (use s in \<open>auto simp: free_def held_def cell_at_None no_cell_def\<close>)
  from owes_dead_letters [OF this, of c] have "owes (deadLetterQueuedMessages c s) {#}"
    by (simp add: deadLetterQueuedMessages_def mb_drainUser_def)
  moreover have "cell_at (foldl (\<lambda>s env. dead_letter c env s) s' envs) = cell_at s'" "turns (foldl (\<lambda>s env. dead_letter c env s) s' envs) = turns s'" for s' envs
    by (induction envs arbitrary: s') (auto simp: dead_letter_def)
  ultimately show ?thesis using s by (auto simp: free_def others_ok_def deadLetterQueuedMessages_def mb_drainUser_def)
qed

lemma calm_ghost: "calm (\<lambda>s. s\<lparr>root_terminated := b\<rparr>)"
  by (simp add: calm_def owes_def everywhere_def)

lemma free_after_postStop: "free c {#} s \<Longrightarrow> free c {#} (after_postStop c s)"
proof -
  assume s: "free c {#} s"
  have r: "free c {#} (retire c s)"
    unfolding retire_def using s by (auto intro!: free_deadLetterQueued free_deadLetterStash upd_free)
  have n: "calm (notify_watchers c)"
    unfolding notify_watchers_def using calm_at [where F = "\<lambda>ws s. upd c (\<lambda>k. k\<lparr>c_watchers := []\<rparr>) (foldl (\<lambda>s watcher. notifyWatcher watcher (TerminatedMsg c True) s) s ws)"]
    by (rule meta_mp) (auto intro!: calm_comp [OF calm_upd calm_foldl] calm_notifyWatcher)
  have rw: "calm (removeWatcher t c)" for t unfolding removeWatcher_def by (rule calm_upd) auto
  have d: "calm (drop_watches c)"
    unfolding drop_watches_def using calm_at [where F = "\<lambda>ts s. upd c (\<lambda>k. k\<lparr>c_watching := [], c_watchWith := []\<rparr>) (foldl (\<lambda>s t. removeWatcher t c s) s ts)"]
    by (rule meta_mp) (auto intro!: calm_comp [OF calm_upd calm_foldl] rw)
  show ?thesis
    unfolding after_postStop_def Let_def
    using calm_free [OF d calm_free [OF n r]] by (auto intro!: calm_free [OF calm_enqueueSystem] calm_free [OF calm_ghost] split: option.split)
qed

lemma in_turn_take_ref: "in_turn c s \<Longrightarrow> in_turn c (take_ref s)"
  by (rule keeps_in_turn [OF keeps_ghost(3)])

lemma free_take_ref: "free c {#} s \<Longrightarrow> free c {#next_ref s#} (take_ref s)"
  using owes_take_ref [of s "{#}"] by (simp add: free_def others_ok_def)

lemma calm_signal: "calm (\<lambda>s. postSignalEnvelope c (new_env m s) (take_ref s))"
  using calm_notifyWatcher [of c m] by (simp add: notifyWatcher_def [abs_def])

lemma calm_cascade:
  "calm (onSuspend c)" "calm (onResume c)" "calm (after_postRestart c)"
proof -
  have u: "calm (upd c (\<lambda>k. k\<lparr>mailbox_of := mb_suspend (mailbox_of k), c_state := f k\<rparr>))"
    "calm (upd c (\<lambda>k. k\<lparr>mailbox_of := mb_resume (mailbox_of k), c_state := f k\<rparr>))"
    "calm (upd c (\<lambda>k. k\<lparr>mailbox_of := mb_resume (mailbox_of k)\<rparr>))" "calm (upd c (\<lambda>k. k\<lparr>c_state := Running\<rparr>))" for f
    by (rule calm_upd; auto simp: mb_suspend_def mb_resume_def)+
  have e: "calm (\<lambda>s. enqueue_all (g s) command (upd c f s))" if "calm (upd c f)" for g command f
    by (rule calm_at [where F = "\<lambda>cs s. enqueue_all cs command (upd c f s)"]) (rule calm_comp [OF calm_enqueue_all that])
  show "calm (onSuspend c)" "calm (onResume c)"
    unfolding onSuspend_def [abs_def] onResume_def [abs_def] Let_def by (intro e u)+
  show "calm (after_postRestart c)"
    unfolding after_postRestart_def [abs_def] Let_def by (rule calm_comp [OF u(4) e [OF u(3)]])
qed

lemma handleSystemCommand_balanced:
  assumes "free c {#} s" "in_turn c s"
  shows "balanced (handleSystemCommand c ch next_step command s)"
proof -
  have timeout: "balanced (onReceiveTimeout c next_step s)"
    unfolding onReceiveTimeout_def
    using handleUserMessage_balanced [of c "new_env ReceiveTimeout s" "take_ref s"] free_take_ref [OF assms(1)] in_turn_take_ref [OF assms(2)]
    by (auto simp: new_env_def intro!: continue_turn_balanced assms(1))
  show ?thesis
    unfolding handleSystemCommand_def onCreate_def onRecreate_def
    using assms(1)
    by (auto intro!: timeout onTerminate_balanced continue_turn_balanced finish_turn_balanced onChildTerminated_balanced set_phase_balanced upd_free
        free_deadLetterStash calm_free [OF calm_failToParent] calm_free [OF calm_onFailure] calm_free [OF calm_cascade(1)]
        calm_free [OF calm_cascade(2)] calm_free [OF calm_signal] split: system_command.split)
qed

lemma run_user_balanced:
  assumes "free c {#} s" "in_turn c s"
  shows "balanced (run_user c n tok s)"
proof (cases "mb_dequeueUser (mailbox_of (cell_at s c))")
  case (Pair e mb)
  show ?thesis
  proof (cases e)
    case None
    then show ?thesis using Pair assms(1) by (auto simp: run_user_def intro!: finish_turn_balanced)
  next
    case (Some env)
    let ?s1 = "upd c (\<lambda>k. k\<lparr>mailbox_of := mb\<rparr>) s"
    have mb: "userQueue (mailbox_of (cell_at s c)) = env # userQueue mb"
      using Pair Some by (auto simp: mb_dequeueUser_def split: if_splits list.splits)
    have cell: "cells s c \<noteq> None" by (rule in_turn_cell [OF assms(2)])
    have "owes ?s1 {#env_ref env#}"
      by (rule owes_upd [of s "{#}"]) (use assms(1) mb cell in \<open>auto simp: free_def held_def\<close>)
    then have f: "free c {#env_ref env#} ?s1" using assms(1) by (auto simp: free_def others_ok_def)
    have t: "in_turn c ?s1" using assms(2) by (rule upd_in_turn) simp
    have "free c {#} (handleThrottleExcess c env ?s1)"
    proof (cases "c_throttle (cell_at ?s1 c) = Some Excess_Drop")
      case True
      then show ?thesis
        using f owes_logs(3) [of ?s1 env "{#}" c] by (simp add: handleThrottleExcess_def free_def others_ok_def)
    next
      case False
      have "owes (upd c (\<lambda>k. k\<lparr>mailbox_of := mb_prependUser (mailbox_of k) [env], c_throttleTimer := True\<rparr>) ?s1) {#}"
        by (rule owes_upd [of ?s1 "{#env_ref env#}"]) (use f cell in \<open>auto simp: free_def held_def mb_prependUser_def\<close>)
      then show ?thesis using False f cell by (simp add: handleThrottleExcess_def free_def others_ok_def)
    qed
    then show ?thesis
      using Pair Some assms(1) handleUserMessage_balanced [OF f t]
      by (auto simp: run_user_def Let_def intro!: finish_turn_balanced)
  qed
qed

lemma free_epilogue:
  assumes "owes s {#}" "others_ok c s"
  shows "free c {#} (dispatchEpilogue c s)"
proof (cases "currentEnvelope (cell_at s c)")
  case None
  have "owes (upd c (\<lambda>k. k\<lparr>currentEnvelope := None\<rparr>) s) {#}"
    by (rule owes_upd [OF assms(1)]) (use None in \<open>auto simp: held_def\<close>)
  then show ?thesis using assms(2) None by (auto simp: free_def others_ok_def dispatchEpilogue_def)
next
  case (Some env)
  let ?s1 = "serve c env s"
  have cell: "cells s c \<noteq> None" using Some by (auto simp: cell_at_def no_cell_def split: option.splits)
  have "owes (upd c (\<lambda>k. k\<lparr>currentEnvelope := None\<rparr>) s) {#env_ref env#}"
    by (rule owes_upd [OF assms(1)]) (use Some cell in \<open>auto simp: held_def\<close>)
  then have "owes (serve c env (upd c (\<lambda>k. k\<lparr>currentEnvelope := None\<rparr>) s)) {#}" by (rule owes_logs(2))
  moreover have "serve c env (upd c (\<lambda>k. k\<lparr>currentEnvelope := None\<rparr>) s) = upd c (\<lambda>k. k\<lparr>currentEnvelope := None\<rparr>) ?s1"
    by (simp add: serve_def upd_def)
  moreover have "cells ?s1 c \<noteq> None" "cell_at ?s1 = cell_at s" "turns ?s1 = turns s" using cell by (auto simp: serve_def)
  ultimately show ?thesis using assms(2) Some by (auto simp: free_def others_ok_def dispatchEpilogue_def)
qed

lemma after_handler_free:
  assumes "balanced s"
  shows "free c {#} (after_handler c env ok err s)"
proof -
  have t: "calm (upd c resetReceiveTimer)" by (rule calm_upd) (auto simp: resetReceiveTimer_def)
  show ?thesis
    unfolding after_handler_def using calm_balanced [OF t assms] calm_balanced [OF calm_failToParent assms]
    by (auto intro!: free_epilogue balanced_others simp: balanced_def)
qed

lemma resume_step_balanced:
  assumes "balanced s" "in_turn c s" "jget (turns s) c = Some ph"
  shows "balanced (resume_step c ph ch s)"
proof (cases "\<exists>env next_step. ph = In_handler env next_step")
  case True
  then show ?thesis using after_handler_free [OF assms(1)] by (auto simp: resume_step_def intro!: continue_turn_balanced)
next
  case False
  then have "currentEnvelope (cell_at s c) = None"
    using assms(1,3) unfolding balanced_def by (metis option.inject)
  then have f: "free c {#} s" by (rule balanced_free [OF assms(1)])
  have run: "balanced (run_step c n ch s)" for n
    unfolding run_step_def mb_dequeueSystem_def
    using f assms(2) run_user_balanced [OF f assms(2)]
    by (auto intro!: handleSystemCommand_balanced upd_free_at upd_in_turn split: list.split)
  show ?thesis
    unfolding resume_step_def after_preRestart_def using False f
    by (auto intro!: run set_phase_balanced continue_turn_balanced completeRecreate_balanced upd_free free_after_postStop
        calm_free [OF calm_failToParent] calm_free [OF calm_cascade(3)] calm_free [OF calm_enqueue_all] split: phase.split)
qed

section \<open>Histories\<close>

lemma held_stash:
  "mset (held (snd (cell_stash k))) = mset (held (k :: cell))" "mset (held (snd (cell_unstashAll plain_exec k))) = mset (held k)"
  by (auto simp: held_def cell_stash_def cell_unstashAll_def plain_exec_def mb_prependUser_def Let_def comp_def multiset.map_comp split: option.split)

lemma stash_balanced: "balanced s \<Longrightarrow> balanced (stash c s)"
proof -
  assume s: "balanced s"
  have "owes (stash c s) {#}"
    unfolding stash_def by (rule owes_upd [of s "{#}"]) (use s held_stash in \<open>auto simp: balanced_def\<close>)
  moreover have "currentEnvelope (snd (cell_stash k)) \<noteq> None \<Longrightarrow> currentEnvelope k \<noteq> None" for k :: cell
    by (auto simp: cell_stash_def split: option.splits)
  ultimately show ?thesis using s by (auto simp: balanced_def stash_def split: if_splits)
qed

lemma calm_unstashAll: "calm (unstashAll c)"
proof -
  have "calm (upd c (\<lambda>k. snd (cell_unstashAll plain_exec k)))"
    by (rule calm_upd) (auto simp: held_stash, auto simp: cell_unstashAll_def plain_exec_def)
  then show ?thesis unfolding unstashAll_def [abs_def] by (intro calm_if calm_id calm_comp [OF calm_schedule])
qed

lemma calm_watch: "calm (watch c t)" "calm (watchWith c t m)" "calm (unwatch c t)"
proof -
  have u: "calm (upd d (\<lambda>k. k\<lparr>c_watchers := w k\<rparr>))" "calm (upd d (\<lambda>k. k\<lparr>c_watching := w k\<rparr>))" "calm (upd d (\<lambda>k. k\<lparr>c_watchWith := y k\<rparr>))" for d w y
    by (rule calm_upd; simp)+
  have add: "calm (addWatcher d w)" for d w
    unfolding addWatcher_def [abs_def] by (intro calm_if calm_notifyWatcher u)
  have reg: "calm (registerWatch c t)"
    unfolding registerWatch_def [abs_def] by (intro calm_if calm_id calm_comp [OF add u(2)])
  show "calm (watch c t)" "calm (watchWith c t m)"
    unfolding watch_def [abs_def] watchWith_def [abs_def] by (rule calm_comp [OF reg u(3)])+
  show "calm (unwatch c t)"
    unfolding unwatch_def [abs_def] Let_def removeWatcher_def by (intro calm_if u calm_comp [OF u(1) calm_comp [OF u(2) u(3)]])
qed

lemma spawn_balanced:
  assumes "balanced s" "scheduled_ok s"
  shows "balanced (snd (spawn c generated name throughput s))"
proof -
  let ?child = "next_cid s"
  let ?s1 = "s\<lparr>next_cid := ?child + 1, cells := (cells s)(?child \<mapsto> new_cell (Some c) name throughput None)\<rparr>"
  have none: "cells s ?child = None" using assms(2) by (auto simp: scheduled_ok_def one_turn_each_def)
  have at: "cell_at ?s1 d = (if d = ?child then new_cell (Some c) name throughput None else cell_at s d)" for d
    by (simp add: cell_at_def)
  have "(\<Sum>d\<leftarrow>[0..<?child]. mset (held (cell_at ?s1 d))) = (\<Sum>d\<leftarrow>[0..<?child]. mset (held (cell_at s d)))"
    unfolding at by (intro arg_cong [where f = sum_list] map_cong) auto
  moreover have "held (cell_at ?s1 ?child) = []" unfolding at by (simp add: held_def new_cell_def no_cell_def)
  ultimately have "owes ?s1 {#}"
    using assms(1) by (auto simp: balanced_def owes_def everywhere_def less_Suc_eq)
  then have "balanced ?s1"
    using assms(1) unfolding balanced_def at by (auto simp: new_cell_def no_cell_def)
  moreover have "calm (upd c (\<lambda>k. k\<lparr>c_children := jset (c_children k) name ?child\<rparr>))" by (rule calm_upd) auto
  ultimately show ?thesis
    using assms(1) by (auto simp: spawn_def Let_def intro!: calm_balanced [OF _ calm_balanced [OF calm_enqueueSystem]])
qed

lemma prepend_balanced:
  assumes "balanced s"
  shows "balanced (prependUserMessages c ms s)"
proof -
  let ?envs = "map (\<lambda>(i, m). \<lparr>env_ref = next_ref s + i, message = m, undroppable = False, replayed = False\<rparr>) (enumerate 0 ms)"
  let ?s1 = "s\<lparr>next_ref := next_ref s + length ms\<rparr>"
  have "map env_ref ?envs = map ((+) (next_ref s)) (map fst (enumerate 0 ms))"
    unfolding map_map by (rule map_cong) auto
  also have "\<dots> = map ((+) (next_ref s)) [0..<length ms]" by simp
  finally have refs: "map env_ref ?envs = [next_ref s..<next_ref s + length ms]" by (auto intro: nth_equalityI)
  have "[0..<next_ref s + length ms] = [0..<next_ref s] @ [next_ref s..<next_ref s + length ms]"
    by (rule upt_add_eq_append) simp
  then have o: "owes ?s1 (mset (map env_ref ?envs) + {#})"
    using assms unfolding refs by (simp add: balanced_def owes_def everywhere_def)
  have dead: "balanced (foldl (\<lambda>s env. dead_letter c env s) ?s1 ?envs)"
  proof -
    have "cell_at (foldl (\<lambda>s env. dead_letter c env s) s' envs) = cell_at s'" "turns (foldl (\<lambda>s env. dead_letter c env s) s' envs) = turns s'" for s' envs
      by (induction envs arbitrary: s') (auto simp: dead_letter_def)
    then show ?thesis using owes_dead_letters [OF o, of c] assms by (simp add: balanced_def)
  qed
  have live: "balanced (schedule c (upd c (\<lambda>k. k\<lparr>mailbox_of := mb_prependUser (mailbox_of k) ?envs\<rparr>) ?s1))" if "c_state (cell_at s c) \<noteq> Terminated"
  proof -
    have cell: "cells ?s1 c \<noteq> None" using alive_cell [OF that] by simp
    have "owes (upd c (\<lambda>k. k\<lparr>mailbox_of := mb_prependUser (mailbox_of k) ?envs\<rparr>) ?s1) {#}"
      by (rule owes_upd [OF o]) (use cell in \<open>simp_all add: held_def mb_prependUser_def\<close>)
    then have "balanced (upd c (\<lambda>k. k\<lparr>mailbox_of := mb_prependUser (mailbox_of k) ?envs\<rparr>) ?s1)"
      using assms by (auto simp: balanced_def split: if_splits)
    then show ?thesis by (rule calm_balanced [OF calm_schedule])
  qed
  show ?thesis using assms dead live by (auto simp: prependUserMessages_def Let_def)
qed

lemma perform_balanced:
  assumes "balanced s" "scheduled_ok s"
  shows "balanced (perform a s)"
proof -
  have local: "calm (upd c (become b d))" "calm (upd c unbecome)" "calm (upd c (setReceiveTimeout ms))" "calm (upd c cancelReceiveTimeout)" for c b d ms
    by (rule calm_upd; auto simp: become_def unbecome_def setReceiveTimeout_def resetReceiveTimer_def cancelReceiveTimeout_def held_def)+
  have running: "calm (schedule_running c)" for c
    unfolding schedule_running_def [abs_def] by (intro calm_if calm_schedule calm_id)
  have throttle: "calm (throttle c mode)" for c mode
    unfolding throttle_def [abs_def] by (rule calm_comp [OF running calm_upd]) auto
  have timer: "calm (\<lambda>s. schedule_running c (upd c (\<lambda>k. k\<lparr>c_throttleTimer := False\<rparr>) s))" for c
    by (rule calm_comp [OF running calm_upd]) auto
  have run: "balanced (resume_step c ph ch s)" if "jget (turns s) c = Some ph" for c ph ch
  proof -
    have "in_turn c s" using assms(2) that by (force simp: in_turn_def jget_map_of dest: map_of_SomeD)
    then show ?thesis using resume_step_balanced [OF assms(1) _ that] by simp
  qed
  show ?thesis
    unfolding perform_def using assms
    by (auto intro!: prepend_balanced stash_balanced spawn_balanced run calm_balanced [OF timer] calm_balanced [OF throttle]
        calm_balanced [OF calm_unstashAll] calm_balanced [OF local(1)] calm_balanced [OF local(2)] calm_balanced [OF local(3)]
        calm_balanced [OF local(4)] calm_balanced [OF calm_enqueueSystem] calm_balanced [OF calm_tell] calm_balanced [OF calm_watch(1)]
        calm_balanced [OF calm_watch(2)] calm_balanced [OF calm_watch(3)] split: call.split option.split)
qed

lemma history_balanced: "balanced s \<Longrightarrow> scheduled_ok s \<Longrightarrow> balanced (history s calls)"
  unfolding history_def by (induction calls arbitrary: s) (auto simp: perform_ok perform_balanced)

lemma boot_balanced: "balanced (boot throughput order)"
  unfolding boot_def
  by (rule calm_balanced [OF calm_enqueueSystem])
    (auto simp: balanced_def owes_def everywhere_def refs_of_def cell_at_def new_cell_def no_cell_def held_def split: option.splits if_splits)

text \<open>
  C3. No message is lost and none is duplicated: after any history each envelope ever made, by a tell, a stash
  replay's original or the framework itself, is found exactly once among the queues, stashes and handlers of all
  cells and the served, dead-lettered and throttled-away messages.
\<close>

theorem actor_messages_accounted_for:
  "everywhere (history (boot throughput order) calls) = mset [0..<next_ref (history (boot throughput order) calls)]"
  using history_balanced [OF boot_balanced boot_ok, of throughput order calls] by (simp add: balanced_def owes_def)

end
