(* ===== verification/Actor_Lifecycle.thy ===== *)
theory Actor_Lifecycle
  imports Actor_Accounting
begin

text \<open>
  The life of a cell and of its children. A restart command that reaches a cell which is already stopping undoes
  the stop (the theory \<open>Actor_Restart\<close> shows what follows); in every history without one, a stopped cell stays
  stopped, and it stops only after all its children did.
\<close>

section \<open>The tree of cells\<close>

definition lifecycle :: "system_command \<Rightarrow> bool" where
  "lifecycle x \<longleftrightarrow> x = CreateC \<or> (\<exists>c. x = ChildTerminatedC c)"

definition commands :: "cell \<Rightarrow> system_command list" where
  "commands k = map message (systemQueue (mailbox_of k))"

definition tree :: "system \<Rightarrow> bool" where
  "tree s \<longleftrightarrow>
     (\<forall>p name c. jget (c_children (cell_at s p)) name = Some c \<longrightarrow> c_parent (cell_at s c) = Some p \<and> c_name (cell_at s c) = name) \<and>
     (\<forall>c p. c_parent (cell_at s c) = Some p \<longrightarrow> cells s p \<noteq> None \<and> p < c) \<and>
     (\<forall>c p. c_parent (cell_at s c) = Some p \<longrightarrow>
        c_state (cell_at s c) \<noteq> Terminated \<or> ChildTerminatedC c \<in> set (commands (cell_at s p)) \<longrightarrow>
        jget (c_children (cell_at s p)) (c_name (cell_at s c)) = Some c) \<and>
     (\<forall>p c. ChildTerminatedC c \<in> set (commands (cell_at s p)) \<longrightarrow> c_state (cell_at s c) = Terminated \<and> c_parent (cell_at s c) = Some p) \<and>
     (\<forall>p c. count_list (commands (cell_at s p)) (ChildTerminatedC c) \<le> 1)"

lemma treeD:
  assumes "tree s"
  shows "jget (c_children (cell_at s p)) name = Some c \<Longrightarrow> c_parent (cell_at s c) = Some p \<and> c_name (cell_at s c) = name"
    "c_parent (cell_at s c) = Some p \<Longrightarrow> cells s p \<noteq> None \<and> p < c"
    "c_parent (cell_at s c) = Some p \<Longrightarrow> c_state (cell_at s c) \<noteq> Terminated \<Longrightarrow> jget (c_children (cell_at s p)) (c_name (cell_at s c)) = Some c"
    "c_parent (cell_at s c) = Some p \<Longrightarrow> ChildTerminatedC c \<in> set (commands (cell_at s p)) \<Longrightarrow>
       jget (c_children (cell_at s p)) (c_name (cell_at s c)) = Some c"
    "ChildTerminatedC c \<in> set (commands (cell_at s p)) \<Longrightarrow> c_state (cell_at s c) = Terminated \<and> c_parent (cell_at s c) = Some p"
    "count_list (commands (cell_at s p)) (ChildTerminatedC c) \<le> 1"
  using assms unfolding tree_def by blast+

lemma treeI:
  assumes "\<And>p name c. jget (c_children (cell_at s p)) name = Some c \<Longrightarrow> c_parent (cell_at s c) = Some p \<and> c_name (cell_at s c) = name"
    "\<And>p c. c_parent (cell_at s c) = Some p \<Longrightarrow> cells s p \<noteq> None \<and> p < c"
    "\<And>p c. c_parent (cell_at s c) = Some p \<Longrightarrow> c_state (cell_at s c) \<noteq> Terminated \<or> ChildTerminatedC c \<in> set (commands (cell_at s p)) \<Longrightarrow>
       jget (c_children (cell_at s p)) (c_name (cell_at s c)) = Some c"
    "\<And>p c. ChildTerminatedC c \<in> set (commands (cell_at s p)) \<Longrightarrow> c_state (cell_at s c) = Terminated \<and> c_parent (cell_at s c) = Some p"
    "\<And>p c. count_list (commands (cell_at s p)) (ChildTerminatedC c) \<le> 1"
  shows "tree s"
  using assms unfolding tree_def by blast

definition tidy :: "cell \<Rightarrow> bool" where
  "tidy k \<longleftrightarrow> (c_state k = Terminated \<longrightarrow> c_children k = [] \<and> held k = [])"

definition create_ok :: "cell \<Rightarrow> bool" where
  "create_ok k \<longleftrightarrow> (CreateC \<in> set (commands k) \<longrightarrow> c_state k = Creating \<and> (\<exists>rest. commands k = CreateC # rest \<and> CreateC \<notin> set rest))"

definition phase_ok :: "phase \<Rightarrow> cell \<Rightarrow> bool" where
  "phase_ok ph k =
     (case ph of
        Armed \<Rightarrow> True
      | Turn n \<Rightarrow> True
      | In_preStart next_step \<Rightarrow> CreateC \<notin> set (commands k) \<and> c_state k = Running
      | In_postStop next_step \<Rightarrow> CreateC \<notin> set (commands k) \<and> c_state k = Terminating \<and> c_children k = []
      | In_preRestart cause next_step \<Rightarrow> CreateC \<notin> set (commands k) \<and> c_state k \<noteq> Terminating \<and> c_state k \<noteq> Terminated
      | In_postRestart cause next_step \<Rightarrow> CreateC \<notin> set (commands k) \<and> c_state k \<noteq> Terminating \<and> c_state k \<noteq> Terminated
      | In_handler env next_step \<Rightarrow> CreateC \<notin> set (commands k) \<and> c_state k = Running)"

definition life :: "system \<Rightarrow> bool" where
  "life s \<longleftrightarrow> tree s \<and> (\<forall>c. tidy (cell_at s c) \<and> create_ok (cell_at s c)) \<and>
     (\<forall>c ph. jget (turns s) c = Some ph \<longrightarrow> phase_ok ph (cell_at s c))"

section \<open>Steps near one cell\<close>

text \<open>A step of cell \<open>c\<close> that leaves the tree alone: queues may grow by ordinary commands, cells without a turn
  may get one, and only \<open>c\<close> itself may change its state, without stopping or coming back.\<close>

definition grows :: "cell \<Rightarrow> cell \<Rightarrow> bool" where
  "grows k k' \<longleftrightarrow> (\<exists>extra. commands k' = commands k @ extra \<and> (\<forall>x \<in> set extra. \<not> lifecycle x))"

definition same_place :: "cell \<Rightarrow> cell \<Rightarrow> bool" where
  "same_place k k' \<longleftrightarrow> c_children k' = c_children k \<and> c_parent k' = c_parent k \<and> c_name k' = c_name k \<and>
     (c_state k' = Terminated \<longleftrightarrow> c_state k = Terminated)"

definition near :: "cid \<Rightarrow> system \<Rightarrow> system \<Rightarrow> bool" where
  "near c s s' \<longleftrightarrow>
     (\<forall>d. (cells s' d = None \<longleftrightarrow> cells s d = None) \<and> same_place (cell_at s d) (cell_at s' d) \<and> grows (cell_at s d) (cell_at s' d) \<and>
        (tidy (cell_at s d) \<longrightarrow> tidy (cell_at s' d)) \<and> (d \<noteq> c \<longrightarrow> c_state (cell_at s' d) = c_state (cell_at s d)) \<and>
        (\<forall>ph. jget (turns s') d = Some ph \<longrightarrow> jget (turns s) d = Some ph \<or> ph = Armed))"

lemma grows_refl: "grows k k"
  by (simp add: grows_def)

lemma grows_trans:
  assumes "grows a b" "grows b d"
  shows "grows a d"
proof -
  obtain x y where "commands b = commands a @ x" "commands d = commands b @ y" "\<forall>z \<in> set x. \<not> lifecycle z" "\<forall>z \<in> set y. \<not> lifecycle z"
    using assms unfolding grows_def by blast
  then show ?thesis unfolding grows_def by (intro exI [of _ "x @ y"]) auto
qed

lemma nearD:
  assumes "near c s s'"
  shows "cells s' d = None \<longleftrightarrow> cells s d = None" "same_place (cell_at s d) (cell_at s' d)" "grows (cell_at s d) (cell_at s' d)"
    "tidy (cell_at s d) \<Longrightarrow> tidy (cell_at s' d)" "d \<noteq> c \<Longrightarrow> c_state (cell_at s' d) = c_state (cell_at s d)"
    "jget (turns s') d = Some ph \<Longrightarrow> jget (turns s) d = Some ph \<or> ph = Armed"
  using assms unfolding near_def by blast+

lemma near_refl: "near c s s"
  by (simp add: near_def grows_refl same_place_def)

lemma near_trans:
  assumes "near c s1 s2" "near c s2 s3"
  shows "near c s1 s3"
  unfolding near_def
proof (intro allI conjI impI)
  fix d
  note a = nearD [OF assms(1), of d] and b = nearD [OF assms(2), of d]
  show "cells s3 d = None \<longleftrightarrow> cells s1 d = None" using a(1) b(1) by simp
  show "same_place (cell_at s1 d) (cell_at s3 d)" using a(2) b(2) unfolding same_place_def by simp
  show "grows (cell_at s1 d) (cell_at s3 d)" by (rule grows_trans [OF a(3) b(3)])
  show "tidy (cell_at s3 d)" if "tidy (cell_at s1 d)" using a(4) b(4) that by simp
  show "c_state (cell_at s3 d) = c_state (cell_at s1 d)" if "d \<noteq> c" using a(5) b(5) that by simp
  show "jget (turns s1) d = Some ph \<or> ph = Armed" if "jget (turns s3) d = Some ph" for ph
    using a(6) b(6) [OF that] by auto
qed

lemma near_tree:
  assumes "near c s s'" "tree s"
  shows "tree s'"
proof -
  have place: "c_children (cell_at s' d) = c_children (cell_at s d)" "c_parent (cell_at s' d) = c_parent (cell_at s d)"
    "c_name (cell_at s' d) = c_name (cell_at s d)" "c_state (cell_at s' d) = Terminated \<longleftrightarrow> c_state (cell_at s d) = Terminated"
    "cells s' d = None \<longleftrightarrow> cells s d = None" for d
    using nearD [OF assms(1), of d] by (auto simp: same_place_def)
  have cmd: "ChildTerminatedC e \<in> set (commands (cell_at s' d)) \<longleftrightarrow> ChildTerminatedC e \<in> set (commands (cell_at s d))"
    "count_list (commands (cell_at s' d)) (ChildTerminatedC e) = count_list (commands (cell_at s d)) (ChildTerminatedC e)" for d e
  proof -
    obtain extra where x: "commands (cell_at s' d) = commands (cell_at s d) @ extra" "\<forall>y \<in> set extra. \<not> lifecycle y"
      using nearD(3) [OF assms(1), of d] unfolding grows_def by blast
    then have "ChildTerminatedC e \<notin> set extra" by (auto simp: lifecycle_def)
    then show "ChildTerminatedC e \<in> set (commands (cell_at s' d)) \<longleftrightarrow> ChildTerminatedC e \<in> set (commands (cell_at s d))"
      "count_list (commands (cell_at s' d)) (ChildTerminatedC e) = count_list (commands (cell_at s d)) (ChildTerminatedC e)"
      unfolding x(1) by (auto simp: count_list_0_iff)
  qed
  show ?thesis using assms(2) unfolding tree_def place cmd by blast
qed

text \<open>The cells of a system whose cell \<open>c\<close> is in the middle of a step of its turn.\<close>

definition life_but :: "cid \<Rightarrow> system \<Rightarrow> bool" where
  "life_but c s \<longleftrightarrow> tree s \<and> (\<forall>d. tidy (cell_at s d) \<and> create_ok (cell_at s d)) \<and>
     (\<forall>d ph. d \<noteq> c \<longrightarrow> jget (turns s) d = Some ph \<longrightarrow> phase_ok ph (cell_at s d))"

lemma grows_create: "grows k k' \<Longrightarrow> CreateC \<in> set (commands k') \<longleftrightarrow> CreateC \<in> set (commands k)"
  by (auto simp: grows_def lifecycle_def)

lemma near_create_ok: "grows k k' \<Longrightarrow> c_state k' = c_state k \<Longrightarrow> create_ok k \<Longrightarrow> create_ok k'"
  by (auto simp: create_ok_def grows_def lifecycle_def)

lemma near_phase_ok: "grows k k' \<Longrightarrow> c_state k' = c_state k \<Longrightarrow> c_children k' = c_children k \<Longrightarrow> phase_ok ph k \<Longrightarrow> phase_ok ph k'"
  using grows_create [of k k'] by (simp add: phase_ok_def split: phase.splits)

lemma near_life_but:
  assumes "near c s s'" "life_but c s" "CreateC \<notin> set (commands (cell_at s c)) \<or> c_state (cell_at s' c) = c_state (cell_at s c)"
  shows "life_but c s'"
  unfolding life_but_def
proof (intro conjI allI impI)
  show "tree s'" using near_tree [OF assms(1)] assms(2) by (simp add: life_but_def)
  fix d
  note n = nearD [OF assms(1), of d]
  show "tidy (cell_at s' d)" using n(4) assms(2) by (simp add: life_but_def)
  have c: "create_ok (cell_at s d)" using assms(2) by (simp add: life_but_def)
  show "create_ok (cell_at s' d)"
  proof (cases "CreateC \<in> set (commands (cell_at s d))")
    case True
    then have "c_state (cell_at s' d) = c_state (cell_at s d)" using assms(3) n(5) by (cases "d = c") auto
    then show ?thesis using near_create_ok [OF n(3) _ c] by simp
  next
    case False
    then show ?thesis using grows_create [OF n(3)] by (simp add: create_ok_def)
  qed
  fix ph assume d: "d \<noteq> c" and ph: "jget (turns s') d = Some ph"
  from n(6) [OF ph] show "phase_ok ph (cell_at s' d)"
  proof
    assume "jget (turns s) d = Some ph"
    then have "phase_ok ph (cell_at s d)" using assms(2) d by (simp add: life_but_def)
    then show ?thesis using near_phase_ok [OF n(3)] n(2) n(5) [OF d] by (simp add: same_place_def)
  qed (simp add: phase_ok_def)
qed

lemma lifeI:
  assumes "life_but c s" "\<And>ph. jget (turns s) c = Some ph \<Longrightarrow> phase_ok ph (cell_at s c)"
  shows "life s"
  using assms unfolding life_def life_but_def by metis

lemma tree_cells: "cells s' = cells s \<Longrightarrow> tree s' = tree s"
  by (simp add: tree_def cell_at_cells [of s' s])

lemma life_life_but: "life s \<Longrightarrow> life_but c s"
  by (simp add: life_def life_but_def)

text \<open>A step that changes no state keeps all of it.\<close>

lemma near_life:
  assumes "near c s s'" "c_state (cell_at s' c) = c_state (cell_at s c)" "life s"
  shows "life s'"
proof -
  have b: "life_but c s'" using near_life_but [OF assms(1) life_life_but [OF assms(3)]] assms(2) by blast
  note n = nearD [OF assms(1), of c]
  have "phase_ok ph (cell_at s' c)" if "jget (turns s') c = Some ph" for ph
    using n(6) [OF that] near_phase_ok [OF n(3) assms(2)] n(2) assms(3) by (auto simp: same_place_def life_def phase_ok_def)
  with b show ?thesis by (rule lifeI)
qed

lemma set_phase_life:
  assumes "life_but c s" "phase_ok ph (cell_at s c)"
  shows "life (set_phase c ph s)"
proof (rule lifeI [of c])
  have "tree (set_phase c ph s)" using assms(1) tree_cells [of "set_phase c ph s" s] by (simp add: life_but_def set_phase_def)
  then show "life_but c (set_phase c ph s)" using assms(1) by (simp add: life_but_def jget_set_phase)
  show "phase_ok q (cell_at (set_phase c ph s) c)" if "jget (turns (set_phase c ph s)) c = Some q" for q
    using that assms(2) by (auto simp: jget_set_phase)
qed

section \<open>Ordinary steps\<close>

text \<open>Steps near \<open>c\<close> that also keep its state.\<close>

definition mild :: "cid \<Rightarrow> system \<Rightarrow> system \<Rightarrow> bool" where
  "mild c s s' \<longleftrightarrow> near c s s' \<and> c_state (cell_at s' c) = c_state (cell_at s c)"

lemma mild_refl: "mild c s s"
  by (simp add: mild_def near_refl)

lemma mild_trans: "mild c s1 s2 \<Longrightarrow> mild c s2 s3 \<Longrightarrow> mild c s1 s3"
  using near_trans by (auto simp: mild_def)

lemma mild_life: "mild c s s' \<Longrightarrow> life s \<Longrightarrow> life s'"
  using near_life by (auto simp: mild_def)

lemma mild_life_but: "mild c s s' \<Longrightarrow> life_but c s \<Longrightarrow> life_but c s'"
  using near_life_but by (auto simp: mild_def)

lemma upd_near:
  assumes "same_place (cell_at s d) (f (cell_at s d))" "grows (cell_at s d) (f (cell_at s d))" "tidy (cell_at s d) \<Longrightarrow> tidy (f (cell_at s d))"
    "d \<noteq> c \<Longrightarrow> c_state (f (cell_at s d)) = c_state (cell_at s d)"
  shows "near c s (upd d f s)"
  using assms by (auto simp: near_def grows_refl same_place_def)

lemma upd_mild:
  assumes "same_place (cell_at s d) (f (cell_at s d))" "grows (cell_at s d) (f (cell_at s d))" "tidy (cell_at s d) \<Longrightarrow> tidy (f (cell_at s d))"
    "c_state (f (cell_at s d)) = c_state (cell_at s d)"
  shows "mild c s (upd d f s)"
  using upd_near [of s d f c] assms by (auto simp: mild_def)

lemma held_processing: "held (k\<lparr>c_processing := b\<rparr>) = held k"
  by (simp add: held_def)

lemma schedule_mild: "mild c s (schedule d s)"
  by (auto simp: mild_def near_def same_place_def grows_def tidy_def jget_def map_add_Some_iff commands_def split: if_splits)

lemma enqueueSystem_mild:
  assumes "\<not> lifecycle command"
  shows "mild c s (enqueueSystem d command s)"
  unfolding enqueueSystem_def
  by (rule mild_trans [OF upd_mild schedule_mild]) (use assms in \<open>auto simp: same_place_def grows_def tidy_def mb_enqueueSystem_def sys_env_def commands_def\<close>)

lemma enqueue_all_mild: "\<not> lifecycle command \<Longrightarrow> mild c s (enqueue_all ds command s)"
  unfolding enqueue_all_def
  by (induction ds arbitrary: s) (auto intro: mild_refl mild_trans [OF enqueueSystem_mild])

lemma ghost_mild:
  "mild c s (dead_letter d env s)" "mild c s (serve d env s)" "mild c s (take_ref s)" "mild c s (s\<lparr>discarded := l\<rparr>)"
  "mild c s (s\<lparr>next_ref := n\<rparr>)" "mild c s (s\<lparr>root_terminated := b\<rparr>)"
  by (simp_all add: mild_def near_def same_place_def grows_refl dead_letter_def serve_def take_ref_def)

lemma dead_letters_mild: "mild c s (foldl (\<lambda>s env. dead_letter d env s) s envs)"
  by (induction envs arbitrary: s) (auto intro: mild_refl mild_trans [OF ghost_mild(1)])

lemma post_mild: "mild c s (postUserEnvelope d env s)" "mild c s (postSignalEnvelope d env s)"
proof -
  have "mild c s (enqueueUser d exempt e s)" if "c_state (cell_at s d) \<noteq> Terminated" for exempt e
    unfolding enqueueUser_def
    by (rule mild_trans [OF upd_mild schedule_mild])
      (use that in \<open>auto simp: same_place_def grows_def tidy_def mb_enqueue_def mb_enqueueSignal_def commands_def\<close>)
  then show "mild c s (postUserEnvelope d env s)" "mild c s (postSignalEnvelope d env s)"
    using ghost_mild(1) by (auto simp: postUserEnvelope_def postSignalEnvelope_def)
qed

lemma tell_mild: "mild c s (tell d m s)" "mild c s (notifyWatcher d m s)"
  unfolding tell_def notifyWatcher_def by (rule mild_trans [OF ghost_mild(3) post_mild(1)], rule mild_trans [OF ghost_mild(3) post_mild(2)])

lemma plain_upd_mild:
  assumes "\<And>k. same_place k (f k)" "\<And>k. c_state (f k) = c_state k" "\<And>k. commands (f k) = commands k" "\<And>k. held (f k) = held k"
  shows "mild c s (upd d f s)"
  by (rule upd_mild) (use assms in \<open>auto simp: grows_def tidy_def same_place_def\<close>)

lemma watch_mild: "mild c s (watch d t s)" "mild c s (watchWith d t m s)" "mild c s (unwatch d t s)"
proof -
  have u: "mild c s (upd e (\<lambda>k. k\<lparr>c_watchers := w k\<rparr>) s)" "mild c s (upd e (\<lambda>k. k\<lparr>c_watching := w k\<rparr>) s)"
    "mild c s (upd e (\<lambda>k. k\<lparr>c_watchWith := y k\<rparr>) s)" for e w y s
    by (rule plain_upd_mild; simp add: same_place_def commands_def)+
  have reg: "mild c s (registerWatch d t s)" for s
    unfolding registerWatch_def addWatcher_def
    by (auto intro: mild_refl mild_trans [OF u(2) tell_mild(2)] mild_trans [OF u(2) u(1)])
  show "mild c s (watch d t s)" "mild c s (watchWith d t m s)"
    unfolding watch_def watchWith_def by (rule mild_trans [OF u(3) reg])+
  show "mild c s (unwatch d t s)"
    unfolding unwatch_def Let_def removeWatcher_def by (auto intro: u mild_trans [OF u(3) mild_trans [OF u(2) u(1)]])
qed

section \<open>Steps of a turn\<close>

definition active :: "cid \<Rightarrow> system \<Rightarrow> bool" where
  "active c s \<longleftrightarrow> life_but c s \<and> CreateC \<notin> set (commands (cell_at s c)) \<and> cells s c \<noteq> None"

lemma near_active: "near c s s' \<Longrightarrow> active c s \<Longrightarrow> active c s'"
  using near_life_but [of c s s'] nearD(1,3) [of c s s' c] grows_create [of "cell_at s c" "cell_at s' c"] by (auto simp: active_def)

lemma mild_active: "mild c s s' \<Longrightarrow> active c s \<Longrightarrow> active c s'"
  using near_active [of c s s'] by (simp add: mild_def)

lemma mildD:
  assumes "mild c s s'"
  shows "c_state (cell_at s' d) = c_state (cell_at s d)" "c_children (cell_at s' d) = c_children (cell_at s d)"
    "c_parent (cell_at s' d) = c_parent (cell_at s d)" "c_name (cell_at s' d) = c_name (cell_at s d)"
  using assms nearD(2,5) [of c s s' d] by (cases "d = c"; auto simp: mild_def same_place_def)+

lemma set_phase_active: "active c s \<Longrightarrow> phase_ok ph (cell_at s c) \<Longrightarrow> life (set_phase c ph s)"
  by (simp add: active_def set_phase_life)

lemma finish_turn_life:
  assumes "active c s"
  shows "life (finish_turn c s)"
proof -
  let ?s1 = "(upd c (\<lambda>k. k\<lparr>c_processing := False\<rparr>) s)\<lparr>turns := filter (\<lambda>(d, q). d \<noteq> c) (turns s)\<rparr>"
  have get: "jget (filter (\<lambda>(d, q). d \<noteq> c) xs) d = (if d = c then None else jget xs d)" for d and xs :: "(cid \<times> phase) list"
    by (induction xs) (auto simp: jget_def)
  have "near c s ?s1"
    by (auto simp: near_def get grows_def same_place_def tidy_def commands_def split: if_splits)
  then have "life_but c ?s1" using near_active assms by (simp add: active_def)
  then have "life ?s1" by (rule lifeI) (simp add: get)
  then show ?thesis
    using mild_life [OF schedule_mild] by (auto simp: finish_turn_def Let_def)
qed

lemma continue_turn_life: "active c s \<Longrightarrow> life (continue_turn c next_step s)"
  by (auto simp: continue_turn_def finish_turn_life set_phase_active phase_ok_def split: cont.split)

lemma upd_active:
  assumes "active c s" "same_place (cell_at s c) (f (cell_at s c))" "commands (f (cell_at s c)) = commands (cell_at s c)"
    "tidy (cell_at s c) \<Longrightarrow> tidy (f (cell_at s c))"
  shows "active c (upd c f s)"
  by (rule near_active [OF upd_near assms(1)]) (use assms in \<open>auto simp: grows_def\<close>)

lemma suspend_near:
  "near c s (upd c (\<lambda>k. k\<lparr>mailbox_of := mb_suspend (mailbox_of k), c_state := (if c_state k = Running then Suspended else c_state k)\<rparr>) s)"
  by (rule upd_near) (auto simp: same_place_def grows_def tidy_def commands_def mb_suspend_def)

lemma not_lifecycle [simp]:
  "\<not> lifecycle SuspendC" "\<not> lifecycle ResumeC" "\<not> lifecycle TerminateC" "\<not> lifecycle (RecreateC cause)" "\<not> lifecycle (FailureC d cause m)"
  "\<not> lifecycle (WatchNotifyC d)" "\<not> lifecycle ReceiveTimeoutC"
  by (simp_all add: lifecycle_def)

lemma mild_near: "mild c s s' \<Longrightarrow> near c s s'"
  by (simp add: mild_def)

lemma failToParent_near: "near c s (failToParent c cause m s)"
  unfolding failToParent_def Let_def
  by (auto intro!: near_trans [OF suspend_near near_trans [OF mild_near [OF enqueue_all_mild] mild_near [OF enqueueSystem_mild]]] split: option.split)

lemma failToParent_state:
  "c_state (cell_at (failToParent c cause m s) c) = (if c_state (cell_at s c) = Running then Suspended else c_state (cell_at s c))"
proof -
  let ?s1 = "upd c (\<lambda>k. k\<lparr>mailbox_of := mb_suspend (mailbox_of k), c_state := (if c_state k = Running then Suspended else c_state k)\<rparr>) s"
  have "c_state (cell_at ?s1 c) = (if c_state (cell_at s c) = Running then Suspended else c_state (cell_at s c))"
    using cell_at_None [of s c] by (auto simp: no_cell_def)
  moreover have "mild c ?s1 (failToParent c cause m s)"
    unfolding failToParent_def Let_def by (auto intro!: mild_trans [OF enqueue_all_mild enqueueSystem_mild] split: option.split)
  ultimately show ?thesis by (simp add: mildD(1))
qed

lemma onFailure_near: "near c s (onFailure c failed cause m v s)"
proof -
  have r: "mild c s (snd (registerRestart c st now s))" for st now
    by (auto simp: registerRestart_def Let_def same_place_def commands_def split: prod.split intro!: plain_upd_mild)
  show ?thesis
    unfolding onFailure_def Let_def case_prod_beta
    by (auto intro!: near_refl failToParent_near mild_near enqueue_all_mild mild_trans [OF r enqueue_all_mild]
        split: option.split verdict.split directive.split)
qed

lemma finalizeTermination_life:
  assumes "active c s" "c_state (cell_at s c) = Terminating" "c_children (cell_at s c) = []"
  shows "life (finalizeTermination c next_step s)"
proof -
  have "active c (upd c (\<lambda>k. k\<lparr>c_throttleTimer := False\<rparr>) s)"
    by (rule upd_active [OF assms(1)]) (auto simp: same_place_def commands_def tidy_def)
  then show ?thesis
    unfolding finalizeTermination_def by (rule set_phase_active) (use assms in \<open>auto simp: phase_ok_def active_def commands_def\<close>)
qed

lemma mild_finalize:
  assumes "mild c s s'" "active c s" "c_state (cell_at s c) = Terminating" "c_children (cell_at s c) = []"
  shows "life (finalizeTermination c next_step s')"
  by (rule finalizeTermination_life) (use assms mild_active mildD [OF assms(1)] in auto)

lemma terminateNextGroup_life:
  assumes "active c s" "c_state (cell_at s c) = Terminating"
  shows "life (terminateNextGroup c next_step s)"
proof -
  have g: "mild c s (upd c (\<lambda>k. k\<lparr>c_terminationGroupIndex := i\<rparr>) s)" for i
    by (rule plain_upd_mild) (auto simp: same_place_def commands_def)
  show ?thesis
    unfolding terminateNextGroup_def Let_def case_prod_beta
    by (auto split: option.split intro!: continue_turn_life mild_finalize [OF mild_trans [OF g enqueue_all_mild]]
        mild_active [OF mild_trans [OF g enqueueSystem_mild]] mild_active [OF mild_trans [OF g enqueue_all_mild]] assms)
qed

lemma onTerminate_life:
  assumes "active c s"
  shows "life (onTerminate c next_step s)"
proof (cases "c_state (cell_at s c) = Terminated \<or> c_state (cell_at s c) = Terminating")
  case True
  then show ?thesis using assms by (simp add: onTerminate_def continue_turn_life)
next
  case False
  let ?s1 = "upd c (\<lambda>k. k\<lparr>c_state := Terminating, c_receiveTimer := False\<rparr>) s"
  have a: "active c ?s1"
    by (rule upd_active [OF assms]) (use False in \<open>auto simp: same_place_def commands_def tidy_def\<close>)
  have st: "c_state (cell_at ?s1 c) = Terminating" using assms by (auto simp: active_def)
  show ?thesis
    using False terminateNextGroup_life [OF a st] mild_finalize [OF enqueue_all_mild a st]
      continue_turn_life [OF mild_active [OF enqueue_all_mild a]]
    by (auto simp: onTerminate_def Let_def simp del: cell_at_upd)
qed

lemma completeRecreate_life:
  assumes "active c s" "c_state (cell_at s c) \<noteq> Terminating" "c_state (cell_at s c) \<noteq> Terminated"
  shows "life (completeRecreate c cause b err next_step s)"
proof -
  have "active c (upd c (\<lambda>k. k\<lparr>c_behaviorStack := [0]\<rparr>) s)"
    by (rule upd_active [OF assms(1)]) (auto simp: same_place_def commands_def tidy_def)
  then have "life (set_phase c (In_postRestart cause next_step) (upd c (\<lambda>k. k\<lparr>c_behaviorStack := [0]\<rparr>) s))"
    by (rule set_phase_active) (use assms in \<open>auto simp: phase_ok_def active_def commands_def\<close>)
  then show ?thesis
    using continue_turn_life [OF near_active [OF failToParent_near assms(1)]] by (simp add: completeRecreate_def)
qed

text \<open>Taking a command off the queue, and a terminated child off the table.\<close>

lemma pop_active:
  assumes "life s" "cells s c \<noteq> None" "commands (cell_at s c) = x # rest" "commands k' = rest"
    "k' = (cell_at s c)\<lparr>mailbox_of := mb\<rparr>" "userQueue mb = userQueue (mailbox_of (cell_at s c))"
  shows "active c (upd c (\<lambda>k. k\<lparr>mailbox_of := mb\<rparr>) s)"
proof -
  let ?s' = "upd c (\<lambda>k. k\<lparr>mailbox_of := mb\<rparr>) s"
  have at: "cell_at ?s' d = (if d = c then k' else cell_at s d)" for d using assms(2,5) by simp
  have cmd: "set (commands (cell_at ?s' d)) \<subseteq> set (commands (cell_at s d))"
    "count_list (commands (cell_at ?s' d)) y \<le> count_list (commands (cell_at s d)) y" for d y
    unfolding at using assms(3,4) by auto
  have same: "c_children (cell_at ?s' d) = c_children (cell_at s d)" "c_parent (cell_at ?s' d) = c_parent (cell_at s d)"
    "c_name (cell_at ?s' d) = c_name (cell_at s d)" "c_state (cell_at ?s' d) = c_state (cell_at s d)" "held (cell_at ?s' d) = held (cell_at s d)" for d
    unfolding at using assms(5,6) by (auto simp: held_def)
  have t: "tree s" using assms(1) by (simp add: life_def)
  have "tree ?s'"
    unfolding tree_def same cells_upd_None
    using t cmd unfolding tree_def by (meson le_trans subset_eq)
  moreover have "tidy (cell_at ?s' d)" for d using assms(1) by (simp add: life_def tidy_def same del: cell_at_upd)
  moreover have none: "CreateC \<notin> set rest"
  proof -
    have "create_ok (cell_at s c)" using assms(1) by (simp add: life_def)
    then show ?thesis unfolding create_ok_def assms(3) by auto
  qed
  moreover have "create_ok (cell_at ?s' d)" for d
  proof (cases "d = c")
    case True
    then show ?thesis unfolding at create_ok_def using none assms(4) by simp
  next
    case False
    then show ?thesis unfolding at using assms(1) by (simp add: life_def)
  qed
  moreover have "CreateC \<notin> set (commands (cell_at ?s' c))" unfolding at using none assms(4) by simp
  ultimately show ?thesis
    using assms(1,2) by (simp add: active_def life_but_def life_def)
qed

lemma drop_child_active:
  assumes "active c s" "jget (c_children (cell_at s c)) name = Some d" "c_state (cell_at s d) = Terminated"
    "ChildTerminatedC d \<notin> set (commands (cell_at s c))"
  shows "active c (upd c (\<lambda>k. k\<lparr>c_children := jdelete (c_children k) name\<rparr>) s)"
proof -
  let ?s' = "upd c (\<lambda>k. k\<lparr>c_children := jdelete (c_children k) name\<rparr>) s"
  have cell: "cells s c \<noteq> None" using assms(1) by (simp add: active_def)
  have same: "commands (cell_at ?s' e) = commands (cell_at s e)" "c_parent (cell_at ?s' e) = c_parent (cell_at s e)"
    "c_name (cell_at ?s' e) = c_name (cell_at s e)" "c_state (cell_at ?s' e) = c_state (cell_at s e)" "held (cell_at ?s' e) = held (cell_at s e)" for e
    by (auto simp: commands_def)
  have table: "jget (c_children (cell_at ?s' e)) n = (if e = c \<and> n = name then None else jget (c_children (cell_at s e)) n)" for e n
    using cell by simp
  have t: "tree s" using assms(1) by (simp add: active_def life_but_def)
  have other: "e \<noteq> c \<or> c_name (cell_at s f) \<noteq> name"
    if "c_parent (cell_at s f) = Some e" "c_state (cell_at s f) \<noteq> Terminated \<or> ChildTerminatedC f \<in> set (commands (cell_at s e))" for e f
    using t that assms(2,3,4) unfolding tree_def by (metis option.inject)
  have "tree ?s'"
    unfolding tree_def same cells_upd_None table
    using t other unfolding tree_def by (smt (verit) option.distinct(1))
  moreover have "tidy (cell_at ?s' e)" for e
    using assms(1) by (auto simp: active_def life_but_def tidy_def jdelete_def)
  moreover have "create_ok (cell_at ?s' e)" for e
    using assms(1) unfolding create_ok_def same by (simp add: active_def life_but_def create_ok_def)
  ultimately show ?thesis
    using assms(1) by (auto simp: active_def life_but_def commands_def)
qed

lemma onChildTerminated_life:
  assumes "active c (upd c (\<lambda>k. k\<lparr>c_children := jdelete (c_children k) (c_name (cell_at s child))\<rparr>) s)"
  shows "life (onChildTerminated c child b err next_step s)"
proof -
  let ?s1 = "upd c (\<lambda>k. k\<lparr>c_children := jdelete (c_children k) (c_name (cell_at s child))\<rparr>) s"
  let ?s2 = "upd c (\<lambda>k. k\<lparr>c_pendingRecreate := None\<rparr>) ?s1"
  have m: "mild c ?s1 ?s2" by (rule plain_upd_mild) (auto simp: same_place_def commands_def)
  have a: "active c ?s2" by (rule mild_active [OF m assms])
  note d = mildD [OF m, of c]
  show ?thesis
    unfolding onChildTerminated_def Let_def
    using assms a d
    by (auto simp del: cell_at_upd split: option.split
        intro!: completeRecreate_life continue_turn_life terminateNextGroup_life finalizeTermination_life)
qed

section \<open>The end of a cell\<close>

lemma dead_letters_simps:
  "cell_at (foldl (\<lambda>s env. dead_letter c env s) s envs) = cell_at s" "turns (foldl (\<lambda>s env. dead_letter c env s) s envs) = turns s"
  "cells (foldl (\<lambda>s env. dead_letter c env s) s envs) = cells s"
  by (induction envs arbitrary: s) (auto simp: dead_letter_def)

lemma deadLetterStash_mild: "mild c s (deadLetterStash d s)"
  unfolding deadLetterStash_def
  by (rule mild_trans [OF upd_mild dead_letters_mild]) (auto simp: same_place_def grows_def tidy_def held_def commands_def)

lemma deadLetterQueued_mild: "mild c s (deadLetterQueuedMessages d s)"
  unfolding deadLetterQueuedMessages_def mb_drainUser_def Let_def prod.case
  by (rule mild_trans [OF upd_mild dead_letters_mild]) (auto simp: same_place_def grows_def tidy_def held_def commands_def)

text \<open>What \<open>retire\<close> leaves of a cell that holds no message in a handler.\<close>

lemma retire_cell:
  assumes "cells s c \<noteq> None" "currentEnvelope (cell_at s c) = None"
  shows "c_state (cell_at (retire c s) c) = Terminated" "held (cell_at (retire c s) c) = []"
    "c_children (cell_at (retire c s) c) = c_children (cell_at s c)" "c_parent (cell_at (retire c s) d) = c_parent (cell_at s d)"
    "c_name (cell_at (retire c s) d) = c_name (cell_at s d)" "commands (cell_at (retire c s) d) = commands (cell_at s d)"
    "d \<noteq> c \<Longrightarrow> cell_at (retire c s) d = cell_at s d" "turns (retire c s) = turns s" "cells (retire c s) d = None \<longleftrightarrow> cells s d = None"
  using assms
  by (auto simp: retire_def deadLetterQueuedMessages_def deadLetterStash_def mb_drainUser_def dead_letters_simps held_def commands_def)

lemma notify_mild: "mild c s (notify_watchers d s)" "mild c s (drop_watches d s)"
proof -
  have fold1: "mild c s (foldl (\<lambda>s w. notifyWatcher w m s) s ws)" for m ws s
    by (induction ws arbitrary: s) (auto intro: mild_refl mild_trans [OF tell_mild(2)])
  have rw: "mild c s (removeWatcher t d s)" for t s
    unfolding removeWatcher_def by (rule plain_upd_mild) (auto simp: same_place_def commands_def)
  have fold2: "mild c s (foldl (\<lambda>s t. removeWatcher t d s) s ts)" for ts s
    by (induction ts arbitrary: s) (auto intro: mild_refl mild_trans [OF rw])
  show "mild c s (notify_watchers d s)"
    unfolding notify_watchers_def by (rule mild_trans [OF fold1 plain_upd_mild]) (auto simp: same_place_def commands_def)
  show "mild c s (drop_watches d s)"
    unfolding drop_watches_def by (rule mild_trans [OF fold2 plain_upd_mild]) (auto simp: same_place_def commands_def)
qed

lemma retire_active:
  assumes "active c s" "currentEnvelope (cell_at s c) = None" "c_children (cell_at s c) = []" "c_state (cell_at s c) \<noteq> Terminated"
  shows "active c (retire c s)"
proof -
  have cell: "cells s c \<noteq> None" using assms(1) by (simp add: active_def)
  note r = retire_cell [OF cell assms(2)]
  have children: "c_children (cell_at (retire c s) d) = c_children (cell_at s d)" for d using r(3) r(7) [of d] by (cases "d = c") auto
  have state: "c_state (cell_at (retire c s) d) = (if d = c then Terminated else c_state (cell_at s d))" for d
    using r(1) r(7) [of d] by auto
  have t: "tree s" using assms(1) by (simp add: active_def life_but_def)
  have unsent: "ChildTerminatedC c \<notin> set (commands (cell_at s p))" for p using t assms(4) unfolding tree_def by blast
  have "tree (retire c s)"
    by (rule treeI; unfold children r(4,5,6,9) state) (use treeD [OF t] in \<open>auto split: if_splits\<close>)
  moreover have "tidy (cell_at (retire c s) d)" for d
    using assms(1,3) r(2,3) r(7) [of d] by (cases "d = c") (auto simp: tidy_def active_def life_but_def)
  moreover have "create_ok (cell_at (retire c s) d)" for d
    using assms(1) r(6) [of c] r(7) [of d] by (cases "d = c") (auto simp: create_ok_def active_def life_but_def)
  moreover have "phase_ok ph (cell_at (retire c s) d)" if "d \<noteq> c" "jget (turns (retire c s)) d = Some ph" for d ph
    using that assms(1) r(7,8) by (simp add: active_def life_but_def)
  ultimately show ?thesis using assms(1) r(6,9) by (simp add: active_def life_but_def)
qed

lemma report_active:
  assumes "active c s" "c_parent (cell_at s c) = Some p" "c_state (cell_at s c) = Terminated"
    "jget (c_children (cell_at s p)) (c_name (cell_at s c)) = Some c" "ChildTerminatedC c \<notin> set (commands (cell_at s p))"
  shows "active c (enqueueSystem p (ChildTerminatedC c) s)"
proof -
  let ?s' = "enqueueSystem p (ChildTerminatedC c) s"
  have t: "tree s" using assms(1) by (simp add: active_def life_but_def)
  have p: "cells s p \<noteq> None" "p \<noteq> c" using t assms(2) unfolding tree_def by (metis less_irrefl)+
  have cmd: "commands (cell_at ?s' d) = commands (cell_at s d) @ (if d = p then [ChildTerminatedC c] else [])" for d
    using p by (auto simp: enqueueSystem_def commands_def mb_enqueueSystem_def sys_env_def)
  have same: "c_children (cell_at ?s' d) = c_children (cell_at s d)" "c_parent (cell_at ?s' d) = c_parent (cell_at s d)"
    "c_name (cell_at ?s' d) = c_name (cell_at s d)" "c_state (cell_at ?s' d) = c_state (cell_at s d)" "held (cell_at ?s' d) = held (cell_at s d)"
    "cells ?s' d = None \<longleftrightarrow> cells s d = None" for d
    by (auto simp: enqueueSystem_def held_def mb_enqueueSystem_def)
  have mem: "ChildTerminatedC e \<in> set (commands (cell_at ?s' d)) \<longleftrightarrow> ChildTerminatedC e \<in> set (commands (cell_at s d)) \<or> d = p \<and> e = c" for d e
    unfolding cmd by auto
  have once: "count_list (commands (cell_at ?s' d)) (ChildTerminatedC e) \<le> 1" for d e
  proof (cases "d = p \<and> e = c")
    case True
    then have "count_list (commands (cell_at s d)) (ChildTerminatedC e) = 0" using assms(5) by (simp add: count_list_0_iff)
    then show ?thesis unfolding cmd using True by simp
  next
    case False
    then show ?thesis unfolding cmd using t by (auto simp: tree_def)
  qed
  have "tree ?s'"
    by (rule treeI [OF _ _ _ _ once]; unfold same mem) (use treeD [OF t] assms(2,3,4) in auto)
  moreover have "tidy (cell_at ?s' d)" for d
    using assms(1) by (simp add: tidy_def same active_def life_but_def)
  moreover have create: "create_ok (cell_at ?s' d)" for d
    using assms(1) unfolding create_ok_def same cmd by (auto simp: active_def life_but_def create_ok_def)
  moreover have "phase_ok ph (cell_at ?s' d)" if "d \<noteq> c" "jget (turns ?s') d = Some ph" for d ph
  proof -
    have "jget (turns s) d = Some ph \<or> ph = Armed"
      using that(2) by (auto simp: enqueueSystem_def jget_def map_add_Some_iff split: if_splits)
    moreover have "phase_ok ph (cell_at ?s' d) = phase_ok ph (cell_at s d)"
      by (simp add: phase_ok_def same cmd split: phase.split)
    moreover have "jget (turns s) d = Some ph \<Longrightarrow> phase_ok ph (cell_at s d)" using assms(1) that(1) by (simp add: active_def life_but_def)
    ultimately show ?thesis by (auto simp: phase_ok_def [of Armed])
  qed
  ultimately show ?thesis using assms(1) p(2) cmd [of c] same(6) by (simp add: active_def life_but_def)
qed

lemma after_postStop_active:
  assumes "active c s" "currentEnvelope (cell_at s c) = None" "c_children (cell_at s c) = []" "c_state (cell_at s c) = Terminating"
  shows "active c (after_postStop c s)"
proof -
  let ?s1 = "drop_watches c (notify_watchers c (retire c s))"
  have cell: "cells s c \<noteq> None" and t: "tree s" using assms(1) by (auto simp: active_def life_but_def)
  note r = retire_cell [OF cell assms(2)]
  have m: "mild c (retire c s) ?s1" by (rule mild_trans [OF notify_mild(1) notify_mild(2)])
  have a: "active c ?s1" by (rule mild_active [OF m retire_active [OF assms(1-3)]]) (simp add: assms(4))
  show ?thesis
  proof (cases "c_parent (cell_at s c)")
    case None
    then show ?thesis using mild_active [OF ghost_mild(6) a] by (simp add: after_postStop_def Let_def)
  next
    case (Some p)
    have p: "p \<noteq> c" using t Some unfolding tree_def by (metis less_irrefl)
    have listed: "jget (c_children (cell_at s p)) (c_name (cell_at s c)) = Some c"
      using t Some assms(4) unfolding tree_def by simp
    have unsent: "ChildTerminatedC c \<notin> set (commands (cell_at s p))" using t assms(4) unfolding tree_def by force
    have "grows (cell_at (retire c s) p) (cell_at ?s1 p)" using m nearD(3) unfolding mild_def by blast
    then have "ChildTerminatedC c \<notin> set (commands (cell_at ?s1 p))"
      using unsent r(6) [of p] by (auto simp: grows_def lifecycle_def)
    moreover have "c_parent (cell_at ?s1 c) = Some p" "c_state (cell_at ?s1 c) = Terminated"
      "jget (c_children (cell_at ?s1 p)) (c_name (cell_at ?s1 c)) = Some c"
      using mildD [OF m, of c] mildD [OF m, of p] r(1,4,5) r(7) [OF p] Some listed by auto
    ultimately show ?thesis using report_active [OF a] Some by (simp add: after_postStop_def Let_def)
  qed
qed

section \<open>A step of a turn\<close>

text \<open>A restart command for a cell that is already stopping.\<close>

definition late_restart :: "call \<Rightarrow> system \<Rightarrow> bool" where
  "late_restart a s =
     (case a of
        Run c ch \<Rightarrow>
          (case jget (turns s) c of
             Some (Turn n) \<Rightarrow>
               (case commands (cell_at s c) of
                  RecreateC cause # rest \<Rightarrow> c_state (cell_at s c) = Terminating \<or> c_state (cell_at s c) = Terminated
                | _ \<Rightarrow> False)
           | _ \<Rightarrow> False)
      | _ \<Rightarrow> False)"

lemma dispatchToBehavior_life:
  assumes "active c s" "c_state (cell_at s c) = Running"
  shows "life (dispatchToBehavior c env next_step s)"
proof -
  have into: "life (set_phase c (In_handler e next_step) (upd c f s))"
    if "\<And>k. same_place k (f k)" "\<And>k. commands (f k) = commands k" "\<And>k. c_state (f k) = c_state k" for f e
  proof (rule set_phase_active)
    show "active c (upd c f s)" by (rule upd_active [OF assms(1)]) (use that assms(2) in \<open>auto simp: tidy_def\<close>)
    show "phase_ok (In_handler e next_step) (cell_at (upd c f s) c)" using assms that by (auto simp: phase_ok_def active_def)
  qed
  have m: "mild c (dead_letter c env s) (upd c (\<lambda>k. k\<lparr>currentEnvelope := None\<rparr>) (dead_letter c env s))"
    by (rule upd_mild) (auto simp: same_place_def grows_def tidy_def held_def commands_def)
  have refused: "life (continue_turn c next_step (upd c (\<lambda>k. k\<lparr>currentEnvelope := None\<rparr>) (dead_letter c env s)))"
    by (intro continue_turn_life mild_active [OF mild_trans [OF ghost_mild(1) m] assms(1)])
  show ?thesis
    unfolding dispatchToBehavior_def Let_def
    by (auto intro!: into refused split: cmsg.split simp: same_place_def commands_def)
qed

lemma handleUserMessage_life:
  assumes "active c s" "c_state (cell_at s c) = Running"
  shows "life (handleUserMessage c env next_step s)"
proof -
  have a: "active c (serve c env s)" by (rule mild_active [OF ghost_mild(2) assms(1)])
  show ?thesis
    unfolding handleUserMessage_def using dispatchToBehavior_life [OF assms] a
    by (auto intro!: onTerminate_life continue_turn_life near_active [OF failToParent_near])
qed

lemma handleSystemCommand_life:
  assumes "active c s" "command = CreateC \<Longrightarrow> c_state (cell_at s c) = Creating" "\<And>child. command \<noteq> ChildTerminatedC child"
    "\<And>cause. command = RecreateC cause \<Longrightarrow> c_state (cell_at s c) \<noteq> Terminating \<and> c_state (cell_at s c) \<noteq> Terminated"
  shows "life (handleSystemCommand c ch next_step command s)"
proof (cases command)
  case CreateC
  let ?s1 = "upd c (\<lambda>k. k\<lparr>c_actor := True, c_behaviorStack := [0], c_state := Running\<rparr>) s"
  have "active c ?s1" by (rule upd_active [OF assms(1)]) (use assms(2) CreateC in \<open>auto simp: same_place_def commands_def tidy_def\<close>)
  then have "life (set_phase c (In_preStart next_step) ?s1)"
    by (rule set_phase_active) (use assms(1) in \<open>auto simp: phase_ok_def active_def commands_def\<close>)
  then show ?thesis
    using CreateC continue_turn_life [OF near_active [OF failToParent_near assms(1)]] by (simp add: handleSystemCommand_def onCreate_def)
next
  case (RecreateC cause)
  have m: "mild c s (deadLetterStash c s)" by (rule deadLetterStash_mild)
  have "active c (deadLetterStash c s)" by (rule mild_active [OF m assms(1)])
  then have "life (set_phase c (In_preRestart cause next_step) (deadLetterStash c s))"
    by (rule set_phase_active) (use assms(4) [OF RecreateC] mildD(1) [OF m, of c] \<open>active c (deadLetterStash c s)\<close> in \<open>auto simp: phase_ok_def active_def\<close>)
  then show ?thesis using RecreateC continue_turn_life [OF assms(1)] by (simp add: handleSystemCommand_def onRecreate_def)
next
  case SuspendC
  have "near c s (onSuspend c s)"
    unfolding onSuspend_def Let_def by (rule near_trans [OF suspend_near mild_near [OF enqueue_all_mild]]) simp
  from continue_turn_life [OF near_active [OF this assms(1)]] show ?thesis using SuspendC by (simp add: handleSystemCommand_def)
next
  case ResumeC
  have "near c s (onResume c s)"
    unfolding onResume_def Let_def
    by (rule near_trans [OF upd_near mild_near [OF enqueue_all_mild]])
      (auto simp: same_place_def grows_def tidy_def commands_def mb_resume_def)
  from continue_turn_life [OF near_active [OF this assms(1)]] show ?thesis using ResumeC by (simp add: handleSystemCommand_def)
next
  case (FailureC child cause m)
  have f: "life (finish_turn c s)" by (rule finish_turn_life [OF assms(1)])
  have "life (continue_turn c next_step (onFailure c child cause m v s))" for v
    by (rule continue_turn_life [OF near_active [OF onFailure_near assms(1)]])
  with f show ?thesis unfolding FailureC handleSystemCommand_def system_command.case by (simp split: if_split)
next
  case ReceiveTimeoutC
  have "active c (take_ref s)" by (rule mild_active [OF ghost_mild(3) assms(1)])
  then show ?thesis
    using ReceiveTimeoutC continue_turn_life [OF assms(1)] handleUserMessage_life [of c "take_ref s"]
    by (auto simp: handleSystemCommand_def onReceiveTimeout_def)
next
  case (WatchNotifyC target)
  have "mild c s (postSignalEnvelope c (new_env (TerminatedMsg target True) s) (take_ref s))"
    by (rule mild_trans [OF ghost_mild(3) post_mild(2)])
  from continue_turn_life [OF mild_active [OF this assms(1)]] show ?thesis using WatchNotifyC by (simp add: handleSystemCommand_def)
qed (use assms onTerminate_life in \<open>auto simp: handleSystemCommand_def\<close>)

lemma run_user_life:
  assumes "active c s"
  shows "life (run_user c n tok s)"
proof (cases "c_state (cell_at s c) = Running")
  case True
  show ?thesis
  proof (cases "mb_dequeueUser (mailbox_of (cell_at s c))")
    case (Pair e mb)
    let ?s1 = "upd c (\<lambda>k. k\<lparr>mailbox_of := mb\<rparr>) s"
    have mb: "systemQueue mb = systemQueue (mailbox_of (cell_at s c))"
      using Pair by (auto simp: mb_dequeueUser_def split: if_splits list.splits)
    have a: "active c ?s1"
      by (rule upd_active [OF assms]) (use True mb in \<open>auto simp: same_place_def commands_def tidy_def\<close>)
    have r: "c_state (cell_at ?s1 c) = Running" using True by simp
    have "mild c ?s1 (handleThrottleExcess c env ?s1)" for env
      using upd_mild [of ?s1 c "\<lambda>k. k\<lparr>mailbox_of := mb_prependUser (mailbox_of k) [env], c_throttleTimer := True\<rparr>" c] ghost_mild(4) r
      by (auto simp: handleThrottleExcess_def same_place_def grows_def tidy_def commands_def mb_prependUser_def)
    then show ?thesis
      using Pair True finish_turn_life [OF assms] handleUserMessage_life [OF a r] finish_turn_life [OF mild_active [OF _ a]]
      by (auto simp: run_user_def Let_def split: option.split)
  qed
qed (simp add: run_user_def finish_turn_life [OF assms])

lemma run_step_life:
  assumes "life s" "cells s c \<noteq> None" "jget (turns s) c = Some (Turn n)" "\<not> late_restart (Run c ch) s"
  shows "life (run_step c n ch s)"
proof (cases "systemQueue (mailbox_of (cell_at s c))")
  case Nil
  then have "active c s" using assms(1,2) life_life_but by (simp add: active_def commands_def)
  then show ?thesis using Nil by (simp add: run_step_def mb_dequeueSystem_def run_user_life)
next
  case (Cons x rest)
  let ?mb = "(mailbox_of (cell_at s c))\<lparr>systemQueue := rest\<rparr>"
  let ?k = "(cell_at s c)\<lparr>mailbox_of := ?mb\<rparr>"
  let ?s1 = "upd c (\<lambda>k. k\<lparr>mailbox_of := ?mb\<rparr>) s"
  have cmd: "commands (cell_at s c) = message x # map message rest" "commands ?k = map message rest" using Cons by (auto simp: commands_def)
  have a: "active c ?s1" by (rule pop_active [OF assms(1,2) cmd refl]) simp
  have at: "cell_at ?s1 c = ?k" using assms(2) by simp
  have step: "run_step c n ch s = handleSystemCommand c ch (After_System n) (message x) ?s1"
    using Cons by (simp add: run_step_def mb_dequeueSystem_def)
  show ?thesis
  proof (cases "\<exists>d. message x = ChildTerminatedC d")
    case True
    then obtain d where d: "message x = ChildTerminatedC d" by blast
    have t: "tree s" using assms(1) by (simp add: life_def)
    have d1: "c_state (cell_at s d) = Terminated" "c_parent (cell_at s d) = Some c" using treeD(5) [OF t, of d c] cmd d by auto
    have d2: "jget (c_children (cell_at s c)) (c_name (cell_at s d)) = Some d" using treeD(4) [OF t d1(2)] cmd d by simp
    have "count_list (map message rest) (ChildTerminatedC d) = 0" using treeD(6) [OF t, of c d] cmd(1) d by simp
    then have d3: "ChildTerminatedC d \<notin> set (commands (cell_at ?s1 c))" unfolding at cmd(2) by (simp add: count_list_0_iff)
    have "d \<noteq> c" using treeD(2) [OF t d1(2)] by auto
    then have at_d: "cell_at ?s1 d = cell_at s d" by simp
    have "active c (upd c (\<lambda>k. k\<lparr>c_children := jdelete (c_children k) (c_name (cell_at ?s1 d))\<rparr>) ?s1)"
      unfolding at_d by (rule drop_child_active [OF a _ _ d3]) (use d1 d2 at at_d in simp_all)
    from onChildTerminated_life [OF this] show ?thesis unfolding step d by (simp add: handleSystemCommand_def)
  next
    case False
    have "life (handleSystemCommand c ch (After_System n) (message x) ?s1)"
    proof (rule handleSystemCommand_life [OF a])
      show "c_state (cell_at ?s1 c) = Creating" if "message x = CreateC"
      proof -
        have "create_ok (cell_at s c)" using assms(1) by (simp add: life_def)
        then show ?thesis unfolding at create_ok_def cmd(1) using that by simp
      qed
      show "c_state (cell_at ?s1 c) \<noteq> Terminating \<and> c_state (cell_at ?s1 c) \<noteq> Terminated" if "message x = RecreateC cause" for cause
        using assms(3,4) cmd(1) that unfolding at late_restart_def by auto
    qed (use False in blast)
    then show ?thesis by (simp add: step)
  qed
qed

lemma resume_step_life:
  assumes "life s" "balanced s" "cells s c \<noteq> None" "jget (turns s) c = Some ph" "\<not> late_restart (Run c ch) s"
  shows "life (resume_step c ph ch s)"
proof -
  have ok: "phase_ok ph (cell_at s c)" using assms(1,4) by (simp add: life_def)
  have but: "life_but c s" by (rule life_life_but [OF assms(1)])
  show ?thesis
  proof (cases ph)
    case Armed
    then show ?thesis using set_phase_life [OF but] by (simp add: resume_step_def phase_ok_def)
  next
    case (Turn n)
    then show ?thesis using run_step_life [OF assms(1,3) _ assms(5)] assms(4) by (simp add: resume_step_def)
  next
    case (In_preStart next_step)
    then have "active c s" using ok but assms(3) by (simp add: active_def phase_ok_def)
    then show ?thesis using In_preStart near_active [OF failToParent_near] by (auto simp: resume_step_def intro!: continue_turn_life)
  next
    case (In_postStop next_step)
    then have "active c s" "c_children (cell_at s c) = []" "c_state (cell_at s c) = Terminating" using ok but assms(3) by (auto simp: active_def phase_ok_def)
    moreover have "currentEnvelope (cell_at s c) = None"
    proof (rule ccontr)
      assume "currentEnvelope (cell_at s c) \<noteq> None"
      then obtain env k where "jget (turns s) c = Some (In_handler env k)" using assms(2) unfolding balanced_def by blast
      then show False using assms(4) In_postStop by simp
    qed
    ultimately show ?thesis using In_postStop after_postStop_active by (auto simp: resume_step_def intro!: continue_turn_life)
  next
    case (In_preRestart cause next_step)
    then have a: "active c s" "c_state (cell_at s c) \<noteq> Terminating" "c_state (cell_at s c) \<noteq> Terminated" using ok but assms(3) by (auto simp: active_def phase_ok_def)
    have "mild c s (upd c (\<lambda>k. k\<lparr>c_pendingRecreate := Some cause\<rparr>) (enqueue_all ds TerminateC s))" for ds
      by (rule mild_trans [OF enqueue_all_mild plain_upd_mild]) (auto simp: same_place_def commands_def)
    then show ?thesis
      using In_preRestart completeRecreate_life [OF a] continue_turn_life [OF mild_active [OF _ a(1)]]
      by (auto simp: resume_step_def after_preRestart_def)
  next
    case (In_postRestart cause next_step)
    then have a: "active c s" "c_state (cell_at s c) \<noteq> Terminating" "c_state (cell_at s c) \<noteq> Terminated" using ok but assms(3) by (auto simp: active_def phase_ok_def)
    let ?s1 = "upd c (\<lambda>k. k\<lparr>mailbox_of := mb_resume (mailbox_of k)\<rparr>) s"
    let ?s2 = "enqueue_all (jvalues (c_children (cell_at s c))) ResumeC ?s1"
    have m: "mild c s ?s2"
      by (rule mild_trans [OF upd_mild enqueue_all_mild]) (auto simp: same_place_def grows_def tidy_def commands_def mb_resume_def)
    have "near c ?s2 (after_postRestart c s)"
      unfolding after_postRestart_def Let_def
      by (rule upd_near) (use mildD(1) [OF m, of c] a in \<open>auto simp: same_place_def grows_def tidy_def commands_def\<close>)
    then show ?thesis
      using In_postRestart near_active [OF near_trans [OF mild_near [OF m]] a(1)] near_active [OF failToParent_near a(1)]
      by (auto simp: resume_step_def intro!: continue_turn_life)
  next
    case (In_handler env next_step)
    then have a: "active c s" using ok but assms(3) by (simp add: active_def phase_ok_def)
    have clear: "mild c s (upd c (\<lambda>k. k\<lparr>currentEnvelope := None\<rparr>) s)" for s
      by (rule upd_mild) (auto simp: same_place_def grows_def tidy_def held_def commands_def)
    have epi: "mild c s (dispatchEpilogue c s)" for s
      unfolding dispatchEpilogue_def Let_def using clear [of s] mild_trans [OF ghost_mild(2) clear] by (auto split: option.split)
    have timer: "mild c s (upd c resetReceiveTimer s)"
      by (rule plain_upd_mild) (auto simp: same_place_def commands_def resetReceiveTimer_def)
    show ?thesis
      using In_handler mild_active [OF epi mild_active [OF timer a]] mild_active [OF epi near_active [OF failToParent_near a]]
      by (auto simp: resume_step_def after_handler_def intro!: continue_turn_life)
  qed
qed

section \<open>Histories without a late restart\<close>

lemma spawn_life:
  assumes "life s" "scheduled_ok s"
  shows "life (snd (spawn c generated name throughput s))"
proof (cases "fst (spawn c generated name throughput s)")
  case (Inl e)
  then have "snd (spawn c generated name throughput s) = s" by (auto simp: spawn_def Let_def split: if_splits)
  then show ?thesis using assms(1) by simp
next
  case (Inr r)
  let ?n = "next_cid s"
  let ?new = "new_cell (Some c) name throughput None"
  let ?s' = "snd (spawn c generated name throughput s)"
  have live: "c_state (cell_at s c) \<noteq> Terminated" "c_state (cell_at s c) \<noteq> Terminating" "jget (c_children (cell_at s c)) name = None"
    using Inr by (auto simp: spawn_def Let_def jhas_iff split: if_splits)
  have none: "cells s ?n = None" "\<And>d. cells s d \<noteq> None \<Longrightarrow> d < ?n" using assms(2) by (auto simp: scheduled_ok_def one_turn_each_def)
  have cell: "cells s c \<noteq> None" "c < ?n" using alive_cell [OF live(1)] none(2) by auto
  have s': "?s' = upd c (\<lambda>k. k\<lparr>c_children := jset (c_children k) name ?n\<rparr>)
      (enqueueSystem ?n CreateC (s\<lparr>next_cid := ?n + 1, cells := (cells s)(?n \<mapsto> ?new)\<rparr>))"
    using Inr by (auto simp: spawn_def Let_def split: if_splits)
  let ?s1 = "s\<lparr>next_cid := ?n + 1, cells := (cells s)(?n \<mapsto> ?new)\<rparr>"
  have at1: "cell_at ?s1 d = (if d = ?n then ?new else cell_at s d)" "cells ?s1 d = None \<longleftrightarrow> cells s d = None \<and> d \<noteq> ?n" for d
    by (auto simp: cell_at_def)
  let ?q = "?new\<lparr>mailbox_of := (mailbox_of ?new)\<lparr>systemQueue := [sys_env CreateC]\<rparr>\<rparr>"
  have "ready ?q" by (simp add: ready_def hasDispatchableWork_def new_cell_def no_cell_def mb_hasMessages_def)
  moreover have "?new\<lparr>mailbox_of := mb_enqueueSystem (mailbox_of ?new) (sys_env CreateC)\<rparr> = ?q"
    by (simp add: mb_enqueueSystem_def new_cell_def no_cell_def)
  ultimately have at2: "cell_at (enqueueSystem ?n CreateC ?s1) d = (if d = ?n then ?q\<lparr>c_processing := True\<rparr> else cell_at s d)" for d
    unfolding enqueueSystem_def cell_at_schedule cell_at_upd at1 by simp
  have cells2: "cells (enqueueSystem ?n CreateC ?s1) d = None \<longleftrightarrow> cells s d = None \<and> d \<noteq> ?n" for d
    by (simp add: enqueueSystem_def)
  have cells': "cells ?s' d = None \<longleftrightarrow> cells s d = None \<and> d \<noteq> ?n" for d
    unfolding s' cells_upd_None cells2 by (rule refl)
  have at: "cell_at ?s' d = (if d = ?n then ?q\<lparr>c_processing := True\<rparr>
      else if d = c then (cell_at s c)\<lparr>c_children := jset (c_children (cell_at s c)) name ?n\<rparr> else cell_at s d)" for d
    unfolding s' cell_at_upd at2 cells2 using cell by auto
  have old: "cell_at s ?n = no_cell" by (rule cell_at_None [OF none(1)])
  have t: "tree s" using assms(1) by (simp add: life_def)
  have child: "jget (c_children (cell_at ?s' p)) nm = (if p = ?n then None else if p = c \<and> nm = name then Some ?n else jget (c_children (cell_at s p)) nm)" for p nm
    unfolding at using cell(2) by (auto simp: new_cell_def no_cell_def jget_def [of "[]"])
  have parent: "c_parent (cell_at ?s' d) = (if d = ?n then Some c else c_parent (cell_at s d))" for d
    unfolding at by (auto simp: new_cell_def)
  have nm: "c_name (cell_at ?s' d) = (if d = ?n then name else c_name (cell_at s d))" for d
    unfolding at by (auto simp: new_cell_def)
  have state: "c_state (cell_at ?s' d) = (if d = ?n then Creating else c_state (cell_at s d))" for d
    unfolding at by (auto simp: new_cell_def)
  have cmd: "commands (cell_at ?s' d) = (if d = ?n then [CreateC] else commands (cell_at s d))" for d
    unfolding at by (auto simp: commands_def sys_env_def)
  have "tree ?s'"
  proof (rule treeI)
    fix p m d
    show "c_parent (cell_at ?s' d) = Some p \<and> c_name (cell_at ?s' d) = m" if "jget (c_children (cell_at ?s' p)) m = Some d"
      using that treeD(1) [OF t, of p m d] old unfolding child parent nm by (auto simp: no_cell_def split: if_splits)
    show "cells ?s' p \<noteq> None \<and> p < d" if "c_parent (cell_at ?s' d) = Some p"
      using that treeD(2) [OF t, of d p] cell unfolding parent cells' by (auto split: if_splits)
    show "jget (c_children (cell_at ?s' p)) (c_name (cell_at ?s' d)) = Some d"
      if a: "c_parent (cell_at ?s' d) = Some p" "c_state (cell_at ?s' d) \<noteq> Terminated \<or> ChildTerminatedC d \<in> set (commands (cell_at ?s' p))"
    proof (cases "d = ?n")
      case True
      then show ?thesis using a(1) cell(2) unfolding parent child nm by auto
    next
      case False
      then have p: "c_parent (cell_at s d) = Some p" using a(1) unfolding parent by simp
      have pn: "p \<noteq> ?n" using treeD(2) [OF t p] none(1) by auto
      have "jget (c_children (cell_at s p)) (c_name (cell_at s d)) = Some d"
        using a(2) treeD(3,4) [OF t p] False pn unfolding state cmd by auto
      then show ?thesis using False pn live(3) unfolding child nm by auto
    qed
    show "c_state (cell_at ?s' d) = Terminated \<and> c_parent (cell_at ?s' d) = Some p" if "ChildTerminatedC d \<in> set (commands (cell_at ?s' p))"
      using that treeD(5) [OF t, of d p] old unfolding state cmd parent by (auto simp: no_cell_def split: if_splits)
    show "count_list (commands (cell_at ?s' p)) (ChildTerminatedC d) \<le> 1"
      using treeD(6) [OF t, of p d] unfolding cmd by simp
  qed
  moreover have "tidy (cell_at ?s' d)" for d
    using assms(1) live(1) unfolding at by (auto simp: life_def tidy_def new_cell_def)
  moreover have "create_ok (cell_at ?s' d)" for d
    using assms(1) unfolding create_ok_def cmd state by (auto simp: life_def create_ok_def)
  moreover have "phase_ok ph (cell_at ?s' d)" if ph: "jget (turns ?s') d = Some ph" for d ph
  proof -
    have or: "jget (turns s) d = Some ph \<or> ph = Armed"
      using ph unfolding s' by (auto simp: enqueueSystem_def jget_def map_add_Some_iff split: if_splits)
    have free: "jget (turns s) ?n = None"
      using assms(2) old by (force simp: scheduled_ok_def one_turn_each_def no_cell_def jget_map_of map_of_eq_None_iff)
    have "phase_ok ph (cell_at ?s' d)" if "jget (turns s) d = Some ph"
    proof -
      have d: "d \<noteq> ?n" using that free by auto
      have "phase_ok ph (cell_at s d)" using assms(1) that by (simp add: life_def)
      then show ?thesis using d live(2) cmd [of d] state [of d] unfolding at by (auto simp: phase_ok_def split: phase.splits if_splits)
    qed
    then show ?thesis using or by (auto simp: phase_ok_def)
  qed
  ultimately show ?thesis by (simp add: life_def)
qed

text \<open>Every call that neither spawns a cell nor runs one is such a step.\<close>

lemma perform_mild:
  assumes "\<And>c ch. a \<noteq> Run c ch" "\<And>c g n tp. a \<noteq> Spawn c g n tp"
  shows "mild 0 s (perform a s)"
proof -
  have local: "mild 0 s (upd c (become b d) s)" "mild 0 s (upd c unbecome s)" "mild 0 s (upd c (setReceiveTimeout ms) s)" "mild 0 s (upd c cancelReceiveTimeout s)" for c b d ms
    by (rule plain_upd_mild; auto simp: same_place_def commands_def held_def become_def unbecome_def setReceiveTimeout_def resetReceiveTimer_def cancelReceiveTimeout_def)+
  have stash: "mild 0 s (stash c s)" for c
    unfolding stash_def
    by (rule upd_mild) (auto simp: cell_stash_def same_place_def grows_def commands_def tidy_def held_def split: option.split)
  have unstash: "mild 0 s (unstashAll c s)" for c
  proof -
    have "mild 0 s (upd c (\<lambda>k. snd (cell_unstashAll plain_exec k)) s)" if "stashBuffer (cell_at s c) \<noteq> []"
      by (rule upd_mild) (use that in \<open>auto simp: cell_unstashAll_def plain_exec_def mb_prependUser_def same_place_def grows_def commands_def tidy_def held_def\<close>)
    then show ?thesis using mild_refl mild_trans [OF _ schedule_mild] by (auto simp: unstashAll_def)
  qed
  have prep: "mild 0 s (prependUserMessages c ms s)" for c ms
  proof -
    have live: "mild 0 s (schedule c (upd c (\<lambda>k. k\<lparr>mailbox_of := mb_prependUser (mailbox_of k) envs\<rparr>) (s\<lparr>next_ref := n\<rparr>)))"
      if "c_state (cell_at s c) \<noteq> Terminated" for envs n
      by (rule mild_trans [OF ghost_mild(5) mild_trans [OF upd_mild schedule_mild]])
        (use that in \<open>auto simp: same_place_def grows_def commands_def tidy_def mb_prependUser_def\<close>)
    show ?thesis
      using mild_refl live mild_trans [OF ghost_mild(5) dead_letters_mild] by (auto simp: prependUserMessages_def Let_def)
  qed
  have timer: "mild 0 s (upd c (\<lambda>k. k\<lparr>c_throttle := m k, c_throttleTimer := False\<rparr>) s)" "mild 0 s (upd c (\<lambda>k. k\<lparr>c_throttleTimer := False\<rparr>) s)" for c m
    by (rule plain_upd_mild; auto simp: same_place_def commands_def)+
  have running: "mild 0 s (schedule_running c s)" for c s
    using schedule_mild mild_refl by (simp add: schedule_running_def)
  show ?thesis
  proof (cases a)
    case (Throttle c mode)
    then show ?thesis using mild_trans [OF timer(1) running] by (simp add: perform_def throttle_def)
  next
    case (ThrottleTimer c)
    then show ?thesis using mild_trans [OF timer(2) running] mild_refl by (simp add: perform_def)
  qed (use assms in \<open>auto simp: perform_def lifecycle_def intro!: mild_refl local stash unstash prep tell_mild watch_mild enqueueSystem_mild\<close>)
qed

lemma perform_life:
  assumes "life s" "balanced s" "scheduled_ok s" "\<not> late_restart a s"
  shows "life (perform a s)"
proof -
  have run: "life (resume_step c ph ch s)" if "jget (turns s) c = Some ph" "a = Run c ch" for c ph ch
  proof -
    have "in_turn c s" using assms(3) that(1) by (force simp: in_turn_def jget_map_of dest: map_of_SomeD)
    then have "cells s c \<noteq> None" by (rule in_turn_cell)
    then show ?thesis using resume_step_life [OF assms(1,2) _ that(1)] assms(4) that(2) by simp
  qed
  show ?thesis
  proof (cases a)
    case (Run c ch)
    then show ?thesis using run assms(1) by (simp add: perform_def split: option.split)
  next
    case (Spawn c generated name throughput)
    then show ?thesis using spawn_life [OF assms(1,3)] by (simp add: perform_def)
  qed (auto intro: mild_life [OF perform_mild assms(1)])
qed

fun clean :: "system \<Rightarrow> call list \<Rightarrow> bool" where
  "clean s [] = True"
| "clean s (a # calls) = (\<not> late_restart a s \<and> clean (perform a s) calls)"

lemma history_Cons: "history s (a # calls) = history (perform a s) calls"
  by (simp add: history_def)

lemma history_append: "history s (xs @ ys) = history (history s xs) ys"
  by (simp add: history_def)

lemma clean_append: "clean s (xs @ ys) \<longleftrightarrow> clean s xs \<and> clean (history s xs) ys"
  by (induction xs arbitrary: s) (auto simp: history_def)

definition sound :: "system \<Rightarrow> bool" where
  "sound s \<longleftrightarrow> life s \<and> balanced s \<and> scheduled_ok s"

lemma perform_sound: "sound s \<Longrightarrow> \<not> late_restart a s \<Longrightarrow> sound (perform a s)"
  by (simp add: sound_def perform_life perform_balanced perform_ok)

lemma history_sound: "sound s \<Longrightarrow> clean s calls \<Longrightarrow> sound (history s calls)"
  by (induction calls arbitrary: s) (auto simp: history_Cons perform_sound, simp add: history_def)

lemma boot_sound: "sound (boot throughput order)"
proof -
  let ?k = "new_cell None [] throughput order"
  let ?s0 = "\<lparr>cells = [0 \<mapsto> ?k], next_cid = 1, turns = [], next_ref = 0, dead_letters = [], served = [], discarded = [], root_terminated = False\<rparr>"
  let ?q = "?k\<lparr>mailbox_of := \<lparr>userQueue = [], systemQueue = [sys_env CreateC], suspended_flag = False\<rparr>\<rparr>"
  have at0: "cell_at ?s0 d = (if d = 0 then ?k else no_cell)" for d by (simp add: cell_at_def)
  have q: "?k\<lparr>mailbox_of := mb_enqueueSystem (mailbox_of ?k) (sys_env CreateC)\<rparr> = ?q"
    by (simp add: mb_enqueueSystem_def new_cell_def no_cell_def)
  have ready: "ready ?q" by (simp add: ready_def hasDispatchableWork_def new_cell_def no_cell_def mb_hasMessages_def)
  have at: "cell_at (boot throughput order) d = (if d = 0 then ?q\<lparr>c_processing := True\<rparr> else no_cell)" for d
    unfolding boot_def enqueueSystem_def cell_at_schedule cell_at_upd at0 using q ready by simp
  have turns: "turns (boot throughput order) = [(0, Armed)]"
    unfolding boot_def enqueueSystem_def turns_schedule cell_at_upd at0 using q ready by simp
  have "tree (boot throughput order)"
    by (rule treeI; unfold at) (auto simp: new_cell_def no_cell_def jget_def commands_def sys_env_def split: if_splits)
  moreover have "tidy (cell_at (boot throughput order) d) \<and> create_ok (cell_at (boot throughput order) d)" for d
    unfolding at by (auto simp: tidy_def create_ok_def commands_def sys_env_def new_cell_def no_cell_def held_def)
  moreover have "jget (turns (boot throughput order)) d = Some ph \<longrightarrow> phase_ok ph (cell_at (boot throughput order) d)" for d ph
    unfolding turns by (auto simp: jget_def phase_ok_def split: if_splits)
  ultimately show ?thesis by (simp add: sound_def life_def boot_ok boot_balanced)
qed

text \<open>A stopped cell is not brought back by any other call.\<close>

definition final :: "system \<Rightarrow> system \<Rightarrow> bool" where
  "final s s' \<longleftrightarrow> (\<forall>c. cells s c \<noteq> None \<longrightarrow> cells s' c \<noteq> None \<and> (c_state (cell_at s c) = Terminated \<longrightarrow> c_state (cell_at s' c) = Terminated))"

lemma final_refl: "final s s"
  by (simp add: final_def)

lemma final_trans: "final s1 s2 \<Longrightarrow> final s2 s3 \<Longrightarrow> final s1 s3"
  by (simp add: final_def)

lemma near_final: "near c s s' \<Longrightarrow> final s s'"
  using nearD(1,2) [of c s s'] by (auto simp: final_def same_place_def)

lemma final_near: "final s s1 \<Longrightarrow> near c s1 s2 \<Longrightarrow> final s s2"
  using final_trans near_final by blast

lemma final_mild: "final s s1 \<Longrightarrow> mild c s1 s2 \<Longrightarrow> final s s2"
  using final_near by (auto simp: mild_def)

lemma final_upd: "final s s1 \<Longrightarrow> (c_state (cell_at s1 c) = Terminated \<Longrightarrow> c_state (f (cell_at s1 c)) = Terminated) \<Longrightarrow> final s (upd c f s1)"
  unfolding final_def cells_upd_None cell_at_upd by auto

lemma final_turn: "final s s1 \<Longrightarrow> final s (set_phase c ph s1)" "final s s1 \<Longrightarrow> final s (finish_turn c s1)" "final s s1 \<Longrightarrow> final s (continue_turn c next_step s1)"
proof -
  show ph: "final s (set_phase c ph s1)" if "final s s1" for ph s1
    using that by (simp add: final_def set_phase_def)
  show fin: "final s (finish_turn c s1)" if "final s s1" for s1
  proof -
    let ?u = "(upd c (\<lambda>k. k\<lparr>c_processing := False\<rparr>) s1)\<lparr>turns := filter (\<lambda>(d, q). d \<noteq> c) (turns s1)\<rparr>"
    have "final s ?u" using final_upd [OF that, of c "\<lambda>k. k\<lparr>c_processing := False\<rparr>"] by (simp add: final_def)
    then show ?thesis using final_mild [OF _ schedule_mild] by (auto simp: finish_turn_def Let_def)
  qed
  show "final s (continue_turn c next_step s1)" if "final s s1"
    using ph fin that by (auto simp: continue_turn_def split: cont.split)
qed

lemma final_finalize: "final s s1 \<Longrightarrow> final s (finalizeTermination c next_step s1)"
  unfolding finalizeTermination_def by (auto intro!: final_turn final_upd)

lemma final_enqueue: "final s s1 \<Longrightarrow> \<not> lifecycle command \<Longrightarrow> final s (enqueue_all cs command s1)"
  "final s s1 \<Longrightarrow> final s (enqueueSystem c command' s1)"
proof -
  show "final s s1 \<Longrightarrow> \<not> lifecycle command \<Longrightarrow> final s (enqueue_all cs command s1)" using final_mild enqueue_all_mild by blast
  show "final s s1 \<Longrightarrow> final s (enqueueSystem c command' s1)"
    unfolding enqueueSystem_def by (rule final_mild [OF final_upd schedule_mild]) auto
qed

lemma final_groups: "final s s1 \<Longrightarrow> final s (terminateNextGroup c next_step s1)"
  unfolding terminateNextGroup_def Let_def case_prod_beta
  by (auto split: option.split intro!: final_turn final_finalize final_enqueue final_upd)

lemma final_onTerminate: "final s s1 \<Longrightarrow> final s (onTerminate c next_step s1)"
  unfolding onTerminate_def Let_def
  by (auto intro!: final_turn final_finalize final_enqueue final_upd final_groups simp del: cell_at_upd)

lemma final_fail: "final s s1 \<Longrightarrow> final s (failToParent c cause m s1)"
  using final_near failToParent_near by blast

lemma final_completeRecreate: "final s s1 \<Longrightarrow> final s (completeRecreate c cause b err next_step s1)"
  unfolding completeRecreate_def by (auto intro!: final_turn final_upd final_fail)

lemma final_onChildTerminated: "final s s1 \<Longrightarrow> final s (onChildTerminated c child b err next_step s1)"
  unfolding onChildTerminated_def Let_def
  by (auto simp del: cell_at_upd split: option.split intro!: final_turn final_upd final_groups final_finalize final_completeRecreate)

lemma final_ghost: "final s s1 \<Longrightarrow> final s (dead_letter c env s1)" "final s s1 \<Longrightarrow> final s (serve c env s1)" "final s s1 \<Longrightarrow> final s (take_ref s1)"
  using final_mild ghost_mild by blast+

lemma final_handleUserMessage: "final s s1 \<Longrightarrow> final s (handleUserMessage c env next_step s1)"
  unfolding handleUserMessage_def dispatchToBehavior_def Let_def
  by (auto intro!: final_turn final_upd final_ghost final_fail final_onTerminate split: cmsg.split)

lemma final_handleSystemCommand:
  assumes "final s s1" "command = CreateC \<Longrightarrow> c_state (cell_at s1 c) \<noteq> Terminated"
  shows "final s (handleSystemCommand c ch next_step command s1)"
proof -
  have stash: "final s (deadLetterStash c s1)" by (rule final_mild [OF assms(1) deadLetterStash_mild])
  have failure: "final s (onFailure c d cause m v s1)" for d cause m v by (rule final_near [OF assms(1) onFailure_near])
  have notify: "final s (postSignalEnvelope c env (take_ref s1))" for env by (rule final_mild [OF final_ghost(3) [OF assms(1)] post_mild(2)])
  show ?thesis
    unfolding handleSystemCommand_def onCreate_def onRecreate_def onSuspend_def onResume_def onReceiveTimeout_def Let_def
    using assms stash failure notify
    by (auto intro!: final_turn final_upd final_enqueue final_fail final_ghost final_onTerminate final_onChildTerminated final_handleUserMessage
        split: system_command.split)
qed

lemma final_after_postStop: "final s s1 \<Longrightarrow> final s (after_postStop c s1)"
proof -
  assume f: "final s s1"
  have "final s (retire c s1)"
    unfolding retire_def by (rule final_mild [OF final_upd deadLetterQueued_mild]) (use final_mild [OF final_mild [OF f deadLetterStash_mild] deadLetterQueued_mild] in auto)
  then have "final s (drop_watches c (notify_watchers c (retire c s1)))"
    using final_mild notify_mild by blast
  then show ?thesis
    unfolding after_postStop_def Let_def using final_mild [OF _ ghost_mild(6)] by (auto split: option.split intro!: final_enqueue)
qed

lemma resume_step_final:
  assumes "life s" "cells s c \<noteq> None" "jget (turns s) c = Some ph"
  shows "final s (resume_step c ph ch s)"
proof -
  have refl: "final s s" by (rule final_refl)
  have ok: "phase_ok ph (cell_at s c)" using assms by (simp add: life_def)
  have create: "create_ok (cell_at s c)" using assms by (simp add: life_def)
  have run: "final s (run_step c n ch s)" for n
  proof (cases "systemQueue (mailbox_of (cell_at s c))")
    case Nil
    have excess: "final s (handleThrottleExcess c env s1)" if f: "final s s1" for env s1
      unfolding handleThrottleExcess_def using f final_mild [OF f ghost_mild(4)] by (auto intro!: final_upd)
    show ?thesis
      using Nil refl
      by (auto simp: run_step_def mb_dequeueSystem_def run_user_def Let_def intro!: excess final_turn final_handleUserMessage final_upd split: prod.split option.split)
  next
    case (Cons x rest)
    then have "message x = CreateC \<Longrightarrow> c_state (cell_at s c) = Creating" using create by (auto simp: create_ok_def commands_def)
    then show ?thesis
      using Cons refl assms(2) by (auto simp: run_step_def mb_dequeueSystem_def intro!: final_handleSystemCommand final_upd)
  qed
  have handler: "final s (after_handler c env okk err s)" for env okk err
  proof -
    have epilogue: "final s (dispatchEpilogue c s1)" if "final s s1" for s1
      unfolding dispatchEpilogue_def Let_def using that by (auto intro!: final_upd final_ghost split: option.split)
    show ?thesis
      unfolding after_handler_def using refl by (auto intro!: epilogue final_upd final_fail simp: resetReceiveTimer_def)
  qed
  show ?thesis
  proof (cases ph)
    case (In_postRestart cause next_step)
    let ?s1 = "enqueue_all (jvalues (c_children (cell_at s c))) ResumeC (upd c (\<lambda>k. k\<lparr>mailbox_of := mb_resume (mailbox_of k)\<rparr>) s)"
    have m: "mild c s ?s1"
      by (rule mild_trans [OF upd_mild enqueue_all_mild]) (auto simp: same_place_def grows_def tidy_def commands_def mb_resume_def held_def lifecycle_def)
    have "c_state (cell_at ?s1 c) \<noteq> Terminated" using mildD(1) [OF m, of c] ok In_postRestart by (simp add: phase_ok_def)
    then have "final s (after_postRestart c s)"
      unfolding after_postRestart_def Let_def by (intro final_upd final_mild [OF refl m]) simp
    then show ?thesis using In_postRestart refl by (auto simp: resume_step_def intro!: final_turn final_fail)
  next
  qed (use refl run handler in \<open>auto simp: resume_step_def after_preRestart_def intro!: final_turn final_fail final_after_postStop final_completeRecreate final_upd final_enqueue\<close>)
qed

lemma spawn_final:
  assumes "scheduled_ok s"
  shows "final s (snd (spawn c generated name throughput s))"
proof -
  have fresh: "cells s (next_cid s) = None" using assms by (auto simp: scheduled_ok_def one_turn_each_def)
  have "final s (s\<lparr>next_cid := n, cells := (cells s)(next_cid s \<mapsto> k)\<rparr>)" for n k
    using fresh by (auto simp: final_def cell_at_def)
  then show ?thesis
    unfolding spawn_def Let_def using final_refl by (auto intro!: final_upd final_enqueue)
qed

lemma perform_final:
  assumes "sound s"
  shows "final s (perform a s)"
proof (cases a)
  case (Run c ch)
  have "in_turn c s" if "jget (turns s) c = Some ph" for ph using assms that by (force simp: sound_def in_turn_def jget_map_of dest: map_of_SomeD)
  then show ?thesis
    using Run resume_step_final [of s c _ ch] in_turn_cell assms final_refl by (auto simp: perform_def sound_def split: option.split)
next
  case (Spawn c generated name throughput)
  then show ?thesis using spawn_final assms by (simp add: perform_def sound_def)
qed (auto intro: final_mild [OF final_refl perform_mild])

lemma history_final: "sound s \<Longrightarrow> clean s calls \<Longrightarrow> final s (history s calls)"
proof (induction calls arbitrary: s)
  case (Cons a calls)
  then have "final (perform a s) (history (perform a s) calls)" using perform_sound by simp
  then show ?case unfolding history_Cons using perform_final [OF Cons.prems(1)] final_trans by blast
qed (simp add: history_def final_refl)

text \<open>
  C4. In every history in which no restart command reaches a cell that is already stopping: a terminated cell stays
  terminated and keeps no message; a cell whose \<^verbatim>\<open>postStop\<close> runs or has run has no child left in its table and all
  cells it ever spawned have terminated; the table of a cell and the cells under it agree, every live cell being
  found in its parent's table under its name, so that live cells have distinct paths.
\<close>

theorem actor_lifecycle:
  assumes "clean (boot throughput order) (calls @ later)"
    "s = history (boot throughput order) calls" "s' = history (boot throughput order) (calls @ later)"
  shows "(\<forall>c. cells s c \<noteq> None \<longrightarrow> c_state (cell_at s c) = Terminated \<longrightarrow> c_state (cell_at s' c) = Terminated \<and> held (cell_at s' c) = []) \<and>
    (\<forall>p. c_state (cell_at s p) = Terminated \<or> (\<exists>next_step. jget (turns s) p = Some (In_postStop next_step)) \<longrightarrow>
       c_children (cell_at s p) = [] \<and> (\<forall>c. c_parent (cell_at s c) = Some p \<longrightarrow> c_state (cell_at s c) = Terminated)) \<and>
    (\<forall>p name c. jget (c_children (cell_at s p)) name = Some c \<longrightarrow> c_parent (cell_at s c) = Some p \<and> c_name (cell_at s c) = name) \<and>
    (\<forall>c p. c_parent (cell_at s c) = Some p \<longrightarrow> c_state (cell_at s c) \<noteq> Terminated \<longrightarrow>
       jget (c_children (cell_at s p)) (c_name (cell_at s c)) = Some c)"
proof -
  have c: "clean (boot throughput order) calls" "clean s later" using assms(1,2) by (auto simp: clean_append)
  have s: "sound s" using history_sound [OF boot_sound c(1)] assms(2) by simp
  have s': "s' = history s later" using assms(2,3) by (simp add: history_append)
  have f: "final s s'" unfolding s' by (rule history_final [OF s c(2)])
  have tidy': "tidy (cell_at s' d)" for d using history_sound [OF s c(2)] s' by (simp add: sound_def life_def)
  have t: "tree s" and tidy: "\<And>d. tidy (cell_at s d)" using s by (auto simp: sound_def life_def)
  have "c_children (cell_at s p) = []" if "c_state (cell_at s p) = Terminated \<or> (\<exists>next_step. jget (turns s) p = Some (In_postStop next_step))" for p
  proof -
    have "phase_ok (In_postStop next_step) (cell_at s p)" if "jget (turns s) p = Some (In_postStop next_step)" for next_step
      using that s by (simp add: sound_def life_def)
    then show ?thesis using that tidy [of p] by (auto simp: tidy_def phase_ok_def)
  qed
  moreover have "c_state (cell_at s c) = Terminated" if "c_children (cell_at s p) = []" "c_parent (cell_at s c) = Some p" for p c
    using treeD(3) [OF t that(2)] that(1) by (auto simp: jget_def)
  ultimately show ?thesis using f tidy' treeD(1,3) [OF t] unfolding final_def tidy_def by blast
qed

section \<open>Running a history\<close>

lemma cell_at_record:
  "cell_at \<lparr>cells = f, next_cid = n, turns = t, next_ref = r, dead_letters = d, served = sv, discarded = di, root_terminated = b\<rparr> c =
   (case f c of None \<Rightarrow> no_cell | Some k \<Rightarrow> k)"
  by (simp add: cell_at_def)

lemma history_Nil: "history s [] = s"
  by (simp add: history_def)

lemmas run_history =
  no_cell_def upd_def hasDispatchableWork_def schedule_def sys_env_def enqueueSystem_def enqueue_all_def new_env_def
  take_ref_def dead_letter_def enqueueUser_def postUserEnvelope_def postSignalEnvelope_def tell_def notifyWatcher_def
  prependUserMessages_def set_phase_def finish_turn_def continue_turn_def failToParent_def new_budget_def
  budget_registerRestart_def registerRestart_def onFailure_def deadLetterStash_def deadLetterQueuedMessages_def
  removeWatcher_def finalizeTermination_def retire_def notify_watchers_def drop_watches_def after_postStop_def
  terminateNextGroup_def onTerminate_def onCreate_def onRecreate_def completeRecreate_def after_preRestart_def
  after_postRestart_def onSuspend_def onResume_def onChildTerminated_def serve_def resetReceiveTimer_def dispatchEpilogue_def
  dispatchToBehavior_def handleUserMessage_def after_handler_def onReceiveTimeout_def handleThrottleExcess_def
  handleSystemCommand_def run_user_def run_step_def resume_step_def assertValidName_def assertUserAssignableName_def
  new_cell_def spawn_def perform_def boot_def  mb_enqueue_def mb_enqueueSystem_def mb_dequeueSystem_def mb_dequeueUser_def
  mb_suspend_def mb_resume_def mb_drainUser_def mb_hasMessages_def mb_hasSystemMessages_def mb_enqueueSignal_def jget_def
  jset_def jdelete_def jhas_def jvalues_def Let_def cell_at_record history_Cons history_Nil commands_def late_restart_def
  all_well_def

text \<open>A parent and a child that stop together.\<close>

definition stopping_pair :: "call list" where
  "stopping_pair =
     [Run 0 all_well, Run 0 all_well, Run 0 all_well, Spawn 0 False ''a'' 16, Run 1 all_well, Run 1 all_well, Run 1 all_well, Run 0 all_well,
      Run 1 all_well, Tell 1 (Message 7), StopSelf 0, Run 0 all_well, Run 0 all_well, Run 0 all_well, Run 1 all_well, Run 1 all_well, Run 1 all_well]"

definition parent_stops :: "call list" where
  "parent_stops = [Run 0 all_well, Run 0 all_well, Run 0 all_well, Run 0 all_well, Tell 1 (Message 8)]"

theorem actor_lifecycle_witness:
  "let s = history (boot 16 None) stopping_pair; s' = history (boot 16 None) (stopping_pair @ parent_stops) in
   cells s 1 \<noteq> None \<and> c_state (cell_at s 1) = Terminated \<and> c_state (cell_at s' 1) = Terminated \<and> held (cell_at s' 1) = [] \<and>
   c_state (cell_at s 0) = Terminating \<and> c_state (cell_at s' 0) = Terminated"
proof -
  let ?s = "history (boot 16 None) stopping_pair" and ?s' = "history (boot 16 None) (stopping_pair @ parent_stops)"
  have clean: "clean (boot 16 None) (stopping_pair @ parent_stops)" by (simp add: run_history stopping_pair_def parent_stops_def)
  have "cells ?s 1 \<noteq> None" "c_state (cell_at ?s 1) = Terminated" "c_state (cell_at ?s 0) = Terminating" "c_state (cell_at ?s' 0) = Terminated"
    by (simp_all add: run_history stopping_pair_def parent_stops_def)
  moreover from this have "c_state (cell_at ?s' 1) = Terminated \<and> held (cell_at ?s' 1) = []"
    using conjunct1 [OF actor_lifecycle [OF clean refl refl]] by (simp del: One_nat_def)
  ultimately show ?thesis unfolding Let_def by (intro conjI) simp_all
qed

end
