(* ===== verification/Actor_Watch.thy ===== *)
theory Actor_Watch
  imports Actor_Lifecycle
begin

text \<open>
  Death watch: an actor that watches another is told when it terminates. The notification travels as a message of
  the watcher's own queue, exempt from bounds and from throttling.
\<close>

section \<open>Pending notifications\<close>

definition pend :: "cell \<Rightarrow> cid set" where
  "pend k = {t. \<exists>env \<in> set (userQueue (mailbox_of k)). undroppable env \<and> message env = TerminatedMsg t True}"

definition alive :: "system \<Rightarrow> cid \<Rightarrow> bool" where
  "alive s c \<longleftrightarrow> c_state (cell_at s c) \<noteq> Terminated"

text \<open>The target lives and knows its watcher, or the watcher has the notification in its queue.\<close>

definition heard :: "system \<Rightarrow> cid \<Rightarrow> cid \<Rightarrow> bool" where
  "heard s w t \<longleftrightarrow> alive s t \<and> w \<in> set (c_watchers (cell_at s t)) \<or> t \<in> pend (cell_at s w)"

definition watch_ok :: "system \<Rightarrow> bool" where
  "watch_ok s \<longleftrightarrow> (\<forall>w t. alive s w \<longrightarrow> t \<in> set (c_watching (cell_at s w)) \<longrightarrow> heard s w t)"

section \<open>Steps that lose no watch\<close>

definition gentle_cell :: "cell \<Rightarrow> cell \<Rightarrow> bool" where
  "gentle_cell k k' \<longleftrightarrow>
     (c_state k' = Terminated \<longleftrightarrow> c_state k = Terminated) \<and> set (c_watching k') \<subseteq> set (c_watching k) \<and>
     set (c_watchers k) \<subseteq> set (c_watchers k') \<and> pend k \<subseteq> pend k'"

definition gentle :: "system \<Rightarrow> system \<Rightarrow> bool" where
  "gentle s s' \<longleftrightarrow> (\<forall>d. gentle_cell (cell_at s d) (cell_at s' d))"

lemma gentle_watch_ok: "gentle s s' \<Longrightarrow> watch_ok s \<Longrightarrow> watch_ok s'"
  unfolding gentle_def gentle_cell_def watch_ok_def heard_def alive_def by blast

lemma gentle_refl: "gentle s s"
  by (simp add: gentle_def gentle_cell_def)

lemma gentle_trans: "gentle s1 s2 \<Longrightarrow> gentle s2 s3 \<Longrightarrow> gentle s1 s3"
  unfolding gentle_def gentle_cell_def by blast

lemma gentle_cells: "gentle s s1 \<Longrightarrow> cell_at s2 = cell_at s1 \<Longrightarrow> gentle s s2"
  by (simp add: gentle_def)

lemma gentle_upd:
  assumes "gentle s s1" "gentle_cell (cell_at s1 c) (f (cell_at s1 c))"
  shows "gentle s (upd c f s1)"
proof -
  have "gentle s1 (upd c f s1)" using assms(2) by (simp add: gentle_def, simp add: gentle_cell_def)
  with assms(1) show ?thesis by (rule gentle_trans)
qed

lemma gentle_plain:
  assumes "gentle s s1" "\<And>k. c_state (f k) = Terminated \<longleftrightarrow> c_state k = Terminated" "\<And>k. c_watching (f k) = c_watching k"
    "\<And>k. c_watchers (f k) = c_watchers k" "\<And>k. set (userQueue (mailbox_of k)) \<subseteq> set (userQueue (mailbox_of (f k)))"
  shows "gentle s (upd c f s1)"
  by (rule gentle_upd [OF assms(1)]) (use assms(2-4) assms(5) [of "cell_at s1 c"] in \<open>auto simp: gentle_cell_def pend_def\<close>)

lemma gentle_schedule: "gentle s s1 \<Longrightarrow> gentle s (schedule c s1)"
  by (erule gentle_trans) (auto simp: gentle_def gentle_cell_def pend_def)

lemma gentle_enqueueSystem: "gentle s s1 \<Longrightarrow> gentle s (enqueueSystem c command s1)"
  unfolding enqueueSystem_def by (intro gentle_schedule gentle_plain) (auto simp: mb_enqueueSystem_def)

lemma gentle_enqueue_all: "gentle s s1 \<Longrightarrow> gentle s (enqueue_all cs command s1)"
  unfolding enqueue_all_def by (induction cs arbitrary: s1) (auto intro: gentle_enqueueSystem)

lemma gentle_ghost:
  "gentle s s1 \<Longrightarrow> gentle s (dead_letter c env s1)" "gentle s s1 \<Longrightarrow> gentle s (serve c env s1)" "gentle s s1 \<Longrightarrow> gentle s (take_ref s1)"
  "gentle s s1 \<Longrightarrow> gentle s (s1\<lparr>discarded := l\<rparr>)" "gentle s s1 \<Longrightarrow> gentle s (s1\<lparr>next_ref := n\<rparr>)" "gentle s s1 \<Longrightarrow> gentle s (s1\<lparr>root_terminated := b\<rparr>)"
  "gentle s s1 \<Longrightarrow> gentle s (s1\<lparr>turns := ts\<rparr>)" "gentle s s1 \<Longrightarrow> gentle s (set_phase c ph s1)"
  by (erule gentle_cells, simp add: dead_letter_def serve_def take_ref_def set_phase_def cell_at_def fun_eq_iff)+

lemma gentle_dead_letters: "gentle s s1 \<Longrightarrow> gentle s (foldl (\<lambda>s env. dead_letter c env s) s1 envs)"
  by (erule gentle_cells) (simp add: dead_letters_simps)

lemma gentle_turn: "gentle s s1 \<Longrightarrow> gentle s (finish_turn c s1)" "gentle s s1 \<Longrightarrow> gentle s (continue_turn c next_step s1)"
proof -
  show fin: "gentle s (finish_turn c s1)" if "gentle s s1" for s1
    unfolding finish_turn_def Let_def using that by (auto intro!: gentle_schedule gentle_ghost(7) gentle_plain)
  show "gentle s (continue_turn c next_step s1)" if "gentle s s1"
    unfolding continue_turn_def using that by (auto intro!: fin gentle_ghost(8) split: cont.split)
qed

lemma gentle_post: "gentle s s1 \<Longrightarrow> gentle s (postUserEnvelope c env s1)" "gentle s s1 \<Longrightarrow> gentle s (postSignalEnvelope c env s1)"
proof -
  have "gentle s (enqueueUser c exempt e s1)" if "gentle s s1" for exempt e
    unfolding enqueueUser_def using that by (intro gentle_schedule gentle_plain) (auto simp: mb_enqueue_def mb_enqueueSignal_def)
  then show "gentle s s1 \<Longrightarrow> gentle s (postUserEnvelope c env s1)" "gentle s s1 \<Longrightarrow> gentle s (postSignalEnvelope c env s1)"
    by (auto simp: postUserEnvelope_def postSignalEnvelope_def intro: gentle_ghost(1))
qed

lemma gentle_tell: "gentle s s1 \<Longrightarrow> gentle s (tell c m s1)" "gentle s s1 \<Longrightarrow> gentle s (notifyWatcher c m s1)"
  unfolding tell_def notifyWatcher_def by (auto intro!: gentle_post gentle_ghost)

lemma gentle_fail: "gentle s s1 \<Longrightarrow> gentle s (failToParent c cause m s1)"
  unfolding failToParent_def Let_def
  by (auto intro!: gentle_enqueueSystem gentle_enqueue_all gentle_plain simp: mb_suspend_def split: option.split if_splits)

lemma gentle_onFailure: "gentle s s1 \<Longrightarrow> gentle s (onFailure c failed cause m v s1)"
  unfolding onFailure_def registerRestart_def Let_def case_prod_beta
  by (auto intro!: gentle_enqueue_all gentle_fail gentle_plain split: option.split verdict.split directive.split)

lemma gentle_stash: "gentle s s1 \<Longrightarrow> gentle s (deadLetterStash c s1)"
  unfolding deadLetterStash_def by (auto intro!: gentle_dead_letters gentle_plain)

lemma gentle_finalize: "gentle s s1 \<Longrightarrow> gentle s (finalizeTermination c next_step s1)"
  unfolding finalizeTermination_def by (auto intro!: gentle_ghost(8) gentle_plain)

lemma gentle_groups: "gentle s s1 \<Longrightarrow> gentle s (terminateNextGroup c next_step s1)"
  unfolding terminateNextGroup_def Let_def case_prod_beta
  by (auto intro!: gentle_turn gentle_finalize gentle_enqueueSystem gentle_enqueue_all gentle_plain split: option.split)

lemma gentle_onTerminate: "gentle s s1 \<Longrightarrow> gentle s (onTerminate c next_step s1)"
proof (cases "c_state (cell_at s1 c) = Terminated \<or> c_state (cell_at s1 c) = Terminating")
  case True
  then show "gentle s s1 \<Longrightarrow> gentle s (onTerminate c next_step s1)" by (simp add: onTerminate_def gentle_turn)
next
  case False
  let ?s2 = "upd c (\<lambda>k. k\<lparr>c_state := Terminating, c_receiveTimer := False\<rparr>) s1"
  assume "gentle s s1"
  then have g: "gentle s ?s2" by (rule gentle_upd) (use False in \<open>simp add: gentle_cell_def pend_def\<close>)
  show "gentle s (onTerminate c next_step s1)"
    using False g by (auto simp: onTerminate_def Let_def simp del: cell_at_upd intro!: gentle_groups gentle_finalize gentle_turn gentle_enqueue_all)
qed

lemma gentle_completeRecreate: "gentle s s1 \<Longrightarrow> gentle s (completeRecreate c cause b err next_step s1)"
  unfolding completeRecreate_def by (auto intro!: gentle_ghost(8) gentle_turn gentle_fail gentle_plain)

lemma gentle_onChildTerminated: "gentle s s1 \<Longrightarrow> gentle s (onChildTerminated c child b err next_step s1)"
  unfolding onChildTerminated_def Let_def
  by (auto simp del: cell_at_upd split: option.split intro!: gentle_turn gentle_plain gentle_groups gentle_finalize gentle_completeRecreate)

lemma gentle_handleUserMessage:
  assumes "gentle s s1" "\<And>t. message env \<noteq> TerminatedMsg t True"
  shows "gentle s (handleUserMessage c env next_step s1)"
  using assms unfolding handleUserMessage_def dispatchToBehavior_def Let_def
  by (auto intro!: gentle_ghost gentle_turn gentle_plain gentle_fail gentle_onTerminate split: cmsg.split)

lemma gentle_handleSystemCommand:
  assumes "gentle s s1" "command = CreateC \<Longrightarrow> c_state (cell_at s1 c) \<noteq> Terminated"
  shows "gentle s (handleSystemCommand c ch next_step command s1)"
proof -
  have create: "gentle s (upd c (\<lambda>k. k\<lparr>c_actor := True, c_behaviorStack := [0], c_state := Running\<rparr>) s1)" if "command = CreateC"
    by (rule gentle_upd [OF assms(1)]) (use assms(2) that in \<open>simp add: gentle_cell_def pend_def\<close>)
  have "gentle s (handleSystemCommand c ch next_step CreateC s1)" if "command = CreateC"
    using create [OF that] assms(1) by (auto simp: handleSystemCommand_def onCreate_def intro!: gentle_ghost(8) gentle_turn gentle_fail)
  then show ?thesis
    unfolding handleSystemCommand_def onRecreate_def onSuspend_def onResume_def onReceiveTimeout_def Let_def
    using assms(1)
    by (auto intro!: gentle_ghost gentle_turn gentle_plain gentle_enqueue_all gentle_fail gentle_onTerminate gentle_onChildTerminated
        gentle_handleUserMessage gentle_onFailure gentle_stash gentle_post simp: mb_suspend_def mb_resume_def new_env_def split: system_command.split if_splits)
qed

section \<open>A cell takes a message\<close>

text \<open>A notification that is taken from the queue is handed to the handler, and its subject is watched no more.\<close>

lemma notified_watch_ok:
  assumes "watch_ok s" "cells s c \<noteq> None" "mb_dequeueUser (mailbox_of (cell_at s c)) = (Some env, mb)" "message env = TerminatedMsg t True"
  shows "watch_ok (dispatchToBehavior c env next_step (upd c (\<lambda>k. k\<lparr>mailbox_of := mb\<rparr>) s))"
proof -
  let ?s1 = "upd c (\<lambda>k. k\<lparr>mailbox_of := mb\<rparr>) s"
  have mb: "set (userQueue (mailbox_of (cell_at s c))) = insert env (set (userQueue mb))"
    using assms(3) by (auto simp: mb_dequeueUser_def split: if_splits list.splits)
  then have left: "pend (cell_at s c) \<subseteq> insert t (pend (cell_at ?s1 c))" using assms(2,4) by (auto simp: pend_def)
  have other: "heard ?s1 w u" if "heard s w u" "w \<noteq> c \<or> u \<noteq> t" for w u
    using that left assms(2) by (auto simp: heard_def alive_def)
  show ?thesis
  proof (cases "t \<in> set (c_watching (cell_at ?s1 c))")
    case False
    then have "watch_ok ?s1" using assms(1) other by (auto simp: watch_ok_def alive_def split: if_splits)
    moreover have "gentle ?s1 (continue_turn c next_step (upd c (\<lambda>k. k\<lparr>currentEnvelope := None\<rparr>) (dead_letter c env ?s1)))"
      by (rule gentle_turn(2) [OF gentle_plain [OF gentle_ghost(1) [OF gentle_refl]]]) auto
    then have "gentle ?s1 (dispatchToBehavior c env next_step ?s1)"
      using False assms(4) unfolding dispatchToBehavior_def Let_def by simp
    ultimately show ?thesis using gentle_watch_ok by blast
  next
    case True
    let ?s2 = "\<lambda>e. upd c (\<lambda>k. k\<lparr>currentEnvelope := e, c_watching := sdel (c_watching k) t, c_watchWith := jdelete (c_watchWith k) t\<rparr>) ?s1"
    have "heard (?s2 e) w u \<longleftrightarrow> heard ?s1 w u" for e w u by (auto simp: heard_def alive_def pend_def)
    then have "watch_ok (?s2 e)" for e
      using assms(1,2) other by (auto simp: watch_ok_def alive_def split: if_splits)
    then have "watch_ok (set_phase c ph (?s2 e))" for e ph using gentle_watch_ok [OF gentle_ghost(8) [OF gentle_refl]] by blast
    then show ?thesis using True assms(4) unfolding dispatchToBehavior_def Let_def by simp
  qed
qed

lemma run_user_watch_ok:
  assumes "watch_ok s" "cells s c \<noteq> None"
  shows "watch_ok (run_user c n tok s)"
proof (cases "mb_dequeueUser (mailbox_of (cell_at s c))")
  case (Pair e mb)
  have fin: "watch_ok (finish_turn c s)" by (rule gentle_watch_ok [OF gentle_turn(1) [OF gentle_refl] assms(1)])
  show ?thesis
  proof (cases e)
    case None
    then show ?thesis using Pair fin by (simp add: run_user_def)
  next
    case (Some env)
    let ?s1 = "upd c (\<lambda>k. k\<lparr>mailbox_of := mb\<rparr>) s"
    have mb: "set (userQueue (mailbox_of (cell_at s c))) = insert env (set (userQueue mb))"
      using Pair Some by (auto simp: mb_dequeueUser_def split: if_splits list.splits)
    have g: "gentle s ?s1" if "\<not> undroppable env \<or> (\<forall>t. message env \<noteq> TerminatedMsg t True)"
      by (rule gentle_upd [OF gentle_refl]) (use that mb in \<open>auto simp: gentle_cell_def pend_def\<close>)
    have excess: "gentle s (handleThrottleExcess c env s1)" if "gentle s s1" for s1
      unfolding handleThrottleExcess_def using that by (auto intro!: gentle_ghost gentle_plain simp: mb_prependUser_def)
    have throttled: "watch_ok (finish_turn c (handleThrottleExcess c env ?s1))" if "\<not> undroppable env"
      by (rule gentle_watch_ok [OF gentle_turn(1) [OF excess [OF g]] assms(1)]) (use that in simp)
    have handled: "watch_ok (handleUserMessage c env (After_User n) ?s1)"
    proof (cases "\<exists>t. message env = TerminatedMsg t True")
      case True
      then obtain t where t: "message env = TerminatedMsg t True" by blast
      show ?thesis using notified_watch_ok [OF assms Pair [unfolded Some] t] t by (simp add: handleUserMessage_def)
    next
      case False
      then show ?thesis using gentle_watch_ok [OF gentle_handleUserMessage [OF g] assms(1)] by auto
    qed
    show ?thesis using Pair Some fin throttled handled by (simp add: run_user_def Let_def)
  qed
qed

section \<open>A cell terminates\<close>

lemma notify_gentle: "gentle s s1 \<Longrightarrow> gentle s (foldl (\<lambda>s w. notifyWatcher w m s) s1 ws)"
  by (induction ws arbitrary: s1) (auto intro: gentle_tell)

lemma told:
  assumes "\<And>w. alive s w \<longleftrightarrow> alive s1 w" "w \<in> set ws" "alive s w"
  shows "t \<in> pend (cell_at (foldl (\<lambda>s w. notifyWatcher w (TerminatedMsg t True) s) s1 ws) w)"
  using assms
proof (induction ws arbitrary: s1)
  case (Cons v ws)
  let ?s2 = "notifyWatcher v (TerminatedMsg t True) s1"
  have g: "gentle s1 ?s2" by (rule gentle_tell(2) [OF gentle_refl])
  have same: "alive s x \<longleftrightarrow> alive ?s2 x" for x using Cons.prems(1) g by (simp add: alive_def gentle_def gentle_cell_def)
  show ?case
  proof (cases "w \<in> set ws")
    case True
    then show ?thesis using Cons.IH [of ?s2] same Cons.prems(3) by simp
  next
    case False
    then have "w = v" using Cons.prems(2) by simp
    moreover have "alive s1 w" "cells s1 w \<noteq> None" using Cons.prems(1,3) alive_cell [of s1 w] by (auto simp: alive_def)
    ultimately have now: "t \<in> pend (cell_at ?s2 w)"
      by (auto simp: notifyWatcher_def postSignalEnvelope_def alive_def take_ref_def new_env_def enqueueUser_def pend_def mb_enqueue_def mb_enqueueSignal_def
          cell_at_cells [of "s1\<lparr>next_ref := n\<rparr>" s1 for n])
    have "gentle ?s2 (foldl (\<lambda>s w. notifyWatcher w (TerminatedMsg t True) s) ?s2 ws)" by (rule notify_gentle [OF gentle_refl])
    then have "pend (cell_at ?s2 w) \<subseteq> pend (cell_at (foldl (\<lambda>s w. notifyWatcher w (TerminatedMsg t True) s) ?s2 ws) w)"
      by (simp add: gentle_def gentle_cell_def)
    then show ?thesis using now by auto
  qed
qed simp

lemma drop_watchers:
  "c_state (cell_at (drop_watches c s) d) = c_state (cell_at s d)" "pend (cell_at (drop_watches c s) d) = pend (cell_at s d)"
  "set (c_watchers (cell_at s d)) \<subseteq> insert c (set (c_watchers (cell_at (drop_watches c s) d)))"
  "set (c_watching (cell_at (drop_watches c s) d)) \<subseteq> set (c_watching (cell_at s d))"
proof -
  have fold: "c_state (cell_at (foldl (\<lambda>s t. removeWatcher t c s) s ts) d) = c_state (cell_at s d) \<and>
      pend (cell_at (foldl (\<lambda>s t. removeWatcher t c s) s ts) d) = pend (cell_at s d) \<and>
      set (c_watchers (cell_at s d)) \<subseteq> insert c (set (c_watchers (cell_at (foldl (\<lambda>s t. removeWatcher t c s) s ts) d))) \<and>
      c_watching (cell_at (foldl (\<lambda>s t. removeWatcher t c s) s ts) d) = c_watching (cell_at s d)" for ts s
  proof (induction ts arbitrary: s)
    case (Cons t ts)
    show ?case using Cons [of "removeWatcher t c s"] by (auto simp: removeWatcher_def pend_def)
  qed auto
  show "c_state (cell_at (drop_watches c s) d) = c_state (cell_at s d)" "pend (cell_at (drop_watches c s) d) = pend (cell_at s d)"
    "set (c_watchers (cell_at s d)) \<subseteq> insert c (set (c_watchers (cell_at (drop_watches c s) d)))"
    "set (c_watching (cell_at (drop_watches c s) d)) \<subseteq> set (c_watching (cell_at s d))"
    using fold [of s "c_watching (cell_at s c)"] by (auto simp: drop_watches_def pend_def)
qed

lemma after_postStop_watch_ok:
  assumes "watch_ok s" "cells s c \<noteq> None" "currentEnvelope (cell_at s c) = None"
  shows "watch_ok (after_postStop c s)"
proof -
  let ?r = "retire c s"
  let ?ws = "c_watchers (cell_at ?r c)"
  let ?n = "foldl (\<lambda>s w. notifyWatcher w (TerminatedMsg c True) s) ?r ?ws"
  let ?d = "drop_watches c (notify_watchers c ?r)"
  note r = retire_cell [OF assms(2,3)]
  have rw: "c_watchers (cell_at ?r c) = c_watchers (cell_at s c)"
    by (simp add: retire_def deadLetterQueuedMessages_def deadLetterStash_def mb_drainUser_def dead_letters_simps)
  have g: "gentle ?r ?n" by (rule notify_gentle [OF gentle_refl])
  have dead: "\<not> alive ?d c" using g r(1) by (auto simp: alive_def drop_watchers notify_watchers_def gentle_def gentle_cell_def)
  have at: "c_state (cell_at ?d w) = Terminated \<longleftrightarrow> c_state (cell_at s w) = Terminated" "pend (cell_at s w) \<subseteq> pend (cell_at ?d w)"
    "set (c_watchers (cell_at s w)) \<subseteq> insert c (set (c_watchers (cell_at ?d w)))" "set (c_watching (cell_at ?d w)) \<subseteq> set (c_watching (cell_at s w))"
    if "w \<noteq> c" for w
  proof -
    have "cell_at (notify_watchers c ?r) w = cell_at ?n w" using that by (simp add: notify_watchers_def)
    moreover have "gentle_cell (cell_at s w) (cell_at ?n w)" using g r(7) [OF that] unfolding gentle_def by metis
    ultimately show "c_state (cell_at ?d w) = Terminated \<longleftrightarrow> c_state (cell_at s w) = Terminated" "pend (cell_at s w) \<subseteq> pend (cell_at ?d w)"
      "set (c_watchers (cell_at s w)) \<subseteq> insert c (set (c_watchers (cell_at ?d w)))" "set (c_watching (cell_at ?d w)) \<subseteq> set (c_watching (cell_at s w))"
      using drop_watchers [where c = c and s = "notify_watchers c ?r" and d = w] by (auto simp: gentle_cell_def)
  qed
  have new: "c \<in> pend (cell_at ?d w)" if "w \<in> set (c_watchers (cell_at s c))" "w \<noteq> c" "alive ?d w" for w
  proof -
    have "alive ?r w" using that at(1) [of w] r(7) [of w] by (simp add: alive_def)
    then show ?thesis using told [of ?r ?r w ?ws c] that rw by (simp add: drop_watchers notify_watchers_def)
  qed
  have "watch_ok ?d"
    unfolding watch_ok_def
  proof (intro allI impI)
    fix w t assume w: "alive ?d w" and t: "t \<in> set (c_watching (cell_at ?d w))"
    have wc: "w \<noteq> c" using w dead by auto
    then have "heard s w t" using assms(1) at [of w] w t by (auto simp: watch_ok_def alive_def)
    then show "heard ?d w t"
      using at(2) [OF wc] new [OF _ wc w] at(1,3) [of t] wc by (cases "t = c") (auto simp: heard_def alive_def)
  qed
  moreover have "gentle ?d (after_postStop c s)"
    unfolding after_postStop_def Let_def by (auto intro!: gentle_enqueueSystem gentle_ghost(6) gentle_refl split: option.split)
  ultimately show ?thesis using gentle_watch_ok by blast
qed

section \<open>Every call\<close>

lemma resume_step_watch_ok:
  assumes "sound s" "watch_ok s" "cells s c \<noteq> None" "jget (turns s) c = Some ph"
  shows "watch_ok (resume_step c ph ch s)"
proof -
  have life: "life s" and bal: "balanced s" using assms(1) by (auto simp: sound_def)
  have ok: "phase_ok ph (cell_at s c)" "create_ok (cell_at s c)" using life assms(4) by (auto simp: life_def)
  have g: "gentle s s' \<Longrightarrow> watch_ok s'" for s' using gentle_watch_ok assms(2) by blast
  have refl: "gentle s s" by (rule gentle_refl)
  show ?thesis
  proof (cases ph)
    case (Turn n)
    show ?thesis
    proof (cases "systemQueue (mailbox_of (cell_at s c))")
      case Nil
      then show ?thesis using Turn run_user_watch_ok [OF assms(2,3)] by (simp add: resume_step_def run_step_def mb_dequeueSystem_def)
    next
      case (Cons x rest)
      have "message x = CreateC \<Longrightarrow> c_state (cell_at s c) = Creating" using ok(2) Cons by (auto simp: create_ok_def commands_def)
      moreover have "gentle s (upd c (\<lambda>k. k\<lparr>mailbox_of := (mailbox_of (cell_at s c))\<lparr>systemQueue := rest\<rparr>\<rparr>) s)"
        by (rule gentle_upd [OF refl]) (simp add: gentle_cell_def pend_def)
      ultimately have "gentle s (run_step c n ch s)"
        using Cons by (auto simp: run_step_def mb_dequeueSystem_def split: if_splits intro!: gentle_handleSystemCommand)
      then show ?thesis using Turn g by (simp add: resume_step_def)
    qed
  next
    case (In_postStop next_step)
    have "currentEnvelope (cell_at s c) = None" using bal assms(4) In_postStop by (auto simp: balanced_def)
    then have "watch_ok (after_postStop c s)" by (rule after_postStop_watch_ok [OF assms(2,3)])
    then show ?thesis using In_postStop gentle_watch_ok [OF gentle_turn(2) [OF gentle_refl]] by (simp add: resume_step_def)
  next
    case (In_postRestart cause next_step)
    let ?s1 = "enqueue_all (jvalues (c_children (cell_at s c))) ResumeC (upd c (\<lambda>k. k\<lparr>mailbox_of := mb_resume (mailbox_of k)\<rparr>) s)"
    have s1: "gentle s ?s1" by (intro gentle_enqueue_all gentle_plain refl) (auto simp: mb_resume_def)
    then have "c_state (cell_at ?s1 c) \<noteq> Terminated" using ok(1) In_postRestart by (simp add: gentle_def gentle_cell_def phase_ok_def)
    then have "gentle s (after_postRestart c s)"
      unfolding after_postRestart_def Let_def by (intro gentle_upd s1) (simp add: gentle_cell_def pend_def)
    then show ?thesis using In_postRestart refl by (auto simp: resume_step_def intro!: g gentle_turn gentle_fail)
  next
    case (In_handler env next_step)
    have epilogue: "gentle s (dispatchEpilogue c s1)" if "gentle s s1" for s1
      unfolding dispatchEpilogue_def Let_def using that by (auto intro!: gentle_plain gentle_ghost split: option.split)
    have "gentle s (after_handler c env (hook_ok ch) (error_cause ch) s)"
      unfolding after_handler_def using refl by (auto intro!: epilogue gentle_fail gentle_plain simp: resetReceiveTimer_def)
    then show ?thesis using In_handler by (auto simp: resume_step_def intro!: g gentle_turn)
  qed (use refl in \<open>auto simp: resume_step_def after_preRestart_def intro!: g gentle_turn gentle_ghost(8) gentle_fail gentle_completeRecreate gentle_plain gentle_enqueue_all\<close>)
qed

lemma gentle_addWatcher: "gentle s s1 \<Longrightarrow> gentle s (addWatcher t c s1)"
  unfolding addWatcher_def by (auto intro!: gentle_tell intro: gentle_upd simp: gentle_cell_def pend_def)

lemma registerWatch_watch_ok:
  assumes "watch_ok s"
  shows "watch_ok (registerWatch c t s)"
proof (cases "t \<in> set (c_watching (cell_at s c)) \<or> cells s c = None")
  case True
  have "gentle s (addWatcher t c s)" by (rule gentle_addWatcher [OF gentle_refl])
  moreover have "upd c f s = s" if "cells s c = None" for f using that by (simp add: upd_def fun_upd_idem)
  ultimately show ?thesis using True assms gentle_watch_ok by (auto simp: registerWatch_def)
next
  case False
  let ?s1 = "upd c (\<lambda>k. k\<lparr>c_watching := sadd (c_watching k) t\<rparr>) s"
  have g: "gentle ?s1 (addWatcher t c ?s1)" by (rule gentle_addWatcher [OF gentle_refl])
  have h1: "heard ?s1 w u \<longleftrightarrow> heard s w u" "alive ?s1 w \<longleftrightarrow> alive s w" for w u by (auto simp: heard_def alive_def pend_def)
  have keep: "heard (addWatcher t c ?s1) w u" if "heard s w u" for w u
    using g that h1(1) [of w u] unfolding gentle_def gentle_cell_def heard_def alive_def by blast
  have new: "heard (addWatcher t c ?s1) c t" if "alive ?s1 c"
  proof (cases "alive ?s1 t")
    case True
    then have "cells ?s1 t \<noteq> None" unfolding alive_def by (rule alive_cell)
    then show ?thesis using True unfolding addWatcher_def heard_def alive_def by (simp del: cells_upd_None)
  next
    case False
    then show ?thesis
      using told [of ?s1 ?s1 c "[c]" t] that unfolding addWatcher_def heard_def alive_def by simp
  qed
  have "watch_ok (addWatcher t c ?s1)"
    unfolding watch_ok_def
  proof (intro allI impI)
    fix w u assume w: "alive (addWatcher t c ?s1) w" and u: "u \<in> set (c_watching (cell_at (addWatcher t c ?s1) w))"
    have "alive ?s1 w" "u \<in> set (c_watching (cell_at ?s1 w))" using g w u unfolding gentle_def gentle_cell_def alive_def by blast+
    then show "heard (addWatcher t c ?s1) w u"
      using new keep assms h1(2) [of w] unfolding watch_ok_def by (cases "w = c \<and> u = t") (auto split: if_splits)
  qed
  then show ?thesis using False by (simp add: registerWatch_def)
qed

lemma unwatch_watch_ok:
  assumes "watch_ok s"
  shows "watch_ok (unwatch c t s)"
proof -
  let ?s1 = "upd c (\<lambda>k. k\<lparr>c_watchWith := jdelete (c_watchWith k) t\<rparr>) s"
  let ?s2 = "removeWatcher t c (upd c (\<lambda>k. k\<lparr>c_watching := sdel (c_watching k) t\<rparr>) ?s1)"
  have "watch_ok ?s1" by (rule gentle_watch_ok [OF gentle_plain [OF gentle_refl] assms]) auto
  moreover have "watch_ok ?s2" if "t \<in> set (c_watching (cell_at s c))"
  proof -
    have cell: "cells s c \<noteq> None"
    proof
      assume "cells s c = None"
      from cell_at_None [OF this] show False using that by (simp add: no_cell_def)
    qed
    have "alive ?s2 w \<longleftrightarrow> alive s w" "heard s w u \<Longrightarrow> w \<noteq> c \<or> u \<noteq> t \<Longrightarrow> heard ?s2 w u" for w u
      by (auto simp: removeWatcher_def alive_def heard_def pend_def)
    then show ?thesis using assms cell unfolding watch_ok_def by (auto simp: removeWatcher_def split: if_splits)
  qed
  ultimately show ?thesis by (simp add: unwatch_def Let_def)
qed

lemma spawn_watch_ok:
  assumes "watch_ok s" "scheduled_ok s"
  shows "watch_ok (snd (spawn c generated name throughput s))"
proof -
  let ?s1 = "s\<lparr>next_cid := next_cid s + 1, cells := (cells s)(next_cid s \<mapsto> new_cell (Some c) name throughput None)\<rparr>"
  have fresh: "cells s (next_cid s) = None" using assms(2) by (auto simp: scheduled_ok_def one_turn_each_def)
  have at: "cell_at ?s1 d = (if d = next_cid s then new_cell (Some c) name throughput None else cell_at s d)" for d by (simp add: cell_at_def)
  have empty: "c_watching (new_cell (Some c) name throughput None) = []" "c_watchers (cell_at s (next_cid s)) = []"
    "pend (cell_at s (next_cid s)) = {}"
    unfolding cell_at_None [OF fresh] by (simp_all add: new_cell_def no_cell_def pend_def)
  have "heard ?s1 w t" if "heard s w t" for w t
    using that empty(2,3) unfolding heard_def alive_def at by (auto split: if_splits)
  then have "watch_ok ?s1" using assms(1) empty(1) unfolding watch_ok_def alive_def at by (auto split: if_splits)
  moreover have "gentle ?s1 (upd c f (enqueueSystem (next_cid s) CreateC ?s1))" if "f = (\<lambda>k. k\<lparr>c_children := jset (c_children k) name (next_cid s)\<rparr>)" for f
    unfolding that by (intro gentle_plain gentle_enqueueSystem gentle_refl) auto
  ultimately show ?thesis using assms(1) gentle_watch_ok by (auto simp: spawn_def Let_def)
qed

lemma perform_watch_ok:
  assumes "sound s" "watch_ok s"
  shows "watch_ok (perform a s)"
proof -
  have g: "gentle s s' \<Longrightarrow> watch_ok s'" for s' using gentle_watch_ok assms(2) by blast
  have refl: "gentle s s" by (rule gentle_refl)
  have with_msg: "watch_ok (upd c (\<lambda>k. k\<lparr>c_watchWith := f k\<rparr>) s)" for c f by (rule g [OF gentle_plain [OF refl]]) auto
  have local: "gentle s (upd c (become b d) s)" "gentle s (upd c unbecome s)" "gentle s (upd c (setReceiveTimeout ms) s)" "gentle s (upd c cancelReceiveTimeout s)" for c b d ms
    by (rule gentle_plain [OF refl]; auto simp: become_def unbecome_def setReceiveTimeout_def resetReceiveTimer_def cancelReceiveTimeout_def)+
  have stash: "gentle s (stash c s)" for c
    unfolding stash_def by (rule gentle_plain [OF refl]) (auto simp: cell_stash_def split: option.split)
  have unstash: "gentle s (unstashAll c s)" for c
    unfolding unstashAll_def using refl
    by (auto intro!: gentle_schedule gentle_plain simp: cell_unstashAll_def plain_exec_def mb_prependUser_def Let_def split: if_splits)
  have prep: "gentle s (prependUserMessages c ms s)" for c ms
    unfolding prependUserMessages_def Let_def using refl
    by (auto intro!: gentle_schedule gentle_plain gentle_ghost gentle_dead_letters simp: mb_prependUser_def)
  have running: "gentle s (schedule_running c s1)" if "gentle s s1" for c s1
    using that by (auto simp: schedule_running_def intro: gentle_schedule)
  have run: "watch_ok (resume_step c ph ch s)" if "jget (turns s) c = Some ph" for c ph ch
  proof -
    have "in_turn c s" using assms(1) that by (force simp: sound_def in_turn_def jget_map_of dest: map_of_SomeD)
    then show ?thesis using resume_step_watch_ok [OF assms in_turn_cell that] by simp
  qed
  show ?thesis
  proof (cases a)
    case (Spawn c generated name throughput)
    then show ?thesis using spawn_watch_ok assms by (simp add: perform_def sound_def)
  next
    case (Run c ch)
    then show ?thesis using run assms(2) by (auto simp: perform_def split: option.split)
  next
    case (Watch c t)
    then show ?thesis by (simp add: perform_def watch_def registerWatch_watch_ok with_msg)
  next
    case (WatchWith c t m)
    then show ?thesis by (simp add: perform_def watchWith_def registerWatch_watch_ok with_msg)
  next
    case (Unwatch c t)
    then show ?thesis by (simp add: perform_def unwatch_watch_ok assms(2))
  qed (use refl assms(2) in \<open>auto simp: perform_def throttle_def
      intro!: g local stash unstash prep running gentle_tell gentle_enqueueSystem gentle_plain\<close>)
qed

lemma history_watch_ok: "sound s \<Longrightarrow> clean s calls \<Longrightarrow> watch_ok s \<Longrightarrow> watch_ok (history s calls)"
  by (induction calls arbitrary: s) (auto simp: history_Cons history_Nil perform_sound perform_watch_ok)

lemma boot_watch_ok: "watch_ok (boot throughput order)"
  unfolding boot_def
  by (rule gentle_watch_ok [OF gentle_enqueueSystem [OF gentle_refl]]) (auto simp: watch_ok_def cell_at_def new_cell_def no_cell_def)

text \<open>
  C5. Death watch never fails silently. In every history in which no restart command reaches a cell that is already
  stopping, a live actor that watches another either is known to its target as a watcher while the target lives, or
  finds the framework's own notification of the target's termination in its queue, marked so that neither a bound
  nor a throttle drops it. This holds however many watches, unwatches, restarts and terminations were interleaved,
  and also for a target that had terminated before it was watched.
\<close>

theorem death_watch_never_lost:
  assumes "clean (boot throughput order) calls" "s = history (boot throughput order) calls"
    "c_state (cell_at s w) \<noteq> Terminated" "t \<in> set (c_watching (cell_at s w))"
  shows "c_state (cell_at s t) \<noteq> Terminated \<and> w \<in> set (c_watchers (cell_at s t)) \<or>
    (\<exists>env \<in> set (userQueue (mailbox_of (cell_at s w))). undroppable env \<and> message env = TerminatedMsg t True)"
  using history_watch_ok [OF boot_sound assms(1) boot_watch_ok] assms(2-4) by (auto simp: watch_ok_def heard_def alive_def pend_def)

text \<open>The root watches a child, which stops.\<close>

definition watched_child_stops :: "call list" where
  "watched_child_stops =
     [Run 0 all_well, Run 0 all_well, Run 0 all_well, Spawn 0 False ''a'' 16, Run 1 all_well, Run 1 all_well, Run 1 all_well,
      Watch 0 1, StopSelf 1, Run 1 all_well, Run 1 all_well]"

theorem death_watch_never_lost_witness:
  "let s = history (boot 16 None) watched_child_stops in
   1 \<in> set (c_watching (cell_at s 0)) \<and> c_state (cell_at s 0) = Running \<and> c_state (cell_at s 1) = Terminated \<and>
   (\<exists>env \<in> set (userQueue (mailbox_of (cell_at s 0))). undroppable env \<and> message env = TerminatedMsg 1 True)"
proof -
  let ?s = "history (boot 16 None) watched_child_stops"
  note run = run_history watched_child_stops_def watch_def registerWatch_def addWatcher_def sadd_def sdel_def
  have clean: "clean (boot 16 None) watched_child_stops" by (simp add: run)
  have s: "1 \<in> set (c_watching (cell_at ?s 0))" "c_state (cell_at ?s 0) = Running" "c_state (cell_at ?s 1) = Terminated"
    by (simp_all add: run)
  have "c_state (cell_at ?s 0) \<noteq> Terminated" using s(2) by simp
  from death_watch_never_lost [OF clean refl this s(1)] show ?thesis unfolding Let_def using s by simp
qed

end
