(* ===== verification/Actor_Restart.thy ===== *)
theory Actor_Restart
  imports Actor_Lifecycle
begin

text \<open>
  What a restart command does to a cell that is already stopping. \<^verbatim>\<open>onRecreate\<close> looks only at whether the cell has
  an instance, and the loop of \<^verbatim>\<open>run\<close> does not look at the state after a user message, so a cell that a
  \<^verbatim>\<open>PoisonPill\<close> has just terminated goes on to serve the restart its parent's all-for-one strategy sent it
  in the meantime. The parent has been told that the child is gone and frees its name.
\<close>

lemma restart_completes:
  assumes "jget (turns s) c = Some (In_preRestart cause (After_System n))" "cells s c \<noteq> None" "c_children (cell_at s c) = []" "built ch" "hook_ok ch"
  shows "c_state (cell_at (history s [Run c ch, Run c ch]) c) = Running"
proof -
  let ?s1 = "set_phase c (In_postRestart cause (After_System n)) (upd c (\<lambda>k. k\<lparr>c_behaviorStack := [0]\<rparr>) s)"
  have at: "cells ?s1 c \<noteq> None" "c_children (cell_at ?s1 c) = []" "jget (turns ?s1) c = Some (In_postRestart cause (After_System n))"
    using assms by (simp_all add: jget_set_phase, simp add: set_phase_def upd_def)
  have "perform (Run c ch) ?s1 = continue_turn c (After_System n) (after_postRestart c ?s1)"
    using assms at by (simp add: perform_def resume_step_def)
  moreover have run: "c_state (cell_at (after_postRestart c s2) c) = Running" if "cells s2 c \<noteq> None" "c_children (cell_at s2 c) = []" for s2
    using that by (simp add: after_postRestart_def enqueue_all_def jvalues_def Let_def)
  ultimately have "c_state (cell_at (perform (Run c ch) ?s1) c) = Running"
    using run [OF at(1,2)] by (simp add: continue_turn_def)
  moreover have "perform (Run c ch) s = ?s1"
    using assms by (simp add: perform_def resume_step_def after_preRestart_def completeRecreate_def)
  ultimately show ?thesis by (simp add: history_Cons history_Nil)
qed

text \<open>
  C7. Whatever the state of a cell, terminated or not, a restart command it takes from its queue in the middle of a
  turn makes it running again, when it has no children and its hooks and its factory succeed.
\<close>

theorem late_restart_revives:
  assumes "jget (turns s) c = Some (Turn n)" "cells s c \<noteq> None" "systemQueue (mailbox_of (cell_at s c)) = sys_env (RecreateC cause) # rest"
    "c_actor (cell_at s c)" "c_children (cell_at s c) = []" "built ch" "hook_ok ch"
  shows "c_state (cell_at (history s [Run c ch, Run c ch, Run c ch]) c) = Running"
proof -
  let ?s1 = "deadLetterStash c (upd c (\<lambda>k. k\<lparr>mailbox_of := (mailbox_of (cell_at s c))\<lparr>systemQueue := rest\<rparr>\<rparr>) s)"
  let ?s2 = "set_phase c (In_preRestart cause (After_System n)) ?s1"
  have "cells ?s2 c \<noteq> None" "c_children (cell_at ?s2 c) = []" "jget (turns ?s2) c = Some (In_preRestart cause (After_System n))"
    using assms(1,2,5) by (simp_all add: deadLetterStash_def dead_letters_simps jget_set_phase, simp add: set_phase_def upd_def dead_letters_simps)
  from restart_completes [OF this(3,1,2) assms(6,7)]
  have "c_state (cell_at (history ?s2 [Run c ch, Run c ch]) c) = Running" .
  moreover have "perform (Run c ch) s = ?s2"
    using assms by (simp add: perform_def resume_step_def run_step_def mb_dequeueSystem_def sys_env_def handleSystemCommand_def onRecreate_def)
  ultimately show ?thesis by (simp add: history_Cons)
qed

definition restart_all :: choice where
  "restart_all =
     all_well\<lparr>error_cause := 5, strategy_says :=
       Verdict \<lparr>strategy_id = 1, all_for_one = True, maxRetries = 10, withinTimeRangeMs = 60000\<rparr> Dir_Restart 100\<rparr>"

text \<open>Cell 1 is asked to stop, cell 2 fails, and the root restarts both before cell 1's \<^verbatim>\<open>postStop\<close> is over.\<close>

definition stop_meets_failure :: "call list" where
  "stop_meets_failure =
     [Run 0 restart_all, Run 0 restart_all, Run 0 restart_all, Spawn 0 False ''a'' 16, Spawn 0 False ''b'' 16,
      Run 1 restart_all, Run 1 restart_all, Run 1 restart_all, Run 2 restart_all, Run 2 restart_all, Run 2 restart_all,
      Run 0 restart_all, Run 1 restart_all, Run 2 restart_all, Tell 1 PoisonPill, Tell 2 (Message 7), Run 1 restart_all, Run 1 restart_all,
      Run 2 restart_all, Run 2 restart_all, Run 2 (restart_all\<lparr>hook_ok := False\<rparr>), Run 0 restart_all, Run 0 restart_all, Run 1 restart_all]"

definition revival :: "call list" where
  "revival = [Run 1 restart_all, Run 1 restart_all, Run 1 restart_all]"

definition name_reused :: "call list" where
  "name_reused = [Run 0 restart_all, Spawn 0 False ''a'' 16, Run 3 restart_all, Run 3 restart_all, Run 3 restart_all]"

theorem late_restart_revives_witness:
  "let s = history (boot 16 None) stop_meets_failure; s' = history s revival; s'' = history s' name_reused in
   c_state (cell_at s 1) = Terminated \<and> c_state (cell_at s' 1) = Running \<and>
   c_state (cell_at s'' 1) = Running \<and> c_state (cell_at s'' 3) = Running \<and>
   c_parent (cell_at s'' 1) = Some 0 \<and> c_parent (cell_at s'' 3) = Some 0 \<and> c_name (cell_at s'' 1) = ''a'' \<and> c_name (cell_at s'' 3) = ''a'' \<and>
   jget (c_children (cell_at s'' 0)) ''a'' = Some 3"
proof -
  let ?s = "history (boot 16 None) stop_meets_failure"
  let ?s'' = "history (history ?s revival) name_reused"
  note run = run_history restart_all_def stop_meets_failure_def revival_def name_reused_def
  have "jget (turns ?s) 1 = Some (Turn 1)" "cells ?s 1 \<noteq> None" "systemQueue (mailbox_of (cell_at ?s 1)) = [sys_env (RecreateC 5)]"
    "c_actor (cell_at ?s 1)" "c_children (cell_at ?s 1) = []" "built restart_all" "hook_ok restart_all"
    by (simp_all add: run)
  then have "c_state (cell_at (history ?s [Run 1 restart_all, Run 1 restart_all, Run 1 restart_all]) 1) = Running"
    by (rule late_restart_revives)
  moreover have "c_state (cell_at ?s 1) = Terminated" by (simp add: run)
  moreover have "c_state (cell_at ?s'' 1) = Running" "c_state (cell_at ?s'' 3) = Running" "c_parent (cell_at ?s'' 1) = Some 0"
    "c_parent (cell_at ?s'' 3) = Some 0" "c_name (cell_at ?s'' 1) = ''a''" "c_name (cell_at ?s'' 3) = ''a''"
    "jget (c_children (cell_at ?s'' 0)) ''a'' = Some 3"
    by (simp_all add: run)
  ultimately show ?thesis unfolding Let_def revival_def by (intro conjI)
qed

section \<open>A cell that waits for its children\<close>

text \<open>
  A cell that has messages left but waits for its children to stop arms a new turn at the end of each turn, and the
  new turn finds nothing it may do: nothing changes from one turn to the next until a child reports.
\<close>

lemma stopping_cell_spins:
  assumes "scheduled_ok s" "jget (turns s) c = Some (Turn n)" "c_state (cell_at s c) = Terminating" "systemQueue (mailbox_of (cell_at s c)) = []"
    "userQueue (mailbox_of (cell_at s c)) \<noteq> []" "\<not> suspended_flag (mailbox_of (cell_at s c))" "\<not> c_throttleTimer (cell_at s c)"
  shows "cells (history s [Run c ch, Run c ch]) = cells s \<and> jget (turns (history s [Run c ch, Run c ch])) c = Some (Turn 0)"
proof -
  obtain k where k: "cells s c = Some k" using assms(3) by (auto simp: cell_at_def no_cell_def split: option.splits)
  have "c_processing (cell_at s c)"
    using assms(1,2) by (force simp: scheduled_ok_def one_turn_each_def jget_map_of dest: map_of_SomeD)
  then have p: "c_processing k" "k\<lparr>c_processing := True\<rparr> = k" "cell_at s c = k" using k by (simp_all add: cell_at_def)
  have first: "perform (Run c ch) s = finish_turn c s"
    using assms by (simp add: perform_def resume_step_def run_step_def mb_dequeueSystem_def run_user_def)
  have "hasDispatchableWork (k\<lparr>c_processing := False\<rparr>)" using assms p by (simp add: hasDispatchableWork_def mb_hasMessages_def)
  then have fin: "cells (finish_turn c s) = cells s" "turns (finish_turn c s) = filter (\<lambda>(d, q). d \<noteq> c) (turns s) @ [(c, Armed)]"
    using assms(3) k p by (auto simp: finish_turn_def schedule_def upd_def cell_at_def Let_def fun_eq_iff)
  have "jget (turns (finish_turn c s)) c = Some Armed"
    unfolding fin by (auto simp: jget_def map_add_def map_of_eq_None_iff split: option.split dest: map_of_SomeD)
  then have "perform (Run c ch) (finish_turn c s) = set_phase c (Turn 0) (finish_turn c s)"
    by (simp add: perform_def resume_step_def)
  then show ?thesis
    using first fin(1) \<open>jget (turns (finish_turn c s)) c = Some Armed\<close> by (simp add: history_Cons history_Nil jget_set_phase, simp add: set_phase_def)
qed

end
