(* ===== verification/Restart_Budget.thy ===== *)
theory Restart_Budget
  imports Actor_Cell
begin

text \<open>
  The restart budget of \<^verbatim>\<open>src/src/Supervision.ts\<close>. The code prunes its list of restarts in place; the
  reference below keeps every granted restart and counts those in the window.
\<close>

section \<open>A run of the budget and its reference\<close>

fun requests :: "int list \<Rightarrow> restart_budget \<Rightarrow> bool list" where
  "requests [] b = []"
| "requests (now # moments) b = (let (ok, b') = budget_registerRestart now b in ok # requests moments b')"

definition in_window :: "int \<Rightarrow> int \<Rightarrow> int \<Rightarrow> bool" where
  "in_window window now t \<longleftrightarrow> window \<le> 0 \<or> now - window \<le> t"

definition granted :: "int \<Rightarrow> int \<Rightarrow> int list \<Rightarrow> int \<Rightarrow> bool" where
  "granted retries window earlier now \<longleftrightarrow> retries < 0 \<or> int (length (filter (in_window window now) earlier)) < retries"

fun reference :: "int \<Rightarrow> int \<Rightarrow> int list \<Rightarrow> int list \<Rightarrow> bool list" where
  "reference retries window earlier [] = []"
| "reference retries window earlier (now # moments) =
     granted retries window earlier now #
     reference retries window (if granted retries window earlier now then earlier @ [now] else earlier) moments"

text \<open>The restarts that were granted.\<close>

definition restarts :: "int list \<Rightarrow> bool list \<Rightarrow> int list" where
  "restarts moments answers = map fst (filter snd (zip moments answers))"

section \<open>Pruning loses nothing\<close>

text \<open>The list the budget keeps is what a window that ends no earlier still needs of the granted restarts.\<close>

definition pruned :: "restart_budget \<Rightarrow> int list \<Rightarrow> int \<Rightarrow> bool" where
  "pruned b earlier last_time \<longleftrightarrow>
     (\<forall>now \<ge> last_time. filter (in_window (budget_withinTimeRangeMs b) now) (failureTimes b) = filter (in_window (budget_withinTimeRangeMs b) now) earlier) \<and>
     (budget_withinTimeRangeMs b \<le> 0 \<longrightarrow> failureTimes b = earlier)"

lemma in_window_later: "now \<le> now' \<Longrightarrow> in_window w now' t \<Longrightarrow> in_window w now t"
  by (auto simp: in_window_def)

lemma filter_window_twice: "now \<le> now' \<Longrightarrow> filter (in_window w now') (filter (in_window w now) xs) = filter (in_window w now') xs"
  using in_window_later by (induction xs) auto

lemma budget_step:
  assumes "pruned b earlier last_time" "last_time \<le> now" "budget_registerRestart now b = (ok, b')"
    "retries = budget_maxRetries b" "window = budget_withinTimeRangeMs b" "0 \<le> retries"
  shows "ok = granted retries window earlier now \<and> budget_maxRetries b' = retries \<and> budget_withinTimeRangeMs b' = window \<and>
    pruned b' (if ok then earlier @ [now] else earlier) now"
proof -
  define kept where "kept = filter (in_window window now) (failureTimes b)"
  have kept: "kept = filter (in_window window now) earlier" using assms(1,2,5) by (simp add: pruned_def kept_def)
  have b': "(ok, b') = (if int (length kept) \<ge> retries then (False, b\<lparr>failureTimes := kept\<rparr>) else (True, b\<lparr>failureTimes := kept @ [now]\<rparr>))"
  proof (cases "window > 0")
    case True
    then have "in_window window now = (\<lambda>t. t \<ge> now - window)" by (auto simp: in_window_def)
    then show ?thesis using assms(3-6) True by (auto simp: budget_registerRestart_def kept_def Let_def split: if_splits)
  next
    case False
    then have "kept = failureTimes b" by (simp add: kept_def in_window_def)
    then show ?thesis using assms(3-6) False by (auto simp: budget_registerRestart_def Let_def split: if_splits)
  qed
  have "pruned (b\<lparr>failureTimes := kept @ tail\<rparr>) (earlier @ tail) now" for tail
    using kept assms(5) filter_window_twice [of now] by (auto simp: pruned_def in_window_def)
  from this [of "[]"] this [of "[now]"] show ?thesis using b' kept assms(4,5,6) by (auto simp: granted_def split: if_splits)
qed

lemma requests_reference:
  assumes "pruned b earlier last_time" "sorted (last_time # moments)" "retries = budget_maxRetries b" "window = budget_withinTimeRangeMs b"
  shows "requests moments b = reference retries window earlier moments"
  using assms
proof (induction moments arbitrary: b earlier last_time)
  case (Cons now moments)
  obtain ok b' where step: "budget_registerRestart now b = (ok, b')" by fastforce
  show ?case
  proof (cases "retries < 0")
    case True
    then have "requests ts b = map (\<lambda>_. True) ts" "reference retries window e ts = map (\<lambda>_. True) ts" for ts e
      using Cons.prems(3) by (induction ts arbitrary: e) (auto simp: budget_registerRestart_def granted_def)
    then show ?thesis by metis
  next
    case False
    note s = budget_step [OF Cons.prems(1) _ step Cons.prems(3,4)]
    show ?thesis using s Cons.IH [of b' _ now] Cons.prems(2) False step by auto
  qed
qed simp

section \<open>The bound\<close>

lemma restarts_Cons: "restarts (now # moments) (ok # answers) = (if ok then now # restarts moments answers else restarts moments answers)"
  by (simp add: restarts_def)

lemma restarts_later: "sorted (now # moments) \<Longrightarrow> x \<in> set (restarts moments answers) \<Longrightarrow> now \<le> x"
  by (auto simp: restarts_def dest: set_zip_leftD)

text \<open>At most \<open>retries\<close> restarts lie in a window that ends at any moment.\<close>

lemma reference_bound:
  assumes "0 \<le> retries" "sorted moments" "\<forall>x \<in> set earlier. \<forall>t \<in> set moments. x \<le> t"
    "\<And>now. int (length (filter (\<lambda>t. in_window window now t \<and> t \<le> now) earlier)) \<le> retries"
  shows "int (length (filter (\<lambda>t. in_window window now t \<and> t \<le> now) (earlier @ restarts moments (reference retries window earlier moments)))) \<le> retries"
  using assms
proof (induction moments arbitrary: earlier)
  case Nil
  then show ?case by (simp add: restarts_def)
next
  case (Cons t moments)
  show ?case
  proof (cases "granted retries window earlier t")
    case True
    have all: "filter (\<lambda>x. in_window window t x \<and> x \<le> t) earlier = filter (in_window window t) earlier"
      using Cons.prems(3) by (intro filter_cong) auto
    have "int (length (filter (\<lambda>x. in_window window now x \<and> x \<le> now) (earlier @ [t]))) \<le> retries" for now
    proof (cases "in_window window now t \<and> t \<le> now")
      case True
      have "filter (\<lambda>x. in_window window now x \<and> x \<le> now) earlier = filter (in_window window now) (filter (in_window window t) earlier)"
        using True Cons.prems(3) in_window_later [of t now window] by (auto intro!: filter_cong)
      then have "length (filter (\<lambda>x. in_window window now x \<and> x \<le> now) earlier) \<le> length (filter (in_window window t) earlier)"
        by (metis length_filter_le)
      then show ?thesis using \<open>granted retries window earlier t\<close> Cons.prems(1) True by (auto simp: granted_def)
    next
      case False
      then show ?thesis using Cons.prems(4) [of now] by auto
    qed
    then show ?thesis using Cons.IH [of "earlier @ [t]"] Cons.prems(1-3) True by (auto simp: restarts_Cons)
  next
    case False
    then show ?thesis using Cons.IH [of earlier] Cons.prems by (auto simp: restarts_Cons)
  qed
qed

text \<open>
  C6. With a clock that does not run backwards, the restart budget grants a restart exactly when fewer than
  \<^verbatim>\<open>maxRetries\<close> of the restarts it granted lie in the time range that ends now (or in all time, when the range
  is 0; always, when the maximum is negative): pruning its list in place loses nothing. So no time range of that
  length holds more than \<^verbatim>\<open>maxRetries\<close> restarts.
\<close>

theorem restart_budget_exact:
  assumes "sorted moments"
  shows "requests moments (new_budget st) = reference (maxRetries st) (withinTimeRangeMs st) [] moments \<and>
    (0 \<le> maxRetries st \<longrightarrow>
       int (length (filter (\<lambda>t. in_window (withinTimeRangeMs st) now t \<and> t \<le> now) (restarts moments (requests moments (new_budget st))))) \<le> maxRetries st)"
proof -
  have "requests moments (new_budget st) = reference (maxRetries st) (withinTimeRangeMs st) [] moments"
  proof (cases moments)
    case (Cons t ts)
    then show ?thesis
      using assms by (intro requests_reference [of _ _ t]) (auto simp: pruned_def new_budget_def)
  qed simp
  moreover have "int (length (filter (\<lambda>t. in_window (withinTimeRangeMs st) now t \<and> t \<le> now)
      (restarts moments (reference (maxRetries st) (withinTimeRangeMs st) [] moments)))) \<le> maxRetries st" if "0 \<le> maxRetries st"
    using reference_bound [OF that assms, of "[]" "withinTimeRangeMs st" now] that by simp
  ultimately show ?thesis by simp
qed

theorem restart_budget_exact_witness:
  "sorted [0, 10, 20, 65, 75 :: int] \<and>
   requests [0, 10, 20, 65, 75] (new_budget \<lparr>strategy_id = 0, all_for_one = False, maxRetries = 2, withinTimeRangeMs = 60\<rparr>) = [True, True, False, True, True]"
  using restart_budget_exact [of "[0, 10, 20, 65, 75]" "\<lparr>strategy_id = 0, all_for_one = False, maxRetries = 2, withinTimeRangeMs = 60\<rparr>"]
  by (simp add: granted_def in_window_def)

end
