(* ===== verification/Shard_Allocation.thy ===== *)
theory Shard_Allocation
  imports Cluster_Member
begin

text \<open>
  Where the shards of an entity type go: \<^verbatim>\<open>src/src/cluster/sharding/AllocationStrategy.ts\<close>. Addresses are ordered
  by \<^verbatim>\<open>localeCompare\<close> of their string forms, which is the host's collation and an argument \<open>cmp\<close> here. The locale
  \<open>allocation_strategy\<close> is what the coordinator relies on; both strategies interpret it.
\<close>

section \<open>The two strategies\<close>

type_synonym shard_map = "(string, int jset) jmap"

datatype allocation_error = No_Candidates

definition compareTo :: "(string \<Rightarrow> string \<Rightarrow> int) \<Rightarrow> node_address \<Rightarrow> node_address \<Rightarrow> int" where
  "compareTo cmp a b = cmp (addr_toString a) (addr_toString b)"

text \<open>\<^verbatim>\<open>sorted[shardId % sorted.length]\<close>; shard ids are not negative.\<close>

definition slot_of :: "(string \<Rightarrow> string \<Rightarrow> int) \<Rightarrow> int \<Rightarrow> node_address list \<Rightarrow> node_address" where
  "slot_of cmp shardId cands = sort_by (compareTo cmp) cands ! nat (shardId mod int (length cands))"

definition hash_allocate ::
  "(string \<Rightarrow> string \<Rightarrow> int) \<Rightarrow> int \<Rightarrow> node_address list \<Rightarrow> shard_map \<Rightarrow> allocation_error + node_address" where
  "hash_allocate cmp shardId cands shards = (if cands = [] then Inl No_Candidates else Inr (slot_of cmp shardId cands))"

definition hash_rebalance ::
  "(string \<Rightarrow> string \<Rightarrow> int) \<Rightarrow> shard_map \<Rightarrow> node_address list \<Rightarrow> int jset \<Rightarrow> int jset" where
  "hash_rebalance cmp shards cands inProgress =
     (if cands = [] then []
      else foldl (\<lambda>out (address, ids).
             foldl (\<lambda>out shardId.
               if shardId \<in> set inProgress then out
               else if addr_toString (slot_of cmp shardId cands) \<noteq> address then sadd out shardId
               else out) out ids) [] shards)"

definition load_of :: "shard_map \<Rightarrow> node_address \<Rightarrow> nat" where
  "load_of shards a = (case jget shards (addr_toString a) of None \<Rightarrow> 0 | Some ids \<Rightarrow> length ids)"

definition shards_of :: "shard_map \<Rightarrow> node_address \<Rightarrow> int jset" where
  "shards_of shards a = (case jget shards (addr_toString a) of None \<Rightarrow> [] | Some ids \<Rightarrow> ids)"

fun least_loop :: "(string \<Rightarrow> string \<Rightarrow> int) \<Rightarrow> shard_map \<Rightarrow> node_address \<Rightarrow> nat \<Rightarrow> node_address list \<Rightarrow> node_address" where
  "least_loop cmp shards best bestLoad [] = best"
| "least_loop cmp shards best bestLoad (c # cs) =
     (let load = load_of shards c in
      if load < bestLoad \<or> (load = bestLoad \<and> compareTo cmp c best < 0) then least_loop cmp shards c load cs
      else least_loop cmp shards best bestLoad cs)"

definition least_allocate ::
  "(string \<Rightarrow> string \<Rightarrow> int) \<Rightarrow> int \<Rightarrow> node_address list \<Rightarrow> shard_map \<Rightarrow> allocation_error + node_address" where
  "least_allocate cmp shardId cands shards =
     (case cands of [] \<Rightarrow> Inl No_Candidates | c # cs \<Rightarrow> Inr (least_loop cmp shards c (load_of shards c) cands))"

fun off_loop :: "int \<Rightarrow> int jset \<Rightarrow> int jset \<Rightarrow> int list \<Rightarrow> int jset" where
  "off_loop maxMoves inProgress out [] = out"
| "off_loop maxMoves inProgress out (shardId # ids) =
     (if int (length out) \<ge> maxMoves then out
      else if shardId \<in> set inProgress then off_loop maxMoves inProgress out ids
      else off_loop maxMoves inProgress (sadd out shardId) ids)"

definition shardsOffNonCandidates :: "int \<Rightarrow> shard_map \<Rightarrow> node_address list \<Rightarrow> int jset \<Rightarrow> int jset" where
  "shardsOffNonCandidates maxMoves shards cands inProgress =
     (let others = sort (filter (\<lambda>address. address \<notin> addr_toString ` set cands) (jkeys shards))
      in off_loop maxMoves inProgress [] (concat (map (\<lambda>address. sort (case jget shards address of None \<Rightarrow> [] | Some ids \<Rightarrow> ids)) others)))"

text \<open>One node's part of the drain: \<^verbatim>\<open>if (--remaining <= 0) break\<close> comes after the add.\<close>

fun drain_node :: "int jset \<Rightarrow> int jset \<Rightarrow> int \<Rightarrow> int list \<Rightarrow> int jset \<times> int" where
  "drain_node inProgress out remaining [] = (out, remaining)"
| "drain_node inProgress out remaining (shardId # ids) =
     (if shardId \<in> set inProgress then drain_node inProgress out remaining ids
      else if remaining - 1 \<le> 0 then (sadd out shardId, remaining - 1)
      else drain_node inProgress (sadd out shardId) (remaining - 1) ids)"

fun drain_loop :: "int \<Rightarrow> int \<Rightarrow> int jset \<Rightarrow> int jset \<Rightarrow> int \<Rightarrow> (string \<times> nat \<times> int jset) list \<Rightarrow> int jset" where
  "drain_loop threshold low inProgress out remaining [] = out"
| "drain_loop threshold low inProgress out remaining ((address, load, ids) # loads) =
     (if remaining \<le> 0 then out
      else if int load - low < threshold then out
      else (let (out', remaining') = drain_node inProgress out remaining ids
            in drain_loop threshold low inProgress out' remaining' loads))"

definition loads_of :: "shard_map \<Rightarrow> node_address list \<Rightarrow> (string \<times> nat \<times> int jset) list" where
  "loads_of shards cands =
     sort_by (\<lambda>(_, a, _) (_, b, _). int a - int b) (map (\<lambda>c. (addr_toString c, load_of shards c, shards_of shards c)) cands)"

definition least_rebalance :: "int \<Rightarrow> int \<Rightarrow> shard_map \<Rightarrow> node_address list \<Rightarrow> int jset \<Rightarrow> int jset" where
  "least_rebalance threshold maxMoves shards cands inProgress =
     (let out = shardsOffNonCandidates maxMoves shards cands inProgress in
      if length cands < 2 then out
      else
        (let loads = loads_of shards cands;
             low = int (fst (snd (hd loads)));
             high = int (fst (snd (last loads)))
         in if high - low < threshold then out
            else drain_loop threshold low inProgress out (maxMoves - int (length out)) (rev loads)))"

section \<open>What the coordinator relies on\<close>

locale allocation_strategy =
  fixes allocate :: "int \<Rightarrow> node_address list \<Rightarrow> shard_map \<Rightarrow> allocation_error + node_address"
    and rebalance :: "shard_map \<Rightarrow> node_address list \<Rightarrow> int jset \<Rightarrow> int jset"
  assumes allocate_candidate: "cands \<noteq> [] \<Longrightarrow> \<exists>a \<in> set cands. allocate shardId cands shards = Inr a"
    and rebalance_distinct: "distinct (rebalance shards cands inProgress)"
    and rebalance_held: "shardId \<in> set (rebalance shards cands inProgress) \<Longrightarrow>
      shardId \<notin> set inProgress \<and> (\<exists>ids \<in> snd ` set shards. shardId \<in> set ids)"
begin

lemma rebalance_nothing: "(\<And>ids. ids \<in> snd ` set shards \<Longrightarrow> set ids \<subseteq> set inProgress) \<Longrightarrow> rebalance shards cands inProgress = []"
  using rebalance_held [of _ shards cands inProgress] by (metis equals0I set_empty subsetD)

end

section \<open>Sorting\<close>

lemma set_insert_by [simp]: "set (insert_by cmp x ys) = insert x (set ys)"
  by (induction ys) auto

lemma length_insert_by [simp]: "length (insert_by cmp x ys) = Suc (length ys)"
  by (induction ys) auto

lemma set_sort_by [simp]: "set (sort_by cmp xs) = set xs"
  by (induction xs) (auto simp: sort_by_def)

lemma length_sort_by [simp]: "length (sort_by cmp xs) = length xs"
  by (induction xs) (auto simp: sort_by_def)

lemma sort_by_Cons: "sort_by cmp (x # xs) = insert_by cmp x (sort_by cmp xs)"
  by (simp add: sort_by_def)

lemma slot_of_candidate: "cands \<noteq> [] \<Longrightarrow> slot_of cmp shardId cands \<in> set cands"
proof -
  assume c: "cands \<noteq> []"
  have "nat (shardId mod int (length cands)) < length cands" using c by (simp add: nat_less_iff)
  then have "sort_by (compareTo cmp) cands ! nat (shardId mod int (length cands)) \<in> set (sort_by (compareTo cmp) cands)"
    by (intro nth_mem) simp
  then show ?thesis by (simp add: slot_of_def)
qed

section \<open>The hash strategy\<close>

lemma hash_inner:
  "set (foldl (\<lambda>out s. if s \<in> set p then out else if f s \<noteq> address then sadd out s else out) out ids) =
   set out \<union> {s \<in> set ids. s \<notin> set p \<and> f s \<noteq> address}"
  "distinct out \<Longrightarrow> distinct (foldl (\<lambda>out s. if s \<in> set p then out else if f s \<noteq> address then sadd out s else out) out ids)"
  by (induction ids arbitrary: out) auto

lemma hash_rebalance_set:
  assumes "cands \<noteq> []"
  shows "set (hash_rebalance cmp shards cands p) =
    {s. s \<notin> set p \<and> (\<exists>address ids. (address, ids) \<in> set shards \<and> s \<in> set ids \<and> addr_toString (slot_of cmp s cands) \<noteq> address)}"
proof -
  let ?f = "\<lambda>s. addr_toString (slot_of cmp s cands)"
  let ?step = "\<lambda>out (address, ids). foldl (\<lambda>out s. if s \<in> set p then out else if ?f s \<noteq> address then sadd out s else out) out ids"
  have "set (foldl ?step out m) = set out \<union> {s. s \<notin> set p \<and> (\<exists>address ids. (address, ids) \<in> set m \<and> s \<in> set ids \<and> ?f s \<noteq> address)}" for out m
    by (induction m arbitrary: out) (auto simp: hash_inner(1))
  then show ?thesis using assms by (simp add: hash_rebalance_def)
qed

lemma hash_rebalance_distinct: "distinct (hash_rebalance cmp shards cands p)"
proof -
  let ?f = "\<lambda>s. addr_toString (slot_of cmp s cands)"
  let ?step = "\<lambda>out (address, ids). foldl (\<lambda>out s. if s \<in> set p then out else if ?f s \<noteq> address then sadd out s else out) out ids"
  have "distinct out \<Longrightarrow> distinct (foldl ?step out m)" for out m
    by (induction m arbitrary: out) (auto simp: hash_inner(2))
  then show ?thesis by (simp add: hash_rebalance_def)
qed

interpretation hash: allocation_strategy "hash_allocate cmp" "hash_rebalance cmp" for cmp
proof
  show "\<exists>a \<in> set cands. hash_allocate cmp shardId cands shards = Inr a" if "cands \<noteq> []" for cands shardId shards
    using that slot_of_candidate by (simp add: hash_allocate_def)
  show "distinct (hash_rebalance cmp shards cands p)" for shards cands p by (rule hash_rebalance_distinct)
  show "s \<notin> set p \<and> (\<exists>ids \<in> snd ` set shards. s \<in> set ids)" if "s \<in> set (hash_rebalance cmp shards cands p)" for s shards cands p
  proof -
    have "cands \<noteq> []" using that by (auto simp: hash_rebalance_def)
    then show ?thesis using that by (force simp: hash_rebalance_set)
  qed
qed

section \<open>The least-shard strategy\<close>

text \<open>A comparator with consistent signs, as every collation is.\<close>

definition collation :: "(string \<Rightarrow> string \<Rightarrow> int) \<Rightarrow> bool" where
  "collation cmp \<longleftrightarrow> total_cmp cmp \<and> (\<forall>a b. cmp a b < 0 \<longleftrightarrow> cmp b a > 0)"

lemma least_loop_best:
  assumes "collation cmp" "bestLoad = load_of shards best"
  shows "least_loop cmp shards best bestLoad cs \<in> insert best (set cs) \<and>
    (\<forall>c \<in> insert best (set cs). load_of shards (least_loop cmp shards best bestLoad cs) < load_of shards c \<or>
       load_of shards (least_loop cmp shards best bestLoad cs) = load_of shards c \<and> compareTo cmp (least_loop cmp shards best bestLoad cs) c \<le> 0)"
  using assms(2)
proof (induction cs arbitrary: best bestLoad)
  case Nil
  then show ?case using assms(1) by (simp add: compareTo_def, unfold collation_def total_cmp_def, blast)
next
  case (Cons c cs)
  have total: "compareTo cmp a b \<le> 0 \<or> compareTo cmp b a \<le> 0" "compareTo cmp a b \<le> 0 \<Longrightarrow> compareTo cmp b d \<le> 0 \<Longrightarrow> compareTo cmp a d \<le> 0" for a b d
    using assms(1) unfolding collation_def total_cmp_def compareTo_def by blast+
  have sign: "compareTo cmp a b \<ge> 0 \<Longrightarrow> compareTo cmp b a \<le> 0" for a b
    using assms(1) unfolding collation_def compareTo_def by (metis linorder_not_less)
  show ?case
  proof (cases "load_of shards c < bestLoad \<or> load_of shards c = bestLoad \<and> compareTo cmp c best < 0")
    case True
    let ?r = "least_loop cmp shards c (load_of shards c) cs"
    have IH: "?r \<in> insert c (set cs)" "\<forall>d \<in> insert c (set cs). load_of shards ?r < load_of shards d \<or> load_of shards ?r = load_of shards d \<and> compareTo cmp ?r d \<le> 0"
      using Cons.IH [of "load_of shards c" c] by auto
    have "load_of shards ?r < load_of shards best \<or> load_of shards ?r = load_of shards best \<and> compareTo cmp ?r best \<le> 0"
      using True IH(2) total(2) [of ?r c best] Cons.prems by (auto dest!: bspec [of _ _ c])
    then show ?thesis using True IH by (auto simp: Let_def)
  next
    case False
    let ?r = "least_loop cmp shards best bestLoad cs"
    have IH: "?r \<in> insert best (set cs)" "\<forall>d \<in> insert best (set cs). load_of shards ?r < load_of shards d \<or> load_of shards ?r = load_of shards d \<and> compareTo cmp ?r d \<le> 0"
      using Cons.IH [OF Cons.prems] by auto
    have b: "load_of shards best < load_of shards c \<or> load_of shards best = load_of shards c \<and> compareTo cmp best c \<le> 0"
      using False Cons.prems sign [of c best] by auto
    have "load_of shards ?r < load_of shards c \<or> load_of shards ?r = load_of shards c \<and> compareTo cmp ?r c \<le> 0"
      using b IH(2) total(2) [of ?r best c] by (auto dest!: bspec [of _ _ best])
    then show ?thesis using False IH by (auto simp: Let_def)
  qed
qed

lemma least_loop_candidate: "least_loop cmp shards best bestLoad cs \<in> insert best (set cs)"
  by (induction cs arbitrary: best bestLoad) (auto simp: Let_def)

lemma off_loop_set:
  "set (off_loop m p out ids) \<subseteq> set out \<union> (set ids - set p)" "distinct out \<Longrightarrow> distinct (off_loop m p out ids)"
proof (induction ids arbitrary: out)
  case (Cons s ids)
  { case 1 then show ?case using Cons(1) [of out] Cons(1) [of "sadd out s"] by auto }
  { case 2 then show ?case using Cons(2) by auto }
qed auto

lemma drain_node_set:
  "set (fst (drain_node p out r ids)) \<subseteq> set out \<union> (set ids - set p)" "set out \<subseteq> set (fst (drain_node p out r ids))"
  "distinct out \<Longrightarrow> distinct (fst (drain_node p out r ids))"
proof (induction ids arbitrary: out r)
  case (Cons s ids)
  { case 1 then show ?case using Cons(1) [of out r] Cons(1) [of "sadd out s" "r - 1"] by auto }
  { case 2 then show ?case using Cons(2) [of out r] Cons(2) [of "sadd out s" "r - 1"] by auto }
  { case 3 then show ?case using Cons(3) by auto }
qed auto

lemma drain_loop_facts:
  "set (drain_loop t low p out r loads) \<subseteq> set out \<union> ((\<Union>(a, l, ids) \<in> set loads. set ids) - set p) \<and>
   set out \<subseteq> set (drain_loop t low p out r loads) \<and> (distinct out \<longrightarrow> distinct (drain_loop t low p out r loads))"
proof (induction loads arbitrary: out r)
  case (Cons x loads)
  obtain a l ids where x: "x = (a, l, ids)" by (cases x)
  obtain o' r' where d: "drain_node p out r ids = (o', r')" by fastforce
  have dn: "set o' \<subseteq> set out \<union> (set ids - set p)" "set out \<subseteq> set o'" "distinct out \<Longrightarrow> distinct o'"
    using drain_node_set [where p = p and out = out and r = r and ids = ids] d by auto
  show ?case unfolding x using dn Cons [of o' r'] by (auto simp: d)
qed simp

lemmas drain_loop_set = drain_loop_facts [THEN conjunct1] drain_loop_facts [THEN conjunct2, THEN conjunct1]
  drain_loop_facts [THEN conjunct2, THEN conjunct2, THEN mp]

lemma loads_of_set: "set (loads_of shards cands) = (\<lambda>c. (addr_toString c, load_of shards c, shards_of shards c)) ` set cands"
  by (simp add: loads_of_def)

lemma jget_held: "jget shards address = Some ids \<Longrightarrow> ids \<in> snd ` set shards"
  using jget_Some_in [of shards address ids] by (force simp: image_iff)

lemma shards_of_in: "s \<in> set (shards_of shards c) \<Longrightarrow> \<exists>ids \<in> snd ` set shards. s \<in> set ids"
  using jget_held [of shards "addr_toString c"] by (cases "jget shards (addr_toString c)") (auto simp: shards_of_def)

lemma off_set: "set (shardsOffNonCandidates m shards cands p) \<subseteq> (\<Union>ids \<in> snd ` set shards. set ids) - set p"
  "distinct (shardsOffNonCandidates m shards cands p)"
proof -
  let ?others = "sort (filter (\<lambda>address. address \<notin> addr_toString ` set cands) (jkeys shards))"
  let ?ids = "concat (map (\<lambda>address. sort (case jget shards address of None \<Rightarrow> [] | Some ids \<Rightarrow> ids)) ?others)"
  have "set ?ids \<subseteq> (\<Union>ids \<in> snd ` set shards. set ids)"
  proof
    fix s assume "s \<in> set ?ids"
    then obtain address where "s \<in> set (case jget shards address of None \<Rightarrow> [] | Some ids \<Rightarrow> ids)" by auto
    then show "s \<in> (\<Union>ids \<in> snd ` set shards. set ids)"
      using jget_held [of shards address] by (cases "jget shards address") auto
  qed
  then show "set (shardsOffNonCandidates m shards cands p) \<subseteq> (\<Union>ids \<in> snd ` set shards. set ids) - set p"
    using off_loop_set(1) [of m p "[]" ?ids] by (auto simp: shardsOffNonCandidates_def Let_def)
  show "distinct (shardsOffNonCandidates m shards cands p)"
    by (simp add: shardsOffNonCandidates_def off_loop_set(2))
qed

interpretation least: allocation_strategy "least_allocate cmp" "least_rebalance threshold maxMoves" for cmp threshold maxMoves
proof
  show "\<exists>a \<in> set cands. least_allocate cmp shardId cands shards = Inr a" if "cands \<noteq> []" for cands shardId shards
    using that least_loop_candidate [of cmp shards "hd cands" _ cands] by (cases cands) (auto simp: least_allocate_def simp del: least_loop.simps)
  show "distinct (least_rebalance threshold maxMoves shards cands p)" for shards cands p
    using off_set(2) by (auto simp: least_rebalance_def Let_def drain_loop_set(3))
  show "s \<notin> set p \<and> (\<exists>ids \<in> snd ` set shards. s \<in> set ids)" if "s \<in> set (least_rebalance threshold maxMoves shards cands p)" for s shards cands p
  proof -
    let ?out = "shardsOffNonCandidates maxMoves shards cands p"
    have "s \<in> set ?out \<or> s \<in> (\<Union>(a, l, ids) \<in> set (rev (loads_of shards cands)). set ids) - set p"
      using that drain_loop_set(1) [of threshold _ p ?out _ "rev (loads_of shards cands)"] by (fastforce simp: least_rebalance_def Let_def split: if_splits)
    then show ?thesis using off_set(1) [of maxMoves shards cands p] shards_of_in by (fastforce simp: loads_of_set)
  qed
qed

section \<open>Properties\<close>

lemma sorted_insert_by:
  assumes "\<And>a b. cmp a b \<le> 0 \<or> cmp b a \<le> 0" "\<And>a b c. cmp a b \<le> 0 \<Longrightarrow> cmp b c \<le> 0 \<Longrightarrow> cmp a c \<le> (0 :: int)"
  shows "sorted_wrt (\<lambda>a b. cmp a b \<le> 0) ys \<Longrightarrow> sorted_wrt (\<lambda>a b. cmp a b \<le> 0) (insert_by cmp x ys)"
  by (induction ys) (use assms in \<open>auto intro: assms(2)\<close>)

lemma sorted_sort_by:
  assumes "\<And>a b. cmp a b \<le> 0 \<or> cmp b a \<le> 0" "\<And>a b c. cmp a b \<le> 0 \<Longrightarrow> cmp b c \<le> 0 \<Longrightarrow> cmp a c \<le> (0 :: int)"
  shows "sorted_wrt (\<lambda>a b. cmp a b \<le> 0) (sort_by cmp xs)"
  by (induction xs) (auto simp: sort_by_Cons sorted_insert_by [OF assms], simp add: sort_by_def)

lemma distinct_insert_by: "distinct (x # ys) \<Longrightarrow> distinct (insert_by cmp x ys)"
  by (induction ys) auto

lemma distinct_sort_by: "distinct xs \<Longrightarrow> distinct (sort_by cmp xs)"
  by (induction xs) (auto simp: sort_by_Cons distinct_insert_by, simp add: sort_by_def)

lemma sorted_wrt_unique:
  assumes "sorted_wrt R xs" "sorted_wrt R ys" "distinct xs" "distinct ys" "set xs = set ys"
    and "\<And>a b. a \<in> set xs \<Longrightarrow> b \<in> set xs \<Longrightarrow> R a b \<Longrightarrow> R b a \<Longrightarrow> a = b"
  shows "xs = ys"
  using assms
proof (induction xs arbitrary: ys)
  case (Cons x xs)
  then obtain y ys' where ys: "ys = y # ys'" by (cases ys) auto
  have "x = y"
  proof (rule ccontr)
    assume "x \<noteq> y"
    then have "x \<in> set ys'" "y \<in> set xs" using Cons.prems(5) ys by auto
    then show False using Cons.prems(1,2,6) ys \<open>x \<noteq> y\<close> by auto
  qed
  then have "set xs = set ys'" using Cons.prems(3,4,5) ys by auto
  then show ?case using Cons.IH [of ys'] Cons.prems ys \<open>x = y\<close> by auto
qed simp

lemma slot_of_order:
  assumes "collation cmp" "set cands = set cands'" "distinct (map addr_toString cands)" "distinct (map addr_toString cands')"
  shows "slot_of cmp shardId cands = slot_of cmp shardId cands'"
proof -
  have total: "compareTo cmp a b \<le> 0 \<or> compareTo cmp b a \<le> 0" "compareTo cmp a b \<le> 0 \<Longrightarrow> compareTo cmp b d \<le> 0 \<Longrightarrow> compareTo cmp a d \<le> 0"
    "compareTo cmp a b \<le> 0 \<Longrightarrow> compareTo cmp b a \<le> 0 \<Longrightarrow> addr_toString a = addr_toString b" for a b d
    using assms(1) unfolding collation_def total_cmp_def compareTo_def by blast+
  have d: "distinct cands" "distinct cands'" using assms(3,4) by (simp_all add: distinct_map)
  have "sort_by (compareTo cmp) cands = sort_by (compareTo cmp) cands'"
    by (rule sorted_wrt_unique [OF sorted_sort_by [OF total(1,2)] sorted_sort_by [OF total(1,2)] distinct_sort_by [OF d(1)] distinct_sort_by [OF d(2)]])
      (use assms(2,3) total(3) in \<open>auto simp: distinct_map dest: inj_onD\<close>)
  moreover have "length cands = length cands'" using assms(2) d by (metis distinct_card)
  ultimately show ?thesis by (simp add: slot_of_def)
qed


text \<open>A collation that compares code units.\<close>

definition by_code_units :: "string \<Rightarrow> string \<Rightarrow> int" where
  "by_code_units a b = (if a < b then - 1 else if a = b then 0 else 1)"

lemma by_code_units_collation: "collation by_code_units"
  unfolding collation_def total_cmp_def by_code_units_def by auto

definition shard_demo_node :: "string \<Rightarrow> node_address" where
  "shard_demo_node h = \<lparr>systemName = ''s'', host = h, port = 1, incarnation = None\<rparr>"

definition uneven :: shard_map where
  "uneven = [(''s@a:1'', [0, 1]), (''s@b:1'', [2])]"

lemma shard_demo_node_string: "addr_toString (shard_demo_node h) = ''s@'' @ h @ '':1''"
  by (simp add: addr_toString_def shard_demo_node_def int_string_def nat_digits.simps digit_char_def, code_simp)


section \<open>Balancing that never settles\<close>

lemma load_of_length: "load_of shards c = length (shards_of shards c)"
  by (simp add: load_of_def shards_of_def split: option.split)

lemma drain_node_nonempty: "ids \<noteq> [] \<Longrightarrow> fst (drain_node [] out r ids) \<noteq> []"
proof (cases ids)
  case (Cons s rest)
  have "sadd out s \<noteq> []" by (auto simp: sadd_def)
  moreover have "set (sadd out s) \<subseteq> set (fst (drain_node [] (sadd out s) (r - 1) rest))" by (rule drain_node_set(2))
  ultimately show ?thesis using Cons by auto
qed simp

lemma loads_of_extremes:
  assumes "c \<in> set cands"
  shows "fst (snd (hd (loads_of shards cands))) \<le> load_of shards c" "load_of shards c \<le> fst (snd (last (loads_of shards cands)))"
proof -
  let ?cmp = "\<lambda>(_ :: string, a :: nat, _ :: int list) (_ :: string, b :: nat, _ :: int list). int a - int b"
  let ?l = "loads_of shards cands"
  have s: "sorted_wrt (\<lambda>a b. ?cmp a b \<le> 0) ?l"
    unfolding loads_of_def by (rule sorted_sort_by) (auto split: prod.splits)
  have m: "(addr_toString c, load_of shards c, shards_of shards c) \<in> set ?l" using assms by (simp add: loads_of_set)
  then have ne: "?l \<noteq> []" by auto
  have "fst (snd (hd ?l)) \<le> fst (snd x)" if "x \<in> set ?l" for x
    using s that ne by (cases ?l; cases x) (auto split: prod.splits)
  then show "fst (snd (hd ?l)) \<le> load_of shards c" using m by fastforce
  have "fst (snd x) \<le> fst (snd (last ?l))" if "x \<in> set ?l" for x
  proof -
    have l: "?l = butlast ?l @ [last ?l]" using ne by simp
    have "sorted_wrt (\<lambda>a b. ?cmp a b \<le> 0) (butlast ?l @ [last ?l])" using s l by simp
    moreover have "x \<in> set (butlast ?l) \<or> x = last ?l" using that l by (metis Un_iff empty_iff empty_set set_ConsD set_append)
    ultimately show ?thesis by (cases x; cases "last ?l") (auto simp: sorted_wrt_append)
  qed
  then show "load_of shards c \<le> fst (snd (last ?l))" using m by fastforce
qed

lemma uneven_loads:
  assumes "\<not> length cands dvd (\<Sum>c \<leftarrow> cands. f c)"
  obtains a b where "a \<in> set cands" "b \<in> set cands" "f a < (f b :: nat)"
proof (cases "\<forall>a \<in> set cands. \<forall>b \<in> set cands. f a = f b")
  case True
  have "(\<Sum>c \<leftarrow> cands. f c) = length cands * f (hd cands)" if "cands \<noteq> []"
  proof -
    have "map f cands = replicate (length cands) (f (hd cands))" using True that by (intro nth_equalityI) (auto simp: hd_conv_nth)
    then show ?thesis by (simp add: sum_list_replicate)
  qed
  then have False using assms by (cases "cands = []") simp_all
  then show ?thesis ..
next
  case False
  then show ?thesis using that by (metis nat_neq_iff)
qed

text \<open>
  With the default threshold of 1 the least-shard strategy never settles when the shards cannot be divided
  evenly: whatever the distribution, as long as no move is under way, it proposes another one. The threshold is
  meant to avoid exactly that.
\<close>

theorem least_shard_never_settles:
  assumes "threshold \<le> 1" "0 < maxMoves" "2 \<le> length cands" "\<not> length cands dvd (\<Sum>c \<leftarrow> cands. load_of shards c)"
  shows "least_rebalance threshold maxMoves shards cands [] \<noteq> []"
proof -
  let ?out = "shardsOffNonCandidates maxMoves shards cands []"
  let ?l = "loads_of shards cands"
  let ?low = "int (fst (snd (hd ?l)))" and ?high = "int (fst (snd (last ?l)))"
  obtain a b where ab: "a \<in> set cands" "b \<in> set cands" "load_of shards a < load_of shards b" using uneven_loads [OF assms(4)] .
  then have gap: "?low < ?high" using loads_of_extremes(1) [OF ab(1), of shards] loads_of_extremes(2) [OF ab(2), of shards] by linarith
  have ne: "?l \<noteq> []" using ab(1) loads_of_set [of shards cands] by auto
  obtain c where c: "c \<in> set cands" "last ?l = (addr_toString c, load_of shards c, shards_of shards c)"
    using last_in_set [OF ne] by (auto simp: loads_of_set)
  have rev: "rev ?l = last ?l # rev (butlast ?l)" using ne by (metis append_butlast_last_id rev_eq_Cons_iff rev_rev_ident)
  have "shards_of shards c \<noteq> []" using gap c(2) by (auto simp: load_of_length)
  then have drained: "fst (drain_node [] ?out r (shards_of shards c)) \<noteq> []" for r by (rule drain_node_nonempty)
  have "drain_loop threshold ?low [] ?out (maxMoves - int (length ?out)) (rev ?l) \<noteq> []"
  proof (cases "maxMoves - int (length ?out) \<le> 0")
    case True
    then have "?out \<noteq> []" using assms(2) by auto
    then show ?thesis using True rev c(2) by (simp add: rev)
  next
    case False
    obtain o' r' where d: "drain_node [] ?out (maxMoves - int (length ?out)) (shards_of shards c) = (o', r')" by fastforce
    then have "o' \<noteq> []" using drained by (metis fst_conv)
    moreover have "set o' \<subseteq> set (drain_loop threshold ?low [] o' r' (rev (butlast ?l)))" by (rule drain_loop_set(2))
    moreover have "\<not> int (load_of shards c) - ?low < threshold" using gap c(2) assms(1) by simp
    ultimately show ?thesis using False unfolding rev c(2) by (auto simp: d)
  qed
  then show ?thesis using gap assms(1,3) by (simp add: least_rebalance_def Let_def)
qed

theorem least_shard_never_settles_witness:
  "least_rebalance 1 3 uneven [shard_demo_node ''a'', shard_demo_node ''b''] [] = [0, 1] \<and>
   least_rebalance 1 3 uneven [shard_demo_node ''a'', shard_demo_node ''b''] [] \<noteq> []"
proof -
  have "load_of uneven (shard_demo_node ''a'') = 2" "load_of uneven (shard_demo_node ''b'') = 1"
    by (simp_all add: load_of_def uneven_def shard_demo_node_string jget_map_of)
  then have sum: "(\<Sum>c \<leftarrow> [shard_demo_node ''a'', shard_demo_node ''b'']. load_of uneven c) = 3" by simp
  have len: "length [shard_demo_node ''a'', shard_demo_node ''b''] = 2" by simp
  have "\<not> length [shard_demo_node ''a'', shard_demo_node ''b''] dvd (\<Sum>c \<leftarrow> [shard_demo_node ''a'', shard_demo_node ''b'']. load_of uneven c)"
    unfolding sum len by simp
  then have "least_rebalance 1 3 uneven [shard_demo_node ''a'', shard_demo_node ''b''] [] \<noteq> []"
    by (rule least_shard_never_settles [rotated 3]) simp_all
  moreover have "least_rebalance 1 3 uneven [shard_demo_node ''a'', shard_demo_node ''b''] [] = [0, 1]"
    by (simp add: least_rebalance_def shardsOffNonCandidates_def loads_of_def load_of_def shards_of_def uneven_def shard_demo_node_string jget_map_of
        jkeys_def sort_by_def sadd_def)
  ultimately show ?thesis by simp
qed

end
