(* ===== verification/Shard_Coordinator.thy ===== *)
theory Shard_Coordinator
  imports Shard_Allocation
begin

text \<open>
  The shard coordinator of \<^verbatim>\<open>src/src/cluster/sharding/ShardCoordinator.ts\<close>: which region hosts which shard of an
  entity type, the hand-off of shards between regions, remembered entities, statistics, the snapshot of its state
  and the lease that makes it active. Its handlers run to completion, so one event is one step.

  What the coordinator sees of the cluster at an event (\<open>cluster_view\<close>), the answers of the lease, the loads of its
  snapshot and the firing of its timers are part of the event. Warnings and log output are left out. A strategy is any
  function that answers for a non-empty list of candidates, possibly with an address outside of the list. A message
  carries addresses that \<^verbatim>\<open>NodeAddress.fromJSON\<close> accepts and integers as shard ids, except for the claim of a
  registration, which may hold anything.
\<close>

section \<open>State\<close>

record cluster_view =
  cv_isLeader :: bool
  cv_members :: "cmember list"
  cv_clock :: int
  cv_date :: int

record region_info =
  ri_node :: node_address
  ri_path :: string
  ri_proxy :: bool
  ri_shards :: "int jset"
  lastSeenAtMs :: int
  lastHeartbeatAtMs :: "int option"
  seededFromSnapshot :: bool

record stats_query =
  sq_requester :: string
  sq_requesterNode :: node_address
  sq_correlationId :: int
  sq_awaiting :: "string jset"
  sq_entityCounts :: "(int, int) jmap"
  sq_residents :: "int jset"

datatype remember_event = Started int string | Stopped int string

datatype lease_state = Lease_None | Lease_Acquiring | Lease_Held

datatype lease_call = Lease_Acquire | Lease_Release

record snapshot_region =
  sr_key :: string
  sr_node :: node_address
  sr_path :: string
  sr_proxy :: bool
  sr_shards :: "int list"

record coordinator_state_data =
  sd_regions :: "snapshot_region list"
  sd_shardHome :: "(int \<times> string) list"
  sd_numShards :: "int option"

datatype sharding_message =
  Register string node_address bool json int
| GetShardHome int string node_address
| HandOffComplete int string node_address
| BeginHandOffAcknowledgment int
| RegionTerminated string node_address
| RegionHeartbeat string node_address
| EntityStarted int string
| EntityStopped int string
| GetRememberedEntities int
| GetClusterShardingStats int string node_address
| ShardRegionStats nat string node_address "(int \<times> int \<times> bool) list"
| OtherSharding

datatype region_message =
  RegisterAcknowledgment
| RegisterRefused int int
| RegistrationRequest
| ShardHome int string node_address
| HandOff int
| RegionEvicted int
| RememberedEntities int "string list"
| GetShardRegionStats nat
| ClusterShardingStats int "(int \<times> node_address \<times> string \<times> int \<times> bool) list"
| ShardMapUpdate nat "(int \<times> string) list" "(string \<times> string \<times> string \<times> bool \<times> nat) list"

text \<open>\<open>relativeShards\<close> is the product of the relative limit and the number of shards, as computed.\<close>

record coordinator_options =
  numShards :: int
  co_role :: "string option"
  pick_node :: "int \<Rightarrow> node_address list \<Rightarrow> shard_map \<Rightarrow> node_address"
  propose :: "shard_map \<Rightarrow> node_address list \<Rightarrow> int jset \<Rightarrow> int jset"
  rememberEntities :: bool
  rememberStore :: bool
  hasLease :: bool
  stateStore :: bool
  staleRegionDetection :: bool
  regionStaleAfterMs :: int
  rebalanceAbsoluteLimit :: int
  relativeShards :: rat
  membershipSettleWindowMs :: int

record coordinator =
  regions :: "(string, region_info) jmap"
  shardHome :: "(int, string) jmap"
  sc_pending :: "(int, (string \<times> node_address) list) jmap"
  rebalanceInProgress :: "(int, string) jmap"
  entitiesPerShard :: "(int, string jset) jmap"
  statsQueries :: "(nat, stats_query) jmap"
  nextStatsQuery :: nat
  refusedRegions :: "string jset"
  leaseState :: lease_state
  acquireBuffer :: "sharding_message list"
  acquireRetryTimer :: bool
  eligibleSetRecord :: "(string list \<times> int) option"
  stateInFlight :: bool
  stateDirty :: bool
  shardMapVersion :: nat
  shardMapPublishTimer :: bool
  sc_sent :: "(node_address \<times> string \<times> region_message) list"
  sc_saved :: "coordinator_state_data list"
  sc_remembered :: "remember_event list"
  sc_lease :: "lease_call list"

definition new_coordinator :: coordinator where
  "new_coordinator =
     \<lparr>regions = [], shardHome = [], sc_pending = [], rebalanceInProgress = [], entitiesPerShard = [], statsQueries = [], nextStatsQuery = 0,
      refusedRegions = [], leaseState = Lease_None, acquireBuffer = [], acquireRetryTimer = False, eligibleSetRecord = None,
      stateInFlight = False, stateDirty = False, shardMapVersion = 0, shardMapPublishTimer = False, sc_sent = [], sc_saved = [], sc_remembered = [],
      sc_lease = []\<rparr>"

section \<open>Regions and members\<close>

definition regionKey :: "node_address \<Rightarrow> string \<Rightarrow> string" where
  "regionKey node path = addr_toString node @ ''|'' @ path"

definition memberRecord :: "cluster_view \<Rightarrow> node_address \<Rightarrow> cmember option" where
  "memberRecord v node = find (\<lambda>m. addr_equals (m_address m) node) (cv_members v)"

definition isUpMember :: "cluster_view \<Rightarrow> node_address \<Rightarrow> bool" where
  "isUpMember v node = (case memberRecord v node of None \<Rightarrow> False | Some m \<Rightarrow> m_status m = Up)"

definition awaitsMembershipDecision :: "cluster_view \<Rightarrow> node_address \<Rightarrow> bool" where
  "awaitsMembershipDecision v node = (memberRecord v node \<noteq> None \<and> \<not> isUpMember v node)"

definition replyTo :: "string \<Rightarrow> node_address \<Rightarrow> region_message \<Rightarrow> coordinator \<Rightarrow> coordinator" where
  "replyTo path node m s = s\<lparr>sc_sent := sc_sent s @ [(node, path, m)]\<rparr>"

definition sendToRegion :: "string \<Rightarrow> region_message \<Rightarrow> coordinator \<Rightarrow> coordinator" where
  "sendToRegion key m s = (case jget (regions s) key of None \<Rightarrow> s | Some info \<Rightarrow> replyTo (ri_path info) (ri_node info) m s)"

text \<open>An empty role is no role.\<close>

definition role_ok :: "coordinator_options \<Rightarrow> cluster_view \<Rightarrow> node_address \<Rightarrow> bool" where
  "role_ok opts v node =
     (case co_role opts of
        None \<Rightarrow> True
      | Some r \<Rightarrow> r = [] \<or> (case memberRecord v node of None \<Rightarrow> False | Some m \<Rightarrow> member_hasRole m r))"

type_synonym region_entry = "string \<times> region_info"

definition candidateRegions :: "coordinator_options \<Rightarrow> cluster_view \<Rightarrow> coordinator \<Rightarrow> region_entry list" where
  "candidateRegions opts v s =
     filter (\<lambda>(key, info). \<not> ri_proxy info \<and> key \<notin> set (refusedRegions s) \<and> role_ok opts v (ri_node info)) (regions s)"

definition eligibleOf :: "cluster_view \<Rightarrow> region_entry list \<Rightarrow> region_entry list" where
  "eligibleOf v cands = filter (\<lambda>(key, info). isUpMember v (ri_node info)) cands"

text \<open>The keys are compared as a JSON string, which is one to one on lists of strings.\<close>

definition observeEligibleSet :: "cluster_view \<Rightarrow> region_entry list \<Rightarrow> coordinator \<Rightarrow> coordinator" where
  "observeEligibleSet v cands s =
     (let keys = sort (map fst (eligibleOf v cands))
      in if map_option fst (eligibleSetRecord s) \<noteq> Some keys then s\<lparr>eligibleSetRecord := Some (keys, cv_clock v)\<rparr> else s)"

definition isEligibleSetSettled :: "coordinator_options \<Rightarrow> cluster_view \<Rightarrow> coordinator \<Rightarrow> bool" where
  "isEligibleSetSettled opts v s =
     (case eligibleSetRecord s of None \<Rightarrow> False | Some (keys, changedAt) \<Rightarrow> cv_clock v - changedAt \<ge> membershipSettleWindowMs opts)"

definition nodesOf :: "region_entry list \<Rightarrow> node_address list" where
  "nodesOf entries = map (\<lambda>(key, info). ri_node info) entries"

definition regionKeyOn :: "node_address \<Rightarrow> region_entry list \<Rightarrow> string option" where
  "regionKeyOn node entries = map_option fst (find (\<lambda>(key, info). addr_equals (ri_node info) node) entries)"

definition shardCountsOf :: "region_info list \<Rightarrow> shard_map" where
  "shardCountsOf infos =
     foldl (\<lambda>out info.
       if ri_proxy info then out
       else (let address = addr_toString (ri_node info);
                 existing = (case jget out address of None \<Rightarrow> [] | Some ids \<Rightarrow> ids)
             in jset out address (sadd_all existing (ri_shards info)))) [] infos"

definition currentShardCounts :: "coordinator \<Rightarrow> shard_map" where
  "currentShardCounts s = shardCountsOf (jvalues (regions s))"

definition shardCountsOnUpMembers :: "cluster_view \<Rightarrow> coordinator \<Rightarrow> shard_map" where
  "shardCountsOnUpMembers v s = shardCountsOf (filter (\<lambda>info. isUpMember v (ri_node info)) (jvalues (regions s)))"

section \<open>The snapshot and the published map\<close>

definition snapshotCoordinatorState :: "coordinator_options \<Rightarrow> coordinator \<Rightarrow> coordinator_state_data" where
  "snapshotCoordinatorState opts s =
     \<lparr>sd_regions = map (\<lambda>(key, info). \<lparr>sr_key = key, sr_node = ri_node info, sr_path = ri_path info, sr_proxy = ri_proxy info, sr_shards = ri_shards info\<rparr>) (regions s),
      sd_shardHome = shardHome s, sd_numShards = Some (numShards opts)\<rparr>"

definition scheduleCoordinatorStateSave :: "coordinator_options \<Rightarrow> cluster_view \<Rightarrow> coordinator \<Rightarrow> coordinator" where
  "scheduleCoordinatorStateSave opts v s =
     (if \<not> stateStore opts \<or> \<not> cv_isLeader v then s
      else if stateInFlight s then s\<lparr>stateDirty := True\<rparr>
      else s\<lparr>stateInFlight := True, sc_saved := sc_saved s @ [snapshotCoordinatorState opts s]\<rparr>)"

text \<open>The \<^verbatim>\<open>finally\<close> of a save.\<close>

definition onSaveSettled :: "coordinator_options \<Rightarrow> cluster_view \<Rightarrow> coordinator \<Rightarrow> coordinator" where
  "onSaveSettled opts v s =
     (if \<not> stateInFlight s then s
      else if stateDirty s then scheduleCoordinatorStateSave opts v (s\<lparr>stateInFlight := False, stateDirty := False\<rparr>)
      else s\<lparr>stateInFlight := False\<rparr>)"

definition scheduleShardMapPublish :: "coordinator \<Rightarrow> coordinator" where
  "scheduleShardMapPublish s = s\<lparr>shardMapPublishTimer := True\<rparr>"

definition afterShardMapChange :: "coordinator_options \<Rightarrow> cluster_view \<Rightarrow> coordinator \<Rightarrow> coordinator" where
  "afterShardMapChange opts v s = scheduleShardMapPublish (scheduleCoordinatorStateSave opts v s)"

definition isActive :: "coordinator_options \<Rightarrow> cluster_view \<Rightarrow> coordinator \<Rightarrow> bool" where
  "isActive opts v s = (cv_isLeader v \<and> (\<not> hasLease opts \<or> leaseState s = Lease_Held))"

definition publishShardMap :: "coordinator_options \<Rightarrow> cluster_view \<Rightarrow> coordinator \<Rightarrow> coordinator" where
  "publishShardMap opts v s =
     (if \<not> isActive opts v s then s
      else
        (let version = shardMapVersion s + 1;
             update = ShardMapUpdate version (shardHome s)
               (map (\<lambda>(key, info). (key, addr_toString (ri_node info), ri_path info, ri_proxy info, length (ri_shards info))) (regions s))
         in foldl (\<lambda>s key. sendToRegion key update s) (s\<lparr>shardMapVersion := version\<rparr>) (jkeys (regions s))))"

section \<open>Allocation\<close>

definition flushPending :: "int \<Rightarrow> coordinator \<Rightarrow> coordinator" where
  "flushPending shardId s =
     (case jget (sc_pending s) shardId of
        None \<Rightarrow> s
      | Some waiting \<Rightarrow>
          if waiting = [] then s
          else (case jget (shardHome s) shardId of
                  None \<Rightarrow> s
                | Some home \<Rightarrow>
                    (case jget (regions s) home of
                       None \<Rightarrow> s
                     | Some info \<Rightarrow>
                         (foldl (\<lambda>s (path, node). replyTo path node (ShardHome shardId (ri_path info) (ri_node info)) s) s waiting)
                           \<lparr>sc_pending := jdelete (sc_pending s) shardId\<rparr>)))"

definition shipRememberedEntities :: "int \<Rightarrow> coordinator \<Rightarrow> coordinator" where
  "shipRememberedEntities shardId s =
     (case jget (entitiesPerShard s) shardId of
        None \<Rightarrow> s
      | Some entities \<Rightarrow>
          if entities = [] then s
          else (case jget (shardHome s) shardId of None \<Rightarrow> s | Some home \<Rightarrow> sendToRegion home (RememberedEntities shardId entities) s))"

definition placementFor ::
  "coordinator_options \<Rightarrow> cluster_view \<Rightarrow> int \<Rightarrow> region_entry list \<Rightarrow> region_entry list \<Rightarrow> coordinator \<Rightarrow> string option" where
  "placementFor opts v shardId cands eligible s =
     (let kept = (if isEligibleSetSettled opts v s then None
                  else regionKeyOn (pick_node opts shardId (nodesOf cands) (currentShardCounts s)) eligible)
      in case kept of
           Some key \<Rightarrow> Some key
         | None \<Rightarrow> regionKeyOn (pick_node opts shardId (nodesOf eligible) (shardCountsOf (map snd eligible))) eligible)"

definition place :: "coordinator_options \<Rightarrow> cluster_view \<Rightarrow> int \<Rightarrow> string \<Rightarrow> coordinator \<Rightarrow> coordinator" where
  "place opts v shardId key s =
     (case jget (regions s) key of
        None \<Rightarrow> s
      | Some info \<Rightarrow>
          (let s1 = s\<lparr>shardHome := jset (shardHome s) shardId key,
                      regions := jset (regions s) key (info\<lparr>ri_shards := sadd (ri_shards info) shardId\<rparr>)\<rparr>;
               s2 = flushPending shardId (sendToRegion key (ShardHome shardId (ri_path info) (ri_node info)) s1);
               s3 = (if rememberEntities opts then shipRememberedEntities shardId s2 else s2)
           in afterShardMapChange opts v s3))"

definition tryAllocate :: "coordinator_options \<Rightarrow> cluster_view \<Rightarrow> int \<Rightarrow> coordinator \<Rightarrow> coordinator" where
  "tryAllocate opts v shardId s =
     (let cands = candidateRegions opts v s;
          eligible = eligibleOf v cands;
          s1 = observeEligibleSet v cands s
      in if cands = [] then s1
         else if eligible = [] then s1
         else (case placementFor opts v shardId cands eligible s1 of None \<Rightarrow> s1 | Some key \<Rightarrow> place opts v shardId key s1))"

definition isShardIdInRange :: "coordinator_options \<Rightarrow> int \<Rightarrow> bool" where
  "isShardIdInRange opts shardId = (0 \<le> shardId \<and> shardId < numShards opts)"

definition markRegionSeen :: "cluster_view \<Rightarrow> string \<Rightarrow> node_address \<Rightarrow> coordinator \<Rightarrow> coordinator" where
  "markRegionSeen v path node s =
     (case jget (regions s) (regionKey node path) of
        None \<Rightarrow> s
      | Some info \<Rightarrow> s\<lparr>regions := jset (regions s) (regionKey node path) (info\<lparr>lastSeenAtMs := cv_date v\<rparr>)\<rparr>)"

definition onGetShardHome :: "coordinator_options \<Rightarrow> cluster_view \<Rightarrow> int \<Rightarrow> string \<Rightarrow> node_address \<Rightarrow> coordinator \<Rightarrow> coordinator" where
  "onGetShardHome opts v shardId requester node s0 =
     (let s = markRegionSeen v requester node s0 in
      if \<not> isShardIdInRange opts shardId then s
      else if regionKey node requester \<in> set (refusedRegions s) then s
      else
        (let wait =
               (let waiting = (case jget (sc_pending s) shardId of None \<Rightarrow> [] | Some ws \<Rightarrow> ws);
                    s1 = s\<lparr>sc_pending := jset (sc_pending s) shardId (waiting @ [(requester, node)])\<rparr>
                in if jhas (rebalanceInProgress s1) shardId then s1 else tryAllocate opts v shardId s1)
         in case jget (shardHome s) shardId of
              None \<Rightarrow> wait
            | Some home \<Rightarrow>
                (case jget (regions s) home of
                   None \<Rightarrow> wait
                 | Some info \<Rightarrow> replyTo requester node (ShardHome shardId (ri_path info) (ri_node info)) s)))"

section \<open>Registration\<close>

definition requestRegistration :: "string \<Rightarrow> node_address \<Rightarrow> coordinator \<Rightarrow> coordinator" where
  "requestRegistration path node s = replyTo path node RegistrationRequest s"

definition onRequestRegistrations :: "cluster_view \<Rightarrow> (string \<times> node_address) list \<Rightarrow> coordinator \<Rightarrow> coordinator" where
  "onRequestRegistrations v addresses s =
     (if \<not> cv_isLeader v then s
      else foldl (\<lambda>s (path, node).
             if map_option seededFromSnapshot (jget (regions s) (regionKey node path)) = Some False then s
             else requestRegistration path node s) s addresses)"

definition isAgreedNumShards :: "coordinator_options \<Rightarrow> string \<Rightarrow> node_address \<Rightarrow> int \<Rightarrow> coordinator \<Rightarrow> bool \<times> coordinator" where
  "isAgreedNumShards opts region node n s =
     (let key = regionKey node region in
      if n = numShards opts then (True, s\<lparr>refusedRegions := sdel (refusedRegions s) key\<rparr>)
      else (False, replyTo region node (RegisterRefused (numShards opts) n) (s\<lparr>refusedRegions := sadd (refusedRegions s) key\<rparr>)))"

text \<open>\<^verbatim>\<open>Number.isInteger\<close> and the range, on any value.\<close>

definition claimed_id :: "coordinator_options \<Rightarrow> json \<Rightarrow> int option" where
  "claimed_id opts x =
     (case x of
        JNum (Fin q) \<Rightarrow> if q = of_int \<lfloor>q\<rfloor> \<and> isShardIdInRange opts \<lfloor>q\<rfloor> then Some \<lfloor>q\<rfloor> else None
      | _ \<Rightarrow> None)"

fun accept_loop :: "coordinator_options \<Rightarrow> int jset \<Rightarrow> json list \<Rightarrow> int jset" where
  "accept_loop opts accepted [] = accepted"
| "accept_loop opts accepted (x # xs) =
     (if int (length accepted) \<ge> numShards opts then accepted
      else accept_loop opts (case claimed_id opts x of None \<Rightarrow> accepted | Some shardId \<Rightarrow> sadd accepted shardId) xs)"

definition acceptedHostedShards :: "coordinator_options \<Rightarrow> json \<Rightarrow> int jset" where
  "acceptedHostedShards opts hosted = accept_loop opts [] (case hosted of JArr xs \<Rightarrow> xs | _ \<Rightarrow> [])"

definition adoptable :: "string \<Rightarrow> coordinator \<Rightarrow> int \<Rightarrow> bool" where
  "adoptable key s shardId =
     (case jget (shardHome s) shardId of None \<Rightarrow> True | Some home \<Rightarrow> home = key \<or> \<not> jhas (regions s) home)"

text \<open>Adopted, conflicting and owned shards.\<close>

definition adjudicateClaim :: "string \<Rightarrow> int jset \<Rightarrow> coordinator \<Rightarrow> int jset \<times> int jset \<times> int jset" where
  "adjudicateClaim key claimed s =
     (let adopted = filter (adoptable key s) claimed;
          conflicting = filter (\<lambda>shardId. \<not> adoptable key s shardId) claimed
      in (adopted, conflicting, sadd_all adopted (map fst (filter (\<lambda>(shardId, home). home = key) (shardHome s)))))"

definition drop_shard :: "string \<Rightarrow> int \<Rightarrow> coordinator \<Rightarrow> coordinator" where
  "drop_shard key shardId s =
     (case jget (regions s) key of
        None \<Rightarrow> s
      | Some info \<Rightarrow> s\<lparr>regions := jset (regions s) key (info\<lparr>ri_shards := sdel (ri_shards info) shardId\<rparr>)\<rparr>)"

definition adopt :: "string \<Rightarrow> int \<Rightarrow> coordinator \<Rightarrow> coordinator" where
  "adopt key shardId s =
     (let s1 = (case jget (shardHome s) shardId of
                  None \<Rightarrow> s
                | Some previous \<Rightarrow> if previous \<noteq> key then drop_shard previous shardId s else s)
      in s1\<lparr>shardHome := jset (shardHome s1) shardId key\<rparr>)"

definition releaseConflictingShards :: "string \<Rightarrow> int jset \<Rightarrow> coordinator \<Rightarrow> coordinator" where
  "releaseConflictingShards key conflicting s =
     foldl (\<lambda>s shardId. if jhas (rebalanceInProgress s) shardId then s else sendToRegion key (HandOff shardId) s) s conflicting"

definition onRegister ::
  "coordinator_options \<Rightarrow> cluster_view \<Rightarrow> string \<Rightarrow> node_address \<Rightarrow> bool \<Rightarrow> json \<Rightarrow> int \<Rightarrow> coordinator \<Rightarrow> coordinator" where
  "onRegister opts v region node proxy hosted n s0 =
     (case isAgreedNumShards opts region node n s0 of
        (False, s) \<Rightarrow> s
      | (True, s) \<Rightarrow>
          (let key = regionKey node region;
               (adopted, conflicting, owned) = adjudicateClaim key (acceptedHostedShards opts hosted) s;
               info = \<lparr>ri_node = node, ri_path = region, ri_proxy = proxy, ri_shards = owned, lastSeenAtMs = cv_date v,
                       lastHeartbeatAtMs = (case jget (regions s) key of None \<Rightarrow> None | Some old \<Rightarrow> lastHeartbeatAtMs old),
                       seededFromSnapshot = False\<rparr>;
               s1 = foldl (\<lambda>s shardId. adopt key shardId s) (s\<lparr>regions := jset (regions s) key info\<rparr>) adopted;
               s2 = releaseConflictingShards key conflicting (replyTo region node RegisterAcknowledgment s1);
               s3 = foldl (\<lambda>s shardId. flushPending shardId s) s2 adopted;
               s4 = (if rememberEntities opts then foldl (\<lambda>s shardId. shipRememberedEntities shardId s) s3 adopted else s3)
           in afterShardMapChange opts v s4))"

definition onRegionHeartbeat :: "cluster_view \<Rightarrow> string \<Rightarrow> node_address \<Rightarrow> coordinator \<Rightarrow> coordinator" where
  "onRegionHeartbeat v region node s =
     (let key = regionKey node region in
      case jget (regions s) key of
        None \<Rightarrow> if key \<in> set (refusedRegions s) then s else requestRegistration region node s
      | Some info \<Rightarrow> s\<lparr>regions := jset (regions s) key (info\<lparr>lastSeenAtMs := cv_date v, lastHeartbeatAtMs := Some (cv_date v)\<rparr>)\<rparr>)"

section \<open>Regions that end\<close>

text \<open>One shard of a region that is gone.\<close>

definition rehome :: "coordinator_options \<Rightarrow> cluster_view \<Rightarrow> int \<Rightarrow> coordinator \<Rightarrow> coordinator" where
  "rehome opts v shardId s =
     tryAllocate opts v shardId (s\<lparr>shardHome := jdelete (shardHome s) shardId, rebalanceInProgress := jdelete (rebalanceInProgress s) shardId\<rparr>)"

definition onRegionTerminated :: "coordinator_options \<Rightarrow> cluster_view \<Rightarrow> string \<Rightarrow> node_address \<Rightarrow> coordinator \<Rightarrow> coordinator" where
  "onRegionTerminated opts v region node s =
     (let key = regionKey node region in
      case jget (regions s) key of
        None \<Rightarrow> s
      | Some info \<Rightarrow>
          afterShardMapChange opts v (foldl (\<lambda>s shardId. rehome opts v shardId s) (s\<lparr>regions := jdelete (regions s) key\<rparr>) (ri_shards info)))"

definition onMemberRemoved :: "coordinator_options \<Rightarrow> cluster_view \<Rightarrow> node_address \<Rightarrow> coordinator \<Rightarrow> coordinator" where
  "onMemberRemoved opts v addr s =
     foldl (\<lambda>s (key, info). if addr_equals (ri_node info) addr then onRegionTerminated opts v (ri_path info) addr s else s) s (regions s)"

definition onLeaderChanged :: "cluster_view \<Rightarrow> coordinator \<Rightarrow> coordinator" where
  "onLeaderChanged v s =
     (if cv_isLeader v then s
      else s\<lparr>regions := [], shardHome := [], sc_pending := [], refusedRegions := [], eligibleSetRecord := None, acquireBuffer := [],
             rebalanceInProgress := [], statsQueries := []\<rparr>)"

section \<open>Hand-off and rebalancing\<close>

definition releaseFromPreviousOwner :: "int \<Rightarrow> string \<Rightarrow> coordinator \<Rightarrow> coordinator" where
  "releaseFromPreviousOwner shardId key s = (let s1 = drop_shard key shardId s in s1\<lparr>shardHome := jdelete (shardHome s1) shardId\<rparr>)"

text \<open>The common end of a completed and of a timed-out hand-off.\<close>

definition end_handOff :: "coordinator_options \<Rightarrow> cluster_view \<Rightarrow> int \<Rightarrow> string \<Rightarrow> coordinator \<Rightarrow> coordinator" where
  "end_handOff opts v shardId from s =
     tryAllocate opts v shardId (releaseFromPreviousOwner shardId from (s\<lparr>rebalanceInProgress := jdelete (rebalanceInProgress s) shardId\<rparr>))"

definition onHandOffComplete :: "coordinator_options \<Rightarrow> cluster_view \<Rightarrow> int \<Rightarrow> string \<Rightarrow> node_address \<Rightarrow> coordinator \<Rightarrow> coordinator" where
  "onHandOffComplete opts v shardId region node s0 =
     (let s = markRegionSeen v region node s0 in
      case jget (rebalanceInProgress s) shardId of
        None \<Rightarrow> s
      | Some from \<Rightarrow> if from \<noteq> regionKey node region then s else end_handOff opts v shardId from s)"

definition onHandOffTimeout :: "coordinator_options \<Rightarrow> cluster_view \<Rightarrow> int \<Rightarrow> coordinator \<Rightarrow> coordinator" where
  "onHandOffTimeout opts v shardId s =
     (case jget (rebalanceInProgress s) shardId of None \<Rightarrow> s | Some from \<Rightarrow> end_handOff opts v shardId from s)"

definition beginHandOff :: "int \<Rightarrow> coordinator \<Rightarrow> coordinator" where
  "beginHandOff shardId s =
     (case jget (shardHome s) shardId of
        None \<Rightarrow> s
      | Some owner \<Rightarrow>
          if \<not> jhas (regions s) owner then s
          else sendToRegion owner (HandOff shardId) (s\<lparr>rebalanceInProgress := jset (rebalanceInProgress s) shardId owner\<rparr>))"

definition ownedByUpMembers :: "cluster_view \<Rightarrow> coordinator \<Rightarrow> int jset \<Rightarrow> int jset" where
  "ownedByUpMembers v s proposed =
     filter (\<lambda>shardId. case jget (shardHome s) shardId of
         None \<Rightarrow> False
       | Some key \<Rightarrow> (case jget (regions s) key of None \<Rightarrow> False | Some info \<Rightarrow> isUpMember v (ri_node info))) (sof proposed)"

text \<open>\<open>None\<close> is no limit.\<close>

definition rebalanceCeiling :: "coordinator_options \<Rightarrow> int option" where
  "rebalanceCeiling opts =
     (let fromAbsolute = (if rebalanceAbsoluteLimit opts > 0 then Some (rebalanceAbsoluteLimit opts) else None);
          fromRelative = (if relativeShards opts > 0 then Some \<lfloor>relativeShards opts\<rfloor> else None)
      in case (fromAbsolute, fromRelative) of
           (None, None) \<Rightarrow> None
         | (Some a, None) \<Rightarrow> Some (max 1 a)
         | (None, Some r) \<Rightarrow> Some (max 1 r)
         | (Some a, Some r) \<Rightarrow> Some (max 1 (min a r)))"

definition under_budget :: "nat \<Rightarrow> int option \<Rightarrow> bool" where
  "under_budget n budget = (case budget of None \<Rightarrow> True | Some b \<Rightarrow> int n < b)"

fun pick_round :: "int option \<Rightarrow> nat \<Rightarrow> int list \<Rightarrow> bool \<Rightarrow> int list list \<Rightarrow> int list \<times> bool" where
  "pick_round budget round_no picked progressed [] = (picked, progressed)"
| "pick_round budget round_no picked progressed (queue # queues) =
     (if round_no \<ge> length queue then pick_round budget round_no picked progressed queues
      else (let picked' = picked @ [queue ! round_no]
            in if \<not> under_budget (length picked') budget then (picked', True) else pick_round budget round_no picked' True queues))"

lemma pick_round_stops: "(\<forall>q \<in> set queues. length q \<le> r) \<Longrightarrow> pick_round budget r picked progressed queues = (picked, progressed)"
  by (induction queues) auto

lemma pick_round_progress:
  assumes "pick_round budget r picked False queues = (picked', True)"
  shows "Max (insert 0 (length ` set queues)) - Suc r < Max (insert 0 (length ` set queues)) - r"
proof -
  have "\<exists>q \<in> set queues. r < length q"
  proof (rule ccontr)
    assume "\<not> ?thesis"
    then have "pick_round budget r picked False queues = (picked, False)" by (intro pick_round_stops) auto
    then show False using assms by simp
  qed
  then have "r < Max (insert 0 (length ` set queues))" by (auto simp: Max_gr_iff)
  then show ?thesis by simp
qed

function pick_rounds :: "int option \<Rightarrow> nat \<Rightarrow> int list \<Rightarrow> int list list \<Rightarrow> int list" where
  "pick_rounds budget round_no picked queues =
     (if \<not> under_budget (length picked) budget then picked
      else (case pick_round budget round_no picked False queues of
              (picked', progressed) \<Rightarrow> if \<not> progressed then picked' else pick_rounds budget (round_no + 1) picked' queues))"
  by pat_completeness auto
termination
proof (relation "measure (\<lambda>(budget, r, picked, queues). Max (insert 0 (length ` set queues)) - r)", goal_cases)
  case 1
  show ?case by simp
next
  case (2 budget r picked queues picked' progressed)
  then have "pick_round budget r picked False queues = (picked', True)" by auto
  from pick_round_progress [OF this] show ?case by simp
qed

declare pick_rounds.simps [simp del]

text \<open>The shards by owner, in the order of the owners' keys and of the ids.\<close>

definition by_owner :: "coordinator \<Rightarrow> int jset \<Rightarrow> (string, int list) jmap" where
  "by_owner s shardIds =
     foldl (\<lambda>m shardId. case jget (shardHome s) shardId of
         None \<Rightarrow> m
       | Some key \<Rightarrow> jset m key ((case jget m key of None \<Rightarrow> [] | Some ids \<Rightarrow> ids) @ [shardId])) [] shardIds"

definition shardsWithinBudget :: "coordinator \<Rightarrow> int jset \<Rightarrow> int option \<Rightarrow> int list" where
  "shardsWithinBudget s shardIds budget =
     pick_rounds budget 0 [] (map (\<lambda>key. sort (the (jget (by_owner s shardIds) key))) (sort (jkeys (by_owner s shardIds))))"

text \<open>The regions are those of the start of the sweep; a region that is waited for is marked as seen where it still is.\<close>

definition sweep_one :: "coordinator_options \<Rightarrow> cluster_view \<Rightarrow> region_entry \<Rightarrow> coordinator \<Rightarrow> coordinator" where
  "sweep_one opts v entry s =
     (let (key, info) = entry in
      if awaitsMembershipDecision v (ri_node info) then
        (case jget (regions s) key of
           None \<Rightarrow> s
         | Some current \<Rightarrow> s\<lparr>regions := jset (regions s) key (current\<lparr>lastSeenAtMs := cv_date v\<rparr>)\<rparr>)
      else if lastHeartbeatAtMs info = None \<and> \<not> seededFromSnapshot info then s
      else if cv_date v - lastSeenAtMs info < regionStaleAfterMs opts then s
      else replyTo (ri_path info) (ri_node info) (RegionEvicted (cv_date v - lastSeenAtMs info))
             (onRegionTerminated opts v (ri_path info) (ri_node info) s))"

definition sweepStaleRegions :: "coordinator_options \<Rightarrow> cluster_view \<Rightarrow> coordinator \<Rightarrow> coordinator" where
  "sweepStaleRegions opts v s = (if staleRegionDetection opts then foldl (\<lambda>s entry. sweep_one opts v entry s) s (regions s) else s)"

definition rebalanceTick :: "coordinator_options \<Rightarrow> cluster_view \<Rightarrow> coordinator \<Rightarrow> coordinator" where
  "rebalanceTick opts v s0 =
     (let s1 = sweepStaleRegions opts v s0;
          cands = candidateRegions opts v s1;
          eligible = eligibleOf v cands;
          s = observeEligibleSet v cands s1
      in if \<not> isEligibleSetSettled opts v s then s
         else
           (let proposed = propose opts (shardCountsOnUpMembers v s) (nodesOf eligible) (jkeys (rebalanceInProgress s));
                budget = map_option (\<lambda>c. c - int (length (rebalanceInProgress s))) (rebalanceCeiling opts)
            in if (case budget of None \<Rightarrow> False | Some b \<Rightarrow> b \<le> 0) then s
               else foldl (\<lambda>s shardId. beginHandOff shardId s) s (shardsWithinBudget s (ownedByUpMembers v s proposed) budget)))"

section \<open>Remembered entities and statistics\<close>

definition applyRememberEvent :: "remember_event \<Rightarrow> coordinator \<Rightarrow> coordinator" where
  "applyRememberEvent ev s =
     (case ev of
        Started shardId entity \<Rightarrow>
          s\<lparr>entitiesPerShard := jset (entitiesPerShard s) shardId
             (sadd (case jget (entitiesPerShard s) shardId of None \<Rightarrow> [] | Some es \<Rightarrow> es) entity)\<rparr>
      | Stopped shardId entity \<Rightarrow>
          (case jget (entitiesPerShard s) shardId of
             None \<Rightarrow> s
           | Some es \<Rightarrow>
               if sdel es entity = [] then s\<lparr>entitiesPerShard := jdelete (entitiesPerShard s) shardId\<rparr>
               else s\<lparr>entitiesPerShard := jset (entitiesPerShard s) shardId (sdel es entity)\<rparr>))"

definition persistRememberEvent :: "coordinator_options \<Rightarrow> remember_event \<Rightarrow> coordinator \<Rightarrow> coordinator" where
  "persistRememberEvent opts ev s = (if rememberStore opts then s\<lparr>sc_remembered := sc_remembered s @ [ev]\<rparr> else s)"

definition onEntityStarted :: "coordinator_options \<Rightarrow> int \<Rightarrow> string \<Rightarrow> coordinator \<Rightarrow> coordinator" where
  "onEntityStarted opts shardId entity s =
     (if \<not> rememberEntities opts then s
      else persistRememberEvent opts (Started shardId entity) (applyRememberEvent (Started shardId entity) s))"

definition onEntityStopped :: "coordinator_options \<Rightarrow> int \<Rightarrow> string \<Rightarrow> coordinator \<Rightarrow> coordinator" where
  "onEntityStopped opts shardId entity s =
     (if \<not> rememberEntities opts then applyRememberEvent (Stopped shardId entity) s
      else if jhas (rebalanceInProgress s) shardId then s
      else persistRememberEvent opts (Stopped shardId entity) (applyRememberEvent (Stopped shardId entity) s))"

definition answerStatsQuery :: "stats_query \<Rightarrow> coordinator \<Rightarrow> coordinator" where
  "answerStatsQuery q s =
     (let located = List.map_filter (\<lambda>(shardId, key).
            map_option (\<lambda>info. (shardId, ri_node info, ri_path info,
                (case jget (sq_entityCounts q) shardId of None \<Rightarrow> 0 | Some n \<Rightarrow> n), shardId \<in> set (sq_residents q))) (jget (regions s) key)) (shardHome s)
      in replyTo (sq_requester q) (sq_requesterNode q) (ClusterShardingStats (sq_correlationId q) (sort_key fst located)) s)"

definition onGetClusterShardingStats :: "int \<Rightarrow> string \<Rightarrow> node_address \<Rightarrow> coordinator \<Rightarrow> coordinator" where
  "onGetClusterShardingStats correlationId requester node s =
     (let targets = map fst (filter (\<lambda>(key, info). \<not> ri_proxy info) (regions s));
          q = \<lparr>sq_requester = requester, sq_requesterNode = node, sq_correlationId = correlationId, sq_awaiting = sof targets,
               sq_entityCounts = [], sq_residents = []\<rparr>
      in if sq_awaiting q = [] then answerStatsQuery q s
         else
           (let queryId = nextStatsQuery s + 1
            in foldl (\<lambda>s key. sendToRegion key (GetShardRegionStats queryId) s)
                 (s\<lparr>nextStatsQuery := queryId, statsQueries := jset (statsQueries s) queryId q\<rparr>) targets))"

definition count_entities :: "stats_query \<Rightarrow> (int \<times> int \<times> bool) list \<Rightarrow> stats_query" where
  "count_entities q entries =
     foldl (\<lambda>q (shardId, n, resident).
       q\<lparr>sq_entityCounts := jset (sq_entityCounts q) shardId ((case jget (sq_entityCounts q) shardId of None \<Rightarrow> 0 | Some k \<Rightarrow> k) + n),
         sq_residents := (if resident then sadd (sq_residents q) shardId else sq_residents q)\<rparr>) q entries"

definition onShardRegionStats :: "cluster_view \<Rightarrow> nat \<Rightarrow> string \<Rightarrow> node_address \<Rightarrow> (int \<times> int \<times> bool) list \<Rightarrow> coordinator \<Rightarrow> coordinator" where
  "onShardRegionStats v queryId region node entries s0 =
     (let s = markRegionSeen v region node s0; key = regionKey node region in
      case jget (statsQueries s) queryId of
        None \<Rightarrow> s
      | Some q \<Rightarrow>
          if key \<notin> set (sq_awaiting q) then s
          else
            (let q' = count_entities (q\<lparr>sq_awaiting := sdel (sq_awaiting q) key\<rparr>) entries
             in if sq_awaiting q' \<noteq> [] then s\<lparr>statsQueries := jset (statsQueries s) queryId q'\<rparr>
                else answerStatsQuery q' (s\<lparr>statsQueries := jdelete (statsQueries s) queryId\<rparr>)))"

definition onStatsTimeout :: "nat \<Rightarrow> coordinator \<Rightarrow> coordinator" where
  "onStatsTimeout queryId s =
     (case jget (statsQueries s) queryId of
        None \<Rightarrow> s
      | Some q \<Rightarrow> answerStatsQuery q (s\<lparr>statsQueries := jdelete (statsQueries s) queryId\<rparr>))"

section \<open>Messages, the lease and the snapshot\<close>

definition claimedNode :: "sharding_message \<Rightarrow> node_address option" where
  "claimedNode m =
     (case m of
        Register region node proxy hosted n \<Rightarrow> Some node
      | RegionTerminated region node \<Rightarrow> Some node
      | RegionHeartbeat region node \<Rightarrow> Some node
      | HandOffComplete shardId region node \<Rightarrow> Some node
      | GetShardHome shardId requester node \<Rightarrow> Some node
      | GetClusterShardingStats correlationId requester node \<Rightarrow> Some node
      | ShardRegionStats queryId region node entries \<Rightarrow> Some node
      | _ \<Rightarrow> None)"

definition sc_maySpeakFor :: "sharding_message \<Rightarrow> node_address option \<Rightarrow> bool" where
  "sc_maySpeakFor m peer =
     (case peer of None \<Rightarrow> False | Some p \<Rightarrow> (case claimedNode m of None \<Rightarrow> True | Some node \<Rightarrow> addr_equals node p))"

definition dispatchShardingMessage :: "coordinator_options \<Rightarrow> cluster_view \<Rightarrow> sharding_message \<Rightarrow> coordinator \<Rightarrow> coordinator" where
  "dispatchShardingMessage opts v m s =
     (case m of
        Register region node proxy hosted n \<Rightarrow> onRegister opts v region node proxy hosted n s
      | GetShardHome shardId requester node \<Rightarrow> onGetShardHome opts v shardId requester node s
      | HandOffComplete shardId region node \<Rightarrow> onHandOffComplete opts v shardId region node s
      | BeginHandOffAcknowledgment shardId \<Rightarrow> s
      | RegionTerminated region node \<Rightarrow> onRegionTerminated opts v region node s
      | RegionHeartbeat region node \<Rightarrow> onRegionHeartbeat v region node s
      | EntityStarted shardId entity \<Rightarrow> onEntityStarted opts shardId entity s
      | EntityStopped shardId entity \<Rightarrow> onEntityStopped opts shardId entity s
      | GetRememberedEntities shardId \<Rightarrow> if rememberEntities opts then shipRememberedEntities shardId s else s
      | GetClusterShardingStats correlationId requester node \<Rightarrow> onGetClusterShardingStats correlationId requester node s
      | ShardRegionStats queryId region node entries \<Rightarrow> onShardRegionStats v queryId region node entries s
      | OtherSharding \<Rightarrow> s)"

definition ACQUIRE_BUFFER_CAP :: nat where "ACQUIRE_BUFFER_CAP = 1000"

definition receiveShardingMessage ::
  "coordinator_options \<Rightarrow> cluster_view \<Rightarrow> sharding_message \<Rightarrow> node_address option \<Rightarrow> coordinator \<Rightarrow> coordinator" where
  "receiveShardingMessage opts v m peer s =
     (if \<not> cv_isLeader v then s
      else if \<not> sc_maySpeakFor m peer then s
      else if hasLease opts \<and> leaseState s \<noteq> Lease_Held then
        (if length (acquireBuffer s) < ACQUIRE_BUFFER_CAP then s\<lparr>acquireBuffer := acquireBuffer s @ [m]\<rparr> else s)
      else dispatchShardingMessage opts v m s)"

definition reconcileLease :: "coordinator_options \<Rightarrow> cluster_view \<Rightarrow> coordinator \<Rightarrow> coordinator" where
  "reconcileLease opts v s =
     (if \<not> hasLease opts then s
      else if cv_isLeader v then
        (if leaseState s = Lease_None then s\<lparr>acquireRetryTimer := False, leaseState := Lease_Acquiring, sc_lease := sc_lease s @ [Lease_Acquire]\<rparr> else s)
      else
        (case leaseState s of
           Lease_Held \<Rightarrow> s\<lparr>leaseState := Lease_None, sc_lease := sc_lease s @ [Lease_Release]\<rparr>
         | Lease_Acquiring \<Rightarrow> s
         | Lease_None \<Rightarrow> s\<lparr>acquireRetryTimer := False\<rparr>))"

definition onLeaseAcquireResult :: "coordinator_options \<Rightarrow> cluster_view \<Rightarrow> bool \<Rightarrow> coordinator \<Rightarrow> coordinator" where
  "onLeaseAcquireResult opts v got s =
     (if leaseState s \<noteq> Lease_Acquiring then (if got then s\<lparr>sc_lease := sc_lease s @ [Lease_Release]\<rparr> else s)
      else if \<not> got then s\<lparr>leaseState := Lease_None, acquireRetryTimer := True\<rparr>
      else if \<not> cv_isLeader v then s\<lparr>leaseState := Lease_None, sc_lease := sc_lease s @ [Lease_Release]\<rparr>
      else foldl (\<lambda>s m. dispatchShardingMessage opts v m s) (s\<lparr>leaseState := Lease_Held, acquireBuffer := []\<rparr>) (acquireBuffer s))"

definition onLeaseLost :: "coordinator \<Rightarrow> coordinator" where
  "onLeaseLost s =
     (if leaseState s \<noteq> Lease_Held then s
      else s\<lparr>leaseState := Lease_None, rebalanceInProgress := [], sc_pending := [], acquireBuffer := []\<rparr>)"

definition seed_region :: "cluster_view \<Rightarrow> snapshot_region \<Rightarrow> coordinator \<Rightarrow> coordinator" where
  "seed_region v r s =
     s\<lparr>regions := jset (regions s) (sr_key r)
        \<lparr>ri_node = sr_node r, ri_path = sr_path r, ri_proxy = sr_proxy r, ri_shards = sof (sr_shards r), lastSeenAtMs = cv_date v,
         lastHeartbeatAtMs = None, seededFromSnapshot = True\<rparr>\<rparr>"

text \<open>Which region of a snapshot is taken over.\<close>

definition seedable :: "cluster_view \<Rightarrow> snapshot_region \<Rightarrow> coordinator \<Rightarrow> bool" where
  "seedable v r s =
     (addr_toString (sr_node r) \<in> (\<lambda>m. addr_toString (m_address m)) ` set (filter (\<lambda>m. m_status m = Up) (cv_members v)) \<and>
      sr_key r \<notin> set (refusedRegions s) \<and> \<not> jhas (regions s) (sr_key r))"

definition seed_regions :: "cluster_view \<Rightarrow> snapshot_region list \<Rightarrow> coordinator \<Rightarrow> coordinator \<times> snapshot_region list" where
  "seed_regions v rs s = foldl (\<lambda>(s, seeded) r. if seedable v r s then (seed_region v r s, seeded @ [r]) else (s, seeded)) (s, []) rs"

definition seed_homes :: "(int \<times> string) list \<Rightarrow> coordinator \<Rightarrow> coordinator" where
  "seed_homes homes s =
     foldl (\<lambda>s (shardId, key).
       if jhas (regions s) key \<and> \<not> jhas (shardHome s) shardId then s\<lparr>shardHome := jset (shardHome s) shardId key\<rparr> else s) s homes"

definition loadCoordinatorState :: "coordinator_options \<Rightarrow> cluster_view \<Rightarrow> coordinator_state_data option \<Rightarrow> coordinator \<Rightarrow> coordinator" where
  "loadCoordinatorState opts v loaded s =
     (case loaded of
        None \<Rightarrow> s
      | Some data \<Rightarrow>
          if sd_numShards data \<noteq> Some (numShards opts) then s
          else
            (let (s1, seeded) = seed_regions v (sd_regions data) s;
                 s2 = seed_homes (sd_shardHome data) s1
             in if \<not> cv_isLeader v then s2
                else foldl (\<lambda>s r. requestRegistration (sr_path r) (sr_node r) s) s2 seeded))"

section \<open>Histories\<close>

datatype coordinator_event =
  Receive sharding_message "node_address option"
| Reconcile
| LeaseAcquireResult bool
| LeaseLost
| AcquireRetry
| RequestRegistrations "(string \<times> node_address) list"
| RebalanceTimer
| HandOffTimer int
| StatsTimer nat
| PublishTimer
| SaveSettled
| StateLoaded "coordinator_state_data option"
| MemberRemoved node_address
| LeaderChanged

definition coordinator_step :: "coordinator_options \<Rightarrow> cluster_view \<Rightarrow> coordinator_event \<Rightarrow> coordinator \<Rightarrow> coordinator" where
  "coordinator_step opts v ev s =
     (case ev of
        Receive m peer \<Rightarrow> receiveShardingMessage opts v m peer s
      | Reconcile \<Rightarrow> reconcileLease opts v s
      | LeaseAcquireResult got \<Rightarrow> onLeaseAcquireResult opts v got s
      | LeaseLost \<Rightarrow> onLeaseLost s
      | AcquireRetry \<Rightarrow> if acquireRetryTimer s then reconcileLease opts v (s\<lparr>acquireRetryTimer := False\<rparr>) else s
      | RequestRegistrations addresses \<Rightarrow> onRequestRegistrations v addresses s
      | RebalanceTimer \<Rightarrow> if isActive opts v s then rebalanceTick opts v s else s
      | HandOffTimer shardId \<Rightarrow> onHandOffTimeout opts v shardId s
      | StatsTimer queryId \<Rightarrow> onStatsTimeout queryId s
      | PublishTimer \<Rightarrow> if shardMapPublishTimer s then publishShardMap opts v (s\<lparr>shardMapPublishTimer := False\<rparr>) else s
      | SaveSettled \<Rightarrow> onSaveSettled opts v s
      | StateLoaded loaded \<Rightarrow> loadCoordinatorState opts v loaded s
      | MemberRemoved addr \<Rightarrow> onMemberRemoved opts v addr s
      | LeaderChanged \<Rightarrow> onLeaderChanged v s)"

text \<open>A coordinator starts with the entities its store remembers.\<close>

definition coordinator_start :: "remember_event list \<Rightarrow> coordinator" where
  "coordinator_start remembered = foldl (\<lambda>s ev. applyRememberEvent ev s) new_coordinator remembered"

definition coordinator_history :: "coordinator_options \<Rightarrow> (cluster_view \<times> coordinator_event) list \<Rightarrow> coordinator \<Rightarrow> coordinator" where
  "coordinator_history opts events s = foldl (\<lambda>s (v, ev). coordinator_step opts v ev s) s events"

end
