(* ===== verification/Shard_Ownership.thy ===== *)
theory Shard_Ownership
  imports Shard_Coordinator
begin

text \<open>
  What the coordinator promises of its shard map: one owner per shard, hand-offs only from the owner, waiting requests
  only for shards without a home, and snapshots that are as consistent as the state they were taken from.
\<close>

section \<open>The invariant\<close>

text \<open>
  \<open>ownership numShards D s\<close>: the sets of the regions and the map of the homes agree, a home is a registered region, except
  for the shards \<open>D\<close> that a loop is about to place again, a hand-off in progress names the owner, and a shard that
  requests wait for has no home.
\<close>

definition region_agrees :: "(int, string) jmap \<Rightarrow> string \<Rightarrow> region_info \<Rightarrow> bool" where
  "region_agrees homes key info =
     (key = regionKey (ri_node info) (ri_path info) \<and> distinct (ri_shards info) \<and> (\<forall>shardId. shardId \<in> set (ri_shards info) \<longleftrightarrow> jget homes shardId = Some key))"

definition ownership :: "int \<Rightarrow> int set \<Rightarrow> coordinator \<Rightarrow> bool" where
  "ownership n D s =
     (jwf (regions s) \<and> jwf (shardHome s) \<and>
      (\<forall>key info. jget (regions s) key = Some info \<longrightarrow> region_agrees (shardHome s) key info) \<and>
      (\<forall>shardId key. jget (shardHome s) shardId = Some key \<longrightarrow> 0 \<le> shardId \<and> shardId < n \<and> (shardId \<in> D \<or> jget (regions s) key \<noteq> None)) \<and>
      (\<forall>shardId key. jget (rebalanceInProgress s) shardId = Some key \<longrightarrow> jget (shardHome s) shardId = Some key) \<and>
      (\<forall>shardId waiting. jget (sc_pending s) shardId = Some waiting \<longrightarrow> waiting \<noteq> [] \<longrightarrow> jget (shardHome s) shardId = None))"

definition consistent_snapshot :: "int \<Rightarrow> coordinator_state_data \<Rightarrow> bool" where
  "consistent_snapshot n data =
     (jwf (sd_shardHome data) \<and> distinct (map sr_key (sd_regions data)) \<and>
      (\<forall>r \<in> set (sd_regions data). sr_key r = regionKey (sr_node r) (sr_path r) \<and>
         (\<forall>shardId. shardId \<in> set (sr_shards r) \<longleftrightarrow> jget (sd_shardHome data) shardId = Some (sr_key r))) \<and>
      (\<forall>shardId key. jget (sd_shardHome data) shardId = Some key \<longrightarrow> 0 \<le> shardId \<and> shardId < n))"

definition coordinator_ok :: "int \<Rightarrow> int set \<Rightarrow> coordinator \<Rightarrow> bool" where
  "coordinator_ok n D s = (ownership n D s \<and> list_all (consistent_snapshot n) (sc_saved s))"

text \<open>A snapshot is loaded before anything registered, and it is one that a coordinator saved.\<close>

definition event_ok :: "coordinator_options \<Rightarrow> coordinator_event \<Rightarrow> coordinator \<Rightarrow> bool" where
  "event_ok opts ev s =
     (case ev of
        StateLoaded (Some data) \<Rightarrow>
          consistent_snapshot (numShards opts) data \<and> regions s = [] \<and> shardHome s = [] \<and> sc_pending s = [] \<and> rebalanceInProgress s = []
      | _ \<Rightarrow> True)"

fun history_ok :: "coordinator_options \<Rightarrow> (cluster_view \<times> coordinator_event) list \<Rightarrow> coordinator \<Rightarrow> bool" where
  "history_ok opts [] s = True"
| "history_ok opts ((v, ev) # events) s = (event_ok opts ev s \<and> history_ok opts events (coordinator_step opts v ev s))"

section \<open>Frames\<close>

text \<open>What the invariant reads of a state.\<close>

definition core :: "coordinator \<Rightarrow> (string, region_info) jmap \<times> (int, string) jmap \<times> (int, (string \<times> node_address) list) jmap \<times> (int, string) jmap" where
  "core s = (regions s, shardHome s, sc_pending s, rebalanceInProgress s)"

lemma ownership_core: "core s = core t \<Longrightarrow> ownership n D s = ownership n D t"
  by (simp add: core_def ownership_def)

lemma foldl_frame: "(\<And>x s. f (g s x) = f s) \<Longrightarrow> f (foldl g s xs) = f s"
  by (induction xs arbitrary: s) simp_all

lemma foldl_invariant: "(\<And>x s. x \<in> set xs \<Longrightarrow> P s \<Longrightarrow> P (g s x)) \<Longrightarrow> P s \<Longrightarrow> P (foldl g s xs)"
  by (induction xs arbitrary: s) simp_all

lemma replyTo_frame [simp]:
  "core (replyTo path node m s) = core s" "sc_saved (replyTo path node m s) = sc_saved s"
  "regions (replyTo path node m s) = regions s" "shardHome (replyTo path node m s) = shardHome s"
  "sc_pending (replyTo path node m s) = sc_pending s" "rebalanceInProgress (replyTo path node m s) = rebalanceInProgress s"
  by (simp_all add: replyTo_def core_def)

lemma sendToRegion_frame [simp]:
  "core (sendToRegion key m s) = core s" "sc_saved (sendToRegion key m s) = sc_saved s"
  "regions (sendToRegion key m s) = regions s" "shardHome (sendToRegion key m s) = shardHome s"
  "sc_pending (sendToRegion key m s) = sc_pending s" "rebalanceInProgress (sendToRegion key m s) = rebalanceInProgress s"
  by (simp_all add: sendToRegion_def split: option.splits)

lemma shipRememberedEntities_frame [simp]:
  "core (shipRememberedEntities shardId s) = core s" "sc_saved (shipRememberedEntities shardId s) = sc_saved s"
  by (simp_all add: shipRememberedEntities_def split: option.splits)

lemma observeEligibleSet_frame [simp]:
  "core (observeEligibleSet v cands s) = core s" "sc_saved (observeEligibleSet v cands s) = sc_saved s"
  "regions (observeEligibleSet v cands s) = regions s" "refusedRegions (observeEligibleSet v cands s) = refusedRegions s"
  by (simp_all add: observeEligibleSet_def Let_def core_def)

lemma requestRegistration_frame [simp]:
  "core (requestRegistration path node s) = core s" "sc_saved (requestRegistration path node s) = sc_saved s"
  by (simp_all add: requestRegistration_def)

lemma answerStatsQuery_frame [simp]:
  "core (answerStatsQuery q s) = core s" "sc_saved (answerStatsQuery q s) = sc_saved s"
  by (simp_all add: answerStatsQuery_def Let_def)

lemma afterShardMapChange_core [simp]: "core (afterShardMapChange opts v s) = core s"
  by (simp add: afterShardMapChange_def scheduleShardMapPublish_def scheduleCoordinatorStateSave_def core_def)

lemma publishShardMap_frame [simp]:
  "core (publishShardMap opts v s) = core s" "sc_saved (publishShardMap opts v s) = sc_saved s"
proof -
  show "core (publishShardMap opts v s) = core s"
    by (simp add: publishShardMap_def Let_def foldl_frame [where f = core]) (simp add: core_def)
  show "sc_saved (publishShardMap opts v s) = sc_saved s"
    by (simp add: publishShardMap_def Let_def foldl_frame [where f = sc_saved])
qed

lemma releaseConflictingShards_frame [simp]:
  "core (releaseConflictingShards key conflicting s) = core s" "sc_saved (releaseConflictingShards key conflicting s) = sc_saved s"
  by (simp_all add: releaseConflictingShards_def foldl_frame [where f = core] foldl_frame [where f = sc_saved])

section \<open>Snapshots of a consistent state are consistent\<close>

lemma snapshot_consistent:
  assumes "ownership n D s"
  shows "consistent_snapshot n (snapshotCoordinatorState opts s)"
proof -
  have wf: "jwf (regions s)" "jwf (shardHome s)" using assms by (simp_all add: ownership_def)
  have agrees: "region_agrees (shardHome s) key info" if "(key, info) \<in> set (regions s)" for key info
    using assms that jget_in_eq [OF wf(1)] by (simp add: ownership_def)
  show ?thesis
    unfolding consistent_snapshot_def snapshotCoordinatorState_def
  proof (intro conjI)
    show "distinct (map sr_key (sd_regions \<lparr>sd_regions = map (\<lambda>(key, info). \<lparr>sr_key = key, sr_node = ri_node info, sr_path = ri_path info,
        sr_proxy = ri_proxy info, sr_shards = ri_shards info\<rparr>) (regions s), sd_shardHome = shardHome s, sd_numShards = Some (numShards opts)\<rparr>))"
      using wf(1) by (simp add: jwf_def comp_def split_def)
    show "\<forall>shardId key. jget (sd_shardHome \<lparr>sd_regions = map (\<lambda>(key, info). \<lparr>sr_key = key, sr_node = ri_node info, sr_path = ri_path info,
        sr_proxy = ri_proxy info, sr_shards = ri_shards info\<rparr>) (regions s), sd_shardHome = shardHome s, sd_numShards = Some (numShards opts)\<rparr>) shardId = Some key \<longrightarrow>
        0 \<le> shardId \<and> shardId < n"
      using assms by (simp add: ownership_def)
  qed (use wf(2) agrees in \<open>auto simp: region_agrees_def\<close>)
qed

lemma coordinator_ok_core: "core s = core t \<Longrightarrow> sc_saved s = sc_saved t \<Longrightarrow> coordinator_ok n D s = coordinator_ok n D t"
  using ownership_core [of s t n D] by (simp add: coordinator_ok_def)

lemma afterShardMapChange_ok: "coordinator_ok n D s \<Longrightarrow> coordinator_ok n D (afterShardMapChange opts v s)"
  using snapshot_consistent [of n D s opts] ownership_core [OF afterShardMapChange_core, of n D opts v s]
  by (simp add: coordinator_ok_def) (simp add: afterShardMapChange_def scheduleShardMapPublish_def scheduleCoordinatorStateSave_def)

lemma foldl_replies [simp]:
  "core (foldl (\<lambda>s (path, node). replyTo path node m s) s waiting) = core s"
  "sc_saved (foldl (\<lambda>s (path, node). replyTo path node m s) s waiting) = sc_saved s"
  by (simp_all add: foldl_frame [where f = core] foldl_frame [where f = sc_saved] split_def)

lemma foldl_replies_fields [simp]:
  "regions (foldl (\<lambda>s (path, node). replyTo path node m s) s waiting) = regions s"
  "shardHome (foldl (\<lambda>s (path, node). replyTo path node m s) s waiting) = shardHome s"
  "rebalanceInProgress (foldl (\<lambda>s (path, node). replyTo path node m s) s waiting) = rebalanceInProgress s"
  using foldl_replies(1) [of m s waiting] by (simp_all add: core_def)

lemma flushPending_frame [simp]:
  "regions (flushPending shardId s) = regions s" "shardHome (flushPending shardId s) = shardHome s"
  "rebalanceInProgress (flushPending shardId s) = rebalanceInProgress s" "sc_saved (flushPending shardId s) = sc_saved s"
  by (simp_all add: flushPending_def split: option.splits)

lemma flushPending_waiting:
  assumes "jget (sc_pending (flushPending shardId s)) x = Some waiting" "waiting \<noteq> []"
  shows "jget (sc_pending s) x = Some waiting"
    and "x = shardId \<Longrightarrow> jget (shardHome s) shardId = Some home \<Longrightarrow> jget (regions s) home = None"
  using assms by (auto simp: flushPending_def split: option.splits if_splits)

section \<open>Allocation keeps the invariant\<close>

lemma region_agrees_add:
  assumes "region_agrees homes key info"
  shows "region_agrees (jset homes shardId key) key (info\<lparr>ri_shards := sadd (ri_shards info) shardId\<rparr>)"
  using assms unfolding region_agrees_def by simp

lemma region_agrees_other:
  assumes "region_agrees homes key info" "jget homes shardId \<noteq> Some key" "home \<noteq> key"
  shows "region_agrees (jset homes shardId home) key info"
  using assms unfolding region_agrees_def by simp

lemma place_ok:
  assumes s: "coordinator_ok n D s" and free: "jget (shardHome s) shardId = None" and range: "0 \<le> shardId" "shardId < n"
  shows "coordinator_ok n D (place opts v shardId key s)"
proof (cases "jget (regions s) key")
  case None
  then show ?thesis using s by (simp add: place_def)
next
  case (Some info)
  define s1 where "s1 = s\<lparr>shardHome := jset (shardHome s) shardId key, regions := jset (regions s) key (info\<lparr>ri_shards := sadd (ri_shards info) shardId\<rparr>)\<rparr>"
  define s2 where "s2 = flushPending shardId (sendToRegion key (ShardHome shardId (ri_path info) (ri_node info)) s1)"
  have "ownership n D s" using s by (simp add: coordinator_ok_def)
  then have own: "jwf (regions s)" "jwf (shardHome s)"
    "\<And>k i. jget (regions s) k = Some i \<Longrightarrow> region_agrees (shardHome s) k i"
    "\<And>x k. jget (shardHome s) x = Some k \<Longrightarrow> 0 \<le> x \<and> x < n \<and> (x \<in> D \<or> jget (regions s) k \<noteq> None)"
    "\<And>x k. jget (rebalanceInProgress s) x = Some k \<Longrightarrow> jget (shardHome s) x = Some k"
    "\<And>x ws. jget (sc_pending s) x = Some ws \<Longrightarrow> ws \<noteq> [] \<Longrightarrow> jget (shardHome s) x = None"
    unfolding ownership_def by blast+
  have fields: "regions s2 = regions s1" "shardHome s2 = shardHome s1" "rebalanceInProgress s2 = rebalanceInProgress s" "sc_saved s2 = sc_saved s"
    by (simp_all add: s2_def s1_def)
  have waits: "jget (sc_pending s) x = Some ws \<and> x \<noteq> shardId" if "jget (sc_pending s2) x = Some ws" "ws \<noteq> []" for x ws
    using flushPending_waiting [OF that [unfolded s2_def]] by (auto simp: s1_def)
  have "ownership n D s2"
    unfolding ownership_def fields
  proof (intro conjI allI impI)
    show "jwf (regions s1)" "jwf (shardHome s1)" using own(1,2) by (simp_all add: s1_def)
    fix k i assume k: "jget (regions s1) k = Some i"
    show "region_agrees (shardHome s1) k i"
    proof (cases "k = key")
      case True
      then have "i = info\<lparr>ri_shards := sadd (ri_shards info) shardId\<rparr>" using k by (simp add: s1_def)
      then show ?thesis using True region_agrees_add [OF own(3) [OF Some]] by (simp add: s1_def)
    next
      case False
      then have "jget (regions s) k = Some i" using k by (simp add: s1_def)
      from region_agrees_other [OF own(3) [OF this]] show ?thesis using False free by (simp add: s1_def)
    qed
  next
    fix x k assume "jget (shardHome s1) x = Some k"
    then show "0 \<le> x" "x < n" "x \<in> D \<or> jget (regions s1) k \<noteq> None"
      using own(4) [of x k] range by (auto simp: s1_def split: if_splits)
  next
    fix x k assume "jget (rebalanceInProgress s) x = Some k"
    then show "jget (shardHome s1) x = Some k" using own(5) [of x k] free by (auto simp: s1_def)
  next
    fix x ws assume "jget (sc_pending s2) x = Some ws" "ws \<noteq> []"
    then show "jget (shardHome s1) x = None" using waits own(6) by (auto simp: s1_def)
  qed
  then have "coordinator_ok n D s2" using s fields(4) by (simp add: coordinator_ok_def)
  then have "coordinator_ok n D (if rememberEntities opts then shipRememberedEntities shardId s2 else s2)"
    using coordinator_ok_core [of "shipRememberedEntities shardId s2" s2] by simp
  from afterShardMapChange_ok [OF this] show ?thesis
    using Some by (cases "rememberEntities opts") (simp_all add: place_def Let_def s1_def [symmetric] s2_def [symmetric])
qed

lemma observe_ok [simp]: "coordinator_ok n D (observeEligibleSet v cands s) = coordinator_ok n D s"
  by (rule coordinator_ok_core) simp_all

lemma observe_home [simp]: "shardHome (observeEligibleSet v cands s) = shardHome s"
  by (simp add: observeEligibleSet_def Let_def)

lemma tryAllocate_ok:
  assumes "coordinator_ok n D s" "jget (shardHome s) shardId = None" "0 \<le> shardId" "shardId < n"
  shows "coordinator_ok n D (tryAllocate opts v shardId s)"
  using assms by (simp add: tryAllocate_def Let_def place_ok split: option.splits)

text \<open>An allocation moves no other shard and registers nobody.\<close>

lemma place_others:
  "y \<noteq> shardId \<Longrightarrow> jget (shardHome (place opts v shardId key s)) y = jget (shardHome s) y"
  "(jget (regions (place opts v shardId key s)) k = None) = (jget (regions s) k = None)"
proof -
  have after: "shardHome (afterShardMapChange opts v t) = shardHome t" "regions (afterShardMapChange opts v t) = regions t" for t
    using afterShardMapChange_core [of opts v t] by (simp_all add: core_def)
  have ship: "shardHome (shipRememberedEntities x t) = shardHome t" "regions (shipRememberedEntities x t) = regions t" for t x
    using shipRememberedEntities_frame(1) [of x t] by (simp_all add: core_def)
  show "y \<noteq> shardId \<Longrightarrow> jget (shardHome (place opts v shardId key s)) y = jget (shardHome s) y"
    by (simp add: place_def Let_def after ship split: option.splits)
  show "(jget (regions (place opts v shardId key s)) k = None) = (jget (regions s) k = None)"
    by (auto simp: place_def Let_def after ship split: option.splits)
qed

lemma tryAllocate_others:
  "y \<noteq> shardId \<Longrightarrow> jget (shardHome (tryAllocate opts v shardId s)) y = jget (shardHome s) y"
  "(jget (regions (tryAllocate opts v shardId s)) k = None) = (jget (regions s) k = None)"
  by (simp_all add: tryAllocate_def Let_def place_others split: option.splits)

section \<open>Hand-offs and regions that end\<close>

lemma coordinator_okD:
  assumes "coordinator_ok n D s"
  shows "jwf (regions s)" "jwf (shardHome s)"
    "jget (regions s) key = Some info \<Longrightarrow> region_agrees (shardHome s) key info"
    "jget (shardHome s) shardId = Some key \<Longrightarrow> 0 \<le> shardId \<and> shardId < n \<and> (shardId \<in> D \<or> jget (regions s) key \<noteq> None)"
    "jget (rebalanceInProgress s) shardId = Some key \<Longrightarrow> jget (shardHome s) shardId = Some key"
    "jget (sc_pending s) shardId = Some waiting \<Longrightarrow> waiting \<noteq> [] \<Longrightarrow> jget (shardHome s) shardId = None"
    "list_all (consistent_snapshot n) (sc_saved s)"
  using assms unfolding coordinator_ok_def ownership_def by blast+

lemma coordinator_okI:
  assumes "jwf (regions s)" "jwf (shardHome s)"
    "\<And>key info. jget (regions s) key = Some info \<Longrightarrow> region_agrees (shardHome s) key info"
    "\<And>shardId key. jget (shardHome s) shardId = Some key \<Longrightarrow> 0 \<le> shardId \<and> shardId < n \<and> (shardId \<in> D \<or> jget (regions s) key \<noteq> None)"
    "\<And>shardId key. jget (rebalanceInProgress s) shardId = Some key \<Longrightarrow> jget (shardHome s) shardId = Some key"
    "\<And>shardId waiting. jget (sc_pending s) shardId = Some waiting \<Longrightarrow> waiting \<noteq> [] \<Longrightarrow> jget (shardHome s) shardId = None"
    "list_all (consistent_snapshot n) (sc_saved s)"
  shows "coordinator_ok n D s"
  using assms unfolding coordinator_ok_def ownership_def by blast

lemma region_agrees_remove:
  assumes "region_agrees homes key info"
  shows "region_agrees (jdelete homes shardId) key (info\<lparr>ri_shards := sdel (ri_shards info) shardId\<rparr>)"
  using assms unfolding region_agrees_def by simp

lemma region_agrees_gone:
  assumes "region_agrees homes key info" "jget homes shardId \<noteq> Some key"
  shows "region_agrees (jdelete homes shardId) key info"
  using assms unfolding region_agrees_def by simp

lemma release_ok:
  assumes s: "coordinator_ok n D s" and owned: "jget (shardHome s) shardId = Some from"
  shows "coordinator_ok n D (releaseFromPreviousOwner shardId from (s\<lparr>rebalanceInProgress := jdelete (rebalanceInProgress s) shardId\<rparr>))"
    (is "coordinator_ok n D ?t")
proof (rule coordinator_okI)
  note ok = coordinator_okD [OF s]
  have home: "shardHome ?t = jdelete (shardHome s) shardId" "rebalanceInProgress ?t = jdelete (rebalanceInProgress s) shardId"
    "sc_pending ?t = sc_pending s" "sc_saved ?t = sc_saved s"
    by (simp_all add: releaseFromPreviousOwner_def drop_shard_def split: option.splits)
  have regs: "jget (regions ?t) k = (if k = from then map_option (\<lambda>i. i\<lparr>ri_shards := sdel (ri_shards i) shardId\<rparr>) (jget (regions s) k) else jget (regions s) k)" for k
    by (simp add: releaseFromPreviousOwner_def drop_shard_def split: option.splits)
  show "jwf (regions ?t)" using ok(1) by (simp add: releaseFromPreviousOwner_def drop_shard_def split: option.splits)
  show "jwf (shardHome ?t)" "list_all (consistent_snapshot n) (sc_saved ?t)" using ok(2,7) home by simp_all
  fix k i assume k: "jget (regions ?t) k = Some i"
  show "region_agrees (shardHome ?t) k i"
  proof (cases "k = from")
    case True
    then obtain i' where i': "jget (regions s) from = Some i'" "i = i'\<lparr>ri_shards := sdel (ri_shards i') shardId\<rparr>" using k regs by auto
    show ?thesis unfolding i'(2) home True by (rule region_agrees_remove [OF ok(3) [OF i'(1)]])
  next
    case False
    then have "jget (regions s) k = Some i" using k regs by simp
    from region_agrees_gone [OF ok(3) [OF this]] show ?thesis unfolding home using False owned by simp
  qed
next
  note ok = coordinator_okD [OF s]
  have regs: "(jget (regions ?t) k = None) = (jget (regions s) k = None)" for k
    by (simp add: releaseFromPreviousOwner_def drop_shard_def split: option.splits)
  fix x k assume "jget (shardHome ?t) x = Some k"
  then have "jget (shardHome s) x = Some k"
    by (simp add: releaseFromPreviousOwner_def drop_shard_def split: option.splits if_splits)
  from ok(4) [OF this] show "0 \<le> x \<and> x < n \<and> (x \<in> D \<or> jget (regions ?t) k \<noteq> None)" by (simp add: regs)
next
  note ok = coordinator_okD [OF s]
  fix x k assume "jget (rebalanceInProgress ?t) x = Some k"
  then show "jget (shardHome ?t) x = Some k"
    using ok(5) [of x k] by (simp add: releaseFromPreviousOwner_def drop_shard_def split: option.splits if_splits)
next
  note ok = coordinator_okD [OF s]
  fix x ws assume "jget (sc_pending ?t) x = Some ws" "ws \<noteq> []"
  then show "jget (shardHome ?t) x = None"
    using ok(6) [of x ws] by (simp add: releaseFromPreviousOwner_def drop_shard_def split: option.splits if_splits)
qed

lemma end_handOff_ok:
  assumes s: "coordinator_ok n {} s" and moving: "jget (rebalanceInProgress s) shardId = Some from"
  shows "coordinator_ok n {} (end_handOff opts v shardId from s)"
proof -
  have home: "jget (shardHome s) shardId = Some from" using coordinator_okD(5) [OF s moving] .
  then have range: "0 \<le> shardId" "shardId < n" using coordinator_okD(4) [OF s] by auto
  have "jget (shardHome (releaseFromPreviousOwner shardId from t)) shardId = None" for t
    by (simp add: releaseFromPreviousOwner_def Let_def)
  from tryAllocate_ok [OF release_ok [OF s home] this range] show ?thesis by (simp add: end_handOff_def)
qed

lemma rehome_ok:
  assumes s: "coordinator_ok n (insert shardId D) s" and home: "jget (shardHome s) shardId = Some key" "jget (regions s) key = None"
  shows "coordinator_ok n D (rehome opts v shardId s)"
proof -
  note ok = coordinator_okD [OF s]
  let ?t = "s\<lparr>shardHome := jdelete (shardHome s) shardId, rebalanceInProgress := jdelete (rebalanceInProgress s) shardId\<rparr>"
  have "coordinator_ok n D ?t"
  proof (rule coordinator_okI)
    show "jwf (regions ?t)" "jwf (shardHome ?t)" "list_all (consistent_snapshot n) (sc_saved ?t)" using ok(1,2,7) by simp_all
    fix k i assume "jget (regions ?t) k = Some i"
    then have k: "jget (regions s) k = Some i" by simp
    with home have "jget (shardHome s) shardId \<noteq> Some k" by auto
    from region_agrees_gone [OF ok(3) [OF k] this] show "region_agrees (shardHome ?t) k i" by simp
  next
    fix x k assume "jget (shardHome ?t) x = Some k"
    then show "0 \<le> x \<and> x < n \<and> (x \<in> D \<or> jget (regions ?t) k \<noteq> None)" using ok(4) [of x k] by (simp split: if_splits)
  next
    fix x k assume "jget (rebalanceInProgress ?t) x = Some k"
    then show "jget (shardHome ?t) x = Some k" using ok(5) [of x k] by (simp split: if_splits)
  next
    fix x ws assume "jget (sc_pending ?t) x = Some ws" "ws \<noteq> []"
    then show "jget (shardHome ?t) x = None" using ok(6) [of x ws] by simp
  qed
  moreover have "0 \<le> shardId" "shardId < n" using ok(4) [OF home(1)] by simp_all
  ultimately show ?thesis unfolding rehome_def by (intro tryAllocate_ok) simp_all
qed

lemma rehome_others:
  "y \<noteq> shardId \<Longrightarrow> jget (shardHome (rehome opts v shardId s)) y = jget (shardHome s) y"
  "(jget (regions (rehome opts v shardId s)) k = None) = (jget (regions s) k = None)"
  by (simp_all add: rehome_def tryAllocate_others)

lemma rehome_loop:
  assumes "coordinator_ok n (set xs) s" "distinct xs" "\<And>x. x \<in> set xs \<Longrightarrow> jget (shardHome s) x = Some key" "jget (regions s) key = None"
  shows "coordinator_ok n {} (foldl (\<lambda>s shardId. rehome opts v shardId s) s xs)"
  using assms
proof (induction xs arbitrary: s)
  case (Cons x xs)
  have "coordinator_ok n (set xs) (rehome opts v x s)"
    using Cons.prems by (intro rehome_ok [where key = key]) simp_all
  moreover have "jget (shardHome (rehome opts v x s)) y = Some key" if "y \<in> set xs" for y
    using that Cons.prems(2,3) by (subst rehome_others(1)) auto
  ultimately show ?case using Cons.IH [of "rehome opts v x s"] Cons.prems(2,4) by (simp add: rehome_others)
qed simp

lemma onRegionTerminated_ok:
  assumes s: "coordinator_ok n {} s"
  shows "coordinator_ok n {} (onRegionTerminated opts v region node s)"
proof (cases "jget (regions s) (regionKey node region)")
  case None
  then show ?thesis using s by (simp add: onRegionTerminated_def)
next
  case (Some info)
  let ?key = "regionKey node region"
  let ?t = "s\<lparr>regions := jdelete (regions s) ?key\<rparr>"
  note ok = coordinator_okD [OF s]
  have agrees: "distinct (ri_shards info)" "\<And>x. x \<in> set (ri_shards info) \<longleftrightarrow> jget (shardHome s) x = Some ?key"
    using ok(3) [OF Some] unfolding region_agrees_def by simp_all
  have "coordinator_ok n (set (ri_shards info)) ?t"
  proof (rule coordinator_okI)
    show "jwf (regions ?t)" "jwf (shardHome ?t)" "list_all (consistent_snapshot n) (sc_saved ?t)" using ok(1,2,7) by simp_all
    fix k i assume "jget (regions ?t) k = Some i"
    then show "region_agrees (shardHome ?t) k i" using ok(3) [of k i] by (simp split: if_splits)
  next
    fix x k assume "jget (shardHome ?t) x = Some k"
    then show "0 \<le> x \<and> x < n \<and> (x \<in> set (ri_shards info) \<or> jget (regions ?t) k \<noteq> None)"
      using ok(4) [of x k] agrees(2) [of x] by auto
  next
    fix x k assume "jget (rebalanceInProgress ?t) x = Some k"
    then show "jget (shardHome ?t) x = Some k" using ok(5) [of x k] by simp
  next
    fix x ws assume "jget (sc_pending ?t) x = Some ws" "ws \<noteq> []"
    then show "jget (shardHome ?t) x = None" using ok(6) [of x ws] by simp
  qed
  then have "coordinator_ok n {} (foldl (\<lambda>s shardId. rehome opts v shardId s) ?t (ri_shards info))"
    using agrees by (intro rehome_loop [where key = ?key]) simp_all
  then show ?thesis using Some by (simp add: onRegionTerminated_def Let_def afterShardMapChange_ok)
qed

lemma touch_ok:
  assumes s: "coordinator_ok n D s" and k: "jget (regions s) key = Some info"
    and same: "ri_node info' = ri_node info" "ri_path info' = ri_path info" "ri_shards info' = ri_shards info"
  shows "coordinator_ok n D (s\<lparr>regions := jset (regions s) key info'\<rparr>)" (is "coordinator_ok n D ?t")
proof (rule coordinator_okI)
  note ok = coordinator_okD [OF s]
  show "jwf (regions ?t)" "jwf (shardHome ?t)" "list_all (consistent_snapshot n) (sc_saved ?t)" using ok(1,2,7) by simp_all
  have moved: "region_agrees (shardHome s) key info'" using ok(3) [OF k] same unfolding region_agrees_def by simp
  fix k i assume "jget (regions ?t) k = Some i"
  then show "region_agrees (shardHome ?t) k i" using moved ok(3) [of k i] by (simp split: if_splits)
next
  note ok = coordinator_okD [OF s]
  show "0 \<le> x \<and> x < n \<and> (x \<in> D \<or> jget (regions ?t) h \<noteq> None)" if "jget (shardHome ?t) x = Some h" for x h
    using that ok(4) [of x h] by auto
  show "jget (shardHome ?t) x = Some h" if "jget (rebalanceInProgress ?t) x = Some h" for x h
    using that ok(5) [of x h] by simp
  show "jget (shardHome ?t) x = None" if "jget (sc_pending ?t) x = Some ws" "ws \<noteq> []" for x ws
    using that ok(6) [of x ws] by simp
qed

lemma markRegionSeen_ok: "coordinator_ok n D s \<Longrightarrow> coordinator_ok n D (markRegionSeen v path node s)"
  by (simp add: markRegionSeen_def touch_ok split: option.splits)

lemma markRegionSeen_frame [simp]:
  "shardHome (markRegionSeen v path node s) = shardHome s" "rebalanceInProgress (markRegionSeen v path node s) = rebalanceInProgress s"
  "sc_pending (markRegionSeen v path node s) = sc_pending s"
  by (simp_all add: markRegionSeen_def split: option.splits)

lemma reply_ok [simp]: "coordinator_ok n D (replyTo path node m s) = coordinator_ok n D s"
  by (rule coordinator_ok_core) simp_all

lemma send_ok [simp]: "coordinator_ok n D (sendToRegion key m s) = coordinator_ok n D s"
  by (rule coordinator_ok_core) simp_all

lemma ship_ok [simp]: "coordinator_ok n D (shipRememberedEntities shardId s) = coordinator_ok n D s"
  by (rule coordinator_ok_core) simp_all

lemma request_ok [simp]: "coordinator_ok n D (requestRegistration path node s) = coordinator_ok n D s"
  by (rule coordinator_ok_core) simp_all

lemma answer_ok [simp]: "coordinator_ok n D (answerStatsQuery q s) = coordinator_ok n D s"
  by (rule coordinator_ok_core) simp_all

lemma onMemberRemoved_ok: "coordinator_ok n {} s \<Longrightarrow> coordinator_ok n {} (onMemberRemoved opts v addr s)"
  unfolding onMemberRemoved_def by (rule foldl_invariant) (auto simp: onRegionTerminated_ok)

lemma sweep_one_ok: "coordinator_ok n {} s \<Longrightarrow> coordinator_ok n {} (sweep_one opts v entry s)"
  by (auto simp: sweep_one_def onRegionTerminated_ok touch_ok split: option.splits prod.splits)

lemma sweepStaleRegions_ok: "coordinator_ok n {} s \<Longrightarrow> coordinator_ok n {} (sweepStaleRegions opts v s)"
  unfolding sweepStaleRegions_def by (simp add: foldl_invariant [where P = "coordinator_ok n {}"] sweep_one_ok)

lemma beginHandOff_ok:
  assumes s: "coordinator_ok n D s"
  shows "coordinator_ok n D (beginHandOff shardId s)"
proof -
  note ok = coordinator_okD [OF s]
  have "coordinator_ok n D (s\<lparr>rebalanceInProgress := jset (rebalanceInProgress s) shardId owner\<rparr>)" if "jget (shardHome s) shardId = Some owner" for owner
    by (rule coordinator_okI) (use ok that in \<open>simp_all split: if_splits\<close>)
  then show ?thesis using s by (simp add: beginHandOff_def split: option.splits)
qed

lemma rebalanceTick_ok:
  assumes "coordinator_ok n {} s"
  shows "coordinator_ok n {} (rebalanceTick opts v s)"
proof -
  have "coordinator_ok n {} (foldl (\<lambda>s shardId. beginHandOff shardId s) t xs)" if "coordinator_ok n {} t" for t xs
    using that beginHandOff_ok by (rule foldl_invariant [where P = "coordinator_ok n {}", rotated])
  then show ?thesis using sweepStaleRegions_ok [OF assms] by (simp add: rebalanceTick_def Let_def)
qed

lemma onGetShardHome_ok:
  assumes "coordinator_ok n {} s0" "n = numShards opts"
  shows "coordinator_ok n {} (onGetShardHome opts v shardId requester node s0)"
proof -
  define s where "s = markRegionSeen v requester node s0"
  have s: "coordinator_ok n {} s" unfolding s_def by (rule markRegionSeen_ok [OF assms(1)])
  note ok = coordinator_okD [OF s]
  have wait: "coordinator_ok n {} (s\<lparr>sc_pending := jset (sc_pending s) shardId ws\<rparr>)" if "jget (shardHome s) shardId = None" for ws
    by (rule coordinator_okI) (use ok that in \<open>simp_all split: if_splits\<close>)
  have free: "jget (shardHome s) shardId = Some home \<Longrightarrow> jget (regions s) home \<noteq> None" for home using ok(4) by auto
  show ?thesis
    using s wait free assms(2)
    by (auto simp: onGetShardHome_def Let_def s_def [symmetric] isShardIdInRange_def tryAllocate_ok split: option.splits)
qed

lemma handOffComplete_ok: "coordinator_ok n {} s \<Longrightarrow> coordinator_ok n {} (onHandOffComplete opts v shardId region node s)"
  using markRegionSeen_ok [of n "{}" s v region node]
  by (auto simp: onHandOffComplete_def Let_def intro: end_handOff_ok split: option.splits)

lemma handOffTimeout_ok: "coordinator_ok n {} s \<Longrightarrow> coordinator_ok n {} (onHandOffTimeout opts v shardId s)"
  by (auto simp: onHandOffTimeout_def intro: end_handOff_ok split: option.splits)

section \<open>Registration\<close>

lemma claimed_id_range: "claimed_id opts x = Some shardId \<Longrightarrow> isShardIdInRange opts shardId"
  by (auto simp: claimed_id_def split: json.splits js_number.splits if_splits)

lemma accept_loop_range:
  "(\<And>x. x \<in> set accepted \<Longrightarrow> isShardIdInRange opts x) \<Longrightarrow> x \<in> set (accept_loop opts accepted xs) \<Longrightarrow> isShardIdInRange opts x"
proof (induction opts accepted xs rule: accept_loop.induct)
  case (2 opts accepted y ys)
  then show ?case using claimed_id_range by (auto split: option.splits if_splits)
qed simp

lemma accept_loop_distinct: "distinct accepted \<Longrightarrow> distinct (accept_loop opts accepted xs)"
  by (induction opts accepted xs rule: accept_loop.induct) (auto split: option.splits)

lemma accepted_range: "x \<in> set (acceptedHostedShards opts hosted) \<Longrightarrow> isShardIdInRange opts x"
  unfolding acceptedHostedShards_def by (rule accept_loop_range [of "[]"]) simp_all

lemma accepted_distinct: "distinct (acceptedHostedShards opts hosted)"
  unfolding acceptedHostedShards_def by (rule accept_loop_distinct) simp

lemma adopt_loop:
  assumes "\<And>x. x \<in> set xs \<Longrightarrow> jget (shardHome s) x = None \<or> jget (shardHome s) x = Some key"
  shows "foldl (\<lambda>s shardId. adopt key shardId s) s xs = s\<lparr>shardHome := foldl (\<lambda>h x. jset h x key) (shardHome s) xs\<rparr>"
  using assms
proof (induction xs arbitrary: s)
  case (Cons x xs)
  have "adopt key x s = s\<lparr>shardHome := jset (shardHome s) x key\<rparr>" using Cons.prems [of x] by (auto simp: adopt_def)
  moreover have "jget (jset (shardHome s) x key) y = None \<or> jget (jset (shardHome s) x key) y = Some key" if "y \<in> set xs" for y
    using Cons.prems [of y] that by auto
  ultimately show ?case using Cons.IH [of "s\<lparr>shardHome := jset (shardHome s) x key\<rparr>"] by simp
qed simp

lemma jget_adopted: "jget (foldl (\<lambda>h x. jset h x key) h xs) y = (if y \<in> set xs then Some key else jget h y)"
  by (induction xs arbitrary: h) auto

lemma jwf_adopted: "jwf h \<Longrightarrow> jwf (foldl (\<lambda>h x. jset h x key) h xs)"
  by (induction xs arbitrary: h) auto

lemma flush_loop_frame [simp]:
  "regions (foldl (\<lambda>s shardId. flushPending shardId s) s xs) = regions s"
  "shardHome (foldl (\<lambda>s shardId. flushPending shardId s) s xs) = shardHome s"
  "rebalanceInProgress (foldl (\<lambda>s shardId. flushPending shardId s) s xs) = rebalanceInProgress s"
  "sc_saved (foldl (\<lambda>s shardId. flushPending shardId s) s xs) = sc_saved s"
  by (simp_all add: foldl_frame [where f = regions] foldl_frame [where f = shardHome] foldl_frame [where f = rebalanceInProgress]
    foldl_frame [where f = sc_saved])

lemma flush_loop_waiting:
  assumes "jget (sc_pending (foldl (\<lambda>s shardId. flushPending shardId s) s xs)) x = Some waiting" "waiting \<noteq> []"
  shows "jget (sc_pending s) x = Some waiting \<and> (x \<in> set xs \<longrightarrow> jget (shardHome s) x = Some home \<longrightarrow> jget (regions s) home = None)"
  using assms
proof (induction xs arbitrary: s)
  case (Cons y ys)
  have "jget (sc_pending (flushPending y s)) x = Some waiting \<and> (x \<in> set ys \<longrightarrow> jget (shardHome s) x = Some home \<longrightarrow> jget (regions s) home = None)"
    using Cons.IH [of "flushPending y s"] Cons.prems by simp
  then show ?case using flushPending_waiting [where shardId = y and s = s and x = x and waiting = waiting] Cons.prems(2) by auto
qed simp

lemma ship_loop_ok [simp]: "coordinator_ok n D (foldl (\<lambda>s shardId. shipRememberedEntities shardId s) s xs) = coordinator_ok n D s"
  by (rule coordinator_ok_core) (simp_all add: foldl_frame [where f = core] foldl_frame [where f = sc_saved])

text \<open>The state of a registration once the waiting requests of the adopted shards are answered.\<close>

lemma register_core_ok:
  assumes s: "coordinator_ok n {} s"
    and adopted: "\<And>x. x \<in> set adopted \<Longrightarrow> (jget (shardHome s) x = None \<or> jget (shardHome s) x = Some key) \<and> 0 \<le> x \<and> x < n"
    and info: "key = regionKey (ri_node info) (ri_path info)" "distinct (ri_shards info)"
      "\<And>x. x \<in> set (ri_shards info) \<longleftrightarrow> x \<in> set adopted \<or> jget (shardHome s) x = Some key"
    and t: "regions t = jset (regions s) key info" "shardHome t = foldl (\<lambda>h x. jset h x key) (shardHome s) adopted"
      "rebalanceInProgress t = rebalanceInProgress s" "sc_saved t = sc_saved s"
    and waiting: "\<And>x ws. jget (sc_pending t) x = Some ws \<Longrightarrow> ws \<noteq> [] \<Longrightarrow> jget (sc_pending s) x = Some ws \<and> x \<notin> set adopted"
  shows "coordinator_ok n {} t"
proof (rule coordinator_okI)
  note ok = coordinator_okD [OF s]
  show "jwf (regions t)" "jwf (shardHome t)" "list_all (consistent_snapshot n) (sc_saved t)" using ok(1,2,7) t by (simp_all add: jwf_adopted)
  fix k i assume k: "jget (regions t) k = Some i"
  show "region_agrees (shardHome t) k i"
  proof (cases "k = key")
    case True
    then have "i = info" using k t by simp
    then show ?thesis using True info unfolding region_agrees_def t jget_adopted by simp
  next
    case False
    then have "jget (regions s) k = Some i" using k t by simp
    then have "region_agrees (shardHome s) k i" by (rule ok(3))
    moreover have "x \<in> set adopted \<Longrightarrow> jget (shardHome s) x \<noteq> Some k" for x using adopted [of x] False by auto
    ultimately show ?thesis using False unfolding region_agrees_def t jget_adopted by auto
  qed
next
  note ok = coordinator_okD [OF s]
  show "0 \<le> x \<and> x < n \<and> (x \<in> {} \<or> jget (regions t) h \<noteq> None)" if "jget (shardHome t) x = Some h" for x h
    using that ok(4) [of x h] adopted [of x] by (auto simp: t jget_adopted split: if_splits)
  show "jget (shardHome t) x = Some h" if "jget (rebalanceInProgress t) x = Some h" for x h
    using that ok(5) [of x h] adopted [of x] by (auto simp: t jget_adopted)
  show "jget (shardHome t) x = None" if "jget (sc_pending t) x = Some ws" "ws \<noteq> []" for x ws
    using waiting [OF that] that(2) ok(6) [of x ws] by (simp add: t jget_adopted)
qed

lemma agreed_frame:
  assumes "isAgreedNumShards opts region node m s = (agreed, t)"
  shows "core t = core s" "sc_saved t = sc_saved s"
  using assms by (auto simp: isAgreedNumShards_def Let_def core_def split: if_splits)

lemma owned_shards:
  "jwf homes \<Longrightarrow> x \<in> set (map fst (filter (\<lambda>(shardId, home). home = key) homes)) \<longleftrightarrow> jget homes x = Some key"
  using jget_in_eq [of homes x key] by force

lemma core_fields: "core s = core t \<Longrightarrow> regions s = regions t" "core s = core t \<Longrightarrow> shardHome s = shardHome t"
  "core s = core t \<Longrightarrow> sc_pending s = sc_pending t" "core s = core t \<Longrightarrow> rebalanceInProgress s = rebalanceInProgress t"
  by (simp_all add: core_def)

lemma onRegister_ok:
  assumes s0: "coordinator_ok n {} s0" and n: "n = numShards opts"
  shows "coordinator_ok n {} (onRegister opts v region node proxy hosted m s0)"
proof (cases "isAgreedNumShards opts region node m s0")
  case (Pair agreed s)
  note frame = agreed_frame [OF Pair]
  have s: "coordinator_ok n {} s" using s0 coordinator_ok_core [OF frame, of n "{}"] by simp
  note ok = coordinator_okD [OF s]
  show ?thesis
  proof (cases agreed)
    case False
    then show ?thesis using Pair s by (simp add: onRegister_def)
  next
    case True
    define key where "key = regionKey node region"
    define claimed where "claimed = acceptedHostedShards opts hosted"
    define adopted where "adopted = filter (adoptable key s) claimed"
    define conflicting where "conflicting = filter (\<lambda>shardId. \<not> adoptable key s shardId) claimed"
    define owned where "owned = sadd_all adopted (map fst (filter (\<lambda>(shardId, home). home = key) (shardHome s)))"
    define info where "info = \<lparr>ri_node = node, ri_path = region, ri_proxy = proxy, ri_shards = owned, lastSeenAtMs = cv_date v,
      lastHeartbeatAtMs = (case jget (regions s) key of None \<Rightarrow> None | Some old \<Rightarrow> lastHeartbeatAtMs old), seededFromSnapshot = False\<rparr>"
    define s1 where "s1 = foldl (\<lambda>s shardId. adopt key shardId s) (s\<lparr>regions := jset (regions s) key info\<rparr>) adopted"
    define s2 where "s2 = releaseConflictingShards key conflicting (replyTo region node RegisterAcknowledgment s1)"
    define s3 where "s3 = foldl (\<lambda>s shardId. flushPending shardId s) s2 adopted"
    have adopted: "(jget (shardHome s) x = None \<or> jget (shardHome s) x = Some key) \<and> 0 \<le> x \<and> x < n" if "x \<in> set adopted" for x
      using that accepted_range [of x opts hosted] ok(4) [of x]
      by (auto simp: adopted_def adoptable_def claimed_def isShardIdInRange_def n jhas_iff split: option.splits)
    have s1: "s1 = s\<lparr>regions := jset (regions s) key info, shardHome := foldl (\<lambda>h x. jset h x key) (shardHome s) adopted\<rparr>"
      unfolding s1_def using adopted by (subst adopt_loop) auto
    have s2: "core s2 = core s1" "sc_saved s2 = sc_saved s1" by (simp_all add: s2_def)
    note fields = core_fields [OF s2(1)]
    have "coordinator_ok n {} s3"
    proof (rule register_core_ok [OF s adopted])
      show "key = regionKey (ri_node info) (ri_path info)" by (simp add: info_def key_def)
      show "distinct (ri_shards info)" unfolding info_def owned_def adopted_def claimed_def by (simp add: accepted_distinct)
      show "x \<in> set (ri_shards info) \<longleftrightarrow> x \<in> set adopted \<or> jget (shardHome s) x = Some key" for x
        using owned_shards [OF ok(2), of x key] by (simp add: info_def owned_def)
      show "regions s3 = jset (regions s) key info" "shardHome s3 = foldl (\<lambda>h x. jset h x key) (shardHome s) adopted"
        "rebalanceInProgress s3 = rebalanceInProgress s" "sc_saved s3 = sc_saved s"
        unfolding s3_def by (simp_all add: fields s2(2) s1)
      show "jget (sc_pending s) x = Some ws \<and> x \<notin> set adopted" if "jget (sc_pending s3) x = Some ws" "ws \<noteq> []" for x ws
        using flush_loop_waiting [OF that [unfolded s3_def], of key] by (auto simp: fields s1 jget_adopted)
    qed
    then have "coordinator_ok n {} (afterShardMapChange opts v (if rememberEntities opts then foldl (\<lambda>s shardId. shipRememberedEntities shardId s) s3 adopted else s3))"
      by (intro afterShardMapChange_ok) simp
    then show ?thesis
      using True Pair
      by (cases "rememberEntities opts") (simp_all add: onRegister_def adjudicateClaim_def Let_def key_def [symmetric] claimed_def [symmetric] adopted_def [symmetric]
          conflicting_def [symmetric] owned_def [symmetric] info_def [symmetric] s1_def [symmetric] s2_def [symmetric] s3_def [symmetric])
  qed
qed

section \<open>Loading a snapshot\<close>

definition seeded_as :: "cluster_view \<Rightarrow> snapshot_region \<Rightarrow> region_info" where
  "seeded_as v r = \<lparr>ri_node = sr_node r, ri_path = sr_path r, ri_proxy = sr_proxy r, ri_shards = sof (sr_shards r), lastSeenAtMs = cv_date v,
     lastHeartbeatAtMs = None, seededFromSnapshot = True\<rparr>"

lemma seed_region_alt: "seed_region v r s = s\<lparr>regions := jset (regions s) (sr_key r) (seeded_as v r)\<rparr>"
  by (simp add: seed_region_def seeded_as_def)

lemma seed_regions_facts:
  assumes "foldl (\<lambda>(s, seeded) r. if seedable v r s then (seed_region v r s, seeded @ [r]) else (s, seeded)) (s, seeded) rs = (t, out)"
  shows "shardHome t = shardHome s \<and> sc_pending t = sc_pending s \<and> rebalanceInProgress t = rebalanceInProgress s \<and> sc_saved t = sc_saved s \<and>
    (jwf (regions s) \<longrightarrow> jwf (regions t)) \<and>
    (\<forall>k i. jget (regions t) k = Some i \<longrightarrow> jget (regions s) k = Some i \<or> (\<exists>r \<in> set rs. k = sr_key r \<and> i = seeded_as v r))"
  using assms
proof (induction rs arbitrary: s seeded)
  case (Cons r rs)
  show ?case
  proof (cases "seedable v r s")
    case True
    let ?s = "s\<lparr>regions := jset (regions s) (sr_key r) (seeded_as v r)\<rparr>"
    note step = Cons.IH [of ?s "seeded @ [r]"]
    have run: "foldl (\<lambda>(s, seeded) r. if seedable v r s then (seed_region v r s, seeded @ [r]) else (s, seeded)) (?s, seeded @ [r]) rs = (t, out)"
      using Cons.prems True by (simp add: seed_region_alt)
    have last: "jget (regions s) k = Some i \<or> (\<exists>r' \<in> set (r # rs). k = sr_key r' \<and> i = seeded_as v r')" if "jget (regions t) k = Some i" for k i
    proof -
      have "jget (regions ?s) k = Some i \<or> (\<exists>r' \<in> set rs. k = sr_key r' \<and> i = seeded_as v r')" using step [OF run] that by blast
      then show ?thesis by (auto split: if_splits)
    qed
    show ?thesis using step [OF run] last by simp
  next
    case False
    then show ?thesis using Cons.IH [of s seeded] Cons.prems by auto
  qed
qed simp

lemma seed_homes_frame:
  "regions (seed_homes homes s) = regions s \<and> sc_pending (seed_homes homes s) = sc_pending s \<and>
   rebalanceInProgress (seed_homes homes s) = rebalanceInProgress s \<and> sc_saved (seed_homes homes s) = sc_saved s \<and>
   (jwf (shardHome s) \<longrightarrow> jwf (shardHome (seed_homes homes s)))"
  unfolding seed_homes_def by (induction homes arbitrary: s) auto

lemma seed_homes_jget:
  "jget (shardHome (seed_homes homes s)) x =
     (case jget (shardHome s) x of Some k \<Rightarrow> Some k | None \<Rightarrow> jget (filter (\<lambda>(y, k). jhas (regions s) k) homes) x)"
  unfolding seed_homes_def
proof (induction homes arbitrary: s)
  case (Cons h homes)
  obtain y k where h: "h = (y, k)" by fastforce
  have get: "jget ((y, k) # m) z = (if z = y then Some k else jget m z)" for m :: "(int, string) jmap" and z by (simp add: jget_def)
  have has: "jhas (shardHome s) y = (jget (shardHome s) y \<noteq> None)" by (rule jhas_iff)
  show ?case using Cons.IH by (auto simp: h get has split: option.splits)
qed (simp split: option.splits)

lemma filtered_homes:
  assumes "jwf homes"
  shows "jget (filter (\<lambda>(y, k). P k) homes) x = Some key \<longleftrightarrow> jget homes x = Some key \<and> P key"
proof -
  have "jwf (filter (\<lambda>(y, k). P k) homes)" using assms by (simp add: jwf_def distinct_map_filter)
  from jget_in_eq [OF this, of x key] show ?thesis using jget_in_eq [OF assms, of x key] by auto
qed

lemma load_ok:
  assumes s: "coordinator_ok n D s" and data: "consistent_snapshot n data"
    and empty: "regions s = []" "shardHome s = []" "sc_pending s = []" "rebalanceInProgress s = []"
  shows "coordinator_ok n {} (loadCoordinatorState opts v (Some data) s)"
proof -
  obtain s1 seeded where run: "seed_regions v (sd_regions data) s = (s1, seeded)" by fastforce
  note facts = seed_regions_facts [OF run [unfolded seed_regions_def]]
  define s2 where "s2 = seed_homes (sd_shardHome data) s1"
  have frame: "regions s2 = regions s1" "sc_pending s2 = []" "rebalanceInProgress s2 = []" "sc_saved s2 = sc_saved s" "jwf (shardHome s2)" "jwf (regions s1)"
    using seed_homes_frame [of "sd_shardHome data" s1] facts empty by (simp_all add: s2_def)
  have homes: "jget (shardHome s2) x = Some key \<longleftrightarrow> jget (sd_shardHome data) x = Some key \<and> jget (regions s1) key \<noteq> None" for x key
  proof -
    have "jwf (sd_shardHome data)" using data by (simp add: consistent_snapshot_def)
    moreover have "shardHome s1 = []" using facts empty by simp
    ultimately show ?thesis
      using filtered_homes [of "sd_shardHome data" "jhas (regions s1)" x key] by (simp add: s2_def seed_homes_jget jhas_iff [of "regions s1" key])
  qed
  have "coordinator_ok n {} s2"
  proof (rule coordinator_okI)
    show "jwf (regions s2)" "jwf (shardHome s2)" using frame by simp_all
    show "list_all (consistent_snapshot n) (sc_saved s2)" using frame coordinator_okD(7) [OF s] by simp
    fix k i assume k: "jget (regions s2) k = Some i"
    then obtain r where r: "r \<in> set (sd_regions data)" "k = sr_key r" "i = seeded_as v r" using facts empty frame by auto
    have "jget (regions s1) k \<noteq> None" using k frame by simp
    then show "region_agrees (shardHome s2) k i"
      using r data unfolding consistent_snapshot_def region_agrees_def homes by (simp add: seeded_as_def)
  next
    fix x k assume "jget (shardHome s2) x = Some k"
    then show "0 \<le> x \<and> x < n \<and> (x \<in> {} \<or> jget (regions s2) k \<noteq> None)"
      using data frame(1) unfolding homes consistent_snapshot_def by auto
  qed (use frame in simp_all)
  moreover have "coordinator_ok n {} (foldl (\<lambda>s r. requestRegistration (sr_path r) (sr_node r) s) s2 seeded) = coordinator_ok n {} s2"
    by (rule coordinator_ok_core) (simp_all add: foldl_frame [where f = core] foldl_frame [where f = sc_saved])
  moreover have "coordinator_ok n {} s"
    using coordinator_okD(7) [OF s] by (intro coordinator_okI) (simp_all add: empty)
  ultimately show ?thesis by (simp add: loadCoordinatorState_def run s2_def [symmetric])
qed

section \<open>Every event keeps the invariant\<close>

lemma remembered_frame [simp]:
  "core (applyRememberEvent ev s) = core s" "sc_saved (applyRememberEvent ev s) = sc_saved s"
  "core (persistRememberEvent opts ev s) = core s" "sc_saved (persistRememberEvent opts ev s) = sc_saved s"
  by (simp_all add: applyRememberEvent_def persistRememberEvent_def core_def split: remember_event.splits option.splits)

lemma entity_ok [simp]:
  "coordinator_ok n D (onEntityStarted opts shardId entity s) = coordinator_ok n D s"
  "coordinator_ok n D (onEntityStopped opts shardId entity s) = coordinator_ok n D s"
  by (rule coordinator_ok_core; simp add: onEntityStarted_def onEntityStopped_def)+

lemma heartbeat_ok: "coordinator_ok n D s \<Longrightarrow> coordinator_ok n D (onRegionHeartbeat v region node s)"
  by (simp add: onRegionHeartbeat_def Let_def touch_ok split: option.splits)

lemma stats_frame [simp]: "core (s\<lparr>statsQueries := q\<rparr>) = core s" "core (s\<lparr>nextStatsQuery := i\<rparr>) = core s"
  by (simp_all add: core_def)

lemma stats_ok [simp]:
  "coordinator_ok n D (onGetClusterShardingStats correlationId requester node s) = coordinator_ok n D s"
  "coordinator_ok n D (onStatsTimeout queryId s) = coordinator_ok n D s"
  by (rule coordinator_ok_core;
      simp add: onGetClusterShardingStats_def onStatsTimeout_def Let_def foldl_frame [where f = core] foldl_frame [where f = sc_saved] stats_frame
        split: option.splits)+

lemma region_stats_ok: "coordinator_ok n D s \<Longrightarrow> coordinator_ok n D (onShardRegionStats v queryId region node entries s)"
proof -
  assume s: "coordinator_ok n D s"
  have "coordinator_ok n D (onShardRegionStats v queryId region node entries s) = coordinator_ok n D (markRegionSeen v region node s)"
    by (rule coordinator_ok_core) (simp_all add: onShardRegionStats_def Let_def split: option.splits)
  then show ?thesis using markRegionSeen_ok [OF s] by simp
qed

lemma dispatch_ok:
  assumes "coordinator_ok n {} s" "n = numShards opts"
  shows "coordinator_ok n {} (dispatchShardingMessage opts v m s)"
  using assms
  by (cases m) (simp_all add: dispatchShardingMessage_def onRegister_ok onGetShardHome_ok handOffComplete_ok onRegionTerminated_ok heartbeat_ok region_stats_ok)

lemma lease_frame:
  "core (reconcileLease opts v s) = core s \<and> sc_saved (reconcileLease opts v s) = sc_saved s"
  by (simp add: reconcileLease_def core_def split: lease_state.splits)

lemma reconcile_ok [simp]: "coordinator_ok n D (reconcileLease opts v s) = coordinator_ok n D s"
  by (rule coordinator_ok_core) (simp_all add: lease_frame)

lemma lease_result_ok:
  assumes "coordinator_ok n {} s" "n = numShards opts"
  shows "coordinator_ok n {} (onLeaseAcquireResult opts v got s)"
proof -
  have frame: "coordinator_ok n {} (s\<lparr>leaseState := l, acquireBuffer := b\<rparr>)" "coordinator_ok n {} (s\<lparr>sc_lease := c\<rparr>)"
    "coordinator_ok n {} (s\<lparr>leaseState := l, sc_lease := c\<rparr>)" "coordinator_ok n {} (s\<lparr>leaseState := l, acquireRetryTimer := r\<rparr>)" for l b c r
    using assms(1) by (simp_all add: coordinator_ok_def ownership_def)
  have "coordinator_ok n {} (foldl (\<lambda>s m. dispatchShardingMessage opts v m s) t ms)" if "coordinator_ok n {} t" for t ms
    using that by (rule foldl_invariant [where P = "coordinator_ok n {}", rotated]) (rule dispatch_ok [OF _ assms(2)])
  then show ?thesis using frame assms(1) by (simp add: onLeaseAcquireResult_def)
qed

lemma cleared_ok:
  "coordinator_ok n {} s \<Longrightarrow> coordinator_ok n {} (onLeaseLost s)" "coordinator_ok n {} s \<Longrightarrow> coordinator_ok n {} (onLeaderChanged v s)"
  by (simp_all add: onLeaseLost_def onLeaderChanged_def coordinator_ok_def ownership_def)

lemma save_settled_ok: "coordinator_ok n {} s \<Longrightarrow> coordinator_ok n {} (onSaveSettled opts v s)"
  using snapshot_consistent [of n "{}" "s\<lparr>stateInFlight := False, stateDirty := False\<rparr>" opts]
  by (simp add: onSaveSettled_def scheduleCoordinatorStateSave_def coordinator_ok_def ownership_def)

lemma step_ok:
  assumes s: "coordinator_ok n {} s" and n: "n = numShards opts" and ev: "event_ok opts ev s"
  shows "coordinator_ok n {} (coordinator_step opts v ev s)"
proof (cases ev)
  case (StateLoaded loaded)
  show ?thesis
  proof (cases loaded)
    case None
    then show ?thesis using s StateLoaded by (simp add: coordinator_step_def loadCoordinatorState_def)
  next
    case (Some data)
    then show ?thesis using load_ok [OF s] ev StateLoaded n by (simp add: coordinator_step_def event_ok_def)
  qed
next
  case (Receive m peer)
  have "coordinator_ok n {} (s\<lparr>acquireBuffer := b\<rparr>)" for b using s by (simp add: coordinator_ok_def ownership_def)
  then show ?thesis using Receive s dispatch_ok [OF s n] by (simp add: coordinator_step_def receiveShardingMessage_def)
next
  case AcquireRetry
  have "coordinator_ok n {} (s\<lparr>acquireRetryTimer := False\<rparr>)" using s by (simp add: coordinator_ok_def ownership_def)
  then show ?thesis using AcquireRetry s by (simp add: coordinator_step_def)
next
  case PublishTimer
  have "coordinator_ok n {} (publishShardMap opts v (s\<lparr>shardMapPublishTimer := False\<rparr>)) = coordinator_ok n {} s"
    by (rule coordinator_ok_core) (simp_all add: core_def [of s] core_def [of "s\<lparr>shardMapPublishTimer := False\<rparr>"])
  then show ?thesis using PublishTimer s by (simp add: coordinator_step_def)
next
  case (RequestRegistrations addresses)
  have "coordinator_ok n {} (onRequestRegistrations v addresses s) = coordinator_ok n {} s"
    by (rule coordinator_ok_core) (simp_all add: onRequestRegistrations_def foldl_frame [where f = core] foldl_frame [where f = sc_saved] split_def)
  then show ?thesis using RequestRegistrations s by (simp add: coordinator_step_def)
qed (use s n in \<open>simp_all add: coordinator_step_def lease_result_ok cleared_ok rebalanceTick_ok handOffTimeout_ok save_settled_ok onMemberRemoved_ok\<close>)

lemma history_ok_invariant:
  "coordinator_ok n {} s \<Longrightarrow> n = numShards opts \<Longrightarrow> history_ok opts events s \<Longrightarrow> coordinator_ok n {} (coordinator_history opts events s)"
proof (induction events arbitrary: s)
  case (Cons e events)
  obtain v ev where e: "e = (v, ev)" by fastforce
  then show ?case using Cons.IH [OF step_ok [OF Cons.prems(1,2)]] Cons.prems(2,3) by (simp add: coordinator_history_def)
qed (simp add: coordinator_history_def)

lemma start_ok: "coordinator_ok n {} (coordinator_start remembered)"
proof -
  have "coordinator_ok n {} (coordinator_start remembered) = coordinator_ok n {} new_coordinator"
    unfolding coordinator_start_def by (rule coordinator_ok_core) (simp_all add: foldl_frame [where f = core] foldl_frame [where f = sc_saved])
  then show ?thesis by (simp add: new_coordinator_def coordinator_ok_def ownership_def)
qed

section \<open>One owner per shard\<close>

text \<open>
  C29: In every history of a coordinator whose snapshot loads, if any, come before anything has registered and carry a
  snapshot that a coordinator saved, each shard has at most one owner: the sets of the regions and the map of the homes agree, a
  home is always a registered region and a shard id in range, a hand-off in progress is one of the owner, requests
  wait only for shards without a home, and every snapshot it saves may in turn be loaded.
\<close>

theorem shard_has_one_owner:
  assumes "history_ok opts events (coordinator_start remembered)"
  shows "let s = coordinator_history opts events (coordinator_start remembered) in
     (\<forall>key info. jget (regions s) key = Some info \<longrightarrow> (\<forall>x. x \<in> set (ri_shards info) \<longleftrightarrow> jget (shardHome s) x = Some key)) \<and>
     (\<forall>x key. jget (shardHome s) x = Some key \<longrightarrow> 0 \<le> x \<and> x < numShards opts \<and> jget (regions s) key \<noteq> None) \<and>
     (\<forall>x key. jget (rebalanceInProgress s) x = Some key \<longrightarrow> jget (shardHome s) x = Some key) \<and>
     (\<forall>x waiting. jget (sc_pending s) x = Some waiting \<longrightarrow> waiting \<noteq> [] \<longrightarrow> jget (shardHome s) x = None) \<and>
     list_all (consistent_snapshot (numShards opts)) (sc_saved s)"
proof -
  note ok = coordinator_okD [OF history_ok_invariant [OF start_ok refl assms]]
  show ?thesis
    unfolding Let_def
  proof (intro conjI allI impI)
    fix key info x assume "jget (regions (coordinator_history opts events (coordinator_start remembered))) key = Some info"
    from ok(3) [OF this]
    show "x \<in> set (ri_shards info) \<longleftrightarrow> jget (shardHome (coordinator_history opts events (coordinator_start remembered))) x = Some key"
      by (simp add: region_agrees_def)
  next
    fix x key assume "jget (shardHome (coordinator_history opts events (coordinator_start remembered))) x = Some key"
    from ok(4) [OF this] show "0 \<le> x" "x < numShards opts" "jget (regions (coordinator_history opts events (coordinator_start remembered))) key \<noteq> None"
      by simp_all
  qed (use ok(5,6,7) in blast)+
qed

text \<open>
  Two nodes, four shards, hashed placement: a snapshot is loaded, a region registers with a shard, asks for another, and
  loses that one to the second region.
\<close>

definition shard_demo_member :: "string \<Rightarrow> cmember" where
  "shard_demo_member h = \<lparr>m_address = shard_demo_node h, m_status = Up, m_version = Fin 1, m_roles = [], m_removedAt = None, m_storageIdentities = None,
     m_configurationFacts = None, m_appVersion = None\<rparr>"

definition shard_demo_view :: "string list \<Rightarrow> cluster_view" where
  "shard_demo_view hosts = \<lparr>cv_isLeader = True, cv_members = map shard_demo_member hosts, cv_clock = 0, cv_date = 0\<rparr>"

definition shard_demo_options :: coordinator_options where
  "shard_demo_options = \<lparr>numShards = 4, co_role = None, pick_node = (\<lambda>shardId cands shards. projr (hash_allocate by_code_units shardId cands shards)),
     propose = hash_rebalance by_code_units, rememberEntities = False, rememberStore = False, hasLease = False, stateStore = True,
     staleRegionDetection = False, regionStaleAfterMs = 10, rebalanceAbsoluteLimit = 1, relativeShards = 0, membershipSettleWindowMs = 0\<rparr>"

definition shard_demo_snapshot :: coordinator_state_data where
  "shard_demo_snapshot = \<lparr>sd_regions = [\<lparr>sr_key = ''s@b:1|r'', sr_node = shard_demo_node ''b'', sr_path = ''r'', sr_proxy = False, sr_shards = [3]\<rparr>],
     sd_shardHome = [(3, ''s@b:1|r'')], sd_numShards = Some 4\<rparr>"

definition shard_demo_history :: "(cluster_view \<times> coordinator_event) list" where
  "shard_demo_history = map (\<lambda>ev. (shard_demo_view [''a'', ''b''], ev))
     [StateLoaded (Some shard_demo_snapshot),
      Receive (Register ''r'' (shard_demo_node ''a'') False (JArr [JNum (Fin 0), JNum (Fin 1), JNum (Fin 3)]) 4) (Some (shard_demo_node ''a'')),
      Receive (GetShardHome 2 ''r'' (shard_demo_node ''b'')) (Some (shard_demo_node ''b'')),
      Receive (Register ''r'' (shard_demo_node ''b'') False (JArr []) 4) (Some (shard_demo_node ''b'')),
      RebalanceTimer,
      Receive (HandOffComplete 1 ''r'' (shard_demo_node ''a'')) (Some (shard_demo_node ''a''))]"

definition no_load :: "coordinator_event \<Rightarrow> bool" where
  "no_load ev = (case ev of StateLoaded (Some data) \<Rightarrow> False | _ \<Rightarrow> True)"

lemma history_ok_no_load: "list_all (\<lambda>(v, ev). no_load ev) events \<Longrightarrow> history_ok opts events s"
proof (induction events arbitrary: s)
  case (Cons e events)
  then show ?case by (cases e) (auto simp: event_ok_def no_load_def split: coordinator_event.splits option.splits)
qed simp

lemma shard_demo_snapshot_consistent: "consistent_snapshot 4 shard_demo_snapshot"
  by (auto simp: consistent_snapshot_def shard_demo_snapshot_def jwf_def jget_map_of regionKey_def shard_demo_node_string)

theorem shard_has_one_owner_witness:
  "let s = coordinator_history shard_demo_options shard_demo_history (coordinator_start []) in
     shardHome s = [(3, ''s@b:1|r''), (0, ''s@a:1|r''), (2, ''s@a:1|r''), (1, ''s@b:1|r'')] \<and>
     list_all (consistent_snapshot (numShards shard_demo_options)) (sc_saved s)"
proof -
  obtain v ev rest where h: "shard_demo_history = (v, ev) # rest" "ev = StateLoaded (Some shard_demo_snapshot)" "list_all (\<lambda>(v, ev). no_load ev) rest"
    by (simp add: shard_demo_history_def no_load_def)
  have "event_ok shard_demo_options ev (coordinator_start [])"
    by (simp add: h(2) event_ok_def shard_demo_snapshot_consistent shard_demo_options_def coordinator_start_def new_coordinator_def)
  then have "history_ok shard_demo_options shard_demo_history (coordinator_start [])" using history_ok_no_load [OF h(3)] by (simp add: h(1))
  from shard_has_one_owner [OF this]
  have "list_all (consistent_snapshot (numShards shard_demo_options)) (sc_saved (coordinator_history shard_demo_options shard_demo_history (coordinator_start [])))"
    unfolding Let_def by blast
  moreover have "shardHome (coordinator_history shard_demo_options shard_demo_history (coordinator_start [])) =
      [(3, ''s@b:1|r''), (0, ''s@a:1|r''), (2, ''s@a:1|r''), (1, ''s@b:1|r'')]"
    by code_simp
  ultimately show ?thesis by (simp add: Let_def)
qed

section \<open>A snapshot that arrives late\<close>

text \<open>
  The load is asynchronous, so a region may register and be given a shard first. The snapshot's region of that shard is
  still taken over with the shard in its set, and when its node leaves, the home of the real owner is deleted.
\<close>

definition late_snapshot :: coordinator_state_data where
  "late_snapshot = \<lparr>sd_regions = [\<lparr>sr_key = ''s@b:1|r'', sr_node = shard_demo_node ''b'', sr_path = ''r'', sr_proxy = False, sr_shards = [1]\<rparr>],
     sd_shardHome = [(1, ''s@b:1|r'')], sd_numShards = Some 4\<rparr>"

definition late_history :: "(cluster_view \<times> coordinator_event) list" where
  "late_history =
     [(shard_demo_view [''a'', ''b'', ''c''], LeaderChanged),
      (shard_demo_view [''a'', ''b'', ''c''], Receive (Register ''r'' (shard_demo_node ''a'') False (JArr []) 4) (Some (shard_demo_node ''a''))),
      (shard_demo_view [''a'', ''b'', ''c''], Receive (GetShardHome 1 ''r'' (shard_demo_node ''a'')) (Some (shard_demo_node ''a''))),
      (shard_demo_view [''a'', ''b'', ''c''], StateLoaded (Some late_snapshot)),
      (shard_demo_view [''a'', ''b'', ''c''], Receive (Register ''r'' (shard_demo_node ''c'') False (JArr []) 4) (Some (shard_demo_node ''c''))),
      (shard_demo_view [''a'', ''c''], MemberRemoved (shard_demo_node ''b''))]"

lemma late_snapshot_consistent: "consistent_snapshot 4 late_snapshot"
  by (auto simp: consistent_snapshot_def late_snapshot_def jwf_def jget_map_of regionKey_def shard_demo_node_string)


end
