(* ===== verification/Shard_Rebalance.thy ===== *)
theory Shard_Rebalance
  imports Shard_Ownership
begin

text \<open>
  Placement and rebalancing of the coordinator: a shard goes only to a region that may host it, and with either of the
  strategies it goes to one whenever there is one; the shards of a rebalance are taken from the owners in turn; the
  number of concurrent hand-offs is bounded.
\<close>

section \<open>Shards in turn\<close>

text \<open>The reference: the first shard of every owner, then the second of every owner that has one, and so on.\<close>

definition round_robin :: "'a list list \<Rightarrow> 'a list" where
  "round_robin queues = concat (transpose queues)"

definition upto_budget :: "int option \<Rightarrow> 'a list \<Rightarrow> 'a list" where
  "upto_budget budget xs = (case budget of None \<Rightarrow> xs | Some b \<Rightarrow> take (nat b) xs)"

definition owner_queues :: "coordinator \<Rightarrow> int jset \<Rightarrow> int list list" where
  "owner_queues s ids = map (\<lambda>key. sort (filter (\<lambda>x. jget (shardHome s) x = Some key) ids)) (sort (remdups (List.map_filter (jget (shardHome s)) ids)))"

lemma pick_round_all:
  assumes "under_budget (length picked) budget"
  shows "pick_round budget r picked progressed queues =
    (upto_budget budget (picked @ map (\<lambda>q. q ! r) (filter (\<lambda>q. r < length q) queues)), progressed \<or> (\<exists>q \<in> set queues. r < length q))"
  using assms
proof (induction budget r picked progressed queues rule: pick_round.induct)
  case (1 budget r picked progressed)
  then show ?case by (auto simp: upto_budget_def under_budget_def split: option.splits)
next
  case (2 budget r picked progressed q queues)
  show ?case
  proof (cases "r < length q")
    case False
    then show ?thesis using 2(1) 2(3) by simp
  next
    case True
    show ?thesis
    proof (cases "under_budget (length (picked @ [q ! r])) budget")
      case True
      then show ?thesis using 2(2) \<open>r < length q\<close> by simp
    next
      case False
      then obtain b where b: "budget = Some b" "nat b = Suc (length picked)"
        using 2(3) by (auto simp: under_budget_def split: option.splits)
      then show ?thesis using False \<open>r < length q\<close> by (simp add: upto_budget_def)
    qed
  qed
qed

lemma upto_budget_prefix:
  assumes "\<not> under_budget (length (upto_budget budget xs)) budget"
  shows "upto_budget budget (xs @ ys) = upto_budget budget xs"
  using assms by (auto simp: under_budget_def upto_budget_def split: option.splits)

lemma upto_budget_short: "under_budget (length (upto_budget budget xs)) budget \<Longrightarrow> upto_budget budget xs = xs"
  by (auto simp: under_budget_def upto_budget_def split: option.splits)

lemma transpose_rows:
  "concat (take (Suc r) (transpose queues)) = concat (take r (transpose queues)) @ map (\<lambda>q. q ! r) (filter (\<lambda>q. r < length q) queues)"
proof (cases "r < length (transpose queues)")
  case True
  then show ?thesis by (simp add: take_Suc_conv_app_nth nth_transpose)
next
  case False
  have "length q \<le> r" if "q \<in> set queues" for q
  proof -
    have "length q \<le> foldr (\<lambda>xs. max (length xs)) queues 0" using that by (induction queues) auto
    then show ?thesis using False by (simp add: length_transpose)
  qed
  then have "filter (\<lambda>q. r < length q) queues = []" by (auto simp: filter_empty_conv not_less)
  then show ?thesis using False by simp
qed

lemma transpose_exhausted:
  assumes "\<forall>q \<in> set queues. length q \<le> r"
  shows "length (transpose queues) \<le> r"
  using assms by (simp add: length_transpose) (induction queues; simp)

lemma pick_rounds_round_robin:
  assumes "picked = upto_budget budget (concat (take r (transpose queues)))"
  shows "pick_rounds budget r picked queues = upto_budget budget (round_robin queues)"
  using assms
proof (induction budget r picked queues rule: pick_rounds.induct)
  case (1 budget r picked queues)
  have split: "round_robin queues = concat (take r (transpose queues)) @ concat (drop r (transpose queues))"
    unfolding round_robin_def concat_append [symmetric] by simp
  show ?case
  proof (cases "under_budget (length picked) budget")
    case False
    then have "upto_budget budget (round_robin queues) = picked" unfolding split 1(2) by (rule upto_budget_prefix)
    then show ?thesis using False by (simp add: pick_rounds.simps)
  next
    case True
    then have picked: "picked = concat (take r (transpose queues))" using upto_budget_short 1(2) by metis
    have row: "pick_round budget r picked False queues =
        (upto_budget budget (concat (take (Suc r) (transpose queues))), \<exists>q \<in> set queues. r < length q)"
      unfolding transpose_rows picked [symmetric] using pick_round_all [OF True] by simp
    show ?thesis
    proof (cases "\<exists>q \<in> set queues. r < length q")
      case False
      then have "length (transpose queues) \<le> r" by (intro transpose_exhausted) (auto simp: not_less)
      then have "concat (take (Suc r) (transpose queues)) = round_robin queues" by (simp add: round_robin_def)
      then show ?thesis using True row False by (simp add: pick_rounds.simps [of budget r])
    next
      case more: True
      have "pick_rounds budget (r + 1) (upto_budget budget (concat (take (r + 1) (transpose queues)))) queues = upto_budget budget (round_robin queues)"
        by (rule 1(1)) (use True row more in simp_all)
      then show ?thesis using True row more by (simp add: pick_rounds.simps [of budget r])
    qed
  qed
qed

lemma mset_transpose: "mset (concat (transpose queues)) = mset (concat queues)"
proof (induction queues rule: transpose.induct)
  case (3 x xs xss)
  have "mset (concat xss) = mset (concat (map (\<lambda>l. case l of [] \<Rightarrow> [] | h # t \<Rightarrow> [h]) xss)) +
      mset (concat (concat (map (\<lambda>l. case l of [] \<Rightarrow> [] | h # t \<Rightarrow> [t]) xss)))"
    by (induction xss) (auto split: list.splits)
  then show ?case using 3 by simp
qed simp_all

lemma by_owner_get:
  "jget (by_owner s ids) key = (let own = filter (\<lambda>x. jget (shardHome s) x = Some key) ids in if own = [] then None else Some own)"
proof (induction ids rule: rev_induct)
  case (snoc x ids)
  then show ?case by (auto simp: by_owner_def Let_def split: option.splits)
qed (simp add: by_owner_def)

lemma by_owner_wf: "jwf (by_owner s ids)"
proof (induction ids rule: rev_induct)
  case (snoc x ids)
  then show ?case by (simp add: by_owner_def split: option.splits)
qed (simp add: by_owner_def)

lemma set_map_filter: "set (List.map_filter f xs) = {y. \<exists>x \<in> set xs. f x = Some y}"
  by (induction xs) (auto split: option.splits)

lemma owner_queues_alt: "map (\<lambda>key. sort (the (jget (by_owner s ids) key))) (sort (jkeys (by_owner s ids))) = owner_queues s ids"
proof -
  have keys: "set (jkeys (by_owner s ids)) = {key. \<exists>x \<in> set ids. jget (shardHome s) x = Some key}"
    unfolding jkeys_set by (auto simp: by_owner_get Let_def dom_def filter_empty_conv)
  also have "\<dots> = set (remdups (List.map_filter (jget (shardHome s)) ids))" by (simp add: set_map_filter)
  finally have eq: "sort (jkeys (by_owner s ids)) = sort (remdups (List.map_filter (jget (shardHome s)) ids))"
    using by_owner_wf [of s ids] by (intro sorted_distinct_set_unique) (simp_all add: jwf_def jkeys_def)
  have queue: "sort (the (jget (by_owner s ids) key)) = sort (filter (\<lambda>x. jget (shardHome s) x = Some key) ids)"
    if "key \<in> set (sort (jkeys (by_owner s ids)))" for key
    using that unfolding set_sort keys by (auto simp: by_owner_get Let_def filter_empty_conv)
  show ?thesis unfolding owner_queues_def eq [symmetric] by (rule map_cong [OF refl queue])
qed

lemma mset_by_key:
  assumes "distinct keys"
  shows "mset (concat (map (\<lambda>key. sort (filter (\<lambda>x. h x = Some key) ids)) keys)) = mset (filter (\<lambda>x. h x \<in> Some ` set keys) ids)"
  using assms
proof (induction keys)
  case (Cons key keys)
  have "filter_mset (\<lambda>x. h x = Some key) (mset ids) + filter_mset (\<lambda>x. h x \<in> Some ` set keys) (mset ids) =
      filter_mset (\<lambda>x. h x \<in> Some ` set (key # keys)) (mset ids)"
    using Cons.prems by (intro multiset_eqI) (auto simp: image_iff)
  then show ?case using Cons by simp
qed simp

lemma mset_owner_queues: "mset (concat (owner_queues s ids)) = mset (filter (\<lambda>x. jget (shardHome s) x \<noteq> None) ids)"
proof -
  have "distinct (sort (remdups (List.map_filter (jget (shardHome s)) ids)))" by simp
  from mset_by_key [OF this, of "jget (shardHome s)" ids]
  have "mset (concat (owner_queues s ids)) = mset (filter (\<lambda>x. jget (shardHome s) x \<in> Some ` set (List.map_filter (jget (shardHome s)) ids)) ids)"
    unfolding owner_queues_def by simp
  also have "filter (\<lambda>x. jget (shardHome s) x \<in> Some ` set (List.map_filter (jget (shardHome s)) ids)) ids = filter (\<lambda>x. jget (shardHome s) x \<noteq> None) ids"
    by (rule filter_cong) (auto simp: set_map_filter image_iff)
  finally show ?thesis .
qed

lemma rebalance_picks: "shardsWithinBudget s ids budget = upto_budget budget (round_robin (owner_queues s ids))"
  unfolding shardsWithinBudget_def owner_queues_alt
  by (rule pick_rounds_round_robin) (simp add: upto_budget_def split: option.splits)

text \<open>
  C32: The loop that chooses the shards of a rebalance ends for every budget, without a limit too, and is a round robin: it
  takes the first shard of every owner, in the order of their keys, then the second of each, until the budget is used up or all are taken,
  and what it goes through is exactly the proposed shards that have a home.
\<close>

theorem rebalance_takes_owners_in_turn:
  "shardsWithinBudget s ids budget = upto_budget budget (round_robin (owner_queues s ids)) \<and>
   mset (round_robin (owner_queues s ids)) = mset (filter (\<lambda>x. jget (shardHome s) x \<noteq> None) ids)"
proof
  show "shardsWithinBudget s ids budget = upto_budget budget (round_robin (owner_queues s ids))" by (rule rebalance_picks)
  show "mset (round_robin (owner_queues s ids)) = mset (filter (\<lambda>x. jget (shardHome s) x \<noteq> None) ids)"
    unfolding round_robin_def mset_transpose by (rule mset_owner_queues)
qed

section \<open>Placement\<close>

definition may_host :: "coordinator_options \<Rightarrow> cluster_view \<Rightarrow> coordinator \<Rightarrow> string \<Rightarrow> region_info \<Rightarrow> bool" where
  "may_host opts v s key info =
     (jget (regions s) key = Some info \<and> \<not> ri_proxy info \<and> key \<notin> set (refusedRegions s) \<and> role_ok opts v (ri_node info) \<and> isUpMember v (ri_node info))"

definition waiting_for :: "coordinator \<Rightarrow> int \<Rightarrow> (string \<times> node_address) list" where
  "waiting_for s shardId = (case jget (sc_pending s) shardId of None \<Rightarrow> [] | Some waiting \<Rightarrow> waiting)"

lemma eligible_may_host:
  "jwf (regions s) \<Longrightarrow> (key, info) \<in> set (eligibleOf v (candidateRegions opts v s)) \<longleftrightarrow> may_host opts v s key info"
  using jget_in_eq [of "regions s" key info] by (auto simp: eligibleOf_def candidateRegions_def may_host_def)

lemma regionKeyOn_Some: "regionKeyOn node entries = Some key \<Longrightarrow> \<exists>info. (key, info) \<in> set entries \<and> addr_equals (ri_node info) node"
  by (auto simp: regionKeyOn_def find_Some_iff split_def) (metis nth_mem snd_conv)

lemma regionKeyOn_member: "node \<in> set (nodesOf entries) \<Longrightarrow> regionKeyOn node entries \<noteq> None"
  by (auto simp: regionKeyOn_def nodesOf_def find_None_iff addr_equals_def)

lemma placementFor_Some: "placementFor opts v shardId cands eligible s = Some key \<Longrightarrow> \<exists>info. (key, info) \<in> set eligible"
  by (auto simp: placementFor_def Let_def split: option.splits if_splits dest: regionKeyOn_Some)

lemma nodesOf_Nil [simp]: "nodesOf entries = [] \<longleftrightarrow> entries = []"
  by (simp add: nodesOf_def)

context allocation_strategy
begin

lemma placement_found:
  assumes "pick_node opts = (\<lambda>shardId cands shards. projr (allocate shardId cands shards))" "eligible \<noteq> []"
  shows "placementFor opts v shardId cands eligible s \<noteq> None"
proof -
  obtain a where "a \<in> set (nodesOf eligible)" "allocate shardId (nodesOf eligible) (shardCountsOf (map snd eligible)) = Inr a"
    using allocate_candidate [of "nodesOf eligible" shardId "shardCountsOf (map snd eligible)"] assms(2) by auto
  then have "regionKeyOn (pick_node opts shardId (nodesOf eligible) (shardCountsOf (map snd eligible))) eligible \<noteq> None"
    using assms(1) by (simp add: regionKeyOn_member)
  then show ?thesis by (auto simp: placementFor_def Let_def split: option.splits)
qed

end

lemma after_sent [simp]: "sc_sent (afterShardMapChange opts v s) = sc_sent s" "sc_pending (afterShardMapChange opts v s) = sc_pending s"
  "regions (afterShardMapChange opts v s) = regions s" "shardHome (afterShardMapChange opts v s) = shardHome s"
  by (simp_all add: afterShardMapChange_def scheduleShardMapPublish_def scheduleCoordinatorStateSave_def)

lemma send_sent: "set (sc_sent s) \<subseteq> set (sc_sent (sendToRegion key m s))"
  by (auto simp: sendToRegion_def replyTo_def split: option.splits)

lemma ship_sent:
  "set (sc_sent s) \<subseteq> set (sc_sent (shipRememberedEntities shardId s))" "sc_pending (shipRememberedEntities shardId s) = sc_pending s"
  "regions (shipRememberedEntities shardId s) = regions s" "shardHome (shipRememberedEntities shardId s) = shardHome s"
  using send_sent shipRememberedEntities_frame(1) [of shardId s] by (auto simp: shipRememberedEntities_def core_def split: option.splits)

lemma replies_sent:
  "sc_sent (foldl (\<lambda>s (path, node). replyTo path node m s) s waiting) = sc_sent s @ map (\<lambda>(path, node). (node, path, m)) waiting"
  by (induction waiting arbitrary: s) (auto simp: replyTo_def)

lemma flush_effect:
  assumes "jget (shardHome s) shardId = Some home" "jget (regions s) home = Some info"
  shows "sc_sent (flushPending shardId s) = sc_sent s @ map (\<lambda>(path, node). (node, path, ShardHome shardId (ri_path info) (ri_node info))) (waiting_for s shardId)"
    "waiting_for (flushPending shardId s) shardId = []"
  using assms by (auto simp: flushPending_def waiting_for_def replies_sent split: option.splits)

lemma place_effect:
  assumes "jget (regions s) key = Some info"
  shows "shardHome (place opts v shardId key s) = jset (shardHome s) shardId key"
    "regions (place opts v shardId key s) = jset (regions s) key (info\<lparr>ri_shards := sadd (ri_shards info) shardId\<rparr>)"
    "waiting_for (place opts v shardId key s) shardId = []"
    "(path, node) \<in> insert (ri_path info, ri_node info) (set (waiting_for s shardId)) \<Longrightarrow>
      (node, path, ShardHome shardId (ri_path info) (ri_node info)) \<in> set (sc_sent (place opts v shardId key s))"
proof -
  define s1 where "s1 = sendToRegion key (ShardHome shardId (ri_path info) (ri_node info))
    (s\<lparr>shardHome := jset (shardHome s) shardId key, regions := jset (regions s) key (info\<lparr>ri_shards := sadd (ri_shards info) shardId\<rparr>)\<rparr>)"
  define s2 where "s2 = (if rememberEntities opts then shipRememberedEntities shardId (flushPending shardId s1) else flushPending shardId s1)"
  have place: "place opts v shardId key s = afterShardMapChange opts v s2"
    using assms by (simp add: place_def Let_def s1_def s2_def)
  have s1: "jget (shardHome s1) shardId = Some key" "jget (regions s1) key = Some (info\<lparr>ri_shards := sadd (ri_shards info) shardId\<rparr>)"
    "sc_sent s1 = sc_sent s @ [(ri_node info, ri_path info, ShardHome shardId (ri_path info) (ri_node info))]" "waiting_for s1 shardId = waiting_for s shardId"
    by (simp_all add: s1_def) (simp_all add: sendToRegion_def replyTo_def waiting_for_def)
  note flush = flush_effect [OF s1(1,2)]
  have grows: "set (sc_sent (flushPending shardId s1)) \<subseteq> set (sc_sent s2)" by (simp add: s2_def ship_sent)
  show "shardHome (place opts v shardId key s) = jset (shardHome s) shardId key"
    "regions (place opts v shardId key s) = jset (regions s) key (info\<lparr>ri_shards := sadd (ri_shards info) shardId\<rparr>)"
    by (simp_all add: place s2_def ship_sent s1_def)
  show "waiting_for (place opts v shardId key s) shardId = []"
    using flush(2) by (simp add: place s2_def ship_sent waiting_for_def)
  assume "(path, node) \<in> insert (ri_path info, ri_node info) (set (waiting_for s shardId))"
  then have "(node, path, ShardHome shardId (ri_path info) (ri_node info)) \<in> set (sc_sent (flushPending shardId s1))"
    unfolding flush(1) s1(3,4) by (auto intro: rev_image_eqI)
  then show "(node, path, ShardHome shardId (ri_path info) (ri_node info)) \<in> set (sc_sent (place opts v shardId key s))"
    using grows by (auto simp: place)
qed

lemma observe_more [simp]: "sc_pending (observeEligibleSet v cands s) = sc_pending s" "sc_sent (observeEligibleSet v cands s) = sc_sent s"
  by (simp_all add: observeEligibleSet_def Let_def)

text \<open>What an allocation comes to: it observes the eligible set and, where the strategy finds a region, places the shard there.\<close>

lemma tryAllocate_cases:
  obtains (kept) "shardHome (tryAllocate opts v shardId s) = shardHome s" "waiting_for (tryAllocate opts v shardId s) shardId = waiting_for s shardId"
      "eligibleOf v (candidateRegions opts v s) = [] \<or>
       placementFor opts v shardId (candidateRegions opts v s) (eligibleOf v (candidateRegions opts v s)) (observeEligibleSet v (candidateRegions opts v s) s) = None"
  | (placed) key where "tryAllocate opts v shardId s = place opts v shardId key (observeEligibleSet v (candidateRegions opts v s) s)"
      "eligibleOf v (candidateRegions opts v s) \<noteq> []"
      "placementFor opts v shardId (candidateRegions opts v s) (eligibleOf v (candidateRegions opts v s)) (observeEligibleSet v (candidateRegions opts v s) s) = Some key"
proof -
  define cands where "cands = candidateRegions opts v s"
  define s1 where "s1 = observeEligibleSet v cands s"
  have same: "shardHome s1 = shardHome s" "waiting_for s1 shardId = waiting_for s shardId" by (simp_all add: s1_def waiting_for_def)
  have sub: "eligibleOf v cands \<noteq> [] \<Longrightarrow> cands \<noteq> []" by (auto simp: eligibleOf_def)
  have run: "tryAllocate opts v shardId s =
      (if eligibleOf v cands = [] then s1
       else case placementFor opts v shardId cands (eligibleOf v cands) s1 of None \<Rightarrow> s1 | Some key \<Rightarrow> place opts v shardId key s1)"
    using sub by (cases "cands = []") (simp_all add: tryAllocate_def Let_def s1_def cands_def [symmetric] eligibleOf_def split: option.splits)
  show thesis
  proof (cases "eligibleOf v cands = [] \<or> placementFor opts v shardId cands (eligibleOf v cands) s1 = None")
    case True
    then have "tryAllocate opts v shardId s = s1" by (auto simp: run)
    then show ?thesis using True same by (intro kept) (simp_all add: cands_def s1_def)
  next
    case False
    then obtain key where "eligibleOf v cands \<noteq> []" "placementFor opts v shardId cands (eligibleOf v cands) s1 = Some key" by auto
    then show ?thesis by (intro placed [of key]) (simp_all add: run cands_def s1_def)
  qed
qed

lemma allocation_placed:
  assumes wf: "jwf (regions s)" and t: "tryAllocate opts v shardId s = place opts v shardId key (observeEligibleSet v (candidateRegions opts v s) s)"
    and key: "placementFor opts v shardId (candidateRegions opts v s) (eligibleOf v (candidateRegions opts v s)) (observeEligibleSet v (candidateRegions opts v s) s) = Some key"
  obtains info where "may_host opts v s key info" "let t = tryAllocate opts v shardId s in
         shardHome t = jset (shardHome s) shardId key \<and>
         regions t = jset (regions s) key (info\<lparr>ri_shards := sadd (ri_shards info) shardId\<rparr>) \<and> waiting_for t shardId = [] \<and>
         (\<forall>(path, node) \<in> insert (ri_path info, ri_node info) (set (waiting_for s shardId)).
            (node, path, ShardHome shardId (ri_path info) (ri_node info)) \<in> set (sc_sent t))"
proof -
  define s1 where "s1 = observeEligibleSet v (candidateRegions opts v s) s"
  have s1: "regions s1 = regions s" "shardHome s1 = shardHome s" "waiting_for s1 shardId = waiting_for s shardId"
    by (simp_all add: s1_def waiting_for_def)
  obtain info where info: "may_host opts v s key info" using placementFor_Some [OF key] eligible_may_host [OF wf] by blast
  then have reg: "jget (regions s1) key = Some info" by (simp add: may_host_def s1)
  show thesis
    using that [OF info] place_effect [OF reg, where opts = opts and v = v and shardId = shardId]
    unfolding t s1_def [symmetric] Let_def s1 by blast
qed

text \<open>
  C30: An allocation gives a shard only to a region that may host it: registered, not a proxy, not refused, with the
  required role and on a member that is up; whatever the strategy answers, no other shard moves. With either strategy it does so
  whenever there is such a region, and then the region and every waiting requester are told. Without such a region the map stays and the requests keep waiting.
\<close>

theorem allocation_only_to_eligible_regions:
  assumes wf: "jwf (regions s)"
  shows "(shardHome (tryAllocate opts v shardId s) \<noteq> shardHome s \<longrightarrow>
       (\<exists>key info. may_host opts v s key info \<and> shardHome (tryAllocate opts v shardId s) = jset (shardHome s) shardId key)) \<and>
     ((\<nexists>key info. may_host opts v s key info) \<longrightarrow>
       shardHome (tryAllocate opts v shardId s) = shardHome s \<and> waiting_for (tryAllocate opts v shardId s) shardId = waiting_for s shardId) \<and>
     ((\<exists>key info. may_host opts v s key info) \<and>
      (pick_node opts = (\<lambda>shardId cands shards. projr (hash_allocate cmp shardId cands shards)) \<or>
       pick_node opts = (\<lambda>shardId cands shards. projr (least_allocate cmp shardId cands shards))) \<longrightarrow>
      (\<exists>key info. may_host opts v s key info \<and> (let t = tryAllocate opts v shardId s in
         shardHome t = jset (shardHome s) shardId key \<and>
         regions t = jset (regions s) key (info\<lparr>ri_shards := sadd (ri_shards info) shardId\<rparr>) \<and> waiting_for t shardId = [] \<and>
         (\<forall>(path, node) \<in> insert (ri_path info, ri_node info) (set (waiting_for s shardId)).
            (node, path, ShardHome shardId (ri_path info) (ri_node info)) \<in> set (sc_sent t)))))"
proof -
  let ?cands = "candidateRegions opts v s"
  have host: "(key, info) \<in> set (eligibleOf v ?cands) \<longleftrightarrow> may_host opts v s key info" for key info
    by (rule eligible_may_host [OF wf])
  show ?thesis
  proof (cases rule: tryAllocate_cases [where opts = opts and v = v and shardId = shardId and s = s])
    case kept
    have "eligibleOf v ?cands = []" if "pick_node opts = (\<lambda>shardId cands shards. projr (hash_allocate cmp shardId cands shards)) \<or>
       pick_node opts = (\<lambda>shardId cands shards. projr (least_allocate cmp shardId cands shards))"
      using that kept(3) hash.placement_found least.placement_found by (metis option.distinct(1))
    then show ?thesis using kept(1,2) host by auto
  next
    case (placed key)
    obtain info where info: "may_host opts v s key info" and effect: "let t = tryAllocate opts v shardId s in
         shardHome t = jset (shardHome s) shardId key \<and>
         regions t = jset (regions s) key (info\<lparr>ri_shards := sadd (ri_shards info) shardId\<rparr>) \<and> waiting_for t shardId = [] \<and>
         (\<forall>(path, node) \<in> insert (ri_path info, ri_node info) (set (waiting_for s shardId)).
            (node, path, ShardHome shardId (ri_path info) (ri_node info)) \<in> set (sc_sent t))"
      by (rule allocation_placed [OF wf placed(1,3)])
    then have "shardHome (tryAllocate opts v shardId s) = jset (shardHome s) shardId key" by (simp add: Let_def)
    then show ?thesis using info effect by blast
  qed
qed

definition shard_demo_state :: coordinator where
  "shard_demo_state = coordinator_history shard_demo_options
     [(shard_demo_view [], Receive (Register ''r'' (shard_demo_node ''a'') False (JArr []) 4) (Some (shard_demo_node ''a''))),
      (shard_demo_view [], Receive (GetShardHome 1 ''r'' (shard_demo_node ''b'')) (Some (shard_demo_node ''b'')))] (coordinator_start [])"

theorem allocation_only_to_eligible_regions_witness:
  "waiting_for shard_demo_state 1 = [(''r'', shard_demo_node ''b'')] \<and> shardHome shard_demo_state = [] \<and>
   (\<exists>key. shardHome (tryAllocate shard_demo_options (shard_demo_view [''a'']) 1 shard_demo_state) = [(1, key)]) \<and>
   waiting_for (tryAllocate shard_demo_options (shard_demo_view [''a'']) 1 shard_demo_state) 1 = []"
proof -
  have s: "jwf (regions shard_demo_state)" "waiting_for shard_demo_state 1 = [(''r'', shard_demo_node ''b'')]" "shardHome shard_demo_state = []"
    "regions shard_demo_state = [(''s@a:1|r'', \<lparr>ri_node = shard_demo_node ''a'', ri_path = ''r'', ri_proxy = False, ri_shards = [], lastSeenAtMs = 0,
       lastHeartbeatAtMs = None, seededFromSnapshot = False\<rparr>)]" "refusedRegions shard_demo_state = []"
    by code_simp+
  have "may_host shard_demo_options (shard_demo_view [''a'']) shard_demo_state ''s@a:1|r'' \<lparr>ri_node = shard_demo_node ''a'', ri_path = ''r'', ri_proxy = False, ri_shards = [], lastSeenAtMs = 0,
       lastHeartbeatAtMs = None, seededFromSnapshot = False\<rparr>"
    unfolding may_host_def s(4,5)
    by (simp add: jget_map_of role_ok_def shard_demo_options_def isUpMember_def memberRecord_def shard_demo_view_def shard_demo_member_def addr_equals_def)
  moreover have "pick_node shard_demo_options = (\<lambda>shardId cands shards. projr (hash_allocate by_code_units shardId cands shards))"
    by (simp add: shard_demo_options_def)
  ultimately have "\<exists>key info. may_host shard_demo_options (shard_demo_view [''a'']) shard_demo_state key info \<and>
      shardHome (tryAllocate shard_demo_options (shard_demo_view [''a'']) 1 shard_demo_state) = jset (shardHome shard_demo_state) 1 key \<and>
      waiting_for (tryAllocate shard_demo_options (shard_demo_view [''a'']) 1 shard_demo_state) 1 = []"
    using allocation_only_to_eligible_regions [OF s(1), of shard_demo_options "shard_demo_view [''a'']" 1 by_code_units] unfolding Let_def by blast
  then show ?thesis using s(2,3) by (auto simp: jset_def)
qed

section \<open>The ceiling of concurrent hand-offs\<close>

definition moves_within :: "int \<Rightarrow> coordinator \<Rightarrow> bool" where
  "moves_within c s = (jwf (rebalanceInProgress s) \<and> int (length (rebalanceInProgress s)) \<le> c)"

lemma moves_same: "rebalanceInProgress t = rebalanceInProgress s \<Longrightarrow> moves_within c t = moves_within c s"
  by (simp add: moves_within_def)

lemma moves_core: "core t = core s \<Longrightarrow> moves_within c t = moves_within c s"
  by (simp add: core_def moves_within_def)

lemma moves_frames [simp]:
  "moves_within c (replyTo path node m s) = moves_within c s" "moves_within c (sendToRegion key m s) = moves_within c s"
  "moves_within c (afterShardMapChange opts v s) = moves_within c s" "moves_within c (observeEligibleSet v cands s) = moves_within c s"
  "moves_within c (shipRememberedEntities shardId s) = moves_within c s" "moves_within c (flushPending shardId s) = moves_within c s"
  "moves_within c (requestRegistration path node s) = moves_within c s" "moves_within c (answerStatsQuery q s) = moves_within c s"
  "moves_within c (releaseConflictingShards key conflicting s) = moves_within c s" "moves_within c (markRegionSeen v path node s) = moves_within c s"
  "moves_within c (publishShardMap opts v s) = moves_within c s" "moves_within c (reconcileLease opts v s) = moves_within c s"
  by (rule moves_core, simp)+ (rule moves_same, simp | rule moves_core, simp | rule moves_core, simp add: lease_frame)+

lemma moves_delete:
  "moves_within c s \<Longrightarrow> rebalanceInProgress t = jdelete (rebalanceInProgress s) shardId \<Longrightarrow> moves_within c t"
  using length_delete_le [of shardId "rebalanceInProgress s"] by (simp add: moves_within_def jdelete_def jwf_def distinct_delete)

lemma moves_foldl: "(\<And>s x. moves_within c s \<Longrightarrow> moves_within c (f s x)) \<Longrightarrow> moves_within c s \<Longrightarrow> moves_within c (foldl f s xs)"
  by (rule foldl_invariant)

lemma moves_foldl_same: "(\<And>s x. moves_within c (f s x) = moves_within c s) \<Longrightarrow> moves_within c (foldl f s xs) = moves_within c s"
  by (rule foldl_frame)

lemma moves_place: "moves_within c (place opts v shardId key s) = moves_within c s"
proof -
  have upd: "moves_within c (s\<lparr>shardHome := h, regions := r\<rparr>) = moves_within c s" for h r by (rule moves_same) simp
  show ?thesis by (simp add: place_def Let_def upd split: option.splits)
qed

lemma moves_tryAllocate [simp]: "moves_within c (tryAllocate opts v shardId s) = moves_within c s"
  by (simp add: tryAllocate_def Let_def moves_place split: option.splits)

lemma moves_drop [simp]: "rebalanceInProgress (drop_shard key shardId s) = rebalanceInProgress s"
  by (simp add: drop_shard_def split: option.splits)

lemma moves_rehome: "moves_within c s \<Longrightarrow> moves_within c (rehome opts v shardId s)"
  by (auto simp: rehome_def intro: moves_delete)

lemma moves_end_handOff: "moves_within c s \<Longrightarrow> moves_within c (end_handOff opts v shardId from s)"
  by (auto simp: end_handOff_def releaseFromPreviousOwner_def Let_def intro: moves_delete)

lemma moves_onRegionTerminated: "moves_within c s \<Longrightarrow> moves_within c (onRegionTerminated opts v region node s)"
proof -
  assume s: "moves_within c s"
  have "moves_within c (s\<lparr>regions := r\<rparr>)" for r using s by (simp add: moves_within_def)
  then have "moves_within c (foldl (\<lambda>s shardId. rehome opts v shardId s) (s\<lparr>regions := r\<rparr>) xs)" for r xs
    by (intro moves_foldl moves_rehome)
  then show ?thesis using s by (simp add: onRegionTerminated_def Let_def split: option.splits)
qed

lemma moves_onMemberRemoved: "moves_within c s \<Longrightarrow> moves_within c (onMemberRemoved opts v addr s)"
  unfolding onMemberRemoved_def by (rule moves_foldl) (auto simp: moves_onRegionTerminated)

lemma moves_sweep: "moves_within c s \<Longrightarrow> moves_within c (sweepStaleRegions opts v s)"
proof -
  have "moves_within c (sweep_one opts v entry t)" if "moves_within c t" for entry t
  proof -
    have "moves_within c (t\<lparr>regions := r\<rparr>)" for r using that by (simp add: moves_within_def)
    then show ?thesis using that by (simp add: sweep_one_def moves_onRegionTerminated split: option.splits prod.splits)
  qed
  then show "moves_within c s \<Longrightarrow> moves_within c (sweepStaleRegions opts v s)"
    unfolding sweepStaleRegions_def by (simp add: moves_foldl)
qed

lemma moves_adopt: "moves_within c (adopt key shardId s) = moves_within c s"
  by (rule moves_same) (simp add: adopt_def Let_def split: option.splits)

lemma moves_onRegister: "moves_within c (onRegister opts v region node proxy hosted m s) = moves_within c s"
proof (cases "isAgreedNumShards opts region node m s")
  case (Pair agreed t)
  have t: "moves_within c t = moves_within c s" by (rule moves_core) (rule agreed_frame(1) [OF Pair])
  have upd: "moves_within c (t\<lparr>regions := r\<rparr>) = moves_within c t" for r by (rule moves_same) simp
  show ?thesis
    by (cases agreed)
      (simp_all add: onRegister_def Pair t adjudicateClaim_def Let_def moves_foldl_same moves_adopt upd)
qed

lemma moves_onGetShardHome: "moves_within c (onGetShardHome opts v shardId requester node s) = moves_within c s"
proof -
  have upd: "moves_within c (t\<lparr>sc_pending := p\<rparr>) = moves_within c t" for t p by (rule moves_same) simp
  show ?thesis by (simp add: onGetShardHome_def Let_def upd split: option.splits)
qed

lemma moves_dispatch:
  assumes "moves_within c s"
  shows "moves_within c (dispatchShardingMessage opts v m s)"
proof -
  have upd: "moves_within c (t\<lparr>regions := r\<rparr>) = moves_within c t" "moves_within c (t\<lparr>statsQueries := q\<rparr>) = moves_within c t"
    "moves_within c (t\<lparr>nextStatsQuery := i\<rparr>) = moves_within c t" for t r q i
    by (simp_all add: moves_within_def)
  have rem: "moves_within c (applyRememberEvent ev t) = moves_within c t" "moves_within c (persistRememberEvent opts ev t) = moves_within c t" for t ev
    by (rule moves_core, simp)+
  show ?thesis
    using assms
    by (cases m)
      (simp_all add: dispatchShardingMessage_def moves_onRegister moves_onGetShardHome onHandOffComplete_def Let_def moves_end_handOff
        moves_onRegionTerminated onRegionHeartbeat_def onEntityStarted_def onEntityStopped_def onGetClusterShardingStats_def onShardRegionStats_def
        moves_foldl_same upd rem split: option.splits)
qed

lemma beginHandOff_moves:
  "jwf (rebalanceInProgress s) \<Longrightarrow>
   jwf (rebalanceInProgress (beginHandOff shardId s)) \<and> length (rebalanceInProgress (beginHandOff shardId s)) \<le> Suc (length (rebalanceInProgress s))"
proof -
  assume wf: "jwf (rebalanceInProgress s)"
  have "length (jset m k x) \<le> Suc (length m)" for m :: "(int, string) jmap" and k x
    unfolding jset_def by (induction m) auto
  then show ?thesis using wf by (simp add: beginHandOff_def split: option.splits)
qed

lemma begin_loop_moves:
  "jwf (rebalanceInProgress s) \<Longrightarrow>
   jwf (rebalanceInProgress (foldl (\<lambda>s shardId. beginHandOff shardId s) s xs)) \<and>
   length (rebalanceInProgress (foldl (\<lambda>s shardId. beginHandOff shardId s) s xs)) \<le> length (rebalanceInProgress s) + length xs"
proof (induction xs arbitrary: s)
  case (Cons x xs)
  then show ?case using Cons.IH [of "beginHandOff x s"] beginHandOff_moves [of s x] by fastforce
qed simp

lemma moves_rebalanceTick:
  assumes s: "moves_within c s" and c: "rebalanceCeiling opts = Some c"
  shows "moves_within c (rebalanceTick opts v s)"
proof -
  define s1 where "s1 = sweepStaleRegions opts v s"
  define t where "t = observeEligibleSet v (candidateRegions opts v s1) s1"
  define b where "b = c - int (length (rebalanceInProgress t))"
  have t: "moves_within c t" unfolding t_def s1_def using moves_sweep [OF s] by simp
  have loop: "moves_within c (foldl (\<lambda>s shardId. beginHandOff shardId s) t (shardsWithinBudget t ids (Some b)))" for ids
  proof -
    have "length (shardsWithinBudget t ids (Some b)) \<le> nat b"
      using rebalance_picks [of t ids "Some b"] by (simp add: upto_budget_def)
    then show ?thesis using begin_loop_moves [of t "shardsWithinBudget t ids (Some b)"] t by (auto simp: moves_within_def b_def)
  qed
  show ?thesis
    unfolding rebalanceTick_def Let_def s1_def [symmetric] t_def [symmetric] c using t loop by (simp add: b_def)
qed

lemma moves_step:
  assumes s: "moves_within c s" and c: "rebalanceCeiling opts = Some c" "0 \<le> c"
  shows "moves_within c (coordinator_step opts v ev s)"
proof -
  have upd: "moves_within c (t\<lparr>acquireBuffer := b\<rparr>) = moves_within c t" "moves_within c (t\<lparr>leaseState := l\<rparr>) = moves_within c t"
    "moves_within c (t\<lparr>acquireRetryTimer := r\<rparr>) = moves_within c t" "moves_within c (t\<lparr>shardMapPublishTimer := r\<rparr>) = moves_within c t"
    "moves_within c (t\<lparr>sc_lease := k\<rparr>) = moves_within c t" "moves_within c (t\<lparr>statsQueries := q\<rparr>) = moves_within c t" for t b l r k q
    by (simp_all add: moves_within_def)
  show ?thesis
  proof (cases ev)
    case (Receive m peer)
    then show ?thesis using s moves_dispatch [OF s] by (simp add: coordinator_step_def receiveShardingMessage_def upd)
  next
    case (LeaseAcquireResult got)
    have "moves_within c (foldl (\<lambda>s m. dispatchShardingMessage opts v m s) t ms)" if "moves_within c t" for t ms
      using that by (intro moves_foldl moves_dispatch)
    then show ?thesis using LeaseAcquireResult s by (simp add: coordinator_step_def onLeaseAcquireResult_def upd)
  next
    case (StateLoaded loaded)
    have "moves_within c (seed_homes homes t) = moves_within c t" for homes t
      by (rule moves_same) (simp add: seed_homes_frame)
    moreover have "moves_within c (fst (seed_regions v rs s))" for rs
    proof (cases "seed_regions v rs s")
      case (Pair t out)
      then show ?thesis using s seed_regions_facts [OF Pair [unfolded seed_regions_def]] moves_same [of t s c] by simp
    qed
    ultimately show ?thesis
      using StateLoaded s by (simp add: coordinator_step_def loadCoordinatorState_def Let_def moves_foldl_same split_def split: option.splits)
  qed (use s c in \<open>simp_all add: coordinator_step_def upd onLeaseLost_def onRequestRegistrations_def moves_foldl_same moves_rebalanceTick onHandOffTimeout_def
    moves_end_handOff onStatsTimeout_def onSaveSettled_def scheduleCoordinatorStateSave_def moves_onMemberRemoved onLeaderChanged_def split_def split: option.splits\<close>,
    simp_all add: moves_within_def)
qed

lemma moves_history:
  assumes "rebalanceCeiling opts = Some c" "0 \<le> c" "moves_within c s"
  shows "moves_within c (coordinator_history opts events s)"
  unfolding coordinator_history_def by (rule moves_foldl [OF _ assms(3)]) (auto simp: moves_step assms(1,2))

lemma moves_start: "0 \<le> c \<Longrightarrow> moves_within c (coordinator_start remembered)"
proof -
  assume c: "0 \<le> c"
  have "moves_within c (coordinator_start remembered) = moves_within c new_coordinator"
    unfolding coordinator_start_def by (rule moves_core) (simp add: foldl_frame [where f = core])
  then show ?thesis using c by (simp add: new_coordinator_def moves_within_def)
qed

text \<open>
  C31: In every history, whatever the strategy proposes and however the regions answer, the hand-offs in progress number at
  most the absolute limit, where one is set, and at most the relative limit's share of the shards, or one when that share is
  less than a shard.
\<close>

theorem concurrent_handoffs_bounded:
  "let moving = int (length (rebalanceInProgress (coordinator_history opts events (coordinator_start remembered)))) in
     (0 < rebalanceAbsoluteLimit opts \<longrightarrow> moving \<le> rebalanceAbsoluteLimit opts) \<and>
     (0 < relativeShards opts \<longrightarrow> moving \<le> max 1 \<lfloor>relativeShards opts\<rfloor>)"
proof (cases "rebalanceCeiling opts")
  case None
  then show ?thesis by (simp add: rebalanceCeiling_def Let_def split: if_splits)
next
  case (Some c)
  then have c: "1 \<le> c" "0 < rebalanceAbsoluteLimit opts \<Longrightarrow> c \<le> rebalanceAbsoluteLimit opts" "0 < relativeShards opts \<Longrightarrow> c \<le> max 1 \<lfloor>relativeShards opts\<rfloor>"
    by (auto simp: rebalanceCeiling_def Let_def split: if_splits)
  have "moves_within c (coordinator_history opts events (coordinator_start remembered))"
    using Some c(1) by (intro moves_history moves_start) simp_all
  then show ?thesis using c by (fastforce simp: moves_within_def Let_def)
qed

theorem concurrent_handoffs_bounded_witness:
  "int (length (rebalanceInProgress (coordinator_history shard_demo_options (take 5 shard_demo_history) (coordinator_start [])))) = 1 \<and>
   (1 :: int) \<le> rebalanceAbsoluteLimit shard_demo_options"
proof -
  have one: "length (rebalanceInProgress (coordinator_history shard_demo_options (take 5 shard_demo_history) (coordinator_start []))) = 1" by code_simp
  have "0 < rebalanceAbsoluteLimit shard_demo_options" by (simp add: shard_demo_options_def)
  with concurrent_handoffs_bounded [of shard_demo_options "take 5 shard_demo_history" "[]"] show ?thesis unfolding Let_def one by simp
qed

end
