(* ===== verification/Persist_Store.thy ===== *)
theory Persist_Store
  imports JS_Prelude
begin

text \<open>
  Where persistent actors keep their events and snapshots: \<^verbatim>\<open>src/src/persistence/journals/InMemoryJournal.ts\<close>,
  \<^verbatim>\<open>snapshot-stores/InMemorySnapshotStore.ts\<close> and the validators they call. Stored values pass through the payload
  codec, which is an argument: the value as it comes back, or nothing where encoding throws. The locale
  \<open>event_journal\<close> is the contract of \<^verbatim>\<open>Journal.ts\<close> a recovery relies on; the journal interprets it.
\<close>

section \<open>Types and validation\<close>

record 'w journal_entry =
  je_event :: 'w
  je_tags :: "string list option"

record 'w persistent_event =
  pe_persistenceId :: string
  sequenceNr :: int
  pe_event :: 'w
  pe_timestamp :: int
  pe_tags :: "string list option"

record 'v snapshot =
  sn_persistenceId :: string
  sn_sequenceNr :: int
  sn_state :: 'v
  sn_timestamp :: int

datatype persist_error =
  Invalid_PersistenceId
| Invalid_Tags
| Payload_Error
| JournalConcurrencyError int int
| SnapshotIntegrityError int
| JournalIntegrityError
| MigrationError
| Lease_Not_Held
| Store_Unavailable

definition MAX_PERSISTENCE_ID_LENGTH :: nat where "MAX_PERSISTENCE_ID_LENGTH = 255"
definition MAX_TAG_LENGTH :: nat where "MAX_TAG_LENGTH = 255"
definition MAX_TAGS_PER_EVENT :: nat where "MAX_TAGS_PER_EVENT = 64"

definition hasControlCharacter :: "string \<Rightarrow> bool" where
  "hasControlCharacter s = list_ex (\<lambda>c. (of_char c :: nat) \<le> 31 \<or> (of_char c :: nat) = 127) s"

definition validPersistenceId :: "string \<Rightarrow> bool" where
  "validPersistenceId p =
     (p \<noteq> [] \<and> length p \<le> MAX_PERSISTENCE_ID_LENGTH \<and> CHR ''/'' \<notin> set p \<and> CHR 0x5C \<notin> set p \<and>
      p \<noteq> ''.'' \<and> p \<noteq> ''..'' \<and> \<not> hasControlCharacter p)"

fun tags_loop :: "string jset \<Rightarrow> string list \<Rightarrow> bool" where
  "tags_loop seen [] = True"
| "tags_loop seen (tag # tags) =
     (if tag = [] then False
      else if length tag > MAX_TAG_LENGTH then False
      else if CHR '','' \<in> set tag then False
      else if hasControlCharacter tag then False
      else if tag \<in> set seen then False
      else tags_loop (sadd seen tag) tags)"

definition validTags :: "string list option \<Rightarrow> bool" where
  "validTags tags =
     (case tags of None \<Rightarrow> True | Some ts \<Rightarrow> length ts \<le> MAX_TAGS_PER_EVENT \<and> tags_loop [] ts)"

section \<open>The journal\<close>

record 'w memory_journal =
  streams :: "(string, 'w persistent_event list) jmap"
  highWater :: "(string, int) jmap"
  published :: "'w persistent_event list"

definition empty_journal :: "'w memory_journal" where
  "empty_journal = \<lparr>streams = [], highWater = [], published = []\<rparr>"

text \<open>The loop of \<^verbatim>\<open>append\<close>: the entries in order with what the codec makes of them; the returned rows and the stored rows.\<close>

fun append_loop ::
  "string \<Rightarrow> int \<Rightarrow> int \<Rightarrow> ('w journal_entry \<times> 'w) list \<Rightarrow> 'w persistent_event list \<times> 'w persistent_event list \<times> int" where
  "append_loop p now seq [] = ([], [], seq)"
| "append_loop p now seq ((entry, stored) # rest) =
     (let pe = \<lparr>pe_persistenceId = p, sequenceNr = seq + 1, pe_event = je_event entry, pe_timestamp = now, pe_tags = je_tags entry\<rparr>;
          (appended, rows, final) = append_loop p now (seq + 1) rest
      in (pe # appended, pe\<lparr>pe_event := stored\<rparr> # rows, final))"

fun roundTrip :: "('w \<Rightarrow> 'w option) \<Rightarrow> 'w list \<Rightarrow> 'w list option" where
  "roundTrip payload [] = Some []"
| "roundTrip payload (w # ws) =
     (case payload w of None \<Rightarrow> None | Some x \<Rightarrow> (case roundTrip payload ws of None \<Rightarrow> None | Some xs \<Rightarrow> Some (x # xs)))"

definition stream_of :: "'w memory_journal \<Rightarrow> string \<Rightarrow> 'w persistent_event list" where
  "stream_of j p = (case jget (streams j) p of None \<Rightarrow> [] | Some rows \<Rightarrow> rows)"

definition journal_highestSeq :: "string \<Rightarrow> 'w memory_journal \<Rightarrow> int" where
  "journal_highestSeq p j = (case jget (highWater j) p of None \<Rightarrow> 0 | Some n \<Rightarrow> n)"

definition journal_append ::
  "('w \<Rightarrow> 'w option) \<Rightarrow> string \<Rightarrow> 'w journal_entry list \<Rightarrow> int \<Rightarrow> int \<Rightarrow> 'w memory_journal \<Rightarrow>
   persist_error + 'w persistent_event list \<times> 'w memory_journal" where
  "journal_append payload p entries expectedSeq now j =
     (if \<not> validPersistenceId p then Inl Invalid_PersistenceId
      else if \<not> list_all (\<lambda>entry. validTags (je_tags entry)) entries then Inl Invalid_Tags
      else if entries = [] then Inr ([], j)
      else
        (let actualSeq = journal_highestSeq p j in
         if actualSeq \<noteq> expectedSeq then Inl (JournalConcurrencyError expectedSeq actualSeq)
         else
           (case roundTrip payload (map je_event entries) of
              None \<Rightarrow> Inl Payload_Error
            | Some roundTripped \<Rightarrow>
                (let (appended, rows, seq) = append_loop p now actualSeq (zip entries roundTripped)
                 in Inr (appended,
                      j\<lparr>streams := jset (streams j) p (stream_of j p @ rows), highWater := jset (highWater j) p seq,
                        published := published j @ appended\<rparr>)))))"

definition journal_read :: "string \<Rightarrow> int \<Rightarrow> int option \<Rightarrow> 'w memory_journal \<Rightarrow> 'w persistent_event list" where
  "journal_read p fromSeq toSeq j =
     (case jget (streams j) p of
        None \<Rightarrow> []
      | Some stream \<Rightarrow>
          (let upper = (case toSeq of None \<Rightarrow> journal_highestSeq p j | Some t \<Rightarrow> t)
           in filter (\<lambda>e. sequenceNr e \<ge> fromSeq \<and> sequenceNr e \<le> upper) stream))"

definition journal_delete :: "string \<Rightarrow> int \<Rightarrow> 'w memory_journal \<Rightarrow> 'w memory_journal" where
  "journal_delete p toSeq j =
     (case jget (streams j) p of
        None \<Rightarrow> j
      | Some stream \<Rightarrow> j\<lparr>streams := jset (streams j) p (filter (\<lambda>e. sequenceNr e > toSeq) stream)\<rparr>)"

definition raiseCompactionMark :: "string \<Rightarrow> int \<Rightarrow> 'w memory_journal \<Rightarrow> 'w memory_journal" where
  "raiseCompactionMark p throughSeq j =
     (let j1 = (if throughSeq > journal_highestSeq p j then j\<lparr>highWater := jset (highWater j) p throughSeq\<rparr> else j)
      in if jhas (streams j1) p then j1 else j1\<lparr>streams := jset (streams j1) p []\<rparr>)"

section \<open>The snapshot store\<close>

record 'v memory_snapshots =
  snapshot_lists :: "(string, 'v snapshot list) jmap"
  keepN :: int

definition snapshots_of :: "string \<Rightarrow> 'v memory_snapshots \<Rightarrow> 'v snapshot list" where
  "snapshots_of p st = (case jget (snapshot_lists st) p of None \<Rightarrow> [] | Some list \<Rightarrow> list)"

definition put_snapshot :: "'v snapshot \<Rightarrow> 'v snapshot list \<Rightarrow> 'v snapshot list" where
  "put_snapshot row list =
     (if \<exists>s \<in> set list. sn_sequenceNr s = sn_sequenceNr row
      then (let i = length (takeWhile (\<lambda>s. sn_sequenceNr s \<noteq> sn_sequenceNr row) list) in list[i := row])
      else sort_key sn_sequenceNr (list @ [row]))"

definition snapshot_save ::
  "('v \<Rightarrow> 'v option) \<Rightarrow> string \<Rightarrow> int \<Rightarrow> 'v \<Rightarrow> int \<Rightarrow> 'v memory_snapshots \<Rightarrow> persist_error + 'v memory_snapshots" where
  "snapshot_save payload p seq state now st =
     (case payload state of
        None \<Rightarrow> Inl Payload_Error
      | Some stored \<Rightarrow>
          (let row = \<lparr>sn_persistenceId = p, sn_sequenceNr = seq, sn_state = stored, sn_timestamp = now\<rparr>;
               list = put_snapshot row (snapshots_of p st);
               kept = (if keepN st > 0 \<and> int (length list) > keepN st then drop (length list - nat (keepN st)) list else list)
           in Inr (st\<lparr>snapshot_lists := jset (snapshot_lists st) p kept\<rparr>)))"

definition snapshot_loadLatest :: "string \<Rightarrow> 'v memory_snapshots \<Rightarrow> 'v snapshot option" where
  "snapshot_loadLatest p st = (case snapshots_of p st of [] \<Rightarrow> None | x # xs \<Rightarrow> Some (last (x # xs)))"

definition snapshot_loadBefore :: "string \<Rightarrow> int \<Rightarrow> 'v memory_snapshots \<Rightarrow> 'v snapshot option" where
  "snapshot_loadBefore p seq st = find (\<lambda>s. sn_sequenceNr s < seq) (rev (snapshots_of p st))"

definition snapshot_delete :: "string \<Rightarrow> int \<Rightarrow> 'v memory_snapshots \<Rightarrow> 'v memory_snapshots" where
  "snapshot_delete p toSeq st =
     (case jget (snapshot_lists st) p of
        None \<Rightarrow> st
      | Some list \<Rightarrow> st\<lparr>snapshot_lists := jset (snapshot_lists st) p (filter (\<lambda>s. sn_sequenceNr s > toSeq) list)\<rparr>)"

section \<open>The contract of a journal\<close>

text \<open>
  \<open>holds j L\<close>: the journal has been given the values \<open>L\<close>, the first under number 1, and may have dropped a prefix of them.
  \<open>rows_from d L\<close> are the values of \<open>L\<close> after the first \<open>d\<close>, with their numbers.
\<close>

definition rows_from :: "nat \<Rightarrow> 'w list \<Rightarrow> (int \<times> 'w) list" where
  "rows_from d L = map (\<lambda>k. (int k + 1, L ! k)) [d..<length L]"

lemma rows_from_append: "d \<le> length L \<Longrightarrow> rows_from d (L @ M) = rows_from d L @ map (\<lambda>k. (int (length L + k) + 1, M ! k)) [0..<length M]"
proof -
  assume d: "d \<le> length L"
  have split: "[d..<length L + length M] = [d..<length L] @ map ((+) (length L)) [0..<length M]"
  proof -
    have "map ((+) m) [0..<n] = [m..<m + n]" for m n :: nat by (induction n) auto
    then show ?thesis using upt_add_eq_append [OF d, of "length M"] by simp
  qed
  show ?thesis
    unfolding rows_from_def length_append split map_append map_map
    by (intro arg_cong2 [where f = append] map_cong) (simp_all add: nth_append)
qed

lemma rows_from_end: "rows_from (length L) L = []"
  by (simp add: rows_from_def)

lemma rows_from_filter: "filter (\<lambda>(n, w). n > int e) (rows_from d L) = rows_from (max d e) L"
proof -
  have "filter (\<lambda>k. e \<le> k) [d..<n] = [max d e..<n]" for n
  proof (induction n)
    case (Suc n)
    show ?case
    proof (cases "d \<le> n")
      case True
      then show ?thesis using Suc by (cases "e \<le> n") (simp_all add: max_def)
    next
      case False
      then show ?thesis by simp
    qed
  qed simp
  then show ?thesis by (simp add: rows_from_def filter_map comp_def)
qed

locale event_journal =
  fixes holds :: "'j \<Rightarrow> 'w list \<Rightarrow> bool"
    and kept :: "'a \<Rightarrow> 'w"
    and append :: "'a list \<Rightarrow> int \<Rightarrow> 'j \<Rightarrow> persist_error + 'j"
    and read_after :: "int \<Rightarrow> 'j \<Rightarrow> (int \<times> 'w) list"
    and highest :: "'j \<Rightarrow> int"
    and drop_to :: "int \<Rightarrow> 'j \<Rightarrow> 'j"
  assumes highest_holds: "holds j L \<Longrightarrow> highest j = int (length L)"
    and append_holds: "holds j L \<Longrightarrow> append es n j = Inr j' \<Longrightarrow> holds j' (L @ map kept es)"
    and append_head: "holds j L \<Longrightarrow> es \<noteq> [] \<Longrightarrow> append es n j = Inr j' \<Longrightarrow> n = int (length L)"
    and read_holds: "holds j L \<Longrightarrow> \<exists>d \<le> length L. \<forall>n. read_after (int n) j = rows_from (max d n) L"
    and drop_holds: "holds j L \<Longrightarrow> n \<le> int (length L) \<Longrightarrow> holds (drop_to n j) L"
begin

text \<open>Of two appends that both go through, the second was made by someone who had seen the first.\<close>

lemma append_twice:
  assumes "holds j L" "es \<noteq> []" "append es n j = Inr j1" "fs \<noteq> []" "append fs m j1 = Inr j2"
  shows "m = n + int (length es)"
  using append_head [OF assms(1,2,3)] append_head [OF append_holds [OF assms(1,3)] assms(4,5)] by simp

text \<open>What is read after any point is the rest of the log, or starts after a gap, or is empty.\<close>

lemma read_is_run: "holds j L \<Longrightarrow> \<exists>e \<ge> n. read_after (int n) j = rows_from e L"
  using read_holds [of j L] by (metis max.cobounded2)

end

text \<open>The journal has been given \<open>L\<close> and dropped the first \<open>d\<close>.\<close>

definition journal_from :: "string \<Rightarrow> nat \<Rightarrow> 'w memory_journal \<Rightarrow> 'w list \<Rightarrow> bool" where
  "journal_from p d j L =
     (journal_highestSeq p j = int (length L) \<and> d \<le> length L \<and>
      map (\<lambda>e. (sequenceNr e, pe_event e)) (stream_of j p) = rows_from d L)"

definition journal_holds :: "string \<Rightarrow> 'w memory_journal \<Rightarrow> 'w list \<Rightarrow> bool" where
  "journal_holds p j L = (\<exists>d. journal_from p d j L)"

definition stored_form :: "('w \<Rightarrow> 'w option) \<Rightarrow> 'w journal_entry \<Rightarrow> 'w" where
  "stored_form payload entry = (case payload (je_event entry) of None \<Rightarrow> je_event entry | Some w \<Rightarrow> w)"

lemma roundTrip_Some:
  "roundTrip payload (map je_event entries) = Some ws \<Longrightarrow> ws = map (stored_form payload) entries"
  by (induction entries arbitrary: ws) (auto simp: stored_form_def split: option.splits)

lemma upt_0_Suc: "[0..<Suc m] = 0 # map Suc [0..<m]"
  by (metis map_Suc_upt upt_conv_Cons zero_less_Suc)

lemma append_loop_rows:
  assumes "append_loop p now seq (zip entries ws) = (appended, rows, final)" "length ws = length entries"
  shows "map (\<lambda>e. (sequenceNr e, pe_event e)) rows = map (\<lambda>k. (seq + int k + 1, ws ! k)) [0..<length ws] \<and>
    final = seq + int (length ws) \<and> map sequenceNr appended = map (\<lambda>k. seq + int k + 1) [0..<length ws]"
  using assms
proof (induction entries arbitrary: ws seq appended rows final)
  case (Cons entry entries)
  then obtain w ws' where ws: "ws = w # ws'" by (cases ws) auto
  obtain a r f where run: "append_loop p now (seq + 1) (zip entries ws') = (a, r, f)" by (metis prod_cases3)
  have len: "length ws' = length entries" using Cons.prems(2) ws by simp
  have rows: "map (\<lambda>e. (sequenceNr e, pe_event e)) rows = (seq + 1, w) # map (\<lambda>e. (sequenceNr e, pe_event e)) r" "final = f"
    "map sequenceNr appended = (seq + 1) # map sequenceNr a"
    using Cons.prems(1) run by (auto simp: ws Let_def)
  have shift: "map (\<lambda>k. (seq + int k + 1, ws ! k)) [0..<length ws] = (seq + 1, w) # map (\<lambda>k. (seq + 1 + int k + 1, ws' ! k)) [0..<length ws']"
    "map (\<lambda>k. seq + int k + 1) [0..<length ws] = (seq + 1) # map (\<lambda>k. seq + 1 + int k + 1) [0..<length ws']"
    unfolding ws by (simp_all only: list.size add_0_right add_Suc_right upt_0_Suc) (simp_all add: comp_def)
  show ?case using Cons.IH [OF run len] rows unfolding shift by (simp add: ws)
qed simp

lemma append_from:
  assumes j: "journal_from p d j L" and run: "journal_append payload p entries n now j = Inr (appended, j')"
  shows "journal_from p d j' (L @ map (stored_form payload) entries)"
    and "entries \<noteq> [] \<Longrightarrow> n = int (length L) \<and> map sequenceNr appended = map (\<lambda>k. n + int k + 1) [0..<length entries]"
proof -
  have "journal_from p d j' (L @ map (stored_form payload) entries) \<and>
    (entries \<noteq> [] \<longrightarrow> n = int (length L) \<and> map sequenceNr appended = map (\<lambda>k. n + int k + 1) [0..<length entries])"
  proof (cases "entries = []")
    case True
    then show ?thesis using j run by (simp add: journal_append_def split: if_splits)
  next
    case False
    obtain ws rows final where ws: "roundTrip payload (map je_event entries) = Some ws"
      and loop: "append_loop p now (journal_highestSeq p j) (zip entries ws) = (appended, rows, final)"
      and n: "journal_highestSeq p j = n"
      and j': "j' = j\<lparr>streams := jset (streams j) p (stream_of j p @ rows), highWater := jset (highWater j) p final, published := published j @ appended\<rparr>"
      using run False by (auto simp: journal_append_def Let_def split: if_splits option.splits prod.splits)
    have d: "journal_highestSeq p j = int (length L)" "d \<le> length L" "map (\<lambda>e. (sequenceNr e, pe_event e)) (stream_of j p) = rows_from d L"
      using j by (simp_all add: journal_from_def)
    have ws': "ws = map (stored_form payload) entries" by (rule roundTrip_Some [OF ws])
    have facts: "map (\<lambda>e. (sequenceNr e, pe_event e)) rows = map (\<lambda>k. (int (length L) + int k + 1, ws ! k)) [0..<length ws]"
      "final = int (length L) + int (length ws)" "map sequenceNr appended = map (\<lambda>k. n + int k + 1) [0..<length entries]"
      using append_loop_rows [OF loop] d(1) ws' n by simp_all
    have "map (\<lambda>e. (sequenceNr e, pe_event e)) (stream_of j' p) = rows_from d (L @ ws)"
      using facts(1) d ws' by (simp add: stream_of_def j' rows_from_append)
    moreover have "journal_highestSeq p j' = int (length (L @ ws))" using facts(2) ws' by (simp add: journal_highestSeq_def j')
    ultimately show ?thesis using d n facts(3) unfolding journal_from_def ws' by simp
  qed
  then show "journal_from p d j' (L @ map (stored_form payload) entries)"
    and "entries \<noteq> [] \<Longrightarrow> n = int (length L) \<and> map sequenceNr appended = map (\<lambda>k. n + int k + 1) [0..<length entries]" by simp_all
qed

lemma rows_le: "(k, w) \<in> set (rows_from d L) \<Longrightarrow> k \<le> int (length L)"
  by (auto simp: rows_from_def)

lemma map_filter_rows:
  "map (\<lambda>e. (sequenceNr e, pe_event e)) (filter (\<lambda>e. P (sequenceNr e)) es) = filter (\<lambda>(k, w). P k) (map (\<lambda>e. (sequenceNr e, pe_event e)) es)"
  by (induction es) auto

lemma read_from:
  assumes "journal_from p d j L"
  shows "map (\<lambda>e. (sequenceNr e, pe_event e)) (journal_read p (int n + 1) None j) = rows_from (max d n) L"
proof -
  have d: "map (\<lambda>e. (sequenceNr e, pe_event e)) (stream_of j p) = rows_from d L" and len: "journal_highestSeq p j = int (length L)"
    using assms by (simp_all add: journal_from_def)
  have read: "journal_read p (int n + 1) None j = filter (\<lambda>e. sequenceNr e \<ge> int n + 1 \<and> sequenceNr e \<le> int (length L)) (stream_of j p)"
    by (simp add: journal_read_def stream_of_def len split: option.splits)
  have "filter (\<lambda>(k, w). k \<ge> int n + 1 \<and> k \<le> int (length L)) (rows_from d L) = filter (\<lambda>(k, w). k > int n) (rows_from d L)"
    by (rule filter_cong) (auto dest: rows_le)
  then show ?thesis
    unfolding read map_filter_rows [of "\<lambda>k. k \<ge> int n + 1 \<and> k \<le> int (length L)"] d by (simp add: rows_from_filter)
qed

lemma delete_from:
  assumes "journal_from p d j L" "n \<le> int (length L)"
  shows "journal_from p (max d (nat n)) (journal_delete p n j) L"
proof -
  have d: "d \<le> length L" "map (\<lambda>e. (sequenceNr e, pe_event e)) (stream_of j p) = rows_from d L" "journal_highestSeq p j = int (length L)"
    using assms(1) by (simp_all add: journal_from_def)
  have stream: "stream_of (journal_delete p n j) p = filter (\<lambda>e. sequenceNr e > n) (stream_of j p)"
    by (auto simp: journal_delete_def stream_of_def split: option.splits)
  have "map (\<lambda>e. (sequenceNr e, pe_event e)) (stream_of (journal_delete p n j) p) = filter (\<lambda>(k, w). k > n) (rows_from d L)"
    unfolding stream map_filter_rows d(2) ..
  also have "\<dots> = filter (\<lambda>(k, w). k > int (nat n)) (rows_from d L)"
    by (rule filter_cong) (auto simp: rows_from_def)
  also have "\<dots> = rows_from (max d (nat n)) L" by (rule rows_from_filter)
  finally have "map (\<lambda>e. (sequenceNr e, pe_event e)) (stream_of (journal_delete p n j) p) = rows_from (max d (nat n)) L" .
  moreover have "journal_highestSeq p (journal_delete p n j) = int (length L)"
    using d(3) by (simp add: journal_highestSeq_def journal_delete_def split: option.splits)
  ultimately show ?thesis using d(1) assms(2) by (simp add: journal_from_def)
qed

interpretation memory: event_journal "journal_holds p" "stored_form payload" "\<lambda>es n j. map_sum id snd (journal_append payload p es n now j)"
  "\<lambda>n j. map (\<lambda>e. (sequenceNr e, pe_event e)) (journal_read p (n + 1) None j)" "journal_highestSeq p" "journal_delete p"
  for p :: string and payload :: "'w \<Rightarrow> 'w option" and now :: int
proof
  fix j :: "'w memory_journal" and L :: "'w list" and es n j'
  assume "journal_holds p j L"
  then obtain d where d: "journal_from p d j L" by (auto simp: journal_holds_def)
  show "journal_highestSeq p j = int (length L)" using d by (simp add: journal_from_def)
  show "\<exists>d \<le> length L. \<forall>n. map (\<lambda>e. (sequenceNr e, pe_event e)) (journal_read p (int n + 1) None j) = rows_from (max d n) L"
    using read_from [OF d] d by (auto simp: journal_from_def)
  show "n \<le> int (length L) \<Longrightarrow> journal_holds p (journal_delete p n j) L" using delete_from [OF d] by (auto simp: journal_holds_def)
  assume "map_sum id snd (journal_append payload p es n now j) = Inr j'"
  then obtain appended where run: "journal_append payload p es n now j = Inr (appended, j')"
    by (cases "journal_append payload p es n now j") auto
  show "journal_holds p j' (L @ map (stored_form payload) es)" using append_from(1) [OF d run] by (auto simp: journal_holds_def)
  show "es \<noteq> [] \<Longrightarrow> n = int (length L)" using append_from(2) [OF d run] by simp
qed

end
