(* ===== verification/Persist_Actor.thy ===== *)
theory Persist_Actor
  imports Persist_Store
begin

text \<open>
  Event-sourced actors: the replay of \<^verbatim>\<open>src/src/persistence/Replay.ts\<close> and \<^verbatim>\<open>PersistentActor.ts\<close>. Several instances of one
  entity may live at once, so a recovery and a persist are cut at their store calls, and a history is any interleaving of
  the steps of any number of instances, of crashes, and of calls that fail before or after they had their effect. What
  an actor is made of (its folds, codecs and policy) is the record \<open>behaviour\<close>. An actor handles one persist at a time.
\<close>

section \<open>Replay\<close>

record ('e, 'w, 's, 'v) behaviour =
  b_persistenceId :: string
  initialState :: 's
  onEvent :: "'s \<Rightarrow> 'e \<Rightarrow> 's"
  encodeEvent :: "'e \<Rightarrow> 'w"
  decodeEvent :: "'w \<Rightarrow> 'e option"
  encodeState :: "'s \<Rightarrow> 'v"
  decodeState :: "'v \<Rightarrow> 's option"
  tagsFor :: "'e \<Rightarrow> string list option"
  snapshotPolicy :: "int \<Rightarrow> 's \<Rightarrow> 'e \<Rightarrow> bool"
  eventPayload :: "'w \<Rightarrow> 'w option"
  statePayload :: "'v \<Rightarrow> 'v option"
  snapshotIsOptional :: bool
  protectedSnapshot :: bool

definition loadSnapshotOrNull :: "('e, 'w, 's, 'v) behaviour \<Rightarrow> persist_error + 'v snapshot option \<Rightarrow> persist_error + 'v snapshot option" where
  "loadSnapshotOrNull b loaded =
     (if \<not> (snapshotIsOptional b \<and> \<not> protectedSnapshot b) then loaded
      else (case loaded of
              Inr x \<Rightarrow> Inr x
            | Inl (SnapshotIntegrityError n) \<Rightarrow> Inl (SnapshotIntegrityError n)
            | Inl _ \<Rightarrow> Inr None))"

definition loadReplaySnapshot ::
  "('e, 'w, 's, 'v) behaviour \<Rightarrow> int option \<Rightarrow> bool \<Rightarrow> 'v memory_snapshots \<Rightarrow> persist_error + 'v snapshot option" where
  "loadReplaySnapshot b toSeq answers st =
     loadSnapshotOrNull b
       (if \<not> answers then Inl Store_Unavailable
        else Inr (case toSeq of
                    None \<Rightarrow> snapshot_loadLatest (b_persistenceId b) st
                  | Some t \<Rightarrow> snapshot_loadBefore (b_persistenceId b) (t + 1) st))"

definition assertTrustworthySnapshot :: "int \<Rightarrow> int \<Rightarrow> bool" where
  "assertTrustworthySnapshot highest claimed = (0 \<le> claimed \<and> \<not> (highest > 0 \<and> claimed > highest))"

definition js_int :: "js_number \<Rightarrow> int" where
  "js_int n = (case n of Fin q \<Rightarrow> \<lfloor>q\<rfloor> | _ \<Rightarrow> 0)"

fun history_loop :: "int option \<Rightarrow> bool \<Rightarrow> bool \<Rightarrow> int \<Rightarrow> js_number list \<Rightarrow> bool" where
  "history_loop toSeq allowCompactedPrefix first previous [] = True"
| "history_loop toSeq allowCompactedPrefix first previous (n # ns) =
     (if \<not> js_isSafeInteger n \<or> js_less n (Fin 1) then False
      else if js_int n \<le> previous then False
      else if js_int n > previous + 1 \<and> \<not> (first \<and> allowCompactedPrefix) then False
      else if (case toSeq of None \<Rightarrow> False | Some t \<Rightarrow> js_int n > t) then False
      else history_loop toSeq allowCompactedPrefix False (js_int n) ns)"

definition assertTrustworthyHistory :: "int \<Rightarrow> int option \<Rightarrow> bool \<Rightarrow> js_number list \<Rightarrow> bool" where
  "assertTrustworthyHistory fromSeq toSeq allowCompactedPrefix ns = history_loop toSeq allowCompactedPrefix True fromSeq ns"

definition numbers_of :: "'w persistent_event list \<Rightarrow> js_number list" where
  "numbers_of events = map (\<lambda>e. Fin (of_int (sequenceNr e))) events"

definition from_seq :: "'v snapshot option \<Rightarrow> int" where
  "from_seq snap = (case snap of None \<Rightarrow> 0 | Some sn \<Rightarrow> sn_sequenceNr sn)"

definition readReplayHistory ::
  "string \<Rightarrow> int option \<Rightarrow> bool \<Rightarrow> 'v snapshot option \<Rightarrow> 'w memory_journal \<Rightarrow> persist_error + 'w persistent_event list \<times> int" where
  "readReplayHistory p toSeq allowCompactedPrefix snap j =
     (let events = journal_read p (from_seq snap + 1) toSeq j
      in if \<not> assertTrustworthyHistory (from_seq snap) toSeq allowCompactedPrefix (numbers_of events) then Inl JournalIntegrityError
         else Inr (events, if events = [] then from_seq snap else sequenceNr (last events)))"

fun replay_fold :: "('e, 'w, 's, 'v) behaviour \<Rightarrow> 's \<Rightarrow> 'w list \<Rightarrow> 's option" where
  "replay_fold b state [] = Some state"
| "replay_fold b state (w # ws) = (case decodeEvent b w of None \<Rightarrow> None | Some e \<Rightarrow> replay_fold b (onEvent b state e) ws)"

definition foldReplayHistory :: "('e, 'w, 's, 'v) behaviour \<Rightarrow> 'v snapshot option \<Rightarrow> 'w persistent_event list \<Rightarrow> 's option" where
  "foldReplayHistory b snap events =
     (case (case snap of None \<Rightarrow> Some (initialState b) | Some sn \<Rightarrow> decodeState b (sn_state sn)) of
        None \<Rightarrow> None
      | Some state \<Rightarrow> replay_fold b state (map pe_event events))"

text \<open>The whole replay at once, as the time travel of the developer tools uses it.\<close>

definition replayState ::
  "('e, 'w, 's, 'v) behaviour \<Rightarrow> int option \<Rightarrow> bool \<Rightarrow> 'w memory_journal \<Rightarrow> 'v memory_snapshots \<Rightarrow> persist_error + 's \<times> int" where
  "replayState b toSeq allowCompactedPrefix j st =
     (case loadReplaySnapshot b toSeq True st of
        Inl e \<Rightarrow> Inl e
      | Inr snap \<Rightarrow>
          if snap \<noteq> None \<and> \<not> assertTrustworthySnapshot (journal_highestSeq (b_persistenceId b) j) (from_seq snap)
          then Inl (SnapshotIntegrityError (from_seq snap))
          else
            (case readReplayHistory (b_persistenceId b) toSeq allowCompactedPrefix snap j of
               Inl e \<Rightarrow> Inl e
             | Inr (events, seq) \<Rightarrow>
                 (case foldReplayHistory b snap events of None \<Rightarrow> Inl MigrationError | Some state \<Rightarrow> Inr (state, seq))))"

section \<open>Instances of an entity\<close>

text \<open>What an instance waits for: the steps of a recovery, then commands, and the store calls of a command.\<close>

datatype ('e, 'w, 'v) actor_phase =
  Loading
| Checking "'v snapshot option"
| Reading "'v snapshot option"
| Probing "'v snapshot option" "'w persistent_event list"
| Ready
| Appending "'e list"
| Saving
| Compacting int
| Stopped
| Failed persist_error

record ('e, 'w, 's, 'v) persistent_actor =
  pa_phase :: "('e, 'w, 'v) actor_phase"
  pa_state :: 's
  pa_seq :: int
  pa_lease :: bool
  pa_isLeaseHolder :: bool
  pa_error :: "persist_error option"

text \<open>\<open>w_log\<close> is a ghost: every event whose append had its effect, in order.\<close>

record ('e, 'w, 's, 'v) persist_world =
  w_journal :: "'w memory_journal"
  w_snapshots :: "'v memory_snapshots"
  w_actors :: "nat \<Rightarrow> ('e, 'w, 's, 'v) persistent_actor option"
  w_log :: "'e list"

datatype store_call = Answers | Fails | Fails_After_Effect

definition new_world :: "int \<Rightarrow> ('e, 'w, 's, 'v) persist_world" where
  "new_world keep = \<lparr>w_journal = empty_journal, w_snapshots = \<lparr>snapshot_lists = [], keepN = keep\<rparr>, w_actors = (\<lambda>i. None), w_log = []\<rparr>"

definition set_actor :: "nat \<Rightarrow> ('e, 'w, 's, 'v) persistent_actor \<Rightarrow> ('e, 'w, 's, 'v) persist_world \<Rightarrow> ('e, 'w, 's, 'v) persist_world" where
  "set_actor i a w = w\<lparr>w_actors := (w_actors w)(i := Some a)\<rparr>"

text \<open>\<open>lease\<close> is the answer of the lease, where one is configured.\<close>

definition actor_start :: "('e, 'w, 's, 'v) behaviour \<Rightarrow> bool option \<Rightarrow> ('e, 'w, 's, 'v) persistent_actor" where
  "actor_start b lease =
     \<lparr>pa_phase = (if validPersistenceId (b_persistenceId b) then Loading else Failed Invalid_PersistenceId),
      pa_state = initialState b, pa_seq = 0, pa_lease = (lease \<noteq> None), pa_isLeaseHolder = (lease \<noteq> Some False), pa_error = None\<rparr>"

definition recovery_load ::
  "('e, 'w, 's, 'v) behaviour \<Rightarrow> bool \<Rightarrow> 'v memory_snapshots \<Rightarrow> ('e, 'w, 's, 'v) persistent_actor \<Rightarrow> ('e, 'w, 's, 'v) persistent_actor" where
  "recovery_load b answers st a =
     (case loadReplaySnapshot b None answers st of
        Inl e \<Rightarrow> a\<lparr>pa_phase := Failed e\<rparr>
      | Inr None \<Rightarrow> a\<lparr>pa_phase := Reading None\<rparr>
      | Inr (Some sn) \<Rightarrow> a\<lparr>pa_phase := Checking (Some sn)\<rparr>)"

definition recovery_check ::
  "('e, 'w, 's, 'v) behaviour \<Rightarrow> 'v snapshot option \<Rightarrow> 'w memory_journal \<Rightarrow> ('e, 'w, 's, 'v) persistent_actor \<Rightarrow> ('e, 'w, 's, 'v) persistent_actor" where
  "recovery_check b snap j a =
     (if assertTrustworthySnapshot (journal_highestSeq (b_persistenceId b) j) (from_seq snap) then a\<lparr>pa_phase := Reading snap\<rparr>
      else a\<lparr>pa_phase := Failed (SnapshotIntegrityError (from_seq snap))\<rparr>)"

definition recovery_finish ::
  "('e, 'w, 's, 'v) behaviour \<Rightarrow> 'v snapshot option \<Rightarrow> 'w persistent_event list \<Rightarrow> int \<Rightarrow> ('e, 'w, 's, 'v) persistent_actor \<Rightarrow>
   ('e, 'w, 's, 'v) persistent_actor" where
  "recovery_finish b snap events seq a =
     (case foldReplayHistory b snap events of
        None \<Rightarrow> a\<lparr>pa_phase := Failed MigrationError\<rparr>
      | Some state \<Rightarrow> a\<lparr>pa_phase := Ready, pa_state := state, pa_seq := seq\<rparr>)"

text \<open>A replay that ends at number 0 asks the journal for its head, in a call of its own.\<close>

definition recovery_read ::
  "('e, 'w, 's, 'v) behaviour \<Rightarrow> 'v snapshot option \<Rightarrow> 'w memory_journal \<Rightarrow> ('e, 'w, 's, 'v) persistent_actor \<Rightarrow> ('e, 'w, 's, 'v) persistent_actor" where
  "recovery_read b snap j a =
     (case readReplayHistory (b_persistenceId b) None False snap j of
        Inl e \<Rightarrow> a\<lparr>pa_phase := Failed e\<rparr>
      | Inr (events, seq) \<Rightarrow> if seq \<noteq> 0 then recovery_finish b snap events seq a else a\<lparr>pa_phase := Probing snap events\<rparr>)"

definition recovery_probe ::
  "('e, 'w, 's, 'v) behaviour \<Rightarrow> 'v snapshot option \<Rightarrow> 'w persistent_event list \<Rightarrow> 'w memory_journal \<Rightarrow> ('e, 'w, 's, 'v) persistent_actor \<Rightarrow>
   ('e, 'w, 's, 'v) persistent_actor" where
  "recovery_probe b snap events j a = recovery_finish b snap events (journal_highestSeq (b_persistenceId b) j) a"

definition persistAll :: "'e list \<Rightarrow> ('e, 'w, 's, 'v) persistent_actor \<Rightarrow> ('e, 'w, 's, 'v) persistent_actor" where
  "persistAll events a =
     (if events = [] then a
      else if pa_lease a \<and> \<not> pa_isLeaseHolder a then a\<lparr>pa_error := Some Lease_Not_Held\<rparr>
      else a\<lparr>pa_phase := Appending events\<rparr>)"

definition entries_of :: "('e, 'w, 's, 'v) behaviour \<Rightarrow> 'e list \<Rightarrow> 'w journal_entry list" where
  "entries_of b events = map (\<lambda>e. \<lparr>je_event = encodeEvent b e, je_tags = tagsFor b e\<rparr>) events"

fun apply_written ::
  "('e, 'w, 's, 'v) behaviour \<Rightarrow> bool \<Rightarrow> ('w persistent_event \<times> 'e) list \<Rightarrow> 's \<Rightarrow> int \<Rightarrow> 's \<times> int \<times> bool" where
  "apply_written b snap [] state seq = (state, seq, snap)"
| "apply_written b snap ((pe, e) # rest) state seq =
     (let state' = onEvent b state e
      in apply_written b (snap \<or> snapshotPolicy b (sequenceNr pe) state' e) rest state' (sequenceNr pe))"

text \<open>
  The end of the append of \<^verbatim>\<open>persistAll\<close>. A lost condition stops the instance; any other error goes to the handler, which
  may go on.
\<close>

definition append_done ::
  "('e, 'w, 's, 'v) behaviour \<Rightarrow> nat \<Rightarrow> 'e list \<Rightarrow> int \<Rightarrow> store_call \<Rightarrow> ('e, 'w, 's, 'v) persistent_actor \<Rightarrow> ('e, 'w, 's, 'v) persist_world \<Rightarrow>
   ('e, 'w, 's, 'v) persist_world" where
  "append_done b i events now call a w =
     (if call = Fails then set_actor i (a\<lparr>pa_phase := Ready, pa_error := Some Store_Unavailable\<rparr>) w
      else
        (case journal_append (eventPayload b) (b_persistenceId b) (entries_of b events) (pa_seq a) now (w_journal w) of
           Inl (JournalConcurrencyError expected actual) \<Rightarrow>
             if call = Fails_After_Effect then set_actor i (a\<lparr>pa_phase := Ready, pa_error := Some Store_Unavailable\<rparr>) w
             else set_actor i (a\<lparr>pa_phase := Stopped, pa_isLeaseHolder := False, pa_error := Some (JournalConcurrencyError expected actual)\<rparr>) w
         | Inl e \<Rightarrow> set_actor i (a\<lparr>pa_phase := Ready, pa_error := Some (if call = Fails_After_Effect then Store_Unavailable else e)\<rparr>) w
         | Inr (written, j) \<Rightarrow>
             (let w1 = w\<lparr>w_journal := j, w_log := w_log w @ events\<rparr>
              in if call = Fails_After_Effect then set_actor i (a\<lparr>pa_phase := Ready, pa_error := Some Store_Unavailable\<rparr>) w1
                 else (case apply_written b False (zip written events) (pa_state a) (pa_seq a) of
                         (state, seq, snap) \<Rightarrow> set_actor i (a\<lparr>pa_phase := (if snap then Saving else Ready), pa_state := state, pa_seq := seq\<rparr>) w1))))"

definition save_done ::
  "('e, 'w, 's, 'v) behaviour \<Rightarrow> nat \<Rightarrow> int \<Rightarrow> store_call \<Rightarrow> ('e, 'w, 's, 'v) persistent_actor \<Rightarrow> ('e, 'w, 's, 'v) persist_world \<Rightarrow>
   ('e, 'w, 's, 'v) persist_world" where
  "save_done b i now call a w =
     (if call = Fails then set_actor i (a\<lparr>pa_phase := Ready, pa_error := Some Store_Unavailable\<rparr>) w
      else
        (case snapshot_save (statePayload b) (b_persistenceId b) (pa_seq a) (encodeState b (pa_state a)) now (w_snapshots w) of
           Inl e \<Rightarrow> set_actor i (a\<lparr>pa_phase := Ready, pa_error := Some e\<rparr>) w
         | Inr st \<Rightarrow>
             set_actor i (a\<lparr>pa_phase := Ready, pa_error := (if call = Answers then pa_error a else Some Store_Unavailable)\<rparr>)
               (w\<lparr>w_snapshots := st\<rparr>)))"

text \<open>\<^verbatim>\<open>deleteHistory\<close>: the snapshots before \<open>toSeq\<close>, then the events up to it.\<close>

definition deleteHistory ::
  "('e, 'w, 's, 'v) behaviour \<Rightarrow> nat \<Rightarrow> int \<Rightarrow> store_call \<Rightarrow> ('e, 'w, 's, 'v) persistent_actor \<Rightarrow> ('e, 'w, 's, 'v) persist_world \<Rightarrow>
   ('e, 'w, 's, 'v) persist_world" where
  "deleteHistory b i toSeq call a w =
     (if toSeq \<le> 0 then w
      else
        (let w1 = (if call = Fails then w else w\<lparr>w_snapshots := snapshot_delete (b_persistenceId b) (toSeq - 1) (w_snapshots w)\<rparr>)
         in if call = Answers then set_actor i (a\<lparr>pa_phase := Compacting toSeq\<rparr>) w1
            else set_actor i (a\<lparr>pa_error := Some Store_Unavailable\<rparr>) w1))"

definition drop_events ::
  "('e, 'w, 's, 'v) behaviour \<Rightarrow> nat \<Rightarrow> int \<Rightarrow> store_call \<Rightarrow> ('e, 'w, 's, 'v) persistent_actor \<Rightarrow> ('e, 'w, 's, 'v) persist_world \<Rightarrow>
   ('e, 'w, 's, 'v) persist_world" where
  "drop_events b i toSeq call a w =
     (let w1 = (if call = Fails then w else w\<lparr>w_journal := journal_delete (b_persistenceId b) toSeq (w_journal w)\<rparr>)
      in set_actor i (a\<lparr>pa_phase := Ready, pa_error := (if call = Answers then pa_error a else Some Store_Unavailable)\<rparr>) w1)"

section \<open>Histories\<close>

datatype 'e persist_event =
  Start nat "bool option"
| Snapshot_Loaded nat bool
| Snapshot_Checked nat
| History_Read nat
| Head_Probed nat
| Persist nat "'e list"
| Append_Done nat int store_call
| Save_Snapshot nat
| Save_Done nat int store_call
| Delete_History nat int store_call
| Events_Dropped nat store_call
| Lease_Lost nat
| Crash nat

text \<open>
  A step of an instance that waits for something else changes nothing. A lost lease only clears the flag here: what the hook does
  then, such as stopping the actor, is a crash of the history.
\<close>

definition actor_step ::
  "('e, 'w, 's, 'v) behaviour \<Rightarrow> nat \<Rightarrow> 'e persist_event \<Rightarrow> ('e, 'w, 's, 'v) persistent_actor \<Rightarrow> ('e, 'w, 's, 'v) persist_world \<Rightarrow>
   ('e, 'w, 's, 'v) persist_world" where
  "actor_step b i ev a w =
     (case (ev, pa_phase a) of
        (Snapshot_Loaded k answers, Loading) \<Rightarrow> set_actor i (recovery_load b answers (w_snapshots w) a) w
      | (Snapshot_Checked k, Checking snap) \<Rightarrow> set_actor i (recovery_check b snap (w_journal w) a) w
      | (History_Read k, Reading snap) \<Rightarrow> set_actor i (recovery_read b snap (w_journal w) a) w
      | (Head_Probed k, Probing snap events) \<Rightarrow> set_actor i (recovery_probe b snap events (w_journal w) a) w
      | (Persist k events, Ready) \<Rightarrow> set_actor i (persistAll events a) w
      | (Append_Done k now call, Appending events) \<Rightarrow> append_done b i events now call a w
      | (Save_Snapshot k, Ready) \<Rightarrow> set_actor i (a\<lparr>pa_phase := Saving\<rparr>) w
      | (Save_Done k now call, Saving) \<Rightarrow> save_done b i now call a w
      | (Delete_History k toSeq call, Ready) \<Rightarrow> deleteHistory b i toSeq call a w
      | (Events_Dropped k call, Compacting toSeq) \<Rightarrow> drop_events b i toSeq call a w
      | (Lease_Lost k, phase) \<Rightarrow> set_actor i (a\<lparr>pa_isLeaseHolder := False\<rparr>) w
      | _ \<Rightarrow> w)"

fun instance_of :: "'e persist_event \<Rightarrow> nat" where
  "instance_of (Start i lease) = i"
| "instance_of (Snapshot_Loaded i answers) = i"
| "instance_of (Snapshot_Checked i) = i"
| "instance_of (History_Read i) = i"
| "instance_of (Head_Probed i) = i"
| "instance_of (Persist i events) = i"
| "instance_of (Append_Done i now call) = i"
| "instance_of (Save_Snapshot i) = i"
| "instance_of (Save_Done i now call) = i"
| "instance_of (Delete_History i toSeq call) = i"
| "instance_of (Events_Dropped i call) = i"
| "instance_of (Lease_Lost i) = i"
| "instance_of (Crash i) = i"

definition persist_step :: "('e, 'w, 's, 'v) behaviour \<Rightarrow> 'e persist_event \<Rightarrow> ('e, 'w, 's, 'v) persist_world \<Rightarrow> ('e, 'w, 's, 'v) persist_world" where
  "persist_step b ev w =
     (case ev of
        Start i lease \<Rightarrow> set_actor i (actor_start b lease) w
      | Crash i \<Rightarrow> w\<lparr>w_actors := (w_actors w)(i := None)\<rparr>
      | _ \<Rightarrow> (case w_actors w (instance_of ev) of None \<Rightarrow> w | Some a \<Rightarrow> actor_step b (instance_of ev) ev a w))"

definition persist_history ::
  "('e, 'w, 's, 'v) behaviour \<Rightarrow> 'e persist_event list \<Rightarrow> ('e, 'w, 's, 'v) persist_world \<Rightarrow> ('e, 'w, 's, 'v) persist_world" where
  "persist_history b events w = foldl (\<lambda>w ev. persist_step b ev w) w events"

end
