(* ===== verification/Persist_Recovery.thy ===== *)
theory Persist_Recovery
  imports Persist_Actor
begin

text \<open>
  What recovery and conditional appends promise together: every instance works on the state of the events it has seen, only
  one that has seen all of them can add to the log, and a fresh instance recovers them all. The exception is a
  recovery that reads an empty journal and then finds that its head has moved.
\<close>

section \<open>The check of a history\<close>

definition run_of :: "int \<Rightarrow> nat \<Rightarrow> js_number list" where
  "run_of start n = map (\<lambda>k. Fin (of_int (start + int k + 1))) [0..<n]"

lemma run_of_simps [simp]: "run_of start 0 = []" "run_of start (Suc n) = Fin (of_int (start + 1)) # run_of (start + 1) n"
  by (simp_all only: run_of_def upt_0_Suc) (simp_all add: comp_def algebra_simps)

lemma length_run_of [simp]: "length (run_of start n) = n"
  by (simp add: run_of_def)

lemma safe_number:
  "js_isSafeInteger n \<and> \<not> js_less n (Fin 1) \<longleftrightarrow> (\<exists>k. n = Fin (of_int k) \<and> 1 \<le> k \<and> k \<le> 9007199254740991)"
proof (cases n)
  case (Fin q)
  have "(of_int k :: rat) \<le> 9007199254740991 \<longleftrightarrow> k \<le> 9007199254740991" for k by linarith
  moreover have "(of_int k :: rat) < 1 \<longleftrightarrow> k < 1" for k by linarith
  ultimately show ?thesis unfolding Fin by (auto simp: js_isSafeInteger_def MAX_SAFE_INTEGER_def intro: exI [of _ "\<lfloor>q\<rfloor>"])
qed (auto simp: js_isSafeInteger_def)

lemma history_loop_step:
  "history_loop toSeq allow first previous (n # ns) \<longleftrightarrow>
   (\<exists>k. n = Fin (of_int k) \<and> 1 \<le> k \<and> k \<le> 9007199254740991 \<and> previous < k \<and> (k = previous + 1 \<or> first \<and> allow) \<and>
     (\<forall>t. toSeq = Some t \<longrightarrow> k \<le> t) \<and> history_loop toSeq allow False k ns)"
proof (cases "js_isSafeInteger n \<and> \<not> js_less n (Fin 1)")
  case True
  then obtain k where k: "n = Fin (of_int k)" "1 \<le> k" "k \<le> 9007199254740991" using safe_number by blast
  have "history_loop toSeq allow first previous (n # ns) \<longleftrightarrow> previous < k \<and> (k = previous + 1 \<or> first \<and> allow) \<and>
      (\<forall>t. toSeq = Some t \<longrightarrow> k \<le> t) \<and> history_loop toSeq allow False k ns"
  proof -
    have "js_int n = k" by (simp add: k js_int_def)
    then show ?thesis using True by (auto split: option.splits)
  qed
  moreover have "n = Fin (of_int k') \<longleftrightarrow> k' = k" for k' using k by auto
  ultimately show ?thesis using k by simp
next
  case False
  then have "\<not> history_loop toSeq allow first previous (n # ns)" by auto
  moreover have "\<nexists>k. n = Fin (of_int k) \<and> 1 \<le> k \<and> k \<le> 9007199254740991" using False safe_number by blast
  ultimately show ?thesis by blast
qed

lemma history_loop_rest:
  "history_loop toSeq allow False previous ns \<longleftrightarrow>
   ns = [] \<or> ns = run_of previous (length ns) \<and> 0 \<le> previous \<and> previous + int (length ns) \<le> 9007199254740991 \<and>
     (\<forall>t. toSeq = Some t \<longrightarrow> previous + int (length ns) \<le> t)"
proof (induction ns arbitrary: previous)
  case (Cons n ns)
  have "history_loop toSeq allow False previous (n # ns) \<longleftrightarrow>
      n = Fin (of_int (previous + 1)) \<and> 0 \<le> previous \<and> previous + 1 \<le> 9007199254740991 \<and> (\<forall>t. toSeq = Some t \<longrightarrow> previous + 1 \<le> t) \<and>
      (ns = [] \<or> ns = run_of (previous + 1) (length ns) \<and> previous + 1 + int (length ns) \<le> 9007199254740991 \<and>
         (\<forall>t. toSeq = Some t \<longrightarrow> previous + 1 + int (length ns) \<le> t))"
    unfolding history_loop_step Cons.IH by auto
  also have "\<dots> \<longleftrightarrow> n # ns = run_of previous (length (n # ns)) \<and> 0 \<le> previous \<and> previous + int (length (n # ns)) \<le> 9007199254740991 \<and>
      (\<forall>t. toSeq = Some t \<longrightarrow> previous + int (length (n # ns)) \<le> t)"
  proof (cases "ns = []")
    case False
    then have "0 < length ns" by simp
    then show ?thesis using False by fastforce
  qed simp
  finally show ?case by simp
qed simp

lemma history_check_iff:
  "assertTrustworthyHistory fromSeq toSeq allow ns \<longleftrightarrow>
     ns = [] \<or> (\<exists>start. (start = fromSeq \<or> allow \<and> fromSeq < start) \<and> 0 \<le> start \<and> ns = run_of start (length ns) \<and>
       start + int (length ns) \<le> 9007199254740991 \<and> (\<forall>t. toSeq = Some t \<longrightarrow> start + int (length ns) \<le> t))"
proof (cases ns)
  case (Cons n rest)
  have starts: "history_loop toSeq allow True fromSeq ns \<longleftrightarrow> (\<exists>start. (start = fromSeq \<or> allow \<and> fromSeq < start) \<and> history_loop toSeq allow False start ns)"
  proof
    assume "history_loop toSeq allow True fromSeq ns"
    then obtain k where k: "n = Fin (of_int k)" "1 \<le> k" "k \<le> 9007199254740991" "fromSeq < k" "k = fromSeq + 1 \<or> allow"
      "\<forall>t. toSeq = Some t \<longrightarrow> k \<le> t" "history_loop toSeq allow False k rest"
      unfolding Cons history_loop_step by blast
    then have "history_loop toSeq allow False (k - 1) ns" unfolding Cons history_loop_step by (intro exI [of _ k]) simp
    moreover have "k - 1 = fromSeq \<or> allow \<and> fromSeq < k - 1" using k(4,5) by linarith
    ultimately show "\<exists>start. (start = fromSeq \<or> allow \<and> fromSeq < start) \<and> history_loop toSeq allow False start ns" by blast
  next
    assume "\<exists>start. (start = fromSeq \<or> allow \<and> fromSeq < start) \<and> history_loop toSeq allow False start ns"
    then obtain start k where start: "start = fromSeq \<or> allow \<and> fromSeq < start" and k: "n = Fin (of_int k)" "1 \<le> k" "k \<le> 9007199254740991"
      "k = start + 1" "\<forall>t. toSeq = Some t \<longrightarrow> k \<le> t" "history_loop toSeq allow False k rest"
      unfolding Cons history_loop_step by blast
    have "fromSeq < k" "k = fromSeq + 1 \<or> True \<and> allow" using start k(4) by auto
    then show "history_loop toSeq allow True fromSeq ns" unfolding Cons history_loop_step using k by blast
  qed
  have "ns \<noteq> []" using Cons by simp
  then show ?thesis unfolding assertTrustworthyHistory_def starts history_loop_rest by blast
qed (simp add: assertTrustworthyHistory_def)

text \<open>
  C37: Whatever numbers a journal returns, infinite, fractional or not in order, the check of a replay lets a history
  through exactly when it is a run of consecutive safe integers right after where the fold starts, none of them past the
  requested bound; only a replay that allows a compacted prefix may start later.
\<close>

theorem history_check_exact:
  "assertTrustworthyHistory fromSeq toSeq allow ns \<longleftrightarrow>
     ns = [] \<or> (\<exists>start. (start = fromSeq \<or> allow \<and> fromSeq < start) \<and> 0 \<le> start \<and> ns = run_of start (length ns) \<and>
       start + int (length ns) \<le> 9007199254740991 \<and> (case toSeq of None \<Rightarrow> True | Some t \<Rightarrow> start + int (length ns) \<le> t))"
  unfolding history_check_iff by (cases toSeq) simp_all

section \<open>The invariant\<close>

text \<open>Events and states come back from storage as they went in.\<close>

definition faithful_codecs :: "('e, 'w, 's, 'v) behaviour \<Rightarrow> bool" where
  "faithful_codecs b \<longleftrightarrow>
     (\<forall>e. \<exists>w. eventPayload b (encodeEvent b e) = Some w \<and> decodeEvent b w = Some e) \<and>
     (\<forall>s. \<exists>v. statePayload b (encodeState b s) = Some v \<and> decodeState b v = Some s)"

definition log_state :: "('e, 'w, 's, 'v) behaviour \<Rightarrow> 'e list \<Rightarrow> 's" where
  "log_state b events = foldl (onEvent b) (initialState b) events"

definition wire :: "('e, 'w, 's, 'v) behaviour \<Rightarrow> 'e \<Rightarrow> 'w" where
  "wire b e = stored_form (eventPayload b) \<lparr>je_event = encodeEvent b e, je_tags = tagsFor b e\<rparr>"

definition snap_ok :: "('e, 'w, 's, 'v) behaviour \<Rightarrow> 'e list \<Rightarrow> 'v snapshot \<Rightarrow> bool" where
  "snap_ok b hist sn =
     (0 \<le> sn_sequenceNr sn \<and> sn_sequenceNr sn \<le> int (length hist) \<and>
      decodeState b (sn_state sn) = Some (log_state b (take (nat (sn_sequenceNr sn)) hist)))"

definition covered :: "'v snapshot list \<Rightarrow> int \<Rightarrow> bool" where
  "covered snaps n = list_ex (\<lambda>sn. sn_sequenceNr sn \<ge> n) snaps"

definition seen_events :: "('e, 'w, 's, 'v) behaviour \<Rightarrow> 'e list \<Rightarrow> ('e, 'w, 's, 'v) persistent_actor \<Rightarrow> bool" where
  "seen_events b hist a = (0 \<le> pa_seq a \<and> pa_seq a \<le> int (length hist) \<and> pa_state a = log_state b (take (nat (pa_seq a)) hist))"

definition snap_opt_ok :: "('e, 'w, 's, 'v) behaviour \<Rightarrow> 'e list \<Rightarrow> 'v snapshot option \<Rightarrow> bool" where
  "snap_opt_ok b hist snap = (case snap of None \<Rightarrow> True | Some sn \<Rightarrow> snap_ok b hist sn)"

definition phase_sound :: "('e, 'w, 's, 'v) behaviour \<Rightarrow> 'e list \<Rightarrow> 'v snapshot list \<Rightarrow> ('e, 'w, 's, 'v) persistent_actor \<Rightarrow> bool" where
  "phase_sound b hist snaps a =
     (case pa_phase a of
        Loading \<Rightarrow> True
      | Checking snap \<Rightarrow> snap_opt_ok b hist snap
      | Reading snap \<Rightarrow> snap_opt_ok b hist snap
      | Probing snap events \<Rightarrow> snap_opt_ok b hist snap \<and> from_seq snap = 0 \<and> events = []
      | Ready \<Rightarrow> seen_events b hist a
      | Appending events \<Rightarrow> seen_events b hist a \<and> events \<noteq> []
      | Saving \<Rightarrow> seen_events b hist a
      | Compacting n \<Rightarrow> seen_events b hist a \<and> covered snaps n
      | Stopped \<Rightarrow> True
      | Failed e \<Rightarrow> True)"

definition stores_ok :: "('e, 'w, 's, 'v) behaviour \<Rightarrow> ('e, 'w, 's, 'v) persist_world \<Rightarrow> bool" where
  "stores_ok b w =
     ((\<exists>d. journal_from (b_persistenceId b) d (w_journal w) (map (wire b) (w_log w)) \<and>
           (d = 0 \<or> covered (snapshots_of (b_persistenceId b) (w_snapshots w)) (int d))) \<and>
      sorted (map sn_sequenceNr (snapshots_of (b_persistenceId b) (w_snapshots w))) \<and>
      list_all (snap_ok b (w_log w)) (snapshots_of (b_persistenceId b) (w_snapshots w)))"

definition world_ok :: "('e, 'w, 's, 'v) behaviour \<Rightarrow> ('e, 'w, 's, 'v) persist_world \<Rightarrow> bool" where
  "world_ok b w =
     (stores_ok b w \<and>
      (\<forall>i a. w_actors w i = Some a \<longrightarrow> phase_sound b (w_log w) (snapshots_of (b_persistenceId b) (w_snapshots w)) a))"

text \<open>
  A history is lawful when a compaction goes no further than a snapshot, and a probe of the head after an empty replay still
  finds nothing.
\<close>

definition event_lawful :: "('e, 'w, 's, 'v) behaviour \<Rightarrow> 'e persist_event \<Rightarrow> ('e, 'w, 's, 'v) persist_world \<Rightarrow> bool" where
  "event_lawful b ev w =
     (case ev of
        Delete_History i toSeq call \<Rightarrow> toSeq \<le> 0 \<or> covered (snapshots_of (b_persistenceId b) (w_snapshots w)) toSeq
      | Head_Probed i \<Rightarrow>
          (case w_actors w i of
             None \<Rightarrow> True
           | Some a \<Rightarrow> (case pa_phase a of Probing snap events \<Rightarrow> journal_highestSeq (b_persistenceId b) (w_journal w) = 0 | _ \<Rightarrow> True))
      | _ \<Rightarrow> True)"

fun lawful_history :: "('e, 'w, 's, 'v) behaviour \<Rightarrow> 'e persist_event list \<Rightarrow> ('e, 'w, 's, 'v) persist_world \<Rightarrow> bool" where
  "lawful_history b [] w = True"
| "lawful_history b (ev # evs) w = (event_lawful b ev w \<and> lawful_history b evs (persist_step b ev w))"

section \<open>Growing the log\<close>

lemma take_grow: "0 \<le> n \<Longrightarrow> n \<le> int (length hist) \<Longrightarrow> take (nat n) (hist @ more_events) = take (nat n) hist"
  by simp

lemma snap_ok_grow: "snap_ok b hist sn \<Longrightarrow> snap_ok b (hist @ events) sn"
  by (auto simp: snap_ok_def take_grow simp del: take_append)

lemma seen_grow: "seen_events b hist a \<Longrightarrow> seen_events b (hist @ events) a"
  by (auto simp: seen_events_def take_grow simp del: take_append)

lemma snap_opt_ok_grow: "snap_opt_ok b hist snap \<Longrightarrow> snap_opt_ok b (hist @ events) snap"
  by (auto simp: snap_opt_ok_def snap_ok_grow split: option.splits)

lemma phase_sound_grow: "phase_sound b hist snaps a \<Longrightarrow> phase_sound b (hist @ events) snaps a"
  by (auto simp: phase_sound_def seen_grow snap_opt_ok_grow split: actor_phase.splits)

lemma phase_sound_covered: "phase_sound b hist snaps a \<Longrightarrow> (\<And>n. covered snaps n \<Longrightarrow> covered snaps' n) \<Longrightarrow> phase_sound b hist snaps' a"
  by (auto simp: phase_sound_def split: actor_phase.splits)

lemma phase_sound_cong:
  "pa_phase a' = pa_phase a \<Longrightarrow> pa_state a' = pa_state a \<Longrightarrow> pa_seq a' = pa_seq a \<Longrightarrow> phase_sound b hist snaps a' = phase_sound b hist snaps a"
  by (simp add: phase_sound_def seen_events_def split: actor_phase.splits)

lemma phase_sound_Ready: "pa_phase a = Ready \<Longrightarrow> phase_sound b hist snaps a = seen_events b hist a"
  by (simp add: phase_sound_def)

lemma seen_phase: "seen_events b hist (a\<lparr>pa_phase := ph\<rparr>) = seen_events b hist a" "seen_events b hist (a\<lparr>pa_error := e\<rparr>) = seen_events b hist a"
  "seen_events b hist (a\<lparr>pa_isLeaseHolder := h\<rparr>) = seen_events b hist a"
  by (simp_all add: seen_events_def)

lemma world_ok_set_actor:
  "world_ok b w \<Longrightarrow> phase_sound b (w_log w) (snapshots_of (b_persistenceId b) (w_snapshots w)) a \<Longrightarrow> world_ok b (set_actor i a w)"
  by (auto simp: world_ok_def set_actor_def stores_ok_def)

lemma world_ok_actor: "world_ok b w \<Longrightarrow> w_actors w i = Some a \<Longrightarrow> phase_sound b (w_log w) (snapshots_of (b_persistenceId b) (w_snapshots w)) a"
  by (simp add: world_ok_def)

section \<open>Recovery\<close>

lemma wire_decodes: "faithful_codecs b \<Longrightarrow> decodeEvent b (wire b e) = Some e"
proof -
  assume "faithful_codecs b"
  then obtain w where "eventPayload b (encodeEvent b e) = Some w" "decodeEvent b w = Some e" unfolding faithful_codecs_def by blast
  then show ?thesis by (simp add: wire_def stored_form_def)
qed

lemma replay_fold_wires: "faithful_codecs b \<Longrightarrow> replay_fold b state (map (wire b) events) = Some (foldl (onEvent b) state events)"
  by (induction events arbitrary: state) (simp_all add: wire_decodes)

lemma numbers_of_rows:
  assumes "map (\<lambda>e. (sequenceNr e, pe_event e)) events = rows_from d L"
  shows "numbers_of events = run_of (int d) (length L - d)" "map pe_event events = drop d L"
    "events \<noteq> [] \<Longrightarrow> sequenceNr (last events) = int (length L)"
proof -
  have seqs: "map sequenceNr events = map (\<lambda>k. int k + 1) [d..<length L]"
    using arg_cong [OF assms, of "map fst"] by (simp add: rows_from_def comp_def)
  have shift: "[d..<length L] = map ((+) d) [0..<length L - d]"
  proof (cases "d \<le> length L")
    case True
    have "map ((+) m) [0..<n] = [m..<m + n]" for m n :: nat by (induction n) auto
    then show ?thesis using True by simp
  qed simp
  have "numbers_of events = map (\<lambda>n. Fin (of_int n)) (map sequenceNr events)" by (simp add: numbers_of_def)
  then show "numbers_of events = run_of (int d) (length L - d)"
    unfolding seqs run_of_def shift map_map by (simp add: comp_def)
  have "map pe_event events = map ((!) L) [d..<length L]"
    using arg_cong [OF assms, of "map snd"] by (simp add: rows_from_def comp_def)
  then show "map pe_event events = drop d L"
    by (simp add: list_eq_iff_nth_eq)
  assume ne: "events \<noteq> []"
  then have "[d..<length L] \<noteq> []" using seqs by auto
  moreover have "sequenceNr (last events) = last (map sequenceNr events)" using ne by (simp add: last_map)
  ultimately show "sequenceNr (last events) = int (length L)" unfolding seqs by (simp add: last_map)
qed

lemma finish_seen:
  assumes b: "faithful_codecs b" and snap: "snap_opt_ok b hist snap" and k: "from_seq snap = int k" "k \<le> length hist"
    and events: "map pe_event events = map (wire b) (drop k hist) \<or> events = []"
    and seq: "seq = (if events = [] then int k else int (length hist))"
  shows "pa_phase (recovery_finish b snap events seq a) = Ready \<and> seen_events b hist (recovery_finish b snap events seq a)"
proof -
  have start: "(case snap of None \<Rightarrow> Some (initialState b) | Some sn \<Rightarrow> decodeState b (sn_state sn)) = Some (log_state b (take k hist))"
    using snap k(1) by (auto simp: snap_opt_ok_def snap_ok_def from_seq_def log_state_def split: option.splits)
  have fold: "foldReplayHistory b snap events = replay_fold b (log_state b (take k hist)) (map pe_event events)"
    unfolding foldReplayHistory_def start by simp
  show ?thesis
  proof (cases "events = []")
    case True
    then show ?thesis using fold seq k(2) by (simp add: recovery_finish_def seen_events_def)
  next
    case False
    then have "map pe_event events = map (wire b) (drop k hist)" using events by simp
    then have "foldReplayHistory b snap events = Some (log_state b hist)"
      unfolding fold by (simp add: replay_fold_wires [OF b] log_state_def flip: foldl_append)
    then show ?thesis using False seq by (simp add: recovery_finish_def seen_events_def)
  qed
qed

lemma from_seq_nat: "snap_opt_ok b hist snap \<Longrightarrow> \<exists>k \<le> length hist. from_seq snap = int k"
  by (cases snap) (auto simp: snap_opt_ok_def snap_ok_def from_seq_def intro!: exI [of _ "nat (from_seq snap)"])

lemma recovery_read_ok:
  assumes b: "faithful_codecs b" and j: "journal_from (b_persistenceId b) d j (map (wire b) hist)" and snap: "snap_opt_ok b hist snap"
  shows "phase_sound b hist snaps (recovery_read b snap j a)"
proof -
  obtain k where k: "k \<le> length hist" "from_seq snap = int k" using from_seq_nat [OF snap] by blast
  define events where "events = journal_read (b_persistenceId b) (from_seq snap + 1) None j"
  have rows: "map (\<lambda>e. (sequenceNr e, pe_event e)) events = rows_from (max d k) (map (wire b) hist)"
    unfolding events_def k(2) by (rule read_from [OF j])
  note facts = numbers_of_rows [OF rows, simplified]
  show ?thesis
  proof (cases "assertTrustworthyHistory (from_seq snap) None False (numbers_of events)")
    case False
    then show ?thesis by (simp add: recovery_read_def readReplayHistory_def events_def [symmetric] phase_sound_def)
  next
    case True
    define seq where "seq = (if events = [] then from_seq snap else sequenceNr (last events))"
    have read: "readReplayHistory (b_persistenceId b) None False snap j = Inr (events, seq)"
      using True by (simp add: readReplayHistory_def events_def [symmetric] seq_def)
    have gapless: "map pe_event events = map (wire b) (drop k hist) \<or> events = []"
    proof (cases "events = []")
      case False
      then have "numbers_of events \<noteq> []" by (simp add: numbers_of_def)
      then have "numbers_of events = run_of (int k) (length (numbers_of events))"
        using True k(2) by (simp add: history_check_iff)
      then have "run_of (int (max d k)) (length hist - max d k) = run_of (int k) (length hist - max d k)" "length hist - max d k \<noteq> 0"
        using facts(1) \<open>numbers_of events \<noteq> []\<close> by (auto simp: run_of_def)
      then have "max d k = k" by (cases "length hist - max d k") auto
      then show ?thesis using facts(2) by (simp add: drop_map)
    qed simp
    have seq: "seq = (if events = [] then int k else int (length hist))" using facts(3) k(2) by (simp add: seq_def)
    show ?thesis
    proof (cases "seq = 0")
      case True
      then have "events = []" using gapless seq k(1) facts(2) by (auto split: if_splits)
      then show ?thesis using True read snap seq k by (simp add: recovery_read_def phase_sound_def)
    next
      case False
      then have "recovery_read b snap j a = recovery_finish b snap events seq a" using read by (simp add: recovery_read_def)
      then show ?thesis using finish_seen [OF b snap k(2,1) gapless seq, of a] by (simp add: phase_sound_Ready)
    qed
  qed
qed

lemma recovery_probe_ok:
  assumes b: "faithful_codecs b" and j: "journal_from (b_persistenceId b) d j (map (wire b) hist)" and snap: "snap_opt_ok b hist snap"
    and none: "from_seq snap = 0" "journal_highestSeq (b_persistenceId b) j = 0"
  shows "phase_sound b hist snaps (recovery_probe b snap [] j a)"
  using finish_seen [OF b snap, of 0 "[]" 0 a] none by (simp add: recovery_probe_def phase_sound_Ready)

lemma recovery_load_ok:
  assumes "list_all (snap_ok b hist) (snapshots_of (b_persistenceId b) st)"
  shows "phase_sound b hist snaps (recovery_load b answers st a)"
proof -
  have "snap_ok b hist sn" if "snapshot_loadLatest (b_persistenceId b) st = Some sn" for sn
    using that assms by (auto simp: snapshot_loadLatest_def list_all_iff split: list.splits)
  then show ?thesis
    by (auto simp: recovery_load_def loadReplaySnapshot_def loadSnapshotOrNull_def phase_sound_def snap_opt_ok_def split: option.splits persist_error.splits sum.splits)
qed

section \<open>Snapshots\<close>

lemma covered_iff: "covered snaps n \<longleftrightarrow> (\<exists>sn \<in> set snaps. n \<le> sn_sequenceNr sn)"
  by (auto simp: covered_def list_ex_iff)

lemma first_index:
  assumes "\<exists>x \<in> set xs. P x"
  shows "length (takeWhile (\<lambda>x. \<not> P x) xs) < length xs" "P (xs ! length (takeWhile (\<lambda>x. \<not> P x) xs))"
proof -
  show less: "length (takeWhile (\<lambda>x. \<not> P x) xs) < length xs"
    using assms by (metis (no_types, lifting) length_takeWhile_le nat_less_le takeWhile_eq_all_conv takeWhile_eq_take take_all)
  show "P (xs ! length (takeWhile (\<lambda>x. \<not> P x) xs))" using nth_length_takeWhile [OF less] by simp
qed

lemma put_snapshot_facts:
  assumes "sorted (map sn_sequenceNr snaps)"
  shows "sorted (map sn_sequenceNr (put_snapshot row snaps))" "set (put_snapshot row snaps) \<subseteq> insert row (set snaps)"
    "covered snaps n \<Longrightarrow> covered (put_snapshot row snaps) n" "put_snapshot row snaps \<noteq> []"
proof -
  have "sorted (map sn_sequenceNr (put_snapshot row snaps)) \<and> set (put_snapshot row snaps) \<subseteq> insert row (set snaps) \<and>
    sn_sequenceNr ` set snaps \<subseteq> sn_sequenceNr ` set (put_snapshot row snaps) \<and> put_snapshot row snaps \<noteq> []"
  proof (cases "\<exists>sn \<in> set snaps. sn_sequenceNr sn = sn_sequenceNr row")
    case True
    define i where "i = length (takeWhile (\<lambda>sn. sn_sequenceNr sn \<noteq> sn_sequenceNr row) snaps)"
    have i: "i < length snaps" "sn_sequenceNr (snaps ! i) = sn_sequenceNr row"
      using first_index [OF True] by (simp_all add: i_def)
    have put: "put_snapshot row snaps = snaps[i := row]" using True by (simp add: put_snapshot_def i_def)
    have same: "map sn_sequenceNr (snaps[i := row]) = map sn_sequenceNr snaps"
      using i by (simp add: map_update list_update_same_conv)
    then have "sn_sequenceNr ` set snaps = sn_sequenceNr ` set (snaps[i := row])" by (metis list.set_map)
    then show ?thesis using i assms same by (auto simp: put set_update_subset_insert)
  next
    case False
    then have put: "put_snapshot row snaps = sort_key sn_sequenceNr (snaps @ [row])" by (simp add: put_snapshot_def)
    have "set (sort_key sn_sequenceNr (snaps @ [row])) \<noteq> {}" by simp
    then show ?thesis unfolding put by (auto simp del: set_sort) auto
  qed
  then show "sorted (map sn_sequenceNr (put_snapshot row snaps))" "set (put_snapshot row snaps) \<subseteq> insert row (set snaps)"
    "covered snaps n \<Longrightarrow> covered (put_snapshot row snaps) n" "put_snapshot row snaps \<noteq> []"
    by (force simp: covered_iff)+
qed

lemma covered_drop:
  assumes "sorted (map sn_sequenceNr snaps)" "k < length snaps" "covered snaps n"
  shows "covered (drop k snaps) n"
proof -
  obtain i where i: "i < length snaps" "n \<le> sn_sequenceNr (snaps ! i)" using assms(3) by (auto simp: covered_iff in_set_conv_nth)
  have "sn_sequenceNr (snaps ! i) \<le> sn_sequenceNr (snaps ! (length snaps - 1))"
    using sorted_nth_mono [OF assms(1), of i "length snaps - 1"] i by simp
  moreover have "snaps ! (length snaps - 1) \<in> set (drop k snaps)"
    using assms(2) by (auto simp: in_set_conv_nth intro!: exI [of _ "length snaps - 1 - k"])
  ultimately show ?thesis using i(2) unfolding covered_iff by (meson order_trans)
qed

lemma snapshots_of_jset [simp]: "snapshots_of p (st\<lparr>snapshot_lists := jset (snapshot_lists st) p list\<rparr>) = list"
  by (simp add: snapshots_of_def)

lemma save_facts:
  assumes save: "snapshot_save payload p seq state now st = Inr st'" and sorted: "sorted (map sn_sequenceNr (snapshots_of p st))"
  obtains stored where "payload state = Some stored" "sorted (map sn_sequenceNr (snapshots_of p st'))"
    "set (snapshots_of p st') \<subseteq> insert \<lparr>sn_persistenceId = p, sn_sequenceNr = seq, sn_state = stored, sn_timestamp = now\<rparr> (set (snapshots_of p st))"
    "\<And>n. covered (snapshots_of p st) n \<Longrightarrow> covered (snapshots_of p st') n"
proof -
  obtain stored where stored: "payload state = Some stored" using save by (auto simp: snapshot_save_def split: option.splits)
  define row where "row = \<lparr>sn_persistenceId = p, sn_sequenceNr = seq, sn_state = stored, sn_timestamp = now\<rparr>"
  define list where "list = put_snapshot row (snapshots_of p st)"
  note put = put_snapshot_facts [OF sorted, where row = row, folded list_def]
  have st': "snapshots_of p st' = (if keepN st > 0 \<and> int (length list) > keepN st then drop (length list - nat (keepN st)) list else list)"
    using save stored by (auto simp: snapshot_save_def Let_def row_def [symmetric] list_def [symmetric])
  show thesis
  proof (rule that [OF stored])
    show "sorted (map sn_sequenceNr (snapshots_of p st'))" using put(1) by (simp add: st' drop_map [symmetric] sorted_wrt_drop)
    show "set (snapshots_of p st') \<subseteq> insert \<lparr>sn_persistenceId = p, sn_sequenceNr = seq, sn_state = stored, sn_timestamp = now\<rparr> (set (snapshots_of p st))"
      using put(2) set_drop_subset [of _ list] by (auto simp: st' row_def)
    show "covered (snapshots_of p st') n" if "covered (snapshots_of p st) n" for n
      using put(1,3) that covered_drop [of list "length list - nat (keepN st)" n] by (auto simp: st')
  qed
qed

lemma delete_facts:
  assumes "covered (snapshots_of p st) (n + 1)"
  shows "snapshots_of p (snapshot_delete p n st) = filter (\<lambda>sn. sn_sequenceNr sn > n) (snapshots_of p st)"
    "covered (snapshots_of p st) k \<Longrightarrow> covered (snapshots_of p (snapshot_delete p n st)) k"
proof -
  show del: "snapshots_of p (snapshot_delete p n st) = filter (\<lambda>sn. sn_sequenceNr sn > n) (snapshots_of p st)"
    by (auto simp: snapshot_delete_def snapshots_of_def split: option.splits)
  assume "covered (snapshots_of p st) k"
  then show "covered (snapshots_of p (snapshot_delete p n st)) k" using assms unfolding del covered_iff by (metis (mono_tags, lifting) dual_order.strict_trans1 linorder_le_less_linear mem_Collect_eq order_less_imp_le set_filter zle_add1_eq_le add1_zle_eq)
qed

lemma stores_okD:
  assumes "stores_ok b w"
  obtains d where "journal_from (b_persistenceId b) d (w_journal w) (map (wire b) (w_log w))"
    "d = 0 \<or> covered (snapshots_of (b_persistenceId b) (w_snapshots w)) (int d)"
    "sorted (map sn_sequenceNr (snapshots_of (b_persistenceId b) (w_snapshots w)))"
    "list_all (snap_ok b (w_log w)) (snapshots_of (b_persistenceId b) (w_snapshots w))"
  using assms unfolding stores_ok_def by blast

lemma stores_ok_snapshots:
  assumes w: "stores_ok b w" and sorted: "sorted (map sn_sequenceNr (snapshots_of (b_persistenceId b) st))"
    and ok: "list_all (snap_ok b (w_log w)) (snapshots_of (b_persistenceId b) st)"
    and cover: "\<And>n. covered (snapshots_of (b_persistenceId b) (w_snapshots w)) n \<Longrightarrow> covered (snapshots_of (b_persistenceId b) st) n"
  shows "stores_ok b (w\<lparr>w_snapshots := st\<rparr>)"
  using w sorted ok cover unfolding stores_ok_def by auto

lemma world_ok_snapshots:
  assumes w: "world_ok b w" and stores: "stores_ok b (w\<lparr>w_snapshots := st\<rparr>)"
    and cover: "\<And>n. covered (snapshots_of (b_persistenceId b) (w_snapshots w)) n \<Longrightarrow> covered (snapshots_of (b_persistenceId b) st) n"
  shows "world_ok b (w\<lparr>w_snapshots := st\<rparr>)"
proof -
  have "phase_sound b (w_log w) (snapshots_of (b_persistenceId b) st) a" if "w_actors w i = Some a" for i a
    using phase_sound_covered [OF world_ok_actor [OF w that] cover] by blast
  then show ?thesis using stores by (simp add: world_ok_def)
qed

lemma save_done_ok:
  assumes b: "faithful_codecs b" and w: "world_ok b w" and a: "seen_events b (w_log w) a"
  shows "world_ok b (save_done b i now call a w)"
proof (cases "snapshot_save (statePayload b) (b_persistenceId b) (pa_seq a) (encodeState b (pa_state a)) now (w_snapshots w)")
  case (Inl e)
  then show ?thesis using w a by (auto simp: save_done_def intro!: world_ok_set_actor simp: phase_sound_Ready seen_events_def)
next
  case (Inr st)
  have stores: "stores_ok b w" using w by (simp add: world_ok_def)
  then obtain d where d: "sorted (map sn_sequenceNr (snapshots_of (b_persistenceId b) (w_snapshots w)))"
    "list_all (snap_ok b (w_log w)) (snapshots_of (b_persistenceId b) (w_snapshots w))" by (rule stores_okD)
  obtain stored where st: "statePayload b (encodeState b (pa_state a)) = Some stored" "sorted (map sn_sequenceNr (snapshots_of (b_persistenceId b) st))"
    "set (snapshots_of (b_persistenceId b) st) \<subseteq>
      insert \<lparr>sn_persistenceId = b_persistenceId b, sn_sequenceNr = pa_seq a, sn_state = stored, sn_timestamp = now\<rparr>
        (set (snapshots_of (b_persistenceId b) (w_snapshots w)))"
    "\<And>n. covered (snapshots_of (b_persistenceId b) (w_snapshots w)) n \<Longrightarrow> covered (snapshots_of (b_persistenceId b) st) n"
    by (rule save_facts [OF Inr d(1)]) blast
  have "decodeState b stored = Some (pa_state a)" using b st(1) unfolding faithful_codecs_def by (metis option.inject)
  then have "snap_ok b (w_log w) \<lparr>sn_persistenceId = b_persistenceId b, sn_sequenceNr = pa_seq a, sn_state = stored, sn_timestamp = now\<rparr>"
    using a by (simp add: snap_ok_def seen_events_def)
  then have ok: "list_all (snap_ok b (w_log w)) (snapshots_of (b_persistenceId b) st)" using st(3) d(2) unfolding list_all_iff by blast
  have "world_ok b (w\<lparr>w_snapshots := st\<rparr>)"
    by (rule world_ok_snapshots [OF w stores_ok_snapshots [OF stores st(2) ok st(4)] st(4)])
  then show ?thesis using w a Inr by (auto simp: save_done_def intro!: world_ok_set_actor simp: phase_sound_Ready seen_events_def)
qed

lemma deleteHistory_ok:
  assumes w: "world_ok b w" and a: "pa_phase a = Ready" "seen_events b (w_log w) a"
    and lawful: "toSeq \<le> 0 \<or> covered (snapshots_of (b_persistenceId b) (w_snapshots w)) toSeq"
  shows "world_ok b (deleteHistory b i toSeq call a w)"
proof (cases "toSeq \<le> 0")
  case False
  then have cover: "covered (snapshots_of (b_persistenceId b) (w_snapshots w)) (toSeq - 1 + 1)" using lawful by simp
  let ?st = "snapshot_delete (b_persistenceId b) (toSeq - 1) (w_snapshots w)"
  note del = delete_facts [OF cover]
  have stores: "stores_ok b w" using w by (simp add: world_ok_def)
  then obtain d where d: "sorted (map sn_sequenceNr (snapshots_of (b_persistenceId b) (w_snapshots w)))"
    "list_all (snap_ok b (w_log w)) (snapshots_of (b_persistenceId b) (w_snapshots w))" by (rule stores_okD)
  have "stores_ok b (w\<lparr>w_snapshots := ?st\<rparr>)"
    by (rule stores_ok_snapshots [OF stores _ _ del(2)]) (use d in \<open>auto simp: del(1) list_all_iff sorted_filter\<close>)
  then have w1: "world_ok b (w\<lparr>w_snapshots := ?st\<rparr>)" by (rule world_ok_snapshots [OF w _ del(2)])
  have cover': "covered (snapshots_of (b_persistenceId b) ?st) toSeq" using del(2) cover by simp
  show ?thesis
    using False w w1 cover' a
    by (auto simp: deleteHistory_def Let_def phase_sound_def seen_events_def intro!: world_ok_set_actor)
qed (simp add: deleteHistory_def w)

lemma drop_events_ok:
  assumes w: "world_ok b w" and a: "seen_events b (w_log w) a" and cover: "covered (snapshots_of (b_persistenceId b) (w_snapshots w)) toSeq"
  shows "world_ok b (drop_events b i toSeq call a w)"
proof -
  have stores: "stores_ok b w" using w by (simp add: world_ok_def)
  then obtain d where d: "journal_from (b_persistenceId b) d (w_journal w) (map (wire b) (w_log w))"
    "d = 0 \<or> covered (snapshots_of (b_persistenceId b) (w_snapshots w)) (int d)"
    "list_all (snap_ok b (w_log w)) (snapshots_of (b_persistenceId b) (w_snapshots w))" by (rule stores_okD)
  have "toSeq \<le> int (length (w_log w))" using cover d(3) unfolding covered_iff list_all_iff snap_ok_def by force
  then have from_d: "journal_from (b_persistenceId b) (max d (nat toSeq)) (journal_delete (b_persistenceId b) toSeq (w_journal w)) (map (wire b) (w_log w))"
    using delete_from [OF d(1)] by simp
  have "max d (nat toSeq) = 0 \<or> covered (snapshots_of (b_persistenceId b) (w_snapshots w)) (int (max d (nat toSeq)))"
    using d(2) cover by (cases "d \<le> nat toSeq"; cases "toSeq \<le> 0") (auto simp: max_def)
  then have "stores_ok b (w\<lparr>w_journal := journal_delete (b_persistenceId b) toSeq (w_journal w)\<rparr>)"
    using stores from_d unfolding stores_ok_def by auto
  then have "world_ok b (w\<lparr>w_journal := journal_delete (b_persistenceId b) toSeq (w_journal w)\<rparr>)"
    using w by (simp add: world_ok_def)
  then show ?thesis using w a by (auto simp: drop_events_def Let_def intro!: world_ok_set_actor simp: phase_sound_Ready seen_events_def)
qed

section \<open>Appends\<close>

lemma apply_written_result:
  assumes "length written = length events"
  shows "fst (apply_written b snap (zip written events) state seq) = foldl (onEvent b) state events \<and>
    fst (snd (apply_written b snap (zip written events) state seq)) = (if written = [] then seq else sequenceNr (last written))"
  using assms
proof (induction events arbitrary: written snap state seq)
  case (Cons e events)
  then obtain pe rest where "written = pe # rest" by (cases written) auto
  then show ?case using Cons by (simp add: Let_def)
qed simp

lemma stored_wires: "map (stored_form (eventPayload b)) (entries_of b events) = map (wire b) events"
  by (simp add: entries_of_def wire_def)

text \<open>An append that has its effect was made by an instance that had seen the whole log.\<close>

lemma append_effect:
  assumes stores: "stores_ok b w" and events: "events \<noteq> []"
    and run: "journal_append (eventPayload b) (b_persistenceId b) (entries_of b events) seq now (w_journal w) = Inr (written, j)"
  shows "seq = int (length (w_log w))" "stores_ok b (w\<lparr>w_journal := j, w_log := w_log w @ events\<rparr>)"
    "length written = length events" "sequenceNr (last written) = int (length (w_log w @ events))"
proof -
  obtain d where d: "journal_from (b_persistenceId b) d (w_journal w) (map (wire b) (w_log w))"
    "d = 0 \<or> covered (snapshots_of (b_persistenceId b) (w_snapshots w)) (int d)"
    "sorted (map sn_sequenceNr (snapshots_of (b_persistenceId b) (w_snapshots w)))"
    "list_all (snap_ok b (w_log w)) (snapshots_of (b_persistenceId b) (w_snapshots w))"
    by (rule stores_okD [OF stores])
  have ne: "entries_of b events \<noteq> []" using events by (simp add: entries_of_def)
  note facts = append_from(1) [OF d(1) run] append_from(2) [OF d(1) run ne]
  show seq: "seq = int (length (w_log w))" using facts(2) by simp
  have "list_all (snap_ok b (w_log w @ events)) (snapshots_of (b_persistenceId b) (w_snapshots w))"
    using d(4) by (simp add: list_all_iff snap_ok_grow)
  then show "stores_ok b (w\<lparr>w_journal := j, w_log := w_log w @ events\<rparr>)"
    using facts(1) d(2,3) unfolding stores_ok_def stored_wires by auto
  have numbers: "map sequenceNr written = map (\<lambda>k. seq + int k + 1) [0..<length events]" using facts(2) by (simp add: entries_of_def)
  then show len: "length written = length events" by (metis diff_zero length_map length_upt)
  have "written \<noteq> []" using len events by auto
  then have "sequenceNr (last written) = last (map sequenceNr written)" by (simp add: last_map)
  also have "\<dots> = seq + int (length events)" unfolding numbers using events by (cases events) (simp_all add: last_map)
  finally show "sequenceNr (last written) = int (length (w_log w @ events))" using seq by simp
qed

lemma world_ok_log:
  assumes w: "world_ok b w" and stores: "stores_ok b (w\<lparr>w_journal := j, w_log := w_log w @ events\<rparr>)"
  shows "world_ok b (w\<lparr>w_journal := j, w_log := w_log w @ events\<rparr>)"
  using stores phase_sound_grow [OF world_ok_actor [OF w]] by (simp add: world_ok_def)

lemma append_done_ok:
  assumes w: "world_ok b w" and a: "seen_events b (w_log w) a" "events \<noteq> []"
  shows "world_ok b (append_done b i events now call a w)"
proof -
  have ready: "phase_sound b (w_log w) snaps (a\<lparr>pa_phase := Ready, pa_error := e\<rparr>)" for snaps e using a by (simp add: phase_sound_Ready seen_events_def)
  have stopped: "phase_sound b (w_log w) snaps (a\<lparr>pa_phase := Stopped, pa_isLeaseHolder := False, pa_error := e\<rparr>)" for snaps e
    by (simp add: phase_sound_def)
  show ?thesis
  proof (cases "journal_append (eventPayload b) (b_persistenceId b) (entries_of b events) (pa_seq a) now (w_journal w)")
    case (Inl e)
    then show ?thesis using w ready stopped by (cases e) (auto simp: append_done_def intro!: world_ok_set_actor)
  next
    case (Inr r)
    obtain written j where r: "r = (written, j)" by fastforce
    have stores: "stores_ok b w" using w by (simp add: world_ok_def)
    note eff = append_effect [OF stores a(2) Inr [unfolded r]]
    define w1 where "w1 = w\<lparr>w_journal := j, w_log := w_log w @ events\<rparr>"
    have w1: "world_ok b w1" "w_log w1 = w_log w @ events" unfolding w1_def using world_ok_log [OF w eff(2)] by simp_all
    obtain state seq snap where run: "apply_written b False (zip written events) (pa_state a) (pa_seq a) = (state, seq, snap)" by (metis prod_cases3)
    have "written \<noteq> []" using eff(3) a(2) by auto
    then have state: "state = log_state b (w_log w1)" "seq = int (length (w_log w1))"
      using apply_written_result [OF eff(3), of b False "pa_state a" "pa_seq a"] run a(1) eff(1,4) w1(2) by (simp_all add: seen_events_def log_state_def)
    have served: "phase_sound b (w_log w1) snaps (a\<lparr>pa_phase := (if snap then Saving else Ready), pa_state := state, pa_seq := seq\<rparr>)" for snaps
      using state by (simp add: phase_sound_def seen_events_def)
    have ready1: "phase_sound b (w_log w1) snaps (a\<lparr>pa_phase := Ready, pa_error := e\<rparr>)" for snaps e
      using phase_sound_grow [OF ready] w1(2) by simp
    show ?thesis
      using w ready world_ok_set_actor [OF w1(1) served] world_ok_set_actor [OF w1(1) ready1]
      by (cases call) (auto simp: append_done_def Inr r Let_def w1_def [symmetric] run intro!: world_ok_set_actor)
  qed
qed

section \<open>Every lawful step keeps the invariant\<close>

lemma actor_step_ok:
  assumes b: "faithful_codecs b" and w: "world_ok b w" and a: "w_actors w i = Some a" and i: "i = instance_of ev" and lawful: "event_lawful b ev w"
  shows "world_ok b (actor_step b i ev a w)"
proof -
  have phase: "phase_sound b (w_log w) (snapshots_of (b_persistenceId b) (w_snapshots w)) a" by (rule world_ok_actor [OF w a])
  have stores: "stores_ok b w" using w by (simp add: world_ok_def)
  obtain d where d: "journal_from (b_persistenceId b) d (w_journal w) (map (wire b) (w_log w))"
    "list_all (snap_ok b (w_log w)) (snapshots_of (b_persistenceId b) (w_snapshots w))" by (rule stores_okD [OF stores])
  show ?thesis
  proof (cases ev)
    case (Snapshot_Loaded k answers)
    then show ?thesis using w recovery_load_ok [OF d(2)] by (auto simp: actor_step_def intro!: world_ok_set_actor split: actor_phase.splits)
  next
    case (Snapshot_Checked k)
    then show ?thesis using w phase
      by (auto simp: actor_step_def recovery_check_def phase_sound_def intro!: world_ok_set_actor split: actor_phase.splits)
  next
    case (History_Read k)
    have "world_ok b (set_actor i (recovery_read b snap (w_journal w) a) w)" if "pa_phase a = Reading snap" for snap
      using phase that by (intro world_ok_set_actor [OF w] recovery_read_ok [OF b d(1)]) (simp add: phase_sound_def)
    then show ?thesis using History_Read w by (auto simp: actor_step_def split: actor_phase.splits)
  next
    case (Head_Probed k)
    have "world_ok b (set_actor i (recovery_probe b snap events (w_journal w) a) w)" if "pa_phase a = Probing snap events" for snap events
    proof -
      have "events = []" "from_seq snap = 0" "snap_opt_ok b (w_log w) snap" using phase that by (simp_all add: phase_sound_def)
      moreover have "journal_highestSeq (b_persistenceId b) (w_journal w) = 0"
        using lawful that a i Head_Probed by (simp add: event_lawful_def)
      ultimately show ?thesis using recovery_probe_ok [OF b d(1)] by (auto intro!: world_ok_set_actor [OF w])
    qed
    then show ?thesis using Head_Probed w by (auto simp: actor_step_def split: actor_phase.splits)
  next
    case (Persist k events)
    have "phase_sound b (w_log w) snaps (persistAll events a)" if "pa_phase a = Ready" for snaps
      using phase that by (simp add: persistAll_def phase_sound_def seen_events_def)
    then show ?thesis using Persist w by (auto simp: actor_step_def intro!: world_ok_set_actor split: actor_phase.splits)
  next
    case (Append_Done k now call)
    have "world_ok b (append_done b i events now call a w)" if "pa_phase a = Appending events" for events
      using phase that by (intro append_done_ok [OF w]) (simp_all add: phase_sound_def)
    then show ?thesis using Append_Done w by (auto simp: actor_step_def split: actor_phase.splits)
  next
    case (Save_Snapshot k)
    then show ?thesis using w phase by (auto simp: actor_step_def phase_sound_def seen_events_def intro!: world_ok_set_actor split: actor_phase.splits)
  next
    case (Save_Done k now call)
    have "world_ok b (save_done b i now call a w)" if "pa_phase a = Saving"
      using phase that by (intro save_done_ok [OF b w]) (simp add: phase_sound_def)
    then show ?thesis using Save_Done w by (auto simp: actor_step_def split: actor_phase.splits)
  next
    case (Delete_History k toSeq call)
    have "world_ok b (deleteHistory b i toSeq call a w)" if "pa_phase a = Ready"
      using phase that lawful Delete_History by (intro deleteHistory_ok [OF w that]) (simp_all add: phase_sound_def event_lawful_def)
    then show ?thesis using Delete_History w by (auto simp: actor_step_def split: actor_phase.splits)
  next
    case (Events_Dropped k call)
    have "world_ok b (drop_events b i toSeq call a w)" if "pa_phase a = Compacting toSeq" for toSeq
      using phase that by (intro drop_events_ok [OF w]) (simp_all add: phase_sound_def)
    then show ?thesis using Events_Dropped w by (auto simp: actor_step_def split: actor_phase.splits)
  next
    case (Lease_Lost k)
    have "phase_sound b (w_log w) snaps (a\<lparr>pa_isLeaseHolder := False\<rparr>) = phase_sound b (w_log w) snaps a" for snaps by (rule phase_sound_cong) simp_all
    then show ?thesis using Lease_Lost w phase by (auto simp: actor_step_def intro!: world_ok_set_actor)
  qed (simp_all add: actor_step_def w)
qed

lemma persist_step_ok:
  assumes b: "faithful_codecs b" and w: "world_ok b w" and lawful: "event_lawful b ev w"
  shows "world_ok b (persist_step b ev w)"
proof -
  have step: "world_ok b (case w_actors w (instance_of ev) of None \<Rightarrow> w | Some a \<Rightarrow> actor_step b (instance_of ev) ev a w)"
    using w actor_step_ok [OF b w _ refl lawful] by (auto split: option.splits)
  show ?thesis
  proof (cases ev)
    case (Start i lease)
    then show ?thesis using w by (auto simp: persist_step_def actor_start_def phase_sound_def intro!: world_ok_set_actor)
  next
    case (Crash i)
    then show ?thesis using w by (simp add: persist_step_def world_ok_def stores_ok_def)
  qed (use step in \<open>simp_all add: persist_step_def split: option.splits\<close>)
qed

lemma persist_history_ok:
  assumes "faithful_codecs b" "world_ok b w" "lawful_history b events w"
  shows "world_ok b (persist_history b events w)"
  using assms(2,3)
proof (induction events arbitrary: w)
  case (Cons ev events)
  then show ?case using persist_step_ok [OF assms(1)] by (simp add: persist_history_def)
qed (simp add: persist_history_def)

lemma new_world_ok: "world_ok b (new_world keep)"
  by (simp add: world_ok_def stores_ok_def new_world_def empty_journal_def journal_from_def journal_highestSeq_def stream_of_def rows_from_def snapshots_of_def)

section \<open>What persistence promises\<close>

text \<open>The phases in which an instance has recovered and works for its entity.\<close>

definition serving :: "('e, 'w, 's, 'v) persistent_actor \<Rightarrow> bool" where
  "serving a = (case pa_phase a of Ready \<Rightarrow> True | Appending events \<Rightarrow> True | Saving \<Rightarrow> True | Compacting n \<Rightarrow> True | _ \<Rightarrow> False)"


definition recover_alone :: "nat \<Rightarrow> bool option \<Rightarrow> 'e persist_event list" where
  "recover_alone i lease = [Start i lease, Snapshot_Loaded i True, Snapshot_Checked i, History_Read i, Head_Probed i]"

lemma latest_covers:
  assumes "sorted (map sn_sequenceNr snaps)" "snaps \<noteq> []" "covered snaps n"
  shows "n \<le> sn_sequenceNr (last snaps)"
proof -
  obtain i where i: "i < length snaps" "n \<le> sn_sequenceNr (snaps ! i)" using assms(3) by (auto simp: covered_iff in_set_conv_nth)
  have "sn_sequenceNr (snaps ! i) \<le> sn_sequenceNr (snaps ! (length snaps - 1))"
    using sorted_nth_mono [OF assms(1), of i "length snaps - 1"] i by simp
  then show ?thesis using i(2) assms(2) by (simp add: last_conv_nth)
qed

lemma read_all:
  assumes b: "faithful_codecs b" and j: "journal_from (b_persistenceId b) d j (map (wire b) hist)" and snap: "snap_opt_ok b hist snap"
    and k: "from_seq snap = int k" "d \<le> k" and small: "length hist \<le> 9007199254740991"
  obtains events seq where "readReplayHistory (b_persistenceId b) None False snap j = Inr (events, seq)" "seq = int (length hist)"
    "pa_phase (recovery_finish b snap events seq a) = Ready" "pa_state (recovery_finish b snap events seq a) = log_state b hist"
proof -
  have k': "k \<le> length hist" using from_seq_nat [OF snap] k(1) by auto
  define events where "events = journal_read (b_persistenceId b) (from_seq snap + 1) None j"
  have "map (\<lambda>e. (sequenceNr e, pe_event e)) events = rows_from k (map (wire b) hist)"
    using read_from [OF j, of k] k by (simp add: events_def max_def)
  note facts = numbers_of_rows [OF this, simplified]
  have checked: "assertTrustworthyHistory (from_seq snap) None False (numbers_of events)"
    unfolding history_check_iff facts(1) k(1) using k' small by auto
  have "events = [] \<longleftrightarrow> map pe_event events = []" by simp
  then have empty: "events = [] \<longleftrightarrow> k = length hist" unfolding facts(2) using k' by auto
  have seq: "(if events = [] then from_seq snap else sequenceNr (last events)) = int (length hist)" using facts(3) empty k(1) by simp
  note fin = finish_seen [OF b snap k(1) k', of events "int (length hist)" a]
  show thesis
  proof (rule that)
    show "readReplayHistory (b_persistenceId b) None False snap j = Inr (events, int (length hist))"
      using checked seq by (simp add: readReplayHistory_def events_def [symmetric])
    have ready: "pa_phase (recovery_finish b snap events (int (length hist)) a) = Ready \<and> seen_events b hist (recovery_finish b snap events (int (length hist)) a)"
      using facts(2) empty by (intro fin) (simp_all add: drop_map)
    then show "pa_phase (recovery_finish b snap events (int (length hist)) a) = Ready" by simp
    then have "pa_seq (recovery_finish b snap events (int (length hist)) a) = int (length hist)" by (simp add: recovery_finish_def split: option.splits)
    then show "pa_state (recovery_finish b snap events (int (length hist)) a) = log_state b hist" using ready by (simp add: seen_events_def)
  qed simp
qed

lemma own_step:
  "(\<forall>k lease. ev \<noteq> Start k lease) \<Longrightarrow> (\<forall>k. ev \<noteq> Crash k) \<Longrightarrow> persist_step b ev (set_actor (instance_of ev) a w) = actor_step b (instance_of ev) ev a (set_actor (instance_of ev) a w)"
  by (cases ev) (auto simp: persist_step_def set_actor_def)

lemma set_actor_again [simp]: "set_actor i a' (set_actor i a w) = set_actor i a' w"
  "w_journal (set_actor i a w) = w_journal w" "w_snapshots (set_actor i a w) = w_snapshots w" "w_log (set_actor i a w) = w_log w"
  "w_actors (set_actor i a w) i = Some a"
  by (simp_all add: set_actor_def)

lemmas recovery_steps =
  own_step [of "Snapshot_Loaded i answers" for i answers, simplified] own_step [of "Snapshot_Checked i" for i, simplified]
  own_step [of "History_Read i" for i, simplified] own_step [of "Head_Probed i" for i, simplified]

lemma load_latest:
  assumes "stores_ok b w"
  obtains snap d k where "loadReplaySnapshot b None True (w_snapshots w) = Inr snap" "snap_opt_ok b (w_log w) snap"
    "journal_from (b_persistenceId b) d (w_journal w) (map (wire b) (w_log w))" "from_seq snap = int k" "d \<le> k"
proof -
  define snaps where "snaps = snapshots_of (b_persistenceId b) (w_snapshots w)"
  obtain d where d: "journal_from (b_persistenceId b) d (w_journal w) (map (wire b) (w_log w))" "d = 0 \<or> covered snaps (int d)"
    and snaps: "sorted (map sn_sequenceNr snaps)" "list_all (snap_ok b (w_log w)) snaps"
    using assms by (auto simp: stores_ok_def snaps_def)
  define snap where "snap = snapshot_loadLatest (b_persistenceId b) (w_snapshots w)"
  have snap: "snap = (if snaps = [] then None else Some (last snaps))"
    by (simp add: snap_def snapshot_loadLatest_def snaps_def split: list.splits)
  have ok: "snap_opt_ok b (w_log w) snap" using snaps(2) by (simp add: snap snap_opt_ok_def list_all_iff)
  obtain k where k: "from_seq snap = int k" using from_seq_nat [OF ok] by blast
  have "d \<le> k"
  proof (cases "snaps = []")
    case True
    then show ?thesis using d(2) by (simp add: covered_def)
  next
    case False
    then have "d = 0 \<or> int d \<le> sn_sequenceNr (last snaps)" using d(2) latest_covers [OF snaps(1)] by blast
    then show ?thesis using k False by (auto simp: snap from_seq_def)
  qed
  moreover have "loadReplaySnapshot b None True (w_snapshots w) = Inr snap"
    by (simp add: loadReplaySnapshot_def loadSnapshotOrNull_def snap_def)
  ultimately show thesis using that ok d(1) k by blast
qed

lemma recover_alone_reads:
  assumes "stores_ok b w" "loadReplaySnapshot b None True (w_snapshots w) = Inr snap" "snap_opt_ok b (w_log w) snap"
    "validPersistenceId (b_persistenceId b)"
  shows "persist_history b (recover_alone i lease) w =
    persist_step b (Head_Probed i) (set_actor i (recovery_read b snap (w_journal w) (actor_start b lease)) w)"
proof -
  let ?a = "actor_start b lease"
  have high: "journal_highestSeq (b_persistenceId b) (w_journal w) = int (length (w_log w))"
    using assms(1) by (auto simp: stores_ok_def journal_from_def)
  have start: "persist_step b (Start i lease) w = set_actor i ?a w" by (simp add: persist_step_def)
  have load: "persist_step b (Snapshot_Loaded i True) (set_actor i ?a w) = set_actor i (recovery_load b True (w_snapshots w) ?a) w"
    using assms(4) by (simp add: recovery_steps actor_step_def actor_start_def)
  have check: "persist_step b (Snapshot_Checked i) (set_actor i (recovery_load b True (w_snapshots w) ?a) w) = set_actor i (?a\<lparr>pa_phase := Reading snap\<rparr>) w"
  proof (cases snap)
    case None
    then show ?thesis using assms(2) by (simp add: recovery_steps actor_step_def recovery_load_def)
  next
    case (Some sn)
    then have "assertTrustworthySnapshot (int (length (w_log w))) (from_seq snap)"
      using assms(3) by (simp add: assertTrustworthySnapshot_def from_seq_def snap_opt_ok_def snap_ok_def)
    then show ?thesis using assms(2) Some by (simp add: recovery_steps actor_step_def recovery_load_def recovery_check_def high)
  qed
  have read: "persist_step b (History_Read i) (set_actor i (?a\<lparr>pa_phase := Reading snap\<rparr>) w) = set_actor i (recovery_read b snap (w_journal w) (?a\<lparr>pa_phase := Reading snap\<rparr>)) w"
    by (simp add: recovery_steps actor_step_def)
  have "recovery_read b snap (w_journal w) (?a\<lparr>pa_phase := Reading snap\<rparr>) = recovery_read b snap (w_journal w) ?a"
    by (simp add: recovery_read_def recovery_finish_def split: sum.splits option.splits)
  then show ?thesis by (simp add: persist_history_def recover_alone_def start load check read)
qed


section \<open>A run\<close>

text \<open>An actor that keeps the list of its events and takes a snapshot of every second one.\<close>

definition events_kept :: "(int, int, int list, int list) behaviour" where
  "events_kept = \<lparr>b_persistenceId = ''p'', initialState = [], onEvent = (\<lambda>s e. s @ [e]), encodeEvent = (\<lambda>e. e), decodeEvent = Some,
     encodeState = (\<lambda>s. s), decodeState = Some, tagsFor = (\<lambda>e. None), snapshotPolicy = (\<lambda>n s e. n mod 2 = 0),
     eventPayload = Some, statePayload = Some, snapshotIsOptional = False, protectedSnapshot = False\<rparr>"

definition persist_demo :: "int persist_event list" where
  "persist_demo =
     recover_alone 0 None @ [Persist 0 [1, 2], Append_Done 0 0 Answers, Save_Done 0 0 Answers] @
     recover_alone 1 None @ [Persist 1 [3], Append_Done 1 0 Answers, Persist 0 [4], Delete_History 1 2 Answers, Events_Dropped 1 Answers]"

lemma faithful_demo: "faithful_codecs events_kept"
  by (simp add: faithful_codecs_def events_kept_def)

lemma lawful_demo: "lawful_history events_kept persist_demo (new_world 2)"
  by code_simp

lemma persist_demo_log: "w_log (persist_history events_kept persist_demo (new_world 2)) = [1, 2, 3]"
  by code_simp

lemma persist_demo_stale:
  "case w_actors (persist_history events_kept persist_demo (new_world 2)) 0 of
     None \<Rightarrow> False | Some a \<Rightarrow> serving a \<and> pa_seq a = 2 \<and> pa_state a = [1, 2]"
  by code_simp



section \<open>A second writer that is not noticed\<close>

text \<open>
  Instance 0 reads an empty journal. Before it asks for the head, instance 1 recovers and appends; instance 0 takes the new
  head for its own number, appends after an event it has never seen, and the policy then saves its state.
\<close>

definition raced_history :: "int persist_event list" where
  "raced_history =
     [Start 0 None, Snapshot_Loaded 0 True, History_Read 0] @ recover_alone 1 None @
     [Persist 1 [7], Append_Done 1 0 Answers, Head_Probed 0, Persist 0 [8], Append_Done 0 0 Answers, Save_Done 0 0 Answers]"


end
