(* ===== verification/Spec2Isabelle.thy ===== *)
theory Spec2Isabelle
  imports
    Bounded_Mailbox
    Control_Mailbox
    Priority_Mailbox
    Crdt_Maps
    Crdt_Registers
    Downing
    Stability_Window
    Delivery
    Cluster_Self
    Cbor_Bounds
    Actor_Watch
    Actor_Restart
    Restart_Budget
    Shard_Rebalance
    Persist_Recovery
begin

text \<open>
  A model of the core of actor-ts, an actor runtime for TypeScript, and the properties that make it correct.

  \<^bold>\<open>The program and its parts.\<close> An actor system is a tree of \<^emph>\<open>cells\<close> (\<^verbatim>\<open>src/src/internal/ActorCell.ts\<close>). A cell owns a
  \<^emph>\<open>mailbox\<close> (\<^verbatim>\<open>src/src/internal/Mailbox.ts\<close> and \<^verbatim>\<open>src/src/mailbox\<close>), runs its actor's code in turns a dispatcher gives it,
  and answers for its children: a failure goes to the parent, whose strategy resumes, restarts or stops the child
  (\<^verbatim>\<open>src/src/Supervision.ts\<close>). Actor systems on several machines form a \<^emph>\<open>cluster\<close> (\<^verbatim>\<open>src/src/cluster\<close>): nodes gossip
  a table of members, a failure detector turns silence into \<open>unreachable\<close>, and a split-brain resolver decides which
  side of a partition goes on. On top of that stand replicated data types (\<^verbatim>\<open>src/src/crdt\<close>), reliable delivery
  between two actors (\<^verbatim>\<open>src/src/delivery\<close>), entities sharded over the nodes (\<^verbatim>\<open>src/src/cluster/sharding\<close>),
  actors whose state is a log of events (\<^verbatim>\<open>src/src/persistence\<close>), and the binary form in which messages travel
  (\<^verbatim>\<open>src/src/serialization/CborCodec.ts\<close>).

  \<^bold>\<open>Foundations.\<close>
  \<^item> \<open>JS_Prelude\<close>: the JavaScript \<^verbatim>\<open>Map\<close> and \<^verbatim>\<open>Set\<close> as association lists and lists in insertion order, shared lemmas.
  \<^item> \<open>JS_Float\<close>, \<open>JS_Text\<close>: the IEEE numbers and UTF-16/UTF-8 strings the codec needs, as far as it uses them.

  \<^bold>\<open>Mailboxes.\<close>
  \<^item> \<open>Ring_Buffer\<close>: \<^verbatim>\<open>util/RingBuffer.ts\<close> with its 32-bit index masks; refines a list (C1), so the mailboxes use lists.
  \<^item> \<open>Mailbox\<close>: the two queues of a cell, envelopes, the stash; the locale of what every mailbox promises its cell.
  \<^item> \<open>Bounded_Mailbox\<close>, \<open>Control_Mailbox\<close>, \<open>Priority_Mailbox\<close>: the three mailboxes of \<^verbatim>\<open>src/src/mailbox\<close>, each an
    interpretation of that locale. Capacity, order, and that every message is accounted for.

  \<^bold>\<open>The actor cell.\<close>
  \<^item> \<open>Actor_Cell\<close>: the cell's fields as a record, one function per method of \<^verbatim>\<open>ActorCell.ts\<close>. A turn is cut at its
    suspension points (\<open>phase\<close>), and a history is any sequence of calls and of steps of turns, so every interleaving
    the event loop allows is covered.
  \<^item> \<open>Actor_Schedule\<close> (turns are exclusive, wake-ups are not lost), \<open>Actor_Accounting\<close> (every message is found exactly
    once), \<open>Actor_Lifecycle\<close> (a cell stops after its children, and stays stopped), \<open>Actor_Watch\<close> (a death is never
    missed by a watcher), \<open>Restart_Budget\<close> (the bound on restarts), \<open>Actor_Restart\<close> (a late restart undoes a stop: the
    hypothesis of the two theories before, and why it is needed).

  \<^bold>\<open>Replicated data.\<close>
  \<^item> \<open>Crdt_Spec\<close>: the locale of a join-semilattice under an abstraction, from which convergence follows once for all.
  \<^item> \<open>Crdt_Wire\<close>: the decoders' guards; \<open>Crdt_Counters\<close>, \<open>Crdt_Sets\<close>, \<open>Crdt_Registers\<close>, \<open>Crdt_Maps\<close>: the types of
    \<^verbatim>\<open>src/src/crdt\<close>, each an interpretation.

  \<^bold>\<open>The cluster.\<close>
  \<^item> \<open>Cluster_Member\<close>: \<^verbatim>\<open>NodeAddress.ts\<close>, \<^verbatim>\<open>Member.ts\<close> and the wire form of a member.
  \<^item> \<open>Cluster_Node\<close>: the state of \<^verbatim>\<open>Cluster.ts\<close> and its handlers for gossip, heartbeats, joining, leaving and downing;
    \<open>Cluster_Invariant\<close>, \<open>Cluster_Gossip\<close>, \<open>Cluster_Self\<close>: the shape of the table in every reachable state, what a frame
    may change, and that a node's own row is its own.
  \<^item> \<open>Failure_Detector\<close>, \<open>Downing\<close>, \<open>Stability_Window\<close>: the detector, the split-brain resolvers of
    \<^verbatim>\<open>src/src/cluster/downing\<close> (at most one side survives) and the window that holds them back.

  \<^bold>\<open>Sharding.\<close> The entities of a type are spread over shards, the shards over regions, by one coordinator
  (\<^verbatim>\<open>src/src/cluster/sharding\<close>).
  \<^item> \<open>Shard_Allocation\<close>: the two strategies of \<^verbatim>\<open>AllocationStrategy.ts\<close>; the locale \<open>allocation_strategy\<close> is what the
    coordinator may rely on, and both interpret it.
  \<^item> \<open>Shard_Coordinator\<close>: \<^verbatim>\<open>ShardCoordinator.ts\<close>, one function per handler. What it sees of the cluster, the answers of the
    lease, the loads of its snapshot and the firing of its timers come with the events of a history.
  \<^item> \<open>Shard_Ownership\<close>: one owner per shard in every history, and the one way around it, a snapshot that arrives late.
  \<^item> \<open>Shard_Rebalance\<close>: where a shard may be placed, the round robin of a rebalance, the bound on concurrent hand-offs.

  \<^bold>\<open>Event sourcing.\<close> An entity writes events to a journal under the condition that it has seen all of them, and recovers
  by folding them from its last snapshot.
  \<^item> \<open>Persist_Store\<close>: the in-memory journal and snapshot store, the reference for the others; the locale \<open>event_journal\<close> is the
    contract of a journal, which it interprets.
  \<^item> \<open>Persist_Actor\<close>: \<^verbatim>\<open>Replay.ts\<close> and \<^verbatim>\<open>PersistentActor.ts\<close>, cut at their store calls; a history interleaves the steps of any number
    of instances of one entity, crashes, and calls that fail before or after their effect.
  \<^item> \<open>Persist_Recovery\<close>: the check of a history, the state of every instance as the fold of a prefix of the log, what a fresh
    recovery restores, and the race in which a second writer goes unnoticed.

  \<^bold>\<open>Reliable delivery.\<close> \<open>Delivery_Producer\<close> and \<open>Delivery_Consumer\<close> model the two controllers of \<^verbatim>\<open>src/src/delivery\<close>;
  \<open>Delivery\<close> composes them over a network that loses, repeats and reorders.

  \<^bold>\<open>Messages on the wire.\<close> \<open>Bidirectional\<close> models the two-way containers of \<^verbatim>\<open>src/src/util\<close>. \<open>Cbor\<close> models the encoder and
  the decoder byte by byte; \<open>Cbor_Roundtrip\<close> and \<open>Cbor_Total\<close> show that what is encoded is decoded to itself,
  \<open>Cbor_Bounds\<close> that a hostile document costs no more than its length.

  \<^bold>\<open>Fuel and bounds.\<close> The decoder recurses on a fuel that starts above the length of the document and loses one per
  byte read at least; \<open>Cbor_Total\<close> shows it is enough for everything the encoder writes. All other recursion is
  structural or has a measure. Integers that the code keeps within 32 bits are words or carry their range; the other
  numbers of the code are integers, with NaN and the infinities as values of their own where a guard tests for them.

  \<^bold>\<open>Not modelled.\<close> Sockets, timers and host facilities are choices of the histories. Stores on databases and object
  storage, HTTP, brokers, configuration, logging, metrics and the tools are I/O and glue. Durable state, replicated entities, projections
  and migrations of persistence, the replicator around the data types,
  the regions and entities of sharding (the coordinator takes their messages as they come), the singleton, routers and coordinated
  shutdown have logic of their own that is not covered. Metrics,
  tracing and log output inside modelled code are dropped, since nothing reads them back.
\<close>

end
